(* ===== verification/Prelude.thy ===== *)
theory Prelude
  imports Main "HOL-Library.Sublist"
begin

text \<open>
  What the components share: Rust's three-valued \<open>Ordering\<close> with the laws of a comparison
  function as a locale, the string operations of \<open>std\<close> that the sources call, and decimal
  numerals. A Rust string is a HOL \<open>string\<close>; its characters are the ASCII characters, so one
  character is one byte and \<open>len\<close> is \<open>length\<close>.
\<close>

named_theorems ord_simps
named_theorems text_simps

section \<open>Ordering\<close>

text \<open>\<open>std::cmp::Ordering\<close>, its \<open>then_with\<close> and its \<open>reverse\<close>.\<close>

datatype ordering = Less | Equal | Greater

fun then_with :: "ordering \<Rightarrow> ordering \<Rightarrow> ordering" where
  "then_with Equal o2 = o2"
| "then_with Less _ = Less"
| "then_with Greater _ = Greater"

fun reverse_ord :: "ordering \<Rightarrow> ordering" where
  "reverse_ord Less = Greater"
| "reverse_ord Equal = Equal"
| "reverse_ord Greater = Less"

definition cmp_lin :: "'a::linorder \<Rightarrow> 'a \<Rightarrow> ordering" where
  "cmp_lin x y = (if x < y then Less else if x = y then Equal else Greater)"

fun cmp_list :: "('a \<Rightarrow> 'a \<Rightarrow> ordering) \<Rightarrow> 'a list \<Rightarrow> 'a list \<Rightarrow> ordering" where
  "cmp_list c [] [] = Equal"
| "cmp_list c [] (_ # _) = Less"
| "cmp_list c (_ # _) [] = Greater"
| "cmp_list c (x # xs) (y # ys) = then_with (c x y) (cmp_list c xs ys)"

lemma cmp_lin_simps [simp, ord_simps]:
  "cmp_lin x y = Less \<longleftrightarrow> x < y"
  "cmp_lin x y = Equal \<longleftrightarrow> x = y"
  "cmp_lin x y = Greater \<longleftrightarrow> y < x"
  "cmp_lin x x = Equal"
  by (auto simp: cmp_lin_def)

lemma cmp_lin_less [simp]: "x < y \<Longrightarrow> cmp_lin x y = Less" "y < x \<Longrightarrow> cmp_lin x y = Greater"
  by (auto simp: cmp_lin_def)

lemma reverse_cmp_lin: "reverse_ord (cmp_lin x y) = cmp_lin y x"
  by (auto simp: cmp_lin_def)

lemma then_with_simps [simp, ord_simps]:
  "then_with a Equal = a"
  "then_with a b = Equal \<longleftrightarrow> a = Equal \<and> b = Equal"
  "then_with a b = Less \<longleftrightarrow> a = Less \<or> (a = Equal \<and> b = Less)"
  "then_with a b = Greater \<longleftrightarrow> a = Greater \<or> (a = Equal \<and> b = Greater)"
  by (cases a; simp)+

lemma reverse_then_with: "reverse_ord (then_with a b) = then_with (reverse_ord a) (reverse_ord b)"
  by (cases a) simp_all

lemma then_with_assoc: "then_with (then_with a b) c = then_with a (then_with b c)"
  by (cases a) simp_all

text \<open>
  The contract of a comparison function on the values satisfying \<open>ok\<close>: a total preorder.
\<close>

locale comparison =
  fixes ok :: "'a \<Rightarrow> bool" and cmp :: "'a \<Rightarrow> 'a \<Rightarrow> ordering"
  assumes refl: "ok x \<Longrightarrow> cmp x x = Equal"
    and sym: "ok x \<Longrightarrow> ok y \<Longrightarrow> cmp y x = reverse_ord (cmp x y)"
    and trans: "ok x \<Longrightarrow> ok y \<Longrightarrow> ok z \<Longrightarrow>
      cmp x y \<noteq> Greater \<Longrightarrow> cmp y z \<noteq> Greater \<Longrightarrow> cmp x z \<noteq> Greater"
begin

lemma equal_sym: "ok x \<Longrightarrow> ok y \<Longrightarrow> cmp x y = Equal \<longleftrightarrow> cmp y x = Equal"
  using sym [of x y] by (cases "cmp x y") auto

lemma less_greater: "ok x \<Longrightarrow> ok y \<Longrightarrow> cmp x y = Less \<longleftrightarrow> cmp y x = Greater"
  using sym [of x y] by (cases "cmp x y") auto

lemma equal_trans:
  assumes "ok x" "ok y" "ok z" "cmp x y = Equal" "cmp y z = Equal"
  shows "cmp x z = Equal"
proof -
  have "cmp x z \<noteq> Greater" using trans [of x y z] assms by simp
  moreover have "cmp z x \<noteq> Greater"
    using trans [of z y x] assms equal_sym [of x y] equal_sym [of y z] by simp
  ultimately show ?thesis using less_greater [of x z] assms by (cases "cmp x z") auto
qed

lemma less_trans:
  assumes "ok x" "ok y" "ok z" "cmp x y = Less" "cmp y z = Less"
  shows "cmp x z = Less"
proof (rule ccontr)
  assume "cmp x z \<noteq> Less"
  then have "cmp z x \<noteq> Greater" using less_greater [of x z] assms by auto
  then have "cmp z y \<noteq> Greater" using trans [of z x y] assms by simp
  then show False using less_greater [of y z] assms by simp
qed

end

text \<open>Every comparison through a key into a linear order is such a comparison.\<close>

lemma comparison_by_key:
  assumes "\<And>x y. ok x \<Longrightarrow> ok y \<Longrightarrow> cmp x y = cmp_lin (key x) (key y)"
  shows "comparison ok cmp"
proof (unfold_locales)
  fix x y z
  assume xyz: "ok x" "ok y" "ok z" and "cmp x y \<noteq> Greater" "cmp y z \<noteq> Greater"
  then have "key x \<le> key y" "key y \<le> key z"
    using assms [of x y] assms [of y z] by (auto simp: not_less)
  then show "cmp x z \<noteq> Greater" using assms [of x z] xyz by (simp add: not_less)
qed (simp_all add: assms reverse_cmp_lin)


section \<open>Strings\<close>

definition starts_with :: "string \<Rightarrow> string \<Rightarrow> bool" where
  "starts_with s p = (take (length p) s = p)"

definition strip_prefix :: "string \<Rightarrow> string \<Rightarrow> string option" where
  "strip_prefix s p = (if take (length p) s = p then Some (drop (length p) s) else None)"

definition ends_with_char :: "string \<Rightarrow> char \<Rightarrow> bool" where
  "ends_with_char s c = (s \<noteq> [] \<and> last s = c)"

definition strip_suffix_char :: "string \<Rightarrow> char \<Rightarrow> string option" where
  "strip_suffix_char s c = (if s \<noteq> [] \<and> last s = c then Some (butlast s) else None)"

lemma strip_prefix_Some: "strip_prefix s p = Some r \<longleftrightarrow> s = p @ r"
proof
  assume "strip_prefix s p = Some r"
  then show "s = p @ r"
    by (simp add: strip_prefix_def split: if_splits) (metis append_take_drop_id)
qed (simp add: strip_prefix_def)

lemma strip_suffix_char_Some: "strip_suffix_char s c = Some r \<longleftrightarrow> s = r @ [c]"
  by (metis (full_types) butlast_snoc append_butlast_last_id last_snoc option.distinct(1)
      option.inject snoc_eq_iff_butlast strip_suffix_char_def)

lemma ends_with_char_iff: "ends_with_char s c \<longleftrightarrow> (\<exists>r. s = r @ [c])"
  by (auto simp: ends_with_char_def) (metis append_butlast_last_id)

text \<open>\<open>str::split(char)\<close>: the empty string splits into one empty piece.\<close>

fun split_char :: "char \<Rightarrow> string \<Rightarrow> string list" where
  "split_char c [] = [[]]"
| "split_char c (x # xs) =
     (if x = c then [] # split_char c xs
      else (case split_char c xs of [] \<Rightarrow> [[x]] | p # ps \<Rightarrow> (x # p) # ps))"

lemma split_char_nonempty [simp]: "split_char c s \<noteq> []"
  by (induction s) (auto split: list.splits)

lemma split_char_plain: "c \<notin> set s \<Longrightarrow> split_char c s = [s]"
  by (induction s) auto

lemma split_char_append: "c \<notin> set s \<Longrightarrow> split_char c (s @ c # t) = s # split_char c t"
  by (induction s) auto

text \<open>\<open>str::split_whitespace\<close>: the maximal runs of non-blank characters.\<close>

definition is_space :: "char \<Rightarrow> bool" where
  "is_space c = (c \<in> {CHR '' '', CHR 0x09, CHR 0x0A, CHR 0x0B, CHR 0x0C, CHR 0x0D})"

function split_whitespace :: "string \<Rightarrow> string list" where
  "split_whitespace s =
     (let t = dropWhile is_space s
      in if t = [] then []
         else takeWhile (\<lambda>c. \<not> is_space c) t # split_whitespace (dropWhile (\<lambda>c. \<not> is_space c) t))"
  by pat_completeness auto
termination
proof (relation "measure length", goal_cases)
  case (2 s t)
  then obtain x r where t: "t = x # r" "\<not> is_space x"
    using hd_dropWhile [of is_space s] by (metis list.exhaust list.sel(1))
  have "length (dropWhile (\<lambda>c. \<not> is_space c) t) \<le> length r"
    using t by (simp add: length_dropWhile_le)
  also have "length r < length t" using t by simp
  also have "length t \<le> length s" using 2 by (simp add: length_dropWhile_le)
  finally show ?case by simp
qed simp

declare split_whitespace.simps [simp del]

text \<open>\<open>[String]::join\<close>.\<close>

fun join :: "string \<Rightarrow> string list \<Rightarrow> string" where
  "join sep [] = []"
| "join sep [s] = s"
| "join sep (s # t # ts) = s @ sep @ join sep (t # ts)"

text \<open>\<open>str::replace\<close> for a non-empty pattern: every occurrence, from the left.\<close>

function replace_str :: "string \<Rightarrow> string \<Rightarrow> string \<Rightarrow> string" where
  "replace_str pat rep s =
     (if pat = [] then s
      else case strip_prefix s pat of
             Some r \<Rightarrow> rep @ replace_str pat rep r
           | None \<Rightarrow> (case s of [] \<Rightarrow> [] | c # r \<Rightarrow> c # replace_str pat rep r))"
  by pat_completeness auto
termination
  by (relation "measure (\<lambda>(_, _, s). length s)") (auto simp: strip_prefix_Some)

declare replace_str.simps [simp del]

section \<open>Decimal numerals\<close>

definition char_code :: "char \<Rightarrow> nat" where
  "char_code c = of_char c"

lemma char_code_inj [simp]: "char_code a = char_code b \<longleftrightarrow> a = b"
  by (simp add: char_code_def)

definition is_digit :: "char \<Rightarrow> bool" where
  "is_digit c = (48 \<le> char_code c \<and> char_code c \<le> 57)"

definition digit_val :: "char \<Rightarrow> nat" where
  "digit_val c = char_code c - 48"

definition all_digits :: "string \<Rightarrow> bool" where
  "all_digits s = list_all is_digit s"

definition num_of :: "string \<Rightarrow> nat" where
  "num_of s = foldl (\<lambda>n c. 10 * n + digit_val c) 0 s"

text \<open>\<open>str::cmp\<close> compares byte by byte.\<close>

definition cmp_str :: "string \<Rightarrow> string \<Rightarrow> ordering" where
  "cmp_str = cmp_list (\<lambda>a b. cmp_lin (char_code a) (char_code b))"

lemma digit_val_less: "is_digit c \<Longrightarrow> digit_val c < 10"
  by (auto simp: is_digit_def digit_val_def)

lemma digit_val_inj: "is_digit a \<Longrightarrow> is_digit b \<Longrightarrow> digit_val a = digit_val b \<longleftrightarrow> a = b"
  unfolding is_digit_def digit_val_def
  by (metis char_code_inj le_add_diff_inverse)

lemma digit_val_less_iff:
  "is_digit a \<Longrightarrow> is_digit b \<Longrightarrow> digit_val a < digit_val b \<longleftrightarrow> char_code a < char_code b"
  unfolding is_digit_def digit_val_def by linarith

lemma cmp_digit:
  "is_digit a \<Longrightarrow> is_digit b \<Longrightarrow>
     cmp_lin (char_code a) (char_code b) = cmp_lin (digit_val a) (digit_val b)"
  by (simp add: cmp_lin_def digit_val_inj digit_val_less_iff)

lemma all_digits_simps [simp]:
  "all_digits []"
  "all_digits (c # s) \<longleftrightarrow> is_digit c \<and> all_digits s"
  "all_digits (s @ t) \<longleftrightarrow> all_digits s \<and> all_digits t"
  "all_digits (replicate n c) \<longleftrightarrow> n = 0 \<or> is_digit c"
  by (auto simp: all_digits_def list_all_iff)

lemma all_digits_iff: "all_digits s \<longleftrightarrow> (\<forall>c \<in> set s. is_digit c)"
  by (simp add: all_digits_def list_all_iff)

lemma is_digit_zero [simp]: "is_digit CHR ''0''" "digit_val CHR ''0'' = 0"
  by (simp_all add: is_digit_def digit_val_def char_code_def)

lemma is_digit_noneq [simp]:
  "\<not> is_digit CHR ''.''" "\<not> is_digit CHR ''-''" "\<not> is_digit CHR ''_''" "\<not> is_digit CHR ''+''"
  "\<not> is_digit CHR ''r''" "\<not> is_digit CHR ''p''"
  by (simp_all add: is_digit_def char_code_def)

lemma num_of_foldl: "foldl (\<lambda>n c. 10 * n + digit_val c) a s = a * 10 ^ length s + num_of s"
proof (induction s arbitrary: a)
  case Nil
  then show ?case by (simp add: num_of_def)
next
  case (Cons c s)
  show ?case using Cons [of "10 * a + digit_val c"] Cons [of "digit_val c"]
    by (simp add: num_of_def algebra_simps)
qed

lemma num_of_simps [simp]:
  "num_of [] = 0"
  "num_of (c # s) = digit_val c * 10 ^ length s + num_of s"
  "num_of (s @ t) = num_of s * 10 ^ length t + num_of t"
proof -
  show "num_of (c # s) = digit_val c * 10 ^ length s + num_of s" for c s
    using num_of_foldl [of "digit_val c" s] by (simp add: num_of_def)
  show "num_of (s @ t) = num_of s * 10 ^ length t + num_of t" for s t
    using num_of_foldl [of "num_of s" t] by (simp add: num_of_def)
qed (simp add: num_of_def)

lemma num_of_bound: "all_digits s \<Longrightarrow> num_of s < 10 ^ length s"
proof (induction s)
  case (Cons c s)
  have "digit_val c * 10 ^ length s + num_of s < (digit_val c + 1) * 10 ^ length s"
    using Cons by simp
  also have "\<dots> \<le> 10 * 10 ^ length s"
    using Cons.prems digit_val_less [of c] by (intro mult_right_mono) auto
  finally show ?case by simp
qed simp

text \<open>Numerals of one width compare like their bytes.\<close>

lemma cmp_str_digits:
  "all_digits s \<Longrightarrow> all_digits t \<Longrightarrow> length s = length t \<Longrightarrow>
     cmp_str s t = cmp_lin (num_of s) (num_of t)"
proof (induction s arbitrary: t)
  case Nil
  then show ?case by (simp add: cmp_str_def)
next
  case (Cons c s)
  then obtain d u where t: "t = d # u" by (cases t) auto
  have IH: "cmp_str s u = cmp_lin (num_of s) (num_of u)" and len: "length s = length u"
    using Cons t by auto
  have b: "num_of s < 10 ^ length u" "num_of u < 10 ^ length u"
    using num_of_bound [of s] num_of_bound [of u] Cons.prems t by auto
  have lt: "x * 10 ^ n + y < x' * 10 ^ n + y'" if "x < x'" "y < 10 ^ n" for x x' y y' n :: nat
  proof -
    have "x * 10 ^ n + y < Suc x * 10 ^ n" using that by simp
    also have "\<dots> \<le> x' * 10 ^ n" using that by (intro mult_right_mono) auto
    finally show ?thesis by simp
  qed
  have c: "cmp_str (c # s) (d # u) = then_with (cmp_lin (digit_val c) (digit_val d)) (cmp_str s u)"
    using Cons.prems t by (simp add: cmp_str_def cmp_digit)
  consider "digit_val c < digit_val d" | "digit_val c = digit_val d" | "digit_val d < digit_val c"
    by linarith
  then show ?case
  proof cases
    case 1
    then show ?thesis
      using lt [of "digit_val c" "digit_val d" "num_of s" "length u" "num_of u"] b c
      by (simp add: t len cmp_lin_def)
  next
    case 2
    then show ?thesis using IH c by (simp add: t len cmp_lin_def)
  next
    case 3
    then show ?thesis
      using lt [of "digit_val d" "digit_val c" "num_of u" "length u" "num_of s"] b c
      by (simp add: t len cmp_lin_def)
  qed
qed


text \<open>\<open>Display\<close> of an unsigned integer.\<close>

definition digit_char :: "nat \<Rightarrow> char" where
  "digit_char n = char_of (48 + n)"

fun show_nat :: "nat \<Rightarrow> string" where
  "show_nat n = (if n < 10 then [digit_char n] else show_nat (n div 10) @ [digit_char (n mod 10)])"

declare show_nat.simps [simp del]

lemma num_of_show_nat: "num_of (show_nat n) = n"
proof (induction n rule: show_nat.induct)
  case (1 n)
  have d: "digit_val (digit_char m) = m" if "m < 10" for m
    using that by (simp add: digit_val_def digit_char_def char_code_def)
  show ?case
  proof (cases "n < 10")
    case True
    then show ?thesis by (simp add: show_nat.simps [of n] d)
  next
    case False
    then show ?thesis using 1 by (simp add: show_nat.simps [of n] d)
  qed
qed

text \<open>So the rendering of numbers is injective.\<close>

lemma show_nat_inject [simp]: "show_nat m = show_nat n \<longleftrightarrow> m = n"
  by (metis num_of_show_nat)

text \<open>A token between single quotes.\<close>

definition quoted :: "string \<Rightarrow> string" where
  "quoted s = [CHR 0x27] @ s @ [CHR 0x27]"

section \<open>Panics\<close>

text \<open>
  A Rust function that can panic (\<open>unwrap\<close>, \<open>unreachable!\<close>, an index out of range) returns a
  \<open>run\<close>: the value, or \<open>Panic\<close>, which ends the computation.
\<close>

datatype 'a run = Panic | Return 'a

primrec run_bind :: "'a run \<Rightarrow> ('a \<Rightarrow> 'b run) \<Rightarrow> 'b run" where
  "run_bind Panic f = Panic"
| "run_bind (Return x) f = f x"

lemma run_bind_Return_iff [simp]:
  "run_bind m f = Return y \<longleftrightarrow> (\<exists>x. m = Return x \<and> f x = Return y)"
  by (cases m) auto

lemma run_bind_cong [fundef_cong]:
  "m = m' \<Longrightarrow> (\<And>x. m' = Return x \<Longrightarrow> f x = f' x) \<Longrightarrow> run_bind m f = run_bind m' f'"
  by (cases m') auto

section \<open>Results\<close>

text \<open>\<open>Result<A, E>\<close> is \<open>E + A\<close>; the operator \<open>?\<close> is \<open>res_bind\<close>.\<close>

definition res_bind :: "'e + 'a \<Rightarrow> ('a \<Rightarrow> 'e + 'b) \<Rightarrow> 'e + 'b" where
  "res_bind m f = (case m of Inl e \<Rightarrow> Inl e | Inr x \<Rightarrow> f x)"

lemma res_bind_simps [simp]:
  "res_bind (Inl e) f = Inl e"
  "res_bind (Inr x) f = f x"
  by (simp_all add: res_bind_def)

lemma res_bind_Inr_iff [simp]:
  "res_bind m f = Inr y \<longleftrightarrow> (\<exists>x. m = Inr x \<and> f x = Inr y)"
  by (cases m) auto

lemma res_bind_cong [fundef_cong]:
  "m = m' \<Longrightarrow> (\<And>x. m' = Inr x \<Longrightarrow> f x = f' x) \<Longrightarrow> res_bind m f = res_bind m' f'"
  by (cases m') auto

lemma res_bind_assoc: "res_bind (res_bind m f) g = res_bind m (\<lambda>x. res_bind (f x) g)"
  by (cases m) auto

text \<open>\<open>iter().map(f).collect::<Result<Vec<_>, _>>()\<close>: the first error, or all values.\<close>

fun res_map :: "('a \<Rightarrow> 'e + 'b) \<Rightarrow> 'a list \<Rightarrow> 'e + 'b list" where
  "res_map f [] = Inr []"
| "res_map f (x # xs) =
     res_bind (f x) (\<lambda>y. res_bind (res_map f xs) (\<lambda>ys. Inr (y # ys)))"

lemma res_map_cong [fundef_cong]:
  "xs = ys \<Longrightarrow> (\<And>x. x \<in> set ys \<Longrightarrow> f x = g x) \<Longrightarrow> res_map f xs = res_map g ys"
  by (induction ys arbitrary: xs) auto

lemma res_map_append:
  "res_map f (xs @ ys) =
     res_bind (res_map f xs) (\<lambda>us. res_bind (res_map f ys) (\<lambda>vs. Inr (us @ vs)))"
  by (induction xs) (auto simp: res_bind_def split: sum.splits)

lemma res_map_Inr: "(\<And>x. x \<in> set xs \<Longrightarrow> f x = Inr (g x)) \<Longrightarrow> res_map f xs = Inr (map g xs)"
  by (induction xs) auto

text \<open>A fallible function that can also panic.\<close>

datatype ('e, 'a) outcome = Panicked | Err 'e | Ok 'a

primrec out_bind :: "('e, 'a) outcome \<Rightarrow> ('a \<Rightarrow> ('e, 'b) outcome) \<Rightarrow> ('e, 'b) outcome" where
  "out_bind Panicked f = Panicked"
| "out_bind (Err e) f = Err e"
| "out_bind (Ok x) f = f x"

lemma out_bind_Ok_iff [simp]:
  "out_bind m f = Ok y \<longleftrightarrow> (\<exists>x. m = Ok x \<and> f x = Ok y)"
  by (cases m) auto

lemma out_bind_cong [fundef_cong]:
  "m = m' \<Longrightarrow> (\<And>x. m' = Ok x \<Longrightarrow> f x = f' x) \<Longrightarrow> out_bind m f = out_bind m' f'"
  by (cases m') auto

lemma out_bind_assoc: "out_bind (out_bind m f) g = out_bind m (\<lambda>x. out_bind (f x) g)"
  by (cases m) auto

lemma out_bind_Panicked_iff:
  "out_bind m f = Panicked \<longleftrightarrow> m = Panicked \<or> (\<exists>x. m = Ok x \<and> f x = Panicked)"
  by (cases m) auto

primrec out_of_res :: "'e + 'a \<Rightarrow> ('e, 'a) outcome" where
  "out_of_res (Inl e) = Err e"
| "out_of_res (Inr x) = Ok x"

text \<open>\<open>v[i]\<close>: a panic when the index is out of range.\<close>

definition vec_get :: "'a list \<Rightarrow> nat \<Rightarrow> ('e, 'a) outcome" where
  "vec_get v i = (if i < length v then Ok (v ! i) else Panicked)"

definition vec_last :: "'a list \<Rightarrow> 'a option" where
  "vec_last v = (if v = [] then None else Some (last v))"

definition unwrap :: "'a option \<Rightarrow> ('e, 'a) outcome" where
  "unwrap x = (case x of None \<Rightarrow> Panicked | Some y \<Rightarrow> Ok y)"

lemma unwrap_Some [simp]: "unwrap (Some x) = Ok x" by (simp add: unwrap_def)

lemma vec_get_Ok [simp]: "vec_get v i = Ok x \<longleftrightarrow> i < length v \<and> v ! i = x"
  by (auto simp: vec_get_def)

lemma split_whitespace_join:
  assumes "\<forall>t \<in> set ts. t \<noteq> [] \<and> (\<forall>c \<in> set t. \<not> is_space c)"
  shows "split_whitespace (join '' '' ts) = ts"
  using assms
proof (induction ts)
  case Nil
  show ?case by (simp add: split_whitespace.simps)
next
  case (Cons t ts)
  have t: "t \<noteq> []" "\<forall>c \<in> set t. \<not> is_space c" using Cons.prems by auto
  obtain r where r: "join '' '' (t # ts) = t @ r" "dropWhile (\<lambda>c. \<not> is_space c) r = r"
      "takeWhile (\<lambda>c. \<not> is_space c) r = []" "split_whitespace r = ts"
  proof (cases ts)
    case Nil
    then show ?thesis using that [of "[]"] by (simp add: split_whitespace.simps)
  next
    fix u us assume ts: "ts = u # us"
    have sp: "is_space CHR '' ''" by (simp add: is_space_def)
    have "split_whitespace (CHR '' '' # s) = split_whitespace s" for s
      by (subst (1 2) split_whitespace.simps) (simp add: sp)
    then show ?thesis using that [of "CHR '' '' # join '' '' ts"] ts Cons sp by simp
  qed
  have "dropWhile is_space (t @ r) = t @ r" using t by (cases t) auto
  moreover have "takeWhile (\<lambda>c. \<not> is_space c) (t @ r) = t" "dropWhile (\<lambda>c. \<not> is_space c) (t @ r) = r"
    using t r by (simp_all add: takeWhile_append dropWhile_append)
  ultimately show ?case
    using t r by (subst split_whitespace.simps) simp
qed

end
