(* ===== verification/Versions.thy ===== *)
theory Versions
  imports Prelude "HOL-Library.Product_Lexorder" "HOL-Library.List_Lexorder"
begin

text \<open>
  Version strings (\<open>crates/portage-versions/src/lib.rs\<close>): the syntax of \<open>ververify\<close> and the
  comparison \<open>vercmp\<close>. Every function of the file is a definition of the same name. The two
  regular expressions are scanners; \<open>ver_captures_iff\<close> shows that the scanner of
  \<open>ver_regexp\<close> finds the one way to split a string into the five groups. The abstract
  specification is \<open>version_key\<close>: \<open>vercmp\<close> compares the keys in their lexicographic order.
\<close>

section \<open>Version syntax\<close>

record ver_caps =
  vc_main :: string
  vc_dotted :: string
  vc_letter :: string
  vc_suffix :: string
  vc_rev :: "string option"

definition span_digits :: "string \<Rightarrow> string \<times> string" where
  "span_digits s = (takeWhile is_digit s, dropWhile is_digit s)"

lemma length_dropWhile_less: "length (dropWhile P xs) < Suc (length xs)"
  by (simp add: length_dropWhile_le less_Suc_eq_le)

function scan_dotted :: "string \<Rightarrow> string \<times> string" where
  "scan_dotted s =
     (case strip_prefix s ''.'' of
        None \<Rightarrow> ([], s)
      | Some r \<Rightarrow>
          (let (ds, r') = span_digits r
           in if ds = [] then ([], s)
              else (let (d, r'') = scan_dotted r' in (''.'' @ ds @ d, r''))))"
  by pat_completeness auto
termination
  by (relation "measure length")
    (auto simp: strip_prefix_Some span_digits_def length_dropWhile_less)

declare scan_dotted.simps [simp del]

definition is_lower :: "char \<Rightarrow> bool" where
  "is_lower c = (97 \<le> char_code c \<and> char_code c \<le> 122)"

fun scan_letter :: "string \<Rightarrow> string \<times> string" where
  "scan_letter [] = ([], [])"
| "scan_letter (c # s) = (if is_lower c then ([c], s) else ([], c # s))"

text \<open>The alternation of \<open>ver_regexp\<close>: the first name, in this order, that is a prefix.\<close>

fun first_prefix :: "string list \<Rightarrow> string \<Rightarrow> (string \<times> string) option" where
  "first_prefix [] s = None"
| "first_prefix (n # ns) s =
     (case strip_prefix s n of Some r \<Rightarrow> Some (n, r) | None \<Rightarrow> first_prefix ns s)"

definition suffix_names :: "string list" where
  "suffix_names = [''pre'', ''p'', ''beta'', ''alpha'', ''rc'']"

lemma first_prefix_Some: "first_prefix ns s = Some (n, r) \<Longrightarrow> n \<in> set ns \<and> s = n @ r"
  by (induction ns) (auto simp: strip_prefix_Some split: option.splits)

function scan_suffixes :: "string \<Rightarrow> string \<times> string" where
  "scan_suffixes s =
     (case strip_prefix s ''_'' of
        None \<Rightarrow> ([], s)
      | Some r \<Rightarrow>
          (case first_prefix suffix_names r of
             None \<Rightarrow> ([], s)
           | Some (n, r1) \<Rightarrow>
               (let (ds, r2) = span_digits r1; (x, r3) = scan_suffixes r2
                in (''_'' @ n @ ds @ x, r3))))"
  by pat_completeness auto
termination
proof (relation "measure length", goal_cases)
  case (2 s r nr n r1 dr ds r2)
  then have "s = CHR ''_'' # n @ r1" and "r2 = dropWhile is_digit r1"
    by (auto simp: strip_prefix_Some span_digits_def dest: first_prefix_Some)
  moreover have "length (dropWhile is_digit r1) \<le> length r1" by (rule length_dropWhile_le)
  ultimately show ?case by simp
qed simp

declare scan_suffixes.simps [simp del]

definition scan_rev :: "string \<Rightarrow> string option option" where
  "scan_rev s =
     (if s = [] then Some None
      else case strip_prefix s ''-r'' of
             None \<Rightarrow> None
           | Some ds \<Rightarrow> if ds \<noteq> [] \<and> all_digits ds then Some (Some ds) else None)"

text \<open>\<open>ver_regexp().captures\<close>.\<close>

definition ver_captures :: "string \<Rightarrow> ver_caps option" where
  "ver_captures s =
     (let (m, r1) = span_digits s; (d, r2) = scan_dotted r1; (l, r3) = scan_letter r2;
          (x, r4) = scan_suffixes r3
      in if m = [] then None
         else (case scan_rev r4 of
                 None \<Rightarrow> None
               | Some rv \<Rightarrow> Some \<lparr>vc_main = m, vc_dotted = d, vc_letter = l, vc_suffix = x,
                                  vc_rev = rv\<rparr>))"

definition ververify :: "string \<Rightarrow> bool" where
  "ververify myver = (ver_captures myver \<noteq> None)"

section \<open>Components\<close>

datatype part = ImplicitZero | Num int | BigNum string

definition trim_zeros :: "string \<Rightarrow> string" where
  "trim_zeros = dropWhile (\<lambda>c. c = CHR ''0'')"

definition cmp_bignum :: "string \<Rightarrow> string \<Rightarrow> ordering" where
  "cmp_bignum a b =
     (let a = trim_zeros a; b = trim_zeros b
      in then_with (cmp_lin (length a) (length b)) (cmp_str a b))"

fun part_cmp :: "part \<Rightarrow> part \<Rightarrow> ordering" where
  "part_cmp ImplicitZero ImplicitZero = Equal"
| "part_cmp ImplicitZero _ = Less"
| "part_cmp _ ImplicitZero = Greater"
| "part_cmp (Num a) (Num b) = cmp_lin a b"
| "part_cmp (BigNum a) (BigNum b) = cmp_bignum a b"
| "part_cmp (BigNum _) (Num _) = Greater"
| "part_cmp (Num _) (BigNum _) = Less"

text \<open>The value of a suffix name; \<open>unreachable!\<close> on any other string.\<close>

definition suffix_value :: "string \<Rightarrow> int run" where
  "suffix_value name =
     (if name = ''pre'' then Return (-2)
      else if name = ''p'' then Return 0
      else if name = ''alpha'' then Return (-4)
      else if name = ''beta'' then Return (-3)
      else if name = ''rc'' then Return (-1)
      else Panic)"

text \<open>\<open>str::parse::<i128>\<close>: an optional sign, then digits, in range.\<close>

definition i128_max :: int where "i128_max = 2 ^ 127 - 1"

definition parse_i128 :: "string \<Rightarrow> int option" where
  "parse_i128 s =
     (let (neg, ds) = (case s of
          [] \<Rightarrow> (False, [])
        | c # r \<Rightarrow> if c = CHR ''-'' then (True, r) else if c = CHR ''+'' then (False, r)
                   else (False, s))
      in if ds = [] \<or> \<not> all_digits ds then None
         else (let v = (if neg then - int (num_of ds) else int (num_of ds))
               in if - i128_max - 1 \<le> v \<and> v \<le> i128_max then Some v else None))"

definition parse_component :: "string \<Rightarrow> part" where
  "parse_component s = (case parse_i128 s of Some v \<Rightarrow> Num v | None \<Rightarrow> BigNum s)"

definition parse_uint_or_zero :: "string \<Rightarrow> part" where
  "parse_uint_or_zero s = (if s = [] then Num 0 else parse_component s)"

text \<open>
  \<open>format!("{a:0<width$}")\<close>. A width at run time is a \<open>u16\<close> since Rust 1.87 (the workspace asks for 1.95);
  a larger one is a panic.
\<close>

definition pad_zeros :: "nat \<Rightarrow> string \<Rightarrow> string run" where
  "pad_zeros width a =
     (if 65535 < int width then Panic else Return (a @ replicate (width - length a) CHR ''0''))"

definition starts_zero :: "string \<Rightarrow> bool" where
  "starts_zero a = starts_with a ''0''"

definition dotted_pair :: "string \<Rightarrow> string \<Rightarrow> (part \<times> part) run" where
  "dotted_pair a b =
     (if a = [] then Return (ImplicitZero, parse_component b)
      else if b = [] then Return (parse_component a, ImplicitZero)
      else if \<not> starts_zero a \<and> \<not> starts_zero b then Return (parse_component a, parse_component b)
      else (let width = max (length a) (length b)
            in run_bind (pad_zeros width a) (\<lambda>a'. run_bind (pad_zeros width b) (\<lambda>b'.
                 Return (parse_component a', parse_component b')))))"

text \<open>The index loop over both lists, a missing entry read as the empty string.\<close>

fun dotted_loop :: "string list \<Rightarrow> string list \<Rightarrow> (part list \<times> part list) run" where
  "dotted_loop [] [] = Return ([], [])"
| "dotted_loop (a # as) [] =
     run_bind (dotted_pair a '''') (\<lambda>(p, q). run_bind (dotted_loop as []) (\<lambda>(ps, qs). Return (p # ps, q # qs)))"
| "dotted_loop [] (b # bs) =
     run_bind (dotted_pair '''' b) (\<lambda>(p, q). run_bind (dotted_loop [] bs) (\<lambda>(ps, qs). Return (p # ps, q # qs)))"
| "dotted_loop (a # as) (b # bs) =
     run_bind (dotted_pair a b) (\<lambda>(p, q). run_bind (dotted_loop as bs) (\<lambda>(ps, qs). Return (p # ps, q # qs)))"

definition dotted_parts :: "string \<Rightarrow> string list" where
  "dotted_parts d = (if d = [] then [] else split_char CHR ''.'' (drop 1 d))"

definition build_dotted_lists :: "string \<Rightarrow> string \<Rightarrow> (part list \<times> part list) run" where
  "build_dotted_lists dotted1 dotted2 = dotted_loop (dotted_parts dotted1) (dotted_parts dotted2)"

fun cmp_parts :: "part list \<Rightarrow> part list \<Rightarrow> ordering" where
  "cmp_parts [] [] = Equal"
| "cmp_parts [] (_ # _) = Less"
| "cmp_parts (_ # _) [] = Greater"
| "cmp_parts (a # as) (b # bs) =
     (let ord = part_cmp a b in if ord \<noteq> Equal then ord else cmp_parts as bs)"

section \<open>Suffix chains\<close>

text \<open>\<open>suffix_regexp\<close>, anchored at both ends; a chunk it does not match is a panic.\<close>

fun suffix_captures :: "string list \<Rightarrow> string \<Rightarrow> (string \<times> string) option" where
  "suffix_captures [] s = None"
| "suffix_captures (n # ns) s =
     (case strip_prefix s n of
        Some r \<Rightarrow> if all_digits r then Some (n, r) else suffix_captures ns s
      | None \<Rightarrow> suffix_captures ns s)"

definition split_suffix :: "string \<Rightarrow> (string \<times> string) run" where
  "split_suffix s =
     (case suffix_captures [''alpha'', ''beta'', ''rc'', ''pre'', ''p''] s of
        None \<Rightarrow> Panic | Some c \<Rightarrow> Return c)"

definition parse_suffix_chain :: "string \<Rightarrow> string list" where
  "parse_suffix_chain chain = (if chain = [] then [] else drop 1 (split_char CHR ''_'' chain))"

definition suffix_at :: "string list \<Rightarrow> (string \<times> string) run" where
  "suffix_at l = (case l of s # _ \<Rightarrow> split_suffix s | [] \<Rightarrow> Return (''p'', ''-1''))"

function cmp_suffix_lists :: "string list \<Rightarrow> string list \<Rightarrow> ordering run" where
  "cmp_suffix_lists l1 l2 =
     (if l1 = [] \<and> l2 = [] then Return Equal
      else run_bind (suffix_at l1) (\<lambda>(name1, num1).
           run_bind (suffix_at l2) (\<lambda>(name2, num2).
             if name1 \<noteq> name2
             then run_bind (suffix_value name1) (\<lambda>v1.
                  run_bind (suffix_value name2) (\<lambda>v2. Return (cmp_lin v1 v2)))
             else (let ord = part_cmp (parse_uint_or_zero num1) (parse_uint_or_zero num2)
                   in if ord \<noteq> Equal then Return ord else cmp_suffix_lists (tl l1) (tl l2)))))"
  by pat_completeness auto
termination
proof (relation "measure (\<lambda>(l1, l2). length l1 + length l2)", goal_cases)
  case (2 l1 l2 p1 name1 num1 p2 name2 num2 ord)
  then have "l1 \<noteq> [] \<or> l2 \<noteq> []" by blast
  then show ?case by (cases l1; cases l2) auto
qed simp

declare cmp_suffix_lists.simps [simp del]

definition cmp_suffixes :: "string \<Rightarrow> string \<Rightarrow> ordering run" where
  "cmp_suffixes chain1 chain2 =
     cmp_suffix_lists (parse_suffix_chain chain1) (parse_suffix_chain chain2)"

section \<open>Comparison\<close>

fun ordering_to_i32 :: "ordering \<Rightarrow> int" where
  "ordering_to_i32 Less = -1"
| "ordering_to_i32 Equal = 0"
| "ordering_to_i32 Greater = 1"

definition letter_part :: "string \<Rightarrow> part list" where
  "letter_part l = (case l of [] \<Rightarrow> [] | c # _ \<Rightarrow> [Num (int (char_code c))])"

definition rev_text :: "ver_caps \<Rightarrow> string" where
  "rev_text c = (case vc_rev c of None \<Rightarrow> '''' | Some r \<Rightarrow> r)"

definition vercmp_caps :: "ver_caps \<Rightarrow> ver_caps \<Rightarrow> int run" where
  "vercmp_caps c1 c2 =
     run_bind (build_dotted_lists (vc_dotted c1) (vc_dotted c2)) (\<lambda>(d1, d2).
       let list1 = parse_component (vc_main c1) # d1 @ letter_part (vc_letter c1);
           list2 = parse_component (vc_main c2) # d2 @ letter_part (vc_letter c2);
           ord = cmp_parts list1 list2
       in if ord \<noteq> Equal then Return (ordering_to_i32 ord)
          else run_bind (cmp_suffixes (vc_suffix c1) (vc_suffix c2)) (\<lambda>ord.
                 if ord \<noteq> Equal then Return (ordering_to_i32 ord)
                 else Return (ordering_to_i32
                        (part_cmp (parse_uint_or_zero (rev_text c1)) (parse_uint_or_zero (rev_text c2))))))"

definition vercmp :: "string \<Rightarrow> string \<Rightarrow> int option run" where
  "vercmp ver1 ver2 =
     (if ver1 = ver2 then Return (Some 0)
      else case ver_captures ver1 of
             None \<Rightarrow> Return None
           | Some c1 \<Rightarrow>
               (case ver_captures ver2 of
                  None \<Rightarrow> Return None
                | Some c2 \<Rightarrow> run_bind (vercmp_caps c1 c2) (\<lambda>r. Return (Some r))))"

section \<open>Components compare as integers\<close>

lemma dropWhile_zeros_num: "num_of (trim_zeros s) = num_of s"
  unfolding trim_zeros_def by (induction s) auto

lemma trim_zeros_digits: "all_digits s \<Longrightarrow> all_digits (trim_zeros s)"
  unfolding trim_zeros_def by (induction s) auto

lemma trim_zeros_hd:
  assumes "all_digits s" "trim_zeros s = c # r"
  shows "0 < digit_val c"
proof -
  have "is_digit c" using trim_zeros_digits [OF assms(1)] assms(2) by simp
  moreover have "c \<noteq> CHR ''0''"
    using assms(2) hd_dropWhile [of "\<lambda>c. c = CHR ''0''" s] by (auto simp: trim_zeros_def)
  ultimately show ?thesis using digit_val_inj [of c "CHR ''0''"] by simp
qed

lemma num_of_lower: "0 < digit_val c \<Longrightarrow> 10 ^ length r \<le> num_of (c # r)"
  by (simp add: trans_le_add1)

lemma num_less_by_length:
  assumes "all_digits s" "all_digits t" "length (trim_zeros s) < length (trim_zeros t)"
  shows "num_of s < num_of t"
proof -
  obtain c r where t: "trim_zeros t = c # r" using assms(3) by (cases "trim_zeros t") auto
  have "num_of s < 10 ^ length (trim_zeros s)"
    using num_of_bound [OF trim_zeros_digits [OF assms(1)]] by (simp add: dropWhile_zeros_num)
  also have "\<dots> \<le> (10 :: nat) ^ length r"
    using assms(3) t by (intro power_increasing) auto
  also have "\<dots> \<le> num_of t"
    using num_of_lower [OF trim_zeros_hd [OF assms(2) t], of r] dropWhile_zeros_num [of t] t by simp
  finally show ?thesis .
qed

lemma cmp_bignum_num:
  assumes "all_digits s" "all_digits t"
  shows "cmp_bignum s t = cmp_lin (num_of s) (num_of t)"
proof -
  consider "length (trim_zeros s) < length (trim_zeros t)"
    | "length (trim_zeros s) = length (trim_zeros t)"
    | "length (trim_zeros t) < length (trim_zeros s)" by linarith
  then show ?thesis
  proof cases
    case 1
    then show ?thesis using num_less_by_length [OF assms 1]
      by (simp add: cmp_bignum_def Let_def cmp_lin_def)
  next
    case 2
    then show ?thesis
      using cmp_str_digits [OF trim_zeros_digits [OF assms(1)] trim_zeros_digits [OF assms(2)]]
      by (simp add: cmp_bignum_def Let_def dropWhile_zeros_num cmp_lin_def)
  next
    case 3
    then show ?thesis using num_less_by_length [OF assms(2,1) 3]
      by (simp add: cmp_bignum_def Let_def cmp_lin_def)
  qed
qed

lemma parse_component_digits:
  assumes "all_digits s" "s \<noteq> []"
  shows "parse_component s = (if int (num_of s) \<le> i128_max then Num (int (num_of s)) else BigNum s)"
proof -
  obtain c r where s: "s = c # r" "is_digit c" using assms by (cases s) auto
  then have "c \<noteq> CHR ''-''" "c \<noteq> CHR ''+''" by auto
  moreover have "- i128_max - 1 \<le> int (num_of s)" by (simp add: i128_max_def)
  ultimately show ?thesis using assms s
    by (simp add: parse_component_def parse_i128_def del: num_of_simps)
qed

lemma part_cmp_digits:
  assumes "all_digits s" "s \<noteq> []" "all_digits t" "t \<noteq> []"
  shows "part_cmp (parse_component s) (parse_component t) = cmp_lin (num_of s) (num_of t)"
  using assms by (auto simp: parse_component_digits cmp_bignum_num) (auto simp: cmp_lin_def)

text \<open>A revision or suffix number: absent counts as 0, the padding \<open>-1\<close> as itself.\<close>

definition uint_value :: "string \<Rightarrow> int" where
  "uint_value s = (if s = ''-1'' then -1 else int (num_of s))"

definition uint_text :: "string \<Rightarrow> bool" where
  "uint_text s \<longleftrightarrow> s = ''-1'' \<or> all_digits s"

lemma parse_minus_one: "parse_component ''-1'' = Num (-1)"
  by (simp add: parse_component_def parse_i128_def is_digit_def char_code_def digit_val_def
      i128_max_def)

lemma part_cmp_uint:
  assumes "uint_text s" "uint_text t"
  shows "part_cmp (parse_uint_or_zero s) (parse_uint_or_zero t) = cmp_lin (uint_value s) (uint_value t)"
proof -
  have p: "parse_uint_or_zero s = (if uint_value s \<le> i128_max then Num (uint_value s) else BigNum s)"
    if "uint_text s" for s
    using that parse_minus_one
    by (auto simp: uint_text_def parse_uint_or_zero_def uint_value_def parse_component_digits
        i128_max_def)
  have "all_digits s" if "\<not> uint_value s \<le> i128_max" "uint_text s" for s
    using that by (auto simp: uint_value_def uint_text_def i128_max_def)
  then have "cmp_bignum s t = cmp_lin (uint_value s) (uint_value t)"
    if "\<not> uint_value s \<le> i128_max" "\<not> uint_value t \<le> i128_max"
    using that assms cmp_bignum_num [of s t]
    by (auto simp: uint_value_def cmp_lin_def i128_max_def split: if_splits)
  then show ?thesis using p [OF assms(1)] p [OF assms(2)]
    by (auto simp: cmp_lin_def not_le)
qed

section \<open>The abstract order of versions\<close>

text \<open>
  The key of a dotted component: one with a leading zero is a decimal fraction (its digits
  without trailing zeros), below every component without one, which is an integer.
\<close>

fun strip_trailing :: "int list \<Rightarrow> int list" where
  "strip_trailing [] = []"
| "strip_trailing (d # ds) =
     (let r = strip_trailing ds in if r = [] \<and> d = 0 then [] else d # r)"

definition digits_of :: "string \<Rightarrow> int list" where
  "digits_of s = map (\<lambda>c. int (digit_val c)) s"

definition comp_key :: "string \<Rightarrow> int \<times> int list" where
  "comp_key s =
     (if starts_zero s then (0, strip_trailing (digits_of s)) else (1, [int (num_of s)]))"

text \<open>
  The key of a suffix chain: the rank of each name with its number, closed by the implicit
  \<open>_p\<close> with number \<open>-1\<close>, which no written suffix equals.
\<close>

definition suffix_key :: "string \<Rightarrow> int \<times> int" where
  "suffix_key s =
     (case split_suffix s of
        Panic \<Rightarrow> (0, 0)
      | Return (n, d) \<Rightarrow>
          (case suffix_value n of Panic \<Rightarrow> (0, 0) | Return v \<Rightarrow> (v, uint_value d)))"

type_synonym vkey =
  "int \<times> (int \<times> int list) list \<times> int list \<times> (int \<times> int) list \<times> int"

definition caps_key :: "ver_caps \<Rightarrow> vkey" where
  "caps_key c =
     (int (num_of (vc_main c)),
      map comp_key (dotted_parts (vc_dotted c)),
      map (\<lambda>c. int (char_code c)) (vc_letter c),
      map suffix_key (parse_suffix_chain (vc_suffix c)) @ [(0, -1)],
      uint_value (rev_text c))"

definition version_key :: "string \<Rightarrow> vkey" where
  "version_key v = (case ver_captures v of None \<Rightarrow> (0, [], [], [], 0) | Some c \<Rightarrow> caps_key c)"

lemma cmp_lin_pair: "cmp_lin (a, b) (c, d) = then_with (cmp_lin a c) (cmp_lin b d)"
  by (auto simp: cmp_lin_def)

lemma cmp_lin_Cons: "cmp_lin (x # xs) (y # ys) = then_with (cmp_lin x y) (cmp_lin xs ys)"
  by (auto simp: cmp_lin_def)

lemma cmp_lin_Nil:
  "cmp_lin [] (y # ys) = Less" "cmp_lin (y # ys) [] = Greater"
  by (auto simp: cmp_lin_def)

lemmas cmp_lin_lex = cmp_lin_pair cmp_lin_Cons cmp_lin_Nil

lemma cmp_lin_int: "cmp_lin (int a) (int b) = cmp_lin a b"
  by (auto simp: cmp_lin_def)

lemma cmp_strip_Cons:
  fixes d e :: int
  assumes "0 \<le> d" "0 \<le> e"
  shows "cmp_lin (strip_trailing (d # ds)) (strip_trailing (e # es)) =
    then_with (cmp_lin d e) (cmp_lin (strip_trailing ds) (strip_trailing es))"
proof -
  have "d = 0 \<or> 0 < d" "e = 0 \<or> 0 < e" using assms by auto
  then show ?thesis
    by (cases "strip_trailing ds"; cases "strip_trailing es") (auto simp: Let_def cmp_lin_lex)
qed

lemma strip_trailing_pad:
  "\<forall>d \<in> set ds. 0 \<le> d \<Longrightarrow> \<forall>d \<in> set es. 0 \<le> d \<Longrightarrow> length ds \<le> w \<Longrightarrow> length es \<le> w \<Longrightarrow>
   cmp_lin (strip_trailing ds) (strip_trailing es) =
   cmp_lin (ds @ replicate (w - length ds) 0) (es @ replicate (w - length es) 0)"
proof (induction w arbitrary: ds es)
  case 0
  then show ?case by simp
next
  case (Suc w)
  obtain d ds' where d: "strip_trailing ds = strip_trailing (d # ds')" "0 \<le> d" "length ds' \<le> w"
      "ds @ replicate (Suc w - length ds) 0 = d # ds' @ replicate (w - length ds') 0"
      "\<forall>d \<in> set ds'. 0 \<le> d"
    using Suc.prems that [of 0 "[]"] by (cases ds) auto
  obtain e es' where e: "strip_trailing es = strip_trailing (e # es')" "0 \<le> e" "length es' \<le> w"
      "es @ replicate (Suc w - length es) 0 = e # es' @ replicate (w - length es') 0"
      "\<forall>d \<in> set es'. 0 \<le> d"
    using Suc.prems that [of 0 "[]"] by (cases es) auto
  show ?case
    unfolding d(1,4) e(1,4) cmp_strip_Cons [OF d(2) e(2)] cmp_lin_Cons
    using Suc.IH [OF d(5) e(5) d(3) e(3)] by simp
qed

lemma cmp_digits_of:
  "all_digits s \<Longrightarrow> all_digits t \<Longrightarrow> length s = length t \<Longrightarrow>
     cmp_lin (digits_of s) (digits_of t) = cmp_lin (num_of s) (num_of t)"
proof -
  have "cmp_lin (digits_of s) (digits_of t) = cmp_str s t"
    if "all_digits s" "all_digits t" "length s = length t"
    using that(3,1,2)
    by (induction s t rule: list_induct2)
      (auto simp: digits_of_def cmp_str_def cmp_lin_Cons cmp_digit cmp_lin_int)
  then show "all_digits s \<Longrightarrow> all_digits t \<Longrightarrow> length s = length t \<Longrightarrow>
     cmp_lin (digits_of s) (digits_of t) = cmp_lin (num_of s) (num_of t)"
    by (simp add: cmp_str_digits)
qed

text \<open>The values behind the padding, and the pairs of components for which it panics.\<close>

definition padded :: "nat \<Rightarrow> string \<Rightarrow> string" where
  "padded width a = a @ replicate (width - length a) CHR ''0''"

definition pair_parts :: "string \<Rightarrow> string \<Rightarrow> part \<times> part" where
  "pair_parts a b =
     (if a = [] then (ImplicitZero, parse_component b)
      else if b = [] then (parse_component a, ImplicitZero)
      else if \<not> starts_zero a \<and> \<not> starts_zero b then (parse_component a, parse_component b)
      else (let width = max (length a) (length b) in (parse_component (padded width a), parse_component (padded width b))))"

definition overlong_pair :: "string \<Rightarrow> string \<Rightarrow> bool" where
  "overlong_pair a b \<longleftrightarrow>
     a \<noteq> [] \<and> b \<noteq> [] \<and> (starts_zero a \<or> starts_zero b) \<and> 65535 < max (length a) (length b)"

lemma dotted_pair_run: "dotted_pair a b = (if overlong_pair a b then Panic else Return (pair_parts a b))"
  by (auto simp: dotted_pair_def overlong_pair_def pair_parts_def pad_zeros_def padded_def Let_def)

fun loop_parts :: "string list \<Rightarrow> string list \<Rightarrow> part list \<times> part list" where
  "loop_parts [] [] = ([], [])"
| "loop_parts (a # as) [] = (let (p, q) = pair_parts a ''''; (ps, qs) = loop_parts as [] in (p # ps, q # qs))"
| "loop_parts [] (b # bs) = (let (p, q) = pair_parts '''' b; (ps, qs) = loop_parts [] bs in (p # ps, q # qs))"
| "loop_parts (a # as) (b # bs) = (let (p, q) = pair_parts a b; (ps, qs) = loop_parts as bs in (p # ps, q # qs))"

definition overlong_parts :: "string list \<Rightarrow> string list \<Rightarrow> bool" where
  "overlong_parts as bs = list_ex (\<lambda>(a, b). overlong_pair a b) (zip as bs)"

lemma dotted_loop_run: "dotted_loop as bs = (if overlong_parts as bs then Panic else Return (loop_parts as bs))"
proof (induction as bs rule: dotted_loop.induct)
  case (4 a as b bs)
  then show ?case
    by (cases "overlong_pair a b"; cases "overlong_parts as bs")
      (simp_all add: dotted_pair_run overlong_parts_def split: prod.split)
qed (simp_all add: dotted_pair_run overlong_pair_def overlong_parts_def split: prod.split)

lemma digits_of_pad: "digits_of (padded w s) = digits_of s @ replicate (w - length s) 0"
  by (simp add: digits_of_def padded_def)

lemma starts_zero_Cons [simp]:
  "\<not> starts_zero []" "starts_zero (c # r) \<longleftrightarrow> c = CHR ''0''"
  by (auto simp: starts_zero_def starts_with_def)

lemma cmp_padded:
  assumes "all_digits a" "all_digits b" "length a \<le> w" "length b \<le> w"
  shows "cmp_lin (num_of (padded w a)) (num_of (padded w b)) =
    cmp_lin (digits_of a @ replicate (w - length a) 0) (digits_of b @ replicate (w - length b) 0)"
  using cmp_digits_of [of "padded w a" "padded w b"] assms
  by (simp add: digits_of_pad) (simp add: padded_def)

lemma cmp_zero_first:
  assumes "all_digits a" "all_digits b" "starts_zero a" "b \<noteq> []" "\<not> starts_zero b"
  shows "cmp_lin (digits_of a @ xs) (digits_of b @ ys) = Less"
    and "cmp_lin (digits_of b @ ys) (digits_of a @ xs) = Greater"
proof -
  obtain r c t where ab: "a = CHR ''0'' # r" "b = c # t" "c \<noteq> CHR ''0''" "is_digit c"
    using assms by (cases a; cases b) auto
  then have "0 < digit_val c" using digit_val_inj [of c "CHR ''0''"] by simp
  then show "cmp_lin (digits_of a @ xs) (digits_of b @ ys) = Less"
    and "cmp_lin (digits_of b @ ys) (digits_of a @ xs) = Greater"
    by (simp_all add: ab digits_of_def cmp_lin_Cons)
qed

lemma part_cmp_pair_parts:
  assumes "all_digits a" "a \<noteq> []" "all_digits b" "b \<noteq> []"
  shows "part_cmp (fst (pair_parts a b)) (snd (pair_parts a b)) =
    cmp_lin (comp_key a) (comp_key b)"
proof -
  let ?w = "max (length a) (length b)"
  have pad: "part_cmp (parse_component (padded ?w a)) (parse_component (padded ?w b)) =
    cmp_lin (digits_of a @ replicate (?w - length a) 0) (digits_of b @ replicate (?w - length b) 0)"
    using cmp_padded [of a b ?w] assms
    by (subst part_cmp_digits) (auto simp: padded_def)
  have nonneg: "\<forall>d \<in> set (digits_of x). 0 \<le> d" for x by (auto simp: digits_of_def)
  have len: "length (digits_of x) = length x" for x by (simp add: digits_of_def)
  consider "\<not> starts_zero a" "\<not> starts_zero b" | "starts_zero a" "starts_zero b"
    | "starts_zero a" "\<not> starts_zero b" | "\<not> starts_zero a" "starts_zero b" by blast
  then show ?thesis
  proof cases
    case 1
    then show ?thesis using assms
      by (simp add: pair_parts_def comp_key_def part_cmp_digits cmp_lin_lex cmp_lin_int)
  next
    case 2
    then show ?thesis
      using assms pad strip_trailing_pad [OF nonneg nonneg, of a ?w b]
      by (simp add: pair_parts_def comp_key_def cmp_lin_lex Let_def len)
  next
    case 3
    then show ?thesis using assms pad cmp_zero_first(1) [OF assms(1,3) 3(1) assms(4) 3(2)]
      by (simp add: pair_parts_def comp_key_def cmp_lin_lex Let_def)
  next
    case 4
    then show ?thesis using assms pad cmp_zero_first(2) [OF assms(3,1) 4(2) assms(2) 4(1)]
      by (simp add: pair_parts_def comp_key_def cmp_lin_lex Let_def)
  qed
qed

lemma pair_parts_missing [simp]:
  "pair_parts [] b = (ImplicitZero, parse_component b)"
  "a \<noteq> [] \<Longrightarrow> pair_parts a [] = (parse_component a, ImplicitZero)"
  by (simp_all add: pair_parts_def)

lemma parse_component_explicit [simp]:
  "part_cmp ImplicitZero (parse_component s) = Less"
  "part_cmp (parse_component s) ImplicitZero = Greater"
  by (simp_all add: parse_component_def split: option.split)

lemma cmp_parts_Cons:
  "cmp_parts (a # as) (b # bs) = then_with (part_cmp a b) (cmp_parts as bs)"
  by (cases "part_cmp a b") (simp_all add: Let_def)

declare cmp_parts.simps(4) [simp del] cmp_parts_Cons [simp]

lemma cmp_parts_append:
  "length xs = length ys \<Longrightarrow>
     cmp_parts (xs @ us) (ys @ vs) = then_with (cmp_parts xs ys) (cmp_parts us vs)"
  by (induction xs ys rule: list_induct2) (simp_all add: then_with_assoc)

definition number :: "string \<Rightarrow> bool" where
  "number s \<longleftrightarrow> s \<noteq> [] \<and> all_digits s"

lemma loop_parts_length: "length (fst (loop_parts as bs)) = length (snd (loop_parts as bs))"
  by (induction as bs rule: loop_parts.induct) (auto simp: Let_def split: prod.splits)

lemma cmp_loop_parts:
  "\<forall>a \<in> set as. number a \<Longrightarrow> \<forall>b \<in> set bs. number b \<Longrightarrow>
     cmp_parts (fst (loop_parts as bs)) (snd (loop_parts as bs)) =
     cmp_lin (map comp_key as) (map comp_key bs)"
proof (induction as bs rule: loop_parts.induct)
  case (4 a as b bs)
  have "part_cmp (fst (pair_parts a b)) (snd (pair_parts a b)) = cmp_lin (comp_key a) (comp_key b)"
    using 4 by (intro part_cmp_pair_parts) (auto simp: number_def)
  then show ?case using 4
    by (auto simp: cmp_lin_Cons Let_def split: prod.splits)
qed (auto simp: Let_def cmp_lin_Nil number_def split: prod.splits)

section \<open>Suffix chains compare by key\<close>

definition suffix_chunk :: "string \<Rightarrow> bool" where
  "suffix_chunk s \<longleftrightarrow> (\<exists>n ds. n \<in> set suffix_names \<and> all_digits ds \<and> s = n @ ds)"

lemma strip_prefix_Cons [simp]:
  "strip_prefix s [] = Some s"
  "strip_prefix [] (x # p) = None"
  "strip_prefix (c # s) (x # p) = (if c = x then strip_prefix s p else None)"
  by (simp_all add: strip_prefix_def)

lemma strip_prefix_nondigit [simp]:
  "all_digits ds \<Longrightarrow> \<not> is_digit x \<Longrightarrow> strip_prefix ds (x # p) = None"
  by (cases ds) auto

lemma split_suffix_chunk:
  assumes "n \<in> set suffix_names" "all_digits ds"
  shows "split_suffix (n @ ds) = Return (n, ds)"
  using assms by (auto simp: suffix_names_def split_suffix_def)

lemma suffix_value_names:
  assumes "n \<in> set suffix_names"
  obtains v where "suffix_value n = Return v"
  using assms by (auto simp: suffix_names_def suffix_value_def)

lemma suffix_value_inj:
  "n \<in> set suffix_names \<Longrightarrow> m \<in> set suffix_names \<Longrightarrow>
   suffix_value n = Return v \<Longrightarrow> suffix_value m = Return w \<Longrightarrow> n = m \<longleftrightarrow> v = w"
  by (auto simp: suffix_names_def suffix_value_def split: if_splits)

definition head_key :: "string list \<Rightarrow> int \<times> int" where
  "head_key l = (case l of [] \<Rightarrow> (0, -1) | s # _ \<Rightarrow> suffix_key s)"

lemma uint_text_minus_one: "uint_text ''-1''" "uint_value ''-1'' = -1"
  by (simp_all add: uint_text_def uint_value_def)

lemma digits_not_minus_one: "all_digits ds \<Longrightarrow> ds \<noteq> ''-1''"
  by auto

lemma uint_value_digits: "all_digits ds \<Longrightarrow> uint_value ds = int (num_of ds)"
  by (auto simp: uint_value_def)

lemma suffix_at_head:
  assumes "\<forall>s \<in> set l. suffix_chunk s"
  obtains n d v where "suffix_at l = Return (n, d)" "n \<in> set suffix_names"
    "suffix_value n = Return v" "uint_text d" "head_key l = (v, uint_value d)"
    "l \<noteq> [] \<Longrightarrow> 0 \<le> uint_value d"
proof (cases l)
  case Nil
  show ?thesis
    by (rule that [of "''p''" "''-1''" 0])
      (simp_all add: Nil suffix_at_def suffix_names_def suffix_value_def head_key_def uint_text_minus_one)
next
  case (Cons s r)
  then obtain n ds where s: "n \<in> set suffix_names" "all_digits ds" "s = n @ ds"
    using assms by (auto simp: suffix_chunk_def)
  then obtain v where v: "suffix_value n = Return v" using suffix_value_names by blast
  show ?thesis
    by (rule that [of n ds v])
      (use s v in \<open>simp_all add: Cons suffix_at_def split_suffix_chunk head_key_def suffix_key_def
          uint_text_def uint_value_digits\<close>)
qed

lemma suffix_key_written:
  assumes "suffix_chunk s" shows "suffix_key s \<noteq> (0, -1)"
proof -
  have "\<forall>t \<in> set [s]. suffix_chunk t" using assms by simp
  then obtain v d where "head_key [s] = (v, uint_value d)" "0 \<le> uint_value d"
    by (rule suffix_at_head) auto
  then show ?thesis by (auto simp: head_key_def)
qed

lemma then_with_absorb: "a \<noteq> Equal \<Longrightarrow> then_with a b = a"
  by (cases a) auto

lemma cmp_suffix_lists_step:
  assumes "\<forall>s \<in> set l1. suffix_chunk s" "\<forall>s \<in> set l2. suffix_chunk s" "l1 \<noteq> [] \<or> l2 \<noteq> []"
  shows "cmp_suffix_lists l1 l2 =
    (let ord = cmp_lin (head_key l1) (head_key l2)
     in if ord \<noteq> Equal then Return ord else cmp_suffix_lists (tl l1) (tl l2))"
proof -
  obtain n1 d1 v1 where 1: "suffix_at l1 = Return (n1, d1)" "n1 \<in> set suffix_names"
    "suffix_value n1 = Return v1" "uint_text d1" "head_key l1 = (v1, uint_value d1)"
    by (rule suffix_at_head [OF assms(1)])
  obtain n2 d2 v2 where 2: "suffix_at l2 = Return (n2, d2)" "n2 \<in> set suffix_names"
    "suffix_value n2 = Return v2" "uint_text d2" "head_key l2 = (v2, uint_value d2)"
    by (rule suffix_at_head [OF assms(2)])
  have "n1 = n2 \<longleftrightarrow> v1 = v2" using suffix_value_inj 1 2 by blast
  then show ?thesis
    using assms(3) 1 2 part_cmp_uint [OF 1(4) 2(4)]
    by (subst cmp_suffix_lists.simps)
      (auto simp: cmp_lin_pair Let_def then_with_absorb)
qed

lemma cmp_suffix_lists_key:
  "\<forall>s \<in> set l1. suffix_chunk s \<Longrightarrow> \<forall>s \<in> set l2. suffix_chunk s \<Longrightarrow>
   cmp_suffix_lists l1 l2 =
   Return (cmp_lin (map suffix_key l1 @ [(0, -1)]) (map suffix_key l2 @ [(0, -1)]))"
proof (induction l1 arbitrary: l2)
  case Nil
  show ?case
  proof (cases l2)
    case Nil
    then show ?thesis by (simp add: cmp_suffix_lists.simps)
  next
    case (Cons s r)
    then have "cmp_lin (0, -1) (suffix_key s) \<noteq> Equal"
      using suffix_key_written [of s] Nil.prems by auto
    then show ?thesis using Cons cmp_suffix_lists_step [of "[]" l2] Nil.prems
      by (simp add: head_key_def Let_def cmp_lin_Cons then_with_absorb)
  qed
next
  case (Cons t q)
  show ?case
  proof (cases l2)
    case Nil
    then have "cmp_lin (suffix_key t) (0, -1) \<noteq> Equal"
      using suffix_key_written [of t] Cons.prems by auto
    then show ?thesis using Nil cmp_suffix_lists_step [of "t # q" "[]"] Cons.prems
      by (simp add: head_key_def Let_def cmp_lin_Cons then_with_absorb)
  next
    fix s r assume "l2 = s # r"
    then show ?thesis
      using Cons.IH [of r] Cons.prems cmp_suffix_lists_step [of "t # q" "s # r"]
      by (simp add: head_key_def Let_def cmp_lin_Cons then_with_absorb)
  qed
qed

section \<open>The scanner finds the groups of the regular expression\<close>

definition dotted_shape :: "string \<Rightarrow> bool" where
  "dotted_shape d \<longleftrightarrow> (\<exists>xs. d = concat (map ((#) CHR ''.'') xs) \<and> (\<forall>x \<in> set xs. number x))"

definition suffix_shape :: "string \<Rightarrow> bool" where
  "suffix_shape x \<longleftrightarrow>
     (\<exists>cs. x = concat (map ((#) CHR ''_'') cs) \<and> (\<forall>c \<in> set cs. suffix_chunk c))"

definition rev_string :: "string option \<Rightarrow> string" where
  "rev_string rv = (case rv of None \<Rightarrow> [] | Some r \<Rightarrow> ''-r'' @ r)"

text \<open>The string is the concatenation of the five groups, each in its own language.\<close>

definition ver_shape :: "string \<Rightarrow> ver_caps \<Rightarrow> bool" where
  "ver_shape s c \<longleftrightarrow>
     s = vc_main c @ vc_dotted c @ vc_letter c @ vc_suffix c @ rev_string (vc_rev c) \<and>
     number (vc_main c) \<and> dotted_shape (vc_dotted c) \<and>
     (vc_letter c = [] \<or> (\<exists>l. vc_letter c = [l] \<and> is_lower l)) \<and>
     suffix_shape (vc_suffix c) \<and>
     (case vc_rev c of None \<Rightarrow> True | Some r \<Rightarrow> number r)"

definition stops :: "(char \<Rightarrow> bool) \<Rightarrow> string \<Rightarrow> bool" where
  "stops P t \<longleftrightarrow> t = [] \<or> \<not> P (hd t)"

lemma span_digits_append:
  "all_digits m \<Longrightarrow> stops is_digit t \<Longrightarrow> span_digits (m @ t) = (m, t)"
  by (cases t) (simp_all add: span_digits_def stops_def all_digits_iff takeWhile_append dropWhile_append)

lemma span_digits_sound:
  "span_digits s = (m, t) \<Longrightarrow> s = m @ t \<and> all_digits m \<and> stops is_digit t"
  using hd_dropWhile [of is_digit s]
  by (auto simp: span_digits_def all_digits_iff stops_def dest: set_takeWhileD)

lemma dotted_shape_simps:
  "dotted_shape []"
  "number ds \<Longrightarrow> dotted_shape d \<Longrightarrow> dotted_shape (CHR ''.'' # ds @ d)"
proof -
  show "dotted_shape []" unfolding dotted_shape_def by (intro exI [of _ "[]"]) simp
  assume "number ds" "dotted_shape d"
  then obtain xs where "d = concat (map ((#) CHR ''.'') xs)" "\<forall>x \<in> set xs. number x"
    by (auto simp: dotted_shape_def)
  then show "dotted_shape (CHR ''.'' # ds @ d)" using \<open>number ds\<close>
    unfolding dotted_shape_def by (intro exI [of _ "ds # xs"]) simp
qed

lemma suffix_shape_simps:
  "suffix_shape []"
  "suffix_chunk c \<Longrightarrow> suffix_shape x \<Longrightarrow> suffix_shape (CHR ''_'' # c @ x)"
proof -
  show "suffix_shape []" unfolding suffix_shape_def by (intro exI [of _ "[]"]) simp
  assume "suffix_chunk c" "suffix_shape x"
  then obtain cs where "x = concat (map ((#) CHR ''_'') cs)" "\<forall>x \<in> set cs. suffix_chunk x"
    by (auto simp: suffix_shape_def)
  then show "suffix_shape (CHR ''_'' # c @ x)" using \<open>suffix_chunk c\<close>
    unfolding suffix_shape_def by (intro exI [of _ "c # cs"]) simp
qed

lemma scan_dotted_sound: "scan_dotted s = (d, t) \<Longrightarrow> s = d @ t \<and> dotted_shape d"
proof (induction s arbitrary: d t rule: scan_dotted.induct)
  case (1 s)
  show ?case
  proof (cases "strip_prefix s ''.''")
    case None
    then show ?thesis using 1(2) by (simp add: scan_dotted.simps [of s] dotted_shape_simps)
  next
    case (Some r)
    obtain ds r' where sp: "span_digits r = (ds, r')" by fastforce
    obtain d' t' where rec: "scan_dotted r' = (d', t')" by fastforce
    show ?thesis
    proof (cases "ds = []")
      case True
      then show ?thesis using 1(2) Some sp
        by (simp add: scan_dotted.simps [of s] dotted_shape_simps)
    next
      case False
      have "r' = d' @ t' \<and> dotted_shape d'"
        using 1(1) [OF Some sp [symmetric] refl False] rec by blast
      then show ?thesis
        using 1(2) Some sp rec False span_digits_sound [OF sp]
        by (auto simp: scan_dotted.simps [of s] strip_prefix_Some number_def intro: dotted_shape_simps)
    qed
  qed
qed

lemma scan_dotted_none: "stops (\<lambda>c. c = CHR ''.'') t \<Longrightarrow> scan_dotted t = ([], t)"
  by (subst scan_dotted.simps) (cases t; auto simp: stops_def)

lemma scan_dotted_complete:
  "\<forall>x \<in> set xs. number x \<Longrightarrow> stops is_digit t \<Longrightarrow> stops (\<lambda>c. c = CHR ''.'') t \<Longrightarrow>
   scan_dotted (concat (map ((#) CHR ''.'') xs) @ t) = (concat (map ((#) CHR ''.'') xs), t)"
proof (induction xs)
  case Nil
  then show ?case by (simp add: scan_dotted_none)
next
  case (Cons x xs)
  let ?rest = "concat (map ((#) CHR ''.'') xs) @ t"
  have "stops is_digit ?rest" using Cons.prems by (cases xs) (auto simp: stops_def)
  then have "span_digits (x @ ?rest) = (x, ?rest)"
    using Cons.prems by (intro span_digits_append) (auto simp: number_def)
  then show ?case using Cons
    by (simp add: scan_dotted.simps [of "CHR ''.'' # x @ ?rest"] number_def)
qed

lemma scan_suffixes_sound: "scan_suffixes s = (x, t) \<Longrightarrow> s = x @ t \<and> suffix_shape x"
proof (induction s arbitrary: x t rule: scan_suffixes.induct)
  case (1 s)
  show ?case
  proof (cases "strip_prefix s ''_''")
    case None
    then show ?thesis using 1(2) by (simp add: scan_suffixes.simps [of s] suffix_shape_simps)
  next
    case (Some r)
    show ?thesis
    proof (cases "first_prefix suffix_names r")
      case None
      then show ?thesis using 1(2) Some
        by (simp add: scan_suffixes.simps [of s] suffix_shape_simps)
    next
      fix nr assume nr: "first_prefix suffix_names r = Some nr"
      obtain n r1 where n: "nr = (n, r1)" by fastforce
      obtain ds r2 where sp: "span_digits r1 = (ds, r2)" by fastforce
      obtain x' t' where rec: "scan_suffixes r2 = (x', t')" by fastforce
      have "r2 = x' @ t' \<and> suffix_shape x'"
        using 1(1) [OF Some nr n [symmetric] sp [symmetric] refl] rec by blast
      moreover have "suffix_chunk (n @ ds)"
        using first_prefix_Some [OF nr [unfolded n]] span_digits_sound [OF sp]
        by (auto simp: suffix_chunk_def)
      ultimately show ?thesis
        using 1(2) Some sp rec nr n span_digits_sound [OF sp] suffix_shape_simps(2) [of "n @ ds" x']
          first_prefix_Some [OF nr [unfolded n]]
        by (auto simp: scan_suffixes.simps [of s] strip_prefix_Some)
    qed
  qed
qed

lemma scan_suffixes_none: "stops (\<lambda>c. c = CHR ''_'') t \<Longrightarrow> scan_suffixes t = ([], t)"
  by (subst scan_suffixes.simps) (cases t; auto simp: stops_def)

lemma first_prefix_chunk:
  assumes "n \<in> set suffix_names" "all_digits ds" "stops (\<lambda>c. c = CHR ''r'') t"
  shows "first_prefix suffix_names (n @ ds @ t) = Some (n, ds @ t)"
proof -
  have "strip_prefix (ds @ t) (CHR ''r'' # p) = None" for p
    using assms(2,3) by (cases ds; cases t) (auto simp: stops_def)
  then show ?thesis using assms(1) by (auto simp: suffix_names_def)
qed

lemma scan_suffixes_complete:
  "\<forall>c \<in> set cs. suffix_chunk c \<Longrightarrow>
   stops is_digit t \<Longrightarrow> stops (\<lambda>c. c = CHR ''r'') t \<Longrightarrow> stops (\<lambda>c. c = CHR ''_'') t \<Longrightarrow>
   scan_suffixes (concat (map ((#) CHR ''_'') cs) @ t) = (concat (map ((#) CHR ''_'') cs), t)"
proof (induction cs)
  case Nil
  then show ?case by (simp add: scan_suffixes_none)
next
  case (Cons c cs)
  let ?rest = "concat (map ((#) CHR ''_'') cs) @ t"
  obtain n ds where c: "n \<in> set suffix_names" "all_digits ds" "c = n @ ds"
    using Cons.prems by (auto simp: suffix_chunk_def)
  have "stops is_digit ?rest" "stops (\<lambda>c. c = CHR ''r'') ?rest"
    using Cons.prems by (cases cs; auto simp: stops_def)+
  then have "first_prefix suffix_names (n @ ds @ ?rest) = Some (n, ds @ ?rest)"
    "span_digits (ds @ ?rest) = (ds, ?rest)"
    using c by (simp_all add: first_prefix_chunk span_digits_append)
  then show ?case using Cons c
    by (simp add: scan_suffixes.simps [of "CHR ''_'' # n @ ds @ ?rest"])
qed

lemma scan_rev_iff:
  "scan_rev s = Some rv \<longleftrightarrow>
     s = rev_string rv \<and> (case rv of None \<Rightarrow> True | Some r \<Rightarrow> number r)"
  by (cases rv) (auto simp: scan_rev_def rev_string_def strip_prefix_Some number_def split: option.splits)

lemma is_lower_noneq [simp]:
  "\<not> is_lower CHR ''_''" "\<not> is_lower CHR ''-''" "\<not> is_lower CHR ''.''"
  by (simp_all add: is_lower_def char_code_def)

lemma is_lower_not_digit: "is_lower c \<Longrightarrow> \<not> is_digit c"
  by (auto simp: is_lower_def is_digit_def)

lemma scan_letter_sound:
  "scan_letter s = (l, t) \<Longrightarrow> s = l @ t \<and> (l = [] \<or> (\<exists>c. l = [c] \<and> is_lower c))"
  by (cases s) (auto split: if_splits)

lemma ver_captures_sound: "ver_captures s = Some c \<Longrightarrow> ver_shape s c"
  unfolding ver_captures_def Let_def
  by (auto split: prod.splits option.splits if_splits
      dest!: span_digits_sound scan_dotted_sound scan_letter_sound scan_suffixes_sound
      simp: scan_rev_iff ver_shape_def number_def)

lemma ver_captures_complete:
  assumes "ver_shape s c" shows "ver_captures s = Some c"
proof -
  obtain m d l x rv where c: "c = \<lparr>vc_main = m, vc_dotted = d, vc_letter = l, vc_suffix = x, vc_rev = rv\<rparr>"
    by (cases c) auto
  let ?r = "rev_string rv"
  from assms obtain ds cs where
    s: "s = m @ d @ l @ x @ ?r" and m: "m \<noteq> []" "all_digits m" and
    d: "d = concat (map ((#) CHR ''.'') ds)" "\<forall>y \<in> set ds. number y" and
    l: "l = [] \<or> (\<exists>c. l = [c] \<and> is_lower c)" and
    x: "x = concat (map ((#) CHR ''_'') cs)" "\<forall>y \<in> set cs. suffix_chunk y" and
    r: "scan_rev ?r = Some rv"
    by (auto simp: ver_shape_def c number_def dotted_shape_def suffix_shape_def scan_rev_iff)
  have hr: "?r = [] \<or> hd ?r = CHR ''-''" by (simp add: rev_string_def split: option.split)
  have hx: "x @ ?r = [] \<or> hd (x @ ?r) \<in> {CHR ''_'', CHR ''-''}"
    using hr x(1) by (cases cs) auto
  have hl: "stops is_digit (l @ x @ ?r)" "stops (\<lambda>c. c = CHR ''.'') (l @ x @ ?r)"
    using hx l is_lower_not_digit by (auto simp: stops_def)
  have hd: "stops is_digit (d @ l @ x @ ?r)" using hl(1) d(1) by (cases ds) (auto simp: stops_def)
  have "span_digits s = (m, d @ l @ x @ ?r)"
    using span_digits_append [OF m(2) hd] s by simp
  moreover have "scan_dotted (d @ l @ x @ ?r) = (d, l @ x @ ?r)"
    using scan_dotted_complete [OF d(2) hl] d(1) by simp
  moreover have "scan_letter (l @ x @ ?r) = (l, x @ ?r)"
    using l hx by (cases "x @ ?r") auto
  moreover have "scan_suffixes (x @ ?r) = (x, ?r)"
    using scan_suffixes_complete [OF x(2), of ?r] x(1) hr by (auto simp: stops_def)
  ultimately show ?thesis using r m(1) by (simp add: ver_captures_def Let_def c)
qed

text \<open>
  The function \<open>ver_captures\<close> returns the groups \<open>c\<close> exactly when \<open>s\<close> is the concatenation of a
  number, dotted numbers, an optional lower-case letter, suffixes and an optional revision
  with these texts. So \<open>ververify\<close> accepts the versions of the package manager
  specification and no other string, and the groups are unique.
\<close>

theorem ver_captures_iff: "ver_captures s = Some c \<longleftrightarrow> ver_shape s c"
  using ver_captures_sound ver_captures_complete by blast

section \<open>Comparison of versions\<close>

lemma concat_split:
  assumes "\<forall>x \<in> set xs. c \<notin> set x" "xs \<noteq> []"
  shows "split_char c (drop 1 (concat (map ((#) c) xs))) = xs"
  using assms
proof (induction xs)
  case (Cons x xs)
  show ?case
  proof (cases xs)
    case Nil
    then show ?thesis using Cons.prems by (simp add: split_char_plain)
  next
    fix y ys assume xs: "xs = y # ys"
    then have "drop 1 (concat (map ((#) c) (x # xs))) = x @ c # drop 1 (concat (map ((#) c) xs))"
      by simp
    then show ?thesis using Cons xs split_char_append [of c x] by simp
  qed
qed simp

lemma dotted_parts_shape:
  assumes "dotted_shape d" shows "\<forall>x \<in> set (dotted_parts d). number x"
proof -
  obtain xs where xs: "d = concat (map ((#) CHR ''.'') xs)" "\<forall>x \<in> set xs. number x"
    using assms by (auto simp: dotted_shape_def)
  have "\<forall>x \<in> set xs. CHR ''.'' \<notin> set x"
    using xs(2) is_digit_noneq(1) by (metis number_def all_digits_iff)
  then have "dotted_parts d = xs"
    using concat_split [of xs "CHR ''.''"] xs(1) by (cases xs) (auto simp: dotted_parts_def)
  then show ?thesis using xs(2) by simp
qed

lemma suffix_chunk_plain: "suffix_chunk c \<Longrightarrow> CHR ''_'' \<notin> set c"
  by (auto simp: suffix_chunk_def suffix_names_def all_digits_iff dest: bspec [where x = "CHR ''_''"])

lemma parse_suffix_chain_shape:
  assumes "suffix_shape x" shows "\<forall>c \<in> set (parse_suffix_chain x). suffix_chunk c"
proof -
  obtain cs where cs: "x = concat (map ((#) CHR ''_'') cs)" "\<forall>c \<in> set cs. suffix_chunk c"
    using assms by (auto simp: suffix_shape_def)
  have "split_char CHR ''_'' (CHR ''_'' # s) = [] # split_char CHR ''_'' s" for s by simp
  then have "parse_suffix_chain x = cs"
    using concat_split [of cs "CHR ''_''"] cs suffix_chunk_plain
    by (cases cs) (auto simp: parse_suffix_chain_def)
  then show ?thesis using cs(2) by simp
qed

lemma cmp_letter:
  assumes "l = [] \<or> (\<exists>c. l = [c])" "m = [] \<or> (\<exists>c. m = [c])"
  shows "cmp_parts (letter_part l) (letter_part m) =
    cmp_lin (map (\<lambda>c. int (char_code c)) l) (map (\<lambda>c. int (char_code c)) m)"
  using assms by (auto simp: letter_part_def cmp_lin_lex)

lemma ver_shape_rev: "ver_shape s c \<Longrightarrow> uint_text (rev_text c)"
  by (auto simp: ver_shape_def rev_text_def uint_text_def number_def split: option.splits)

lemma vercmp_caps_key:
  assumes "ver_shape s1 c1" "ver_shape s2 c2"
  shows "vercmp_caps c1 c2 =
    (if overlong_parts (dotted_parts (vc_dotted c1)) (dotted_parts (vc_dotted c2)) then Panic
     else Return (ordering_to_i32 (cmp_lin (caps_key c1) (caps_key c2))))"
proof (cases "overlong_parts (dotted_parts (vc_dotted c1)) (dotted_parts (vc_dotted c2))")
  case True
  then show ?thesis by (simp add: vercmp_caps_def build_dotted_lists_def dotted_loop_run)
next
  case False
  obtain d1 d2 where p: "loop_parts (dotted_parts (vc_dotted c1)) (dotted_parts (vc_dotted c2)) = (d1, d2)" by fastforce
  then have d: "build_dotted_lists (vc_dotted c1) (vc_dotted c2) = Return (d1, d2)"
    using False by (simp add: build_dotted_lists_def dotted_loop_run)
  have n: "number (vc_main c1)" "number (vc_main c2)"
    and parts: "\<forall>x \<in> set (dotted_parts (vc_dotted c1)). number x"
      "\<forall>x \<in> set (dotted_parts (vc_dotted c2)). number x"
    and chunks: "\<forall>c \<in> set (parse_suffix_chain (vc_suffix c1)). suffix_chunk c"
      "\<forall>c \<in> set (parse_suffix_chain (vc_suffix c2)). suffix_chunk c"
    using assms by (auto simp: ver_shape_def dest: dotted_parts_shape parse_suffix_chain_shape)
  have "length d1 = length d2"
    using loop_parts_length [of "dotted_parts (vc_dotted c1)" "dotted_parts (vc_dotted c2)"] p by simp
  moreover have "cmp_parts d1 d2 =
      cmp_lin (map comp_key (dotted_parts (vc_dotted c1))) (map comp_key (dotted_parts (vc_dotted c2)))"
    using cmp_loop_parts [OF parts] p by simp
  moreover have "part_cmp (parse_component (vc_main c1)) (parse_component (vc_main c2)) =
      cmp_lin (num_of (vc_main c1)) (num_of (vc_main c2))"
    using n by (intro part_cmp_digits) (auto simp: number_def)
  moreover have "cmp_parts (letter_part (vc_letter c1)) (letter_part (vc_letter c2)) =
    cmp_lin (map (\<lambda>c. int (char_code c)) (vc_letter c1)) (map (\<lambda>c. int (char_code c)) (vc_letter c2))"
    using assms by (intro cmp_letter) (auto simp: ver_shape_def)
  ultimately show ?thesis
    using False d cmp_suffix_lists_key [OF chunks]
      part_cmp_uint [OF ver_shape_rev [OF assms(1)] ver_shape_rev [OF assms(2)]]
    unfolding vercmp_caps_def caps_key_def cmp_suffixes_def
    by (auto simp: Let_def cmp_parts_append cmp_lin_pair cmp_lin_int then_with_assoc then_with_absorb)
qed

text \<open>
  Two versions with a pair of dotted components that has to be padded to more than 65535 characters: both
  components are there, one of them starts with a zero and one of them is that long.
\<close>

definition dotted_components :: "string \<Rightarrow> string list" where
  "dotted_components v = (case ver_captures v of None \<Rightarrow> [] | Some c \<Rightarrow> dotted_parts (vc_dotted c))"

definition overlong :: "string \<Rightarrow> string \<Rightarrow> bool" where
  "overlong u v \<longleftrightarrow> u \<noteq> v \<and> overlong_parts (dotted_components u) (dotted_components v)"

lemma overlong_parts_sym: "overlong_parts as bs \<longleftrightarrow> overlong_parts bs as"
  by (induction as bs rule: list_induct2') (auto simp: overlong_parts_def overlong_pair_def)

lemma overlong_sym: "overlong u v \<longleftrightarrow> overlong v u"
  using overlong_parts_sym [of "dotted_components u"] by (auto simp: overlong_def)

lemma vercmp_key:
  assumes "ververify a" "ververify b"
  shows "vercmp a b =
    (if overlong a b then Panic else Return (Some (ordering_to_i32 (cmp_lin (version_key a) (version_key b)))))"
proof (cases "a = b")
  case False
  obtain c1 c2 where c: "ver_captures a = Some c1" "ver_captures b = Some c2"
    using assms by (auto simp: ververify_def)
  then show ?thesis
    using vercmp_caps_key [OF ver_captures_sound ver_captures_sound] False
    by (simp add: vercmp_def version_key_def overlong_def dotted_components_def)
qed (simp add: vercmp_def overlong_def)

text \<open>The comparison as a total preorder on the valid versions whose components fit the width.\<close>

definition ver_ordering :: "string \<Rightarrow> string \<Rightarrow> ordering" where
  "ver_ordering a b =
     (case vercmp a b of
        Return (Some r) \<Rightarrow> if r < 0 then Less else if r = 0 then Equal else Greater
      | _ \<Rightarrow> Equal)"

definition narrow :: "string \<Rightarrow> bool" where
  "narrow v \<longleftrightarrow> ververify v \<and> list_all (\<lambda>c. length c \<le> 65535) (dotted_components v)"

lemma narrow_not_overlong:
  assumes "narrow u" "narrow v" shows "\<not> overlong u v"
proof -
  have "\<not> overlong_pair a b" if "(a, b) \<in> set (zip (dotted_components u) (dotted_components v))" for a b
  proof -
    have "length a \<le> 65535" "length b \<le> 65535"
      using assms that by (auto simp: narrow_def list_all_iff dest: set_zip_leftD set_zip_rightD)
    then show ?thesis by (auto simp: overlong_pair_def less_max_iff_disj)
  qed
  then show ?thesis by (auto simp: overlong_def overlong_parts_def list_ex_iff)
qed

lemma ver_ordering_key:
  assumes "narrow a" "narrow b" shows "ver_ordering a b = cmp_lin (version_key a) (version_key b)"
  using assms narrow_not_overlong [OF assms]
  by (cases "cmp_lin (version_key a) (version_key b)") (simp_all add: narrow_def ver_ordering_def vercmp_key)

interpretation ver: comparison narrow ver_ordering
  by (rule comparison_by_key) (rule ver_ordering_key)

lemma ordering_to_i32_inject [simp]: "ordering_to_i32 x = ordering_to_i32 y \<longleftrightarrow> x = y"
  by (cases x; cases y) auto

lemma ordering_to_i32_le: "ordering_to_i32 x \<le> 0 \<longleftrightarrow> x \<noteq> Greater"
  by (cases x) auto

lemma ordering_to_i32_reverse: "ordering_to_i32 (reverse_ord x) = - ordering_to_i32 x"
  by (cases x) auto

lemma vercmp_Some_valid:
  "vercmp a b = Return (Some r) \<Longrightarrow> a = b \<and> r = 0 \<or>
     ververify a \<and> ververify b \<and> r = ordering_to_i32 (cmp_lin (version_key a) (version_key b))"
proof (cases "ververify a \<and> ververify b")
  case True
  then show "vercmp a b = Return (Some r) \<Longrightarrow> a = b \<and> r = 0 \<or>
      ververify a \<and> ververify b \<and> r = ordering_to_i32 (cmp_lin (version_key a) (version_key b))"
    by (auto simp: vercmp_key split: if_splits)
qed (auto simp: vercmp_def ververify_def split: if_splits option.splits)

text \<open>
  C7: \<open>vercmp\<close> returns exactly this: 0 on equal strings, \<open>None\<close> when one of two different strings is not a
  version, and otherwise the sign of the comparison of the two version keys in the lexicographic order: the
  main number, the dotted components, the letter, the suffixes, the revision. It panics exactly when both
  are versions and a pair of their dotted components has to be padded to more than 65535 characters.
\<close>

theorem vercmp_refines_key_order:
  "vercmp a b =
     (if a = b then Return (Some 0)
      else if ververify a \<and> ververify b
      then (if overlong a b then Panic
            else Return (Some (if version_key a < version_key b then -1
                               else if version_key a = version_key b then 0 else 1)))
      else Return None)"
proof (cases "ververify a \<and> ververify b")
  case True
  then show ?thesis by (auto simp: vercmp_key cmp_lin_def overlong_def)
next
  case False
  then show ?thesis by (auto simp: vercmp_def ververify_def split: option.splits)
qed

text \<open>Such a pair of versions; their main numbers differ already.\<close>

lemma long_component_panics: "65535 < n \<Longrightarrow> vercmp ''1.0'' (''2.'' @ replicate n CHR ''9'') = Panic"
proof -
  assume n: "65535 < n"
  let ?d = "replicate n CHR ''9''"
  let ?c = "\<lparr> vc_main = ''2'', vc_dotted = CHR ''.'' # ?d, vc_letter = [], vc_suffix = [], vc_rev = None \<rparr>"
  have num: "number ?d" "number ''2''" using n by (auto simp: number_def all_digits_iff is_digit_def char_code_def)
  then have "dotted_shape (CHR ''.'' # ?d)" unfolding dotted_shape_def by (intro exI [of _ "[?d]"]) simp
  moreover have "suffix_shape []" unfolding suffix_shape_def by (intro exI [of _ "[]"]) simp
  ultimately have "ver_captures (''2.'' @ ?d) = Some ?c"
    using num by (intro ver_captures_complete) (simp add: ver_shape_def rev_string_def)
  moreover have "CHR ''.'' \<notin> set ?d" by auto
  ultimately have b: "ververify (''2.'' @ ?d)" "dotted_components (''2.'' @ ?d) = [?d]"
    by (simp_all add: ververify_def dotted_components_def dotted_parts_def split_char_plain)
  have a: "ververify ''1.0''" "dotted_components ''1.0'' = [''0'']" by code_simp+
  have "overlong ''1.0'' (''2.'' @ ?d)"
    using n unfolding overlong_def a(2) b(2) by (cases n) (auto simp: overlong_parts_def overlong_pair_def)
  then show ?thesis unfolding vercmp_key [OF a(1) b(1)] by (rule if_P)
qed

text \<open>
  Swapping the arguments of \<open>vercmp\<close> negates the result.
\<close>

theorem vercmp_antisym:
  "vercmp b a = Return (Some (- r)) \<longleftrightarrow> vercmp a b = Return (Some r)"
proof -
  have *: "vercmp b a = Return (Some (- r))" if "vercmp a b = Return (Some r)" for a b r
  proof (cases "a = b")
    case False
    then have v: "ververify a" "ververify b" "r = ordering_to_i32 (cmp_lin (version_key a) (version_key b))"
      using vercmp_Some_valid [OF that] by auto
    have "\<not> overlong b a" using that v overlong_sym [of a b] by (auto simp: vercmp_key split: if_splits)
    moreover have "cmp_lin (version_key b) (version_key a) = reverse_ord (cmp_lin (version_key a) (version_key b))"
      by (simp add: reverse_cmp_lin)
    ultimately show ?thesis using v by (simp add: vercmp_key ordering_to_i32_reverse)
  qed (use that in \<open>simp add: vercmp_def\<close>)
  show ?thesis using * [of a b r] * [of b a "- r"] by auto
qed

text \<open>
  The order of versions is transitive, although the components of each pair of versions
  are padded for that pair alone: if \<open>a\<close> is at most \<open>b\<close> and \<open>b\<close> at most \<open>c\<close> then \<open>a\<close> is at
  most \<open>c\<close>, and \<open>a\<close> and \<open>c\<close> are equal only if all three are, unless the comparison of \<open>a\<close> and \<open>c\<close> panics.
\<close>

theorem vercmp_trans:
  assumes "vercmp a b = Return (Some r)" "r \<le> 0" "vercmp b c = Return (Some q)" "q \<le> 0" "\<not> overlong a c"
  shows "\<exists>p. vercmp a c = Return (Some p) \<and> p \<le> 0 \<and> (p = 0 \<longleftrightarrow> r = 0 \<and> q = 0)"
proof (cases "a = b \<or> b = c")
  case True
  then show ?thesis using assms by (auto simp: vercmp_def)
next
  case False
  then have v: "ververify a" "ververify b" "ververify c"
    and r: "r = ordering_to_i32 (cmp_lin (version_key a) (version_key b))"
    and q: "q = ordering_to_i32 (cmp_lin (version_key b) (version_key c))"
    using vercmp_Some_valid [OF assms(1)] vercmp_Some_valid [OF assms(3)] by auto
  have "version_key a \<le> version_key b" "version_key b \<le> version_key c"
    using assms(2,4) by (auto simp: r q cmp_lin_def split: if_splits)
  then show ?thesis
    using v assms(5) by (auto simp: vercmp_key r q cmp_lin_def)
qed

theorem vercmp_trans_witness:
  "\<exists>p. vercmp ''1.01_rc2'' ''1.10-r1'' = Return (Some p) \<and> p \<le> 0 \<and>
       (p = 0 \<longleftrightarrow> (-1::int) = 0 \<and> (-1::int) = 0)"
proof (rule vercmp_trans)
  show "vercmp ''1.01_rc2'' ''1.9'' = Return (Some (-1))" by code_simp
  show "vercmp ''1.9'' ''1.10-r1'' = Return (Some (-1))" by code_simp
  have d: "dotted_components ''1.01_rc2'' = [''01'']" by code_simp
  have e: "dotted_components ''1.10-r1'' = [''10'']" by code_simp
  show "\<not> overlong ''1.01_rc2'' ''1.10-r1''"
    unfolding overlong_def d e by (simp add: overlong_parts_def overlong_pair_def)
qed simp_all

text \<open>
  Two runs of digits of any width compare as the integers they denote, whether each fits
  in an \<open>i128\<close> or is kept as text.
\<close>

theorem components_compare_as_integers:
  assumes "number s" "number t"
  shows "part_cmp (parse_component s) (parse_component t) =
    (if num_of s < num_of t then Less else if num_of s = num_of t then Equal else Greater)"
  using assms part_cmp_digits [of s t] by (simp add: number_def cmp_lin_def)

theorem components_compare_as_integers_witness:
  "part_cmp (parse_component ''00170141183460469231731687303715884105728'')
            (parse_component ''170141183460469231731687303715884105727'') = Greater"
proof -
  have n: "number ''00170141183460469231731687303715884105728''"
    "number ''170141183460469231731687303715884105727''"
    by (simp_all add: number_def is_digit_def char_code_def)
  show ?thesis
    unfolding components_compare_as_integers [OF n]
    by (simp add: digit_val_def char_code_def)
qed

end
