(* ===== verification/RequiredUse.thy ===== *)
theory RequiredUse
  imports Prelude
begin

text \<open>
  REQUIRED_USE (\<open>crates/portage-required-use/src/lib.rs\<close>): the recursive evaluator
  \<open>check_required_use\<close> and the evaluator \<open>build_required_use_tree\<close> that also builds the tree
  from which \<open>unsatisfied_reduced\<close> prints the part that fails. A token list with a position is
  the list of the tokens from that position on. The abstract syntax \<open>ru_item\<close> with its
  evaluation is what the first evaluator computes; \<open>pms_sat\<close> is the reading of the specification.
\<close>

section \<open>Leaves and errors\<close>

datatype ru_error = UndeclaredFlag string | MissingOpenParen | UnbalancedParens

definition ru_message :: "ru_error \<Rightarrow> string" where
  "ru_message e =
     (case e of
        UndeclaredFlag flag \<Rightarrow> ''USE flag '' @ [CHR 0x27] @ flag @ [CHR 0x27] @ '' is not in IUSE''
      | MissingOpenParen \<Rightarrow>
          ''malformed syntax: operator/conditional not followed by '' @ [CHR 0x27] @ ''('' @ [CHR 0x27]
      | UnbalancedParens \<Rightarrow> ''malformed syntax: unbalanced parentheses'')"

definition ru_is_active :: "string \<Rightarrow> string set \<Rightarrow> string set \<Rightarrow> ru_error + bool" where
  "ru_is_active token enabled iuse =
     (let (flag, negated) =
        (case strip_prefix token ''!'' of Some rest \<Rightarrow> (rest, True) | None \<Rightarrow> (token, False))
      in if flag = [] \<or> flag \<notin> iuse then Inl (UndeclaredFlag flag)
         else Inr ((flag \<in> enabled) \<noteq> negated))"

section \<open>The recursive evaluator\<close>

definition expect_open_paren :: "string list \<Rightarrow> ru_error + string list" where
  "expect_open_paren toks =
     (case toks of t # ts \<Rightarrow> if t = ''('' then Inr ts else Inl MissingOpenParen
      | [] \<Rightarrow> Inl MissingOpenParen)"

definition expect_close_paren :: "string list \<Rightarrow> ru_error + string list" where
  "expect_close_paren toks =
     (case toks of t # ts \<Rightarrow> if t = '')'' then Inr ts else Inl UnbalancedParens
      | [] \<Rightarrow> Inl UnbalancedParens)"

definition valid_operators :: "string list" where
  "valid_operators = [''||'', ''^^'', ''??'']"

definition is_op :: "string \<Rightarrow> bool" where
  "is_op s = (s \<in> set valid_operators)"

definition true_count :: "bool list \<Rightarrow> nat" where
  "true_count bs = length (filter (\<lambda>b. b) bs)"

definition op_satisfied :: "string \<Rightarrow> bool list \<Rightarrow> bool" where
  "op_satisfied tok inner =
     (if tok = ''||'' then true_count inner > 0
      else if tok = ''^^'' then true_count inner = 1
      else true_count inner \<le> 1)"

lemma expect_paren_length [dest]:
  "expect_open_paren ts = Inr r \<Longrightarrow> length r < length ts"
  "expect_close_paren ts = Inr r \<Longrightarrow> length r < length ts"
  by (auto simp: expect_open_paren_def expect_close_paren_def split: list.splits if_splits)

text \<open>
  \<open>parse_items\<close>: the loop over the items up to an unmatched closing parenthesis, with the
  value of each item and the tokens that are left.
\<close>

function (domintros) parse_items ::
  "string set \<Rightarrow> string set \<Rightarrow> string list \<Rightarrow> ru_error + bool list \<times> string list" where
  "parse_items enabled iuse toks =
     (case toks of
        [] \<Rightarrow> Inr ([], [])
      | tok # ts \<Rightarrow>
          if tok = '')'' then Inr ([], toks)
          else if tok = ''('' then
            res_bind (parse_items enabled iuse ts) (\<lambda>(inner, r).
            res_bind (expect_close_paren r) (\<lambda>r.
            res_bind (parse_items enabled iuse r) (\<lambda>(rest, r).
              Inr ((False \<notin> set inner) # rest, r))))
          else if is_op tok then
            res_bind (expect_open_paren ts) (\<lambda>r.
            res_bind (parse_items enabled iuse r) (\<lambda>(inner, r).
            res_bind (expect_close_paren r) (\<lambda>r.
            res_bind (parse_items enabled iuse r) (\<lambda>(rest, r).
              Inr (op_satisfied tok inner # rest, r)))))
          else (case strip_suffix_char tok CHR ''?'' of
            Some cond \<Rightarrow>
              res_bind (expect_open_paren ts) (\<lambda>r.
              res_bind (parse_items enabled iuse r) (\<lambda>(inner, r).
              res_bind (expect_close_paren r) (\<lambda>r.
              res_bind (ru_is_active cond enabled iuse) (\<lambda>active.
              res_bind (parse_items enabled iuse r) (\<lambda>(rest, r).
                Inr ((\<not> active \<or> False \<notin> set inner) # rest, r))))))
          | None \<Rightarrow>
              res_bind (ru_is_active tok enabled iuse) (\<lambda>b.
              res_bind (parse_items enabled iuse ts) (\<lambda>(rest, r). Inr (b # rest, r)))))"
  by pat_completeness auto

lemma parse_items_dom_length:
  "parse_items_dom (enabled, iuse, toks) \<Longrightarrow> parse_items enabled iuse toks = Inr (bs, r) \<Longrightarrow>
   length r \<le> length toks"
proof (induction arbitrary: bs r rule: parse_items.pinduct)
  case (1 enabled iuse toks)
  note eq = 1(9) [unfolded parse_items.psimps [OF 1(1)]]
  show ?case
  proof (cases toks)
    case Nil
    then show ?thesis using eq by simp
  next
    case (Cons tok ts)
    note c = Cons
    consider "tok = '')''" | "tok = ''(''" | "tok \<noteq> '')''" "tok \<noteq> ''(''" "is_op tok"
      | cond where "tok \<noteq> '')''" "tok \<noteq> ''(''" "\<not> is_op tok" "strip_suffix_char tok CHR ''?'' = Some cond"
      | "tok \<noteq> '')''" "tok \<noteq> ''(''" "\<not> is_op tok" "strip_suffix_char tok CHR ''?'' = None"
      by (cases "strip_suffix_char tok CHR ''?''") auto
    then show ?thesis
    proof cases
      case 1
      then show ?thesis using eq c by simp
    next
      case 2
      then obtain inner r1 r2 rest where
        p: "parse_items enabled iuse ts = Inr (inner, r1)" "expect_close_paren r1 = Inr r2"
          "parse_items enabled iuse r2 = Inr (rest, r)"
        using eq c by auto
      show ?thesis
        using "1"(2) [OF c _ 2 p(1)] "1"(3) [OF c _ 2 p(1) refl p(2,3)] 2 c
          expect_paren_length(2) [OF p(2)] by simp
    next
      case 3
      then obtain inner r0 r1 r2 rest where
        p: "expect_open_paren ts = Inr r0" "parse_items enabled iuse r0 = Inr (inner, r1)"
          "expect_close_paren r1 = Inr r2" "parse_items enabled iuse r2 = Inr (rest, r)"
        using eq c by auto
      show ?thesis
        using "1"(4) [OF c 3 p(1,2)] "1"(5) [OF c 3 p(1,2) refl p(3,4)] c
          expect_paren_length [of r1] p expect_paren_length [of ts] by fastforce
    next
      case 4
      then obtain inner r0 r1 r2 rest b where
        p: "expect_open_paren ts = Inr r0" "parse_items enabled iuse r0 = Inr (inner, r1)"
          "expect_close_paren r1 = Inr r2" "ru_is_active cond enabled iuse = Inr b"
          "parse_items enabled iuse r2 = Inr (rest, r)"
        using eq c by auto
      show ?thesis
        using "1"(7) [OF c 4 p(1,2)] "1"(8) [OF c 4 p(1,2) refl p(3-5)] c
          expect_paren_length [of r1] p expect_paren_length [of ts] by fastforce
    next
      case 5
      then obtain b rest where p: "ru_is_active tok enabled iuse = Inr b"
          "parse_items enabled iuse ts = Inr (rest, r)"
        using eq c by auto
      show ?thesis using "1"(6) [OF c 5 p] c by simp
    qed
  qed
qed

termination parse_items
proof (relation "measure (\<lambda>(_, _, toks). length toks)", goal_cases)
  case 1 then show ?case by simp
qed (auto dest!: parse_items_dom_length expect_paren_length)

declare parse_items.simps [simp del]

definition check_required_use :: "string \<Rightarrow> string set \<Rightarrow> string set \<Rightarrow> ru_error + bool" where
  "check_required_use required_use enabled iuse =
     res_bind (parse_items enabled iuse (split_whitespace required_use)) (\<lambda>(results, r).
       if r \<noteq> [] then Inl UnbalancedParens else Inr (False \<notin> set results))"

definition human_readable :: "string \<Rightarrow> string" where
  "human_readable required_use =
     replace_str ''??'' ''at-most-one-of''
       (replace_str ''||'' ''any-of''
         (replace_str ''^^'' ''exactly-one-of'' required_use))"

section \<open>The grammar and its evaluation\<close>

datatype ru_item =
    RLeaf string
  | RAll "ru_item list"
  | ROp string "ru_item list"
  | RCond string "ru_item list"

fun ru_tokens :: "ru_item \<Rightarrow> string list" where
  "ru_tokens (RLeaf t) = [t]"
| "ru_tokens (RAll is) = ''('' # concat (map ru_tokens is) @ ['')'']"
| "ru_tokens (ROp p is) = p # ''('' # concat (map ru_tokens is) @ ['')'']"
| "ru_tokens (RCond c is) = (c @ ''?'') # ''('' # concat (map ru_tokens is) @ ['')'']"

fun ru_wf :: "ru_item \<Rightarrow> bool" where
  "ru_wf (RLeaf t) \<longleftrightarrow> t \<noteq> ''('' \<and> t \<noteq> '')'' \<and> \<not> is_op t \<and> \<not> ends_with_char t CHR ''?''"
| "ru_wf (RAll is) \<longleftrightarrow> (\<forall>i \<in> set is. ru_wf i)"
| "ru_wf (ROp p is) \<longleftrightarrow> is_op p \<and> (\<forall>i \<in> set is. ru_wf i)"
| "ru_wf (RCond c is) \<longleftrightarrow> \<not> is_op (c @ ''?'') \<and> (\<forall>i \<in> set is. ru_wf i)"

fun ru_eval :: "string set \<Rightarrow> string set \<Rightarrow> ru_item \<Rightarrow> ru_error + bool" where
  "ru_eval en iu (RLeaf t) = ru_is_active t en iu"
| "ru_eval en iu (RAll is) = res_bind (res_map (ru_eval en iu) is) (\<lambda>bs. Inr (False \<notin> set bs))"
| "ru_eval en iu (ROp p is) = res_bind (res_map (ru_eval en iu) is) (\<lambda>bs. Inr (op_satisfied p bs))"
| "ru_eval en iu (RCond c is) =
     res_bind (res_map (ru_eval en iu) is) (\<lambda>bs.
     res_bind (ru_is_active c en iu) (\<lambda>a. Inr (\<not> a \<or> False \<notin> set bs)))"

lemma op_tokens [simp]:
  "is_op t \<Longrightarrow> t \<noteq> '')'' \<and> t \<noteq> ''(''"
  "\<not> is_op '')''" "\<not> is_op ''(''"
  by (auto simp: is_op_def valid_operators_def)

lemma strip_question [simp]: "strip_suffix_char (c @ ''?'') CHR ''?'' = Some c"
  by (simp add: strip_suffix_char_Some)

lemma strip_question_None: "strip_suffix_char t CHR ''?'' = None \<longleftrightarrow> \<not> ends_with_char t CHR ''?''"
  by (auto simp: strip_suffix_char_def ends_with_char_def)

lemma expect_paren_simps [simp]:
  "expect_open_paren (''('' # ts) = Inr ts"
  "expect_close_paren ('')'' # ts) = Inr ts"
  by (simp_all add: expect_open_paren_def expect_close_paren_def)

lemma expect_paren_Inr:
  "expect_open_paren ts = Inr r \<longleftrightarrow> ts = ''('' # r"
  "expect_close_paren ts = Inr r \<longleftrightarrow> ts = '')'' # r"
  by (auto simp: expect_open_paren_def expect_close_paren_def split: list.splits if_splits)

lemma parse_items_stop [simp]:
  "parse_items en iu [] = Inr ([], [])"
  "parse_items en iu ('')'' # ts) = Inr ([], '')'' # ts)"
  by (subst parse_items.simps; simp)+

lemma parse_items_open:
  "parse_items en iu (''('' # ts) =
     res_bind (parse_items en iu ts) (\<lambda>(inner, r).
     res_bind (expect_close_paren r) (\<lambda>r.
     res_bind (parse_items en iu r) (\<lambda>(rest, r). Inr ((False \<notin> set inner) # rest, r))))"
  by (subst parse_items.simps) simp

lemma parse_items_op:
  "is_op p \<Longrightarrow> parse_items en iu (p # ts) =
     res_bind (expect_open_paren ts) (\<lambda>r.
     res_bind (parse_items en iu r) (\<lambda>(inner, r).
     res_bind (expect_close_paren r) (\<lambda>r.
     res_bind (parse_items en iu r) (\<lambda>(rest, r). Inr (op_satisfied p inner # rest, r)))))"
  by (subst parse_items.simps) (simp add: op_tokens)

lemma parse_items_cond:
  "\<not> is_op (c @ ''?'') \<Longrightarrow> parse_items en iu ((c @ ''?'') # ts) =
     res_bind (expect_open_paren ts) (\<lambda>r.
     res_bind (parse_items en iu r) (\<lambda>(inner, r).
     res_bind (expect_close_paren r) (\<lambda>r.
     res_bind (ru_is_active c en iu) (\<lambda>active.
     res_bind (parse_items en iu r) (\<lambda>(rest, r).
       Inr ((\<not> active \<or> False \<notin> set inner) # rest, r))))))"
  by (subst parse_items.simps) simp

lemma parse_items_leaf:
  "ru_wf (RLeaf t) \<Longrightarrow> parse_items en iu (t # ts) =
     res_bind (ru_is_active t en iu) (\<lambda>b.
     res_bind (parse_items en iu ts) (\<lambda>(rest, r). Inr (b # rest, r)))"
  by (subst parse_items.simps) (simp add: strip_question_None [THEN iffD2])

lemmas parse_items_eqs = parse_items_open parse_items_op parse_items_cond parse_items_leaf

lemma parse_items_list:
  assumes "\<And>i rest. i \<in> set is \<Longrightarrow> parse_items en iu (ru_tokens i @ rest) =
      res_bind (ru_eval en iu i) (\<lambda>b.
      res_bind (parse_items en iu rest) (\<lambda>(bs, r). Inr (b # bs, r)))"
  shows "parse_items en iu (concat (map ru_tokens is) @ rest) =
    res_bind (res_map (ru_eval en iu) is) (\<lambda>bs.
    res_bind (parse_items en iu rest) (\<lambda>(bs', r). Inr (bs @ bs', r)))"
  using assms
proof (induction "is")
  case Nil
  then show ?case by (cases "parse_items en iu rest") auto
next
  case (Cons i "is")
  then show ?case by (auto simp: res_bind_def split: sum.splits prod.splits)
qed

lemma parse_items_item:
  "ru_wf i \<Longrightarrow> parse_items en iu (ru_tokens i @ rest) =
     res_bind (ru_eval en iu i) (\<lambda>b.
     res_bind (parse_items en iu rest) (\<lambda>(bs, r). Inr (b # bs, r)))"
proof (induction i arbitrary: rest)
  case (RLeaf t)
  then show ?case by (simp add: parse_items_leaf)
next
  case (RAll "is")
  then have "parse_items en iu (concat (map ru_tokens is) @ '')'' # rest) =
    res_bind (res_map (ru_eval en iu) is) (\<lambda>bs. Inr (bs, '')'' # rest))"
    by (subst parse_items_list) auto
  then show ?case by (simp add: parse_items_open res_bind_assoc)
next
  case (ROp p "is")
  then have "parse_items en iu (concat (map ru_tokens is) @ '')'' # rest) =
    res_bind (res_map (ru_eval en iu) is) (\<lambda>bs. Inr (bs, '')'' # rest))"
    by (subst parse_items_list) auto
  then show ?case using ROp.prems by (simp add: parse_items_op res_bind_assoc)
next
  case (RCond c "is")
  then have "parse_items en iu (concat (map ru_tokens is) @ '')'' # rest) =
    res_bind (res_map (ru_eval en iu) is) (\<lambda>bs. Inr (bs, '')'' # rest))"
    by (subst parse_items_list) auto
  then show ?case using RCond.prems by (simp add: parse_items_cond res_bind_assoc)
qed

lemma parse_items_tokens:
  "\<forall>i \<in> set is. ru_wf i \<Longrightarrow>
   parse_items en iu (concat (map ru_tokens is) @ rest) =
    res_bind (res_map (ru_eval en iu) is) (\<lambda>bs.
    res_bind (parse_items en iu rest) (\<lambda>(bs', r). Inr (bs @ bs', r)))"
  by (intro parse_items_list parse_items_item) auto

lemma ru_token_cases:
  obtains "tok = '')''" | "tok = ''(''" | "is_op tok" "ru_wf (ROp tok [])"
    | c where "tok = c @ ''?''" "ru_wf (RCond c [])"
    | "ru_wf (RLeaf tok)"
  by (cases "tok = '')'' \<or> tok = ''('' \<or> is_op tok"; cases "strip_suffix_char tok CHR ''?''")
    (auto simp: strip_suffix_char_Some strip_question_None)

lemma parse_items_complete:
  "parse_items en iu toks = Inr (bs, r) \<Longrightarrow>
   \<exists>is. (\<forall>i \<in> set is. ru_wf i) \<and> toks = concat (map ru_tokens is) @ r \<and>
        res_map (ru_eval en iu) is = Inr bs \<and> (r = [] \<or> hd r = '')'')"
proof (induction "length toks" arbitrary: toks bs r rule: less_induct)
  case less
  show ?case
  proof (cases toks)
    case Nil
    then show ?thesis using less.prems by (intro exI [of _ "[]"]) simp
  next
    fix tok ts assume t: "toks = tok # ts"
    note prems = less.prems [unfolded t]
    show ?thesis
    proof (cases rule: ru_token_cases [of tok])
      case 1
      then show ?thesis using prems t by (intro exI [of _ "[]"]) auto
    next
      case 2
      then obtain inner r1 rest where
        p: "parse_items en iu ts = Inr (inner, '')'' # r1)" "parse_items en iu r1 = Inr (rest, r)"
          "bs = (False \<notin> set inner) # rest"
        using prems by (auto simp: parse_items_open expect_paren_Inr)
      obtain js where js: "\<forall>i \<in> set js. ru_wf i" "ts = concat (map ru_tokens js) @ '')'' # r1"
          "res_map (ru_eval en iu) js = Inr inner"
        using less.hyps [OF _ p(1)] t by auto
      obtain ks where ks: "\<forall>i \<in> set ks. ru_wf i" "r1 = concat (map ru_tokens ks) @ r"
          "res_map (ru_eval en iu) ks = Inr rest" "r = [] \<or> hd r = '')''"
        using less.hyps [OF _ p(2)] t js(2) by auto
      show ?thesis using js ks p 2 t by (intro exI [of _ "RAll js # ks"]) simp
    next
      case 3
      then obtain inner ts' r1 rest where
        p: "ts = ''('' # ts'" "parse_items en iu ts' = Inr (inner, '')'' # r1)"
          "parse_items en iu r1 = Inr (rest, r)" "bs = op_satisfied tok inner # rest"
        using prems by (auto simp: parse_items_op expect_paren_Inr)
      obtain js where js: "\<forall>i \<in> set js. ru_wf i" "ts' = concat (map ru_tokens js) @ '')'' # r1"
          "res_map (ru_eval en iu) js = Inr inner"
        using less.hyps [OF _ p(2)] t p(1) by auto
      obtain ks where ks: "\<forall>i \<in> set ks. ru_wf i" "r1 = concat (map ru_tokens ks) @ r"
          "res_map (ru_eval en iu) ks = Inr rest" "r = [] \<or> hd r = '')''"
        using less.hyps [OF _ p(3)] t js(2) p(1) by auto
      show ?thesis using js ks p 3 t by (intro exI [of _ "ROp tok js # ks"]) simp
    next
      case (4 c)
      then obtain inner ts' r1 rest a where
        p: "ts = ''('' # ts'" "parse_items en iu ts' = Inr (inner, '')'' # r1)"
          "ru_is_active c en iu = Inr a"
          "parse_items en iu r1 = Inr (rest, r)" "bs = (\<not> a \<or> False \<notin> set inner) # rest"
        using prems by (auto simp: parse_items_cond expect_paren_Inr)
      obtain js where js: "\<forall>i \<in> set js. ru_wf i" "ts' = concat (map ru_tokens js) @ '')'' # r1"
          "res_map (ru_eval en iu) js = Inr inner"
        using less.hyps [OF _ p(2)] t p(1) by auto
      obtain ks where ks: "\<forall>i \<in> set ks. ru_wf i" "r1 = concat (map ru_tokens ks) @ r"
          "res_map (ru_eval en iu) ks = Inr rest" "r = [] \<or> hd r = '')''"
        using less.hyps [OF _ p(4)] t js(2) p(1) by auto
      show ?thesis using js ks p 4 t by (intro exI [of _ "RCond c js # ks"]) simp
    next
      case 5
      then obtain b rest where
        p: "ru_is_active tok en iu = Inr b" "parse_items en iu ts = Inr (rest, r)" "bs = b # rest"
        using prems by (auto simp: parse_items_leaf)
      obtain ks where ks: "\<forall>i \<in> set ks. ru_wf i" "ts = concat (map ru_tokens ks) @ r"
          "res_map (ru_eval en iu) ks = Inr rest" "r = [] \<or> hd r = '')''"
        using less.hyps [OF _ p(2)] t by auto
      show ?thesis using ks p 5 t by (intro exI [of _ "RLeaf tok # ks"]) simp
    qed
  qed
qed

text \<open>
  The function \<open>check_required_use\<close> returns a truth value exactly when the words of the string are a
  well-formed list of items of the grammar whose flags are all declared, and the value is then
  whether every item is satisfied. All other strings give an error.
\<close>

theorem check_required_use_iff:
  "check_required_use s en iu = Inr b \<longleftrightarrow>
     (\<exists>is bs. split_whitespace s = concat (map ru_tokens is) \<and> (\<forall>i \<in> set is. ru_wf i) \<and>
        res_map (ru_eval en iu) is = Inr bs \<and> (b \<longleftrightarrow> (\<forall>x \<in> set bs. x)))"
    (is "?L \<longleftrightarrow> ?R")
proof
  assume ?L
  then obtain bs where "parse_items en iu (split_whitespace s) = Inr (bs, [])" "b = (False \<notin> set bs)"
    by (auto simp: check_required_use_def split: if_splits)
  moreover from this obtain "is" where "\<forall>i \<in> set is. ru_wf i"
      "split_whitespace s = concat (map ru_tokens is)" "res_map (ru_eval en iu) is = Inr bs"
    using parse_items_complete [of en iu "split_whitespace s" bs "[]"] by auto
  ultimately show ?R by (intro exI [of _ "is"] exI [of _ bs]) (auto, metis (full_types))
next
  assume ?R
  then obtain "is" bs where "is": "split_whitespace s = concat (map ru_tokens is)" "\<forall>i \<in> set is. ru_wf i"
      "res_map (ru_eval en iu) is = Inr bs" "b \<longleftrightarrow> (\<forall>x \<in> set bs. x)" by blast
  then have "parse_items en iu (split_whitespace s) = Inr (bs, [])"
    using parse_items_tokens [of "is" en iu "[]"] by simp
  then show ?L using "is"(4) by (auto simp: check_required_use_def)
qed

theorem check_required_use_iff_witness:
  "\<exists>is bs. split_whitespace ''?? ( a b ) c'' = concat (map ru_tokens is) \<and> (\<forall>i \<in> set is. ru_wf i) \<and>
     res_map (ru_eval {''c''} {''a'', ''b'', ''c''}) is = Inr bs \<and> (True \<longleftrightarrow> (\<forall>x \<in> set bs. x))"
proof -
  have "check_required_use ''?? ( a b ) c'' {''c''} {''a'', ''b'', ''c''} = Inr True" by code_simp
  then show ?thesis unfolding check_required_use_iff .
qed

text \<open>
  The truth of an item when its flags are declared, as the recursive evaluator takes it: a conditional
  whose flag is not set is true wherever it stands, directly below an operator too. This is not the
  reading of the package manager specification (PMS 8.2), which is \<open>pms_sat\<close> below.
\<close>

definition leaf_flag :: "string \<Rightarrow> string" where
  "leaf_flag t = (case strip_prefix t ''!'' of Some r \<Rightarrow> r | None \<Rightarrow> t)"

definition leaf_sat :: "string set \<Rightarrow> string \<Rightarrow> bool" where
  "leaf_sat en t = (if starts_with t ''!'' then leaf_flag t \<notin> en else leaf_flag t \<in> en)"

fun ru_flags :: "ru_item \<Rightarrow> string list" where
  "ru_flags (RLeaf t) = [leaf_flag t]"
| "ru_flags (RAll is) = concat (map ru_flags is)"
| "ru_flags (ROp p is) = concat (map ru_flags is)"
| "ru_flags (RCond c is) = leaf_flag c # concat (map ru_flags is)"

fun ru_sat :: "string set \<Rightarrow> ru_item \<Rightarrow> bool" where
  "ru_sat en (RLeaf t) \<longleftrightarrow> leaf_sat en t"
| "ru_sat en (RAll is) \<longleftrightarrow> (\<forall>i \<in> set is. ru_sat en i)"
| "ru_sat en (ROp p is) \<longleftrightarrow>
     (let n = length (filter (ru_sat en) is)
      in if p = ''||'' then 0 < n else if p = ''^^'' then n = 1 else n \<le> 1)"
| "ru_sat en (RCond c is) \<longleftrightarrow> (leaf_sat en c \<longrightarrow> (\<forall>i \<in> set is. ru_sat en i))"

text \<open>
  The reading of the specification: a conditional whose flag is not set is no member of the operator
  directly above it. \<open>at\<close> says whether an any-of or exactly-one-of group without a member is true, as it
  is in EAPI 0 to 6.
\<close>

fun idle :: "string set \<Rightarrow> ru_item \<Rightarrow> bool" where
  "idle en (RCond c is) \<longleftrightarrow> \<not> leaf_sat en c"
| "idle en i \<longleftrightarrow> False"

definition op_count :: "string \<Rightarrow> nat \<Rightarrow> bool" where
  "op_count p n \<longleftrightarrow> (if p = ''||'' then 0 < n else if p = ''^^'' then n = 1 else n \<le> 1)"

fun pms_sat :: "bool \<Rightarrow> string set \<Rightarrow> ru_item \<Rightarrow> bool" where
  "pms_sat at en (RLeaf t) \<longleftrightarrow> leaf_sat en t"
| "pms_sat at en (RAll is) \<longleftrightarrow> (\<forall>i \<in> set is. pms_sat at en i)"
| "pms_sat at en (ROp p is) \<longleftrightarrow>
     op_count p (length (filter (\<lambda>i. \<not> idle en i \<and> pms_sat at en i) is)) \<or> at \<and> list_all (idle en) is"
| "pms_sat at en (RCond c is) \<longleftrightarrow> (leaf_sat en c \<longrightarrow> (\<forall>i \<in> set is. pms_sat at en i))"

text \<open>No operator has such a conditional among its members, nor, when that matters, no member at all.\<close>

fun members_present :: "bool \<Rightarrow> string set \<Rightarrow> ru_item \<Rightarrow> bool" where
  "members_present at en (RLeaf t) \<longleftrightarrow> True"
| "members_present at en (RAll is) \<longleftrightarrow> list_all (members_present at en) is"
| "members_present at en (ROp p is) \<longleftrightarrow> (at \<longrightarrow> is \<noteq> []) \<and> list_all (\<lambda>i. \<not> idle en i \<and> members_present at en i) is"
| "members_present at en (RCond c is) \<longleftrightarrow> list_all (members_present at en) is"

text \<open>Each conditional directly below an operator in a bare group of its own.\<close>

fun in_group :: "ru_item \<Rightarrow> ru_item" where
  "in_group (RCond c is) = RAll [RCond c is]"
| "in_group i = i"

fun grouped :: "ru_item \<Rightarrow> ru_item" where
  "grouped (RLeaf t) = RLeaf t"
| "grouped (RAll is) = RAll (map grouped is)"
| "grouped (ROp p is) = ROp p (map (\<lambda>i. in_group (grouped i)) is)"
| "grouped (RCond c is) = RCond c (map grouped is)"

lemma pms_present: "members_present at en i \<Longrightarrow> pms_sat at en i = ru_sat en i"
proof (induction i)
  case (ROp p "is")
  then have "filter (\<lambda>i. \<not> idle en i \<and> pms_sat at en i) is = filter (ru_sat en) is"
    by (intro filter_cong) (auto simp: list_all_iff)
  moreover have "\<not> (at \<and> list_all (idle en) is)"
    using ROp.prems by (cases "is") auto
  ultimately show ?case by (auto simp: op_count_def Let_def)
qed (auto simp: list_all_iff)

lemma in_group_sat: "\<not> idle en (in_group i)" "pms_sat at en (in_group i) = pms_sat at en i"
  by (cases i; simp)+

lemma ru_sat_grouped: "ru_sat en i = pms_sat False en (grouped i)"
proof (induction i)
  case (ROp p "is")
  then have "filter (\<lambda>i. \<not> idle en (in_group (grouped i)) \<and> pms_sat False en (in_group (grouped i))) is = filter (ru_sat en) is"
    by (intro filter_cong) (auto simp: in_group_sat)
  then show ?case by (simp add: op_count_def Let_def filter_map o_def)
qed auto

lemma ru_is_active_declared:
  "leaf_flag t \<noteq> [] \<Longrightarrow> leaf_flag t \<in> iu \<Longrightarrow> ru_is_active t en iu = Inr (leaf_sat en t)"
  by (auto simp: ru_is_active_def leaf_flag_def leaf_sat_def strip_prefix_def starts_with_def
      split: option.splits if_splits)

lemma true_count_map: "true_count (map f xs) = length (filter f xs)"
  by (simp add: true_count_def filter_map comp_def)

lemma ru_eval_declared:
  "\<forall>f \<in> set (ru_flags i). f \<noteq> [] \<and> f \<in> iu \<Longrightarrow> ru_eval en iu i = Inr (ru_sat en i)"
proof (induction i)
  case (RLeaf t)
  then show ?case by (simp add: ru_is_active_declared)
next
  case (RAll "is")
  then have "res_map (ru_eval en iu) is = Inr (map (ru_sat en) is)"
    by (intro res_map_Inr) auto
  then show ?case by auto
next
  case (ROp p "is")
  then have "res_map (ru_eval en iu) is = Inr (map (ru_sat en) is)"
    by (intro res_map_Inr) auto
  then show ?case by (auto simp: op_satisfied_def true_count_map Let_def)
next
  case (RCond c "is")
  then have "res_map (ru_eval en iu) is = Inr (map (ru_sat en) is)"
    by (intro res_map_Inr) auto
  then show ?case using RCond.prems by (auto simp: ru_is_active_declared)
qed

text \<open>
  C10: on the printed form of well-formed items whose flags are declared,
  \<open>check_required_use\<close> tells whether every top-level item holds, where \<open>||\<close> asks for at least one true
  child, \<open>^^\<close> for exactly one, \<open>??\<close> for at most one, a bare group for all, and a conditional for all of
  its group when its flag is set, a conditional whose flag is not set being a true child of the operator
  above it. In the specification's reading it is no child. The value is the specification's, with empty
  groups false (EAPI 7 and later), for the constraint in which each conditional directly below an operator
  stands in a bare group of its own; and for the constraint itself, in every EAPI, when no operator has
  such a conditional directly below it (nor, in EAPI 0 to 6, nothing at all).
\<close>

theorem check_required_use_sat:
  assumes "\<forall>i \<in> set is. ru_wf i"
    and "\<forall>f \<in> set (concat (map ru_flags is)). f \<noteq> [] \<and> f \<in> iu"
    and "\<forall>t \<in> set (concat (map ru_tokens is)). t \<noteq> [] \<and> (\<forall>c \<in> set t. \<not> is_space c)"
  shows "check_required_use (join '' '' (concat (map ru_tokens is))) en iu = Inr (\<forall>i \<in> set is. ru_sat en i) \<and>
    check_required_use (join '' '' (concat (map ru_tokens is))) en iu =
      Inr (\<forall>i \<in> set is. pms_sat False en (grouped i)) \<and>
    ((\<forall>i \<in> set is. members_present at en i) \<longrightarrow>
     check_required_use (join '' '' (concat (map ru_tokens is))) en iu = Inr (\<forall>i \<in> set is. pms_sat at en i))"
proof -
  have "res_map (ru_eval en iu) is = Inr (map (ru_sat en) is)"
    using assms(2) by (intro res_map_Inr ru_eval_declared) auto
  then show ?thesis
    using parse_items_tokens [OF assms(1), of en iu "[]"] split_whitespace_join [OF assms(3)]
    by (auto simp: check_required_use_def pms_present ru_sat_grouped [symmetric])
qed

theorem check_required_use_sat_witness:
  "check_required_use ''!x? ( ^^ ( a !b ) ) c'' {''a'', ''b''} {''a'', ''b'', ''c'', ''x''} =
     Inr (\<forall>i \<in> set [RCond ''!x'' [ROp ''^^'' [RLeaf ''a'', RLeaf ''!b'']], RLeaf ''c''].
            pms_sat True {''a'', ''b''} i)"
proof -
  let ?is = "[RCond ''!x'' [ROp ''^^'' [RLeaf ''a'', RLeaf ''!b'']], RLeaf ''c'']"
  have "\<forall>i \<in> set ?is. ru_wf i" by code_simp
  moreover have "\<forall>f \<in> set (concat (map ru_flags ?is)). f \<noteq> [] \<and> f \<in> {''a'', ''b'', ''c'', ''x''}" by code_simp
  moreover have "\<forall>t \<in> set (concat (map ru_tokens ?is)). t \<noteq> [] \<and> (\<forall>c \<in> set t. \<not> is_space c)" by code_simp
  ultimately have "(\<forall>i \<in> set ?is. members_present True {''a'', ''b''} i) \<longrightarrow>
      check_required_use (join '' '' (concat (map ru_tokens ?is))) {''a'', ''b''} {''a'', ''b'', ''c'', ''x''} =
        Inr (\<forall>i \<in> set ?is. pms_sat True {''a'', ''b''} i)"
    by (rule check_required_use_sat [THEN conjunct2, THEN conjunct2])
  moreover have "\<forall>i \<in> set ?is. members_present True {''a'', ''b''} i" by code_simp
  moreover have "join '' '' (concat (map ru_tokens ?is)) = ''!x? ( ^^ ( a !b ) ) c''" by code_simp
  ultimately show ?thesis by simp
qed

section \<open>The tree-building evaluator\<close>

text \<open>
  The arena of \<open>RuTree\<close>: nodes are indices. Every \<open>self.nodes[i]\<close> is \<open>vec_get\<close>, so an index
  out of range is a panic; so are the \<open>unwrap\<close> calls and the debug assertions.
\<close>

datatype ru_node =
    NLeaf (leaf_token: string) (leaf_satisfied: bool)
  | NBranch (b_operator: "string option") (b_children: "nat list") (b_satisfied: bool)
      (b_parent: "nat option")

datatype stack_item = SBool bool | SOp string

type_synonym ru_tree = "ru_node list"
type_synonym 'a ru_out = "(ru_error, 'a) outcome"

definition push_branch :: "ru_tree \<Rightarrow> string option \<Rightarrow> nat option \<Rightarrow> ru_tree \<times> nat" where
  "push_branch t p parent = (t @ [NBranch p [] False parent], length t)"

definition push_leaf :: "ru_tree \<Rightarrow> string \<Rightarrow> bool \<Rightarrow> ru_tree \<times> nat" where
  "push_leaf t tok sat = (t @ [NLeaf tok sat], length t)"

definition is_branch :: "ru_tree \<Rightarrow> nat \<Rightarrow> bool ru_out" where
  "is_branch t i =
     out_bind (vec_get t i) (\<lambda>n. Ok (case n of NBranch _ _ _ _ \<Rightarrow> True | NLeaf _ _ \<Rightarrow> False))"

definition node_operator :: "ru_tree \<Rightarrow> nat \<Rightarrow> string option ru_out" where
  "node_operator t i =
     out_bind (vec_get t i) (\<lambda>n. Ok (case n of NBranch p _ _ _ \<Rightarrow> p | NLeaf _ _ \<Rightarrow> None))"

definition node_parent :: "ru_tree \<Rightarrow> nat \<Rightarrow> nat option ru_out" where
  "node_parent t i =
     out_bind (vec_get t i) (\<lambda>n. Ok (case n of NBranch _ _ _ p \<Rightarrow> p | NLeaf _ _ \<Rightarrow> None))"

definition set_parent :: "ru_tree \<Rightarrow> nat \<Rightarrow> nat option \<Rightarrow> ru_tree ru_out" where
  "set_parent t i p =
     out_bind (vec_get t i) (\<lambda>n.
       Ok (case n of NBranch q c s _ \<Rightarrow> t[i := NBranch q c s p] | NLeaf _ _ \<Rightarrow> t))"

definition set_satisfied :: "ru_tree \<Rightarrow> nat \<Rightarrow> bool \<Rightarrow> ru_tree ru_out" where
  "set_satisfied t i v =
     out_bind (vec_get t i) (\<lambda>n.
       Ok (case n of NBranch q c _ p \<Rightarrow> t[i := NBranch q c v p] | NLeaf _ _ \<Rightarrow> t))"

definition node_satisfied :: "ru_tree \<Rightarrow> nat \<Rightarrow> bool ru_out" where
  "node_satisfied t i =
     out_bind (vec_get t i) (\<lambda>n. Ok (case n of NBranch _ _ s _ \<Rightarrow> s | NLeaf _ s \<Rightarrow> s))"

definition node_children :: "ru_tree \<Rightarrow> nat \<Rightarrow> nat list ru_out" where
  "node_children t i =
     out_bind (vec_get t i) (\<lambda>n. Ok (case n of NBranch _ c _ _ \<Rightarrow> c | NLeaf _ _ \<Rightarrow> []))"

definition push_child :: "ru_tree \<Rightarrow> nat \<Rightarrow> nat \<Rightarrow> ru_tree ru_out" where
  "push_child t branch child =
     out_bind (vec_get t branch) (\<lambda>n.
       Ok (case n of NBranch q c s p \<Rightarrow> t[branch := NBranch q (c @ [child]) s p]
           | NLeaf _ _ \<Rightarrow> t))"

definition pop_child :: "ru_tree \<Rightarrow> nat \<Rightarrow> (ru_tree \<times> nat option) ru_out" where
  "pop_child t branch =
     out_bind (vec_get t branch) (\<lambda>n.
       Ok (case n of
             NBranch q c s p \<Rightarrow>
               if c = [] then (t, None) else (t[branch := NBranch q (butlast c) s p], Some (last c))
           | NLeaf _ _ \<Rightarrow> (t, None)))"

text \<open>\<open>debug_assert_eq!(popped, Some(node))\<close> after \<open>pop_child\<close>.\<close>

definition pop_exactly :: "ru_tree \<Rightarrow> nat \<Rightarrow> nat \<Rightarrow> ru_tree ru_out" where
  "pop_exactly t branch node =
     out_bind (pop_child t branch) (\<lambda>(t, popped). if popped = Some node then Ok t else Panicked)"

text \<open>The loop that hands a list of children over to a new parent.\<close>

fun adopt :: "ru_tree \<Rightarrow> nat \<Rightarrow> nat list \<Rightarrow> ru_tree ru_out" where
  "adopt t parent [] = Ok t"
| "adopt t parent (child # rest) =
     out_bind (push_child t parent child) (\<lambda>t.
     out_bind (is_branch t child) (\<lambda>b.
     out_bind (if b then set_parent t child (Some parent) else Ok t) (\<lambda>t.
       adopt t parent rest)))"

text \<open>
  \<open>tounicode\<close>: the recursion goes down the arena and the inner loop up to an ancestor. Both are
  bounded by the number of nodes; running out of fuel stands for not returning.
\<close>

fun complex_nesting :: "nat \<Rightarrow> ru_tree \<Rightarrow> nat option \<Rightarrow> bool ru_out" where
  "complex_nesting fuel t None = Ok False"
| "complex_nesting 0 t (Some n) = Panicked"
| "complex_nesting (Suc fuel) t (Some n) =
     out_bind (node_operator t n) (\<lambda>p.
       if (case p of Some q \<Rightarrow> is_op q | None \<Rightarrow> False) then Ok True
       else out_bind (node_parent t n) (\<lambda>m. complex_nesting fuel t m))"

fun tounicode :: "nat \<Rightarrow> ru_tree \<Rightarrow> nat \<Rightarrow> string ru_out"
  and tounicode_list :: "nat \<Rightarrow> ru_tree \<Rightarrow> bool \<Rightarrow> nat list \<Rightarrow> string list ru_out" where
  "tounicode 0 t i = Panicked"
| "tounicode (Suc fuel) t i =
     out_bind (vec_get t i) (\<lambda>n.
       (case n of
          NLeaf token _ \<Rightarrow> Ok token
        | NBranch p children _ parent \<Rightarrow>
            (let include_parens = (parent \<noteq> None);
                 pre = (case p of Some q \<Rightarrow> [q] | None \<Rightarrow> []) @ (if include_parens then [''(''] else [])
             in out_bind (complex_nesting (length t) t (Some i)) (\<lambda>complex.
                out_bind (tounicode_list fuel t complex children) (\<lambda>mid.
                  Ok (join '' '' (pre @ mid @ (if include_parens then ['')''] else []))))))))"
| "tounicode_list fuel t complex [] = Ok []"
| "tounicode_list fuel t complex (child # rest) =
     out_bind (node_satisfied t child) (\<lambda>sat.
     out_bind (if complex \<or> \<not> sat then out_bind (tounicode fuel t child) (\<lambda>s. Ok [s]) else Ok [])
       (\<lambda>here. out_bind (tounicode_list fuel t complex rest) (\<lambda>more. Ok (here @ more))))"

section \<open>Building the tree\<close>

record ru_state =
  rs_tree :: ru_tree
  rs_node :: nat
  rs_stack :: "stack_item list list"
  rs_level :: nat
  rs_need :: bool

definition is_satisfied :: "string \<Rightarrow> bool list \<Rightarrow> bool" where
  "is_satisfied operator argument =
     (let tc = true_count argument
      in if operator = ''||'' then tc \<ge> 1
         else if operator = ''^^'' then tc = 1
         else if operator = ''??'' then tc \<le> 1
         else False \<notin> set argument)"

fun item_bool :: "stack_item \<Rightarrow> bool" where
  "item_bool (SBool b) = b"
| "item_bool (SOp _) = False"

definition stack_push :: "stack_item list list \<Rightarrow> nat \<Rightarrow> stack_item \<Rightarrow> stack_item list list ru_out" where
  "stack_push stack level x =
     out_bind (vec_get stack level) (\<lambda>f. Ok (stack[level := f @ [x]]))"

definition unwrapped_parent :: "ru_tree \<Rightarrow> nat \<Rightarrow> nat ru_out" where
  "unwrapped_parent t i = out_bind (node_parent t i) unwrap"

definition op_is_valid :: "string option \<Rightarrow> bool" where
  "op_is_valid p = (case p of Some q \<Rightarrow> is_op q | None \<Rightarrow> False)"

text \<open>The closing of a bare group: \<open>op.is_none()\<close>.\<close>

definition close_bare :: "ru_tree \<Rightarrow> nat \<Rightarrow> ru_tree ru_out" where
  "close_bare t node =
     out_bind (unwrapped_parent t node) (\<lambda>parent.
     out_bind (node_operator t parent) (\<lambda>parent_op.
     out_bind (node_children t node) (\<lambda>kids.
       if length kids \<le> 1 \<or> \<not> op_is_valid parent_op
       then out_bind (pop_exactly t parent node) (\<lambda>t.
            out_bind (node_children t node) (\<lambda>kids. adopt t parent kids))
       else Ok t)))"

text \<open>The closing of an operator or conditional group; the node to continue from may change.\<close>

definition close_operator :: "ru_tree \<Rightarrow> nat \<Rightarrow> string \<Rightarrow> (ru_tree \<times> nat) ru_out" where
  "close_operator t node p =
     out_bind (node_children t node) (\<lambda>kids.
       if kids = [] then
         out_bind (unwrapped_parent t node) (\<lambda>parent.
         out_bind (pop_exactly t parent node) (\<lambda>t. Ok (t, node)))
       else if length kids = 1 \<and> is_op p then
         out_bind (unwrapped_parent t node) (\<lambda>parent.
         out_bind (pop_exactly t parent node) (\<lambda>t.
         out_bind (node_children t node) (\<lambda>kids.
         out_bind (vec_get kids 0) (\<lambda>only.
         out_bind (push_child t parent only) (\<lambda>t.
         out_bind (is_branch t only) (\<lambda>b.
           if b then
             out_bind (set_parent t only (Some parent)) (\<lambda>t.
             out_bind (unwrapped_parent t only) (\<lambda>np.
             out_bind (node_operator t np) (\<lambda>np_op.
             out_bind (node_operator t only) (\<lambda>only_op.
               if only_op = None \<and> \<not> op_is_valid np_op then
                 out_bind (pop_exactly t np only) (\<lambda>t.
                 out_bind (node_children t only) (\<lambda>kids.
                 out_bind (adopt t np kids) (\<lambda>t. Ok (t, only))))
               else Ok (t, only)))))
           else Ok (t, node)))))))
       else Ok (t, node))"

definition root_node :: nat where "root_node = 0"

text \<open>
  The end of both operator branches: the truth value goes to the stack frame and to the node,
  and the walk goes on at the parent, or at the root when there is none.
\<close>

definition finish_operator ::
  "ru_tree \<Rightarrow> nat \<Rightarrow> string \<Rightarrow> bool list \<Rightarrow> stack_item list list \<Rightarrow> nat \<Rightarrow> stack_item list \<Rightarrow>
   ru_state ru_out" where
  "finish_operator t node p l stack level frame =
     out_bind (set_satisfied t node (is_satisfied p l)) (\<lambda>t.
     out_bind (close_operator t node p) (\<lambda>(t, node).
     out_bind (node_parent t node) (\<lambda>up.
       Ok \<lparr>rs_tree = t, rs_node = (case up of None \<Rightarrow> root_node | Some q \<Rightarrow> q),
           rs_stack = stack[level := butlast frame @ [SBool (is_satisfied p l)]],
           rs_level = level, rs_need = False\<rparr>)))"

text \<open>An inactive conditional: vacuously satisfied, and dropped from the tree.\<close>

definition drop_conditional ::
  "ru_tree \<Rightarrow> nat \<Rightarrow> stack_item list list \<Rightarrow> nat \<Rightarrow> stack_item list \<Rightarrow> ru_state ru_out" where
  "drop_conditional t node stack level frame =
     out_bind (set_satisfied t node True) (\<lambda>t.
     out_bind (unwrapped_parent t node) (\<lambda>parent.
     out_bind (pop_exactly t parent node) (\<lambda>t.
       Ok \<lparr>rs_tree = t, rs_node = parent, rs_stack = stack[level := butlast frame],
           rs_level = level, rs_need = False\<rparr>)))"

definition finish_bare ::
  "ru_tree \<Rightarrow> nat \<Rightarrow> bool list \<Rightarrow> stack_item list list \<Rightarrow> nat \<Rightarrow> stack_item list \<Rightarrow> ru_state ru_out" where
  "finish_bare t node l stack level frame =
     out_bind (set_satisfied t node (False \<notin> set l)) (\<lambda>t.
     out_bind (close_bare t node) (\<lambda>t.
     out_bind (node_parent t node) (\<lambda>up.
       Ok \<lparr>rs_tree = t, rs_node = (case up of None \<Rightarrow> root_node | Some q \<Rightarrow> q),
           rs_stack = (if l \<noteq> [] then stack[level := frame @ [SBool (False \<notin> set l)]] else stack),
           rs_level = level, rs_need = False\<rparr>)))"

definition close_group ::
  "string set \<Rightarrow> string set \<Rightarrow> ru_state \<Rightarrow> ru_state ru_out" where
  "close_group enabled iuse st =
     (if rs_need st then Err MissingOpenParen
      else if rs_level st = 0 then Err UnbalancedParens
      else
        (let level = rs_level st - 1; node = rs_node st; t = rs_tree st in
         out_bind (unwrap (vec_last (rs_stack st))) (\<lambda>top.
         let l = map item_bool top; stack = butlast (rs_stack st) in
         out_bind (vec_get stack level) (\<lambda>frame.
           case vec_last frame of
             Some (SOp p) \<Rightarrow>
               if is_op p then finish_operator t node p l stack level frame
               else if ends_with_char p CHR ''?'' then
                 out_bind (out_of_res (ru_is_active (butlast p) enabled iuse)) (\<lambda>active.
                   if active then finish_operator t node p l stack level frame
                   else drop_conditional t node stack level frame)
               else finish_bare t node l stack level frame
           | _ \<Rightarrow> finish_bare t node l stack level frame))))"

definition open_group :: "ru_state \<Rightarrow> ru_state ru_out" where
  "open_group st =
     out_bind
       (if \<not> rs_need st then
          (let (t, child) = push_branch (rs_tree st) None (Some (rs_node st)) in
           out_bind (push_child t (rs_node st) child) (\<lambda>t. Ok (t, child)))
        else Ok (rs_tree st, rs_node st))
       (\<lambda>(t, node).
          Ok \<lparr>rs_tree = t, rs_node = node, rs_stack = rs_stack st @ [[]],
              rs_level = rs_level st + 1, rs_need = False\<rparr>)"

definition open_operator :: "ru_state \<Rightarrow> string \<Rightarrow> ru_state ru_out" where
  "open_operator st token =
     out_bind (stack_push (rs_stack st) (rs_level st) (SOp token)) (\<lambda>stack.
     (let (t, child) = push_branch (rs_tree st) (Some token) (Some (rs_node st)) in
      out_bind (push_child t (rs_node st) child) (\<lambda>t.
        Ok \<lparr>rs_tree = t, rs_node = child, rs_stack = stack, rs_level = rs_level st,
            rs_need = True\<rparr>)))"

definition add_leaf :: "string set \<Rightarrow> string set \<Rightarrow> ru_state \<Rightarrow> string \<Rightarrow> ru_state ru_out" where
  "add_leaf enabled iuse st token =
     out_bind (out_of_res (ru_is_active token enabled iuse)) (\<lambda>sat.
     out_bind (stack_push (rs_stack st) (rs_level st) (SBool sat)) (\<lambda>stack.
     (let (t, leaf) = push_leaf (rs_tree st) token sat in
      out_bind (push_child t (rs_node st) leaf) (\<lambda>t.
        Ok (st\<lparr>rs_tree := t, rs_stack := stack\<rparr>)))))"

definition ru_step :: "string set \<Rightarrow> string set \<Rightarrow> ru_state \<Rightarrow> string \<Rightarrow> ru_state ru_out" where
  "ru_step enabled iuse st token =
     (if token = ''('' then open_group st
      else if token = '')'' then close_group enabled iuse st
      else if is_op token then
        (if rs_need st then Err MissingOpenParen else open_operator st token)
      else if rs_need st then Err MissingOpenParen
      else if ends_with_char token CHR ''?'' then open_operator st token
      else add_leaf enabled iuse st token)"

fun ru_loop :: "string set \<Rightarrow> string set \<Rightarrow> ru_state \<Rightarrow> string list \<Rightarrow> ru_state ru_out" where
  "ru_loop enabled iuse st [] = Ok st"
| "ru_loop enabled iuse st (token # rest) =
     out_bind (ru_step enabled iuse st token) (\<lambda>st. ru_loop enabled iuse st rest)"

definition ru_init :: ru_state where
  "ru_init = \<lparr>rs_tree = [NBranch None [] False None], rs_node = root_node, rs_stack = [[]],
              rs_level = 0, rs_need = False\<rparr>"

definition build_required_use_tree ::
  "string \<Rightarrow> string set \<Rightarrow> string set \<Rightarrow> (ru_tree \<times> nat \<times> bool) ru_out" where
  "build_required_use_tree required_use enabled iuse =
     out_bind (ru_loop enabled iuse ru_init (split_whitespace required_use)) (\<lambda>st.
       if rs_level st \<noteq> 0 \<or> rs_need st then Err UnbalancedParens
       else out_bind (vec_get (rs_stack st) 0) (\<lambda>frame.
              Ok (rs_tree st, root_node, SBool False \<notin> set frame)))"

definition unsatisfied_reduced ::
  "string \<Rightarrow> string set \<Rightarrow> string set \<Rightarrow> string option ru_out" where
  "unsatisfied_reduced required_use enabled iuse =
     out_bind (build_required_use_tree required_use enabled iuse) (\<lambda>(t, root, satisfied).
       if satisfied then Ok None
       else out_bind (tounicode (Suc (length t)) t root) (\<lambda>s. Ok (Some s)))"

end
