(* ===== verification/RequiredUseTree.thy ===== *)
theory RequiredUseTree
  imports RequiredUse
begin

text \<open>
  The tree-building evaluator of REQUIRED_USE never panics, its tree does not influence the truth
  value, and the value is that of the grammar with the items dropped that Portage drops. The
  arena invariant is \<open>tree_ok\<close>: children have larger indices, parents smaller ones. The nodes
  from the current one up to the root form a \<open>path_ok\<close>: each is the last child of the next.
\<close>

section \<open>Nodes of the arena\<close>

fun is_NBranch :: "ru_node \<Rightarrow> bool" where
  "is_NBranch (NBranch _ _ _ _) = True" | "is_NBranch (NLeaf _ _) = False"

fun nkids :: "ru_node \<Rightarrow> nat list" where
  "nkids (NBranch _ c _ _) = c" | "nkids (NLeaf _ _) = []"

fun nparent :: "ru_node \<Rightarrow> nat option" where
  "nparent (NBranch _ _ _ p) = p" | "nparent (NLeaf _ _) = None"

fun nop :: "ru_node \<Rightarrow> string option" where
  "nop (NBranch p _ _ _) = p" | "nop (NLeaf _ _) = None"

fun with_parent :: "nat option \<Rightarrow> ru_node \<Rightarrow> ru_node" where
  "with_parent p (NBranch q c s _) = NBranch q c s p" | "with_parent p (NLeaf a b) = NLeaf a b"

fun with_sat :: "bool \<Rightarrow> ru_node \<Rightarrow> ru_node" where
  "with_sat v (NBranch q c _ p) = NBranch q c v p" | "with_sat v (NLeaf a b) = NLeaf a b"

fun with_kids :: "(nat list \<Rightarrow> nat list) \<Rightarrow> ru_node \<Rightarrow> ru_node" where
  "with_kids f (NBranch q c s p) = NBranch q (f c) s p" | "with_kids f (NLeaf a b) = NLeaf a b"

lemma node_views [simp]:
  "is_NBranch (with_parent p n) = is_NBranch n" "is_NBranch (with_sat v n) = is_NBranch n"
  "is_NBranch (with_kids f n) = is_NBranch n"
  "nkids (with_parent p n) = nkids n" "nkids (with_sat v n) = nkids n"
  "is_NBranch n \<Longrightarrow> nkids (with_kids f n) = f (nkids n)"
  "is_NBranch n \<Longrightarrow> nparent (with_parent p n) = p" "nparent (with_sat v n) = nparent n"
  "nparent (with_kids f n) = nparent n"
  "nop (with_parent p n) = nop n" "nop (with_sat v n) = nop n" "nop (with_kids f n) = nop n"
  by (cases n; simp)+

lemma kids_branch: "nkids n \<noteq> [] \<Longrightarrow> is_NBranch n"
  by (cases n) auto

lemma parent_branch: "nparent n = Some q \<Longrightarrow> is_NBranch n"
  by (cases n) auto

lemma arena_ops:
  assumes "i < length t"
  shows "is_branch t i = Ok (is_NBranch (t ! i))"
    and "node_operator t i = Ok (nop (t ! i))"
    and "node_parent t i = Ok (nparent (t ! i))"
    and "node_children t i = Ok (nkids (t ! i))"
    and "set_parent t i p = Ok (t[i := with_parent p (t ! i)])"
    and "set_satisfied t i v = Ok (t[i := with_sat v (t ! i)])"
    and "push_child t i c = Ok (t[i := with_kids (\<lambda>cs. cs @ [c]) (t ! i)])"
    and "nkids (t ! i) \<noteq> [] \<Longrightarrow>
      pop_child t i = Ok (t[i := with_kids butlast (t ! i)], Some (last (nkids (t ! i))))"
proof -
  have "\<exists>n. t ! i = n" by simp
  then show "is_branch t i = Ok (is_NBranch (t ! i))"
    and "node_operator t i = Ok (nop (t ! i))"
    and "node_parent t i = Ok (nparent (t ! i))"
    and "node_children t i = Ok (nkids (t ! i))"
    and "set_parent t i p = Ok (t[i := with_parent p (t ! i)])"
    and "set_satisfied t i v = Ok (t[i := with_sat v (t ! i)])"
    and "push_child t i c = Ok (t[i := with_kids (\<lambda>cs. cs @ [c]) (t ! i)])"
    and "nkids (t ! i) \<noteq> [] \<Longrightarrow>
      pop_child t i = Ok (t[i := with_kids butlast (t ! i)], Some (last (nkids (t ! i))))"
    using assms
    by (simp_all add: vec_get_def is_branch_def node_operator_def node_parent_def node_children_def
        set_parent_def set_satisfied_def push_child_def pop_child_def list_update_same_conv
        split: ru_node.split) (metis nkids.simps list_update_id)+
qed

section \<open>The arena invariant\<close>

definition node_ok :: "nat \<Rightarrow> nat \<Rightarrow> ru_node \<Rightarrow> bool" where
  "node_ok len i n \<longleftrightarrow>
     (\<forall>x \<in> set (nkids n). i < x \<and> x < len) \<and>
     (is_NBranch n \<longrightarrow> (case nparent n of None \<Rightarrow> i = 0 | Some q \<Rightarrow> q < i))"

definition tree_ok :: "ru_tree \<Rightarrow> bool" where
  "tree_ok t \<longleftrightarrow> 0 < length t \<and> is_NBranch (t ! 0) \<and> (\<forall>i < length t. node_ok (length t) i (t ! i))"

text \<open>What a change at or below the children of \<open>p\<close> leaves alone.\<close>

definition keeps :: "nat \<Rightarrow> ru_tree \<Rightarrow> ru_tree \<Rightarrow> bool" where
  "keeps p t t' \<longleftrightarrow> length t' = length t \<and> (\<forall>i < p. t' ! i = t ! i) \<and>
     nparent (t' ! p) = nparent (t ! p) \<and> is_NBranch (t' ! p) = is_NBranch (t ! p)"

lemma frame_refl: "keeps p t t"
  unfolding keeps_def by (intro conjI allI impI refl)

lemma frame_trans:
  assumes "keeps p t u" "keeps p u v" shows "keeps p t v"
  unfolding keeps_def
proof (intro conjI allI impI)
  fix i assume "i < p"
  then have "v ! i = u ! i" "u ! i = t ! i" using assms unfolding keeps_def by blast+
  then show "v ! i = t ! i" by (rule trans)
qed (use assms in \<open>simp_all add: keeps_def\<close>)

lemma nth_update: "t[i := n] ! j = (if i = j \<and> j < length t then n else t ! j)"
  by (metis list_update_beyond not_le nth_list_update_eq nth_list_update_neq)

lemma frame_update:
  "p < i \<Longrightarrow> keeps p t (t[i := n])"
  "nparent n = nparent (t ! p) \<Longrightarrow> is_NBranch n = is_NBranch (t ! p) \<Longrightarrow> keeps p t (t[p := n])"
  unfolding keeps_def by (auto simp only: nth_update length_list_update less_irrefl split: if_splits)

lemma tree_ok_update:
  assumes "tree_ok t" "node_ok (length t) i n" "is_NBranch n = is_NBranch (t ! i)"
  shows "tree_ok (t[i := n])"
  using assms unfolding tree_ok_def by (auto simp: nth_update)

lemma tree_ok_node: "tree_ok t \<Longrightarrow> i < length t \<Longrightarrow> node_ok (length t) i (t ! i)"
  by (simp add: tree_ok_def)

lemma tree_ok_kids:
  assumes "tree_ok t" "i < length t" "x \<in> set (nkids (t ! i))" shows "i < x \<and> x < length t"
  using tree_ok_node [OF assms(1,2)] assms(3) unfolding node_ok_def by blast

lemma tree_ok_parent:
  assumes "tree_ok t" "i < length t" "nparent (t ! i) = Some q" shows "q < i"
  using tree_ok_node [OF assms(1,2)] parent_branch [OF assms(3)] assms(3) by (simp add: node_ok_def)

lemma node_ok_with:
  assumes "node_ok len i n"
  shows "node_ok len i (with_sat v n)"
    and "q < i \<Longrightarrow> node_ok len i (with_parent (Some q) n)"
    and "i < c \<Longrightarrow> c < len \<Longrightarrow> node_ok len i (with_kids (\<lambda>cs. cs @ [c]) n)"
    and "node_ok len i (with_kids butlast n)"
  using assms by (cases n; auto simp: node_ok_def dest: in_set_butlastD)+

lemma adopt_ok:
  "tree_ok t \<Longrightarrow> p < length t \<Longrightarrow> is_NBranch (t ! p) \<Longrightarrow> \<forall>k \<in> set ks. p < k \<and> k < length t \<Longrightarrow>
   \<exists>t'. adopt t p ks = Ok t' \<and> tree_ok t' \<and> keeps p t t' \<and>
        (\<forall>i. i \<noteq> p \<longrightarrow> i \<notin> set ks \<longrightarrow> t' ! i = t ! i)"
proof (induction ks arbitrary: t)
  case Nil
  then show ?case by (simp add: frame_refl)
next
  case (Cons k ks)
  let ?t1 = "t[p := with_kids (\<lambda>cs. cs @ [k]) (t ! p)]"
  let ?t2 = "if is_NBranch (?t1 ! k) then ?t1[k := with_parent (Some p) (?t1 ! k)] else ?t1"
  have k: "p < k" "k < length t" using Cons.prems by auto
  have t1: "tree_ok ?t1"
    using tree_ok_node [OF Cons.prems(1,2)] k Cons.prems(1)
    by (intro tree_ok_update node_ok_with) auto
  have f1: "keeps p t ?t1" by (rule frame_update) auto
  have "node_ok (length ?t1) k (?t1 ! k)" using t1 k by (intro tree_ok_node) auto
  then have t2: "tree_ok ?t2" using t1 k by (auto intro!: tree_ok_update node_ok_with)
  have f2: "keeps p t ?t2" using f1 frame_update(1) [OF k(1)] by (auto intro: frame_trans)
  have "\<exists>t'. adopt ?t2 p ks = Ok t' \<and> tree_ok t' \<and> keeps p ?t2 t' \<and>
      (\<forall>i. i \<noteq> p \<longrightarrow> i \<notin> set ks \<longrightarrow> t' ! i = ?t2 ! i)"
    using Cons.prems t2 f2 by (intro Cons.IH) (auto simp: keeps_def nth_update)
  then obtain t' where t': "adopt ?t2 p ks = Ok t'" "tree_ok t'" "keeps p ?t2 t'"
      "\<forall>i. i \<noteq> p \<longrightarrow> i \<notin> set ks \<longrightarrow> t' ! i = ?t2 ! i" by blast
  have "adopt t p (k # ks) = adopt ?t2 p ks"
    using Cons.prems(2) k by (auto simp: arena_ops)
  then show ?case
    using t' k by (intro exI [of _ t']) (auto intro: frame_trans [OF f2] simp: nth_update)
qed

section \<open>Closing a group\<close>

text \<open>\<open>node\<close> is the last child of \<open>q\<close>, its parent.\<close>

definition last_child :: "ru_tree \<Rightarrow> nat \<Rightarrow> nat \<Rightarrow> bool" where
  "last_child t q node \<longleftrightarrow> node < length t \<and> nparent (t ! node) = Some q \<and>
     nkids (t ! q) \<noteq> [] \<and> last (nkids (t ! q)) = node"

lemma last_child_parent:
  assumes "tree_ok t" "last_child t q node"
  shows "q < node" "q < length t" "node < length t" "is_NBranch (t ! q)"
proof -
  show "q < node" "node < length t"
    using tree_ok_parent [OF assms(1)] assms(2) by (auto simp: last_child_def)
  then show "q < length t" by simp
  show "is_NBranch (t ! q)" using assms(2) by (auto simp: last_child_def intro: kids_branch)
qed

lemma unwrapped_parent_ok: "i < length t \<Longrightarrow> nparent (t ! i) = Some q \<Longrightarrow> unwrapped_parent t i = Ok q"
  by (simp add: unwrapped_parent_def arena_ops)

definition popped :: "ru_tree \<Rightarrow> nat \<Rightarrow> ru_tree" where
  "popped t q = t[q := with_kids butlast (t ! q)]"

lemma pop_exactly_ok:
  assumes "tree_ok t" "last_child t q node"
  shows "pop_exactly t q node = Ok (popped t q)" "tree_ok (popped t q)" "keeps q t (popped t q)"
    "length (popped t q) = length t" "\<And>i. i \<noteq> q \<Longrightarrow> popped t q ! i = t ! i"
proof -
  note q = last_child_parent [OF assms]
  show "pop_exactly t q node = Ok (popped t q)"
    using assms(2) q by (simp add: pop_exactly_def arena_ops last_child_def popped_def)
  show "tree_ok (popped t q)"
    unfolding popped_def using tree_ok_node [OF assms(1) q(2)] assms(1)
    by (intro tree_ok_update node_ok_with) auto
  show "keeps q t (popped t q)" unfolding popped_def by (rule frame_update) auto
qed (simp_all add: popped_def)

lemma adopt_popped:
  assumes "tree_ok t" "q < node" "node < length t" "is_NBranch (t ! q)"
  shows "\<exists>t'. adopt t q (nkids (t ! node)) = Ok t' \<and> tree_ok t' \<and> keeps q t t' \<and> t' ! node = t ! node"
proof -
  have "\<forall>k \<in> set (nkids (t ! node)). q < k \<and> k < length t"
    using tree_ok_kids [OF assms(1,3)] assms(2) by (blast intro: less_trans)
  moreover have "node \<notin> set (nkids (t ! node))" using tree_ok_kids [OF assms(1,3)] by blast
  ultimately show ?thesis using adopt_ok [of t q "nkids (t ! node)"] assms by fastforce
qed

lemma close_bare_ok:
  assumes "tree_ok t" "last_child t q node"
  shows "\<exists>t'. close_bare t node = Ok t' \<and> tree_ok t' \<and> keeps q t t' \<and>
    node < length t' \<and> nparent (t' ! node) = Some q"
proof -
  note q = last_child_parent [OF assms]
  note pop = pop_exactly_ok [OF assms]
  have par: "nparent (t ! node) = Some q" using assms(2) by (simp add: last_child_def)
  have "is_NBranch (popped t q ! q)" using pop(3) q(4) by (simp add: keeps_def)
  then obtain t' where t': "adopt (popped t q) q (nkids (popped t q ! node)) = Ok t'" "tree_ok t'"
      "keeps q (popped t q) t'" "t' ! node = popped t q ! node"
    using adopt_popped [OF pop(2) q(1)] pop(4) q(3) by auto
  have same: "popped t q ! node = t ! node" using pop(5) [of node] q(1) by simp
  have "keeps q t t'" by (rule frame_trans [OF pop(3) t'(3)])
  moreover have "node < length t'" using t'(3) q(3) pop(4) by (simp add: keeps_def)
  ultimately show ?thesis
    using assms(1) q par t' same pop(1,4)
    by (simp add: close_bare_def arena_ops unwrapped_parent_ok frame_refl)
qed

lemma close_operator_ok:
  assumes "tree_ok t" "last_child t q node"
  shows "\<exists>t' node'. close_operator t node p = Ok (t', node') \<and> tree_ok t' \<and> keeps q t t' \<and>
    node' < length t' \<and> nparent (t' ! node') = Some q"
proof -
  note q = last_child_parent [OF assms]
  note pop = pop_exactly_ok [OF assms]
  let ?u = "popped t q"
  have par: "nparent (t ! node) = Some q" using assms(2) by (simp add: last_child_def)
  have same: "?u ! node = t ! node" using pop(5) [of node] q(1) by simp
  consider "nkids (t ! node) = []" | "length (nkids (t ! node)) = 1 \<and> is_op p"
    | "nkids (t ! node) \<noteq> []" "\<not> (length (nkids (t ! node)) = 1 \<and> is_op p)" by blast
  then show ?thesis
  proof cases
    case 1
    then show ?thesis using pop q par same
      by (simp add: close_operator_def arena_ops unwrapped_parent_ok)
  next
    case 3
    then have "close_operator t node p = Ok (t, node)"
      using q by (simp only: close_operator_def arena_ops out_bind.simps if_False)
    then show ?thesis using assms(1) q par by (simp add: frame_refl)
  next
    case 2
    then obtain only where only: "nkids (t ! node) = [only]"
      by (cases "nkids (t ! node)") auto
    have o: "q < only" "only < length t"
      using tree_ok_kids [OF assms(1) q(3), of only] only q(1) by auto
    let ?v = "?u[q := with_kids (\<lambda>cs. cs @ [only]) (?u ! q)]"
    have uq: "is_NBranch (?u ! q)" using pop(3) q(4) by (simp add: keeps_def)
    have "keeps q ?u ?v" by (rule frame_update) auto
    then have v: "tree_ok ?v" "keeps q t ?v" "length ?v = length t"
      using tree_ok_node [OF pop(2), of q] pop(2,4) q(2) o
      by (auto intro!: tree_ok_update node_ok_with intro: frame_trans [OF pop(3)])
    show ?thesis
    proof (cases "is_NBranch (?v ! only)")
      case False
      have "nparent (?v ! node) = Some q" using same par q(1) by (simp add: nth_update)
      moreover have "close_operator t node p = Ok (?v, node)"
        using 2 only q o par same pop(1,4) v False
        by (simp add: close_operator_def arena_ops unwrapped_parent_ok vec_get_def del: out_bind_Ok_iff)
      ultimately show ?thesis using v q(3) by auto
    next
      case True
      let ?w = "?v[only := with_parent (Some q) (?v ! only)]"
      have w: "tree_ok ?w" "keeps q t ?w" "length ?w = length t" "nparent (?w ! only) = Some q"
        using v True o tree_ok_node [OF v(1), of only] frame_trans [OF v(2) frame_update(1) [OF o(1)]]
        by (auto intro!: tree_ok_update node_ok_with simp: nth_update)
      have lc: "last_child ?w q only"
        using w(3,4) o uq q(2) pop(4) by (simp add: last_child_def nth_update)
      note pop' = pop_exactly_ok [OF w(1) lc]
      have "is_NBranch (popped ?w q ! q)"
        using pop'(3) last_child_parent(4) [OF w(1) lc] by (simp add: keeps_def)
      then obtain t' where t': "adopt (popped ?w q) q (nkids (popped ?w q ! only)) = Ok t'"
          "tree_ok t'" "keeps q (popped ?w q) t'" "t' ! only = popped ?w q ! only"
        using adopt_popped [OF pop'(2) o(1)] pop'(4) o(2) w(3) by auto
      have f: "keeps q t t'" using frame_trans [OF w(2) frame_trans [OF pop'(3) t'(3)]] .
      have "t' ! only = ?w ! only" using t'(4) pop'(5) [of only] o(1) by simp
      then have t'': "only < length t'" "nparent (t' ! only) = Some q"
        using f o(2) w(4) by (simp_all add: keeps_def)
      have ops: "unwrapped_parent ?w only = Ok q"
        using w(3,4) o(2) by (intro unwrapped_parent_ok) auto
      show ?thesis
      proof (cases "nop (?w ! only) = None \<and> \<not> op_is_valid (nop (?w ! q))")
        case True
        then have "close_operator t node p = Ok (t', only)"
          using 2 only q o par same pop(1,4) v(3) w(3) \<open>is_NBranch (?v ! only)\<close> ops pop'(1,4) t'(1)
          by (simp add: close_operator_def arena_ops unwrapped_parent_ok vec_get_def
              del: list_update_overwrite out_bind_Ok_iff)
        then show ?thesis using t'(2) f t'' by blast
      next
        case False
        then have "close_operator t node p = Ok (?w, only)"
          using 2 only q o par same pop(1,4) v(3) w(3) \<open>is_NBranch (?v ! only)\<close> ops
          by (auto simp: close_operator_def arena_ops unwrapped_parent_ok vec_get_def
              simp del: list_update_overwrite out_bind_Ok_iff)
        then show ?thesis using w o(2) by auto
      qed
    qed
  qed
qed

section \<open>The state invariant and the evaluation without the tree\<close>

fun path_ok :: "ru_tree \<Rightarrow> nat list \<Rightarrow> bool" where
  "path_ok t [] \<longleftrightarrow> False"
| "path_ok t [n] \<longleftrightarrow> n = 0"
| "path_ok t (n # m # ns) \<longleftrightarrow> last_child t m n \<and> path_ok t (m # ns)"

definition ru_inv :: "nat list \<Rightarrow> ru_state \<Rightarrow> bool" where
  "ru_inv path st \<longleftrightarrow> tree_ok (rs_tree st) \<and> path_ok (rs_tree st) (rs_node st # path) \<and>
     is_NBranch (rs_tree st ! rs_node st) \<and>
     length path = rs_level st + (if rs_need st then 1 else 0) \<and>
     length (rs_stack st) = Suc (rs_level st)"

text \<open>The stack part of the loop alone, frames with the innermost first.\<close>

definition eval_close ::
  "string set \<Rightarrow> string set \<Rightarrow> bool list \<Rightarrow> stack_item list \<Rightarrow> ru_error + stack_item list" where
  "eval_close en iu l frame =
     (case vec_last frame of
        Some (SOp p) \<Rightarrow>
          if is_op p then Inr (butlast frame @ [SBool (is_satisfied p l)])
          else if ends_with_char p CHR ''?'' then
            res_bind (ru_is_active (butlast p) en iu) (\<lambda>active.
              if active then Inr (butlast frame @ [SBool (is_satisfied p l)])
              else Inr (butlast frame))
          else Inr (if l \<noteq> [] then frame @ [SBool (False \<notin> set l)] else frame)
      | _ \<Rightarrow> Inr (if l \<noteq> [] then frame @ [SBool (False \<notin> set l)] else frame))"

fun eval_step ::
  "string set \<Rightarrow> string set \<Rightarrow> stack_item list list \<times> bool \<Rightarrow> string \<Rightarrow>
   ru_error + stack_item list list \<times> bool" where
  "eval_step en iu (fs, need) token =
     (if token = ''('' then Inr ([] # fs, False)
      else if token = '')'' then
        (if need then Inl MissingOpenParen
         else case fs of
                inner # frame # rest \<Rightarrow>
                  res_bind (eval_close en iu (map item_bool inner) frame) (\<lambda>f. Inr (f # rest, False))
              | _ \<Rightarrow> Inl UnbalancedParens)
      else if is_op token then
        (if need then Inl MissingOpenParen
         else Inr ((hd fs @ [SOp token]) # tl fs, True))
      else if need then Inl MissingOpenParen
      else if ends_with_char token CHR ''?'' then Inr ((hd fs @ [SOp token]) # tl fs, True)
      else res_bind (ru_is_active token en iu) (\<lambda>sat. Inr ((hd fs @ [SBool sat]) # tl fs, False)))"

definition eval_view :: "ru_state \<Rightarrow> stack_item list list \<times> bool" where
  "eval_view st = (rev (rs_stack st), rs_need st)"

lemma frame_path:
  "tree_ok t \<Longrightarrow> path_ok t (m # ns) \<Longrightarrow> keeps m t t' \<Longrightarrow> path_ok t' (m # ns)"
proof (induction ns arbitrary: m)
  case (Cons q ns)
  then have lc: "last_child t q m" and p: "path_ok t (q # ns)" by auto
  note q = last_child_parent [OF Cons.prems(1) lc]
  have "keeps q t t'" using Cons.prems(3) q(1) by (simp add: keeps_def)
  then have "path_ok t' (q # ns)" using Cons.IH Cons.prems(1) p by blast
  moreover have "last_child t' q m"
    using lc Cons.prems(3) q(1) by (simp add: last_child_def keeps_def)
  ultimately show ?case by simp
qed simp

lemma path_node_bound: "tree_ok t \<Longrightarrow> path_ok t (m # ns) \<Longrightarrow> m < length t"
  by (cases ns) (auto simp: last_child_def tree_ok_def)

text \<open>A new node, appended as the last child of the current one.\<close>

lemma append_child:
  assumes "tree_ok t" "m < length t" "is_NBranch (t ! m)"
    and "nkids n = []" "nparent n = (if is_NBranch n then Some m else None)"
  shows "push_child (t @ [n]) m (length t) = Ok ((t @ [n])[m := with_kids (\<lambda>cs. cs @ [length t]) (t ! m)])"
    and "tree_ok ((t @ [n])[m := with_kids (\<lambda>cs. cs @ [length t]) (t ! m)])"
    and "path_ok t (m # ns) \<Longrightarrow>
      path_ok ((t @ [n])[m := with_kids (\<lambda>cs. cs @ [length t]) (t ! m)]) (m # ns)"
    and "is_NBranch n \<Longrightarrow>
      last_child ((t @ [n])[m := with_kids (\<lambda>cs. cs @ [length t]) (t ! m)]) m (length t)"
proof -
  let ?t' = "(t @ [n])[m := with_kids (\<lambda>cs. cs @ [length t]) (t ! m)]"
  show "push_child (t @ [n]) m (length t) = Ok ?t'"
    using assms(2) by (simp add: arena_ops nth_append)
  have grow: "node_ok (length t + 1) i x" if "node_ok (length t) i x" for i x
    using that by (auto simp: node_ok_def)
  have new: "node_ok (length t + 1) (length t) n"
    using assms(2,4,5) by (auto simp: node_ok_def)
  have "tree_ok (t @ [n])"
    using assms(1) grow new by (auto simp: tree_ok_def nth_append less_Suc_eq)
  then show t': "tree_ok ?t'"
    using grow [OF tree_ok_node [OF assms(1,2)]] assms(2)
    by (intro tree_ok_update node_ok_with) (auto simp: nth_append)
  show "last_child ?t' m (length t)" if "is_NBranch n"
    using that assms(2,3,5) by (auto simp: last_child_def nth_update nth_append)
  show "path_ok ?t' (m # ns)" if "path_ok t (m # ns)"
  proof -
    have "path_ok (t @ [n]) (k # ks)" if "path_ok t (k # ks)" for k ks
      using that
    proof (induction ks arbitrary: k)
      case (Cons q ks)
      then show ?case
        using last_child_parent [OF assms(1), of q k] by (simp add: last_child_def nth_append)
    qed simp
    moreover have "keeps m (t @ [n]) ?t'"
      using assms(2) by (intro frame_update) (auto simp: nth_append)
    ultimately show ?thesis using frame_path [OF \<open>tree_ok (t @ [n])\<close>] that by blast
  qed
qed

section \<open>One step keeps the invariant and computes the stack\<close>

definition step_matches ::
  "ru_error + stack_item list list \<times> bool \<Rightarrow> ru_state ru_out \<Rightarrow> bool" where
  "step_matches a r \<longleftrightarrow>
     (case a of
        Inl e \<Rightarrow> r = Err e
      | Inr v \<Rightarrow> (\<exists>st path. r = Ok st \<and> ru_inv path st \<and> eval_view st = v))"

lemma stack_snoc:
  assumes "length stack = Suc n"
  obtains fs f where "stack = fs @ [f]" "length fs = n"
  using assms by (cases stack rule: rev_cases) auto

lemma open_group_ok:
  assumes "ru_inv path st"
  shows "\<exists>path' st'. open_group st = Ok st' \<and> ru_inv path' st' \<and>
    eval_view st' = ([] # rev (rs_stack st), False)"
proof (cases "rs_need st")
  case True
  then show ?thesis using assms
    by (intro exI [of _ path]) (auto simp: open_group_def ru_inv_def eval_view_def)
next
  case False
  let ?t = "rs_tree st" and ?m = "rs_node st"
  let ?n = "NBranch None [] False (Some ?m)"
  note i = assms [unfolded ru_inv_def]
  have m: "?m < length ?t" using i path_node_bound by blast
  note ac = append_child [of ?t ?m ?n]
  let ?t' = "(?t @ [?n])[?m := with_kids (\<lambda>cs. cs @ [length ?t]) (?t ! ?m)]"
  have "open_group st = Ok \<lparr>rs_tree = ?t', rs_node = length ?t, rs_stack = rs_stack st @ [[]],
      rs_level = rs_level st + 1, rs_need = False\<rparr>"
    using False i m ac(1) by (simp add: open_group_def push_branch_def del: out_bind_Ok_iff)
  moreover have "is_NBranch (?t' ! length ?t)" using m by (simp add: nth_update nth_append)
  ultimately show ?thesis
    using i m ac False
    by (intro exI [of _ "?m # path"]) (auto simp: ru_inv_def eval_view_def)
qed

lemma open_operator_ok:
  assumes "ru_inv path st" "\<not> rs_need st"
  shows "\<exists>path' st'. open_operator st token = Ok st' \<and> ru_inv path' st' \<and>
    eval_view st' = ((hd (rev (rs_stack st)) @ [SOp token]) # tl (rev (rs_stack st)), True)"
proof -
  let ?t = "rs_tree st" and ?m = "rs_node st"
  let ?n = "NBranch (Some token) [] False (Some ?m)"
  note i = assms(1) [unfolded ru_inv_def]
  have m: "?m < length ?t" using i path_node_bound by blast
  obtain fs f where fs: "rs_stack st = fs @ [f]" "rs_level st = length fs"
    using i by (auto elim: stack_snoc)
  note ac = append_child [of ?t ?m ?n]
  let ?t' = "(?t @ [?n])[?m := with_kids (\<lambda>cs. cs @ [length ?t]) (?t ! ?m)]"
  have "open_operator st token = Ok \<lparr>rs_tree = ?t', rs_node = length ?t,
      rs_stack = fs @ [f @ [SOp token]], rs_level = rs_level st, rs_need = True\<rparr>"
    using i m ac(1) fs
    by (simp add: open_operator_def push_branch_def stack_push_def vec_get_def del: out_bind_Ok_iff)
  moreover have "is_NBranch (?t' ! length ?t)" using m by (simp add: nth_update nth_append)
  ultimately show ?thesis
    using i m ac assms(2) fs
    by (intro exI [of _ "?m # path"]) (auto simp: ru_inv_def eval_view_def)
qed

lemma add_leaf_ok:
  assumes "ru_inv path st" "\<not> rs_need st" "ru_is_active token en iu = Inr sat"
  shows "\<exists>path' st'. add_leaf en iu st token = Ok st' \<and> ru_inv path' st' \<and>
    eval_view st' = ((hd (rev (rs_stack st)) @ [SBool sat]) # tl (rev (rs_stack st)), False)"
proof -
  let ?t = "rs_tree st" and ?m = "rs_node st" and ?n = "NLeaf token sat"
  note i = assms(1) [unfolded ru_inv_def]
  have m: "?m < length ?t" using i path_node_bound by blast
  obtain fs f where fs: "rs_stack st = fs @ [f]" "rs_level st = length fs"
    using i by (auto elim: stack_snoc)
  note ac = append_child [of ?t ?m ?n]
  let ?t' = "(?t @ [?n])[?m := with_kids (\<lambda>cs. cs @ [length ?t]) (?t ! ?m)]"
  have "add_leaf en iu st token = Ok (st\<lparr>rs_tree := ?t', rs_stack := fs @ [f @ [SBool sat]]\<rparr>)"
    using i m ac(1) fs assms(3)
    by (simp add: add_leaf_def push_leaf_def stack_push_def vec_get_def del: out_bind_Ok_iff)
  moreover have "is_NBranch (?t' ! ?m)" using m i by (simp add: nth_update)
  ultimately show ?thesis
    using i m ac assms(2) fs
    by (intro exI [of _ path]) (auto simp: ru_inv_def eval_view_def)
qed

lemma close_result:
  assumes "tree_ok t'" "path_ok t (q # path)" "tree_ok t" "keeps q t t'" "is_NBranch (t ! q)"
    "length path = n" "length stack = Suc n"
  shows "ru_inv path \<lparr>rs_tree = t', rs_node = q, rs_stack = stack, rs_level = n, rs_need = False\<rparr>"
  using assms frame_path [OF assms(3,2,4)] by (simp add: ru_inv_def keeps_def)

lemma set_satisfied_ok:
  assumes "tree_ok t" "last_child t q node"
  shows "\<exists>t'. set_satisfied t node v = Ok t' \<and> tree_ok t' \<and> last_child t' q node \<and> keeps q t t'"
proof -
  note q = last_child_parent [OF assms]
  let ?t' = "t[node := with_sat v (t ! node)]"
  have "tree_ok ?t'"
    using tree_ok_node [OF assms(1) q(3)] assms(1) by (intro tree_ok_update node_ok_with) auto
  moreover have "keeps q t ?t'" using q(1) by (rule frame_update)
  moreover have "last_child ?t' q node" using assms(2) q by (simp add: last_child_def nth_update)
  ultimately show ?thesis using q(3) by (simp add: arena_ops)
qed

lemma finish_ok:
  assumes "tree_ok t" "last_child t q node"
  shows "\<exists>t'. finish_operator t node p l stack level frame =
      Ok \<lparr>rs_tree = t', rs_node = q,
          rs_stack = stack[level := butlast frame @ [SBool (is_satisfied p l)]],
          rs_level = level, rs_need = False\<rparr> \<and> tree_ok t' \<and> keeps q t t'"
    and "\<exists>t'. drop_conditional t node stack level frame =
      Ok \<lparr>rs_tree = t', rs_node = q, rs_stack = stack[level := butlast frame],
          rs_level = level, rs_need = False\<rparr> \<and> tree_ok t' \<and> keeps q t t'"
    and "\<exists>t'. finish_bare t node l stack level frame =
      Ok \<lparr>rs_tree = t', rs_node = q,
          rs_stack = (if l \<noteq> [] then stack[level := frame @ [SBool (False \<notin> set l)]] else stack),
          rs_level = level, rs_need = False\<rparr> \<and> tree_ok t' \<and> keeps q t t'"
proof -
  have one: "\<exists>u. set_satisfied t node v = Ok u \<and> tree_ok u \<and> last_child u q node \<and> keeps q t u" for v
    by (rule set_satisfied_ok [OF assms])
  show "\<exists>t'. finish_operator t node p l stack level frame =
      Ok \<lparr>rs_tree = t', rs_node = q,
          rs_stack = stack[level := butlast frame @ [SBool (is_satisfied p l)]],
          rs_level = level, rs_need = False\<rparr> \<and> tree_ok t' \<and> keeps q t t'"
  proof -
    obtain u where u: "set_satisfied t node (is_satisfied p l) = Ok u" "tree_ok u"
        "last_child u q node" "keeps q t u" using one by blast
    obtain t' n where t': "close_operator u node p = Ok (t', n)" "tree_ok t'" "keeps q u t'"
        "n < length t'" "nparent (t' ! n) = Some q" using close_operator_ok [OF u(2,3)] by blast
    then show ?thesis using u frame_trans [OF u(4) t'(3)]
      by (simp add: finish_operator_def arena_ops del: out_bind_Ok_iff)
  qed
  show "\<exists>t'. drop_conditional t node stack level frame =
      Ok \<lparr>rs_tree = t', rs_node = q, rs_stack = stack[level := butlast frame],
          rs_level = level, rs_need = False\<rparr> \<and> tree_ok t' \<and> keeps q t t'"
  proof -
    obtain u where u: "set_satisfied t node True = Ok u" "tree_ok u"
        "last_child u q node" "keeps q t u" using one by blast
    note pop = pop_exactly_ok [OF u(2,3)]
    have "unwrapped_parent u node = Ok q"
      using u(3) by (intro unwrapped_parent_ok) (auto simp: last_child_def)
    then show ?thesis using u pop frame_trans [OF u(4) pop(3)]
      by (simp add: drop_conditional_def del: out_bind_Ok_iff)
  qed
  show "\<exists>t'. finish_bare t node l stack level frame =
      Ok \<lparr>rs_tree = t', rs_node = q,
          rs_stack = (if l \<noteq> [] then stack[level := frame @ [SBool (False \<notin> set l)]] else stack),
          rs_level = level, rs_need = False\<rparr> \<and> tree_ok t' \<and> keeps q t t'"
  proof -
    obtain u where u: "set_satisfied t node (False \<notin> set l) = Ok u" "tree_ok u"
        "last_child u q node" "keeps q t u" using one by blast
    obtain t' where t': "close_bare u node = Ok t'" "tree_ok t'" "keeps q u t'"
        "node < length t'" "nparent (t' ! node) = Some q" using close_bare_ok [OF u(2,3)] by blast
    then show ?thesis using u frame_trans [OF u(4) t'(3)]
      by (simp add: finish_bare_def arena_ops del: out_bind_Ok_iff)
  qed
qed

lemma close_group_ok:
  assumes "ru_inv path st" "\<not> rs_need st"
  shows "step_matches (eval_step en iu (eval_view st) '')'') (close_group en iu st)"
proof (cases "rs_level st")
  case 0
  then obtain f where "rs_stack st = [f]"
    using assms(1) by (cases "rs_stack st") (auto simp: ru_inv_def)
  then show ?thesis using 0 assms by (simp add: close_group_def eval_view_def step_matches_def)
next
  case (Suc n)
  let ?t = "rs_tree st" and ?node = "rs_node st"
  note i = assms(1) [unfolded ru_inv_def]
  obtain q path' where path: "path = q # path'" "length path' = n"
    using i Suc assms(2) by (cases path) auto
  have lc: "last_child ?t q ?node" and pq: "path_ok ?t (q # path')" using i path by auto
  have q: "is_NBranch (?t ! q)" using last_child_parent(4) lc i by blast
  obtain s inner where s: "rs_stack st = s @ [inner]" "length s = Suc n"
    using i Suc by (auto elim: stack_snoc)
  obtain fs frame where fs: "s = fs @ [frame]" "n = length fs"
    using s(2) by (auto elim: stack_snoc)
  let ?l = "map item_bool inner"
  have view: "eval_view st = (inner # frame # rev fs, False)"
    using s fs assms(2) by (simp add: eval_view_def)
  have inv: "ru_inv path' \<lparr>rs_tree = t', rs_node = q, rs_stack = fs @ [f], rs_level = length fs, rs_need = False\<rparr>"
    if "tree_ok t'" "keeps q ?t t'" for t' f
    using close_result [OF that(1) pq _ that(2) q, of n "fs @ [f]"] i path(2) fs(2) by simp
  have fin: "step_matches (Inr (f # rev fs, False)) r"
    if "\<exists>t'. r = Ok \<lparr>rs_tree = t', rs_node = q, rs_stack = fs @ [f], rs_level = length fs, rs_need = False\<rparr> \<and>
        tree_ok t' \<and> keeps q ?t t'" for r f
    using that inv by (fastforce simp: step_matches_def eval_view_def)
  have upd: "s[length fs := f] = fs @ [f]" for f by (simp add: fs(1))
  have frame_same: "fs @ [frame] = s" by (simp add: fs(1))
  have bare: "step_matches (Inr ((if ?l \<noteq> [] then frame @ [SBool (False \<notin> set ?l)] else frame) # rev fs, False))
      (finish_bare ?t ?node ?l s (length fs) frame)"
    using finish_ok(3) [of ?t q ?node ?l s "length fs" frame] i lc
    by (intro fin, cases inner) (simp_all add: upd frame_same)
  have op: "step_matches (Inr ((butlast frame @ [SBool (is_satisfied p ?l)]) # rev fs, False))
      (finish_operator ?t ?node p ?l s (length fs) frame)" for p
    using finish_ok(1) [of ?t q ?node p ?l s "length fs" frame] i lc
    by (intro fin) (simp add: upd)
  have drop: "step_matches (Inr (butlast frame # rev fs, False))
      (drop_conditional ?t ?node s (length fs) frame)"
    using finish_ok(2) [of ?t q ?node s "length fs" frame] i lc
    by (intro fin) (simp add: upd)
  have eq: "close_group en iu st =
    (case vec_last frame of
       Some (SOp p) \<Rightarrow>
         if is_op p then finish_operator ?t ?node p ?l s (length fs) frame
         else if ends_with_char p CHR ''?'' then
           out_bind (out_of_res (ru_is_active (butlast p) en iu)) (\<lambda>active.
             if active then finish_operator ?t ?node p ?l s (length fs) frame
             else drop_conditional ?t ?node s (length fs) frame)
         else finish_bare ?t ?node ?l s (length fs) frame
     | _ \<Rightarrow> finish_bare ?t ?node ?l s (length fs) frame)"
  proof -
    have "vec_get s (length fs) = (Ok frame :: (ru_error, stack_item list) outcome)"
      "vec_last (s @ [inner]) = Some inner"
      using fs(1) by (simp_all add: vec_last_def)
    then show ?thesis using assms(2) Suc s(1) fs(2) by (simp add: close_group_def Let_def del: vec_get_Ok)
  qed
  have err: "step_matches (Inl e) (Err e)" for e by (simp add: step_matches_def)
  show ?thesis unfolding eq view
    using bare op drop err
    by (auto simp: eval_close_def res_bind_def split: option.split stack_item.split sum.split)
qed

lemma ru_step_ok:
  assumes "ru_inv path st"
  shows "step_matches (eval_step en iu (eval_view st) token) (ru_step en iu st token)"
proof -
  have view: "eval_view st = (rev (rs_stack st), rs_need st)" by (simp add: eval_view_def)
  have matches: "step_matches (Inr v) r"
    if "\<exists>path' st'. r = Ok st' \<and> ru_inv path' st' \<and> eval_view st' = v" for v r
    using that by (auto simp: step_matches_def)
  have err: "step_matches (Inl e) (Err e)" for e by (simp add: step_matches_def)
  consider "token = ''(''" | "token = '')''" | "token \<noteq> ''(''" "token \<noteq> '')''" by blast
  then show ?thesis
  proof cases
    case 1
    then show ?thesis
      using matches [OF open_group_ok [OF assms]] by (simp add: ru_step_def view)
  next
    case 2
    then show ?thesis
      using close_group_ok [OF assms, of en iu] err
      by (cases "rs_need st") (simp_all add: ru_step_def view close_group_def)
  next
    case 3
    show ?thesis
    proof (cases "rs_need st")
      case True
      then show ?thesis using 3 err by (simp add: ru_step_def view)
    next
      case False
      note opened = matches [OF open_operator_ok [OF assms False, of token]]
      show ?thesis
      proof (cases "is_op token \<or> ends_with_char token CHR ''?''")
        case True
        then show ?thesis using 3 False opened by (auto simp: ru_step_def view)
      next
        case leaf: False
        then have eq: "ru_step en iu st token = add_leaf en iu st token"
          "eval_step en iu (eval_view st) token = res_bind (ru_is_active token en iu)
            (\<lambda>sat. Inr ((hd (rev (rs_stack st)) @ [SBool sat]) # tl (rev (rs_stack st)), False))"
          using 3 False by (auto simp: ru_step_def view)
        show ?thesis
        proof (cases "ru_is_active token en iu")
          case (Inl e)
          then show ?thesis unfolding eq using err by (simp add: add_leaf_def)
        next
          case (Inr sat)
          then show ?thesis
            unfolding eq using matches [OF add_leaf_ok [OF assms False Inr]] by simp
        qed
      qed
    qed
  qed
qed

fun eval_loop ::
  "string set \<Rightarrow> string set \<Rightarrow> stack_item list list \<times> bool \<Rightarrow> string list \<Rightarrow>
   ru_error + stack_item list list \<times> bool" where
  "eval_loop en iu v [] = Inr v"
| "eval_loop en iu v (token # rest) = res_bind (eval_step en iu v token) (\<lambda>v. eval_loop en iu v rest)"

lemma ru_loop_ok:
  "ru_inv path st \<Longrightarrow> step_matches (eval_loop en iu (eval_view st) toks) (ru_loop en iu st toks)"
proof (induction toks arbitrary: path st)
  case Nil
  then show ?case by (auto simp: step_matches_def)
next
  case (Cons token rest)
  note step = ru_step_ok [OF Cons.prems, of en iu token]
  show ?case
  proof (cases "eval_step en iu (eval_view st) token")
    case (Inl e)
    then show ?thesis using step by (simp add: step_matches_def del: eval_step.simps)
  next
    case (Inr v)
    then obtain st' path' where st': "ru_step en iu st token = Ok st'" "ru_inv path' st'"
        "eval_view st' = v"
      using step by (auto simp: step_matches_def simp del: eval_step.simps)
    then show ?thesis using Cons.IH [OF st'(2)] Inr by (simp del: eval_step.simps)
  qed
qed

lemma ru_init_inv: "ru_inv [] ru_init"
  by (simp add: ru_inv_def ru_init_def tree_ok_def node_ok_def root_node_def)

definition eval_required_use :: "string \<Rightarrow> string set \<Rightarrow> string set \<Rightarrow> ru_error + bool" where
  "eval_required_use s en iu =
     res_bind (eval_loop en iu ([[]], False) (split_whitespace s)) (\<lambda>(fs, need).
       if need \<or> length fs \<noteq> 1 then Inl UnbalancedParens else Inr (SBool False \<notin> set (hd fs)))"

lemma build_matches:
  "(case eval_required_use s en iu of
      Inl e \<Rightarrow> build_required_use_tree s en iu = Err e
    | Inr b \<Rightarrow> \<exists>t. build_required_use_tree s en iu = Ok (t, root_node, b) \<and> tree_ok t)"
proof -
  have init: "eval_view ru_init = ([[]], False)" by (simp add: eval_view_def ru_init_def)
  note loop = ru_loop_ok [OF ru_init_inv, of en iu "split_whitespace s", unfolded init]
  show ?thesis
  proof (cases "eval_loop en iu ([[]], False) (split_whitespace s)")
    case (Inl e)
    then show ?thesis using loop
      by (simp add: eval_required_use_def build_required_use_tree_def step_matches_def)
  next
    case (Inr v)
    then obtain st path where st: "ru_loop en iu ru_init (split_whitespace s) = Ok st"
        "ru_inv path st" "eval_view st = v" using loop by (auto simp: step_matches_def)
    have len: "length (rs_stack st) = Suc (rs_level st)" using st(2) by (simp add: ru_inv_def)
    then obtain f fs where f: "rs_stack st = f # fs" "rs_level st = length fs"
      by (cases "rs_stack st") auto
    then show ?thesis using Inr st
      by (auto simp: eval_required_use_def build_required_use_tree_def eval_view_def ru_inv_def
          vec_get_def simp del: out_bind_Ok_iff)
  qed
qed

section \<open>Printing the tree\<close>

lemma complex_nesting_total:
  "tree_ok t \<Longrightarrow> m < length t \<Longrightarrow> m < fuel \<Longrightarrow> \<exists>b. complex_nesting fuel t (Some m) = Ok b"
proof (induction fuel arbitrary: m)
  case (Suc fuel)
  show ?case
  proof (cases "nparent (t ! m)")
    case None
    then show ?thesis using Suc.prems by (auto simp: arena_ops simp del: out_bind_Ok_iff)
  next
    case (Some q)
    then have "q < m" using tree_ok_parent Suc.prems by blast
    then obtain b where "complex_nesting fuel t (Some q) = Ok b"
      using Suc.IH [of q] Suc.prems by auto
    then show ?thesis using Some Suc.prems by (auto simp: arena_ops simp del: out_bind_Ok_iff)
  qed
qed simp

lemma node_satisfied_total: "i < length t \<Longrightarrow> \<exists>b. node_satisfied t i = Ok b"
  by (simp add: node_satisfied_def vec_get_def del: out_bind_Ok_iff)

lemma tounicode_list_total:
  assumes "\<And>c. c \<in> set cs \<Longrightarrow> c < length t \<and> (\<exists>s. tounicode fuel t c = Ok s)"
  shows "\<exists>ss. tounicode_list fuel t complex cs = Ok ss"
  using assms
proof (induction cs)
  case (Cons c cs)
  have c: "c < length t" "\<exists>s. tounicode fuel t c = Ok s" using Cons.prems by auto
  then obtain b s ss where "node_satisfied t c = Ok b" "tounicode fuel t c = Ok s"
      "tounicode_list fuel t complex cs = Ok ss"
    using Cons node_satisfied_total [of c t] by fastforce
  then show ?case by (simp del: out_bind_Ok_iff)
qed simp

lemma tounicode_total:
  "tree_ok t \<Longrightarrow> i < length t \<Longrightarrow> length t \<le> fuel + i \<Longrightarrow> \<exists>s. tounicode fuel t i = Ok s"
proof (induction fuel arbitrary: i)
  case (Suc fuel)
  show ?case
  proof (cases "t ! i")
    case (NLeaf token sat)
    then show ?thesis using Suc.prems by (simp add: vec_get_def del: out_bind_Ok_iff)
  next
    case (NBranch p children sat parent)
    have "\<exists>ss. tounicode_list fuel t complex children = Ok ss" for complex
      using tree_ok_kids [OF Suc.prems(1,2)] NBranch Suc.prems
      by (intro tounicode_list_total) (fastforce intro!: Suc.IH)
    moreover obtain b where "complex_nesting (length t) t (Some i) = Ok b"
      using complex_nesting_total [OF Suc.prems(1,2,2)] by blast
    ultimately obtain ss where "complex_nesting (length t) t (Some i) = Ok b"
        "tounicode_list fuel t b children = Ok ss" by blast
    then show ?thesis using NBranch Suc.prems
      by (simp add: vec_get_def Let_def del: out_bind_Ok_iff)
  qed
qed simp

text \<open>
  \<open>unsatisfied_reduced\<close> never panics and always returns: no index of the arena is out of
  range, no \<open>unwrap\<close> meets a missing parent, no debug assertion on the popped child fails and
  the printing ends. Errors and the truth value are those of the evaluation without a tree.
\<close>

lemma unsatisfied_total:
  "unsatisfied_reduced s en iu \<noteq> Panicked \<and>
   build_required_use_tree s en iu \<noteq> Panicked \<and>
   (unsatisfied_reduced s en iu = Ok None \<longleftrightarrow> eval_required_use s en iu = Inr True) \<and>
   ((\<exists>str. unsatisfied_reduced s en iu = Ok (Some str)) \<longleftrightarrow> eval_required_use s en iu = Inr False) \<and>
   (\<forall>e. unsatisfied_reduced s en iu = Err e \<longleftrightarrow> eval_required_use s en iu = Inl e)"
proof (cases "eval_required_use s en iu")
  case (Inl e)
  then show ?thesis using build_matches [of s en iu] by (simp add: unsatisfied_reduced_def)
next
  case (Inr b)
  then obtain t where t: "build_required_use_tree s en iu = Ok (t, root_node, b)" "tree_ok t"
    using build_matches [of s en iu] by auto
  then obtain str where "tounicode (Suc (length t)) t root_node = Ok str"
    using tounicode_total [OF t(2), of root_node "Suc (length t)"]
    by (auto simp: tree_ok_def root_node_def simp del: tounicode.simps)
  then show ?thesis using t Inr
    by (cases b) (simp_all add: unsatisfied_reduced_def del: tounicode.simps out_bind_Ok_iff)
qed

text \<open>
  \<open>unsatisfied_reduced\<close> never panics and always returns: no index of the arena is out of
  range, no \<open>unwrap\<close> meets a missing parent, no debug assertion on the popped child fails and
  the printing ends. Whether it prints nothing, prints the failing part or gives an error is
  decided by the stack of truth values alone; the tree does not influence it.
\<close>

theorem unsatisfied_reduced_total:
  "unsatisfied_reduced s en iu \<noteq> Panicked \<and> build_required_use_tree s en iu \<noteq> Panicked \<and>
   (unsatisfied_reduced s en iu = Ok None \<longleftrightarrow> eval_required_use s en iu = Inr True) \<and>
   ((\<exists>str. unsatisfied_reduced s en iu = Ok (Some str)) \<longleftrightarrow> eval_required_use s en iu = Inr False) \<and>
   (\<forall>e. unsatisfied_reduced s en iu = Err e \<longleftrightarrow> eval_required_use s en iu = Inl e)"
  by (rule unsatisfied_total)

section \<open>The value on the grammar\<close>

text \<open>
  What an item leaves on the stack: an inactive conditional and a bare group with nothing left in
  it leave nothing, where \<open>check_required_use\<close> counts both as true.
\<close>

fun ru_stacked :: "string set \<Rightarrow> string set \<Rightarrow> ru_item \<Rightarrow> ru_error + bool list" where
  "ru_stacked en iu (RLeaf t) = res_bind (ru_is_active t en iu) (\<lambda>b. Inr [b])"
| "ru_stacked en iu (RAll is) =
     res_bind (res_map (ru_stacked en iu) is) (\<lambda>bss.
       let bs = concat bss in Inr (if bs = [] then [] else [False \<notin> set bs]))"
| "ru_stacked en iu (ROp p is) =
     res_bind (res_map (ru_stacked en iu) is) (\<lambda>bss. Inr [op_satisfied p (concat bss)])"
| "ru_stacked en iu (RCond c is) =
     res_bind (res_map (ru_stacked en iu) is) (\<lambda>bss.
     res_bind (ru_is_active c en iu) (\<lambda>a. Inr (if a then [False \<notin> set (concat bss)] else [])))"

lemma is_satisfied_op: "is_op p \<Longrightarrow> is_satisfied p l = op_satisfied p l"
  by (auto simp: is_satisfied_def op_satisfied_def is_op_def valid_operators_def Let_def)

lemma is_satisfied_cond: "\<not> is_op p \<Longrightarrow> is_satisfied p l = (False \<notin> set l)"
  by (auto simp: is_satisfied_def is_op_def valid_operators_def)

lemma item_bools [simp]: "map item_bool (map SBool bs) = bs"
  by (induction bs) auto

lemma vec_last_snoc [simp]: "vec_last (f @ [x]) = Some x"
  by (simp add: vec_last_def)

lemma eval_close_bare:
  "eval_close en iu l (map SBool bs) =
     Inr (map SBool bs @ (if l \<noteq> [] then [SBool (False \<notin> set l)] else []))"
  by (cases bs rule: rev_cases) (auto simp: eval_close_def vec_last_def)

lemma eval_close_op:
  "is_op p \<Longrightarrow> eval_close en iu l (f @ [SOp p]) = Inr (f @ [SBool (op_satisfied p l)])"
  by (simp add: eval_close_def is_satisfied_op)

lemma eval_close_cond:
  "\<not> is_op (c @ ''?'') \<Longrightarrow> eval_close en iu l (f @ [SOp (c @ ''?'')]) =
     res_bind (ru_is_active c en iu) (\<lambda>a. Inr (f @ (if a then [SBool (False \<notin> set l)] else [])))"
  by (auto simp: eval_close_def is_satisfied_cond ends_with_char_iff res_bind_def split: sum.split)

definition stacked_run ::
  "string set \<Rightarrow> string set \<Rightarrow> stack_item list \<Rightarrow> stack_item list list \<Rightarrow> ru_error + bool list \<Rightarrow>
   string list \<Rightarrow> ru_error + stack_item list list \<times> bool" where
  "stacked_run en iu f fs r rest =
     res_bind r (\<lambda>bs. eval_loop en iu ((f @ map SBool bs) # fs, False) rest)"

lemma eval_loop_list:
  assumes "\<And>i bs fs rest. i \<in> set is \<Longrightarrow> eval_loop en iu (map SBool bs # fs, False) (ru_tokens i @ rest) =
      stacked_run en iu (map SBool bs) fs (ru_stacked en iu i) rest"
  shows "eval_loop en iu (map SBool bs # fs, False) (concat (map ru_tokens is) @ rest) =
    stacked_run en iu (map SBool bs) fs (res_bind (res_map (ru_stacked en iu) is) (\<lambda>bss. Inr (concat bss))) rest"
  using assms
proof (induction "is" arbitrary: bs)
  case (Cons i "is")
  have "eval_loop en iu (map SBool bs # fs, False) (concat (map ru_tokens (i # is)) @ rest) =
    res_bind (ru_stacked en iu i) (\<lambda>xs.
      eval_loop en iu (map SBool (bs @ xs) # fs, False) (concat (map ru_tokens is) @ rest))"
    using Cons.prems [of i bs fs "concat (map ru_tokens is) @ rest"] by (simp add: stacked_run_def)
  also have "\<dots> = res_bind (ru_stacked en iu i) (\<lambda>xs.
      stacked_run en iu (map SBool (bs @ xs)) fs
        (res_bind (res_map (ru_stacked en iu) is) (\<lambda>bss. Inr (concat bss))) rest)"
    using Cons.IH Cons.prems by (simp del: map_append)
  finally show ?case by (simp add: stacked_run_def res_bind_assoc)
qed (simp add: stacked_run_def)

lemma eval_group:
  assumes "\<And>i bs fs rest. i \<in> set is \<Longrightarrow> eval_loop en iu (map SBool bs # fs, False) (ru_tokens i @ rest) =
      stacked_run en iu (map SBool bs) fs (ru_stacked en iu i) rest"
  shows "eval_loop en iu (f # fs, need) (''('' # concat (map ru_tokens is) @ '')'' # rest) =
    res_bind (res_map (ru_stacked en iu) is) (\<lambda>bss.
    res_bind (eval_close en iu (concat bss) f) (\<lambda>f. eval_loop en iu (f # fs, False) rest))"
  using eval_loop_list [OF assms, where bs = "[]" and fs = "f # fs" and rest = "'')'' # rest"]
  by (simp add: stacked_run_def res_bind_assoc del: map_map)

lemma eval_loop_item:
  "ru_wf i \<Longrightarrow> eval_loop en iu (map SBool bs # fs, False) (ru_tokens i @ rest) =
     stacked_run en iu (map SBool bs) fs (ru_stacked en iu i) rest"
proof (induction i arbitrary: bs fs rest)
  case (RLeaf t)
  then show ?case by (simp add: stacked_run_def res_bind_assoc)
next
  case (RAll "is")
  then have "\<And>i bs fs rest. i \<in> set is \<Longrightarrow>
    eval_loop en iu (map SBool bs # fs, False) (ru_tokens i @ rest) =
      stacked_run en iu (map SBool bs) fs (ru_stacked en iu i) rest" by simp
  from eval_group [OF this, where f = "map SBool bs" and fs = fs and need = False and rest = rest]
  show ?case by (simp add: eval_close_bare stacked_run_def res_bind_assoc Let_def
      del: eval_loop.simps if_cong cong: if_cong) (auto intro!: res_bind_cong)
next
  case (ROp p "is")
  then have "\<And>i bs fs rest. i \<in> set is \<Longrightarrow>
    eval_loop en iu (map SBool bs # fs, False) (ru_tokens i @ rest) =
      stacked_run en iu (map SBool bs) fs (ru_stacked en iu i) rest" by simp
  from eval_group [OF this, where f = "map SBool bs @ [SOp p]" and fs = fs and need = True and rest = rest]
  have g: "eval_loop en iu ((map SBool bs @ [SOp p]) # fs, True)
      (''('' # concat (map ru_tokens is) @ '')'' # rest) =
    res_bind (res_map (ru_stacked en iu) is) (\<lambda>bss.
      eval_loop en iu ((map SBool bs @ [SBool (op_satisfied p (concat bss))]) # fs, False) rest)"
    using ROp.prems by (simp add: eval_close_op)
  have "eval_loop en iu (map SBool bs # fs, False) (ru_tokens (ROp p is) @ rest) =
    eval_loop en iu ((map SBool bs @ [SOp p]) # fs, True) (''('' # concat (map ru_tokens is) @ '')'' # rest)"
    using ROp.prems by (subst ru_tokens.simps) (auto simp del: eval_loop.simps(1))
  then show ?case unfolding g by (simp add: stacked_run_def res_bind_assoc)
next
  case (RCond c "is")
  then have "\<And>i bs fs rest. i \<in> set is \<Longrightarrow>
    eval_loop en iu (map SBool bs # fs, False) (ru_tokens i @ rest) =
      stacked_run en iu (map SBool bs) fs (ru_stacked en iu i) rest" by simp
  from eval_group [OF this, where f = "map SBool bs @ [SOp (c @ ''?'')]" and fs = fs and need = True and rest = rest]
  have g: "eval_loop en iu ((map SBool bs @ [SOp (c @ ''?'')]) # fs, True)
      (''('' # concat (map ru_tokens is) @ '')'' # rest) =
    res_bind (res_map (ru_stacked en iu) is) (\<lambda>bss.
    res_bind (ru_is_active c en iu) (\<lambda>a.
      eval_loop en iu ((map SBool bs @ (if a then [SBool (False \<notin> set (concat bss))] else [])) # fs, False) rest))"
    using RCond.prems by (simp add: eval_close_cond res_bind_assoc)
  have "eval_loop en iu (map SBool bs # fs, False) (ru_tokens (RCond c is) @ rest) =
    eval_loop en iu ((map SBool bs @ [SOp (c @ ''?'')]) # fs, True)
      (''('' # concat (map ru_tokens is) @ '')'' # rest)"
    using RCond.prems by (subst ru_tokens.simps) (auto simp: ends_with_char_iff simp del: eval_loop.simps(1))
  then show ?case unfolding g by (simp add: stacked_run_def res_bind_assoc) (auto intro!: res_bind_cong)
qed

lemma eval_required_use_items:
  assumes "split_whitespace s = concat (map ru_tokens is)" "\<forall>i \<in> set is. ru_wf i"
  shows "eval_required_use s en iu =
    res_bind (res_map (ru_stacked en iu) is) (\<lambda>bss. Inr (False \<notin> set (concat bss)))"
proof -
  have "eval_loop en iu ([[]], False) (concat (map ru_tokens is)) =
    stacked_run en iu [] [] (res_bind (res_map (ru_stacked en iu) is) (\<lambda>bss. Inr (concat bss))) []"
    using eval_loop_list [where bs = "[]" and fs = "[]" and rest = "[]", of "is" en iu] assms(2)
    by (simp add: eval_loop_item)
  moreover have "SBool False \<in> SBool ` A \<longleftrightarrow> False \<in> A" for A by auto
  ultimately show ?thesis
    by (simp add: eval_required_use_def assms(1) stacked_run_def res_bind_assoc image_Union [symmetric])
qed

text \<open>An item that leaves a value whatever the flags are, and no other item below an operator.\<close>

fun ru_solid :: "ru_item \<Rightarrow> bool" where
  "ru_solid (RLeaf t) \<longleftrightarrow> True"
| "ru_solid (RAll is) \<longleftrightarrow> (\<exists>i \<in> set is. ru_solid i)"
| "ru_solid (ROp p is) \<longleftrightarrow> True"
| "ru_solid (RCond c is) \<longleftrightarrow> False"

fun ops_solid :: "ru_item \<Rightarrow> bool" where
  "ops_solid (RLeaf t) \<longleftrightarrow> True"
| "ops_solid (RAll is) \<longleftrightarrow> (\<forall>i \<in> set is. ops_solid i)"
| "ops_solid (ROp p is) \<longleftrightarrow> (\<forall>i \<in> set is. ru_solid i \<and> ops_solid i)"
| "ops_solid (RCond c is) \<longleftrightarrow> (\<forall>i \<in> set is. ops_solid i)"

definition stacked_agrees :: "bool \<Rightarrow> ru_error + bool list \<Rightarrow> ru_error + bool \<Rightarrow> bool" where
  "stacked_agrees solid r v \<longleftrightarrow>
     (case r of
        Inl e \<Rightarrow> v = Inl e
      | Inr bs \<Rightarrow> v = Inr (False \<notin> set bs) \<and> length bs \<le> 1 \<and> (solid \<longrightarrow> bs \<noteq> []))"

lemma stacked_list:
  assumes "\<And>i. i \<in> set is \<Longrightarrow> stacked_agrees (ru_solid i) (ru_stacked en iu i) (ru_eval en iu i)"
  shows "case res_map (ru_stacked en iu) is of
      Inl e \<Rightarrow> res_map (ru_eval en iu) is = Inl e
    | Inr bss \<Rightarrow> res_map (ru_eval en iu) is = Inr (map (\<lambda>bs. False \<notin> set bs) bss) \<and>
        list_all2 (\<lambda>i bs. length bs \<le> 1 \<and> (ru_solid i \<longrightarrow> bs \<noteq> [])) is bss"
  using assms
proof (induction "is")
  case (Cons i "is")
  have i: "stacked_agrees (ru_solid i) (ru_stacked en iu i) (ru_eval en iu i)" using Cons.prems by simp
  note rest = Cons.IH [OF Cons.prems]
  show ?case
  proof (cases "ru_stacked en iu i")
    case (Inl e)
    then show ?thesis using i by (simp add: stacked_agrees_def)
  next
    case (Inr bs)
    then show ?thesis using i rest
      by (cases "res_map (ru_stacked en iu) is") (simp_all add: stacked_agrees_def)
  qed
qed simp

lemma stacked_solid:
  "list_all2 (\<lambda>i bs. length bs \<le> 1 \<and> (ru_solid i \<longrightarrow> bs \<noteq> [])) is bss \<Longrightarrow>
   \<forall>i \<in> set is. ru_solid i \<Longrightarrow> concat bss = map (\<lambda>bs. False \<notin> set bs) bss"
proof (induction rule: list_all2_induct)
  case (Cons i "is" bs bss)
  then obtain b where "bs = [b]" by (cases bs) auto
  then show ?case using Cons by auto
qed simp

lemma stacked_some:
  "list_all2 (\<lambda>i bs. length bs \<le> 1 \<and> (ru_solid i \<longrightarrow> bs \<noteq> [])) is bss \<Longrightarrow>
   \<exists>i \<in> set is. ru_solid i \<Longrightarrow> concat bss \<noteq> []"
  by (induction rule: list_all2_induct) auto

lemma stacked_all: "False \<in> set (map (\<lambda>bs. False \<notin> set bs) bss) \<longleftrightarrow> False \<in> set (concat bss)"
  by (induction bss) auto

lemma stacked_item:
  "ops_solid i \<Longrightarrow> stacked_agrees (ru_solid i) (ru_stacked en iu i) (ru_eval en iu i)"
proof (induction i)
  case (RLeaf t)
  then show ?case by (cases "ru_is_active t en iu") (auto simp: stacked_agrees_def)
next
  case (RAll "is")
  note list = stacked_list [of "is" en iu]
  show ?case
  proof (cases "res_map (ru_stacked en iu) is")
    case (Inl e)
    then show ?thesis using list RAll by (simp add: stacked_agrees_def)
  next
    case (Inr bss)
    then show ?thesis using list RAll stacked_some [of "is" bss] stacked_all [of bss]
      by (auto simp: stacked_agrees_def Let_def)
  qed
next
  case (ROp p "is")
  note list = stacked_list [of "is" en iu]
  show ?case
  proof (cases "res_map (ru_stacked en iu) is")
    case (Inl e)
    then show ?thesis using list ROp by (simp add: stacked_agrees_def)
  next
    case (Inr bss)
    then show ?thesis using list ROp stacked_solid [of "is" bss]
      by (auto simp: stacked_agrees_def)
  qed
next
  case (RCond c "is")
  note list = stacked_list [of "is" en iu]
  show ?case
  proof (cases "res_map (ru_stacked en iu) is")
    case (Inl e)
    then show ?thesis using list RCond by (simp add: stacked_agrees_def)
  next
    case (Inr bss)
    then show ?thesis using list RCond stacked_all [of bss]
      by (cases "ru_is_active c en iu") (auto simp: stacked_agrees_def)
  qed
qed

text \<open>
  C23: The two evaluators agree on every well-formed constraint in which each operator has only
  items directly below it that cannot vanish (flags, operators and bare groups that contain one
  of these): same error, and \<open>unsatisfied_reduced\<close> has nothing to print exactly when
  \<open>check_required_use\<close> holds.
\<close>

theorem evaluators_agree:
  assumes "split_whitespace s = concat (map ru_tokens is)"
    and "\<forall>i \<in> set is. ru_wf i \<and> ops_solid i"
  shows "case check_required_use s en iu of
      Inl e \<Rightarrow> unsatisfied_reduced s en iu = Err e
    | Inr True \<Rightarrow> unsatisfied_reduced s en iu = Ok None
    | Inr False \<Rightarrow> \<exists>str. unsatisfied_reduced s en iu = Ok (Some str)"
proof -
  have list: "case res_map (ru_stacked en iu) is of
      Inl e \<Rightarrow> res_map (ru_eval en iu) is = Inl e
    | Inr bss \<Rightarrow> res_map (ru_eval en iu) is = Inr (map (\<lambda>bs. False \<notin> set bs) bss) \<and>
        list_all2 (\<lambda>i bs. length bs \<le> 1 \<and> (ru_solid i \<longrightarrow> bs \<noteq> [])) is bss"
    using assms(2) by (intro stacked_list stacked_item) simp
  have "check_required_use s en iu = res_bind (res_map (ru_eval en iu) is) (\<lambda>bs. Inr (False \<notin> set bs))"
    using parse_items_tokens [of "is" en iu "[]"] assms
    by (simp add: check_required_use_def res_bind_assoc)
  also have "\<dots> = eval_required_use s en iu"
    using list eval_required_use_items [OF assms(1), of en iu] assms(2) stacked_all
    by (auto simp: split: sum.splits)
  finally show ?thesis
    using unsatisfied_total [of s en iu] by (auto split: sum.split bool.split)
qed

theorem evaluators_agree_witness:
  "\<exists>str. unsatisfied_reduced ''|| ( a ( b c ) ) x? ( d )'' {''b'', ''x''} {''a'', ''b'', ''c'', ''d'', ''x''} =
     Ok (Some str)"
proof -
  let ?is = "[ROp ''||'' [RLeaf ''a'', RAll [RLeaf ''b'', RLeaf ''c'']], RCond ''x'' [RLeaf ''d'']]"
  have "split_whitespace ''|| ( a ( b c ) ) x? ( d )'' = concat (map ru_tokens ?is)" by code_simp
  moreover have "\<forall>i \<in> set ?is. ru_wf i \<and> ops_solid i" by code_simp
  moreover have "check_required_use ''|| ( a ( b c ) ) x? ( d )'' {''b'', ''x''}
      {''a'', ''b'', ''c'', ''d'', ''x''} = Inr False" by code_simp
  ultimately show ?thesis
    using evaluators_agree [of "''|| ( a ( b c ) ) x? ( d )''" ?is "{''b'', ''x''}"
        "{''a'', ''b'', ''c'', ''d'', ''x''}"] by simp
qed

text \<open>The members of an operator that the tree evaluator counts, and the conditionals that it leaves out.\<close>

lemma ru_stacked_declared:
  "\<forall>f \<in> set (ru_flags i). f \<noteq> [] \<and> f \<in> iu \<Longrightarrow> \<exists>bs. ru_stacked en iu i = Inr bs"
proof (induction i)
  case (RAll "is")
  then have "\<forall>i \<in> set is. ru_stacked en iu i = Inr (projr (ru_stacked en iu i))" by force
  then have "res_map (ru_stacked en iu) is = Inr (map (\<lambda>i. projr (ru_stacked en iu i)) is)" by (intro res_map_Inr) auto
  then show ?case by (simp add: Let_def)
next
  case (ROp p "is")
  then have "\<forall>i \<in> set is. ru_stacked en iu i = Inr (projr (ru_stacked en iu i))" by force
  then have "res_map (ru_stacked en iu) is = Inr (map (\<lambda>i. projr (ru_stacked en iu i)) is)" by (intro res_map_Inr) auto
  then show ?case by simp
next
  case (RCond c "is")
  then have "\<forall>i \<in> set is. ru_stacked en iu i = Inr (projr (ru_stacked en iu i))" by force
  then have "res_map (ru_stacked en iu) is = Inr (map (\<lambda>i. projr (ru_stacked en iu i)) is)" by (intro res_map_Inr) auto
  then show ?case using RCond.prems by (simp add: ru_is_active_declared)
qed (simp add: ru_is_active_declared)

lemma stacked_member:
  assumes "\<forall>f \<in> set (ru_flags i). f \<noteq> [] \<and> f \<in> iu" "idle en i \<or> ru_solid i \<and> ops_solid i"
  shows "ru_stacked en iu i = Inr (if idle en i then [] else [ru_sat en i])"
proof (cases "idle en i")
  case True
  then obtain c "is" where i: "i = RCond c is" "\<not> leaf_sat en c" by (cases i) auto
  then show ?thesis
    using ru_stacked_declared [OF assms(1), of en] assms(1) by (auto simp: ru_is_active_declared)
next
  case False
  obtain bs where bs: "ru_stacked en iu i = Inr bs" using ru_stacked_declared [OF assms(1)] by blast
  moreover obtain b where "bs = [b]"
    using stacked_item [of i en iu] assms(2) False bs by (cases bs) (auto simp: stacked_agrees_def)
  ultimately show ?thesis
    using stacked_item [of i en iu] assms(2) ru_eval_declared [OF assms(1), of en] False
    by (auto simp: stacked_agrees_def)
qed

lemma member_counts:
  "concat (map (\<lambda>i. if idle en i then [] else [ru_sat en i]) is) = map (ru_sat en) (filter (\<lambda>i. \<not> idle en i) is)"
  by (induction "is") auto

lemma idle_sat: "idle en i \<Longrightarrow> ru_sat en i"
  by (cases i) auto

lemma sat_counts:
  "length (filter (ru_sat en) is) =
     length (filter (\<lambda>i. \<not> idle en i \<and> ru_sat en i) is) + length (filter (idle en) is)"
  by (induction "is") (auto simp: idle_sat)

text \<open>
  C24: where the two evaluators differ. The constraint is one operator over declared flags whose members
  are conditionals with their flag not set or items that cannot vanish. With \<open>n\<close> true members of the
  second kind and \<open>k\<close> of the first, \<open>check_required_use\<close> asks the operator about \<open>n + k\<close> and the tree
  evaluator about \<open>n\<close>, which is what the specification asks (with empty groups false): so
  \<open>unsatisfied_reduced\<close> has something to print for a constraint that \<open>check_required_use\<close> accepts, or
  nothing for one that it rejects, exactly when the operator tells \<open>n\<close> from \<open>n + k\<close>. In the first line of
  the witness what it prints is the empty string.
\<close>

theorem evaluators_differ:
  assumes "split_whitespace s = ru_tokens (ROp p is)" "ru_wf (ROp p is)"
    and "\<forall>f \<in> set (ru_flags (ROp p is)). f \<noteq> [] \<and> f \<in> iu"
    and "\<forall>i \<in> set is. idle en i \<or> ru_solid i \<and> ops_solid i"
    and "n = length (filter (\<lambda>i. \<not> idle en i \<and> ru_sat en i) is)" "k = length (filter (idle en) is)"
  shows "check_required_use s en iu = Inr (op_count p (n + k)) \<and>
    (if op_count p n then unsatisfied_reduced s en iu = Ok None
     else \<exists>str. unsatisfied_reduced s en iu = Ok (Some str))"
proof
  have eval: "res_map (ru_eval en iu) [ROp p is] = Inr [ru_sat en (ROp p is)]"
    using ru_eval_declared [OF assms(3), of en] by simp
  have "ru_sat en (ROp p is) = op_count p (n + k)"
    using sat_counts [of en "is"] assms(5,6) by (simp add: op_count_def Let_def)
  then have "check_required_use s en iu = res_bind (Inr [op_count p (n + k)]) (\<lambda>bs. Inr (False \<notin> set bs))"
    using parse_items_tokens [of "[ROp p is]" en iu "[]", unfolded eval] assms(1,2)
    by (simp add: check_required_use_def)
  then show "check_required_use s en iu = Inr (op_count p (n + k))" by simp
  have kids: "res_map (ru_stacked en iu) is = Inr (map (\<lambda>i. if idle en i then [] else [ru_sat en i]) is)"
    using assms(3,4) by (intro res_map_Inr stacked_member) auto
  have "op_satisfied p (map (ru_sat en) (filter (\<lambda>i. \<not> idle en i) is)) = op_count p n"
    using assms(5) by (simp add: op_satisfied_def op_count_def true_count_map conj_commute)
  then have "eval_required_use s en iu = Inr (op_count p n)"
    using eval_required_use_items [of s "[ROp p is]" en iu] assms(1,2) by (simp add: kids member_counts)
  then show "if op_count p n then unsatisfied_reduced s en iu = Ok None
      else \<exists>str. unsatisfied_reduced s en iu = Ok (Some str)"
    using unsatisfied_total [of s en iu] by simp
qed

theorem evaluators_differ_witness:
  "check_required_use ''|| ( x? ( a ) )'' {} {''x'', ''a''} = Inr True \<and>
   unsatisfied_reduced ''|| ( x? ( a ) )'' {} {''x'', ''a''} = Ok (Some []) \<and>
   check_required_use ''?? ( a x? ( b ) )'' {''a''} {''x'', ''a'', ''b''} = Inr False \<and>
   unsatisfied_reduced ''?? ( a x? ( b ) )'' {''a''} {''x'', ''a'', ''b''} = Ok None"
proof -
  let ?is = "[RLeaf ''a'', RCond ''x'' [RLeaf ''b'']]"
  have "split_whitespace ''?? ( a x? ( b ) )'' = ru_tokens (ROp ''??'' ?is)" "ru_wf (ROp ''??'' ?is)"
    "\<forall>f \<in> set (ru_flags (ROp ''??'' ?is)). f \<noteq> [] \<and> f \<in> {''x'', ''a'', ''b''}"
    "\<forall>i \<in> set ?is. idle {''a''} i \<or> ru_solid i \<and> ops_solid i"
    "1 = length (filter (\<lambda>i. \<not> idle {''a''} i \<and> ru_sat {''a''} i) ?is)" "1 = length (filter (idle {''a''}) ?is)"
    by code_simp+
  note facts = evaluators_differ [OF this]
  have "\<not> op_count ''??'' (1 + 1)" "op_count ''??'' 1" by (simp_all add: op_count_def)
  then have "check_required_use ''?? ( a x? ( b ) )'' {''a''} {''x'', ''a'', ''b''} = Inr False"
    "unsatisfied_reduced ''?? ( a x? ( b ) )'' {''a''} {''x'', ''a'', ''b''} = Ok None"
    using facts by simp_all
  moreover have "check_required_use ''|| ( x? ( a ) )'' {} {''x'', ''a''} = Inr True"
    "unsatisfied_reduced ''|| ( x? ( a ) )'' {} {''x'', ''a''} = Ok (Some [])" by code_simp+
  ultimately show ?thesis by blast
qed

end
