(* ===== verification/UseReduce.thy ===== *)
theory UseReduce
  imports Prelude
begin

text \<open>
  Dependency strings (\<open>crates/portage-use-reduce/src/lib.rs\<close>). The stack of the walks is a list
  of frames with the innermost first, so that \<open>stack.last_mut()\<close> is the head. A position is the
  number of tokens before the rest of the list.
\<close>

section \<open>Errors\<close>

datatype match_mode = Normal | MatchAll | MatchNone

datatype token_error_category = IuseMissing | EapiIncompatible

record token_error =
  te_message :: string
  te_category :: "token_error_category option"

datatype use_error =
    InvalidUseFlag string string
  | ExpectedCloseParen string nat
  | NoMatchingOpen nat
  | ExpectedOpenGotOr nat
  | ExpectedOpenGotToken string nat
  | SrcUriArrow nat
  | ConditionalNotFollowedByGroup string
  | OrNotFollowedByGroup
  | MissingCloseParen
  | MissingOpenParen
  | InvalidAtom string nat
  | MissingWhitespace string string nat
  | Categorized string token_error_category

type_synonym 'a use_out = "(use_error, 'a) outcome"

definition use_message :: "use_error \<Rightarrow> string" where
  "use_message e =
     (case e of
        InvalidUseFlag flag conditional \<Rightarrow>
          ''invalid use flag '' @ quoted flag @ '' in conditional '' @ quoted conditional
      | ExpectedCloseParen expected token \<Rightarrow>
          ''expected: '' @ expected @ '', got: '' @ quoted '')'' @ '', token '' @ show_nat token
      | NoMatchingOpen token \<Rightarrow>
          ''no matching '' @ quoted ''('' @ '' for '' @ quoted '')'' @ '', token '' @ show_nat token
      | ExpectedOpenGotOr token \<Rightarrow>
          ''expected: '' @ quoted ''('' @ '', got: '' @ quoted ''||'' @ '', token '' @ show_nat token
      | ExpectedOpenGotToken token at \<Rightarrow>
          ''expected: '' @ quoted ''('' @ '', got: '' @ quoted token @ '', token '' @ show_nat at
      | SrcUriArrow token \<Rightarrow> ''SRC_URI arrow are only allowed in SRC_URI: token '' @ show_nat token
      | ConditionalNotFollowedByGroup s \<Rightarrow> ''conditional '' @ quoted s @ '' not followed by a group''
      | OrNotFollowedByGroup \<Rightarrow> quoted ''||'' @ '' not followed by a group''
      | MissingCloseParen \<Rightarrow> ''Missing '' @ quoted '')'' @ '' at end of string''
      | MissingOpenParen \<Rightarrow> ''Missing '' @ quoted ''('' @ '' at end of string''
      | InvalidAtom message token \<Rightarrow> ''Invalid atom ('' @ message @ ''), token '' @ show_nat token
      | MissingWhitespace what t at \<Rightarrow>
          ''missing whitespace around '' @ quoted what @ '' at '' @ quoted t @ '', token '' @ show_nat at
      | Categorized message _ \<Rightarrow> message)"

section \<open>Conditionals\<close>

definition flag_first :: "char \<Rightarrow> bool" where
  "flag_first c =
     (65 \<le> char_code c \<and> char_code c \<le> 90 \<or> 97 \<le> char_code c \<and> char_code c \<le> 122 \<or> is_digit c)"

definition flag_rest :: "char \<Rightarrow> bool" where
  "flag_rest c = (flag_first c \<or> c \<in> set ''+_@-'')"

definition useflag_matches :: "string \<Rightarrow> bool" where
  "useflag_matches s = (case s of [] \<Rightarrow> False | c # r \<Rightarrow> flag_first c \<and> list_all flag_rest r)"

text \<open>\<open>&s[..s.len() - 1]\<close>: a panic on the empty string.\<close>

definition drop_last :: "string \<Rightarrow> string use_out" where
  "drop_last s = (if s = [] then Panicked else Ok (butlast s))"

definition conditional_flag :: "string \<Rightarrow> (string \<times> bool) use_out" where
  "conditional_flag conditional =
     (case strip_prefix conditional ''!'' of
        Some rest \<Rightarrow> out_bind (drop_last rest) (\<lambda>f. Ok (f, True))
      | None \<Rightarrow> out_bind (drop_last conditional) (\<lambda>f. Ok (f, False)))"

definition is_active :: "string \<Rightarrow> string set \<Rightarrow> match_mode \<Rightarrow> bool use_out" where
  "is_active conditional uselist mode =
     out_bind (conditional_flag conditional) (\<lambda>(flag, negated).
       if \<not> useflag_matches flag then Err (InvalidUseFlag flag conditional)
       else Ok (case mode of
                  MatchAll \<Rightarrow> True
                | MatchNone \<Rightarrow> False
                | Normal \<Rightarrow> flag \<in> uselist \<and> \<not> negated \<or> flag \<notin> uselist \<and> negated))"

definition is_active_validated :: "string \<Rightarrow> (string \<Rightarrow> bool) \<Rightarrow> bool use_out" where
  "is_active_validated conditional is_valid_flag =
     out_bind (conditional_flag conditional) (\<lambda>(flag, negated).
       if \<not> is_valid_flag flag
       then Err (Categorized
         (''USE flag '' @ quoted flag @ '' referenced in conditional '' @ quoted conditional @
          '' is not in IUSE'') IuseMissing)
       else Ok True)"

fun glued_to :: "string \<Rightarrow> string list \<Rightarrow> string option" where
  "glued_to token [] = None"
| "glued_to token (x # xs) =
     (if starts_with token x \<or> starts_with (rev token) (rev x) then Some x else glued_to token xs)"

definition missing_whitespace_check :: "string \<Rightarrow> nat \<Rightarrow> use_error + unit" where
  "missing_whitespace_check token pos =
     (case glued_to token ['')'', ''('', ''||''] of
        Some x \<Rightarrow> Inl (MissingWhitespace x token (pos + 1))
      | None \<Rightarrow> Inr ())"

definition map_hook_error :: "string \<Rightarrow> nat \<Rightarrow> token_error \<Rightarrow> use_error" where
  "map_hook_error token pos err =
     (case te_category err of
        Some category \<Rightarrow> Categorized (te_message err) category
      | None \<Rightarrow>
          (case missing_whitespace_check token pos of
             Inl glue \<Rightarrow> glue
           | Inr _ \<Rightarrow> InvalidAtom (te_message err) (pos + 1)))"

section \<open>The flat walk\<close>

text \<open>\<open>stack.last_mut().unwrap().push(x)\<close>\<close>

definition push_last :: "'a \<Rightarrow> 'a list list \<Rightarrow> 'a list list use_out" where
  "push_last x stack = (case stack of [] \<Rightarrow> Panicked | f # fs \<Rightarrow> Ok ((f @ [x]) # fs))"

text \<open>The closing parenthesis: the popped frame goes to the frame below it, or is dropped.\<close>

definition flat_close :: "(string \<Rightarrow> bool use_out) \<Rightarrow> string list list \<Rightarrow> string list list use_out" where
  "flat_close on_conditional stack =
     (case stack of
        l # t # fs \<Rightarrow>
          if t \<noteq> [] \<and> ends_with_char (last t) CHR ''?'' then
            out_bind (on_conditional (last t)) (\<lambda>active.
              Ok ((if active then butlast t @ l else butlast t) # fs))
          else Ok ((t @ l) # fs)
      | _ \<Rightarrow> Panicked)"

type_synonym 's atom_hook = "string \<Rightarrow> nat \<Rightarrow> 's \<Rightarrow> token_error + 's"

definition flat_atom ::
  "'s atom_hook option \<Rightarrow> string \<Rightarrow> nat \<Rightarrow> string list list \<times> 's \<Rightarrow> (string list list \<times> 's) use_out" where
  "flat_atom on_atom token pos st =
     (case on_atom of
        Some hook \<Rightarrow>
          (case hook token pos (snd st) of
             Inl err \<Rightarrow> Err (map_hook_error token pos err)
           | Inr s \<Rightarrow> Ok (fst st, s))
      | None \<Rightarrow> out_bind (push_last token (fst st)) (\<lambda>stack. Ok (stack, snd st)))"

fun walk_loop ::
  "(string \<Rightarrow> bool use_out) \<Rightarrow> 's atom_hook option \<Rightarrow> nat \<Rightarrow> string list list \<times> 's \<Rightarrow> bool \<Rightarrow>
   string list \<Rightarrow> (string list \<times> 's) use_out" where
  "walk_loop cond hook pos (stack, s) need [] =
     (if length stack \<noteq> 1 then Err MissingCloseParen
      else if need then Err MissingOpenParen
      else out_bind (unwrap (vec_last (rev stack))) (\<lambda>f. Ok (f, s)))"
| "walk_loop cond hook pos (stack, s) need (token # rest) =
     (if token = ''('' then
        if rest \<noteq> [] \<and> hd rest = '')''
        then Err (ExpectedCloseParen ''dependency string'' (pos + 1))
        else walk_loop cond hook (pos + 1) ([] # stack, s) False rest
      else if token = '')'' then
        if need then Err (ExpectedCloseParen (quoted ''('') (pos + 1))
        else if length stack \<le> 1 then Err (NoMatchingOpen (pos + 1))
        else out_bind (flat_close cond stack)
               (\<lambda>stack. walk_loop cond hook (pos + 1) (stack, s) False rest)
      else if token = ''||'' then
        if need then Err (ExpectedOpenGotOr (pos + 1))
        else out_bind (push_last ''||'' stack)
               (\<lambda>stack. walk_loop cond hook (pos + 1) (stack, s) True rest)
      else if token = ''->'' then Err (SrcUriArrow (pos + 1))
      else if need then Err (ExpectedOpenGotToken token (pos + 1))
      else if ends_with_char token CHR ''?'' then
        out_bind (push_last token stack)
          (\<lambda>stack. walk_loop cond hook (pos + 1) (stack, s) True rest)
      else out_bind (flat_atom hook token pos (stack, s))
             (\<lambda>st. walk_loop cond hook (pos + 1) st False rest))"

definition walk_flat ::
  "(string \<Rightarrow> bool use_out) \<Rightarrow> 's atom_hook option \<Rightarrow> 's \<Rightarrow> string list \<Rightarrow> (string list \<times> 's) use_out" where
  "walk_flat on_conditional on_atom s tokens = walk_loop on_conditional on_atom 0 ([[]], s) False tokens"

definition use_reduce_flat :: "string list \<Rightarrow> string set \<Rightarrow> match_mode \<Rightarrow> string list use_out" where
  "use_reduce_flat tokens uselist mode =
     out_bind (walk_flat (\<lambda>cond. is_active cond uselist mode) None () tokens) (\<lambda>(out, _). Ok out)"

definition use_reduce_flat_validated ::
  "string list \<Rightarrow> (string \<Rightarrow> bool) \<Rightarrow> 's atom_hook \<Rightarrow> 's \<Rightarrow> 's use_out" where
  "use_reduce_flat_validated tokens is_valid_flag hook s =
     out_bind (walk_flat (\<lambda>cond. is_active_validated cond is_valid_flag) (Some hook) s tokens)
       (\<lambda>(_, s). Ok s)"

section \<open>The tree\<close>

datatype dep_node = Str string | Group "dep_node list"

definition tree_close :: "dep_node list list \<Rightarrow> dep_node list list use_out" where
  "tree_close stack =
     (case stack of l # fs \<Rightarrow> push_last (Group l) fs | [] \<Rightarrow> Panicked)"

fun tree_loop :: "nat \<Rightarrow> dep_node list list \<Rightarrow> bool \<Rightarrow> string list \<Rightarrow> dep_node list use_out" where
  "tree_loop pos stack need [] =
     (if length stack \<noteq> 1 then Err MissingCloseParen
      else if need then Err MissingOpenParen
      else unwrap (vec_last (rev stack)))"
| "tree_loop pos stack need (token # rest) =
     (if token = ''('' then
        if rest \<noteq> [] \<and> hd rest = '')''
        then Err (ExpectedCloseParen ''dependency string'' (pos + 2))
        else tree_loop (pos + 1) ([] # stack) False rest
      else if token = '')'' then
        if need then Err (ExpectedCloseParen (quoted ''('') (pos + 1))
        else if length stack \<le> 1 then Err (NoMatchingOpen (pos + 1))
        else out_bind (tree_close stack) (\<lambda>stack. tree_loop (pos + 1) stack False rest)
      else if token = ''||'' then
        if need then Err (ExpectedOpenGotOr (pos + 1))
        else out_bind (push_last (Str ''||'') stack)
               (\<lambda>stack. tree_loop (pos + 1) stack True rest)
      else if token = ''->'' then Err (SrcUriArrow (pos + 1))
      else if need then Err (ExpectedOpenGotToken token (pos + 1))
      else out_bind (push_last (Str token) stack)
             (\<lambda>stack. tree_loop (pos + 1) stack (ends_with_char token CHR ''?'') rest))"

definition build_dep_tree :: "string list \<Rightarrow> dep_node list use_out" where
  "build_dep_tree tokens = tree_loop 0 [[]] False tokens"

fun serialize_node :: "dep_node \<Rightarrow> string list" where
  "serialize_node (Str s) = [s]"
| "serialize_node (Group children) = ''('' # concat (map serialize_node children) @ ['')'']"

definition serialize_dep_tree :: "dep_node list \<Rightarrow> string list" where
  "serialize_dep_tree nodes = concat (map serialize_node nodes)"

section \<open>The subset pass\<close>

fun select_subset ::
  "string set \<Rightarrow> string set \<Rightarrow> match_mode \<Rightarrow> bool \<Rightarrow> bool \<Rightarrow> dep_node list \<Rightarrow> dep_node list use_out" where
  "select_subset wanted uselist mode disjunction selected [] = Ok []"
| "select_subset wanted uselist mode disjunction selected (Group children # rest) =
     out_bind (select_subset wanted uselist mode False selected children) (\<lambda>sub.
     out_bind (select_subset wanted uselist mode disjunction selected rest) (\<lambda>result.
       Ok ((if disjunction then if sub \<noteq> [] then [Group sub] else [] else sub) @ result)))"
| "select_subset wanted uselist mode disjunction selected (Str s # rest) =
     (if ends_with_char s CHR ''?'' then
        (case rest of
           Group children # rest' \<Rightarrow>
             out_bind (is_active s uselist mode) (\<lambda>active.
             out_bind
               (if active then
                  out_bind (drop_last s) (\<lambda>flag.
                  out_bind (select_subset wanted uselist mode False (selected \<or> flag \<in> wanted) children)
                    (\<lambda>sub. Ok (if disjunction then if sub \<noteq> [] then [Group sub] else [] else sub)))
                else Ok [])
               (\<lambda>here.
             out_bind (select_subset wanted uselist mode disjunction selected rest') (\<lambda>result.
               Ok (here @ result))))
         | _ \<Rightarrow> Err (ConditionalNotFollowedByGroup s))
      else if s = ''||'' then
        (case rest of
           Group children # rest' \<Rightarrow>
             out_bind (select_subset wanted uselist mode True selected children) (\<lambda>sub.
             out_bind (select_subset wanted uselist mode disjunction selected rest') (\<lambda>result.
               Ok ((if sub \<noteq> [] then if disjunction then sub else [Str ''||'', Group sub] else [])
                   @ result)))
         | _ \<Rightarrow> Err OrNotFollowedByGroup)
      else
        out_bind (select_subset wanted uselist mode disjunction selected rest) (\<lambda>result.
          Ok ((if selected then [Str s] else []) @ result)))"

definition use_reduce_flat_subset ::
  "string list \<Rightarrow> string set \<Rightarrow> match_mode \<Rightarrow> string set \<Rightarrow> string list use_out" where
  "use_reduce_flat_subset tokens uselist mode wanted =
     out_bind (build_dep_tree tokens) (\<lambda>tree.
     out_bind (select_subset wanted uselist mode False False tree) (\<lambda>filtered.
       use_reduce_flat (serialize_dep_tree filtered) uselist mode))"

section \<open>The structured reducer\<close>

definition empty_any_of :: string where
  "empty_any_of = ''__const__/empty-any-of''"

text \<open>Whether the innermost of the given frames ends in the operator.\<close>

definition ends_in_any_of_dep :: "dep_node list list \<Rightarrow> bool" where
  "ends_in_any_of_dep stack =
     (case stack of [] \<Rightarrow> False | f # _ \<Rightarrow> vec_last f = Some (Str ''||''))"

fun last_any_of_operator_level :: "dep_node list list \<Rightarrow> nat option" where
  "last_any_of_operator_level [] = None"
| "last_any_of_operator_level (f # fs) =
     (case vec_last f of
        Some (Str s) \<Rightarrow>
          if s = ''||'' then Some (length fs)
          else if \<not> ends_with_char s CHR ''?'' then None
          else last_any_of_operator_level fs
      | _ \<Rightarrow> last_any_of_operator_level fs)"

definition special_append ::
  "dep_node list \<Rightarrow> dep_node list list \<Rightarrow> dep_node list \<Rightarrow> bool \<Rightarrow> dep_node list" where
  "special_append t below l is_single =
     (if \<not> is_single then t @ [Group l]
      else if (case l of Str s # _ \<Rightarrow> s = ''||'' | _ \<Rightarrow> False) \<and> ends_in_any_of_dep below then
        (case l of _ # Group inner # _ \<Rightarrow> t @ inner | _ \<Rightarrow> t)
      else
        (case l of
           [Group inner] \<Rightarrow>
             if last_any_of_operator_level below = None then t @ inner else t @ [Group inner]
         | _ \<Rightarrow> t @ l))"

definition is_single_dep :: "dep_node list \<Rightarrow> bool" where
  "is_single_dep l = (length l = 1 \<or> length l = 2 \<and> hd l = Str ''||'')"

text \<open>What the last element of the frame below makes of the popped frame.\<close>

definition close_marker ::
  "string set \<Rightarrow> match_mode \<Rightarrow> dep_node list \<Rightarrow> dep_node list \<Rightarrow>
   (dep_node list \<times> dep_node list \<times> bool) use_out" where
  "close_marker uselist mode l t =
     (case vec_last t of
        Some (Str s) \<Rightarrow>
          if s = ''||'' \<and> l = [] then Ok ([Str empty_any_of], butlast t, False)
          else if ends_with_char s CHR ''?'' then
            out_bind (is_active s uselist mode) (\<lambda>active. Ok (l, butlast t, \<not> active))
          else Ok (l, t, False)
      | _ \<Rightarrow> Ok (l, t, False))"

definition structured_close ::
  "string set \<Rightarrow> match_mode \<Rightarrow> dep_node list list \<Rightarrow> dep_node list list use_out" where
  "structured_close uselist mode stack =
     (case stack of
        l # t # below \<Rightarrow>
          (let is_single = is_single_dep l in
           out_bind (close_marker uselist mode l t) (\<lambda>(l, t, ignore).
             if l \<noteq> [] \<and> \<not> ignore then
               (let ends_level = ends_in_any_of_dep (t # below);
                    ends_above = ends_in_any_of_dep below
                in Ok ((if \<not> ends_above \<and> \<not> ends_level then t @ l
                        else if t = [] then special_append t below l is_single
                        else if is_single \<and> ends_level then
                          special_append (butlast t) below l is_single
                        else if ends_level \<and> ends_above then butlast t @ l
                        else special_append t below l is_single) # below))
             else Ok (t # below)))
      | _ \<Rightarrow> Panicked)"

fun structured_loop ::
  "string set \<Rightarrow> match_mode \<Rightarrow> nat \<Rightarrow> dep_node list list \<Rightarrow> bool \<Rightarrow> string list \<Rightarrow> string list use_out" where
  "structured_loop uselist mode pos stack need [] =
     (if length stack \<noteq> 1 then Err MissingCloseParen
      else if need then Err MissingOpenParen
      else out_bind (unwrap (vec_last (rev stack))) (\<lambda>f. Ok (serialize_dep_tree f)))"
| "structured_loop uselist mode pos stack need (token # rest) =
     (if token = ''('' then
        if rest \<noteq> [] \<and> hd rest = '')''
        then Err (ExpectedCloseParen ''dependency string'' (pos + 1))
        else structured_loop uselist mode (pos + 1) ([] # stack) False rest
      else if token = '')'' then
        if need then Err (ExpectedCloseParen (quoted ''('') (pos + 1))
        else if length stack \<le> 1 then Err (NoMatchingOpen (pos + 1))
        else out_bind (structured_close uselist mode stack)
               (\<lambda>stack. structured_loop uselist mode (pos + 1) stack False rest)
      else if token = ''||'' then
        if need then Err (ExpectedOpenGotOr (pos + 1))
        else out_bind (push_last (Str ''||'') stack)
               (\<lambda>stack. structured_loop uselist mode (pos + 1) stack True rest)
      else if token = ''->'' then Err (SrcUriArrow (pos + 1))
      else if need then Err (ExpectedOpenGotToken token (pos + 1))
      else out_bind (push_last (Str token) stack)
             (\<lambda>stack. structured_loop uselist mode (pos + 1) stack (ends_with_char token CHR ''?'') rest))"

definition use_reduce_structured ::
  "string list \<Rightarrow> string set \<Rightarrow> match_mode \<Rightarrow> string list use_out" where
  "use_reduce_structured tokens uselist mode = structured_loop uselist mode 0 [[]] False tokens"

section \<open>Choosing one alternative of each disjunction\<close>

datatype alt_preference =
    Unsatisfiable | Other | OtherInstalledAnySlot | OtherInstalledSome | OtherInstalled
  | UnsatUseNonInstalled | UnsatUseInstalled | UnsatUseInGraph | Available | Installed

fun pref_ordinal :: "alt_preference \<Rightarrow> nat" where
  "pref_ordinal Unsatisfiable = 0"
| "pref_ordinal Other = 1"
| "pref_ordinal OtherInstalledAnySlot = 2"
| "pref_ordinal OtherInstalledSome = 3"
| "pref_ordinal OtherInstalled = 4"
| "pref_ordinal UnsatUseNonInstalled = 5"
| "pref_ordinal UnsatUseInstalled = 6"
| "pref_ordinal UnsatUseInGraph = 7"
| "pref_ordinal Available = 8"
| "pref_ordinal Installed = 9"

lemma pref_ordinal_inject [simp]: "pref_ordinal a = pref_ordinal b \<longleftrightarrow> a = b"
  by (cases a; cases b) auto

instantiation alt_preference :: linorder
begin

definition less_eq_alt_preference :: "alt_preference \<Rightarrow> alt_preference \<Rightarrow> bool" where
  "less_eq_alt_preference a b = (pref_ordinal a \<le> pref_ordinal b)"

definition less_alt_preference :: "alt_preference \<Rightarrow> alt_preference \<Rightarrow> bool" where
  "less_alt_preference a b = (pref_ordinal a < pref_ordinal b)"

instance
  by standard (auto simp: less_eq_alt_preference_def less_alt_preference_def)

end

definition is_selectable :: "alt_preference \<Rightarrow> bool" where
  "is_selectable p =
     (p \<in> {Installed, Available, UnsatUseInGraph, UnsatUseInstalled, UnsatUseNonInstalled})"

text \<open>The next alternative of an any-of group, with what is left of the group.\<close>

definition next_alternative :: "dep_node list \<Rightarrow> (dep_node list \<times> dep_node list) use_out option" where
  "next_alternative nodes =
     (case nodes of
        [] \<Rightarrow> None
      | Str s # rest \<Rightarrow>
          if ends_with_char s CHR ''?'' then
            (case rest of
               Group g # rest' \<Rightarrow> Some (Ok ([Str s, Group g], rest'))
             | _ \<Rightarrow> Some (Err (ConditionalNotFollowedByGroup s)))
          else Some (Ok ([Str s], rest))
      | Group g # rest \<Rightarrow> Some (Ok ([Group g], rest)))"

lemma next_alternative_split:
  "next_alternative nodes = Some (Ok (alt, rest)) \<Longrightarrow> nodes = alt @ rest \<and> alt \<noteq> []"
  by (auto simp: next_alternative_def split: list.splits dep_node.splits if_splits)

type_synonym ranked_alt = "alt_preference \<times> dep_node list \<times> string list"
type_synonym 's alt_probe = "string list \<Rightarrow> 's \<Rightarrow> alt_preference \<times> 's"
type_synonym 's tie_break = "string list list \<Rightarrow> 's \<Rightarrow> nat \<times> 's"

function rank_alternatives ::
  "string set \<Rightarrow> match_mode \<Rightarrow> 's alt_probe \<Rightarrow> dep_node list \<Rightarrow> 's \<Rightarrow> (ranked_alt list \<times> 's) use_out" where
  "rank_alternatives uselist mode probe alternatives s =
     (case next_alternative alternatives of
        None \<Rightarrow> Ok ([], s)
      | Some alt \<Rightarrow>
          out_bind alt (\<lambda>(alt_nodes, rest).
            case use_reduce_flat (serialize_dep_tree alt_nodes) uselist mode of
              Ok flat_atoms \<Rightarrow>
                if flat_atoms = [] then rank_alternatives uselist mode probe rest s
                else
                  (let (rank, s) = probe flat_atoms s in
                   out_bind (rank_alternatives uselist mode probe rest s) (\<lambda>(ranked, s).
                     Ok ((rank, alt_nodes, flat_atoms) # ranked, s)))
            | Err _ \<Rightarrow> rank_alternatives uselist mode probe rest s
            | Panicked \<Rightarrow> Panicked))"
  by pat_completeness auto
termination
  by (relation "measure (\<lambda>(_, _, _, alternatives, _). length alternatives)")
    (auto dest!: next_alternative_split)

declare rank_alternatives.simps [simp del]

text \<open>The two passes over the ranked alternatives; the tie is broken among the best ones.\<close>

definition eligible :: "ranked_alt list \<Rightarrow> ranked_alt list" where
  "eligible ranked =
     (let selectable = filter (\<lambda>a. is_selectable (fst a)) ranked
      in if selectable = [] then filter (\<lambda>a. fst a \<noteq> Unsatisfiable) ranked else selectable)"

definition best_rank :: "ranked_alt list \<Rightarrow> alt_preference option" where
  "best_rank alts = (case map fst alts of [] \<Rightarrow> None | r # rs \<Rightarrow> Some (fold max rs r))"

definition choose_alternative ::
  "'s tie_break \<Rightarrow> ranked_alt list \<Rightarrow> 's \<Rightarrow> (dep_node list option \<times> 's) use_out" where
  "choose_alternative tie_break ranked s =
     (let alts = eligible ranked in
      case best_rank alts of
        None \<Rightarrow> Ok (None, s)
      | Some best \<Rightarrow>
          (let tied = map snd (filter (\<lambda>a. fst a = best) alts);
               (winner, s) =
                 (if length tied = 1 then (0, s)
                  else (let (w, s) = tie_break (map snd tied) s in (min w (length tied - 1), s)))
           in out_bind (vec_get tied winner) (\<lambda>(nodes, _). Ok (Some nodes, s))))"

lemma ranked_sublist:
  "rank_alternatives uselist mode probe alts s = Ok (ranked, s') \<Longrightarrow> (r, nodes, flat) \<in> set ranked \<Longrightarrow>
   \<exists>pre post. alts = pre @ nodes @ post"
proof (induction uselist mode probe alts s arbitrary: ranked s' rule: rank_alternatives.induct)
  case (1 uselist mode probe alts s)
  show ?case
  proof (cases "next_alternative alts")
    case None
    then show ?thesis using "1.prems" by (simp add: rank_alternatives.simps)
  next
    case (Some alt)
    then obtain alt_nodes rest where alt: "next_alternative alts = Some (Ok (alt_nodes, rest))"
      using "1.prems" by (cases alt) (auto simp: rank_alternatives.simps [of _ _ _ alts])
    note split = next_alternative_split [OF alt]
    have tail: "\<exists>pre post. alts = pre @ nodes @ post" if "\<exists>pre post. rest = pre @ nodes @ post"
      using that split by (metis append_assoc)
    note prem = "1.prems"(1) [unfolded rank_alternatives.simps [of _ _ _ alts]]
    show ?thesis
    proof (cases "use_reduce_flat (serialize_dep_tree alt_nodes) uselist mode")
      case Panicked
      then show ?thesis using prem alt by simp
    next
      case (Err e)
      then show ?thesis using prem alt "1.IH"(1) [OF alt refl _ Err] "1.prems"(2) tail by simp
    next
      case (Ok flat_atoms)
      note ok = Ok
      show ?thesis
      proof (cases "flat_atoms = []")
        case True
        then show ?thesis using prem alt "1.IH"(2) [OF alt refl _ ok True] "1.prems"(2) tail ok by simp
      next
        case False
        obtain r' s1 where probe: "probe flat_atoms s = (r', s1)" by fastforce
        then obtain ranked' where r: "rank_alternatives uselist mode probe rest s1 = Ok (ranked', s')"
            "ranked = (r', alt_nodes, flat_atoms) # ranked'"
          using prem alt ok False by auto
        have "\<exists>pre post. rest = pre @ nodes @ post" if "(r, nodes, flat) \<in> set ranked'"
          by (rule "1.IH"(3) [OF alt refl refl ok False refl probe [symmetric] r(1) that])
        moreover have "\<exists>pre post. alts = pre @ nodes @ post" if "nodes = alt_nodes"
          using split that by (metis append_Nil)
        ultimately show ?thesis using "1.prems"(2) r(2) tail by auto
      qed
    qed
  qed
qed

lemma best_rank_None [simp]: "best_rank alts = None \<longleftrightarrow> alts = []"
  by (cases alts) (auto simp: best_rank_def)

lemma best_rank_Nil [simp]: "best_rank [] = None"
  by (simp add: best_rank_def)

lemma fold_max: "fold max rs (r :: alt_preference) = Max (insert r (set rs))"
  by (metis Max.set_eq_fold list.simps(15))

lemma best_rank_Max: "alts \<noteq> [] \<Longrightarrow> best_rank alts = Some (Max (fst ` set alts))"
  by (cases alts) (auto simp: best_rank_def fold_max)

text \<open>The choice is total, and the chosen alternative is an eligible one of the best rank.\<close>

lemma choose_alternative_cases:
  obtains "eligible ranked = []" "choose_alternative tie ranked s = Ok (None, s)"
  | nodes flat s' where "eligible ranked \<noteq> []"
      "choose_alternative tie ranked s = Ok (Some nodes, s')"
      "(Max (fst ` set (eligible ranked)), nodes, flat) \<in> set (eligible ranked)"
proof (cases "eligible ranked = []")
  case True
  then show ?thesis by (intro that(1)) (simp_all add: choose_alternative_def)
next
  case False
  let ?best = "Max (fst ` set (eligible ranked))"
  let ?bests = "filter (\<lambda>a. fst a = ?best) (eligible ranked)"
  let ?tied = "map snd ?bests"
  have "?best \<in> fst ` set (eligible ranked)" using False by (intro Max_in) auto
  then obtain x where "x \<in> set (eligible ranked)" "?best = fst x" by (rule imageE)
  then have ne: "?bests \<noteq> []" by (metis (mono_tags, lifting) filter_empty_conv)
  define w where "w = (if length ?tied = 1 then (0, s)
    else (let (w, s) = tie (map snd ?tied) s in (min w (length ?tied - 1), s)))"
  obtain winner s' where w': "w = (winner, s')" by fastforce
  have "winner < length ?tied"
    using w' ne by (auto simp: w_def length_greater_0_conv [symmetric] simp del: length_greater_0_conv
        split: if_splits prod.splits)
  then have get: "vec_get ?tied winner = (Ok (?tied ! winner) :: (dep_node list \<times> string list) use_out)" and mem: "?bests ! winner \<in> set ?bests"
    by (auto simp del: nth_map filter_set set_filter)
  obtain nodes flat where n: "?tied ! winner = (nodes, flat)" by fastforce
  then have "?bests ! winner = (?best, nodes, flat)"
    using mem \<open>winner < length ?tied\<close> by (cases "?bests ! winner") auto
  then have "(?best, nodes, flat) \<in> set (eligible ranked)" using mem by auto
  moreover have "choose_alternative tie ranked s = Ok (Some nodes, s')"
    using False w' get n
    by (simp add: choose_alternative_def best_rank_Max Let_def w_def del: vec_get_Ok out_bind_Ok_iff)
  ultimately show ?thesis using that(2) [of nodes s' flat] False by blast
qed

lemma eligible_ranked: "x \<in> set (eligible ranked) \<Longrightarrow> x \<in> set ranked"
  by (auto simp: eligible_def Let_def split: if_splits)

lemma chosen_ranked:
  "choose_alternative tie ranked s = Ok (Some nodes, s') \<Longrightarrow> \<exists>r flat. (r, nodes, flat) \<in> set ranked"
  by (rule choose_alternative_cases [of ranked tie s]) (auto dest: eligible_ranked)

lemma size_sublist: "size_list size nodes \<le> size_list size (pre @ nodes @ post)"
  by (induction pre) auto

lemma chosen_size:
  assumes "rank_alternatives uselist mode probe alts s = Ok (ranked, s1)"
    and "choose_alternative tie ranked s1 = Ok (Some nodes, s2)"
  shows "size_list size nodes \<le> size_list size alts"
proof -
  obtain r flat where "(r, nodes, flat) \<in> set ranked" using chosen_ranked [OF assms(2)] by blast
  then obtain pre post where "alts = pre @ nodes @ post" using ranked_sublist [OF assms(1)] by blast
  then show ?thesis using size_sublist [of nodes pre post] by simp
qed

text \<open>
  The walk over a sibling list: plain results, and apart from them the alternatives chosen for the
  disjunctions, which come after all the plain ones.
\<close>

function resolve_loop ::
  "string set \<Rightarrow> match_mode \<Rightarrow> bool \<Rightarrow> 's tie_break \<Rightarrow> 's alt_probe \<Rightarrow> dep_node list \<Rightarrow> 's \<Rightarrow>
   (dep_node list \<times> dep_node list \<times> 's) use_out" where
  "resolve_loop uselist mode always_true tie_break probe nodes s =
     (case nodes of
        [] \<Rightarrow> Ok ([], [], s)
      | Group children # rest \<Rightarrow>
          out_bind (resolve_loop uselist mode always_true tie_break probe children s) (\<lambda>(r, d, s).
          out_bind (resolve_loop uselist mode always_true tie_break probe rest s) (\<lambda>(result, deferred, s).
            Ok (Group (r @ d) # result, deferred, s)))
      | Str t # rest \<Rightarrow>
          if ends_with_char t CHR ''?'' then
            (case rest of
               Group children # rest' \<Rightarrow>
                 out_bind (resolve_loop uselist mode always_true tie_break probe children s) (\<lambda>(r, d, s).
                 out_bind (resolve_loop uselist mode always_true tie_break probe rest' s)
                   (\<lambda>(result, deferred, s).
                   Ok (Str t # Group (r @ d) # result, deferred, s)))
             | _ \<Rightarrow> Err (ConditionalNotFollowedByGroup t))
          else if t = ''||'' then
            (case rest of
               Group alternatives # rest' \<Rightarrow>
                 out_bind (rank_alternatives uselist mode probe alternatives s) (\<lambda>(ranked, s).
                   if ranked = [] then
                     out_bind (resolve_loop uselist mode always_true tie_break probe rest' s)
                       (\<lambda>(result, deferred, s).
                       Ok (result, (if \<not> always_true then [Str empty_any_of] else []) @ deferred, s))
                   else
                     out_bind (choose_alternative tie_break ranked s) (\<lambda>(chosen, s).
                       case chosen of
                         Some alt_nodes \<Rightarrow>
                           out_bind (resolve_loop uselist mode always_true tie_break probe alt_nodes s)
                             (\<lambda>(r, d, s).
                           out_bind (resolve_loop uselist mode always_true tie_break probe rest' s)
                             (\<lambda>(result, deferred, s).
                             Ok (result, r @ d @ deferred, s)))
                       | None \<Rightarrow>
                           out_bind (resolve_loop uselist mode always_true tie_break probe rest' s)
                             (\<lambda>(result, deferred, s).
                             Ok (Str ''||'' # Group alternatives # result, deferred, s))))
             | _ \<Rightarrow> Err OrNotFollowedByGroup)
          else
            out_bind (resolve_loop uselist mode always_true tie_break probe rest s)
              (\<lambda>(result, deferred, s). Ok (Str t # result, deferred, s)))"
  by pat_completeness auto
termination
  by (relation "measure (\<lambda>(_, _, _, _, _, nodes, _). size_list size nodes)")
    (auto dest: chosen_size)

declare resolve_loop.simps [simp del]

definition resolve_disjunctions ::
  "string set \<Rightarrow> match_mode \<Rightarrow> bool \<Rightarrow> 's tie_break \<Rightarrow> 's alt_probe \<Rightarrow> dep_node list \<Rightarrow> 's \<Rightarrow>
   (dep_node list \<times> 's) use_out" where
  "resolve_disjunctions uselist mode always_true tie_break probe nodes s =
     out_bind (resolve_loop uselist mode always_true tie_break probe nodes s)
       (\<lambda>(result, deferred, s). Ok (result @ deferred, s))"

definition use_reduce_flat_disjunctive ::
  "string list \<Rightarrow> string set \<Rightarrow> match_mode \<Rightarrow> bool \<Rightarrow> 's tie_break \<Rightarrow> 's alt_probe \<Rightarrow> 's \<Rightarrow>
   (string list \<times> 's) use_out" where
  "use_reduce_flat_disjunctive tokens uselist mode always_true tie_break probe s =
     out_bind (build_dep_tree tokens) (\<lambda>tree.
     out_bind (resolve_disjunctions uselist mode always_true tie_break probe tree s) (\<lambda>(resolved, s).
     out_bind (use_reduce_flat (serialize_dep_tree resolved) uselist mode) (\<lambda>out. Ok (out, s))))"

end
