(* ===== verification/DepGrammar.thy ===== *)
theory DepGrammar
  imports UseReduce
begin

text \<open>
  The grammar of dependency strings and the contract of the three walks. \<open>run\<close> is a walk over
  the tokens with a state of nested frames; its laws say what each kind of token does to the
  state. Under these laws a walk accepts exactly the well-formed strings and computes, item by
  item, what \<open>exec_items\<close> says. The flat walk, the tree builder and the structured reducer all
  provide the contract.
\<close>

section \<open>The grammar\<close>

datatype dep_item =
    DAtom string
  | DGroup "dep_item list"
  | DAny "dep_item list"
  | DCond string "dep_item list"

fun dep_tokens :: "dep_item \<Rightarrow> string list" where
  "dep_tokens (DAtom t) = [t]"
| "dep_tokens (DGroup is) = ''('' # concat (map dep_tokens is) @ ['')'']"
| "dep_tokens (DAny is) = ''||'' # ''('' # concat (map dep_tokens is) @ ['')'']"
| "dep_tokens (DCond c is) = c # ''('' # concat (map dep_tokens is) @ ['')'']"

lemma dep_items_induct [case_names Atom Group Any Cond Nil Cons]:
  assumes "\<And>t. P (DAtom t)" "\<And>is. Q is \<Longrightarrow> P (DGroup is)" "\<And>is. Q is \<Longrightarrow> P (DAny is)"
    and "\<And>c is. Q is \<Longrightarrow> P (DCond c is)" "Q []" "\<And>i is. P i \<Longrightarrow> Q is \<Longrightarrow> Q (i # is)"
  shows "P i" "Q is"
proof -
  show P: "P i" for i
  proof (induction i)
    case (DGroup "is") then show ?case by (intro assms(2)) (induction "is"; auto intro: assms(5,6))
  next
    case (DAny "is") then show ?case by (intro assms(3)) (induction "is"; auto intro: assms(5,6))
  next
    case (DCond c "is") then show ?case by (intro assms(4)) (induction "is"; auto intro: assms(5,6))
  qed (rule assms(1))
  show "Q is" by (induction "is") (auto intro: P assms(5,6))
qed

abbreviation deps_tokens :: "dep_item list \<Rightarrow> string list" where
  "deps_tokens is \<equiv> concat (map dep_tokens is)"

definition reserved :: "string set" where
  "reserved = {''('', '')'', ''||'', ''->''}"

fun dep_wf :: "dep_item \<Rightarrow> bool" where
  "dep_wf (DAtom t) \<longleftrightarrow> t \<notin> reserved \<and> \<not> ends_with_char t CHR ''?''"
| "dep_wf (DGroup is) \<longleftrightarrow> is \<noteq> [] \<and> list_all dep_wf is"
| "dep_wf (DAny is) \<longleftrightarrow> is \<noteq> [] \<and> list_all dep_wf is"
| "dep_wf (DCond c is) \<longleftrightarrow> ends_with_char c CHR ''?'' \<and> is \<noteq> [] \<and> list_all dep_wf is"

lemma reserved_no_question [simp]:
  "\<not> ends_with_char ''('' CHR ''?''" "\<not> ends_with_char '')'' CHR ''?''"
  "\<not> ends_with_char ''||'' CHR ''?''" "\<not> ends_with_char ''->'' CHR ''?''"
  by (simp_all add: ends_with_char_def)

lemma question_not_reserved:
  "ends_with_char c CHR ''?'' \<Longrightarrow> c \<noteq> ''('' \<and> c \<noteq> '')'' \<and> c \<noteq> ''||'' \<and> c \<noteq> ''->''"
  by auto

lemma dep_tokens_ne [simp]: "dep_tokens i \<noteq> []"
  by (cases i) auto

lemma dep_tokens_hd: "dep_wf i \<Longrightarrow> hd (dep_tokens i) \<noteq> '')''"
  by (cases i) (auto simp: reserved_def)

lemma deps_tokens_hd:
  "list_all dep_wf is \<Longrightarrow> is \<noteq> [] \<Longrightarrow> deps_tokens is \<noteq> [] \<and> hd (deps_tokens is @ rest) \<noteq> '')''"
  by (cases "is") (auto simp: dep_tokens_hd hd_append)

text \<open>A list of items, up to the end or a closing parenthesis.\<close>

definition parses :: "string list \<Rightarrow> bool" where
  "parses ts \<longleftrightarrow> (\<exists>is rest. list_all dep_wf is \<and> ts = deps_tokens is @ rest \<and> (rest = [] \<or> hd rest = '')''))"

lemma parses_Cons:
  assumes i: "dep_wf i" and "parses ts"
  shows "parses (dep_tokens i @ ts)"
proof -
  obtain "is" rest where "list_all dep_wf is" "ts = deps_tokens is @ rest" "rest = [] \<or> hd rest = '')''"
    using assms(2) by (auto simp: parses_def)
  then show ?thesis using i unfolding parses_def by (intro exI [of _ "i # is"] exI [of _ rest]) simp
qed

section \<open>The contract of a walk\<close>

text \<open>The effect of an item on the state: \<open>opened\<close>, its contents, \<open>closed\<close>.\<close>

fun exec_item ::
  "('st \<Rightarrow> 'st) \<Rightarrow> ('st \<Rightarrow> 'st use_out) \<Rightarrow> (string \<Rightarrow> 'st \<Rightarrow> 'st use_out) \<Rightarrow>
   (string \<Rightarrow> nat \<Rightarrow> 'st \<Rightarrow> 'st use_out) \<Rightarrow> dep_item \<Rightarrow> nat \<Rightarrow> 'st \<Rightarrow> 'st use_out"
and exec_items ::
  "('st \<Rightarrow> 'st) \<Rightarrow> ('st \<Rightarrow> 'st use_out) \<Rightarrow> (string \<Rightarrow> 'st \<Rightarrow> 'st use_out) \<Rightarrow>
   (string \<Rightarrow> nat \<Rightarrow> 'st \<Rightarrow> 'st use_out) \<Rightarrow> dep_item list \<Rightarrow> nat \<Rightarrow> 'st \<Rightarrow> 'st use_out" where
  "exec_item opened closed mark atom (DAtom t) pos st = atom t pos st"
| "exec_item opened closed mark atom (DGroup is) pos st =
     out_bind (exec_items opened closed mark atom is (pos + 1) (opened st)) closed"
| "exec_item opened closed mark atom (DAny is) pos st =
     out_bind (mark ''||'' st) (\<lambda>st.
     out_bind (exec_items opened closed mark atom is (pos + 2) (opened st)) closed)"
| "exec_item opened closed mark atom (DCond c is) pos st =
     out_bind (mark c st) (\<lambda>st.
     out_bind (exec_items opened closed mark atom is (pos + 2) (opened st)) closed)"
| "exec_items opened closed mark atom [] pos st = Ok st"
| "exec_items opened closed mark atom (i # is) pos st =
     out_bind (exec_item opened closed mark atom i pos st) (\<lambda>st.
       exec_items opened closed mark atom is (pos + length (dep_tokens i)) st)"

locale dep_walk =
  fixes run :: "nat \<Rightarrow> 'st \<Rightarrow> bool \<Rightarrow> string list \<Rightarrow> 'r use_out"
    and opened :: "'st \<Rightarrow> 'st"
    and closed :: "'st \<Rightarrow> 'st use_out"
    and mark :: "string \<Rightarrow> 'st \<Rightarrow> 'st use_out"
    and atom :: "string \<Rightarrow> nat \<Rightarrow> 'st \<Rightarrow> 'st use_out"
    and depth :: "'st \<Rightarrow> nat"
    and result :: "'st \<Rightarrow> 'r"
    and offset :: nat
  assumes run_end: "depth st \<noteq> 0 \<Longrightarrow> run pos st need [] =
      (if depth st \<noteq> 1 then Err MissingCloseParen
       else if need then Err MissingOpenParen else Ok (result st))"
    and run_open: "run pos st need (''('' # ts) =
      (if ts \<noteq> [] \<and> hd ts = '')''
       then Err (ExpectedCloseParen ''dependency string'' (pos + offset))
       else run (pos + 1) (opened st) False ts)"
    and run_close: "run pos st need ('')'' # ts) =
      (if need then Err (ExpectedCloseParen (quoted ''('') (pos + 1))
       else if depth st \<le> 1 then Err (NoMatchingOpen (pos + 1))
       else out_bind (closed st) (\<lambda>st. run (pos + 1) st False ts))"
    and run_or: "run pos st need (''||'' # ts) =
      (if need then Err (ExpectedOpenGotOr (pos + 1))
       else out_bind (mark ''||'' st) (\<lambda>st. run (pos + 1) st True ts))"
    and run_arrow: "run pos st need (''->'' # ts) = Err (SrcUriArrow (pos + 1))"
    and run_token: "t \<notin> reserved \<Longrightarrow> run pos st need (t # ts) =
      (if need then Err (ExpectedOpenGotToken t (pos + 1))
       else if ends_with_char t CHR ''?''
       then out_bind (mark t st) (\<lambda>st. run (pos + 1) st True ts)
       else out_bind (atom t pos st) (\<lambda>st. run (pos + 1) st False ts))"
    and depth_opened: "depth (opened st) = depth st + 1"
    and depth_closed: "depth st \<ge> 2 \<Longrightarrow> closed st = Ok st' \<Longrightarrow> depth st' = depth st - 1"
    and depth_mark: "depth st \<ge> 1 \<Longrightarrow> \<exists>st'. mark t st = Ok st' \<and> depth st' = depth st"
    and depth_atom: "depth st \<ge> 1 \<Longrightarrow> atom t pos st = Ok st' \<Longrightarrow> depth st' = depth st"
begin

abbreviation exec where "exec \<equiv> exec_item opened closed mark atom"
abbreviation execs where "execs \<equiv> exec_items opened closed mark atom"

lemma exec_depth:
  "depth st \<ge> 1 \<Longrightarrow> exec i pos st = Ok st' \<Longrightarrow> depth st' = depth st"
  "depth st \<ge> 1 \<Longrightarrow> execs is pos st = Ok st' \<Longrightarrow> depth st' = depth st"
proof (induction i and "is" arbitrary: pos st st' and pos st st' rule: dep_items_induct)
  case (Atom t)
  then show ?case using depth_atom by simp
next
  case (Group "is")
  then obtain u where u: "execs is (pos + 1) (opened st) = Ok u" "closed u = Ok st'" by auto
  then have "depth u = depth st + 1" using Group.IH [OF _ u(1)] by (simp add: depth_opened)
  then show ?case using depth_closed [OF _ u(2)] Group.prems(1) by simp
next
  case (Any "is")
  obtain v where v: "mark ''||'' st = Ok v" "depth v = depth st" using depth_mark [OF Any.prems(1)] by blast
  then obtain u where u: "execs is (pos + 2) (opened v) = Ok u" "closed u = Ok st'"
    using Any.prems(2) by auto
  then have "depth u = depth st + 1" using Any.IH [OF _ u(1)] v by (simp add: depth_opened)
  then show ?case using depth_closed [OF _ u(2)] Any.prems(1) by simp
next
  case (Cond c "is")
  obtain v where v: "mark c st = Ok v" "depth v = depth st" using depth_mark [OF Cond.prems(1)] by blast
  then obtain u where u: "execs is (pos + 2) (opened v) = Ok u" "closed u = Ok st'"
    using Cond.prems(2) by auto
  then have "depth u = depth st + 1" using Cond.IH [OF _ u(1)] v by (simp add: depth_opened)
  then show ?case using depth_closed [OF _ u(2)] Cond.prems(1) by simp
next
  case Nil
  then show ?case by simp
next
  case (Cons i "is")
  obtain u where u: "exec i pos st = Ok u" "execs is (pos + length (dep_tokens i)) u = Ok st'"
    using Cons.prems(2) by auto
  have "depth u = depth st" using Cons.IH(1) [OF Cons.prems(1) u(1)] .
  then show ?case using Cons.IH(2) [OF _ u(2)] Cons.prems(1) by simp
qed

text \<open>A walk over a group of items with its closing parenthesis, when the contents run.\<close>

lemma run_group:
  assumes "list_all dep_wf is" "is \<noteq> []" "depth st \<ge> 1"
    and "\<And>pos st rest. depth st \<ge> 1 \<Longrightarrow> run pos st False (deps_tokens is @ rest) =
      out_bind (execs is pos st) (\<lambda>st. run (pos + length (deps_tokens is)) st False rest)"
  shows "run pos st need (''('' # deps_tokens is @ '')'' # rest) =
    out_bind (out_bind (execs is (pos + 1) (opened st)) closed) (\<lambda>st.
      run (pos + length (deps_tokens is) + 2) st False rest)"
proof -
  have ne: "deps_tokens is \<noteq> []" "hd (deps_tokens is @ '')'' # rest) \<noteq> '')''"
    using deps_tokens_hd [OF assms(1,2)] by blast+
  have "run pos st need (''('' # deps_tokens is @ '')'' # rest) =
    out_bind (execs is (pos + 1) (opened st)) (\<lambda>st.
      run (pos + 1 + length (deps_tokens is)) st False ('')'' # rest))"
    using ne run_open [of pos st need "deps_tokens is @ '')'' # rest"]
      assms(4) [of "opened st" "pos + 1" "'')'' # rest"] by (simp add: depth_opened)
  also have "\<dots> = out_bind (out_bind (execs is (pos + 1) (opened st)) closed) (\<lambda>st.
      run (pos + length (deps_tokens is) + 2) st False rest)"
  proof (cases "execs is (pos + 1) (opened st)")
    case (Ok u)
    then have "depth u = depth st + 1"
      using exec_depth(2) [of "opened st"] by (simp add: depth_opened)
    then show ?thesis using Ok assms(3) by (simp add: run_close del: out_bind_Ok_iff)
  qed simp_all
  finally show ?thesis .
qed

lemma run_items:
  "dep_wf i \<Longrightarrow> depth st \<ge> 1 \<Longrightarrow> run pos st False (dep_tokens i @ rest) =
     out_bind (exec i pos st) (\<lambda>st. run (pos + length (dep_tokens i)) st False rest)"
  "list_all dep_wf is \<Longrightarrow> depth st \<ge> 1 \<Longrightarrow> run pos st False (deps_tokens is @ rest) =
     out_bind (execs is pos st) (\<lambda>st. run (pos + length (deps_tokens is)) st False rest)"
proof (induction i and "is" arbitrary: pos st rest and pos st rest rule: dep_items_induct)
  case (Atom t)
  then show ?case by (simp add: run_token del: out_bind_Ok_iff)
next
  case (Group "is")
  then show ?case using run_group [of "is" st pos False rest] by (simp add: add.assoc)
next
  case (Any "is")
  obtain v where v: "mark ''||'' st = Ok v" "depth v = depth st" using depth_mark [OF Any.prems(2)] by blast
  then show ?case using Any run_group [of "is" v "pos + 1" True rest] by (simp add: run_or add.assoc)
next
  case (Cond c "is")
  obtain v where v: "mark c st = Ok v" "depth v = depth st" using depth_mark [OF Cond.prems(2)] by blast
  have "c \<notin> reserved" using Cond.prems(1) question_not_reserved by (auto simp: reserved_def)
  then show ?case using Cond v run_group [of "is" v "pos + 1" True rest]
    by (simp add: run_token add.assoc)
next
  case Nil
  then show ?case by simp
next
  case (Cons i "is")
  then have "run pos st False (dep_tokens i @ deps_tokens is @ rest) =
    out_bind (exec i pos st) (\<lambda>st. run (pos + length (dep_tokens i)) st False (deps_tokens is @ rest))"
    by simp
  also have "\<dots> = out_bind (exec i pos st) (\<lambda>st.
      out_bind (execs is (pos + length (dep_tokens i)) st) (\<lambda>st.
        run (pos + length (dep_tokens i) + length (deps_tokens is)) st False rest))"
    using Cons exec_depth(1) [of st i pos] by (cases "exec i pos st") auto
  finally show ?case by (simp add: out_bind_assoc add.assoc)
qed

lemma run_need:
  assumes "run pos st True ts = Ok r" "depth st \<ge> 1"
  obtains ts' where "ts = ''('' # ts'"
proof (cases ts)
  case Nil
  then show ?thesis using assms run_end [of st pos True] by (simp split: if_splits)
next
  case (Cons t ts')
  then show ?thesis
    using assms that run_close [of pos st True ts'] run_or [of pos st True ts'] run_arrow [of pos st True ts']
      run_token [of t pos st True ts']
    by (cases "t \<in> reserved") (auto simp: reserved_def)
qed

lemma parse_group:
  assumes ok: "run pos st need (''('' # ts) = Ok r" and d: "depth st \<ge> 1"
    and IH: "\<And>pos st. run pos st False ts = Ok r \<Longrightarrow> depth st \<ge> 1 \<Longrightarrow> parses ts"
  obtains "is" rest pos' st' where "list_all dep_wf is" "is \<noteq> []" "ts = deps_tokens is @ '')'' # rest"
    "run pos' st' False rest = Ok r" "depth st' = depth st"
proof -
  have not: "\<not> (ts \<noteq> [] \<and> hd ts = '')'')" and inner: "run (pos + 1) (opened st) False ts = Ok r"
    using ok run_open [of pos st need ts] by (auto split: if_splits)
  have d1: "depth (opened st) = depth st + 1" by (rule depth_opened)
  have "parses ts" using IH [OF inner] d1 by simp
  then obtain "is" rest where p: "list_all dep_wf is" "ts = deps_tokens is @ rest" "rest = [] \<or> hd rest = '')''"
    by (auto simp: parses_def)
  have "out_bind (execs is (pos + 1) (opened st))
      (\<lambda>st. run (pos + 1 + length (deps_tokens is)) st False rest) = Ok r"
    using inner run_items(2) [OF p(1), of "opened st" "pos + 1" rest] d1 p(2) by simp
  then obtain u where u: "execs is (pos + 1) (opened st) = Ok u"
      "run (pos + 1 + length (deps_tokens is)) u False rest = Ok r" by auto
  have du: "depth u = depth st + 1" using exec_depth(2) [OF _ u(1)] d1 by simp
  have "rest \<noteq> []" using u(2) run_end [of u _ False] du d by (auto split: if_splits)
  then obtain rest' where rest: "rest = '')'' # rest'" using p(3) by (cases rest) auto
  then have ne: "is \<noteq> []" using not p(2) by auto
  obtain v where v: "closed u = Ok v"
      "run (pos + 1 + length (deps_tokens is) + 1) v False rest' = Ok r"
    using u(2) rest run_close [of _ u False rest'] du d by auto
  then show ?thesis using that [OF p(1) ne _ v(2)] p(2) rest depth_closed [OF _ v(1)] du d by simp
qed

lemma run_parses:
  "run pos st False ts = Ok r \<Longrightarrow> depth st \<ge> 1 \<Longrightarrow> parses ts"
proof (induction "length ts" arbitrary: ts pos st rule: less_induct)
  case less
  have group: "parses (pre @ ''('' # us)"
    if g: "run pos' st' need (''('' # us) = Ok r" "depth st' \<ge> 1" and len: "length us < length ts"
      and item: "\<And>is. list_all dep_wf is \<Longrightarrow> is \<noteq> [] \<Longrightarrow>
        \<exists>i. dep_wf i \<and> dep_tokens i = pre @ ''('' # deps_tokens is @ ['')'']"
    for pre us pos' st' need
  proof -
    note smaller = less.hyps
    obtain "is" rest pos'' st'' where wf: "list_all dep_wf is" "is \<noteq> []" and us: "us = deps_tokens is @ '')'' # rest"
        "run pos'' st'' False rest = Ok r" "depth st'' = depth st'"
      by (rule parse_group [OF g smaller [OF len]])
    then obtain i where i: "dep_wf i" "dep_tokens i = pre @ ''('' # deps_tokens is @ ['')'']"
      using item by blast
    have "length rest < length ts" using us(1) len by simp
    then have "parses rest" using smaller [OF _ us(2)] us(3) g(2) by simp
    then show ?thesis using parses_Cons [OF i(1)] i(2) us(1) by simp
  qed
  have any: "\<exists>i. dep_wf i \<and> dep_tokens i = [] @ ''('' # deps_tokens is @ ['')'']"
    "\<exists>i. dep_wf i \<and> dep_tokens i = [''||''] @ ''('' # deps_tokens is @ ['')'']"
    "ends_with_char c CHR ''?'' \<Longrightarrow> \<exists>i. dep_wf i \<and> dep_tokens i = [c] @ ''('' # deps_tokens is @ ['')'']"
    if "list_all dep_wf is" "is \<noteq> []" for "is" c
    using that by (auto intro: exI [of _ "DGroup is"] exI [of _ "DAny is"] exI [of _ "DCond c is"])
  show ?case
  proof (cases ts)
    case Nil
    then show ?thesis by (auto simp: parses_def intro: exI [of _ "[]"])
  next
    fix t us assume ts: "ts = t # us"
    consider "t = ''(''" | "t = '')''" | "t = ''||''" | "t = ''->''" | "t \<notin> reserved" "ends_with_char t CHR ''?''"
      | "t \<notin> reserved" "\<not> ends_with_char t CHR ''?''"
      by (auto simp: reserved_def)
    then show ?thesis
    proof cases
      case 1
      then show ?thesis using group [of pos st False us "[]"] less.prems any(1) ts by simp
    next
      case 2
      then show ?thesis using ts by (auto simp: parses_def intro: exI [of _ "[]"])
    next
      case 3
      obtain v where v: "mark ''||'' st = Ok v" "depth v = depth st" using depth_mark less.prems(2) by blast
      then have r: "run (pos + 1) v True us = Ok r"
        using less.prems(1) run_or [of pos st False us] ts 3 by simp
      obtain us' where "us = ''('' # us'" using run_need [OF r] v less.prems(2) by auto
      then show ?thesis using group [of "pos + 1" v True us' "[''||'']"] r v less.prems any(2) ts 3 by simp
    next
      case 4
      then show ?thesis using less.prems run_arrow ts by simp
    next
      case 5
      obtain v where v: "mark t st = Ok v" "depth v = depth st" using depth_mark less.prems(2) by blast
      then have r: "run (pos + 1) v True us = Ok r"
        using less.prems(1) run_token [OF 5(1), of pos st False us] ts 5 by simp
      obtain us' where "us = ''('' # us'" using run_need [OF r] v less.prems(2) by auto
      then show ?thesis using group [of "pos + 1" v True us' "[t]"] r v less.prems any(3) ts 5 by simp
    next
      case 6
      obtain v where v: "atom t pos st = Ok v" "run (pos + 1) v False us = Ok r"
        using less.prems(1) run_token [OF 6(1), of pos st False us] ts 6 by auto
      have "parses us" using less.hyps [OF _ v(2)] depth_atom [OF less.prems(2) v(1)] less.prems(2) ts by simp
      then show ?thesis using parses_Cons [of "DAtom t" us] 6 ts by simp
    qed
  qed
qed

lemma run_iff:
  assumes "depth st = 1"
  shows "run 0 st False ts = Ok r \<longleftrightarrow>
    (\<exists>is st'. ts = deps_tokens is \<and> list_all dep_wf is \<and> execs is 0 st = Ok st' \<and> r = result st')"
proof
  assume ok: "run 0 st False ts = Ok r"
  obtain "is" rest where p: "list_all dep_wf is" "ts = deps_tokens is @ rest" "rest = [] \<or> hd rest = '')''"
    using run_parses [OF ok] assms by (auto simp: parses_def)
  have "out_bind (execs is 0 st) (\<lambda>st. run (length (deps_tokens is)) st False rest) = Ok r"
    using ok run_items(2) [OF p(1), of st 0 rest] assms p(2) by simp
  then obtain u where u: "execs is 0 st = Ok u" "run (length (deps_tokens is)) u False rest = Ok r"
    by auto
  have d: "depth u = 1" using exec_depth(2) [OF _ u(1)] assms by simp
  have "rest = []"
  proof (rule ccontr)
    assume "rest \<noteq> []"
    then obtain rest' where "rest = '')'' # rest'" using p(3) by (cases rest) auto
    then show False using u(2) run_close [of _ u False rest'] d by simp
  qed
  then show "\<exists>is st'. ts = deps_tokens is \<and> list_all dep_wf is \<and> execs is 0 st = Ok st' \<and> r = result st'"
    using u p run_end [of u _ False] d by auto
next
  assume "\<exists>is st'. ts = deps_tokens is \<and> list_all dep_wf is \<and> execs is 0 st = Ok st' \<and> r = result st'"
  then obtain "is" st' where "is": "ts = deps_tokens is" "list_all dep_wf is" "execs is 0 st = Ok st'"
      "r = result st'" by blast
  then show "run 0 st False ts = Ok r"
    using run_items(2) [OF "is"(2), of st 0 "[]"] assms exec_depth(2) [OF _ "is"(3)] run_end [of st' _ False]
    by simp
qed

lemma run_safe:
  assumes "\<And>st. depth st \<ge> 2 \<Longrightarrow> closed st \<noteq> Panicked" "\<And>t pos st. depth st \<ge> 1 \<Longrightarrow> atom t pos st \<noteq> Panicked"
  shows "depth st \<ge> 1 \<Longrightarrow> run pos st need ts \<noteq> Panicked"
proof (induction ts arbitrary: pos st need)
  case Nil
  then show ?case using run_end [of st pos need] by simp
next
  case (Cons t ts)
  have close: "out_bind (closed st) (\<lambda>st. run (pos + 1) st False ts) \<noteq> Panicked" if "\<not> depth st \<le> 1"
  proof (cases "closed st")
    case (Ok v)
    then show ?thesis using Cons.IH [of v "pos + 1" False] depth_closed [OF _ Ok] that by simp
  qed (use assms(1) [of st] that in simp_all)
  have mark: "out_bind (mark c st) (\<lambda>st. run (pos + 1) st True ts) \<noteq> Panicked" for c
  proof -
    obtain v where "mark c st = Ok v" "depth v = depth st" using depth_mark [OF Cons.prems] by blast
    then show ?thesis using Cons.IH [of v "pos + 1" True] Cons.prems by simp
  qed
  have atom: "out_bind (atom t pos st) (\<lambda>st. run (pos + 1) st False ts) \<noteq> Panicked"
  proof (cases "atom t pos st")
    case (Ok v)
    then show ?thesis
      using Cons.IH [of v "pos + 1" False] depth_atom [OF Cons.prems Ok] Cons.prems by simp
  qed (use assms(2) [OF Cons.prems, of t pos] in simp_all)
  consider "t = ''(''" | "t = '')''" | "t = ''||''" | "t = ''->''" | "t \<notin> reserved"
    by (auto simp: reserved_def)
  then show ?case
  proof cases
    case 1
    then show ?thesis using Cons.IH [of "opened st" "pos + 1" False] depth_opened [of st] by (simp add: run_open)
  next
    case 2
    then show ?thesis using close by (simp add: run_close)
  next
    case 3
    then show ?thesis using mark by (simp add: run_or)
  next
    case 4
    then show ?thesis by (simp add: run_arrow)
  next
    case 5
    then show ?thesis using mark atom by (simp add: run_token)
  qed
qed

end

end
