(* ===== verification/DepReduce.thy ===== *)
theory DepReduce
  imports DepGrammar
begin

text \<open>
  The three walks provide the contract of \<open>dep_walk\<close>, and what each of them computes on the items
  of the grammar.
\<close>

section \<open>Conditionals\<close>

definition cond_flag :: "string \<Rightarrow> string" where
  "cond_flag c = butlast (case strip_prefix c ''!'' of Some r \<Rightarrow> r | None \<Rightarrow> c)"

definition cond_holds :: "string set \<Rightarrow> match_mode \<Rightarrow> string \<Rightarrow> bool" where
  "cond_holds uselist mode c =
     (case mode of
        MatchAll \<Rightarrow> True
      | MatchNone \<Rightarrow> False
      | Normal \<Rightarrow> (cond_flag c \<in> uselist) \<noteq> starts_with c ''!'')"

lemma conditional_flag_question:
  assumes "ends_with_char c CHR ''?''"
  shows "conditional_flag c = Ok (cond_flag c, starts_with c ''!'')"
proof -
  obtain r where c: "c = r @ ''?''" using assms by (auto simp: ends_with_char_iff)
  then show ?thesis
    by (cases r) (auto simp: conditional_flag_def cond_flag_def strip_prefix_def starts_with_def drop_last_def)
qed

lemma is_active_question:
  "ends_with_char c CHR ''?'' \<Longrightarrow> is_active c uselist mode =
     (if useflag_matches (cond_flag c) then Ok (cond_holds uselist mode c)
      else Err (InvalidUseFlag (cond_flag c) c))"
  by (auto simp: is_active_def conditional_flag_question cond_holds_def split: match_mode.split)

lemma is_active_validated_question:
  "ends_with_char c CHR ''?'' \<Longrightarrow> is_active_validated c valid =
     (if valid (cond_flag c) then Ok True
      else Err (Categorized
         (''USE flag '' @ quoted (cond_flag c) @ '' referenced in conditional '' @ quoted c @
          '' is not in IUSE'') IuseMissing))"
  by (simp add: is_active_validated_def conditional_flag_question)

section \<open>The flat walk\<close>

lemma push_last_Cons [simp]: "push_last x (f # fs) = Ok ((f @ [x]) # fs)"
  by (simp add: push_last_def)

lemma push_last_depth:
  "length st \<ge> 1 \<Longrightarrow> \<exists>st'. push_last x st = Ok st' \<and> length st' = length st"
  by (cases st) auto

interpretation flat: dep_walk "walk_loop cond hook" "\<lambda>(stack, s). ([] # stack, s)"
    "\<lambda>(stack, s). out_bind (flat_close cond stack) (\<lambda>stack. Ok (stack, s))"
    "\<lambda>t (stack, s). out_bind (push_last t stack) (\<lambda>stack. Ok (stack, s))"
    "flat_atom hook" "\<lambda>(stack, s). length stack" "\<lambda>(stack, s). (hd stack, s)" 1
  for cond hook
proof (unfold_locales, goal_cases)
  case (1 st pos need)
  obtain stack s where st: "st = (stack, s)" by (cases st) 
  then obtain f fs where "stack = f # fs" using 1 by (cases stack) auto
  then show ?case by (cases fs) (simp_all add: st vec_last_def del: out_bind_Ok_iff)
next
  case (2 pos st need ts)
  then show ?case by (cases st) simp
next
  case (3 pos st need ts)
  then show ?case by (cases st) (simp add: out_bind_assoc)
next
  case (4 pos st need ts)
  then show ?case by (cases st) (simp add: out_bind_assoc)
next
  case (5 pos st need ts)
  then show ?case by (cases st) simp
next
  case (6 t pos st need ts)
  then show ?case by (cases st) (simp add: out_bind_assoc reserved_def)
next
  case (7 st)
  then show ?case by (cases st) simp
next
  case (8 st st')
  then show ?case
    by (cases st) (auto simp: flat_close_def split: list.splits if_splits)
next
  case (9 st t)
  obtain stack s where st: "st = (stack, s)" by (cases st)
  then obtain f fs where "stack = f # fs" using 9 by (cases stack) auto
  then show ?case by (simp add: st del: out_bind_Ok_iff)
next
  case (10 st t pos st')
  then show ?case
    by (cases st) (auto simp: flat_atom_def push_last_def split: option.splits sum.splits list.splits)
qed

interpretation tree: dep_walk tree_loop "(#) []" tree_close "\<lambda>t. push_last (Str t)"
    "\<lambda>t _. push_last (Str t)" length hd 2
proof (unfold_locales, goal_cases)
  case (1 st pos need)
  then obtain f fs where "st = f # fs" by (cases st) auto
  then show ?case by (cases fs) (simp_all add: vec_last_def)
next
  case (8 st st')
  then show ?case by (auto simp: tree_close_def push_last_def split: list.splits)
next
  case (9 st t)
  then show ?case by (rule push_last_depth)
next
  case (10 st t pos st')
  then show ?case by (auto simp: push_last_def split: list.splits)
qed (simp_all add: reserved_def)

interpretation structured: dep_walk "structured_loop uselist mode" "(#) []"
    "structured_close uselist mode" "\<lambda>t. push_last (Str t)" "\<lambda>t _. push_last (Str t)" length
    "\<lambda>stack. serialize_dep_tree (hd stack)" 1
  for uselist mode
proof (unfold_locales, goal_cases)
  case (1 st pos need)
  then obtain f fs where "st = f # fs" by (cases st) auto
  then show ?case by (cases fs) (simp_all add: vec_last_def del: out_bind_Ok_iff)
next
  case (8 st st')
  then show ?case
    by (auto simp: structured_close_def Let_def split: list.splits prod.splits if_splits)
next
  case (9 st t)
  then show ?case by (rule push_last_depth)
next
  case (10 st t pos st')
  then show ?case by (auto simp: push_last_def split: list.splits)
qed (simp_all add: reserved_def)

text \<open>What the flat walk computes on the items, with the state of the hook.\<close>

fun flat_exec ::
  "(string \<Rightarrow> bool use_out) \<Rightarrow> 's atom_hook option \<Rightarrow> dep_item \<Rightarrow> nat \<Rightarrow> 's \<Rightarrow> (string list \<times> 's) use_out"
and flat_execs ::
  "(string \<Rightarrow> bool use_out) \<Rightarrow> 's atom_hook option \<Rightarrow> dep_item list \<Rightarrow> nat \<Rightarrow> 's \<Rightarrow> (string list \<times> 's) use_out"
where
  "flat_exec cond hook (DAtom t) pos s =
     (case hook of
        None \<Rightarrow> Ok ([t], s)
      | Some h \<Rightarrow> (case h t pos s of Inl e \<Rightarrow> Err (map_hook_error t pos e) | Inr s \<Rightarrow> Ok ([], s)))"
| "flat_exec cond hook (DGroup is) pos s = flat_execs cond hook is (pos + 1) s"
| "flat_exec cond hook (DAny is) pos s =
     out_bind (flat_execs cond hook is (pos + 2) s) (\<lambda>(l, s). Ok (''||'' # l, s))"
| "flat_exec cond hook (DCond c is) pos s =
     out_bind (flat_execs cond hook is (pos + 2) s) (\<lambda>(l, s).
     out_bind (cond c) (\<lambda>a. Ok (if a then l else [], s)))"
| "flat_execs cond hook [] pos s = Ok ([], s)"
| "flat_execs cond hook (i # is) pos s =
     out_bind (flat_exec cond hook i pos s) (\<lambda>(l, s).
     out_bind (flat_execs cond hook is (pos + length (dep_tokens i)) s) (\<lambda>(m, s). Ok (l @ m, s)))"

definition no_marks :: "string list \<Rightarrow> bool" where
  "no_marks f \<longleftrightarrow> (\<forall>t \<in> set f. \<not> ends_with_char t CHR ''?'')"

lemma no_marks_simps [simp]:
  "no_marks []" "no_marks (t # f) \<longleftrightarrow> \<not> ends_with_char t CHR ''?'' \<and> no_marks f"
  "no_marks (f @ g) \<longleftrightarrow> no_marks f \<and> no_marks g"
  by (auto simp: no_marks_def)

lemma flat_exec_no_marks:
  "dep_wf i \<Longrightarrow> flat_exec cond hook i pos s = Ok (l, s') \<Longrightarrow> no_marks l"
  "list_all dep_wf is \<Longrightarrow> flat_execs cond hook is pos s = Ok (l, s') \<Longrightarrow> no_marks l"
  by (induction i and "is" arbitrary: pos s l s' and pos s l s' rule: dep_items_induct)
    (fastforce split: option.splits sum.splits if_splits)+

lemma flat_close_plain:
  "no_marks f \<Longrightarrow> flat_close cond (l # f # fs) = Ok ((f @ l) # fs)"
  "flat_close cond (l # (f @ [''||'']) # fs) = Ok ((f @ [''||''] @ l) # fs)"
  "ends_with_char c CHR ''?'' \<Longrightarrow> flat_close cond (l # (f @ [c]) # fs) =
     out_bind (cond c) (\<lambda>a. Ok ((f @ (if a then l else [])) # fs))"
  by (cases f rule: rev_cases; simp add: flat_close_def; fail)
    (auto simp: flat_close_def intro: out_bind_cong)

lemma flat_exec_ok:
  "dep_wf i \<Longrightarrow> no_marks f \<Longrightarrow> flat.exec cond hook i pos (f # fs, s) =
     out_bind (flat_exec cond hook i pos s) (\<lambda>(l, s). Ok ((f @ l) # fs, s))"
  "list_all dep_wf is \<Longrightarrow> no_marks f \<Longrightarrow> flat.execs cond hook is pos (f # fs, s) =
     out_bind (flat_execs cond hook is pos s) (\<lambda>(l, s). Ok ((f @ l) # fs, s))"
proof (induction i and "is" arbitrary: pos f fs s and pos f fs s rule: dep_items_induct)
  case (Atom t)
  then show ?case by (auto simp: flat_atom_def split: option.split sum.split)
next
  case (Group "is")
  then show ?case
    by (cases "flat_execs cond hook is (pos + 1) s") (auto simp: flat_close_plain)
next
  case (Any "is")
  then show ?case
    by (cases "flat_execs cond hook is (pos + 2) s") (auto simp: flat_close_plain)
next
  case (Cond c "is")
  then show ?case
    by (cases "flat_execs cond hook is (pos + 2) s") (auto simp: flat_close_plain out_bind_assoc)
next
  case Nil
  then show ?case by simp
next
  case (Cons i "is")
  show ?case
  proof (cases "flat_exec cond hook i pos s")
    case (Ok r)
    then obtain l s' where l: "flat_exec cond hook i pos s = Ok (l, s')" by (cases r) auto
    then have "no_marks l" using flat_exec_no_marks(1) Cons.prems by auto
    then show ?thesis using Cons l
      by (cases "flat_execs cond hook is (pos + length (dep_tokens i)) s'") auto
  qed (use Cons in simp_all)
qed

text \<open>The reduction as a function of the items, and the flags of all their conditionals.\<close>

fun reduce :: "(string \<Rightarrow> bool) \<Rightarrow> dep_item \<Rightarrow> string list" where
  "reduce active (DAtom t) = [t]"
| "reduce active (DGroup is) = concat (map (reduce active) is)"
| "reduce active (DAny is) = ''||'' # concat (map (reduce active) is)"
| "reduce active (DCond c is) = (if active c then concat (map (reduce active) is) else [])"

fun conds_of :: "dep_item \<Rightarrow> string list" where
  "conds_of (DAtom t) = []"
| "conds_of (DGroup is) = concat (map conds_of is)"
| "conds_of (DAny is) = concat (map conds_of is)"
| "conds_of (DCond c is) = c # concat (map conds_of is)"

abbreviation all_conds :: "dep_item list \<Rightarrow> string list" where
  "all_conds is \<equiv> concat (map conds_of is)"

definition flags_ok :: "(string \<Rightarrow> bool) \<Rightarrow> dep_item list \<Rightarrow> bool" where
  "flags_ok ok is = list_all (\<lambda>c. ok (cond_flag c)) (all_conds is)"

lemma flags_ok_simps [simp]:
  "flags_ok ok []" "flags_ok ok (DAtom t # is) \<longleftrightarrow> flags_ok ok is"
  "flags_ok ok (DGroup js # is) \<longleftrightarrow> flags_ok ok js \<and> flags_ok ok is"
  "flags_ok ok (DAny js # is) \<longleftrightarrow> flags_ok ok js \<and> flags_ok ok is"
  "flags_ok ok (DCond c js # is) \<longleftrightarrow> ok (cond_flag c) \<and> flags_ok ok js \<and> flags_ok ok is"
  by (simp_all add: flags_ok_def)

lemma flags_ok_append [simp]: "flags_ok ok (is @ js) \<longleftrightarrow> flags_ok ok is \<and> flags_ok ok js"
  by (simp add: flags_ok_def)

lemma flags_ok_Cons: "flags_ok ok (i # is) \<longleftrightarrow> flags_ok ok [i] \<and> flags_ok ok is"
  by (simp add: flags_ok_def)

text \<open>A test of conditionals that is a check of the flag and then a value.\<close>

definition checks :: "(string \<Rightarrow> bool use_out) \<Rightarrow> (string \<Rightarrow> bool) \<Rightarrow> (string \<Rightarrow> bool) \<Rightarrow> bool" where
  "checks cond ok active \<longleftrightarrow>
     (\<forall>c. ends_with_char c CHR ''?'' \<longrightarrow>
        (if ok (cond_flag c) then cond c = Ok (active c) else (\<exists>e. cond c = Err e)))"

lemma checks_is_active:
  "checks (\<lambda>c. is_active c uselist mode) useflag_matches (cond_holds uselist mode)"
  by (simp add: checks_def is_active_question)

lemma checks_validated: "checks (\<lambda>c. is_active_validated c valid) valid (\<lambda>_. True)"
  by (simp add: checks_def is_active_validated_question)

lemma checks_Ok:
  "checks cond ok active \<Longrightarrow> ends_with_char c CHR ''?'' \<Longrightarrow>
   cond c = Ok a \<longleftrightarrow> ok (cond_flag c) \<and> a = active c"
  by (cases "ok (cond_flag c)") (auto simp: checks_def)

lemma flat_exec_value:
  assumes "checks cond ok active"
  shows "dep_wf i \<Longrightarrow> flat_exec cond None i pos s = Ok (l, s') \<longleftrightarrow>
      flags_ok ok [i] \<and> l = reduce active i \<and> s' = s"
    and "list_all dep_wf is \<Longrightarrow> flat_execs cond None is pos s = Ok (l, s') \<longleftrightarrow>
      flags_ok ok is \<and> l = concat (map (reduce active) is) \<and> s' = s"
proof (induction i and "is" arbitrary: pos s l s' and pos s l s' rule: dep_items_induct)
  case (Cond c "is")
  then show ?case by (auto simp: checks_Ok [OF assms])
next
  case (Cons i "is")
  then show ?case by (subst flags_ok_Cons) auto
qed auto

lemma flat_run:
  "walk_flat cond hook s ts = Ok (out, s') \<longleftrightarrow>
    (\<exists>is. ts = deps_tokens is \<and> list_all dep_wf is \<and> flat_execs cond hook is 0 s = Ok (out, s'))"
proof -
  have "(\<exists>st. flat.execs cond hook is 0 ([[]], s) = Ok st \<and>
      (out, s') = (case st of (stack, s) \<Rightarrow> (hd stack, s))) \<longleftrightarrow> flat_execs cond hook is 0 s = Ok (out, s')"
    if "list_all dep_wf is" for "is"
    using flat_exec_ok(2) [OF that, of "[]" cond hook 0 "[]" s]
    by (cases "flat_execs cond hook is 0 s") auto
  then show ?thesis
    unfolding walk_flat_def flat.run_iff [of "([[]], s)" cond hook ts "(out, s')", simplified]
    by (simp cong: conj_cong)
qed

lemma use_reduce_flat_value:
  "use_reduce_flat ts uselist mode = Ok out \<longleftrightarrow>
    (\<exists>is. ts = deps_tokens is \<and> list_all dep_wf is \<and> flags_ok useflag_matches is \<and>
       out = concat (map (reduce (cond_holds uselist mode)) is))"
  unfolding use_reduce_flat_def
  by (auto simp: flat_run flat_exec_value(2) [OF checks_is_active])

text \<open>
  C18: \<open>use_reduce_flat\<close> returns a list exactly when the tokens are a well-formed dependency string
  whose conditionals all have syntactically valid flags, also those inside inactive groups, and
  the list is then the atoms that the active conditionals leave, in order, with the any-of
  operators kept as tokens.
\<close>

theorem use_reduce_flat_iff:
  "use_reduce_flat ts uselist mode = Ok out \<longleftrightarrow>
    (\<exists>is. ts = deps_tokens is \<and> list_all dep_wf is \<and> flags_ok useflag_matches is \<and>
       out = concat (map (reduce (cond_holds uselist mode)) is))"
  by (rule use_reduce_flat_value)

text \<open>The plain tokens of the items with their positions.\<close>

fun atoms_at :: "dep_item \<Rightarrow> nat \<Rightarrow> (string \<times> nat) list"
  and atoms_from :: "dep_item list \<Rightarrow> nat \<Rightarrow> (string \<times> nat) list" where
  "atoms_at (DAtom t) pos = [(t, pos)]"
| "atoms_at (DGroup is) pos = atoms_from is (pos + 1)"
| "atoms_at (DAny is) pos = atoms_from is (pos + 2)"
| "atoms_at (DCond c is) pos = atoms_from is (pos + 2)"
| "atoms_from [] pos = []"
| "atoms_from (i # is) pos = atoms_at i pos @ atoms_from is (pos + length (dep_tokens i))"

fun run_hook :: "'s atom_hook \<Rightarrow> (string \<times> nat) list \<Rightarrow> 's \<Rightarrow> token_error + 's" where
  "run_hook hook [] s = Inr s"
| "run_hook hook ((t, pos) # rest) s = res_bind (hook t pos s) (\<lambda>s. run_hook hook rest s)"

lemma run_hook_append: "run_hook hook (xs @ ys) s = res_bind (run_hook hook xs s) (run_hook hook ys)"
proof (induction xs arbitrary: s)
  case (Cons x xs)
  then show ?case by (cases x; cases "hook (fst x) (snd x) s") auto
qed simp

lemma atoms_at_token:
  "(t, pos) \<in> set (atoms_at i p) \<Longrightarrow> p \<le> pos \<and> dep_tokens i ! (pos - p) = t \<and> pos < p + length (dep_tokens i)"
  "(t, pos) \<in> set (atoms_from is p) \<Longrightarrow>
     p \<le> pos \<and> deps_tokens is ! (pos - p) = t \<and> pos < p + length (deps_tokens is)"
proof (induction i and "is" arbitrary: p and p rule: dep_items_induct)
  case (Cons i "is")
  consider "(t, pos) \<in> set (atoms_at i p)" | "(t, pos) \<in> set (atoms_from is (p + length (dep_tokens i)))"
    using Cons.prems by auto
  then show ?case
  proof cases
    case 1
    then show ?thesis using Cons.IH(1) [of p] by (auto simp: nth_append)
  next
    case 2
    then have "p + length (dep_tokens i) \<le> pos \<and> deps_tokens is ! (pos - (p + length (dep_tokens i))) = t \<and>
      pos < p + length (dep_tokens i) + length (deps_tokens is)" by (rule Cons.IH(2))
    then show ?thesis by (auto simp: nth_append)
  qed
qed (fastforce simp: nth_append nth_Cons' dest: Suc_le_D)+

lemma flat_exec_hook:
  assumes "checks cond ok active"
  shows "dep_wf i \<Longrightarrow> flat_exec cond (Some h) i pos s = Ok (l, s') \<longleftrightarrow>
      flags_ok ok [i] \<and> run_hook h (atoms_at i pos) s = Inr s' \<and>
      l = filter (\<lambda>t. t = ''||'') (reduce active i)"
    and "list_all dep_wf is \<Longrightarrow> flat_execs cond (Some h) is pos s = Ok (l, s') \<longleftrightarrow>
      flags_ok ok is \<and> run_hook h (atoms_from is pos) s = Inr s' \<and>
      l = filter (\<lambda>t. t = ''||'') (concat (map (reduce active) is))"
proof (induction i and "is" arbitrary: pos s l s' and pos s l s' rule: dep_items_induct)
  case (Atom t)
  then show ?case by (auto simp: reserved_def split: sum.split)
next
  case (Cond c "is")
  then show ?case by (auto simp: checks_Ok [OF assms])
next
  case (Cons i "is")
  then show ?case by (subst flags_ok_Cons) (auto simp: run_hook_append)
qed auto

text \<open>
  \<open>use_reduce_flat_validated\<close> succeeds exactly when the tokens are a well-formed dependency
  string, every flag of a conditional is valid, and the hook accepts the plain tokens, each with
  its position, from left to right and whatever conditionals they are under; the result is the
  state after the last one.
\<close>

theorem use_reduce_flat_validated_iff:
  "use_reduce_flat_validated ts valid hook s = Ok s' \<longleftrightarrow>
    (\<exists>is. ts = deps_tokens is \<and> list_all dep_wf is \<and> flags_ok valid is \<and>
       list_all (\<lambda>(t, pos). pos < length ts \<and> ts ! pos = t) (atoms_from is 0) \<and>
       run_hook hook (atoms_from is 0) s = Inr s')"
proof -
  have at: "list_all (\<lambda>(t, pos). pos < length (deps_tokens is) \<and> deps_tokens is ! pos = t) (atoms_from is 0)" for "is"
    using atoms_at_token(2) [of _ _ "is" 0] by (fastforce simp: list_all_iff)
  have run: "(\<exists>l. flat_execs (\<lambda>c. is_active_validated c valid) (Some hook) is 0 s = Ok (l, s')) \<longleftrightarrow>
      flags_ok valid is \<and> run_hook hook (atoms_from is 0) s = Inr s'" if "list_all dep_wf is" for "is"
    using flat_exec_hook(2) [OF checks_validated that, of valid hook 0 s _ s'] by blast
  have "use_reduce_flat_validated ts valid hook s = Ok s' \<longleftrightarrow>
    (\<exists>is. ts = deps_tokens is \<and> list_all dep_wf is \<and>
      (\<exists>l. flat_execs (\<lambda>c. is_active_validated c valid) (Some hook) is 0 s = Ok (l, s')))"
    unfolding use_reduce_flat_validated_def by (auto simp: flat_run)
  then show ?thesis using at by (auto simp: run cong: conj_cong)
qed

section \<open>The tree\<close>

fun dep_nodes :: "dep_item \<Rightarrow> dep_node list" where
  "dep_nodes (DAtom t) = [Str t]"
| "dep_nodes (DGroup is) = [Group (concat (map dep_nodes is))]"
| "dep_nodes (DAny is) = [Str ''||'', Group (concat (map dep_nodes is))]"
| "dep_nodes (DCond c is) = [Str c, Group (concat (map dep_nodes is))]"

abbreviation deps_nodes :: "dep_item list \<Rightarrow> dep_node list" where
  "deps_nodes is \<equiv> concat (map dep_nodes is)"

lemma tree_close_Cons [simp]: "tree_close (l # f # fs) = Ok ((f @ [Group l]) # fs)"
  by (simp add: tree_close_def)

lemma tree_exec_ok:
  "tree.exec i pos (f # fs) = Ok ((f @ dep_nodes i) # fs)"
  "tree.execs is pos (f # fs) = Ok ((f @ deps_nodes is) # fs)"
  by (induction i and "is" arbitrary: pos f fs and pos f fs rule: dep_items_induct)
    (simp_all del: out_bind_Ok_iff)

lemma build_dep_tree_items:
  "build_dep_tree ts = Ok tree \<longleftrightarrow>
     (\<exists>is. ts = deps_tokens is \<and> list_all dep_wf is \<and> tree = deps_nodes is)"
  unfolding build_dep_tree_def tree.run_iff [of "[[]]" ts tree, simplified]
  by (simp add: tree_exec_ok)

lemma serialize_items:
  "serialize_dep_tree (dep_nodes i) = dep_tokens i"
  "serialize_dep_tree (deps_nodes is) = deps_tokens is"
  by (induction i and "is" rule: dep_items_induct) (simp_all add: serialize_dep_tree_def)

lemma serialize_append [simp]:
  "serialize_dep_tree [] = []"
  "serialize_dep_tree (a @ b) = serialize_dep_tree a @ serialize_dep_tree b"
  "serialize_dep_tree (Str s # b) = s # serialize_dep_tree b"
  "serialize_dep_tree (Group g # b) = ''('' # serialize_dep_tree g @ '')'' # serialize_dep_tree b"
  by (simp_all add: serialize_dep_tree_def)

text \<open>
  C35: \<open>build_dep_tree\<close> loses nothing: it returns a tree exactly when the tokens are a well-formed
  dependency string, and serializing the tree gives the tokens back.
\<close>

theorem build_serialize_roundtrip:
  "build_dep_tree ts = Ok tree \<longleftrightarrow>
     ts = serialize_dep_tree tree \<and> (\<exists>is. list_all dep_wf is \<and> tree = deps_nodes is)"
  using serialize_items(2) by (auto simp: build_dep_tree_items)

text \<open>The serialized items reduce to their reduction.\<close>

lemma use_reduce_flat_items:
  "list_all dep_wf is \<Longrightarrow> flags_ok useflag_matches is \<Longrightarrow>
   use_reduce_flat (deps_tokens is) uselist mode =
     Ok (concat (map (reduce (cond_holds uselist mode)) is))"
  by (auto simp: use_reduce_flat_value)

end
