(* ===== verification/DepStructured.thy ===== *)
theory DepStructured
  imports DepReduce
begin

text \<open>
  The structured reducer removes brackets but keeps the meaning of the dependency string: under
  every assignment of truth values to the atoms, what it returns holds exactly when its input
  does. The frames of the walk are either conjunctions or, right after an any-of operator in the
  frame below, lists of alternatives.
\<close>

section \<open>The meaning of dependency strings\<close>

text \<open>
  The values that an item contributes to the list it stands in: an inactive conditional, and a
  group with nothing left in it, contribute none; an any-of group with nothing left counts as the
  placeholder.
\<close>

fun dep_vals :: "(string \<Rightarrow> bool) \<Rightarrow> (string \<Rightarrow> bool) \<Rightarrow> dep_item \<Rightarrow> bool list" where
  "dep_vals v active (DAtom t) = [v t]"
| "dep_vals v active (DGroup is) =
     (let bs = concat (map (dep_vals v active) is) in if bs = [] then [] else [False \<notin> set bs])"
| "dep_vals v active (DAny is) =
     (let bs = concat (map (dep_vals v active) is)
      in [if bs = [] then v empty_any_of else True \<in> set bs])"
| "dep_vals v active (DCond c is) =
     (let bs = concat (map (dep_vals v active) is)
      in if active c \<and> bs \<noteq> [] then [False \<notin> set bs] else [])"

abbreviation deps_vals :: "(string \<Rightarrow> bool) \<Rightarrow> (string \<Rightarrow> bool) \<Rightarrow> dep_item list \<Rightarrow> bool list" where
  "deps_vals v active is \<equiv> concat (map (dep_vals v active) is)"

definition deps_hold :: "(string \<Rightarrow> bool) \<Rightarrow> (string \<Rightarrow> bool) \<Rightarrow> dep_item list \<Rightarrow> bool" where
  "deps_hold v active is \<longleftrightarrow> False \<notin> set (deps_vals v active is)"

section \<open>The meaning of node lists\<close>

fun node_vals :: "(string \<Rightarrow> bool) \<Rightarrow> dep_node list \<Rightarrow> bool list" where
  "node_vals v [] = []"
| "node_vals v (Group g # r) = (False \<notin> set (node_vals v g)) # node_vals v r"
| "node_vals v (Str s # r) =
     (if s = ''||'' then
        (case r of Group g # r' \<Rightarrow> (True \<in> set (node_vals v g)) # node_vals v r' | _ \<Rightarrow> [])
      else v s # node_vals v r)"

definition atom_ok :: "string \<Rightarrow> bool" where
  "atom_ok t \<longleftrightarrow> dep_wf (DAtom t)"

fun nodes_ok :: "dep_node list \<Rightarrow> bool" where
  "nodes_ok [] \<longleftrightarrow> True"
| "nodes_ok (Group g # r) \<longleftrightarrow> g \<noteq> [] \<and> nodes_ok g \<and> nodes_ok r"
| "nodes_ok (Str s # r) \<longleftrightarrow>
     (if s = ''||'' then
        (case r of
           Group g # r' \<Rightarrow> g \<noteq> [] \<and> nodes_ok g \<and> Str ''||'' \<notin> set g \<and> nodes_ok r'
         | _ \<Rightarrow> False)
      else atom_ok s \<and> nodes_ok r)"

lemma nodes_ok_induct [consumes 1, case_names Nil Group Any Atom]:
  assumes "nodes_ok f"
    and "P []"
    and "\<And>g r. g \<noteq> [] \<Longrightarrow> nodes_ok g \<Longrightarrow> P g \<Longrightarrow> nodes_ok r \<Longrightarrow> P r \<Longrightarrow> P (Group g # r)"
    and "\<And>g r. g \<noteq> [] \<Longrightarrow> nodes_ok g \<Longrightarrow> Str ''||'' \<notin> set g \<Longrightarrow> P g \<Longrightarrow> nodes_ok r \<Longrightarrow> P r \<Longrightarrow>
      P (Str ''||'' # Group g # r)"
    and "\<And>s r. s \<noteq> ''||'' \<Longrightarrow> atom_ok s \<Longrightarrow> nodes_ok r \<Longrightarrow> P r \<Longrightarrow> P (Str s # r)"
  shows "P f"
  using assms(1)
proof (induction f rule: nodes_ok.induct)
  case (3 s r)
  show ?case
  proof (cases "s = ''||''")
    case True
    then obtain g r' where r: "r = Group g # r'"
      using 3(4) by (auto split: list.splits dep_node.splits)
    then show ?thesis using 3 True by (auto intro!: assms(4))
  next
    case False
    then show ?thesis using 3 by (auto intro!: assms(5))
  qed
qed (auto intro: assms)

lemma atom_ok_simps:
  "atom_ok t \<Longrightarrow> t \<noteq> ''||'' \<and> \<not> ends_with_char t CHR ''?''"
  by (auto simp: atom_ok_def reserved_def)

lemma empty_any_of_ok [simp]: "atom_ok empty_any_of" "empty_any_of \<noteq> ''||''"
  by (simp_all add: atom_ok_def empty_any_of_def reserved_def ends_with_char_def)

lemma nodes_ok_append:
  "nodes_ok a \<Longrightarrow> nodes_ok (a @ b) \<longleftrightarrow> nodes_ok b"
  "nodes_ok a \<Longrightarrow> node_vals v (a @ b) = node_vals v a @ node_vals v b"
  by (induction a rule: nodes_ok_induct) auto

lemma node_vals_ne: "nodes_ok f \<Longrightarrow> node_vals v f = [] \<longleftrightarrow> f = []"
  by (induction f rule: nodes_ok_induct) auto

lemma nodes_ok_last:
  "nodes_ok f \<Longrightarrow> vec_last f = Some (Str s) \<Longrightarrow> s \<noteq> ''||'' \<and> \<not> ends_with_char s CHR ''?''"
  by (induction f rule: nodes_ok_induct) (auto simp: vec_last_def atom_ok_simps split: if_splits)

text \<open>A complete node list is the tree of well-formed items without conditionals.\<close>

lemma nodes_ok_items:
  assumes "nodes_ok f"
  shows "\<exists>js. f = deps_nodes js \<and> list_all dep_wf js \<and> all_conds js = [] \<and>
    (\<forall>v active. node_vals v f = deps_vals v active js)"
  using assms
proof (induction f rule: nodes_ok_induct)
  case Nil
  then show ?case by (intro exI [of _ "[]"]) simp
next
  case (Group g r)
  then obtain js ks where js: "g = deps_nodes js" "list_all dep_wf js" "all_conds js = []"
      "\<forall>v active. node_vals v g = deps_vals v active js"
    and ks: "r = deps_nodes ks" "list_all dep_wf ks" "all_conds ks = []"
      "\<forall>v active. node_vals v r = deps_vals v active ks" by blast
  have "deps_vals v active js \<noteq> []" for v active
    using node_vals_ne [OF Group(2), of v] js(4) Group(1) by metis
  then show ?case using js ks Group(1) by (intro exI [of _ "DGroup js # ks"]) (auto simp: Let_def)
next
  case (Any g r)
  then obtain js ks where js: "g = deps_nodes js" "list_all dep_wf js" "all_conds js = []"
      "\<forall>v active. node_vals v g = deps_vals v active js"
    and ks: "r = deps_nodes ks" "list_all dep_wf ks" "all_conds ks = []"
      "\<forall>v active. node_vals v r = deps_vals v active ks" by blast
  have "deps_vals v active js \<noteq> []" for v active
    using node_vals_ne [OF Any(2), of v] js(4) Any(1) by metis
  then show ?case using js ks Any(1) by (intro exI [of _ "DAny js # ks"]) (auto simp: Let_def)
next
  case (Atom s r)
  then obtain ks where ks: "r = deps_nodes ks" "list_all dep_wf ks" "all_conds ks = []"
      "\<forall>v active. node_vals v r = deps_vals v active ks" by blast
  then show ?case using Atom by (intro exI [of _ "DAtom s # ks"]) (auto simp: atom_ok_def)
qed

section \<open>Adding a value to a frame\<close>

text \<open>
  \<open>adds alt f V f'\<close>: the frame \<open>f'\<close> is \<open>f\<close> with the values \<open>V\<close> of one item (none or one) added, as a
  further alternative when \<open>alt\<close>, as a further conjunct otherwise.
\<close>

definition adds ::
  "bool \<Rightarrow> dep_node list \<Rightarrow> ((string \<Rightarrow> bool) \<Rightarrow> bool list) \<Rightarrow> dep_node list \<Rightarrow> bool" where
  "adds alt f V f' \<longleftrightarrow> nodes_ok f' \<and> (alt \<longrightarrow> Str ''||'' \<notin> set f') \<and>
     (\<forall>v. (f' = [] \<longleftrightarrow> f = [] \<and> V v = []) \<and>
       (if alt then True \<in> set (node_vals v f') \<longleftrightarrow> True \<in> set (node_vals v f) \<or> True \<in> set (V v)
        else False \<in> set (node_vals v f') \<longleftrightarrow> False \<in> set (node_vals v f) \<or> False \<in> set (V v)))"

definition frame_ok :: "bool \<Rightarrow> dep_node list \<Rightarrow> bool" where
  "frame_ok alt f \<longleftrightarrow> nodes_ok f \<and> (alt \<longrightarrow> Str ''||'' \<notin> set f)"

lemma adds_frame: "adds alt f V f' \<Longrightarrow> frame_ok alt f'"
  by (simp add: adds_def frame_ok_def)

lemma adds_nothing: "frame_ok alt f \<Longrightarrow> (\<And>v. V v = []) \<Longrightarrow> adds alt f V f"
  by (simp add: adds_def frame_ok_def)

lemma adds_trans: "adds alt f V f' \<Longrightarrow> adds alt f' W f'' \<Longrightarrow> adds alt f (\<lambda>v. V v @ W v) f''"
  by (auto simp: adds_def)

lemma adds_append:
  assumes "frame_ok alt f" "nodes_ok g" "alt \<Longrightarrow> Str ''||'' \<notin> set g" "g \<noteq> []"
    and "\<And>v. V v \<noteq> []"
    and "\<And>v. if alt then True \<in> set (node_vals v g) \<longleftrightarrow> True \<in> set (V v)
          else False \<in> set (node_vals v g) \<longleftrightarrow> False \<in> set (V v)"
  shows "adds alt f V (f @ g)"
  using assms by (auto simp: adds_def frame_ok_def nodes_ok_append split: if_splits)

lemma single_cases:
  assumes "nodes_ok l" "is_single_dep l"
  obtains t where "l = [Str t]" "atom_ok t" "t \<noteq> ''||''"
    | g where "l = [Group g]" "g \<noteq> []" "nodes_ok g"
    | g where "l = [Str ''||'', Group g]" "g \<noteq> []" "nodes_ok g" "Str ''||'' \<notin> set g"
  using assms
  by (cases rule: nodes_ok.cases [of l])
    (auto simp: is_single_dep_def split: if_splits list.splits dep_node.splits)

lemma single_vals:
  assumes "nodes_ok l" "is_single_dep l"
  shows "True \<in> set (node_vals v l) \<longleftrightarrow> False \<notin> set (node_vals v l)"
  using assms by (rule single_cases) auto

lemma any_of_level: "ends_in_any_of_dep below \<Longrightarrow> last_any_of_operator_level below \<noteq> None"
  by (cases below) (auto simp: ends_in_any_of_dep_def)

lemma special_append_ok:
  assumes "frame_ok (ends_in_any_of_dep below) t" "nodes_ok l" "l \<noteq> []" "single \<Longrightarrow> is_single_dep l"
  shows "adds (ends_in_any_of_dep below) t (\<lambda>v. [False \<notin> set (node_vals v l)])
    (special_append t below l single)"
proof (cases single)
  case False
  then show ?thesis using assms by (auto simp: special_append_def intro!: adds_append)
next
  case True
  show ?thesis
  proof (rule single_cases [OF assms(2)])
    show "is_single_dep l" using True assms(4) by simp
  next
    fix a assume "l = [Str a]" "atom_ok a" "a \<noteq> ''||''"
    then show ?thesis using assms True by (auto simp: special_append_def intro!: adds_append)
  next
    fix g assume l: "l = [Group g]" "g \<noteq> []" "nodes_ok g"
    show ?thesis
    proof (cases "last_any_of_operator_level below = None")
      case none: True
      then have "\<not> ends_in_any_of_dep below" using any_of_level by blast
      then show ?thesis using assms True l none
        by (auto simp: special_append_def intro!: adds_append)
    next
      case False
      then show ?thesis using assms True l
        by (auto simp: special_append_def intro!: adds_append)
    qed
  next
    fix g assume l: "l = [Str ''||'', Group g]" "g \<noteq> []" "nodes_ok g" "Str ''||'' \<notin> set g"
    then show ?thesis using assms True
      by (cases "ends_in_any_of_dep below") (auto simp: special_append_def intro!: adds_append)
  qed
qed

section \<open>Closing a group\<close>

lemma ends_complete: "nodes_ok f \<Longrightarrow> \<not> ends_in_any_of_dep (f # fs)"
  using nodes_ok_last by (auto simp: ends_in_any_of_dep_def)

lemma ends_pending [simp]: "ends_in_any_of_dep ((f @ [Str s]) # fs) \<longleftrightarrow> s = ''||''"
  by (simp add: ends_in_any_of_dep_def vec_last_def)

definition placed ::
  "dep_node list \<Rightarrow> dep_node list list \<Rightarrow> dep_node list \<Rightarrow> bool \<Rightarrow> dep_node list" where
  "placed t below l single =
     (let ends_level = ends_in_any_of_dep (t # below); ends_above = ends_in_any_of_dep below
      in if \<not> ends_above \<and> \<not> ends_level then t @ l
         else if t = [] then special_append t below l single
         else if single \<and> ends_level then special_append (butlast t) below l single
         else if ends_level \<and> ends_above then butlast t @ l
         else special_append t below l single)"

lemma structured_close_eq:
  "structured_close uselist mode (l # t # below) =
     out_bind (close_marker uselist mode l t) (\<lambda>(l', t, ignore).
       Ok ((if l' \<noteq> [] \<and> \<not> ignore then placed t below l' (is_single_dep l) else t) # below))"
  unfolding structured_close_def placed_def Let_def
  by (simp split: prod.split) (rule out_bind_cong [OF refl]; auto)

lemma placed_complete:
  assumes "frame_ok (ends_in_any_of_dep below) f" "nodes_ok l" "l \<noteq> []" "single \<Longrightarrow> is_single_dep l"
  shows "adds (ends_in_any_of_dep below) f (\<lambda>v. [False \<notin> set (node_vals v l)]) (placed f below l single)"
proof -
  have "\<not> ends_in_any_of_dep (f # below)" using assms(1) ends_complete by (auto simp: frame_ok_def)
  moreover have "adds (ends_in_any_of_dep below) f (\<lambda>v. [False \<notin> set (node_vals v l)]) (f @ l)"
    if "\<not> ends_in_any_of_dep below" using assms that by (intro adds_append) auto
  ultimately show ?thesis using special_append_ok [OF assms(1-3), of single] assms(4)
    by (cases "ends_in_any_of_dep below") (auto simp: placed_def Let_def)
qed

lemma placed_any:
  assumes "frame_ok (ends_in_any_of_dep below) f" "nodes_ok l" "Str ''||'' \<notin> set l" "l \<noteq> []"
  shows "adds (ends_in_any_of_dep below) f (\<lambda>v. [True \<in> set (node_vals v l)])
    (placed (f @ [Str ''||'']) below l (is_single_dep l))"
proof (cases "is_single_dep l")
  case True
  then show ?thesis
    using special_append_ok [OF assms(1,2,4)] single_vals [OF assms(2)] by (simp add: placed_def)
next
  case False
  show ?thesis
  proof (cases "ends_in_any_of_dep below")
    case True
    then show ?thesis using False assms by (auto simp: placed_def intro!: adds_append)
  next
    case alt: False
    then have "placed (f @ [Str ''||'']) below l (is_single_dep l) = f @ [Str ''||'', Group l]"
      using False by (simp add: placed_def special_append_def)
    then show ?thesis using alt assms by (auto intro!: adds_append)
  qed
qed

lemma close_marker_complete: "nodes_ok f \<Longrightarrow> close_marker uselist mode l f = Ok (l, f, False)"
  using nodes_ok_last [of f] by (auto simp: close_marker_def split: option.splits dep_node.splits)

definition closes ::
  "dep_node list \<Rightarrow> dep_node list \<Rightarrow> dep_node list list \<Rightarrow> ((string \<Rightarrow> bool) \<Rightarrow> bool list) \<Rightarrow>
   dep_node list list use_out \<Rightarrow> bool" where
  "closes f l below V r \<longleftrightarrow> (\<exists>f'. r = Ok (f' # below) \<and> adds (ends_in_any_of_dep below) f V f')"

lemma closes_cong: "closes f l below V r \<Longrightarrow> (\<And>v. V v = W v) \<Longrightarrow> closes f l below W r"
  by (subgoal_tac "V = W") auto

lemma close_group:
  assumes "frame_ok (ends_in_any_of_dep below) f" "nodes_ok l"
  shows "closes f l below (\<lambda>v. if l = [] then [] else [False \<notin> set (node_vals v l)])
    (structured_close uselist mode (l # f # below))"
  using placed_complete [OF assms(1,2)] adds_nothing [OF assms(1)] assms
  by (auto simp: closes_def structured_close_eq close_marker_complete frame_ok_def)

lemma close_cond:
  assumes "frame_ok (ends_in_any_of_dep below) f" "nodes_ok l" "ends_with_char c CHR ''?''"
    "useflag_matches (cond_flag c)"
  shows "closes f l below
    (\<lambda>v. if cond_holds uselist mode c \<and> l \<noteq> [] then [False \<notin> set (node_vals v l)] else [])
    (structured_close uselist mode (l # (f @ [Str c]) # below))"
proof -
  have "close_marker uselist mode l (f @ [Str c]) = Ok (l, f, \<not> cond_holds uselist mode c)"
    using assms(3,4) by (auto simp: close_marker_def vec_last_def is_active_question)
  then show ?thesis using placed_complete [OF assms(1,2)] adds_nothing [OF assms(1)]
    by (auto simp: closes_def structured_close_eq)
qed

lemma close_any:
  assumes "frame_ok (ends_in_any_of_dep below) f" "nodes_ok l" "Str ''||'' \<notin> set l"
  shows "closes f l below (\<lambda>v. [if l = [] then v empty_any_of else True \<in> set (node_vals v l)])
    (structured_close uselist mode (l # (f @ [Str ''||'']) # below))"
proof (cases "l = []")
  case True
  then have "close_marker uselist mode l (f @ [Str ''||'']) = Ok ([Str empty_any_of], f, False)"
    by (simp add: close_marker_def vec_last_def)
  moreover have "\<not> is_single_dep l" using True by (simp add: is_single_dep_def)
  ultimately show ?thesis
    using placed_complete [OF assms(1), of "[Str empty_any_of]" False] True
    by (auto simp: closes_def structured_close_eq)
next
  case False
  then have "close_marker uselist mode l (f @ [Str ''||'']) = Ok (l, f @ [Str ''||''], False)"
    by (simp add: close_marker_def vec_last_def)
  then show ?thesis using placed_any [OF assms False] False
    by (auto simp: closes_def structured_close_eq)
qed

section \<open>The whole walk\<close>

lemma structured_exec_ok:
  "dep_wf i \<Longrightarrow> flags_ok useflag_matches [i] \<Longrightarrow> frame_ok (ends_in_any_of_dep below) f \<Longrightarrow>
   closes f f below (\<lambda>v. dep_vals v (cond_holds uselist mode) i)
     (structured.exec uselist mode i pos (f # below))"
  "list_all dep_wf is \<Longrightarrow> flags_ok useflag_matches is \<Longrightarrow> frame_ok (ends_in_any_of_dep below) f \<Longrightarrow>
   closes f f below (\<lambda>v. deps_vals v (cond_holds uselist mode) is)
     (structured.execs uselist mode is pos (f # below))"
proof (induction i and "is" arbitrary: pos f below and pos f below rule: dep_items_induct)
  case (Atom t)
  then show ?case
    by (auto simp: closes_def atom_ok_def reserved_def intro!: adds_append)
next
  case (Group "is")
  have "frame_ok (ends_in_any_of_dep (f # below)) []"
    by (simp add: frame_ok_def)
  then obtain l where l: "structured.execs uselist mode is (pos + 1) ([] # f # below) = Ok (l # f # below)"
      "adds (ends_in_any_of_dep (f # below)) [] (\<lambda>v. deps_vals v (cond_holds uselist mode) is) l"
    using Group.IH [of "f # below" "[]" "pos + 1"] Group.prems by (auto simp: closes_def)
  have "\<not> ends_in_any_of_dep (f # below)" using Group.prems(3) ends_complete by (auto simp: frame_ok_def)
  then have v: "l = [] \<longleftrightarrow> deps_vals v (cond_holds uselist mode) is = []"
    "False \<in> set (node_vals v l) \<longleftrightarrow> False \<in> set (deps_vals v (cond_holds uselist mode) is)" for v
    using l(2) by (auto simp: adds_def)
  have "nodes_ok l" using l(2) by (simp add: adds_def)
  from close_group [OF Group.prems(3) this, of uselist mode]
  have "closes f l below (\<lambda>v. dep_vals v (cond_holds uselist mode) (DGroup is))
    (structured_close uselist mode (l # f # below))"
    by (rule closes_cong) (use v in \<open>auto simp: Let_def\<close>)
  then show ?case using l(1) by (simp add: closes_def del: dep_vals.simps)
next
  case (Any "is")
  have "frame_ok (ends_in_any_of_dep ((f @ [Str ''||'']) # below)) []"
    by (simp add: frame_ok_def)
  then obtain l where l: "structured.execs uselist mode is (pos + 2) ([] # (f @ [Str ''||'']) # below) =
      Ok (l # (f @ [Str ''||'']) # below)"
      "adds True [] (\<lambda>v. deps_vals v (cond_holds uselist mode) is) l"
    using Any by (fastforce simp: closes_def)
  then have v: "l = [] \<longleftrightarrow> deps_vals v (cond_holds uselist mode) is = []"
    "True \<in> set (node_vals v l) \<longleftrightarrow> True \<in> set (deps_vals v (cond_holds uselist mode) is)" for v
    by (auto simp: adds_def)
  have "nodes_ok l" "Str ''||'' \<notin> set l" using l(2) by (simp_all add: adds_def)
  from close_any [OF Any.prems(3) this, of uselist mode]
  have "closes f l below (\<lambda>v. dep_vals v (cond_holds uselist mode) (DAny is))
    (structured_close uselist mode (l # (f @ [Str ''||'']) # below))"
    by (rule closes_cong) (use v in \<open>auto simp: Let_def\<close>)
  then show ?case using l(1) by (simp add: closes_def del: dep_vals.simps)
next
  case (Cond c "is")
  have c: "c \<noteq> ''||''" using Cond.prems(1) by auto
  have "frame_ok (ends_in_any_of_dep ((f @ [Str c]) # below)) []"
    by (simp add: frame_ok_def)
  then obtain l where l: "structured.execs uselist mode is (pos + 2) ([] # (f @ [Str c]) # below) =
      Ok (l # (f @ [Str c]) # below)"
      "adds False [] (\<lambda>v. deps_vals v (cond_holds uselist mode) is) l"
    using Cond c by (fastforce simp: closes_def)
  then have v: "l = [] \<longleftrightarrow> deps_vals v (cond_holds uselist mode) is = []"
    "False \<in> set (node_vals v l) \<longleftrightarrow> False \<in> set (deps_vals v (cond_holds uselist mode) is)" for v
    by (auto simp: adds_def)
  have "nodes_ok l" using l(2) by (simp add: adds_def)
  from close_cond [OF Cond.prems(3) this, of c uselist mode]
  have "closes f l below
    (\<lambda>v. if cond_holds uselist mode c \<and> l \<noteq> [] then [False \<notin> set (node_vals v l)] else [])
    (structured_close uselist mode (l # (f @ [Str c]) # below))" using Cond.prems by simp
  then have "closes f l below (\<lambda>v. dep_vals v (cond_holds uselist mode) (DCond c is))
    (structured_close uselist mode (l # (f @ [Str c]) # below))"
    by (rule closes_cong) (use v in \<open>auto simp: Let_def\<close>)
  then show ?case using l(1) by (simp add: closes_def del: dep_vals.simps)
next
  case Nil
  then show ?case by (simp add: closes_def adds_nothing)
next
  case (Cons i "is")
  have flags: "flags_ok useflag_matches [i]" "flags_ok useflag_matches is"
    using Cons.prems(2) flags_ok_Cons by blast+
  obtain f' where f': "structured.exec uselist mode i pos (f # below) = Ok (f' # below)"
      "adds (ends_in_any_of_dep below) f (\<lambda>v. dep_vals v (cond_holds uselist mode) i) f'"
    using Cons.IH(1) [OF _ flags(1) Cons.prems(3), of pos] Cons.prems(1) by (auto simp: closes_def)
  obtain f'' where f'': "structured.execs uselist mode is (pos + length (dep_tokens i)) (f' # below) = Ok (f'' # below)"
      "adds (ends_in_any_of_dep below) f' (\<lambda>v. deps_vals v (cond_holds uselist mode) is) f''"
    using Cons.IH(2) [OF _ flags(2) adds_frame [OF f'(2)]] Cons.prems(1) by (auto simp: closes_def)
  show ?case using f' f'' adds_trans [OF f'(2) f''(2)] by (simp add: closes_def)
qed

text \<open>
  C9: on a well-formed dependency string with valid flags \<open>use_reduce_structured\<close> returns another
  one, without conditionals, that means the same: whatever atoms are taken to hold, the result
  holds if and only if the input does under the given USE flags. So no bracket that it removes or
  keeps changes an alternative into a conjunction or back.
\<close>

theorem structured_preserves_meaning:
  assumes "list_all dep_wf is" "flags_ok useflag_matches is"
  shows "\<exists>js. use_reduce_structured (deps_tokens is) uselist mode = Ok (deps_tokens js) \<and>
    list_all dep_wf js \<and> all_conds js = [] \<and>
    (\<forall>v active. deps_hold v active js \<longleftrightarrow> deps_hold v (cond_holds uselist mode) is)"
proof -
  have "frame_ok (ends_in_any_of_dep []) []" by (simp add: frame_ok_def)
  from structured_exec_ok(2) [OF assms this, of uselist mode 0]
  obtain f where f: "structured.execs uselist mode is 0 [[]] = Ok [f]"
      "adds False [] (\<lambda>v. deps_vals v (cond_holds uselist mode) is) f"
    by (auto simp: closes_def ends_in_any_of_dep_def)
  then obtain js where js: "f = deps_nodes js" "list_all dep_wf js" "all_conds js = []"
      "\<forall>v active. node_vals v f = deps_vals v active js"
    using nodes_ok_items [of f] by (auto simp: adds_def)
  have "use_reduce_structured (deps_tokens is) uselist mode = Ok (serialize_dep_tree f)"
    unfolding use_reduce_structured_def structured.run_iff [of "[[]]", simplified]
    using f(1) assms(1) by (intro exI [of _ "is"] exI [of _ "[f]"]) simp
  moreover have "deps_hold v active js \<longleftrightarrow> deps_hold v (cond_holds uselist mode) is" for v active
    using f(2) js(4) by (auto simp: deps_hold_def adds_def)
  ultimately show ?thesis using js(1-3) serialize_items(2) [of js] by (intro exI [of _ js]) simp
qed

theorem structured_preserves_meaning_witness:
  "\<exists>js. use_reduce_structured (split_whitespace ''|| ( ( || ( a b ) ) !y? ( c d ) x? ( e ) )'') {''x''} Normal =
      Ok (deps_tokens js) \<and>
    list_all dep_wf js \<and> all_conds js = [] \<and>
    (\<forall>v active. deps_hold v active js \<longleftrightarrow> deps_hold v (cond_holds {''x''} Normal)
      [DAny [DGroup [DAny [DAtom ''a'', DAtom ''b'']], DCond ''!y?'' [DAtom ''c'', DAtom ''d''],
         DCond ''x?'' [DAtom ''e'']]])"
proof -
  let ?is = "[DAny [DGroup [DAny [DAtom ''a'', DAtom ''b'']], DCond ''!y?'' [DAtom ''c'', DAtom ''d''],
    DCond ''x?'' [DAtom ''e'']]]"
  have "split_whitespace ''|| ( ( || ( a b ) ) !y? ( c d ) x? ( e ) )'' = deps_tokens ?is" by code_simp
  moreover have "list_all dep_wf ?is" "flags_ok useflag_matches ?is" by code_simp+
  ultimately show ?thesis
    using structured_preserves_meaning [of ?is "{''x''}" Normal] by simp
qed

end
