(* ===== verification/DepSubset.thy ===== *)
theory DepSubset
  imports DepStructured
begin

text \<open>
  The subset pass: what \<open>use_reduce_flat_subset\<close> keeps, as a function of the items.
\<close>

section \<open>The pass on the items\<close>

fun subset_item ::
  "string set \<Rightarrow> string set \<Rightarrow> match_mode \<Rightarrow> bool \<Rightarrow> bool \<Rightarrow> dep_item \<Rightarrow> dep_node list use_out"
and subset_items ::
  "string set \<Rightarrow> string set \<Rightarrow> match_mode \<Rightarrow> bool \<Rightarrow> bool \<Rightarrow> dep_item list \<Rightarrow> dep_node list use_out" where
  "subset_item wanted uselist mode alt sel (DAtom t) = Ok (if sel then [Str t] else [])"
| "subset_item wanted uselist mode alt sel (DGroup is) =
     out_bind (subset_items wanted uselist mode False sel is) (\<lambda>sub.
       Ok (if alt then if sub \<noteq> [] then [Group sub] else [] else sub))"
| "subset_item wanted uselist mode alt sel (DAny is) =
     out_bind (subset_items wanted uselist mode True sel is) (\<lambda>sub.
       Ok (if sub \<noteq> [] then if alt then sub else [Str ''||'', Group sub] else []))"
| "subset_item wanted uselist mode alt sel (DCond c is) =
     out_bind (is_active c uselist mode) (\<lambda>active.
       if active then
         out_bind (subset_items wanted uselist mode False (sel \<or> butlast c \<in> wanted) is) (\<lambda>sub.
           Ok (if alt then if sub \<noteq> [] then [Group sub] else [] else sub))
       else Ok [])"
| "subset_items wanted uselist mode alt sel [] = Ok []"
| "subset_items wanted uselist mode alt sel (i # is) =
     out_bind (subset_item wanted uselist mode alt sel i) (\<lambda>a.
     out_bind (subset_items wanted uselist mode alt sel is) (\<lambda>b. Ok (a @ b)))"

lemma question_ne: "ends_with_char c CHR ''?'' \<Longrightarrow> drop_last c = Ok (butlast c)"
  by (auto simp: ends_with_char_def drop_last_def)

lemma select_subset_items:
  "dep_wf i \<Longrightarrow> select_subset wanted uselist mode alt sel (dep_nodes i @ ns) =
     out_bind (subset_item wanted uselist mode alt sel i) (\<lambda>a.
     out_bind (select_subset wanted uselist mode alt sel ns) (\<lambda>b. Ok (a @ b)))"
  "list_all dep_wf is \<Longrightarrow> select_subset wanted uselist mode alt sel (deps_nodes is) =
     subset_items wanted uselist mode alt sel is"
proof (induction i and "is" arbitrary: alt sel ns and alt sel rule: dep_items_induct)
  case (Atom t)
  then show ?case by (auto simp: reserved_def)
next
  case (Group "is")
  then show ?case by (simp add: out_bind_assoc)
next
  case (Any "is")
  then show ?case by (simp add: out_bind_assoc)
next
  case (Cond c "is")
  then show ?case
    by (auto simp: out_bind_assoc question_ne simp del: out_bind_Ok_iff intro!: out_bind_cong)
next
  case (Cons i "is")
  then show ?case by simp
qed simp

section \<open>What is kept\<close>

text \<open>
  The kept tokens: atoms under a conditional of the wanted set, of active conditionals only; an
  any-of operator is kept with what is left of its group, unless it is an alternative itself.
\<close>

fun picked :: "string set \<Rightarrow> (string \<Rightarrow> bool) \<Rightarrow> bool \<Rightarrow> bool \<Rightarrow> dep_item \<Rightarrow> string list" where
  "picked wanted active alt sel (DAtom t) = (if sel then [t] else [])"
| "picked wanted active alt sel (DGroup is) = concat (map (picked wanted active False sel) is)"
| "picked wanted active alt sel (DAny is) =
     (let l = concat (map (picked wanted active True sel) is)
      in if l = [] \<or> alt then l else ''||'' # l)"
| "picked wanted active alt sel (DCond c is) =
     (if active c then concat (map (picked wanted active False (sel \<or> butlast c \<in> wanted)) is) else [])"

text \<open>The flags that are looked at: those of conditionals inside inactive ones are not.\<close>

fun reached_flags_ok :: "(string \<Rightarrow> bool) \<Rightarrow> dep_item \<Rightarrow> bool" where
  "reached_flags_ok active (DAtom t) \<longleftrightarrow> True"
| "reached_flags_ok active (DGroup is) \<longleftrightarrow> list_all (reached_flags_ok active) is"
| "reached_flags_ok active (DAny is) \<longleftrightarrow> list_all (reached_flags_ok active) is"
| "reached_flags_ok active (DCond c is) \<longleftrightarrow>
     useflag_matches (cond_flag c) \<and> (active c \<longrightarrow> list_all (reached_flags_ok active) is)"

fun flat_node :: "dep_node \<Rightarrow> string list" where
  "flat_node (Str s) = [s]"
| "flat_node (Group g) = concat (map flat_node g)"

abbreviation flat_nodes :: "dep_node list \<Rightarrow> string list" where
  "flat_nodes ns \<equiv> concat (map flat_node ns)"

lemma flat_nodes_ne: "nodes_ok f \<Longrightarrow> flat_nodes f = [] \<longleftrightarrow> f = []"
  by (induction f rule: nodes_ok_induct) auto

lemma reduce_no_conds:
  "conds_of i = [] \<Longrightarrow> reduce active i = flat_nodes (dep_nodes i)"
  "all_conds is = [] \<Longrightarrow> concat (map (reduce active) is) = flat_nodes (deps_nodes is)"
  by (induction i and "is" rule: dep_items_induct) auto

lemma reduce_nodes_ok:
  assumes "nodes_ok f"
  shows "use_reduce_flat (serialize_dep_tree f) uselist mode = Ok (flat_nodes f)"
proof -
  obtain js where js: "f = deps_nodes js" "list_all dep_wf js" "all_conds js = []"
    using nodes_ok_items [OF assms] by blast
  have "flags_ok useflag_matches js" unfolding flags_ok_def js(3) by simp
  then show ?thesis
    using use_reduce_flat_items [OF js(2), of uselist mode] reduce_no_conds(2) [OF js(3)]
      serialize_items(2) [of js] js(1) by simp
qed

definition subset_result ::
  "bool \<Rightarrow> bool \<Rightarrow> string list \<Rightarrow> dep_node list use_out \<Rightarrow> bool" where
  "subset_result alt ok kept r \<longleftrightarrow>
     (if ok then \<exists>f. r = Ok f \<and> frame_ok alt f \<and> flat_nodes f = kept else \<exists>e. r = Err e)"

lemma frame_ok_append: "frame_ok alt f \<Longrightarrow> frame_ok alt g \<Longrightarrow> frame_ok alt (f @ g)"
  by (auto simp: frame_ok_def nodes_ok_append)

lemma subset_map:
  assumes "subset_result a ok kept r"
    and "\<And>f. frame_ok a f \<Longrightarrow> flat_nodes f = kept \<Longrightarrow> frame_ok alt (h f) \<and> flat_nodes (h f) = kept'"
  shows "subset_result alt ok kept' (out_bind r (\<lambda>sub. Ok (h sub)))"
proof (cases ok)
  case True
  then obtain f where "r = Ok f" "frame_ok a f" "flat_nodes f = kept"
    using assms(1) by (auto simp: subset_result_def)
  then show ?thesis using assms(2) [of f] True
    by (simp add: subset_result_def del: out_bind_Ok_iff)
next
  case False
  then show ?thesis using assms(1) by (auto simp: subset_result_def)
qed

lemma subset_append:
  assumes "subset_result alt ok kept r" "subset_result alt ok' kept' r'"
  shows "subset_result alt (ok \<and> ok') (kept @ kept')
    (out_bind r (\<lambda>a. out_bind r' (\<lambda>b. Ok (a @ b))))"
proof (cases ok)
  case True
  then obtain f where f: "r = Ok f" "frame_ok alt f" "flat_nodes f = kept"
    using assms(1) by (auto simp: subset_result_def)
  show ?thesis
  proof (cases ok')
    case True
    then obtain g where "r' = Ok g" "frame_ok alt g" "flat_nodes g = kept'"
      using assms(2) by (auto simp: subset_result_def)
    then show ?thesis using f \<open>ok\<close> True frame_ok_append [of alt f g]
      by (simp add: subset_result_def del: out_bind_Ok_iff)
  next
    case False
    then show ?thesis using f assms(2) by (auto simp: subset_result_def)
  qed
next
  case False
  then show ?thesis using assms(1) by (auto simp: subset_result_def)
qed

lemma subset_items_ok:
  "dep_wf i \<Longrightarrow> subset_result alt (reached_flags_ok (cond_holds uselist mode) i)
     (picked wanted (cond_holds uselist mode) alt sel i) (subset_item wanted uselist mode alt sel i)"
  "list_all dep_wf is \<Longrightarrow> subset_result alt (list_all (reached_flags_ok (cond_holds uselist mode)) is)
     (concat (map (picked wanted (cond_holds uselist mode) alt sel) is))
     (subset_items wanted uselist mode alt sel is)"
proof (induction i and "is" arbitrary: alt sel and alt sel rule: dep_items_induct)
  case (Atom t)
  then show ?case by (auto simp: subset_result_def frame_ok_def atom_ok_def reserved_def)
next
  case (Group "is")
  then show ?case using subset_map [OF Group.IH [of False sel]] flat_nodes_ne
    by (auto simp: frame_ok_def intro!: subset_map [OF Group.IH [of False sel]])
next
  case (Any "is")
  define k where "k = concat (map (picked wanted (cond_holds uselist mode) True sel) is)"
  have k: "f = [] \<longleftrightarrow> k = []" if "frame_ok True f" "flat_nodes f = k" for f
    using flat_nodes_ne [of f] that by (simp only: frame_ok_def)
  have IH: "subset_result True (list_all (reached_flags_ok (cond_holds uselist mode)) is) k
      (subset_items wanted uselist mode True sel is)"
    unfolding k_def using Any by simp
  show ?case
    unfolding picked.simps k_def [symmetric] subset_item.simps reached_flags_ok.simps Let_def
    by (rule subset_map [OF IH]) (use k in \<open>auto simp: frame_ok_def\<close>)
next
  case (Cond c "is")
  show ?case
  proof (cases "useflag_matches (cond_flag c) \<and> cond_holds uselist mode c")
    case True
    then show ?thesis using Cond.prems flat_nodes_ne
      by (auto simp: frame_ok_def is_active_question
          intro!: subset_map [OF Cond.IH [of False "sel \<or> butlast c \<in> wanted"]])
  next
    case False
    then show ?thesis using Cond.prems
      by (auto simp: subset_result_def frame_ok_def is_active_question)
  qed
next
  case Nil
  then show ?case by (simp add: subset_result_def frame_ok_def)
next
  case (Cons i "is")
  then show ?case using subset_append [OF Cons.IH(1) [of alt sel] Cons.IH(2) [of alt sel]] by simp
qed

text \<open>
  \<open>use_reduce_flat_subset\<close> succeeds exactly on well-formed dependency strings in which the
  conditionals that are reached have valid flags, and returns the atoms that stand under a
  wanted active conditional and under active conditionals only. Its second pass never fails: what
  the first one leaves is well-formed, so the errors about conditionals and any-of operators
  without a group cannot occur.
\<close>

theorem use_reduce_flat_subset_iff:
  "use_reduce_flat_subset ts uselist mode wanted = Ok out \<longleftrightarrow>
    (\<exists>is. ts = deps_tokens is \<and> list_all dep_wf is \<and>
       list_all (reached_flags_ok (cond_holds uselist mode)) is \<and>
       out = concat (map (picked wanted (cond_holds uselist mode) False False) is))"
proof -
  have "out_bind (select_subset wanted uselist mode False False (deps_nodes is))
      (\<lambda>filtered. use_reduce_flat (serialize_dep_tree filtered) uselist mode) = Ok out \<longleftrightarrow>
    list_all (reached_flags_ok (cond_holds uselist mode)) is \<and>
      out = concat (map (picked wanted (cond_holds uselist mode) False False) is)"
    if wf: "list_all dep_wf is" for "is"
    using subset_items_ok(2) [OF wf, of False uselist mode wanted False] reduce_nodes_ok
    by (auto simp: select_subset_items(2) [OF wf] subset_result_def frame_ok_def split: if_splits)
  then show ?thesis
    unfolding use_reduce_flat_subset_def out_bind_Ok_iff [of "build_dep_tree ts"]
    by (auto simp: build_dep_tree_items simp del: out_bind_Ok_iff)
qed

end
