(* ===== verification/DepChoice.thy ===== *)
theory DepChoice
  imports DepSubset
begin

text \<open>
  The choice of one alternative of each any-of group (\<open>use_reduce_flat_disjunctive\<close>) on well-formed
  strings: what it returns, as a relation on the items; that it ends in a result when empty groups are not
  taken to be true; when it rejects the string otherwise; what it makes of any-of groups inside any-of
  groups; and that no entry point of the module panics.
\<close>

section \<open>The walk on the items\<close>

lemma resolve_eqs:
  "resolve_loop ul mode at tb pr [] s = Ok ([], [], s)"
  "resolve_loop ul mode at tb pr (Group g # rest) s =
     out_bind (resolve_loop ul mode at tb pr g s) (\<lambda>(r, d, s).
     out_bind (resolve_loop ul mode at tb pr rest s) (\<lambda>(result, deferred, s).
       Ok (Group (r @ d) # result, deferred, s)))"
  "ends_with_char c CHR ''?'' \<Longrightarrow> resolve_loop ul mode at tb pr (Str c # Group g # rest) s =
     out_bind (resolve_loop ul mode at tb pr g s) (\<lambda>(r, d, s).
     out_bind (resolve_loop ul mode at tb pr rest s) (\<lambda>(result, deferred, s).
       Ok (Str c # Group (r @ d) # result, deferred, s)))"
  "t \<noteq> ''||'' \<Longrightarrow> \<not> ends_with_char t CHR ''?'' \<Longrightarrow> resolve_loop ul mode at tb pr (Str t # rest) s =
     out_bind (resolve_loop ul mode at tb pr rest s) (\<lambda>(result, deferred, s).
       Ok (Str t # result, deferred, s))"
  by (subst resolve_loop.simps; simp del: out_bind_Ok_iff)+

lemma resolve_any:
  "resolve_loop ul mode at tb pr (Str ''||'' # Group alts # rest) s =
     out_bind (rank_alternatives ul mode pr alts s) (\<lambda>(ranked, s).
       if ranked = [] then
         out_bind (resolve_loop ul mode at tb pr rest s) (\<lambda>(result, deferred, s).
           Ok (result, (if \<not> at then [Str empty_any_of] else []) @ deferred, s))
       else
         out_bind (choose_alternative tb ranked s) (\<lambda>(chosen, s).
           case chosen of
             Some alt_nodes \<Rightarrow>
               out_bind (resolve_loop ul mode at tb pr alt_nodes s) (\<lambda>(r, d, s).
               out_bind (resolve_loop ul mode at tb pr rest s) (\<lambda>(result, deferred, s).
                 Ok (result, r @ d @ deferred, s)))
           | None \<Rightarrow>
               out_bind (resolve_loop ul mode at tb pr rest s) (\<lambda>(result, deferred, s).
                 Ok (Str ''||'' # Group alts # result, deferred, s))))"
  by (subst resolve_loop.simps) (simp del: out_bind_Ok_iff)

text \<open>An any-of group that is itself an alternative is read without its operator.\<close>

fun alt_item :: "dep_item \<Rightarrow> dep_item" where
  "alt_item (DAny is) = DGroup is"
| "alt_item i = i"

lemma alt_item_wf: "dep_wf i \<Longrightarrow> dep_wf (alt_item i)"
  by (cases i) auto

lemma alt_item_flags: "flags_ok ok [i] \<Longrightarrow> flags_ok ok [alt_item i]"
  by (cases i) auto

lemma flags_ok_mem: "flags_ok ok is \<Longrightarrow> i \<in> set is \<Longrightarrow> flags_ok ok [i]"
  by (auto simp: flags_ok_def list_all_iff)

text \<open>The alternatives with what they reduce to, ranked in order; those that reduce to nothing are left out.\<close>

fun rank_items ::
  "(string \<Rightarrow> bool) \<Rightarrow> 's alt_probe \<Rightarrow> dep_item list \<Rightarrow> 's \<Rightarrow> ranked_alt list \<times> 's" where
  "rank_items active probe [] s = ([], s)"
| "rank_items active probe (i # is) s =
     (let flat = reduce active (alt_item i)
      in if flat = [] then rank_items active probe is s
         else (let (rank, s) = probe flat s; (ranked, s) = rank_items active probe is s
               in ((rank, dep_nodes (alt_item i), flat) # ranked, s)))"

lemma lone_any: "use_reduce_flat [''||''] ul mode = Err MissingOpenParen"
  by (simp add: use_reduce_flat_def walk_flat_def del: out_bind_Ok_iff)

lemma rank_step:
  assumes "next_alternative ns = Some (Ok (dep_nodes i, rest))" "dep_wf i" "flags_ok useflag_matches [i]"
  shows "rank_alternatives ul mode pr ns s =
    (let flat = reduce (cond_holds ul mode) i
     in if flat = [] then rank_alternatives ul mode pr rest s
        else (let (rank, s) = pr flat s in
              out_bind (rank_alternatives ul mode pr rest s) (\<lambda>(ranked, s).
                Ok ((rank, dep_nodes i, flat) # ranked, s))))"
  using use_reduce_flat_items [of "[i]" ul mode] assms
  by (subst rank_alternatives.simps) (simp add: serialize_items Let_def)

lemma rank_skip_any:
  "rank_alternatives ul mode pr (Str ''||'' # ns) s = rank_alternatives ul mode pr ns s"
  by (subst rank_alternatives.simps) (simp add: next_alternative_def lone_any)

lemma next_alternative_item:
  "dep_wf i \<Longrightarrow> (\<nexists>is. i = DAny is) \<Longrightarrow> next_alternative (dep_nodes i @ ns) = Some (Ok (dep_nodes i, ns))"
  by (cases i) (auto simp: next_alternative_def)

lemma rank_alternatives_items:
  "list_all dep_wf is \<Longrightarrow> flags_ok useflag_matches is \<Longrightarrow>
   rank_alternatives ul mode pr (deps_nodes is) s = Ok (rank_items (cond_holds ul mode) pr is s)"
proof (induction "is" arbitrary: s)
  case Nil
  then show ?case by (simp add: rank_alternatives.simps next_alternative_def)
next
  case (Cons i "is")
  have flags: "flags_ok useflag_matches [alt_item i]" "flags_ok useflag_matches is"
    using Cons.prems(2) flags_ok_Cons alt_item_flags by blast+
  have wf: "dep_wf (alt_item i)" using Cons.prems(1) alt_item_wf by simp
  have "rank_alternatives ul mode pr (deps_nodes (i # is)) s =
    rank_alternatives ul mode pr (dep_nodes (alt_item i) @ deps_nodes is) s"
    by (cases i) (simp_all add: rank_skip_any)
  moreover have "\<nexists>js. alt_item i = DAny js" by (cases i) auto
  note step = rank_step [OF next_alternative_item [OF wf this] wf flags(1)]
  ultimately show ?case
    using Cons.IH [OF _ flags(2)] Cons.prems(1)
    by (simp add: step Let_def split: prod.split)
qed

lemma rank_items_set:
  "(r, ns, flat) \<in> set (fst (rank_items active pr is s)) \<Longrightarrow>
   \<exists>i \<in> set is. ns = dep_nodes (alt_item i) \<and> flat = reduce active (alt_item i) \<and> flat \<noteq> []"
proof (induction "is" arbitrary: s)
  case (Cons i "is")
  obtain rank s1 where "pr (reduce active (alt_item i)) s = (rank, s1)" by fastforce
  moreover obtain ranked s2 where "rank_items active pr is s1 = (ranked, s2)" by fastforce
  ultimately show ?case using Cons.prems Cons.IH [of s] Cons.IH [of s1]
    by (auto simp: Let_def split: if_splits)
qed simp

section \<open>What the walk returns\<close>

text \<open>The alternatives that the conditionals leave.\<close>

definition live_alts :: "(string \<Rightarrow> bool) \<Rightarrow> dep_item list \<Rightarrow> dep_item list" where
  "live_alts active is = filter (\<lambda>i. reduce active i \<noteq> []) is"

text \<open>
  The plain and the deferred items of a list. \<open>pick\<close> says which alternatives may be chosen and \<open>keep\<close> when
  a group may stay, for the alternatives of the group read without their operators.
\<close>

inductive resolves ::
  "(dep_item list \<Rightarrow> dep_item \<Rightarrow> bool) \<Rightarrow> (dep_item list \<Rightarrow> bool) \<Rightarrow> (string \<Rightarrow> bool) \<Rightarrow> bool \<Rightarrow>
   dep_item list \<Rightarrow> dep_item list \<Rightarrow> dep_item list \<Rightarrow> bool"
  for pick keep active at where
  res_nil: "resolves pick keep active at [] [] []"
| res_atom: "resolves pick keep active at is p d \<Longrightarrow> resolves pick keep active at (DAtom t # is) (DAtom t # p) d"
| res_group: "resolves pick keep active at gs q e \<Longrightarrow> resolves pick keep active at is p d \<Longrightarrow>
    resolves pick keep active at (DGroup gs # is) (DGroup (q @ e) # p) d"
| res_cond: "resolves pick keep active at gs q e \<Longrightarrow> resolves pick keep active at is p d \<Longrightarrow>
    resolves pick keep active at (DCond c gs # is) (DCond c (q @ e) # p) d"
| res_dead: "live_alts active (map alt_item alts) = [] \<Longrightarrow> resolves pick keep active at is p d \<Longrightarrow>
    resolves pick keep active at (DAny alts # is) p ((if at then [] else [DAtom empty_any_of]) @ d)"
| res_kept: "live_alts active (map alt_item alts) \<noteq> [] \<Longrightarrow> keep (map alt_item alts) \<Longrightarrow>
    resolves pick keep active at is p d \<Longrightarrow> resolves pick keep active at (DAny alts # is) (DAny alts # p) d"
| res_chosen: "live_alts active (map alt_item alts) \<noteq> [] \<Longrightarrow> a \<in> alt_item ` set alts \<Longrightarrow> pick (map alt_item alts) a \<Longrightarrow>
    resolves pick keep active at [a] q e \<Longrightarrow> resolves pick keep active at is p d \<Longrightarrow>
    resolves pick keep active at (DAny alts # is) p (q @ e @ d)"

inductive_simps resolves_simps:
  "resolves pick keep active at [] p d"
  "resolves pick keep active at (DAtom t # is) p d"
  "resolves pick keep active at (DGroup gs # is) p d"
  "resolves pick keep active at (DCond c gs # is) p d"
inductive_cases resolves_anyE: "resolves pick keep active at (DAny alts # is) p d"

text \<open>Well-formed but for groups without items.\<close>

fun loose_wf :: "dep_item \<Rightarrow> bool" where
  "loose_wf (DAtom t) \<longleftrightarrow> t \<notin> reserved \<and> \<not> ends_with_char t CHR ''?''"
| "loose_wf (DGroup is) \<longleftrightarrow> list_all loose_wf is"
| "loose_wf (DAny is) \<longleftrightarrow> list_all loose_wf is"
| "loose_wf (DCond c is) \<longleftrightarrow> ends_with_char c CHR ''?'' \<and> list_all loose_wf is"

fun hollow :: "dep_item \<Rightarrow> bool" where
  "hollow (DAtom t) \<longleftrightarrow> False"
| "hollow (DGroup is) \<longleftrightarrow> is = [] \<or> list_ex hollow is"
| "hollow (DAny is) \<longleftrightarrow> is = [] \<or> list_ex hollow is"
| "hollow (DCond c is) \<longleftrightarrow> is = [] \<or> list_ex hollow is"

lemma dep_wf_loose: "dep_wf i \<longleftrightarrow> loose_wf i \<and> \<not> hollow i"
  by (induction i) (auto simp: list_all_iff list_ex_iff)

lemma deps_wf_loose: "list_all dep_wf is \<longleftrightarrow> list_all loose_wf is \<and> \<not> list_ex hollow is"
  by (auto simp: dep_wf_loose list_all_iff list_ex_iff)

lemma placeholder_wf: "dep_wf (DAtom empty_any_of)"
  using empty_any_of_ok(1) by (simp only: atom_ok_def)

lemma resolves_wf:
  "resolves pick keep active at is p d \<Longrightarrow> list_all dep_wf is \<Longrightarrow> flags_ok useflag_matches is \<Longrightarrow>
     list_all loose_wf (p @ d) \<and> flags_ok useflag_matches (p @ d) \<and>
     (\<not> at \<longrightarrow> \<not> list_ex hollow (p @ d) \<and> (is \<noteq> [] \<longrightarrow> p @ d \<noteq> []))"
proof (induction rule: resolves.induct)
  case (res_dead alts "is" p d)
  have "loose_wf (DAtom empty_any_of)" using placeholder_wf by (simp add: dep_wf_loose)
  then show ?case using res_dead by (auto simp: flags_ok_append)
next
  case (res_kept alts "is" p d)
  then show ?case using dep_wf_loose [of "DAny alts"] by (auto simp: flags_ok_append)
next
  case (res_chosen alts a q e "is" p d)
  obtain i where i: "i \<in> set alts" "a = alt_item i" using res_chosen.hyps(2) by auto
  have "dep_wf a" "flags_ok useflag_matches [a]"
    using res_chosen.prems i alt_item_wf [of i] alt_item_flags flags_ok_mem [of _ alts i] by (auto simp: list_all_iff)
  then show ?case using res_chosen by (auto simp: flags_ok_append)
qed (auto simp: flags_ok_append)

lemma rank_items_live: "fst (rank_items active pr is s) = [] \<longleftrightarrow> live_alts active (map alt_item is) = []"
  by (induction "is" arbitrary: s) (auto simp: live_alts_def Let_def split: prod.split)

lemma alt_item_size: "size (alt_item i) \<le> size i"
  by (cases i) auto

text \<open>The law of a choice: what the ranking of a group allows.\<close>

definition choice_law ::
  "(string \<Rightarrow> bool) \<Rightarrow> 's alt_probe \<Rightarrow> (dep_item list \<Rightarrow> dep_item \<Rightarrow> bool) \<Rightarrow> (dep_item list \<Rightarrow> bool) \<Rightarrow> bool" where
  "choice_law active pr pick keep \<longleftrightarrow>
     (\<forall>alts s. let ranked = fst (rank_items active pr alts s) in
        (ranked \<noteq> [] \<and> eligible ranked = [] \<longrightarrow> keep (map alt_item alts)) \<and>
        (\<forall>n flat. (Max (fst ` set (eligible ranked)), n, flat) \<in> set (eligible ranked) \<longrightarrow>
           (\<exists>a \<in> alt_item ` set alts. n = dep_nodes a \<and> pick (map alt_item alts) a)))"

lemma resolve_items:
  assumes "choice_law (cond_holds ul mode) pr pick keep"
  shows "list_all dep_wf is \<Longrightarrow> flags_ok useflag_matches is \<Longrightarrow>
    \<exists>p d s'. resolve_loop ul mode at tb pr (deps_nodes is) s = Ok (deps_nodes p, deps_nodes d, s') \<and>
      resolves pick keep (cond_holds ul mode) at is p d"
proof (induction "size_list size is" arbitrary: "is" s rule: less_induct)
  case less
  let ?active = "cond_holds ul mode"
  show ?case
  proof (cases "is")
    case Nil
    then show ?thesis by (auto simp: resolve_eqs intro!: exI [of _ "[]"] res_nil)
  next
    case (Cons i rest)
    have sub: "\<exists>p d s'. resolve_loop ul mode at tb pr (deps_nodes js) s = Ok (deps_nodes p, deps_nodes d, s') \<and>
        resolves pick keep ?active at js p d"
      if "size_list size js < size_list size is" "list_all dep_wf js" "flags_ok useflag_matches js" for js s
      using less.hyps [OF that] .
    have rest: "\<exists>p d s'. resolve_loop ul mode at tb pr (deps_nodes rest) s = Ok (deps_nodes p, deps_nodes d, s') \<and>
        resolves pick keep ?active at rest p d" for s
      using sub [of rest s] less.prems Cons flags_ok_Cons [of _ i rest] by auto
    show ?thesis
    proof (cases i)
      case (DAtom t)
      obtain p d s1 where r: "resolve_loop ul mode at tb pr (deps_nodes rest) s = Ok (deps_nodes p, deps_nodes d, s1)"
        "resolves pick keep ?active at rest p d" using rest by blast
      have "resolve_loop ul mode at tb pr (deps_nodes is) s = Ok (deps_nodes (DAtom t # p), deps_nodes d, s1)"
        using r(1) less.prems(1) by (simp add: Cons DAtom resolve_eqs(4) reserved_def del: out_bind_Ok_iff)
      then show ?thesis using res_atom [OF r(2)] unfolding Cons DAtom by blast
    next
      case (DGroup gs)
      obtain q e s0 where g: "resolve_loop ul mode at tb pr (deps_nodes gs) s = Ok (deps_nodes q, deps_nodes e, s0)"
        "resolves pick keep ?active at gs q e"
        using sub [of gs s] less.prems by (auto simp: Cons DGroup)
      obtain p d s1 where r: "resolve_loop ul mode at tb pr (deps_nodes rest) s0 = Ok (deps_nodes p, deps_nodes d, s1)"
        "resolves pick keep ?active at rest p d" using rest by blast
      have "resolve_loop ul mode at tb pr (deps_nodes is) s = Ok (deps_nodes (DGroup (q @ e) # p), deps_nodes d, s1)"
        using g(1) r(1) by (simp add: Cons DGroup resolve_eqs(2) del: out_bind_Ok_iff)
      then show ?thesis using res_group [OF g(2) r(2)] unfolding Cons DGroup by blast
    next
      case (DCond c gs)
      obtain q e s0 where g: "resolve_loop ul mode at tb pr (deps_nodes gs) s = Ok (deps_nodes q, deps_nodes e, s0)"
        "resolves pick keep ?active at gs q e"
        using sub [of gs s] less.prems by (auto simp: Cons DCond)
      obtain p d s1 where r: "resolve_loop ul mode at tb pr (deps_nodes rest) s0 = Ok (deps_nodes p, deps_nodes d, s1)"
        "resolves pick keep ?active at rest p d" using rest by blast
      have "resolve_loop ul mode at tb pr (deps_nodes is) s = Ok (deps_nodes (DCond c (q @ e) # p), deps_nodes d, s1)"
        using g(1) r(1) less.prems(1) by (simp add: Cons DCond resolve_eqs(3) del: out_bind_Ok_iff)
      then show ?thesis using res_cond [OF g(2) r(2)] unfolding Cons DCond by blast
    next
      case (DAny alts)
      have alts: "list_all dep_wf alts" "flags_ok useflag_matches alts" using less.prems by (auto simp: Cons DAny)
      obtain ranked s0 where rk: "rank_items ?active pr alts s = (ranked, s0)" by fastforce
      note eq = resolve_any [of ul mode at tb pr "deps_nodes alts" "deps_nodes rest" s,
          unfolded rank_alternatives_items [OF alts, of ul mode pr s, unfolded rk]]
      have nodes: "deps_nodes is = Str ''||'' # Group (deps_nodes alts) # deps_nodes rest" by (simp add: Cons DAny)
      have live: "ranked = [] \<longleftrightarrow> live_alts ?active (map alt_item alts) = []"
        using rank_items_live [of ?active pr alts s] rk by simp
      have law: "ranked \<noteq> [] \<Longrightarrow> eligible ranked = [] \<Longrightarrow> keep (map alt_item alts)"
        "\<And>n flat. (Max (fst ` set (eligible ranked)), n, flat) \<in> set (eligible ranked) \<Longrightarrow>
          \<exists>a \<in> alt_item ` set alts. n = dep_nodes a \<and> pick (map alt_item alts) a"
        using assms [unfolded choice_law_def Let_def, rule_format, of alts s] rk by auto
      show ?thesis
      proof (cases "ranked = []")
        case True
        obtain p d s1 where r: "resolve_loop ul mode at tb pr (deps_nodes rest) s0 = Ok (deps_nodes p, deps_nodes d, s1)"
          "resolves pick keep ?active at rest p d" using rest by blast
        have "resolve_loop ul mode at tb pr (deps_nodes is) s =
            Ok (deps_nodes p, deps_nodes ((if at then [] else [DAtom empty_any_of]) @ d), s1)"
          using True r(1) unfolding nodes eq by (simp del: out_bind_Ok_iff)
        then show ?thesis using res_dead [OF live [THEN iffD1, OF True] r(2)] unfolding Cons DAny by blast
      next
        case False
        show ?thesis
        proof (rule choose_alternative_cases [of ranked tb s0])
          assume none: "eligible ranked = []" "choose_alternative tb ranked s0 = Ok (None, s0)"
          obtain p d s1 where r: "resolve_loop ul mode at tb pr (deps_nodes rest) s0 = Ok (deps_nodes p, deps_nodes d, s1)"
            "resolves pick keep ?active at rest p d" using rest by blast
          have "resolve_loop ul mode at tb pr (deps_nodes is) s = Ok (deps_nodes (DAny alts # p), deps_nodes d, s1)"
            using False none(2) r(1) unfolding nodes eq by (simp del: out_bind_Ok_iff)
          then show ?thesis using res_kept [OF _ law(1) [OF False none(1)] r(2)] live False unfolding Cons DAny by blast
        next
          fix n flat s1
          assume some: "eligible ranked \<noteq> []" "choose_alternative tb ranked s0 = Ok (Some n, s1)"
            and best: "(Max (fst ` set (eligible ranked)), n, flat) \<in> set (eligible ranked)"
          obtain i where a: "i \<in> set alts" "n = dep_nodes (alt_item i)" "pick (map alt_item alts) (alt_item i)"
            using law(2) [OF best] by blast
          have "size (alt_item i) \<le> size_list size alts"
            using alt_item_size [of i] size_list_estimation' [OF a(1), of "size i" size] by simp
          then have "size_list size [alt_item i] < size_list size is" by (simp add: Cons DAny)
          moreover have "list_all dep_wf [alt_item i]" "flags_ok useflag_matches [alt_item i]"
            using a(1) alts(1) alt_item_wf alt_item_flags flags_ok_mem [OF alts(2) a(1)] by (auto simp: list_all_iff)
          ultimately obtain q e s2 where g: "resolve_loop ul mode at tb pr n s1 = Ok (deps_nodes q, deps_nodes e, s2)"
            "resolves pick keep ?active at [alt_item i] q e"
            using sub [of "[alt_item i]" s1] a(2) by auto
          obtain p d s3 where r: "resolve_loop ul mode at tb pr (deps_nodes rest) s2 = Ok (deps_nodes p, deps_nodes d, s3)"
            "resolves pick keep ?active at rest p d" using rest by blast
          have "resolve_loop ul mode at tb pr (deps_nodes is) s = Ok (deps_nodes p, deps_nodes (q @ e @ d), s3)"
            using False some(2) g(1) r(1) unfolding nodes eq by (simp del: out_bind_Ok_iff)
          then show ?thesis using res_chosen [OF _ _ a(3) g(2) r(2)] live False a(1) unfolding Cons DAny by blast
        qed
      qed
    qed
  qed
qed

section \<open>The second pass\<close>

text \<open>An empty group is a pair of parentheses without anything between; no well-formed string has one.\<close>

definition no_empty_pair :: "string list \<Rightarrow> bool" where
  "no_empty_pair ts = successively (\<lambda>a b. \<not> (a = ''('' \<and> b = '')'')) ts"

lemma wf_no_pair:
  "dep_wf i \<Longrightarrow> no_empty_pair (dep_tokens i) \<and> dep_tokens i \<noteq> [] \<and> hd (dep_tokens i) \<noteq> '')'' \<and> last (dep_tokens i) \<noteq> ''(''"
  "list_all dep_wf is \<Longrightarrow> no_empty_pair (deps_tokens is) \<and>
     (is \<noteq> [] \<longrightarrow> deps_tokens is \<noteq> [] \<and> hd (deps_tokens is) \<noteq> '')'' \<and> last (deps_tokens is) \<noteq> ''('')"
proof (induction i and "is" rule: dep_items_induct)
  case (Cons i "is")
  then show ?case
    by (cases "is = []") (auto simp: no_empty_pair_def successively_append_iff)
qed (auto simp: no_empty_pair_def reserved_def successively_Cons successively_append_iff ends_with_char_def)

lemma hollow_pair:
  "hollow i \<Longrightarrow> \<not> no_empty_pair (dep_tokens i)"
  "list_ex hollow is \<Longrightarrow> \<not> no_empty_pair (deps_tokens is)"
proof (induction i and "is" rule: dep_items_induct)
  case (Cons i "is")
  then show ?case by (auto simp: no_empty_pair_def successively_append_iff)
qed (auto simp: no_empty_pair_def successively_Cons successively_append_iff)

lemma is_active_safe: "ends_with_char c CHR ''?'' \<Longrightarrow> is_active c ul mode \<noteq> Panicked"
  by (simp add: is_active_question)

lemma flat_close_safe:
  assumes "\<And>c. ends_with_char c CHR ''?'' \<Longrightarrow> cond c \<noteq> Panicked" "length st \<ge> 2"
  shows "flat_close cond st \<noteq> Panicked"
proof -
  obtain l f fs where "st = l # f # fs"
    using assms(2) by (cases st; cases "tl st") auto
  then show ?thesis using assms(1) by (auto simp: flat_close_def out_bind_Panicked_iff)
qed

lemma walk_flat_safe:
  assumes "\<And>c. ends_with_char c CHR ''?'' \<Longrightarrow> cond c \<noteq> Panicked"
  shows "walk_flat cond hook s ts \<noteq> Panicked"
  unfolding walk_flat_def
proof (rule flat.run_safe)
  fix st :: "string list list \<times> 'a"
  assume "2 \<le> (case st of (stack, s) \<Rightarrow> length stack)"
  then show "(case st of (stack, s) \<Rightarrow> out_bind (flat_close cond stack) (\<lambda>stack. Ok (stack, s))) \<noteq> Panicked"
    using flat_close_safe [OF assms] by (cases st) (auto simp: out_bind_Panicked_iff)
next
  fix t pos and st :: "string list list \<times> 'a"
  assume "1 \<le> (case st of (stack, s) \<Rightarrow> length stack)"
  then show "flat_atom hook t pos st \<noteq> Panicked"
    by (cases st)
      (auto simp: flat_atom_def push_last_def out_bind_Panicked_iff split: option.splits sum.splits list.splits)
qed simp

lemma use_reduce_flat_safe: "use_reduce_flat ts ul mode \<noteq> Panicked"
  using walk_flat_safe [of "\<lambda>c. is_active c ul mode" None "()" ts] is_active_safe
  by (auto simp: use_reduce_flat_def out_bind_Panicked_iff)

lemma flat_of_loose:
  assumes "list_all loose_wf is" "flags_ok useflag_matches is"
  shows "if list_ex hollow is then \<exists>e. use_reduce_flat (deps_tokens is) ul mode = Err e
    else use_reduce_flat (deps_tokens is) ul mode = Ok (concat (map (reduce (cond_holds ul mode)) is))"
proof (cases "list_ex hollow is")
  case True
  have "use_reduce_flat (deps_tokens is) ul mode \<noteq> Ok out" for out
  proof
    assume "use_reduce_flat (deps_tokens is) ul mode = Ok out"
    then obtain js where "deps_tokens is = deps_tokens js" "list_all dep_wf js"
      unfolding use_reduce_flat_value by blast
    then show False using wf_no_pair(2) [of js] hollow_pair(2) [OF True] by simp
  qed
  then show ?thesis using True use_reduce_flat_safe [of "deps_tokens is" ul mode]
    by (cases "use_reduce_flat (deps_tokens is) ul mode") auto
next
  case False
  then have "list_all dep_wf is" using assms(1) deps_wf_loose by blast
  then show ?thesis using use_reduce_flat_items [OF _ assms(2)] False by simp
qed

lemma disjunctive_items:
  assumes "list_all dep_wf is"
    and "resolve_loop ul mode at tb pr (deps_nodes is) s = Ok (deps_nodes p, deps_nodes d, s')"
  shows "use_reduce_flat_disjunctive (deps_tokens is) ul mode at tb pr s =
    out_bind (use_reduce_flat (deps_tokens (p @ d)) ul mode) (\<lambda>out. Ok (out, s'))"
proof -
  have "build_dep_tree (deps_tokens is) = Ok (deps_nodes is)" using assms(1) build_dep_tree_items by blast
  then show ?thesis
    using assms(2) serialize_items(2) [of "p @ d"]
    by (simp add: use_reduce_flat_disjunctive_def resolve_disjunctions_def del: out_bind_Ok_iff)
qed

lemma disjunctive_resolves:
  assumes "choice_law (cond_holds ul mode) pr pick keep" "list_all dep_wf is" "flags_ok useflag_matches is"
  obtains p d where "resolves pick keep (cond_holds ul mode) at is p d"
    "if list_ex hollow (p @ d) then \<exists>e. use_reduce_flat_disjunctive (deps_tokens is) ul mode at tb pr s = Err e
     else \<exists>s'. use_reduce_flat_disjunctive (deps_tokens is) ul mode at tb pr s =
       Ok (concat (map (reduce (cond_holds ul mode)) (p @ d)), s')"
    "\<not> at \<longrightarrow> \<not> list_ex hollow (p @ d)"
proof -
  obtain p d s' where r: "resolve_loop ul mode at tb pr (deps_nodes is) s = Ok (deps_nodes p, deps_nodes d, s')"
    "resolves pick keep (cond_holds ul mode) at is p d"
    using resolve_items [OF assms] by blast
  have w: "list_all loose_wf (p @ d)" "flags_ok useflag_matches (p @ d)" "\<not> at \<longrightarrow> \<not> list_ex hollow (p @ d)"
    using resolves_wf [OF r(2) assms(2,3)] by blast+
  show thesis
    using that [OF r(2) _ w(3)] flat_of_loose [OF w(1,2), of ul mode] unfolding disjunctive_items [OF assms(2) r(1)]
    by (auto split: if_splits)
qed

text \<open>The law without a condition on the probe.\<close>

lemma choice_law_any: "choice_law active pr (\<lambda>_ _. True) (\<lambda>_. True)"
  unfolding choice_law_def Let_def
proof (intro allI conjI impI)
  fix alts s n flat
  assume "(Max (fst ` set (eligible (fst (rank_items active pr alts s)))), n, flat) \<in>
    set (eligible (fst (rank_items active pr alts s)))"
  from rank_items_set [OF eligible_ranked [OF this]]
  show "\<exists>a \<in> alt_item ` set alts. n = dep_nodes a \<and> True" by auto
qed simp

text \<open>
  When empty groups are not taken to be true, \<open>use_reduce_flat_disjunctive\<close> returns a result for
  every well-formed dependency string with valid flags, whatever the probe answers and however
  ties are broken. No choice makes a group empty, no index is out of range, and the errors about
  conditionals and operators without a group cannot occur.
\<close>

theorem disjunctive_total:
  assumes "list_all dep_wf is" "flags_ok useflag_matches is"
  shows "\<exists>out s'. use_reduce_flat_disjunctive (deps_tokens is) ul mode False tb pr s = Ok (out, s')"
  by (rule disjunctive_resolves [OF choice_law_any assms, where at = False and tb = tb and s = s]) auto

theorem disjunctive_total_witness:
  "\<exists>out s'. use_reduce_flat_disjunctive (split_whitespace ''y? ( || ( x? ( a ) ) ) || ( || ( b c ) d )'')
     {''y''} Normal False (\<lambda>alts s. (Suc 0, s)) (\<lambda>atoms s. (Available, Suc s)) (0 :: nat) = Ok (out, s')"
proof -
  let ?is = "[DCond ''y?'' [DAny [DCond ''x?'' [DAtom ''a'']]],
    DAny [DAny [DAtom ''b'', DAtom ''c''], DAtom ''d'']]"
  have "split_whitespace ''y? ( || ( x? ( a ) ) ) || ( || ( b c ) d )'' = deps_tokens ?is" by code_simp
  moreover have "list_all dep_wf ?is" "flags_ok useflag_matches ?is" by code_simp+
  ultimately show ?thesis
    using disjunctive_total [of ?is "{''y''}" Normal "\<lambda>alts s. (Suc 0, s)" "\<lambda>atoms s. (Available, Suc s)" 0]
    by simp
qed

section \<open>Which alternative is chosen\<close>

text \<open>Of the alternatives that are left, the ones that the two passes consider.\<close>

definition candidates ::
  "(string list \<Rightarrow> alt_preference) \<Rightarrow> (string \<Rightarrow> bool) \<Rightarrow> dep_item list \<Rightarrow> dep_item list" where
  "candidates rank active is =
     (let live = live_alts active is; sel = filter (\<lambda>i. is_selectable (rank (reduce active i))) live
      in if sel \<noteq> [] then sel else filter (\<lambda>i. rank (reduce active i) \<noteq> Unsatisfiable) live)"

definition best_candidate ::
  "(string list \<Rightarrow> alt_preference) \<Rightarrow> (string \<Rightarrow> bool) \<Rightarrow> dep_item list \<Rightarrow> dep_item \<Rightarrow> bool" where
  "best_candidate rank active is a \<longleftrightarrow>
     a \<in> set (candidates rank active is) \<and>
     (\<forall>b \<in> set (candidates rank active is). rank (reduce active b) \<le> rank (reduce active a))"

lemma rank_items_pure:
  assumes "\<And>atoms s. fst (pr atoms s) = rank atoms"
  shows "fst (rank_items active pr is s) =
    map (\<lambda>i. (rank (reduce active i), dep_nodes i, reduce active i)) (live_alts active (map alt_item is))"
proof (induction "is" arbitrary: s)
  case (Cons i "is")
  obtain r s1 where p: "pr (reduce active (alt_item i)) s = (r, s1)" by fastforce
  then have "r = rank (reduce active (alt_item i))" using assms [of "reduce active (alt_item i)" s] by simp
  moreover obtain ranked s2 where "rank_items active pr is s1 = (ranked, s2)" by fastforce
  ultimately show ?case using Cons.IH [of s] Cons.IH [of s1] p
    by (simp add: Let_def live_alts_def)
qed (simp add: live_alts_def)

lemma eligible_map:
  "eligible (map (\<lambda>i. (rank (reduce active i), dep_nodes i, reduce active i)) (live_alts active is)) =
     map (\<lambda>i. (rank (reduce active i), dep_nodes i, reduce active i)) (candidates rank active is)"
  by (simp add: eligible_def candidates_def filter_map o_def Let_def)

lemma choice_law_pure:
  assumes "\<And>atoms s. fst (pr atoms s) = rank atoms"
  shows "choice_law active pr (best_candidate rank active) (\<lambda>alts. candidates rank active alts = [])"
  unfolding choice_law_def Let_def rank_items_pure [where pr = pr and rank = rank, OF assms] eligible_map
proof (intro allI conjI impI)
  fix alts n flat
  let ?cands = "candidates rank active (map alt_item alts)"
  let ?entries = "set (map (\<lambda>i. (rank (reduce active i), dep_nodes i, reduce active i)) ?cands)"
  assume "(Max (fst ` ?entries), n, flat) \<in> ?entries"
  then obtain a where a: "a \<in> set ?cands" "n = dep_nodes a" "rank (reduce active a) = Max (fst ` ?entries)" by auto
  have "rank (reduce active b) \<le> rank (reduce active a)" if "b \<in> set ?cands" for b
    unfolding a(3) using that by (intro Max_ge) (auto simp: image_image)
  moreover have "a \<in> alt_item ` set alts"
    using a(1) by (auto simp: candidates_def live_alts_def Let_def split: if_splits)
  ultimately show "\<exists>a \<in> alt_item ` set alts. n = dep_nodes a \<and> best_candidate rank active (map alt_item alts) a"
    using a by (auto simp: best_candidate_def)
qed simp

text \<open>
  C5: what the choice makes of a well-formed string with valid flags, any-of groups nested in any way,
  when the rank that the probe gives depends on the atoms alone. An any-of group without an alternative
  left becomes nothing or the placeholder; one with candidates becomes a candidate of the highest rank,
  resolved in turn, where candidates are the alternatives of a selectable rank or, when there are none,
  those that are not \<open>Unsatisfiable\<close>; any other stays. An any-of group that is an alternative is read as
  an all-of group. The atoms that are left are returned, those of the chosen alternatives behind the
  others of their group, or an error when a group without items is left, which happens only when empty
  groups count as true.
\<close>

theorem disjunctive_choice:
  assumes "list_all dep_wf is" "flags_ok useflag_matches is" "\<And>atoms s. fst (pr atoms s) = rank atoms"
  shows "\<exists>p d. resolves (best_candidate rank (cond_holds ul mode)) (\<lambda>alts. candidates rank (cond_holds ul mode) alts = [])
      (cond_holds ul mode) at is p d \<and>
    (if list_ex hollow (p @ d) then at \<and> (\<exists>e. use_reduce_flat_disjunctive (deps_tokens is) ul mode at tb pr s = Err e)
     else \<exists>s'. use_reduce_flat_disjunctive (deps_tokens is) ul mode at tb pr s =
       Ok (concat (map (reduce (cond_holds ul mode)) (p @ d)), s'))"
  by (rule disjunctive_resolves [OF choice_law_pure [where pr = pr and rank = rank, OF assms(3)] assms(1,2),
        where at = at and tb = tb and s = s]) (auto split: if_splits)

theorem disjunctive_choice_witness:
  "\<exists>s'. use_reduce_flat_disjunctive (deps_tokens [DAtom ''x'', DAny [DAtom ''a'', DAny [DAtom ''b'', DAtom ''c'']], DAtom ''y''])
      {} Normal True (\<lambda>alts s. (0, s))
      (\<lambda>atoms s. (if atoms = [''a''] then OtherInstalled else Available, s)) () = Ok ([''x'', ''y'', ''b'', ''c''], s')"
proof -
  let ?is = "[DAtom ''x'', DAny [DAtom ''a'', DAny [DAtom ''b'', DAtom ''c'']], DAtom ''y'']"
  let ?rank = "\<lambda>atoms. if atoms = [''a''] then OtherInstalled else Available"
  let ?active = "cond_holds {} Normal"
  have ok: "list_all dep_wf ?is" "flags_ok useflag_matches ?is" by code_simp+
  have c: "candidates ?rank ?active [DAtom ''a'', DGroup [DAtom ''b'', DAtom ''c'']] = [DGroup [DAtom ''b'', DAtom ''c'']]"
    "live_alts ?active [DAtom ''a'', DGroup [DAtom ''b'', DAtom ''c'']] = [DAtom ''a'', DGroup [DAtom ''b'', DAtom ''c'']]"
    by (simp_all add: live_alts_def candidates_def is_selectable_def)
  obtain p d where r: "resolves (best_candidate ?rank ?active) (\<lambda>alts. candidates ?rank ?active alts = []) ?active True ?is p d"
    and out: "if list_ex hollow (p @ d) then True \<and> (\<exists>e. use_reduce_flat_disjunctive (deps_tokens ?is) {} Normal True
        (\<lambda>alts s. (0, s)) (\<lambda>atoms s. (?rank atoms, s)) () = Err e)
      else \<exists>s'. use_reduce_flat_disjunctive (deps_tokens ?is) {} Normal True (\<lambda>alts s. (0, s)) (\<lambda>atoms s. (?rank atoms, s)) () =
        Ok (concat (map (reduce ?active) (p @ d)), s')"
    using disjunctive_choice [OF ok, of "\<lambda>atoms s. (?rank atoms, s)" ?rank "{}" Normal True "\<lambda>alts s. (0, s)" "()"] by auto
  from r obtain p1 where p: "p = DAtom ''x'' # p1"
    and any: "resolves (best_candidate ?rank ?active) (\<lambda>alts. candidates ?rank ?active alts = []) ?active True
      [DAny [DAtom ''a'', DAny [DAtom ''b'', DAtom ''c'']], DAtom ''y''] p1 d"
    by (auto simp: resolves_simps)
  from any have "p1 = [DAtom ''y'']" "d = [DGroup [DAtom ''b'', DAtom ''c'']]"
    by (rule resolves_anyE; simp add: c best_candidate_def; auto simp: resolves_simps)+
  then show ?thesis using out p by simp
qed

section \<open>Groups that the choice leaves empty\<close>

text \<open>An any-of group whose conditionals leave no alternative, and a group that such groups alone fill, outside any any-of group.\<close>

fun dead_any :: "(string \<Rightarrow> bool) \<Rightarrow> dep_item \<Rightarrow> bool" where
  "dead_any active (DAny alts) \<longleftrightarrow> live_alts active (map alt_item alts) = []"
| "dead_any active i \<longleftrightarrow> False"

fun emptied :: "(string \<Rightarrow> bool) \<Rightarrow> dep_item \<Rightarrow> bool" where
  "emptied active (DAtom t) \<longleftrightarrow> False"
| "emptied active (DAny alts) \<longleftrightarrow> False"
| "emptied active (DGroup is) \<longleftrightarrow> list_all (dead_any active) is \<or> list_ex (emptied active) is"
| "emptied active (DCond c is) \<longleftrightarrow> list_all (dead_any active) is \<or> list_ex (emptied active) is"

lemma dead_resolves:
  "resolves pick keep active at is p d \<Longrightarrow> at \<Longrightarrow> list_all (dead_any active) is \<Longrightarrow> p = [] \<and> d = []"
  by (induction rule: resolves.induct) auto

lemma emptied_hollow:
  "resolves pick keep active at is p d \<Longrightarrow> at \<Longrightarrow> list_ex (emptied active) is \<Longrightarrow> list_ex hollow (p @ d)"
  by (induction rule: resolves.induct) (auto dest: dead_resolves)

text \<open>
  C37: with empty groups taken to be true, a well-formed string with valid flags, which the plain
  reduction accepts, is rejected whenever it has a group, under any groups and conditionals, that holds
  only any-of groups without an alternative left: the choice drops those and keeps the group around them,
  and the reduction of what is left rejects its empty parentheses. This holds for every probe and every
  breaking of ties, whether the conditional is active or not, and the whole string is lost.
\<close>

theorem emptied_group_is_an_error:
  assumes "list_all dep_wf is" "flags_ok useflag_matches is" "list_ex (emptied (cond_holds ul mode)) is"
  shows "(\<exists>out. use_reduce_flat (deps_tokens is) ul mode = Ok out) \<and>
    (\<exists>e. use_reduce_flat_disjunctive (deps_tokens is) ul mode True tb pr s = Err e)"
proof
  show "\<exists>out. use_reduce_flat (deps_tokens is) ul mode = Ok out"
    using use_reduce_flat_items [OF assms(1,2)] by blast
  show "\<exists>e. use_reduce_flat_disjunctive (deps_tokens is) ul mode True tb pr s = Err e"
    by (rule disjunctive_resolves [OF choice_law_any assms(1,2), where at = True and tb = tb and s = s])
      (auto dest: emptied_hollow [OF _ TrueI assms(3)] split: if_splits)
qed

theorem emptied_group_is_an_error_witness:
  "(\<exists>e. use_reduce_flat_disjunctive (split_whitespace ''y? ( || ( x? ( a ) ) ) b'') {} Normal True
     (\<lambda>alts s. (0, s)) (\<lambda>atoms s. (Available, s)) () = Err e)"
proof -
  let ?is = "[DCond ''y?'' [DAny [DCond ''x?'' [DAtom ''a'']]], DAtom ''b'']"
  have "split_whitespace ''y? ( || ( x? ( a ) ) ) b'' = deps_tokens ?is" by code_simp
  moreover have "list_all dep_wf ?is" "flags_ok useflag_matches ?is" "list_ex (emptied (cond_holds {} Normal)) ?is"
    by code_simp+
  ultimately show ?thesis
    using emptied_group_is_an_error [of ?is "{}" Normal "\<lambda>alts s. (0, s)" "\<lambda>atoms s. (Available, s)" "()"] by simp
qed

section \<open>Any-of groups inside any-of groups\<close>

lemma alt_item_idem [simp]: "alt_item (alt_item i) = alt_item i"
  by (cases i) simp_all

lemma rank_items_alt: "rank_items active pr (map alt_item is) s = rank_items active pr is s"
  by (induction "is" arbitrary: s) (simp_all add: Let_def)

lemma resolve_loop_cong:
  assumes "\<And>s. resolve_loop ul mode at tb pr xs s = resolve_loop ul mode at tb pr ys s"
  shows "list_all dep_wf pre \<Longrightarrow>
    resolve_loop ul mode at tb pr (deps_nodes pre @ xs) s = resolve_loop ul mode at tb pr (deps_nodes pre @ ys) s"
proof (induction pre arbitrary: s)
  case (Cons i pre)
  then have "resolve_loop ul mode at tb pr (deps_nodes pre @ xs) = resolve_loop ul mode at tb pr (deps_nodes pre @ ys)" by auto
  then show ?case using Cons.prems
    by (cases i; cases at)
      (simp_all add: resolve_eqs resolve_any reserved_def del: out_bind_Ok_iff cong: if_cong option.case_cong)
qed (simp add: assms)

text \<open>
  C38: an any-of group directly inside another one is taken as a conjunction. In a well-formed string with
  valid flags, an any-of group for which an alternative is eligible, or none is left, is resolved exactly as
  the group whose any-of alternatives are all-of groups, whatever stands around it, for every probe and
  every breaking of ties: all the members of an inner group are then required together. The
  witness shows besides that the structured reducer takes \<open>|| ( || ( a b ) c )\<close> for \<open>|| ( a b c )\<close>,
  from which the choice would take \<open>a\<close> alone.
\<close>

theorem nested_any_of_is_conjunction:
  assumes "list_all dep_wf (pre @ DAny alts # rest)" "flags_ok useflag_matches (pre @ DAny alts # rest)"
    and "\<And>s. fst (rank_items (cond_holds ul mode) pr alts s) = [] \<or>
      eligible (fst (rank_items (cond_holds ul mode) pr alts s)) \<noteq> []"
  shows "use_reduce_flat_disjunctive (deps_tokens (pre @ DAny alts # rest)) ul mode at tb pr s =
    use_reduce_flat_disjunctive (deps_tokens (pre @ DAny (map alt_item alts) # rest)) ul mode at tb pr s"
proof -
  have wf: "list_all dep_wf alts" "flags_ok useflag_matches alts" "alts \<noteq> []" "list_all dep_wf pre"
    using assms(1,2) by (auto simp: flags_ok_append)
  have wf': "list_all dep_wf (map alt_item alts)" "flags_ok useflag_matches (map alt_item alts)"
    using wf(1) alt_item_wf alt_item_flags [OF flags_ok_mem [OF wf(2)]]
    by (auto simp: list_all_iff flags_ok_def)
  have "list_all dep_wf (pre @ DAny (map alt_item alts) # rest)" using assms(1) wf'(1) by auto
  then have build: "build_dep_tree (deps_tokens (pre @ DAny alts # rest)) = Ok (deps_nodes (pre @ DAny alts # rest))"
    "build_dep_tree (deps_tokens (pre @ DAny (map alt_item alts) # rest)) = Ok (deps_nodes (pre @ DAny (map alt_item alts) # rest))"
    using assms(1) build_dep_tree_items by blast+
  have "choose_alternative tb ranked s1 \<noteq> Ok (None, s2)" if "eligible ranked \<noteq> []" for ranked s1 s2
    using that by (auto intro: choose_alternative_cases [of ranked tb s1])
  note some = this
  have step: "resolve_loop ul mode at tb pr (Str ''||'' # Group (deps_nodes alts) # deps_nodes rest) s =
      resolve_loop ul mode at tb pr (Str ''||'' # Group (deps_nodes (map alt_item alts)) # deps_nodes rest) s" for s
  proof -
    obtain ranked s0 where rk: "rank_items (cond_holds ul mode) pr alts s = (ranked, s0)" by fastforce
    then have "ranked = [] \<or> (\<forall>s2. choose_alternative tb ranked s0 \<noteq> Ok (None, s2))"
      using assms(3) [of s] some by auto
    then show ?thesis
      unfolding resolve_any rank_alternatives_items [OF wf(1,2)] rank_alternatives_items [OF wf'] rank_items_alt rk
      by (cases "choose_alternative tb ranked s0") (auto split: option.splits)
  qed
  show ?thesis
    using resolve_loop_cong [OF step wf(4)] build
    by (simp add: use_reduce_flat_disjunctive_def resolve_disjunctions_def del: out_bind_Ok_iff)
qed

definition available_only :: "string list \<Rightarrow> unit alt_probe" where
  "available_only known atoms s = (if list_all (\<lambda>a. List.member known a) atoms then Available else Unsatisfiable, s)"

theorem nested_any_of_is_conjunction_witness:
  "use_reduce_flat_disjunctive (split_whitespace ''|| ( || ( a b ) c )'') {} Normal False
     (\<lambda>alts s. (0, s)) (available_only [''a'', ''b'']) () =
   use_reduce_flat_disjunctive (split_whitespace ''|| ( ( a b ) c )'') {} Normal False
     (\<lambda>alts s. (0, s)) (available_only [''a'', ''b'']) () \<and>
   use_reduce_structured (split_whitespace ''|| ( || ( a b ) c )'') {} Normal =
     use_reduce_structured (split_whitespace ''|| ( a b c )'') {} Normal \<and>
   use_reduce_flat_disjunctive (split_whitespace ''|| ( || ( a b ) c )'') {} Normal False
     (\<lambda>alts s. (0, s)) (available_only [''a'', ''b'']) () = Ok ([''a'', ''b''], ()) \<and>
   use_reduce_flat_disjunctive (split_whitespace ''|| ( a b c )'') {} Normal False
     (\<lambda>alts s. (0, s)) (available_only [''a'', ''b'']) () = Ok ([''a''], ())"
proof -
  let ?alts = "[DAny [DAtom ''a'', DAtom ''b''], DAtom ''c'']" and ?pr = "available_only [''a'', ''b'']"
  have "list_all dep_wf ([] @ DAny ?alts # [])" "flags_ok useflag_matches ([] @ DAny ?alts # [])" by code_simp+
  moreover have "eligible (fst (rank_items (cond_holds {} Normal) ?pr ?alts s)) \<noteq> []" for s
    by (simp add: available_only_def eligible_def is_selectable_def)
  ultimately have "use_reduce_flat_disjunctive (deps_tokens ([] @ DAny ?alts # [])) {} Normal False (\<lambda>alts s. (0, s)) ?pr () =
      use_reduce_flat_disjunctive (deps_tokens ([] @ DAny (map alt_item ?alts) # [])) {} Normal False (\<lambda>alts s. (0, s)) ?pr ()"
    by (intro nested_any_of_is_conjunction disjI2)
  moreover have "split_whitespace ''|| ( || ( a b ) c )'' = deps_tokens ([] @ DAny ?alts # [])"
    "split_whitespace ''|| ( ( a b ) c )'' = deps_tokens ([] @ DAny (map alt_item ?alts) # [])" by code_simp+
  ultimately have "use_reduce_flat_disjunctive (split_whitespace ''|| ( || ( a b ) c )'') {} Normal False (\<lambda>alts s. (0, s)) ?pr () =
      use_reduce_flat_disjunctive (split_whitespace ''|| ( ( a b ) c )'') {} Normal False (\<lambda>alts s. (0, s)) ?pr ()" by simp
  moreover have "use_reduce_structured (split_whitespace ''|| ( || ( a b ) c )'') {} Normal =
     use_reduce_structured (split_whitespace ''|| ( a b c )'') {} Normal" by code_simp
  moreover have "use_reduce_flat_disjunctive (split_whitespace ''|| ( || ( a b ) c )'') {} Normal False
     (\<lambda>alts s. (0, s)) (available_only [''a'', ''b'']) () = Ok ([''a'', ''b''], ())" by code_simp
  moreover have "use_reduce_flat_disjunctive (split_whitespace ''|| ( a b c )'') {} Normal False
     (\<lambda>alts s. (0, s)) (available_only [''a'', ''b'']) () = Ok ([''a''], ())" by code_simp
  ultimately show ?thesis by blast
qed

section \<open>No panics\<close>

lemma build_dep_tree_safe: "build_dep_tree ts \<noteq> Panicked"
  unfolding build_dep_tree_def
  by (rule tree.run_safe) (auto simp: tree_close_def push_last_def split: list.splits)

lemma close_marker_safe: "close_marker ul mode l f \<noteq> Panicked"
  by (auto simp: close_marker_def out_bind_Panicked_iff is_active_safe split: option.splits dep_node.splits)

lemma structured_safe: "use_reduce_structured ts ul mode \<noteq> Panicked"
  unfolding use_reduce_structured_def
proof (rule structured.run_safe)
  fix st :: "dep_node list list" assume "2 \<le> length st"
  then obtain l f fs where "st = l # f # fs" by (cases st; cases "tl st") auto
  then show "structured_close ul mode st \<noteq> Panicked"
    by (auto simp: structured_close_eq out_bind_Panicked_iff close_marker_safe)
qed (auto simp: push_last_def split: list.splits)

lemma next_alternative_safe: "next_alternative ns \<noteq> Some Panicked"
  by (auto simp: next_alternative_def split: list.splits dep_node.splits)

lemma rank_alternatives_safe: "rank_alternatives ul mode pr alts s \<noteq> Panicked"
proof (induction ul mode pr alts s rule: rank_alternatives.induct)
  case (1 ul mode pr alts s)
  show ?case
    unfolding rank_alternatives.simps [of ul mode pr alts s]
    using 1 next_alternative_safe [of alts] use_reduce_flat_safe
    by (auto simp: out_bind_Panicked_iff Let_def split: option.splits outcome.splits prod.splits)
qed

lemma choose_alternative_safe: "choose_alternative tb ranked s \<noteq> Panicked"
  by (rule choose_alternative_cases [of ranked tb s]) auto

lemma resolve_loop_safe: "resolve_loop ul mode at tb pr nodes s \<noteq> Panicked"
proof (induction "size_list size nodes" arbitrary: nodes s rule: less_induct)
  case less
  have IH: "resolve_loop ul mode at tb pr ns s \<noteq> Panicked"
    if "size_list size ns < size_list size nodes" for ns s by (rule less.hyps [OF that])
  consider "nodes = []" | g rest where "nodes = Group g # rest"
    | t g rest where "nodes = Str t # Group g # rest" "ends_with_char t CHR ''?''"
    | g rest where "nodes = Str ''||'' # Group g # rest"
    | t rest where "nodes = Str t # rest" "t \<noteq> ''||''" "\<not> ends_with_char t CHR ''?''"
    | t rest where "nodes = Str t # rest" "\<nexists>g r. rest = Group g # r" "t = ''||'' \<or> ends_with_char t CHR ''?''"
  proof (cases nodes)
    case (Cons n rest)
    then show ?thesis using that by (cases n; cases "\<exists>g r. rest = Group g # r"; metis)
  qed
  then show ?case
  proof cases
    case (4 g rest)
    have alt: "resolve_loop ul mode at tb pr alt s' \<noteq> Panicked"
      if "rank_alternatives ul mode pr g s = Ok (ranked, s1)" "choose_alternative tb ranked s1 = Ok (Some alt, s2)"
      for ranked s1 s2 alt s' using chosen_size [OF that] 4 by (intro IH) simp
    have rest: "resolve_loop ul mode at tb pr rest s' \<noteq> Panicked" for s'
      using 4 by (intro IH) simp
    show ?thesis
    proof (cases "rank_alternatives ul mode pr g s")
      case (Ok r)
      obtain ranked s1 where r: "r = (ranked, s1)" by (cases r)
      show ?thesis
      proof (rule choose_alternative_cases [of ranked tb s1])
        assume "choose_alternative tb ranked s1 = Ok (None, s1)"
        then show ?thesis using Ok r rest unfolding 4 resolve_any
          by (simp add: out_bind_Panicked_iff split: prod.split)
      next
        fix n flat s2 assume "choose_alternative tb ranked s1 = Ok (Some n, s2)"
        then show ?thesis using Ok r rest alt [of ranked s1 n s2] unfolding 4 resolve_any
          by (simp add: out_bind_Panicked_iff split: prod.split)
      qed
    qed (simp_all add: 4 resolve_any rank_alternatives_safe)
  next
    case (6 t rest)
    then show ?thesis
      by (subst resolve_loop.simps) (auto split: list.split dep_node.split)
  qed (auto simp: resolve_eqs out_bind_Panicked_iff IH)
qed

text \<open>
  C36: no entry point of the module panics, on any tokens: the stack is never empty when its last
  frame is taken, no flag is cut from an empty conditional, and the index that breaks a tie is in
  range whatever the callback returns.
\<close>

theorem use_reduce_never_panics:
  "use_reduce_flat ts ul mode \<noteq> Panicked \<and>
   use_reduce_flat_validated ts valid hook s \<noteq> Panicked \<and>
   use_reduce_structured ts ul mode \<noteq> Panicked \<and>
   use_reduce_flat_subset ts ul mode wanted \<noteq> Panicked \<and>
   use_reduce_flat_disjunctive ts ul mode at tb pr s' \<noteq> Panicked"
proof -
  have "use_reduce_flat_validated ts valid hook s \<noteq> Panicked"
    using walk_flat_safe [of "\<lambda>c. is_active_validated c valid" "Some hook" s ts]
    by (auto simp: use_reduce_flat_validated_def out_bind_Panicked_iff is_active_validated_question)
  moreover have "use_reduce_flat_subset ts ul mode wanted \<noteq> Panicked"
  proof (cases "build_dep_tree ts")
    case (Ok tree)
    then obtain "is" where wf: "list_all dep_wf is" "tree = deps_nodes is" using build_dep_tree_items by blast
    then have "select_subset wanted ul mode False False tree \<noteq> Panicked"
      using subset_items_ok(2) [OF wf(1), of False ul mode wanted False]
      by (auto simp: select_subset_items(2) subset_result_def split: if_splits)
    then show ?thesis using Ok use_reduce_flat_safe
      by (auto simp: use_reduce_flat_subset_def out_bind_Panicked_iff)
  qed (use build_dep_tree_safe in \<open>auto simp: use_reduce_flat_subset_def\<close>)
  moreover have "use_reduce_flat_disjunctive ts ul mode at tb pr s' \<noteq> Panicked"
    using build_dep_tree_safe use_reduce_flat_safe resolve_loop_safe [of ul mode at tb pr]
    by (auto simp: use_reduce_flat_disjunctive_def resolve_disjunctions_def out_bind_Panicked_iff)
  ultimately show ?thesis using use_reduce_flat_safe structured_safe by blast
qed

end
