(* ===== verification/Affecting.thy ===== *)
theory Affecting
  imports DepReduce
begin

text \<open>
  The USE flags that decide whether an atom of a dependency string is in effect
  (\<open>extract_affecting_use\<close> of \<open>portage-dep/src/lib.rs\<close>). The stack is a list of frames, the innermost first;
  \<open>level\<close> is the number of frames below it. Reducing the string under two sets of enabled flags that
  agree on these flags gives the atom in both cases or in none.
\<close>

section \<open>The walk\<close>

datatype aff = AffTok string | AffGroup "aff list"

fun aff_ends_q :: "aff \<Rightarrow> bool" where
  "aff_ends_q (AffTok s) = ends_with_char s CHR ''?''"
| "aff_ends_q (AffGroup v) = (v \<noteq> [] \<and> last (map aff_ends_q v))"

definition aff_is_barbar :: "aff \<Rightarrow> bool" where
  "aff_is_barbar e = (e = AffTok ''||'')"

definition aff_cond_flag :: "string \<Rightarrow> string option" where
  "aff_cond_flag tok =
     (let body = (case strip_prefix tok ''!'' of Some b \<Rightarrow> b | None \<Rightarrow> tok); flag = butlast body
      in if useflag_matches flag then Some flag else None)"

definition aff_special_append :: "aff list \<Rightarrow> bool \<Rightarrow> aff list \<Rightarrow> aff list" where
  "aff_special_append frame is_single l =
     (if is_single \<and> \<not> (frame \<noteq> [] \<and> aff_ends_q (last frame))
      then (case l of [AffGroup inner] \<Rightarrow> frame @ inner | _ \<Rightarrow> frame @ l)
      else frame @ [AffGroup l])"

definition aff_op :: "aff \<Rightarrow> bool" where
  "aff_op e = (aff_is_barbar e \<or> aff_ends_q e)"

text \<open>The flag of a conditional token that ends a frame; a group is no token.\<close>

definition aff_token_flag :: "aff \<Rightarrow> string option" where
  "aff_token_flag e = (case e of AffTok t \<Rightarrow> aff_cond_flag t | AffGroup _ \<Rightarrow> None)"

text \<open>A closing parenthesis: \<open>l\<close> is the popped frame, \<open>t\<close> the frame below it.\<close>

definition aff_close ::
  "aff list \<Rightarrow> aff list \<Rightarrow> aff list list \<Rightarrow> string set \<Rightarrow> (aff list list \<times> string set) option" where
  "aff_close l t below affecting =
     (let is_single = (length l = 1 \<or> length l = 2 \<and> aff_op (hd l));
          eiad_prev = (case below of [] \<Rightarrow> False | f # _ \<Rightarrow> f \<noteq> [] \<and> aff_is_barbar (last f));
          eio_cur = (t \<noteq> [] \<and> aff_op (last t));
          eiad_cur = (t \<noteq> [] \<and> aff_is_barbar (last t))
      in if l = [] then Some ((if t \<noteq> [] \<and> aff_op (last t) then butlast t else t) # below, affecting)
         else if \<not> eiad_prev \<and> \<not> eio_cur then Some ((t @ l) # below, affecting)
         else if t = [] then Some (aff_special_append t is_single l # below, affecting)
         else if length l = 1 \<and> eiad_cur
         then Some (aff_special_append (butlast t) is_single l # below, affecting)
         else if length l = 2 \<and> aff_op (hd l) \<and> (last t = hd l \<or> aff_is_barbar (last t)) then
           (let stack = aff_special_append (butlast t) is_single l # below
            in if aff_ends_q (hd l)
               then map_option (\<lambda>f. (stack, insert f affecting)) (aff_token_flag (hd l))
               else Some (stack, affecting))
         else
           (let stack = aff_special_append t is_single l # below
            in if aff_ends_q (last t)
               then map_option (\<lambda>f. (stack, insert f affecting)) (aff_token_flag (last t))
               else Some (stack, affecting)))"

text \<open>A token that goes to the innermost frame.\<close>

definition aff_push :: "string \<Rightarrow> aff list list \<Rightarrow> aff list list" where
  "aff_push tok stack = (case stack of [] \<Rightarrow> [] | f # fs \<Rightarrow> (f @ [AffTok tok]) # fs)"

fun aff_loop :: "string \<Rightarrow> bool \<Rightarrow> aff list list \<Rightarrow> string set \<Rightarrow> string list \<Rightarrow> string set option" where
  "aff_loop atom need stack affecting [] =
     (if length stack \<noteq> 1 \<or> need then None else Some affecting)"
| "aff_loop atom need stack affecting (token # rest) =
     (if token = ''('' then aff_loop atom False ([] # stack) affecting rest
      else if token = '')'' then
        (case stack of
           l # t # below \<Rightarrow>
             if need then None
             else (case aff_close l t below affecting of
                     None \<Rightarrow> None
                   | Some (stack', affecting') \<Rightarrow> aff_loop atom need stack' affecting' rest)
         | _ \<Rightarrow> None)
      else if token = ''||'' then
        if need then None else aff_loop atom True (aff_push token stack) affecting rest
      else if need then None
      else if ends_with_char token CHR ''?'' then aff_loop atom True (aff_push token stack) affecting rest
      else aff_loop atom need (if token = atom then aff_push token stack else stack) affecting rest)"

definition extract_affecting_use :: "string \<Rightarrow> string \<Rightarrow> string set option" where
  "extract_affecting_use dep atom = aff_loop atom False [[]] {} (split_whitespace dep)"

section \<open>What the walk computes\<close>

text \<open>The items may be empty here, and an arrow is a plain token.\<close>

fun aff_wf :: "dep_item \<Rightarrow> bool" where
  "aff_wf (DAtom t) \<longleftrightarrow> t \<notin> {''('', '')'', ''||''} \<and> \<not> ends_with_char t CHR ''?''"
| "aff_wf (DGroup is) \<longleftrightarrow> list_all aff_wf is"
| "aff_wf (DAny is) \<longleftrightarrow> list_all aff_wf is"
| "aff_wf (DCond c is) \<longleftrightarrow> ends_with_char c CHR ''?'' \<and> list_all aff_wf is"

fun holds_atom :: "string \<Rightarrow> dep_item \<Rightarrow> bool" where
  "holds_atom atom (DAtom t) \<longleftrightarrow> t = atom"
| "holds_atom atom (DGroup is) \<longleftrightarrow> list_ex (holds_atom atom) is"
| "holds_atom atom (DAny is) \<longleftrightarrow> list_ex (holds_atom atom) is"
| "holds_atom atom (DCond c is) \<longleftrightarrow> list_ex (holds_atom atom) is"

text \<open>The conditionals around an occurrence of the atom.\<close>

fun conds_around :: "string \<Rightarrow> dep_item \<Rightarrow> string list" where
  "conds_around atom (DAtom t) = []"
| "conds_around atom (DGroup is) = concat (map (conds_around atom) is)"
| "conds_around atom (DAny is) = concat (map (conds_around atom) is)"
| "conds_around atom (DCond c is) =
     concat (map (conds_around atom) is) @ (if list_ex (holds_atom atom) is then [c] else [])"

text \<open>Elements as the walk builds them: a group ends in no operator, a conditional is recorded.\<close>

fun aff_ok :: "string set \<Rightarrow> aff \<Rightarrow> bool" where
  "aff_ok A (AffTok s) \<longleftrightarrow> (ends_with_char s CHR ''?'' \<longrightarrow> (\<exists>f \<in> A. aff_cond_flag s = Some f))"
| "aff_ok A (AffGroup v) \<longleftrightarrow> v \<noteq> [] \<and> \<not> aff_op (last v) \<and> list_all (aff_ok A) v"

definition frame_ok :: "string set \<Rightarrow> aff list \<Rightarrow> bool" where
  "frame_ok A f \<longleftrightarrow> list_all (aff_ok A) f \<and> \<not> (f \<noteq> [] \<and> aff_op (last f))"

lemma aff_ok_mono: "A \<subseteq> B \<Longrightarrow> aff_ok A e \<Longrightarrow> aff_ok B e"
  by (induction e) (auto simp: list_all_iff)

lemma frame_ok_mono: "A \<subseteq> B \<Longrightarrow> frame_ok A f \<Longrightarrow> frame_ok B f"
  using aff_ok_mono by (auto simp: frame_ok_def list_all_iff)

lemma aff_frame_ok_append: "frame_ok A f \<Longrightarrow> frame_ok A g \<Longrightarrow> frame_ok A (f @ g)"
  by (cases "g = []") (auto simp: frame_ok_def)

lemma group_op: "aff_ok A (AffGroup v) \<Longrightarrow> \<not> aff_op (AffGroup v)"
  by (auto simp: aff_op_def aff_is_barbar_def last_map)

lemma frame_ok_group: "frame_ok A l \<Longrightarrow> l \<noteq> [] \<Longrightarrow> frame_ok A [AffGroup l]"
  using group_op [of A l] by (auto simp: frame_ok_def)

definition flags_of :: "string list \<Rightarrow> string set" where
  "flags_of cs = {f. \<exists>c \<in> set cs. aff_cond_flag c = Some f}"

definition flags_valid :: "string list \<Rightarrow> bool" where
  "flags_valid cs \<longleftrightarrow> (\<forall>c \<in> set cs. aff_cond_flag c \<noteq> None)"

lemma flags_simps [simp]:
  "flags_of [] = {}" "flags_of (xs @ ys) = flags_of xs \<union> flags_of ys"
  "flags_valid []" "flags_valid (xs @ ys) \<longleftrightarrow> flags_valid xs \<and> flags_valid ys"
  by (auto simp: flags_of_def flags_valid_def)

lemma aff_special_append_ok:
  assumes "frame_ok A l" "l \<noteq> []"
  obtains ext where "aff_special_append t is_single l = t @ ext" "ext \<noteq> []" "frame_ok A ext"
proof (cases "is_single \<and> \<not> (t \<noteq> [] \<and> aff_ends_q (last t))")
  case flat: True
  show ?thesis
  proof (cases "\<exists>inner. l = [AffGroup inner]")
    case True
    then obtain inner where "l = [AffGroup inner]" ..
    then show ?thesis using flat assms(1) by (intro that [of inner]) (auto simp: aff_special_append_def frame_ok_def)
  next
    case False
    then have "aff_special_append t is_single l = t @ l"
      using flat by (auto simp: aff_special_append_def split: list.splits aff.splits)
    then show ?thesis using assms that by blast
  qed
next
  case False
  then show ?thesis using frame_ok_group [OF assms] by (intro that [of "[AffGroup l]"]) (auto simp: aff_special_append_def)
qed

text \<open>A group closes over a frame that may end in the operator \<open>m\<close> of the group.\<close>

definition marked :: "aff list \<Rightarrow> string option \<Rightarrow> aff list" where
  "marked f m = (case m of None \<Rightarrow> f | Some c \<Rightarrow> f @ [AffTok c])"

definition mark_conds :: "string option \<Rightarrow> string list" where
  "mark_conds m = (case m of None \<Rightarrow> [] | Some c \<Rightarrow> if c = ''||'' then [] else [c])"

definition mark_ok :: "string option \<Rightarrow> bool" where
  "mark_ok m = (case m of None \<Rightarrow> True | Some c \<Rightarrow> c = ''||'' \<or> ends_with_char c CHR ''?'')"

lemma close_empty:
  "frame_ok A f \<Longrightarrow> mark_ok m \<Longrightarrow> aff_close [] (marked f m) below A = Some (f # below, A)"
  by (auto simp: aff_close_def marked_def mark_ok_def frame_ok_def aff_op_def aff_is_barbar_def split: option.splits)

lemma barbar_no_question [simp]: "\<not> aff_ends_q (AffTok ''||'')"
  by (simp add: ends_with_char_def)

lemma close_plain:
  assumes "frame_ok A f" "frame_ok A l" "l \<noteq> []"
  shows "\<exists>ext. aff_close l f below A = Some ((f @ ext) # below, A) \<and> ext \<noteq> [] \<and> frame_ok A ext"
proof -
  have n: "\<not> (f \<noteq> [] \<and> aff_op (last f))" using assms(1) by (simp add: frame_ok_def)
  obtain ext where e: "aff_special_append f (length l = 1 \<or> length l = 2 \<and> aff_op (hd l)) l = f @ ext" "ext \<noteq> []" "frame_ok A ext"
    using assms(2,3) by (rule aff_special_append_ok)
  then show ?thesis
    using n assms(2,3) unfolding aff_close_def Let_def e(1) by (auto simp: aff_op_def)
qed

lemma aff_close_any:
  assumes "frame_ok A f" "frame_ok A l" "l \<noteq> []"
  shows "\<exists>ext. aff_close l (f @ [AffTok ''||'']) below A = Some ((f @ ext) # below, A) \<and> ext \<noteq> [] \<and> frame_ok A ext"
proof -
  let ?s = "length l = 1 \<or> length l = 2 \<and> aff_op (hd l)" and ?t = "f @ [AffTok ''||'']"
  obtain e1 where e1: "aff_special_append f ?s l = f @ e1" "e1 \<noteq> []" "frame_ok A e1"
    using assms(2,3) by (rule aff_special_append_ok)
  obtain e2 where e2: "aff_special_append ?t ?s l = ?t @ e2" "e2 \<noteq> []" "frame_ok A e2"
    using assms(2,3) by (rule aff_special_append_ok)
  have e2': "frame_ok A (AffTok ''||'' # e2)" using e2(2,3) by (simp add: frame_ok_def ends_with_char_def)
  have h: "\<exists>g \<in> A. aff_token_flag (hd l) = Some g" if "aff_ends_q (hd l)"
  proof -
    have "aff_ok A (hd l)" using assms(2,3) by (cases l) (auto simp: frame_ok_def)
    then show ?thesis using that group_op [of A] by (cases "hd l") (auto simp: aff_token_flag_def aff_op_def)
  qed
  have b: "aff_is_barbar (last ?t)" "aff_op (last ?t)" "\<not> aff_ends_q (last ?t)" "butlast ?t = f" "?t \<noteq> []"
    by (simp_all add: aff_op_def aff_is_barbar_def ends_with_char_def)
  consider (one) "length l = 1" | (two) "length l = 2" "aff_op (hd l)" | (more) "length l \<noteq> 1" "\<not> (length l = 2 \<and> aff_op (hd l))"
    by blast
  then show ?thesis
  proof cases
    case one
    then show ?thesis using assms(3) b e1 unfolding aff_close_def Let_def by simp
  next
    case two
    show ?thesis
    proof (cases "aff_ends_q (hd l)")
      case True
      then obtain g where "g \<in> A" "aff_token_flag (hd l) = Some g" using h by blast
      then show ?thesis using assms(3) two b e1 True unfolding aff_close_def Let_def by (simp add: insert_absorb)
    next
      case False
      then show ?thesis using assms(3) two b e1 unfolding aff_close_def Let_def by simp
    qed
  next
    case more
    then have "aff_close l ?t below A = Some ((f @ AffTok ''||'' # e2) # below, A)"
      using assms(3) b e2(1) unfolding aff_close_def Let_def by (cases "length l = 2") simp_all
    then show ?thesis using e2' by blast
  qed
qed

lemma aff_close_cond:
  assumes "frame_ok A f" "frame_ok A l" "l \<noteq> []" "ends_with_char c CHR ''?''"
  shows "case aff_cond_flag c of
      None \<Rightarrow> aff_close l (f @ [AffTok c]) below A = None
    | Some g \<Rightarrow> \<exists>ext. aff_close l (f @ [AffTok c]) below A = Some ((f @ ext) # below, insert g A) \<and> ext \<noteq> [] \<and>
        frame_ok (insert g A) ext"
proof -
  let ?s = "length l = 1 \<or> length l = 2 \<and> aff_op (hd l)" and ?t = "f @ [AffTok c]"
  obtain e1 where e1: "aff_special_append f ?s l = f @ e1" "e1 \<noteq> []" "frame_ok A e1"
    using assms(2,3) by (rule aff_special_append_ok)
  have e2: "aff_special_append ?t ?s l = ?t @ [AffGroup l]" using assms(4) by (simp add: aff_special_append_def)
  have c: "c \<noteq> ''||''" using assms(4) by (auto simp: ends_with_char_def)
  have b: "\<not> aff_is_barbar (last ?t)" "aff_op (last ?t)" "aff_ends_q (last ?t)" "butlast ?t = f" "?t \<noteq> []"
    "aff_token_flag (last ?t) = aff_cond_flag c"
    using c assms(4) by (simp_all add: aff_op_def aff_is_barbar_def aff_token_flag_def)
  show ?thesis
  proof (cases "length l = 2 \<and> aff_op (hd l) \<and> AffTok c = hd l")
    case True
    then have "aff_ok A (AffTok c)" using assms(2,3) by (cases l) (auto simp: frame_ok_def)
    then obtain g where g: "g \<in> A" "aff_cond_flag c = Some g" using assms(4) by auto
    have "aff_close l ?t below A = Some ((f @ e1) # below, A)"
      using assms(3,4) True b e1 g unfolding aff_close_def Let_def
      by (auto simp: insert_absorb aff_token_flag_def dest!: sym [of "AffTok c"])
    then show ?thesis using e1 g by (auto simp: insert_absorb)
  next
    case False
    then have r: "aff_close l ?t below A =
        map_option (\<lambda>g. ((?t @ [AffGroup l]) # below, insert g A)) (aff_cond_flag c)"
      using assms(3,4) b e2 c unfolding aff_close_def Let_def by auto
    have "frame_ok (insert g A) [AffTok c, AffGroup l]" if "aff_cond_flag c = Some g" for g
      using frame_ok_group [OF frame_ok_mono [OF subset_insertI assms(2)] assms(3), of g] that
      by (auto simp: frame_ok_def)
    then show ?thesis using r by (auto split: option.split)
  qed
qed

text \<open>Walking over items: the frame grows when one of them holds the atom.\<close>

definition extended :: "string \<Rightarrow> dep_item list \<Rightarrow> string set \<Rightarrow> aff list \<Rightarrow> bool" where
  "extended atom is A ext \<longleftrightarrow> (ext = [] \<longleftrightarrow> \<not> list_ex (holds_atom atom) is) \<and> frame_ok A ext"

definition walks :: "string \<Rightarrow> dep_item list \<Rightarrow> bool" where
  "walks atom is \<longleftrightarrow> (\<forall>f below A rest. frame_ok A f \<longrightarrow>
     (let cs = concat (map (conds_around atom) is); A' = A \<union> flags_of cs
      in if flags_valid cs
         then \<exists>ext. extended atom is A' ext \<and>
           aff_loop atom False (f # below) A (deps_tokens is @ rest) = aff_loop atom False ((f @ ext) # below) A' rest
         else aff_loop atom False (f # below) A (deps_tokens is @ rest) = None))"

lemma walks_Nil: "walks atom []"
  by (auto simp: walks_def extended_def frame_ok_def)

lemma walks_Cons:
  assumes "walks atom [i]" "walks atom is"
  shows "walks atom (i # is)"
  unfolding walks_def
proof (intro allI impI)
  fix f below A rest assume f: "frame_ok A f"
  let ?ci = "conds_around atom i" and ?cs = "concat (map (conds_around atom) is)"
  let ?A = "A \<union> flags_of ?ci"
  have i: "if flags_valid ?ci
      then \<exists>ext. extended atom [i] ?A ext \<and>
        aff_loop atom False (f # below) A (dep_tokens i @ deps_tokens is @ rest) =
        aff_loop atom False ((f @ ext) # below) ?A (deps_tokens is @ rest)
      else aff_loop atom False (f # below) A (dep_tokens i @ deps_tokens is @ rest) = None"
    using assms(1) [unfolded walks_def, rule_format, OF f, of below "deps_tokens is @ rest"] by (simp add: Let_def cong: if_cong)
  show "let cs = concat (map (conds_around atom) (i # is)); A' = A \<union> flags_of cs
      in if flags_valid cs
         then \<exists>ext. extended atom (i # is) A' ext \<and>
           aff_loop atom False (f # below) A (deps_tokens (i # is) @ rest) = aff_loop atom False ((f @ ext) # below) A' rest
         else aff_loop atom False (f # below) A (deps_tokens (i # is) @ rest) = None"
  proof (cases "flags_valid ?ci")
    case False
    then show ?thesis using i by simp
  next
    case True
    then obtain ext where e: "extended atom [i] ?A ext"
      "aff_loop atom False (f # below) A (dep_tokens i @ deps_tokens is @ rest) =
       aff_loop atom False ((f @ ext) # below) ?A (deps_tokens is @ rest)"
      using i by auto
    have "frame_ok ?A (f @ ext)"
      using e(1) frame_ok_mono [OF _ f, of ?A] by (auto simp: extended_def intro: aff_frame_ok_append)
    then have s: "if flags_valid ?cs
      then \<exists>ext'. extended atom is (?A \<union> flags_of ?cs) ext' \<and>
        aff_loop atom False ((f @ ext) # below) ?A (deps_tokens is @ rest) =
        aff_loop atom False (((f @ ext) @ ext') # below) (?A \<union> flags_of ?cs) rest
      else aff_loop atom False ((f @ ext) # below) ?A (deps_tokens is @ rest) = None"
      using assms(2) unfolding walks_def Let_def by blast
    show ?thesis
    proof (cases "flags_valid ?cs")
      case False
      then show ?thesis using s e(2) True by simp
    next
      case cs: True
      then obtain ext' where e': "extended atom is (?A \<union> flags_of ?cs) ext'"
        "aff_loop atom False ((f @ ext) # below) ?A (deps_tokens is @ rest) =
         aff_loop atom False (((f @ ext) @ ext') # below) (?A \<union> flags_of ?cs) rest"
        using s by auto
      have "extended atom (i # is) (?A \<union> flags_of ?cs) (ext @ ext')"
        using e(1) e'(1) frame_ok_mono [of ?A "?A \<union> flags_of ?cs" ext]
        by (auto simp: extended_def intro: aff_frame_ok_append)
      with True cs e(2) e'(2) show ?thesis by (simp add: Un_assoc) (metis append_assoc)
    qed
  qed
qed

lemma walks_group:
  assumes "walks atom is" "frame_ok A f" "mark_ok m"
  shows "let cs = concat (map (conds_around atom) is) @
             (if list_ex (holds_atom atom) is then mark_conds m else []); A' = A \<union> flags_of cs
    in if flags_valid cs
       then \<exists>ext. (ext = [] \<longleftrightarrow> \<not> list_ex (holds_atom atom) is) \<and> frame_ok A' ext \<and>
         aff_loop atom False ([] # marked f m # below) A (deps_tokens is @ '')'' # rest) =
         aff_loop atom False ((f @ ext) # below) A' rest
       else aff_loop atom False ([] # marked f m # below) A (deps_tokens is @ '')'' # rest) = None"
proof -
  let ?cs = "concat (map (conds_around atom) is)" and ?h = "list_ex (holds_atom atom) is"
  let ?A = "A \<union> flags_of ?cs"
  have w: "if flags_valid ?cs
    then \<exists>ext. extended atom is ?A ext \<and>
      aff_loop atom False ([] # marked f m # below) A (deps_tokens is @ '')'' # rest) =
      aff_loop atom False (ext # marked f m # below) ?A ('')'' # rest)
    else aff_loop atom False ([] # marked f m # below) A (deps_tokens is @ '')'' # rest) = None"
    using assms(1) [unfolded walks_def, rule_format, of A "[]" "marked f m # below" "'')'' # rest"]
    by (simp add: Let_def frame_ok_def cong: if_cong)
  show ?thesis
  proof (cases "flags_valid ?cs")
    case False
    then show ?thesis using w by (simp add: Let_def)
  next
    case True
    then obtain l where l: "l = [] \<longleftrightarrow> \<not> ?h" "frame_ok ?A l"
      "aff_loop atom False ([] # marked f m # below) A (deps_tokens is @ '')'' # rest) =
       aff_loop atom False (l # marked f m # below) ?A ('')'' # rest)"
      using w by (auto simp: extended_def)
    have f: "frame_ok ?A f" using assms(2) by (rule frame_ok_mono [rotated]) simp
    have close: "aff_loop atom False (l # marked f m # below) ?A ('')'' # rest) =
      (case aff_close l (marked f m) below ?A of None \<Rightarrow> None
       | Some (stack, B) \<Rightarrow> aff_loop atom False stack B rest)" by simp
    show ?thesis
    proof (cases ?h)
      case False
      then show ?thesis
        using l True close close_empty [OF f assms(3), of below]
        by (simp add: Let_def frame_ok_def)
    next
      case h: True
      then have ne: "l \<noteq> []" using l(1) by simp
      consider (plain) "m = None" | (any) "m = Some ''||''" | (cond) c where "m = Some c" "c \<noteq> ''||''" "ends_with_char c CHR ''?''"
        using assms(3) by (cases m) (auto simp: mark_ok_def)
      then show ?thesis
      proof cases
        case plain
        then obtain ext where "aff_close l (marked f m) below ?A = Some ((f @ ext) # below, ?A)" "ext \<noteq> []" "frame_ok ?A ext"
          using close_plain [OF f l(2) ne, of below] by (auto simp: marked_def)
        then show ?thesis using l(3) close h True plain by (auto simp: Let_def mark_conds_def)
      next
        case any
        then obtain ext where "aff_close l (marked f m) below ?A = Some ((f @ ext) # below, ?A)" "ext \<noteq> []" "frame_ok ?A ext"
          using aff_close_any [OF f l(2) ne, of below] by (auto simp: marked_def)
        then show ?thesis using l(3) close h True any by (auto simp: Let_def mark_conds_def)
      next
        case cond
        show ?thesis
        proof (cases "aff_cond_flag c")
          case None
          then have "aff_close l (marked f m) below ?A = None"
            using aff_close_cond [OF f l(2) ne cond(3), of below] cond(1) by (simp add: marked_def)
          then show ?thesis using l(3) close h True cond None by (simp add: Let_def mark_conds_def flags_valid_def)
        next
          case (Some g)
          then obtain ext where "aff_close l (marked f m) below ?A = Some ((f @ ext) # below, insert g ?A)" "ext \<noteq> []"
            "frame_ok (insert g ?A) ext"
            using aff_close_cond [OF f l(2) ne cond(3), of below] cond(1) by (auto simp: marked_def)
          moreover have "flags_of [c] = {g}" "flags_valid [c]" using Some by (auto simp: flags_of_def flags_valid_def)
          ultimately show ?thesis using l(3) close h True cond
            by (auto simp: Let_def mark_conds_def Un_assoc)
        qed
      qed
    qed
  qed
qed

lemma walks_one:
  assumes "walks atom js" "mark_ok m" "dep_tokens i = (case m of None \<Rightarrow> [] | Some c \<Rightarrow> [c]) @ ''('' # deps_tokens js @ ['')'']"
    "conds_around atom i = concat (map (conds_around atom) js) @ (if list_ex (holds_atom atom) js then mark_conds m else [])"
    "holds_atom atom i \<longleftrightarrow> list_ex (holds_atom atom) js"
  shows "walks atom [i]"
  unfolding walks_def
proof (intro allI impI)
  fix f below A rest assume f: "frame_ok A f"
  have q: "c \<noteq> ''('' \<and> c \<noteq> '')''" if "ends_with_char c CHR ''?''" for c using that by (auto simp: ends_with_char_def)
  have open_group: "aff_loop atom False (f # below) A (dep_tokens i @ rest) =
      aff_loop atom False ([] # marked f m # below) A (deps_tokens js @ '')'' # rest)"
    using assms(2) q unfolding assms(3)
    by (cases m) (auto simp: mark_ok_def marked_def aff_push_def)
  show "let cs = concat (map (conds_around atom) [i]); A' = A \<union> flags_of cs
      in if flags_valid cs
         then \<exists>ext. extended atom [i] A' ext \<and>
           aff_loop atom False (f # below) A (deps_tokens [i] @ rest) = aff_loop atom False ((f @ ext) # below) A' rest
         else aff_loop atom False (f # below) A (deps_tokens [i] @ rest) = None"
    using walks_group [OF assms(1) f assms(2), of below rest] open_group
    by (simp add: Let_def extended_def assms(4,5) cong: if_cong)
qed

lemma walks_items: "aff_wf i \<Longrightarrow> walks atom [i]" "list_all aff_wf is \<Longrightarrow> walks atom is"
proof (induction i and "is" rule: dep_items_induct)
  case (Atom t)
  then show ?case
    by (auto simp: walks_def extended_def frame_ok_def aff_push_def Let_def aff_op_def aff_is_barbar_def ends_with_char_def
        intro: exI [of _ "[AffTok t]"])
next
  case (Group "is")
  then show ?case by (intro walks_one [where m = None and js = "is"]) (auto simp: mark_ok_def mark_conds_def)
next
  case (Any "is")
  then show ?case
    by (intro walks_one [where m = "Some ''||''" and js = "is"]) (auto simp: mark_ok_def mark_conds_def)
next
  case (Cond c "is")
  then have "c \<noteq> ''||''" by (auto simp: ends_with_char_def)
  then show ?case using Cond
    by (intro walks_one [where m = "Some c" and js = "is"]) (auto simp: mark_ok_def mark_conds_def)
next
  case Nil
  show ?case by (rule walks_Nil)
next
  case (Cons i "is")
  then show ?case by (simp add: walks_Cons)
qed

text \<open>The walk accepts nothing else.\<close>

lemma aff_close_length: "aff_close l t below A = Some (stack, B) \<Longrightarrow> length stack = length below + 1"
  by (auto simp: aff_close_def Let_def split: if_splits)

lemma aff_loop_need:
  assumes "aff_loop atom True stack A ts = Some R"
  obtains ts' where "ts = ''('' # ts'" "aff_loop atom False ([] # stack) A ts' = Some R"
  using assms by (cases ts) (auto split: if_splits list.splits)

definition items_before :: "string \<Rightarrow> nat \<Rightarrow> string list \<Rightarrow> string set \<Rightarrow> dep_item list \<Rightarrow> string list \<Rightarrow> bool" where
  "items_before atom n ts R is rest \<longleftrightarrow>
     list_all aff_wf is \<and> ts = deps_tokens is @ rest \<and>
     (rest = [] \<and> n = 1 \<or>
      (\<exists>rest' stack A. rest = '')'' # rest' \<and> 2 \<le> n \<and> length stack = n - 1 \<and> aff_loop atom False stack A rest' = Some R))"

lemma items_before_Cons:
  "aff_wf i \<Longrightarrow> items_before atom n ts R is rest \<Longrightarrow> items_before atom n (dep_tokens i @ ts) R (i # is) rest"
  by (auto simp: items_before_def)

lemma aff_push_length [simp]: "length (aff_push tok stack) = length stack"
  by (cases stack) (auto simp: aff_push_def)

lemma loop_items:
  "aff_loop atom False stack A ts = Some R \<Longrightarrow> stack \<noteq> [] \<Longrightarrow> \<exists>is rest. items_before atom (length stack) ts R is rest"
proof (induction ts arbitrary: stack A rule: length_induct)
  case (1 ts)
  have group: "\<exists>is rest. items_before atom (length stack) (pre @ ''('' # ts') R is rest"
    if l: "aff_loop atom False ([] # stack') B ts' = Some R" and n: "length stack' = length stack"
      and lt: "length ts' < length ts"
      and item: "\<And>js. list_all aff_wf js \<Longrightarrow> \<exists>i. aff_wf i \<and> dep_tokens i = pre @ ''('' # deps_tokens js @ ['')'']"
    for stack' B ts' pre
  proof -
    obtain js r where j: "items_before atom (Suc (length stack')) ts' R js r"
      using "1.IH" [rule_format, OF lt l] by auto
    then obtain r' s B' where r: "ts' = deps_tokens js @ '')'' # r'" "list_all aff_wf js" "length s = length stack"
        "aff_loop atom False s B' r' = Some R"
      using n 1(3) by (auto simp: items_before_def)
    have "length r' < length ts" using lt r(1) by simp
    moreover have "s \<noteq> []" using r(3) 1(3) by auto
    ultimately obtain "is" rest where "items_before atom (length stack) r' R is rest"
      using "1.IH" [rule_format, OF _ r(4)] r(3) by metis
    moreover obtain i where "aff_wf i" "dep_tokens i = pre @ ''('' # deps_tokens js @ ['')'']" using item [OF r(2)] by blast
    ultimately have "items_before atom (length stack) (dep_tokens i @ r') R (i # is) rest"
      "dep_tokens i = pre @ ''('' # deps_tokens js @ ['')'']" using items_before_Cons by blast+
    then show ?thesis using r(1) by auto
  qed
  show ?case
  proof (cases ts)
    case Nil
    then show ?thesis using 1(2) by (auto simp: items_before_def intro!: exI [of _ "[]"] split: if_splits)
  next
    case (Cons tok rest)
    consider (lpar) "tok = ''(''" | (rpar) "tok = '')''" | (any) "tok = ''||''"
      | (cond) "tok \<notin> {''('', '')'', ''||''}" "ends_with_char tok CHR ''?''"
      | (plain) "tok \<notin> {''('', '')'', ''||''}" "\<not> ends_with_char tok CHR ''?''" by blast
    then show ?thesis
    proof cases
      case lpar
      then show ?thesis
        using 1(2) Cons group [of stack A rest "[]", OF _ refl _ exI [of _ "DGroup _"]] by simp
    next
      case rpar
      then obtain l t below s' B where s: "stack = l # t # below" "aff_close l t below A = Some (s', B)"
        "aff_loop atom False s' B rest = Some R"
        using 1(2) Cons by (auto split: list.splits option.splits)
      then show ?thesis
        using Cons rpar aff_close_length [OF s(2)]
        by (intro exI [of _ "[]"] exI [of _ ts]) (auto simp: items_before_def)
    next
      case any
      then have "aff_loop atom True (aff_push tok stack) A rest = Some R" using 1(2) Cons by simp
      then obtain ts' where "rest = ''('' # ts'" "aff_loop atom False ([] # aff_push tok stack) A ts' = Some R"
        by (rule aff_loop_need)
      then show ?thesis
        using Cons any group [of "aff_push tok stack" A ts' "[tok]", OF _ aff_push_length _ exI [of _ "DAny _"]] by simp
    next
      case cond
      then have "aff_loop atom True (aff_push tok stack) A rest = Some R" using 1(2) Cons by simp
      then obtain ts' where "rest = ''('' # ts'" "aff_loop atom False ([] # aff_push tok stack) A ts' = Some R"
        by (rule aff_loop_need)
      then show ?thesis
        using Cons cond group [of "aff_push tok stack" A ts' "[tok]", OF _ aff_push_length _ exI [of _ "DCond tok _"]] by simp
    next
      case plain
      let ?s = "if tok = atom then aff_push tok stack else stack"
      have l: "aff_loop atom False ?s A rest = Some R" using plain 1(2) Cons by simp
      have n: "length ?s = length stack" by simp
      then have ne: "?s \<noteq> []" using 1(3) by (metis length_0_conv)
      have lt: "length rest < length ts" using Cons by simp
      obtain "is" r where "items_before atom (length stack) rest R is r"
        using "1.IH" [rule_format, OF lt l ne] n by auto
      then have "items_before atom (length stack) (dep_tokens (DAtom tok) @ rest) R (DAtom tok # is) r"
        using plain by (intro items_before_Cons) auto
      then show ?thesis using Cons by auto
    qed
  qed
qed

text \<open>
  The function \<open>extract_affecting_use\<close> returns a set exactly when the string is a nesting of groups and the
  conditionals around the atom name valid flags, and the set holds the flags of these conditionals.
\<close>

theorem affecting_use_iff:
  "extract_affecting_use dep atom = Some A \<longleftrightarrow>
    (\<exists>is. split_whitespace dep = deps_tokens is \<and> list_all aff_wf is \<and>
       (let cs = concat (map (conds_around atom) is) in flags_valid cs \<and> A = flags_of cs))"
proof
  assume a: "extract_affecting_use dep atom = Some A"
  then obtain "is" rest where "items_before atom 1 (split_whitespace dep) A is rest"
    using loop_items [of atom "[[]]" "{}" "split_whitespace dep" A] by (auto simp: extract_affecting_use_def)
  then have i: "split_whitespace dep = deps_tokens is" "list_all aff_wf is" by (auto simp: items_before_def)
  then have "flags_valid (concat (map (conds_around atom) is)) \<and> A = flags_of (concat (map (conds_around atom) is))"
    using walks_items(2) [OF i(2), unfolded walks_def, rule_format, of "{}" "[]" atom "[]" "[]"] a
    by (auto simp: extract_affecting_use_def frame_ok_def Let_def split: if_splits)
  then show "\<exists>is. split_whitespace dep = deps_tokens is \<and> list_all aff_wf is \<and>
       (let cs = concat (map (conds_around atom) is) in flags_valid cs \<and> A = flags_of cs)"
    using i by (auto simp: Let_def)
next
  assume "\<exists>is. split_whitespace dep = deps_tokens is \<and> list_all aff_wf is \<and>
       (let cs = concat (map (conds_around atom) is) in flags_valid cs \<and> A = flags_of cs)"
  then obtain "is" where i: "split_whitespace dep = deps_tokens is" "list_all aff_wf is"
    "flags_valid (concat (map (conds_around atom) is))" "A = flags_of (concat (map (conds_around atom) is))"
    by (auto simp: Let_def)
  then show "extract_affecting_use dep atom = Some A"
    using walks_items(2) [OF i(2), unfolded walks_def, rule_format, of "{}" "[]" atom "[]" "[]"]
    by (auto simp: extract_affecting_use_def frame_ok_def Let_def)
qed

section \<open>The flags decide\<close>

lemma reduce_without: "aff_wf i \<Longrightarrow> atom \<noteq> ''||'' \<Longrightarrow> \<not> holds_atom atom i \<Longrightarrow> atom \<notin> set (reduce active i)"
  by (induction i) (auto simp: list_all_iff list_ex_iff)

lemma affecting_reduce:
  assumes "aff_wf i" "atom \<noteq> ''||''" "\<forall>c \<in> set (conds_around atom i). active c = active' c"
  shows "atom \<in> set (reduce active i) \<longleftrightarrow> atom \<in> set (reduce active' i)"
  using assms
proof (induction i)
  case (DCond c "is")
  have sub: "atom \<in> set (reduce active i) \<longleftrightarrow> atom \<in> set (reduce active' i)" if "i \<in> set is" for i
    using DCond that by (auto simp: list_all_iff)
  show ?case
  proof (cases "list_ex (holds_atom atom) is")
    case True
    then show ?thesis using DCond.prems(3) sub by auto
  next
    case False
    then have "atom \<notin> set (reduce a i)" if "i \<in> set is" for i a
      using reduce_without [of i atom a] DCond.prems(1,2) that by (auto simp: list_all_iff list_ex_iff)
    then show ?thesis by auto
  qed
qed (auto simp: list_all_iff)

lemma dep_wf_aff: "dep_wf i \<Longrightarrow> aff_wf i"
  by (induction i) (auto simp: reserved_def list_all_iff)

lemma aff_cond_flag_eq: "aff_cond_flag c = (if useflag_matches (cond_flag c) then Some (cond_flag c) else None)"
  by (simp add: aff_cond_flag_def cond_flag_def Let_def)

text \<open>
  C40: the affecting flags decide: when two sets of enabled flags agree on them, a dependency string that
  reduces under the first also reduces under the second, and the atom is left by both or by none.
\<close>

theorem affecting_use_decides:
  assumes "extract_affecting_use dep atom = Some A" "use \<inter> A = use' \<inter> A" "atom \<noteq> ''||''"
    and "use_reduce_flat (split_whitespace dep) use Normal = Ok out"
  shows "\<exists>out'. use_reduce_flat (split_whitespace dep) use' Normal = Ok out' \<and> (atom \<in> set out \<longleftrightarrow> atom \<in> set out')"
proof -
  obtain "is" where i: "split_whitespace dep = deps_tokens is" "list_all dep_wf is" "flags_ok useflag_matches is"
    "out = concat (map (reduce (cond_holds use Normal)) is)"
    using assms(4) unfolding use_reduce_flat_value by blast
  have wf: "list_all aff_wf is" using i(2) dep_wf_aff by (auto simp: list_all_iff)
  have A: "flags_valid (concat (map (conds_around atom) is))" "A = flags_of (concat (map (conds_around atom) is))"
    using walks_items(2) [OF wf, unfolded walks_def, rule_format, of "{}" "[]" atom "[]" "[]"] assms(1) i(1)
    by (auto simp: extract_affecting_use_def frame_ok_def Let_def split: if_splits)
  have "cond_flag c \<in> A" if "c \<in> set (conds_around atom x)" "x \<in> set is" for c x
    using A that by (force simp: flags_valid_def flags_of_def aff_cond_flag_eq split: if_splits)
  then have "cond_holds use Normal c = cond_holds use' Normal c" if "c \<in> set (conds_around atom x)" "x \<in> set is" for c x
    using that assms(2) by (fastforce simp: cond_holds_def)
  then have "atom \<in> set (reduce (cond_holds use Normal) x) \<longleftrightarrow> atom \<in> set (reduce (cond_holds use' Normal) x)"
    if "x \<in> set is" for x
    using affecting_reduce [of x atom] wf assms(3) that by (auto simp: list_all_iff)
  then have "atom \<in> set out \<longleftrightarrow> atom \<in> set (concat (map (reduce (cond_holds use' Normal)) is))" using i(4) by auto
  moreover have "use_reduce_flat (split_whitespace dep) use' Normal = Ok (concat (map (reduce (cond_holds use' Normal)) is))"
    unfolding use_reduce_flat_value using i by blast
  ultimately show ?thesis by blast
qed

theorem affecting_use_decides_witness:
  "\<exists>out'. use_reduce_flat (split_whitespace ''x? ( a/b ) y? ( c/d )'') {''y''} Normal = Ok out' \<and> ''a/b'' \<notin> set out'"
proof -
  have e: "extract_affecting_use ''x? ( a/b ) y? ( c/d )'' ''a/b'' = Some {''x''}" by code_simp
  have r: "use_reduce_flat (split_whitespace ''x? ( a/b ) y? ( c/d )'') {} Normal = Ok []" by code_simp
  have "({} :: string set) \<inter> {''x''} = {''y''} \<inter> {''x''}" by simp
  from affecting_use_decides [OF e this _ r] show ?thesis by simp
qed

end
