(* ===== verification/Eapi.thy ===== *)
theory Eapi
  imports Prelude
begin

text \<open>
  The EAPI attribute table (\<open>portage-dep/src/eapi.rs\<close>): which spellings are supported, the
  attributes each EAPI has, and the EAPI an ebuild's head declares.
\<close>

definition SUPPORTED_EAPIS :: "string list" where
  "SUPPORTED_EAPIS = [''0'', ''1'', ''2'', ''3'', ''4'', ''5'', ''6'', ''7'', ''8'', ''9'']"

definition DEPRECATED_EAPIS :: "string list" where
  "DEPRECATED_EAPIS =
     [''3_pre1'', ''3_pre2'', ''4_pre1'', ''5_pre1'', ''5_pre2'', ''6_pre1'', ''7_pre1'']"

definition TESTING_EAPIS :: "string list" where
  "TESTING_EAPIS = [''9-pre1'']"

definition trim :: "string \<Rightarrow> string" where
  "trim s = rev (dropWhile is_space (rev (dropWhile is_space s)))"

definition eapi_is_supported :: "string \<Rightarrow> bool" where
  "eapi_is_supported eapi =
     (let eapi = trim eapi
      in eapi \<in> set SUPPORTED_EAPIS \<or> eapi \<in> set TESTING_EAPIS \<or> eapi \<in> set DEPRECATED_EAPIS)"

section \<open>Attributes\<close>

record eapi_attrs =
  ea_allows_package_provided :: bool
  ea_bdepend :: bool
  ea_broot :: bool
  ea_dosed_dohard :: bool
  ea_empty_groups_always_true :: bool
  ea_exports_aa :: bool
  ea_exports_ebuild_phase_func :: bool
  ea_exports_eclassdir :: bool
  ea_exports_kv :: bool
  ea_exports_merge_type :: bool
  ea_exports_pms_vars :: bool
  ea_exports_portdir :: bool
  ea_exports_replace_vars :: bool
  ea_idepend :: bool
  ea_iuse_defaults :: bool
  ea_iuse_effective :: bool
  ea_posixish_locale :: bool
  ea_path_variables_end_with_trailing_slash :: bool
  ea_pkg_pretend :: bool
  ea_prefix :: bool
  ea_profile_file_dirs :: bool
  ea_profile_eapi_default :: bool
  ea_rdepend_depend :: bool
  ea_repo_deps :: bool
  ea_required_use :: bool
  ea_required_use_at_most_one_of :: bool
  ea_selective_src_uri_restriction :: bool
  ea_slot_operator :: bool
  ea_slot_deps :: bool
  ea_src_prepare_src_configure :: bool
  ea_src_uri_arrows :: bool
  ea_stablemask :: bool
  ea_use_stable :: bool
  ea_strong_blocks :: bool
  ea_symlink_rewrite :: bool
  ea_sysroot :: bool
  ea_use_deps :: bool
  ea_use_dep_defaults :: bool

definition permissive_attrs :: eapi_attrs where
  "permissive_attrs =
     \<lparr> ea_allows_package_provided = True,
       ea_bdepend = False,
       ea_broot = True,
       ea_dosed_dohard = False,
       ea_empty_groups_always_true = False,
       ea_exports_aa = False,
       ea_exports_ebuild_phase_func = True,
       ea_exports_eclassdir = False,
       ea_exports_kv = False,
       ea_exports_merge_type = True,
       ea_exports_pms_vars = True,
       ea_exports_portdir = True,
       ea_exports_replace_vars = True,
       ea_idepend = False,
       ea_iuse_defaults = True,
       ea_iuse_effective = False,
       ea_posixish_locale = False,
       ea_path_variables_end_with_trailing_slash = False,
       ea_pkg_pretend = True,
       ea_prefix = True,
       ea_profile_file_dirs = False,
       ea_profile_eapi_default = False,
       ea_rdepend_depend = False,
       ea_repo_deps = True,
       ea_required_use = True,
       ea_required_use_at_most_one_of = True,
       ea_selective_src_uri_restriction = True,
       ea_slot_operator = True,
       ea_slot_deps = True,
       ea_src_prepare_src_configure = True,
       ea_src_uri_arrows = True,
       ea_stablemask = True,
       ea_use_stable = True,
       ea_strong_blocks = True,
       ea_symlink_rewrite = False,
       ea_sysroot = True,
       ea_use_deps = True,
       ea_use_dep_defaults = True \<rparr>"

definition attrs_of :: "nat \<Rightarrow> eapi_attrs" where
  "attrs_of n =
     \<lparr> ea_allows_package_provided = (n \<le> 6),
       ea_bdepend = (7 \<le> n),
       ea_broot = (7 \<le> n),
       ea_dosed_dohard = (n \<le> 3),
       ea_empty_groups_always_true = (n \<le> 6),
       ea_exports_aa = (n \<le> 3),
       ea_exports_ebuild_phase_func = (5 \<le> n),
       ea_exports_eclassdir = (n \<le> 6),
       ea_exports_kv = (n \<le> 3),
       ea_exports_merge_type = (4 \<le> n),
       ea_exports_pms_vars = (n \<le> 8),
       ea_exports_portdir = (n \<le> 6),
       ea_exports_replace_vars = (4 \<le> n),
       ea_idepend = (8 \<le> n),
       ea_iuse_defaults = (1 \<le> n),
       ea_iuse_effective = (5 \<le> n),
       ea_posixish_locale = (6 \<le> n),
       ea_path_variables_end_with_trailing_slash = (n \<le> 6),
       ea_pkg_pretend = (4 \<le> n),
       ea_prefix = (3 \<le> n),
       ea_profile_file_dirs = (7 \<le> n),
       ea_profile_eapi_default = (9 \<le> n),
       ea_rdepend_depend = (n \<le> 3),
       ea_repo_deps = False,
       ea_required_use = (4 \<le> n),
       ea_required_use_at_most_one_of = (5 \<le> n),
       ea_selective_src_uri_restriction = (8 \<le> n),
       ea_slot_operator = (5 \<le> n),
       ea_slot_deps = (1 \<le> n),
       ea_src_prepare_src_configure = (2 \<le> n),
       ea_src_uri_arrows = (2 \<le> n),
       ea_stablemask = (5 \<le> n),
       ea_use_stable = (9 \<le> n),
       ea_strong_blocks = (2 \<le> n),
       ea_symlink_rewrite = (n \<le> 8),
       ea_sysroot = (7 \<le> n),
       ea_use_deps = (2 \<le> n),
       ea_use_dep_defaults = (4 \<le> n) \<rparr>"

text \<open>\<open>split_once('-')\<close>, the head.\<close>

definition before_dash :: "string \<Rightarrow> string" where
  "before_dash s = takeWhile (\<lambda>c. c \<noteq> CHR ''-'') s"

text \<open>The error is the input that \<open>EapiValueError\<close> carries.\<close>

definition eapi_attrs_of :: "string option \<Rightarrow> string + eapi_attrs" where
  "eapi_attrs_of eapi =
     (case eapi of
        None \<Rightarrow> Inr permissive_attrs
      | Some s \<Rightarrow>
          if \<not> eapi_is_supported s then Inr permissive_attrs
          else let key = before_dash s
               in if key \<notin> set SUPPORTED_EAPIS then Inl s else Inr (attrs_of (num_of key)))"

definition eapi_error_text :: "string \<Rightarrow> string" where
  "eapi_error_text input = quoted input @ '' not recognized as a valid EAPI''"

section \<open>The parse mode of an atom\<close>

datatype atom_eapi = ENone | EKnown nat | EUnsupported

definition atom_eapi_parse :: "string option \<Rightarrow> string + atom_eapi" where
  "atom_eapi_parse eapi =
     (case eapi of
        None \<Rightarrow> Inr ENone
      | Some s \<Rightarrow>
          if \<not> eapi_is_supported s then Inr EUnsupported
          else let key = before_dash s
               in if key \<in> set SUPPORTED_EAPIS then Inr (EKnown (num_of key)) else Inl s)"

text \<open>The attributes \<open>parse_atom_with\<close> reads for a mode.\<close>

definition mode_attrs :: "atom_eapi \<Rightarrow> (string, eapi_attrs) outcome" where
  "mode_attrs e =
     (let look = (\<lambda>k. case eapi_attrs_of k of Inl _ \<Rightarrow> Panicked | Inr a \<Rightarrow> Ok a)
      in case e of
           ENone \<Rightarrow> look None
         | EUnsupported \<Rightarrow> look None
         | EKnown n \<Rightarrow>
             look (Some (if n < length SUPPORTED_EAPIS then SUPPORTED_EAPIS ! n else ''10'')))"

section \<open>The head of an ebuild\<close>

definition is_blank :: "char \<Rightarrow> bool" where
  "is_blank c = (c = CHR '' '' \<or> c = CHR 0x09)"

definition eapi_char :: "char \<Rightarrow> bool" where
  "eapi_char c = (is_digit c \<or> (65 \<le> char_code c \<and> char_code c \<le> 90)
     \<or> (97 \<le> char_code c \<and> char_code c \<le> 122) \<or> c \<in> set ''+_.-'')"

text \<open>\<open>[ \t]*([ \t]#.*)?$\<close>: blanks to the end, or blanks and a comment.\<close>

definition eapi_tail :: "string \<Rightarrow> bool" where
  "eapi_tail s =
     (let r = dropWhile is_blank s
      in r = [] \<or> (hd r = CHR ''#'' \<and> r \<noteq> s))"

definition eapi_quoted :: "char \<Rightarrow> string \<Rightarrow> string option" where
  "eapi_quoted q s =
     (let v = takeWhile eapi_char s; r = dropWhile eapi_char s
      in if r \<noteq> [] \<and> hd r = q \<and> eapi_tail (tl r) then Some v else None)"

definition eapi_assignment :: "string \<Rightarrow> string option" where
  "eapi_assignment line =
     (case strip_prefix (dropWhile is_blank line) ''EAPI='' of
        None \<Rightarrow> None
      | Some s \<Rightarrow>
          if s \<noteq> [] \<and> hd s = CHR 0x22 then eapi_quoted (CHR 0x22) (tl s)
          else if s \<noteq> [] \<and> hd s = CHR 0x27 then eapi_quoted (CHR 0x27) (tl s)
          else if eapi_tail (dropWhile eapi_char s) then Some (takeWhile eapi_char s)
          else None)"

definition comment_or_blank :: "string \<Rightarrow> bool" where
  "comment_or_blank line =
     (let r = dropWhile is_space line in r = [] \<or> hd r = CHR ''#'')"

text \<open>\<open>str::lines\<close>: pieces between newlines without a final carriage return, no last empty piece.\<close>

definition drop_cr :: "string \<Rightarrow> string" where
  "drop_cr l = (if l \<noteq> [] \<and> last l = CHR 0x0D then butlast l else l)"

definition lines_of :: "string \<Rightarrow> string list" where
  "lines_of s =
     (let ps = split_char (CHR 0x0A) s
      in if last ps = [] then map drop_cr (butlast ps)
         else map drop_cr (butlast ps) @ [last ps])"

fun eapi_of_lines :: "string list \<Rightarrow> string" where
  "eapi_of_lines [] = ''0''"
| "eapi_of_lines (l # ls) =
     (if comment_or_blank l then eapi_of_lines ls
      else case eapi_assignment l of Some v \<Rightarrow> v | None \<Rightarrow> ''0'')"

definition parse_eapi_head :: "string \<Rightarrow> string" where
  "parse_eapi_head ebuild_text = eapi_of_lines (lines_of ebuild_text)"


section \<open>The spellings and the modes\<close>

lemma mode_attrs_Ok: "\<exists>attrs. mode_attrs e = Ok attrs"
proof (cases e)
  case (EKnown n)
  have "before_dash (SUPPORTED_EAPIS ! n) \<in> set SUPPORTED_EAPIS" if "n < length SUPPORTED_EAPIS"
    using that by (auto simp: SUPPORTED_EAPIS_def before_dash_def nth_Cons' split: if_splits)
  moreover have "\<not> eapi_is_supported ''10''" by code_simp
  ultimately show ?thesis
    by (auto simp: mode_attrs_def EKnown eapi_attrs_of_def Let_def)
qed (auto simp: mode_attrs_def eapi_attrs_of_def)

lemma attrs_of_key:
  assumes "n < length SUPPORTED_EAPIS"
  shows "mode_attrs (EKnown n) = Ok (attrs_of n)"
proof -
  have "\<forall>n \<in> set [0..<length SUPPORTED_EAPIS].
      mode_attrs (EKnown n) = Ok (attrs_of n)" by code_simp
  then show ?thesis using assms by auto
qed

text \<open>The text is a supported one with blanks after it when it does not begin with a blank.\<close>

lemma trim_front:
  assumes "dropWhile is_space e = e"
  shows "\<exists>u. e = trim e @ u \<and> (\<forall>c \<in> set u. is_space c)"
proof -
  have "e = trim e @ rev (takeWhile is_space (rev e))"
    unfolding trim_def assms by (metis rev_append rev_rev_ident takeWhile_dropWhile_id)
  then show ?thesis by (metis set_rev set_takeWhileD)
qed

lemma trim_append:
  assumes "\<forall>c \<in> set u. is_space c" "k \<noteq> []" "\<not> is_space (hd k)" "\<not> is_space (last k)"
  shows "trim (k @ u) = k"
proof -
  have "dropWhile is_space (k @ u) = k @ u" using assms(2,3) by (cases k) auto
  moreover have "dropWhile is_space (rev u @ rev k) = rev k"
    using assms by (cases k rule: rev_cases) (auto simp: dropWhile_append)
  ultimately show ?thesis by (simp add: trim_def)
qed

definition spells :: "string \<Rightarrow> nat \<Rightarrow> bool" where
  "spells e n \<longleftrightarrow>
     n < length SUPPORTED_EAPIS \<and> e = SUPPORTED_EAPIS ! n \<or>
     n = 9 \<and> (\<exists>u. e = ''9-pre1'' @ u \<and> (\<forall>c \<in> set u. is_space c))"

lemma supported_keys:
  "\<forall>k \<in> set SUPPORTED_EAPIS. length k = 1 \<and> \<not> is_space (hd k) \<and> num_of k < length SUPPORTED_EAPIS \<and>
     SUPPORTED_EAPIS ! num_of k = k \<and> CHR ''-'' \<notin> set k"
  by code_simp

lemma dashed_spellings:
  "\<forall>k \<in> set (SUPPORTED_EAPIS @ TESTING_EAPIS @ DEPRECATED_EAPIS). CHR ''-'' \<in> set k \<longrightarrow> k = ''9-pre1''"
  by code_simp

lemma known_spelling:
  assumes "atom_eapi_parse (Some e) = Inr (EKnown n)"
  shows "n < length SUPPORTED_EAPIS \<and> spells e n"
proof -
  from assms have sup: "trim e \<in> set (SUPPORTED_EAPIS @ TESTING_EAPIS @ DEPRECATED_EAPIS)"
      and key: "before_dash e \<in> set SUPPORTED_EAPIS" and n: "n = num_of (before_dash e)"
    by (auto simp: atom_eapi_parse_def eapi_is_supported_def Let_def split: if_splits)
  have num: "n < length SUPPORTED_EAPIS" "SUPPORTED_EAPIS ! n = before_dash e"
    using key n supported_keys by auto
  show ?thesis
  proof (cases "before_dash e = e")
    case True
    then show ?thesis using num by (simp add: spells_def)
  next
    case False
    have "\<not> (\<forall>c \<in> set e. c \<noteq> CHR ''-'')"
      using False takeWhile_eq_all_conv [of "\<lambda>c. c \<noteq> CHR ''-''" e] unfolding before_dash_def by blast
    then have dash: "CHR ''-'' \<in> set e" by blast
    have k1: "length (before_dash e) = 1" "\<not> is_space (hd (before_dash e))" using supported_keys key by blast+
    have bk: "before_dash e \<noteq> []" "\<not> is_space (hd (before_dash e))" using k1 by auto
    obtain x r where er: "e = x # r" "x \<noteq> CHR ''-''"
      using bk(1) unfolding before_dash_def by (cases e) (auto split: if_splits)
    then have "e \<noteq> []" "hd (before_dash e) = hd e" by (simp_all add: before_dash_def)
    then have "dropWhile is_space e = e" using bk(2) by (cases e) auto
    then obtain u where u: "e = trim e @ u" "\<forall>c \<in> set u. is_space c" using trim_front by blast
    have "\<not> is_space CHR ''-''" by (simp add: is_space_def)
    then have "CHR ''-'' \<notin> set u" using u(2) by blast
    then have "CHR ''-'' \<in> set (trim e)" using dash u(1) by (metis Un_iff set_append)
    then have nine: "trim e = ''9-pre1''" using dashed_spellings sup by blast
    then have e: "e = ''9-pre1'' @ u" using u(1) by simp
    then have "n = 9" unfolding n by (simp add: before_dash_def num_of_def digit_val_def char_code_def)
    then show ?thesis using num(1) e u(2) by (auto simp: spells_def)
  qed
qed

lemma spelling_known:
  assumes "spells e n" shows "atom_eapi_parse (Some e) = Inr (EKnown n)"
proof -
  consider "n < length SUPPORTED_EAPIS" "e = SUPPORTED_EAPIS ! n"
    | u where "n = 9" "e = ''9-pre1'' @ u" "\<forall>c \<in> set u. is_space c"
    using assms by (auto simp: spells_def)
  then show ?thesis
  proof cases
    case 1
    have "\<forall>n \<in> set [0..<length SUPPORTED_EAPIS]. atom_eapi_parse (Some (SUPPORTED_EAPIS ! n)) = Inr (EKnown n)"
      by code_simp
    then show ?thesis using 1 by auto
  next
    case 2
    have "\<not> is_space CHR ''9''" "\<not> is_space CHR ''1''" by (simp_all add: is_space_def)
    then have "trim e = ''9-pre1''" using trim_append [OF 2(3), of "''9-pre1''"] 2(2) by simp
    moreover have "before_dash e = ''9''" using 2(2) by (simp add: before_dash_def)
    moreover have "num_of ''9'' = 9" by (simp add: digit_val_def char_code_def)
    ultimately show ?thesis
      using 2(1) by (simp add: atom_eapi_parse_def eapi_is_supported_def TESTING_EAPIS_def SUPPORTED_EAPIS_def)
  qed
qed

text \<open>
  The two readers of an EAPI text agree, and neither lookup of attributes can panic: the text of a
  parse mode gives the attributes that the atom parser uses for that mode, and both reject the same
  texts. The texts of a known EAPI are its digit and, for EAPI 9, \<open>9-pre1\<close> with blanks after it; a
  digit with blanks is rejected although the test of a supported EAPI trims it.
\<close>

theorem eapi_readers_agree:
  "(case atom_eapi_parse x of
      Inr mode \<Rightarrow> (case eapi_attrs_of x of Inr attrs \<Rightarrow> mode_attrs mode = Ok attrs | Inl _ \<Rightarrow> False)
    | Inl e \<Rightarrow> x = Some e \<and> eapi_attrs_of x = Inl e \<and> eapi_is_supported e) \<and>
   (atom_eapi_parse (Some e) = Inr (EKnown n) \<longleftrightarrow> spells e n)"
proof -
  have "mode_attrs (EKnown (num_of k)) = Ok (attrs_of (num_of k))" if "k \<in> set SUPPORTED_EAPIS" for k
    using that supported_keys by (intro attrs_of_key) auto
  then have "case atom_eapi_parse x of
      Inr mode \<Rightarrow> (case eapi_attrs_of x of Inr attrs \<Rightarrow> mode_attrs mode = Ok attrs | Inl _ \<Rightarrow> False)
    | Inl e \<Rightarrow> x = Some e \<and> eapi_attrs_of x = Inl e \<and> eapi_is_supported e"
    by (cases x) (auto simp: atom_eapi_parse_def eapi_attrs_of_def Let_def mode_attrs_def)
  then show ?thesis using known_spelling spelling_known by blast
qed

end
