(* ===== verification/Atom.thy ===== *)
theory Atom
  imports Versions Eapi
begin

text \<open>
  Atoms and candidates (\<open>portage-dep/src/lib.rs\<close>): the data, the printers, the version, slot and
  repository tests of the matcher, and USE dependencies. A \<open>HashSet\<close> of flags is a set. The two
  parsers are in \<open>AtomParse\<close>.
\<close>

section \<open>Data\<close>

datatype blocker = BlockNone | BlockWeak | BlockStrong

datatype operator = OpNone | OpEq | OpEqGlob | OpGt | OpGe | OpLt | OpLe | OpTilde

fun operator_str :: "operator \<Rightarrow> string" where
  "operator_str OpNone = []"
| "operator_str OpEq = ''=''"
| "operator_str OpEqGlob = ''=*''"
| "operator_str OpGt = ''>''"
| "operator_str OpGe = ''>=''"
| "operator_str OpLt = ''<''"
| "operator_str OpLe = ''<=''"
| "operator_str OpTilde = ''~''"

text \<open>\<open>unreachable!\<close> is a panic.\<close>

definition operator_from_str :: "string \<Rightarrow> operator run" where
  "operator_from_str s =
     (if s = ''='' then Return OpEq
      else if s = ''>'' then Return OpGt
      else if s = ''>='' then Return OpGe
      else if s = ''<'' then Return OpLt
      else if s = ''<='' then Return OpLe
      else if s = ''~'' then Return OpTilde
      else Panic)"

datatype slot_operator = SlotStar | SlotEquals

datatype use_dep_op =
    UseEnabled | UseDisabled | IfParentEnabled | IfParentDisabled | EqualParent | OppositeParent

datatype use_dep_default = DefaultEnabled | DefaultDisabled

record use_dep =
  ud_flag :: string
  ud_op :: use_dep_op
  ud_default :: "use_dep_default option"

record atom =
  a_blocker :: blocker
  a_operator :: operator
  a_category :: string
  a_package :: string
  a_version :: "string option"
  a_revision :: "string option"
  a_slot :: "string option"
  a_sub_slot :: "string option"
  a_slot_operator :: "slot_operator option"
  a_use_deps :: "use_dep list option"
  a_repo :: "string option"
  a_build_id :: "string option"
  a_extended :: bool

definition atom_full_version :: "atom \<Rightarrow> string option" where
  "atom_full_version a =
     map_option (\<lambda>v. case a_revision a of Some r \<Rightarrow> v @ ''-r'' @ r | None \<Rightarrow> v) (a_version a)"

record candidate =
  c_category :: string
  c_package :: string
  c_version :: string
  c_revision :: "string option"
  c_slot :: "string option"
  c_sub_slot :: "string option"
  c_repo :: "string option"
  c_build_id :: "string option"

definition candidate_full_version :: "candidate \<Rightarrow> string" where
  "candidate_full_version c =
     (case c_revision c of Some r \<Rightarrow> c_version c @ ''-r'' @ r | None \<Rightarrow> c_version c)"

section \<open>Printing\<close>

fun default_str :: "use_dep_default option \<Rightarrow> string" where
  "default_str None = []"
| "default_str (Some DefaultEnabled) = ''(+)''"
| "default_str (Some DefaultDisabled) = ''(-)''"

text \<open>The closure of \<open>render_atom\<close>.\<close>

definition use_dep_text :: "use_dep \<Rightarrow> string" where
  "use_dep_text ud =
     (let d = default_str (ud_default ud)
      in case ud_op ud of
           UseEnabled \<Rightarrow> ud_flag ud @ d
         | UseDisabled \<Rightarrow> ''-'' @ ud_flag ud @ d
         | IfParentEnabled \<Rightarrow> ud_flag ud @ d @ ''?''
         | IfParentDisabled \<Rightarrow> ''!'' @ ud_flag ud @ d @ ''?''
         | EqualParent \<Rightarrow> ud_flag ud @ d @ ''=''
         | OppositeParent \<Rightarrow> ''!'' @ ud_flag ud @ d @ ''='')"

definition version_text :: "atom \<Rightarrow> string" where
  "version_text a =
     (case a_version a of
        None \<Rightarrow> []
      | Some v \<Rightarrow>
          ''-'' @ v @ (case a_revision a of Some r \<Rightarrow> ''-r'' @ r | None \<Rightarrow> [])
          @ (if a_operator a = OpEqGlob \<and> \<not> a_extended a then ''*''
             else case a_build_id a of Some bid \<Rightarrow> ''-'' @ bid | None \<Rightarrow> []))"

fun slot_operator_text :: "slot_operator option \<Rightarrow> string" where
  "slot_operator_text None = []"
| "slot_operator_text (Some SlotStar) = ''*''"
| "slot_operator_text (Some SlotEquals) = ''=''"

definition slot_text :: "atom \<Rightarrow> string" where
  "slot_text a =
     (case a_slot a of
        Some slot \<Rightarrow>
          '':'' @ slot @ (case a_sub_slot a of Some sub \<Rightarrow> ''/'' @ sub | None \<Rightarrow> [])
          @ slot_operator_text (a_slot_operator a)
      | None \<Rightarrow>
          (case a_slot_operator a of
             Some sop \<Rightarrow> '':'' @ slot_operator_text (Some sop)
           | None \<Rightarrow> []))"

fun blocker_text :: "blocker \<Rightarrow> string" where
  "blocker_text BlockNone = []"
| "blocker_text BlockWeak = ''!''"
| "blocker_text BlockStrong = ''!!''"

definition render_atom :: "atom \<Rightarrow> string" where
  "render_atom a =
     blocker_text (a_blocker a) @ operator_str (a_operator a) @ a_category a @ ''/'' @ a_package a
     @ version_text a @ slot_text a
     @ (case a_repo a of Some repo \<Rightarrow> ''::'' @ repo | None \<Rightarrow> [])
     @ (case a_use_deps a of
          Some deps \<Rightarrow> ''['' @ join '','' (map use_dep_text deps) @ '']''
        | None \<Rightarrow> [])"

definition atom_to_string :: "atom \<Rightarrow> string" where
  "atom_to_string a = render_atom a"

definition render_use_dep :: "use_dep \<Rightarrow> string" where
  "render_use_dep ud =
     (let d = default_str (ud_default ud)
      in case ud_op ud of
           UseEnabled \<Rightarrow> ud_flag ud @ d
         | UseDisabled \<Rightarrow> ''-'' @ ud_flag ud @ d
         | IfParentEnabled \<Rightarrow> ud_flag ud @ ''?'' @ d
         | IfParentDisabled \<Rightarrow> ''!'' @ ud_flag ud @ ''?'' @ d
         | EqualParent \<Rightarrow> ud_flag ud @ ''='' @ d
         | OppositeParent \<Rightarrow> ''!'' @ ud_flag ud @ ''='' @ d)"

definition without_use :: "string \<Rightarrow> string" where
  "without_use s = takeWhile (\<lambda>c. c \<noteq> CHR ''['') s"

section \<open>Matching\<close>

text \<open>The pattern as a regular expression: a star is \<open>[^/]*\<close>, everything else is itself.\<close>

fun extended_cp_match :: "string \<Rightarrow> string \<Rightarrow> bool" where
  "extended_cp_match [] s = (s = [])"
| "extended_cp_match (p # ps) [] = (p = CHR ''*'' \<and> extended_cp_match ps [])"
| "extended_cp_match (p # ps) (c # s) =
     (if p = CHR ''*''
      then extended_cp_match ps (c # s) \<or> (c \<noteq> CHR ''/'' \<and> extended_cp_match (p # ps) s)
      else p = c \<and> extended_cp_match ps s)"

definition normalize_leading_zeros :: "string \<Rightarrow> string" where
  "normalize_leading_zeros version =
     (let stripped = dropWhile (\<lambda>c. c = CHR ''0'') version
      in if stripped \<noteq> [] \<and> is_digit (hd stripped) then stripped else ''0'' @ stripped)"

definition glob_compare_string :: "string \<Rightarrow> string option \<Rightarrow> string" where
  "glob_compare_string version revision =
     (let normalized = normalize_leading_zeros version
      in case revision of Some r \<Rightarrow> normalized @ ''-r'' @ r | None \<Rightarrow> normalized)"

fun contains_str :: "string \<Rightarrow> string \<Rightarrow> bool" where
  "contains_str [] p = (p = [])"
| "contains_str (c # s) p = (starts_with (c # s) p \<or> contains_str s p)"

definition expect_some :: "'a option \<Rightarrow> 'a run" where
  "expect_some x = (case x of None \<Rightarrow> Panic | Some y \<Rightarrow> Return y)"

definition star_inner :: "string \<Rightarrow> string option" where
  "star_inner ver =
     (case strip_prefix ver ''*'' of None \<Rightarrow> None | Some v \<Rightarrow> strip_suffix_char v CHR ''*'')"

definition glob_boundary :: "string \<Rightarrow> string \<Rightarrow> bool" where
  "glob_boundary atom_cmp cand_cmp =
     (case strip_prefix cand_cmp atom_cmp of
        None \<Rightarrow> False
      | Some [] \<Rightarrow> True
      | Some (nxt # _) \<Rightarrow>
          nxt \<in> {CHR ''.'', CHR ''_'', CHR ''-''} \<or>
          (atom_cmp \<noteq> [] \<and> is_digit (last atom_cmp)) \<noteq> is_digit nxt)"

definition matches_version :: "atom \<Rightarrow> candidate \<Rightarrow> bool run" where
  "matches_version a c =
     (case a_operator a of
        OpNone \<Rightarrow> Return True
      | OpEq \<Rightarrow>
          if a_build_id a \<noteq> None \<and> a_build_id a \<noteq> c_build_id c then Return False
          else run_bind (expect_some (atom_full_version a)) (\<lambda>v.
               run_bind (vercmp (candidate_full_version c) v) (\<lambda>r. Return (r = Some 0)))
      | OpEqGlob \<Rightarrow>
          if a_extended a
          then run_bind (expect_some (a_version a)) (\<lambda>ver.
               run_bind (expect_some (star_inner ver)) (\<lambda>inner.
                 Return (contains_str (candidate_full_version c) inner)))
          else run_bind (expect_some (a_version a)) (\<lambda>ver.
                 Return (glob_boundary (glob_compare_string ver (a_revision a))
                           (glob_compare_string (c_version c) (c_revision c))))
      | OpTilde \<Rightarrow> run_bind (expect_some (a_version a)) (\<lambda>ver. Return (c_version c = ver))
      | op \<Rightarrow>
          run_bind (expect_some (atom_full_version a)) (\<lambda>v.
          run_bind (vercmp (candidate_full_version c) v) (\<lambda>r.
            Return (case r of
                      None \<Rightarrow> False
                    | Some cmp \<Rightarrow>
                        (case op of OpGt \<Rightarrow> cmp > 0 | OpGe \<Rightarrow> cmp \<ge> 0 | OpLt \<Rightarrow> cmp < 0
                         | _ \<Rightarrow> cmp \<le> 0)))))"

definition matches_slot :: "atom \<Rightarrow> candidate \<Rightarrow> bool" where
  "matches_slot a c =
     (case a_slot a of
        None \<Rightarrow> True
      | Some atom_slot \<Rightarrow>
          (case c_slot c of
             None \<Rightarrow> True
           | Some candidate_slot \<Rightarrow>
               if candidate_slot \<noteq> atom_slot then False
               else (case a_sub_slot a of
                       None \<Rightarrow> True
                     | Some atom_sub \<Rightarrow> c_sub_slot c = Some atom_sub)))"

definition matches_repo :: "atom \<Rightarrow> candidate \<Rightarrow> bool" where
  "matches_repo a c =
     (case a_repo a of
        None \<Rightarrow> True
      | Some want \<Rightarrow>
          (case c_repo c of
             None \<Rightarrow> True
           | Some have_repo \<Rightarrow> have_repo = want \<or> have_repo = ''__unknown__''))"

definition candidate_hits :: "atom \<Rightarrow> candidate \<Rightarrow> bool run" where
  "candidate_hits a c =
     (let exact = (a_category a = c_category c \<and> a_package a = c_package c)
      in if \<not> exact \<and> \<not> (a_extended a \<and>
              extended_cp_match (a_category a @ ''/'' @ a_package a) (c_category c @ ''/'' @ c_package c))
         then Return False
         else run_bind (matches_version a c) (\<lambda>m.
                Return (m \<and> matches_slot a c \<and> matches_repo a c)))"

definition atom_intersects :: "atom \<Rightarrow> atom \<Rightarrow> bool" where
  "atom_intersects a b =
     (if a_category a \<noteq> a_category b \<or> a_package a \<noteq> a_package b \<or> a_use_deps a \<noteq> a_use_deps b
         \<or> a_operator a \<noteq> a_operator b \<or> atom_full_version a \<noteq> atom_full_version b
      then False
      else a_slot a = None \<or> a_slot b = None \<or> a_slot a = a_slot b)"

text \<open>\<open>i32::MIN\<close> is what a missing slot contributes.\<close>

definition parsed_specificity :: "atom \<Rightarrow> int" where
  "parsed_specificity a =
     (if a_extended a
      then (if a_operator a = OpEqGlob then 0 else if a_slot a \<noteq> None then -1 else -2)
      else max (case a_operator a of
                  OpEq \<Rightarrow> 6 | OpTilde \<Rightarrow> 5 | OpEqGlob \<Rightarrow> 4
                | OpGt \<Rightarrow> 2 | OpGe \<Rightarrow> 2 | OpLt \<Rightarrow> 2 | OpLe \<Rightarrow> 2 | OpNone \<Rightarrow> 1)
               (if a_slot a \<noteq> None then 3 else - 2147483648))"

section \<open>USE dependencies\<close>

definition use_deps_satisfied_union ::
  "use_dep list \<Rightarrow> string set \<Rightarrow> string set list \<Rightarrow> string set \<Rightarrow> bool" where
  "use_deps_satisfied_union use_deps declared unions enabled =
     (let valid = (\<lambda>flag. flag \<in> declared \<or> list_ex (\<lambda>u. flag \<in> u) unions)
      in if list_ex (\<lambda>ud. ud_default ud = None \<and> \<not> valid (ud_flag ud)) use_deps then False
         else
           let missing_enabled = set (map ud_flag
                 (filter (\<lambda>ud. ud_default ud = Some DefaultEnabled \<and> \<not> valid (ud_flag ud)) use_deps));
               missing_disabled = set (map ud_flag
                 (filter (\<lambda>ud. ud_default ud = Some DefaultDisabled \<and> \<not> valid (ud_flag ud)) use_deps));
               required_enabled = map ud_flag (filter (\<lambda>ud. ud_op ud = UseEnabled) use_deps);
               required_disabled = map ud_flag (filter (\<lambda>ud. ud_op ud = UseDisabled) use_deps)
           in if required_enabled \<noteq> [] \<and> list_ex (\<lambda>f. f \<in> missing_disabled) required_enabled
              then False
              else
                let need_enabled = filter (\<lambda>f. f \<notin> enabled) required_enabled
                in if required_enabled \<noteq> [] \<and> need_enabled \<noteq> []
                      \<and> list_ex (\<lambda>f. f \<notin> missing_enabled) need_enabled then False
                   else if required_disabled \<noteq> []
                      \<and> list_ex (\<lambda>f. f \<in> missing_enabled) required_disabled then False
                   else
                     let need_disabled = filter (\<lambda>f. f \<in> enabled) required_disabled
                     in \<not> (required_disabled \<noteq> [] \<and> need_disabled \<noteq> []
                           \<and> list_ex (\<lambda>f. f \<notin> missing_disabled) need_disabled))"

definition use_deps_satisfied :: "use_dep list \<Rightarrow> string set \<Rightarrow> string set \<Rightarrow> bool" where
  "use_deps_satisfied use_deps iuse enabled = use_deps_satisfied_union use_deps iuse [] enabled"

definition use_hit :: "string set \<Rightarrow> string set \<Rightarrow> use_dep \<Rightarrow> bool" where
  "use_hit other_use other_iuse ud =
     (case ud_op ud of
        UseEnabled \<Rightarrow>
          ud_flag ud \<notin> other_use \<and>
          (ud_flag ud \<in> other_iuse \<or> ud_default ud = Some DefaultDisabled)
      | UseDisabled \<Rightarrow>
          ud_flag ud \<in> other_use \<or>
          (ud_flag ud \<notin> other_iuse \<and> ud_default ud = Some DefaultEnabled)
      | _ \<Rightarrow> False)"

definition use_mismatch_flags ::
  "use_dep list \<Rightarrow> string set \<Rightarrow> string set \<Rightarrow> string set \<times> string set" where
  "use_mismatch_flags use_deps other_use other_iuse =
     (let missing = set (map ud_flag
            (filter (\<lambda>ud. ud_default ud = None \<and> ud_flag ud \<notin> other_iuse) use_deps))
      in if missing \<noteq> {} then (missing, {})
         else ({}, set (map ud_flag (filter (use_hit other_use other_iuse) use_deps))))"

definition evaluate_use_dep :: "string set \<Rightarrow> use_dep \<Rightarrow> use_dep option" where
  "evaluate_use_dep parent_use ud =
     (let on = (ud_flag ud \<in> parent_use)
      in case ud_op ud of
           UseEnabled \<Rightarrow> Some ud
         | UseDisabled \<Rightarrow> Some ud
         | IfParentEnabled \<Rightarrow> if on then Some (ud\<lparr> ud_op := UseEnabled \<rparr>) else None
         | IfParentDisabled \<Rightarrow> if on then None else Some (ud\<lparr> ud_op := UseDisabled \<rparr>)
         | EqualParent \<Rightarrow> Some (ud\<lparr> ud_op := (if on then UseEnabled else UseDisabled) \<rparr>)
         | OppositeParent \<Rightarrow> Some (ud\<lparr> ud_op := (if on then UseDisabled else UseEnabled) \<rparr>))"

definition evaluate_use_dep_conditionals :: "use_dep list \<Rightarrow> string set \<Rightarrow> use_dep list" where
  "evaluate_use_dep_conditionals use_deps parent_use =
     List.map_filter (evaluate_use_dep parent_use) use_deps"

definition use_deps_violated ::
  "use_dep list \<Rightarrow> string set \<Rightarrow> string set \<Rightarrow> string set \<Rightarrow> bool" where
  "use_deps_violated use_deps parent_use child_use child_iuse =
     (\<not> use_deps_satisfied (evaluate_use_dep_conditionals use_deps parent_use) child_iuse child_use)"

section \<open>Conditional flags and IUSE\<close>

datatype atom_error_kind = Invalid | EapiIncompatible | AtomIuseMissing

record atom_error =
  ae_kind :: atom_error_kind
  ae_message :: string

definition invalid_atom :: "string \<Rightarrow> atom_error" where
  "invalid_atom s = \<lparr> ae_kind = Invalid, ae_message = s \<rparr>"

text \<open>The type of a conditional form, and its text around the flag.\<close>

fun cond_type :: "use_dep_op \<Rightarrow> string option" where
  "cond_type IfParentEnabled = Some ''enabled''"
| "cond_type IfParentDisabled = Some ''disabled''"
| "cond_type EqualParent = Some ''equal''"
| "cond_type OppositeParent = Some ''not_equal''"
| "cond_type _ = None"

definition conditional_text :: "string \<Rightarrow> string \<Rightarrow> string" where
  "conditional_text ct flag =
     (if ct = ''enabled'' then flag @ ''?''
      else if ct = ''disabled'' then ''!'' @ flag @ ''?''
      else if ct = ''equal'' then flag @ ''=''
      else ''!'' @ flag @ ''='')"

text \<open>\<open>sort_unstable\<close> of strings: by bytes; equal strings cannot be told apart.\<close>

fun insert_str :: "string \<Rightarrow> string list \<Rightarrow> string list" where
  "insert_str s [] = [s]"
| "insert_str s (t # ts) = (if cmp_str s t = Greater then t # insert_str s ts else s # t # ts)"

definition sort_str :: "string list \<Rightarrow> string list" where
  "sort_str ss = foldr insert_str ss []"

definition cond_order :: "use_dep list \<Rightarrow> string list" where
  "cond_order deps =
     fold (\<lambda>ud order. case cond_type (ud_op ud) of
             None \<Rightarrow> order
           | Some ct \<Rightarrow> if ct \<in> set order then order else order @ [ct]) deps []"

definition flags_of_type :: "use_dep list \<Rightarrow> string \<Rightarrow> string list" where
  "flags_of_type deps ct = map ud_flag (filter (\<lambda>ud. cond_type (ud_op ud) = Some ct) deps)"

fun first_invalid :: "(string \<Rightarrow> bool) \<Rightarrow> (string \<times> string) list \<Rightarrow> (string \<times> string) option" where
  "first_invalid valid [] = None"
| "first_invalid valid ((ct, flag) # cs) =
     (if valid flag then first_invalid valid cs else Some (ct, flag))"

definition check_conditional_flags ::
  "atom \<Rightarrow> atom_eapi \<Rightarrow> (string \<Rightarrow> bool) \<Rightarrow> atom_error + unit" where
  "check_conditional_flags a eapi is_valid_flag =
     (if eapi = ENone then Inr ()
      else case a_use_deps a of
             None \<Rightarrow> Inr ()
           | Some deps \<Rightarrow>
               (case first_invalid is_valid_flag
                       (concat (map (\<lambda>ct. map (Pair ct) (sort_str (flags_of_type deps ct)))
                                 (cond_order deps))) of
                  None \<Rightarrow> Inr ()
                | Some (ct, flag) \<Rightarrow>
                    Inl \<lparr> ae_kind = AtomIuseMissing,
                          ae_message =
                            ''USE flag '' @ quoted flag @ '' referenced in conditional ''
                            @ quoted (conditional_text ct flag) @ '' in atom ''
                            @ quoted (render_atom a) @ '' is not in IUSE'' \<rparr>))"

end
