(* ===== verification/Regex.thy ===== *)
theory Regex
  imports Prelude
begin

text \<open>
  What the sources use of the \<open>regex\<close> crate: anchored patterns with greedy and lazy repetition,
  alternation and named groups. \<open>rx_run\<close> lists the ways to match a prefix in the order of
  preference of leftmost-first matching, with the rest of the text and the captures; the match of
  an anchored pattern is the first way that leaves nothing.
\<close>

datatype rx =
    Chr "char \<Rightarrow> bool"
  | Eps
  | Seq rx rx
  | Alt rx rx
  | Star rx
  | LazyStar rx
  | Cap string rx

type_synonym captures = "(string \<times> string) list"
type_synonym matcher = "string \<Rightarrow> captures \<Rightarrow> (string \<times> captures) list"

text \<open>A repetition takes another round only if the round consumes something.\<close>

function star_run :: "bool \<Rightarrow> matcher \<Rightarrow> matcher" where
  "star_run greedy f s c =
     (let more = concat (map (\<lambda>(s', c'). if length s' < length s then star_run greedy f s' c' else [])
                   (f s c))
      in if greedy then more @ [(s, c)] else (s, c) # more)"
  by pat_completeness auto
termination
  by (relation "measure (\<lambda>(_, _, s, _). length s)") auto

declare star_run.simps [simp del]

primrec rx_run :: "rx \<Rightarrow> matcher" where
  "rx_run (Chr p) = (\<lambda>s c. case s of [] \<Rightarrow> [] | x # r \<Rightarrow> if p x then [(r, c)] else [])"
| "rx_run Eps = (\<lambda>s c. [(s, c)])"
| "rx_run (Seq a b) = (\<lambda>s c. concat (map (\<lambda>(s', c'). rx_run b s' c') (rx_run a s c)))"
| "rx_run (Alt a b) = (\<lambda>s c. rx_run a s c @ rx_run b s c)"
| "rx_run (Star a) = star_run True (rx_run a)"
| "rx_run (LazyStar a) = star_run False (rx_run a)"
| "rx_run (Cap n a) =
     (\<lambda>s c. map (\<lambda>(s', c'). (s', (n, take (length s - length s') s) # c')) (rx_run a s c))"

definition rx_captures :: "rx \<Rightarrow> string \<Rightarrow> captures option" where
  "rx_captures r s =
     (case filter (\<lambda>(s', c). s' = []) (rx_run r s []) of [] \<Rightarrow> None | (_, c) # _ \<Rightarrow> Some c)"

abbreviation rx_group :: "captures \<Rightarrow> string \<Rightarrow> string option" where
  "rx_group \<equiv> map_of"

text \<open>The usual abbreviations: \<open>r?\<close>, \<open>r+\<close>, a literal.\<close>

definition Opt :: "rx \<Rightarrow> rx" where
  "Opt r = Alt r Eps"

definition Plus :: "rx \<Rightarrow> rx" where
  "Plus r = Seq r (Star r)"

fun Lit :: "string \<Rightarrow> rx" where
  "Lit [] = Eps"
| "Lit (x # xs) = Seq (Chr (\<lambda>c. c = x)) (Lit xs)"

fun seqs :: "rx list \<Rightarrow> rx" where
  "seqs [] = Eps"
| "seqs [r] = r"
| "seqs (r # s # rs) = Seq r (seqs (s # rs))"

fun alts :: "rx list \<Rightarrow> rx" where
  "alts [] = Eps"
| "alts [r] = r"
| "alts (r # s # rs) = Alt r (alts (s # rs))"

section \<open>The language of a pattern\<close>

inductive rx_lang :: "rx \<Rightarrow> string \<Rightarrow> bool" where
  "p x \<Longrightarrow> rx_lang (Chr p) [x]"
| "rx_lang Eps []"
| "rx_lang a u \<Longrightarrow> rx_lang b v \<Longrightarrow> rx_lang (Seq a b) (u @ v)"
| "rx_lang a u \<Longrightarrow> rx_lang (Alt a b) u"
| "rx_lang b u \<Longrightarrow> rx_lang (Alt a b) u"
| "rx_lang (Star a) []"
| "rx_lang a u \<Longrightarrow> rx_lang (Star a) v \<Longrightarrow> rx_lang (Star a) (u @ v)"
| "rx_lang (LazyStar a) []"
| "rx_lang a u \<Longrightarrow> rx_lang (LazyStar a) v \<Longrightarrow> rx_lang (LazyStar a) (u @ v)"
| "rx_lang a u \<Longrightarrow> rx_lang (Cap n a) u"

inductive_simps rx_lang_simps [simp]:
  "rx_lang (Chr p) s" "rx_lang Eps s" "rx_lang (Seq a b) s" "rx_lang (Alt a b) s" "rx_lang (Cap n a) s"

lemma star_run_iff:
  "(s', c') \<in> set (star_run g f s c) \<longleftrightarrow>
     (s', c') = (s, c) \<or>
     (\<exists>s1 c1. (s1, c1) \<in> set (f s c) \<and> length s1 < length s \<and> (s', c') \<in> set (star_run g f s1 c1))"
  by (subst star_run.simps) (auto simp: Let_def split: if_splits)

lemma star_run_stop [simp]: "(s, c) \<in> set (star_run g f s c)"
  by (subst star_run_iff) simp

lemma star_run_induct [consumes 1, case_names stop more]:
  assumes "(s', c') \<in> set (star_run g f s c)"
    and "P s' c'"
    and "\<And>s c s1 c1. (s1, c1) \<in> set (f s c) \<Longrightarrow> length s1 < length s \<Longrightarrow>
           (s', c') \<in> set (star_run g f s1 c1) \<Longrightarrow> P s1 c1 \<Longrightarrow> P s c"
  shows "P s c"
  using assms(1)
proof (induction "length s" arbitrary: s c rule: less_induct)
  case less
  then show ?case
    using assms(2,3) by (subst (asm) (2) star_run_iff) blast
qed

text \<open>
  Every way of matching consumes a word of the language; the captures it adds are captures of
  words, pushed on the old ones.
\<close>

lemma rx_run_lang:
  "(s', c') \<in> set (rx_run r s c) \<Longrightarrow> \<exists>u. rx_lang r u \<and> s = u @ s'"
proof (induction r arbitrary: s c s' c')
  case (Chr p)
  then show ?case by (auto split: list.splits if_splits)
next
  case (Seq a b)
  from Seq.prems obtain s1 c1 where 1: "(s1, c1) \<in> set (rx_run a s c)" "(s', c') \<in> set (rx_run b s1 c1)"
    by auto
  obtain u v where "rx_lang a u" "s = u @ s1" "rx_lang b v" "s1 = v @ s'"
    using Seq.IH(1) [OF 1(1)] Seq.IH(2) [OF 1(2)] by auto
  then show ?case by (intro exI [of _ "u @ v"]) (auto simp del: append_assoc simp flip: append_assoc)
next
  case (Alt a b)
  then show ?case by (auto dest: Alt.IH)
next
  case (Star a)
  from Star.prems show ?case unfolding rx_run.simps
  proof (induction rule: star_run_induct)
    case stop
    show ?case by (auto intro: rx_lang.intros)
  next
    case (more s c s1 c1)
    then obtain u v where "rx_lang a u" "s = u @ s1" "rx_lang (Star a) v" "s1 = v @ s'"
      using Star.IH by blast
    then show ?case by (intro exI [of _ "u @ v"]) (auto intro: rx_lang.intros)
  qed
next
  case (LazyStar a)
  from LazyStar.prems show ?case unfolding rx_run.simps
  proof (induction rule: star_run_induct)
    case stop
    show ?case by (auto intro: rx_lang.intros)
  next
    case (more s c s1 c1)
    then obtain u v where "rx_lang a u" "s = u @ s1" "rx_lang (LazyStar a) v" "s1 = v @ s'"
      using LazyStar.IH by blast
    then show ?case by (intro exI [of _ "u @ v"]) (auto intro: rx_lang.intros)
  qed
next
  case (Cap n a)
  then show ?case by (auto dest: Cap.IH)
qed auto

text \<open>A group without repetition captures the word it consumed.\<close>

fun rx_names :: "rx \<Rightarrow> string set" where
  "rx_names (Chr p) = {}"
| "rx_names Eps = {}"
| "rx_names (Seq a b) = rx_names a \<union> rx_names b"
| "rx_names (Alt a b) = rx_names a \<union> rx_names b"
| "rx_names (Star a) = rx_names a"
| "rx_names (LazyStar a) = rx_names a"
| "rx_names (Cap n a) = insert n (rx_names a)"

lemma rx_run_unnamed:
  "(s', c') \<in> set (rx_run r s c) \<Longrightarrow> n \<notin> rx_names r \<Longrightarrow> rx_group c' n = rx_group c n"
proof (induction r arbitrary: s c s' c')
  case (Star a)
  from Star.prems(1) show ?case unfolding rx_run.simps
  proof (induction rule: star_run_induct)
    case (more s c s1 c1)
    then show ?case using Star.IH Star.prems(2) by (metis rx_names.simps(5))
  qed simp
next
  case (LazyStar a)
  from LazyStar.prems(1) show ?case unfolding rx_run.simps
  proof (induction rule: star_run_induct)
    case (more s c s1 c1)
    then show ?case using LazyStar.IH LazyStar.prems(2) by (metis rx_names.simps(6))
  qed simp
next
  case (Seq a b)
  then show ?case by auto
next
  case (Chr p)
  then show ?case by (auto split: list.splits if_splits)
qed fastforce+

lemma rx_run_plain: "(s', c') \<in> set (rx_run r s c) \<Longrightarrow> rx_names r = {} \<Longrightarrow> c' = c"
proof (induction r arbitrary: s c s' c')
  case (Star a)
  from Star.prems(1) show ?case unfolding rx_run.simps
  proof (induction rule: star_run_induct)
    case (more s c s1 c1)
    then show ?case using Star.IH Star.prems(2) by simp
  qed simp
next
  case (LazyStar a)
  from LazyStar.prems(1) show ?case unfolding rx_run.simps
  proof (induction rule: star_run_induct)
    case (more s c s1 c1)
    then show ?case using LazyStar.IH LazyStar.prems(2) by simp
  qed simp
next
  case (Chr p)
  then show ?case by (auto split: list.splits if_splits)
qed fastforce+

lemma rx_captures_run:
  assumes "rx_captures r s = Some c"
  shows "([], c) \<in> set (rx_run r s [])"
proof -
  obtain ps where "filter (\<lambda>(s', c). s' = []) (rx_run r s []) = ([], c) # ps"
    using assms by (auto simp: rx_captures_def split: list.splits prod.splits)
      (metis (mono_tags, lifting) case_prod_conv filter_eq_ConsD)
  then have "([], c) \<in> set (filter (\<lambda>(s', c). s' = []) (rx_run r s []))" by simp
  then show ?thesis by simp
qed

lemma star_run_complete:
  assumes a: "\<And>u s' c. rx_lang a u \<Longrightarrow> \<exists>c'. (s', c') \<in> set (f (u @ s') c)"
    and "rx_lang r u" "r = Star a \<or> r = LazyStar a"
  shows "\<exists>c'. (s', c') \<in> set (star_run g f (u @ s') c)"
  using assms(2,3)
proof (induction arbitrary: c rule: rx_lang.induct)
  case (7 b u v)
  show ?case
  proof (cases "u = []")
    case False
    have "rx_lang a u" using 7 by auto
    then obtain c1 where "(v @ s', c1) \<in> set (f (u @ v @ s') c)" using a by blast
    moreover obtain c2 where "(s', c2) \<in> set (star_run g f (v @ s') c1)" using 7 by auto
    ultimately have "(s', c2) \<in> set (star_run g f (u @ v @ s') c)"
      using False by (subst star_run_iff) (auto intro!: exI [of _ "v @ s'"] exI [of _ c1])
    then show ?thesis by auto
  qed (use 7 in auto)
next
  case (9 b u v)
  show ?case
  proof (cases "u = []")
    case False
    have "rx_lang a u" using 9 by auto
    then obtain c1 where "(v @ s', c1) \<in> set (f (u @ v @ s') c)" using a by blast
    moreover obtain c2 where "(s', c2) \<in> set (star_run g f (v @ s') c1)" using 9 by auto
    ultimately have "(s', c2) \<in> set (star_run g f (u @ v @ s') c)"
      using False by (subst star_run_iff) (auto intro!: exI [of _ "v @ s'"] exI [of _ c1])
    then show ?thesis by auto
  qed (use 9 in auto)
qed (auto intro: star_run_stop)

lemma rx_run_complete: "rx_lang r u \<Longrightarrow> \<exists>c'. (s', c') \<in> set (rx_run r (u @ s') c)"
proof (induction r arbitrary: u s' c)
  case (Seq a b)
  then obtain v w where u: "rx_lang a v" "rx_lang b w" "u = v @ w" by auto
  obtain c1 where 1: "(w @ s', c1) \<in> set (rx_run a (v @ w @ s') c)" using Seq.IH(1) [OF u(1)] by blast
  obtain c2 where "(s', c2) \<in> set (rx_run b (w @ s') c1)" using Seq.IH(2) [OF u(2)] by blast
  with 1 show ?case using u(3) by force
next
  case (Alt a b)
  then show ?case by (auto dest: Alt.IH)
next
  case (Star a)
  show ?case using star_run_complete [of a "rx_run a", OF Star.IH Star.prems] by simp
next
  case (LazyStar a)
  show ?case using star_run_complete [of a "rx_run a", OF LazyStar.IH LazyStar.prems] by simp
next
  case (Cap n a)
  then have "rx_lang a u" by simp
  then obtain c1 where "(s', c1) \<in> set (rx_run a (u @ s') c)" using Cap.IH by blast
  then show ?case by force
qed auto

text \<open>An anchored pattern matches exactly the words of its language.\<close>

lemma rx_captures_iff: "rx_captures r s \<noteq> None \<longleftrightarrow> rx_lang r s"
proof
  assume "rx_captures r s \<noteq> None"
  then obtain c where "rx_captures r s = Some c" by auto
  from rx_run_lang [OF rx_captures_run [OF this]] show "rx_lang r s" by auto
next
  assume "rx_lang r s"
  then obtain c where "([], c) \<in> set (rx_run r s [])" using rx_run_complete [of r s "[]" "[]"] by auto
  then have "filter (\<lambda>(s', c). s' = []) (rx_run r s []) \<noteq> []" by (auto simp: filter_empty_conv)
  then show "rx_captures r s \<noteq> None" by (auto simp: rx_captures_def split: list.splits)
qed

end
