(* ===== verification/AtomParse.thy ===== *)
theory AtomParse
  imports Atom Regex
begin

text \<open>
  The atom and candidate parsers (\<open>portage-dep/src/lib.rs\<close>): the patterns as \<open>rx\<close> terms with the
  group names of the source, the second validation stage, and what is built on the parsers: the
  list matcher, the evaluation of conditionals in an atom string, the specificity of an entry. The
  memo tables of the source are in \<open>AtomMemo\<close>; here every parse is computed.
\<close>

section \<open>Patterns\<close>

definition is_upper_alpha :: "char \<Rightarrow> bool" where
  "is_upper_alpha c = (65 \<le> char_code c \<and> char_code c \<le> 90)"

definition is_lower_alpha :: "char \<Rightarrow> bool" where
  "is_lower_alpha c = (97 \<le> char_code c \<and> char_code c \<le> 122)"

definition alnum :: "char \<Rightarrow> bool" where
  "alnum c = (is_upper_alpha c \<or> is_lower_alpha c \<or> is_digit c)"

definition alnum_or :: "string \<Rightarrow> char \<Rightarrow> bool" where
  "alnum_or extra c = (alnum c \<or> c \<in> set extra)"

definition CAT :: rx where
  "CAT = Seq (Chr (alnum_or ''_'')) (Star (Chr (alnum_or ''+_.-'')))"

definition PKG :: rx where
  "PKG = Seq (Chr (alnum_or ''_'')) (LazyStar (Chr (alnum_or ''+_-'')))"

definition digits :: rx where
  "digits = Plus (Chr is_digit)"

definition suffix_word :: rx where
  "suffix_word =
     Seq (Lit ''_'') (Seq (alts [Lit ''pre'', Lit ''p'', Lit ''beta'', Lit ''alpha'', Lit ''rc''])
       (Star (Chr is_digit)))"

definition VER :: rx where
  "VER = seqs [digits, Star (Seq (Lit ''.'') digits), Opt (Chr is_lower_alpha), Star suffix_word]"

definition SLOT :: rx where
  "SLOT = Seq (Chr (alnum_or ''_'')) (Star (Chr (alnum_or ''+_.-'')))"

definition EXTCAT :: rx where
  "EXTCAT = Seq (Chr (alnum_or ''_+*'')) (Star (Chr (alnum_or ''_+.*-'')))"

definition EXTPKG :: rx where
  "EXTPKG = Seq (Chr (alnum_or ''_+*'')) (LazyStar (Chr (alnum_or ''_+*-'')))"

definition REPO :: rx where
  "REPO = Seq (Chr (alnum_or ''_'')) (Star (Chr (alnum_or ''_-'')))"

definition USEFLAG :: rx where
  "USEFLAG = Seq (Chr alnum) (Star (Chr (alnum_or ''+_@-'')))"

text \<open>\<open>(?::(?P<slotpart>...))?(?:::(?P<repo>...))?\<close>, shared by both grammars.\<close>

definition rx_slot_part :: rx where
  "rx_slot_part =
     Opt (Seq (Lit '':'')
       (Cap ''slotpart''
         (Seq (Opt (Seq (Cap ''slot'' SLOT) (Opt (Seq (Lit ''/'') (Cap ''subslot'' SLOT)))))
              (Opt (Cap ''slotop'' (Chr (\<lambda>c. c = CHR ''*'' \<or> c = CHR ''='')))))))"

definition rx_repo_part :: rx where
  "rx_repo_part = Opt (Seq (Lit ''::'') (Cap ''repo'' REPO))"

definition rx_rev :: "string \<Rightarrow> rx" where
  "rx_rev name = Opt (Seq (Lit ''-r'') (Cap name digits))"

definition rx_versioned :: rx where
  "rx_versioned =
     seqs [Cap ''op'' (alts [Lit ''='', Lit ''>='', Lit ''>'', Lit ''<='', Lit ''<'', Lit ''~'']),
           Cap ''vcat'' CAT, Lit ''/'', Cap ''vpkg'' PKG,
           Opt (Cap ''bidtail'' (Seq (Lit ''-'') (Seq (Cap ''tailver'' VER) (rx_rev ''tailrev'')))),
           Lit ''-'', Cap ''ver'' VER, rx_rev ''rev'', Opt (Cap ''glob'' (Lit ''*''))]"

definition rx_bare :: rx where
  "rx_bare =
     seqs [Cap ''cat'' CAT, Lit ''/'', Cap ''pkg'' PKG,
           Opt (Cap ''ambiguous'' (Seq (Lit ''-'') (Seq VER (Opt (Seq (Lit ''-r'') digits)))))]"

definition rx_usedeps :: rx where
  "rx_usedeps = Opt (Cap ''usedeps'' (Seq (Lit ''['') (Seq (Star (Chr (\<lambda>c. c \<noteq> CHR 0x0A))) (Lit '']''))))"

definition atom_regex :: rx where
  "atom_regex = seqs [Alt rx_versioned rx_bare, rx_slot_part, rx_repo_part, rx_usedeps]"

definition rx_wtail :: rx where
  "rx_wtail =
     Opt (Cap ''wtail'' (seqs [Lit ''-'', digits, Star (Cap ''wtaildot'' (Seq (Lit ''.'') digits)),
                              Opt (Chr is_lower_alpha), Star suffix_word,
                              Opt (Seq (Lit ''-r'') digits)]))"

definition atom_wildcard_regex :: rx where
  "atom_wildcard_regex =
     seqs [Alt (Cap ''simple'' (seqs [EXTCAT, Lit ''/'', EXTPKG, rx_wtail]))
               (seqs [Lit ''='', Cap ''starcp'' (seqs [EXTCAT, Lit ''/'', EXTPKG]), Lit ''-'',
                      Cap ''starver'' (seqs [Lit ''*'', Plus (Chr (alnum_or ''_'')), Lit ''*''])]),
           rx_slot_part, rx_repo_part]"

definition use_dep_token_regex :: rx where
  "use_dep_token_regex =
     seqs [Cap ''prefix'' (Opt (Chr (\<lambda>c. c = CHR ''!'' \<or> c = CHR ''-''))), Cap ''flag'' USEFLAG,
           Opt (Cap ''default'' (Alt (Lit ''(+)'') (Lit ''(-)''))),
           Cap ''suffix'' (Opt (Chr (\<lambda>c. c = CHR ''?'' \<or> c = CHR ''='')))]"

definition candidate_regex :: rx where
  "candidate_regex =
     seqs [Cap ''cat'' CAT, Lit ''/'', Cap ''pkg'' PKG, Lit ''-'', Cap ''ver'' VER, rx_rev ''rev'',
           Opt (Seq (Lit '':'') (Seq (Cap ''slot'' SLOT) (Opt (Seq (Lit ''/'') (Cap ''subslot'' SLOT))))),
           rx_repo_part]"

section \<open>USE dependencies\<close>

definition use_dep_op_of :: "string \<Rightarrow> string \<Rightarrow> use_dep_op option" where
  "use_dep_op_of pre suf =
     (if pre = [] \<and> suf = [] then Some UseEnabled
      else if pre = ''-'' \<and> suf = [] then Some UseDisabled
      else if pre = [] \<and> suf = ''?'' then Some IfParentEnabled
      else if pre = ''!'' \<and> suf = ''?'' then Some IfParentDisabled
      else if pre = [] \<and> suf = ''='' then Some EqualParent
      else if pre = ''!'' \<and> suf = ''='' then Some OppositeParent
      else None)"

definition use_default_of :: "string option \<Rightarrow> ('e, use_dep_default option) outcome" where
  "use_default_of d =
     (case d of
        None \<Rightarrow> Ok None
      | Some t \<Rightarrow> if t = ''(+)'' then Ok (Some DefaultEnabled)
                  else if t = ''(-)'' then Ok (Some DefaultDisabled) else Panicked)"

definition or_empty :: "string option \<Rightarrow> string" where
  "or_empty x = (case x of None \<Rightarrow> [] | Some s \<Rightarrow> s)"

text \<open>The error is the token that the message quotes.\<close>

definition parse_use_dep :: "string \<Rightarrow> (string, use_dep) outcome" where
  "parse_use_dep token =
     (case rx_captures use_dep_token_regex token of
        None \<Rightarrow> Err token
      | Some caps \<Rightarrow>
          out_bind (unwrap (rx_group caps ''flag'')) (\<lambda>flag.
            case use_dep_op_of (or_empty (rx_group caps ''prefix'')) (or_empty (rx_group caps ''suffix'')) of
              None \<Rightarrow> Err token
            | Some op \<Rightarrow>
                out_bind (use_default_of (rx_group caps ''default'')) (\<lambda>d.
                  Ok \<lparr> ud_flag = flag, ud_op = op, ud_default = d \<rparr>)))"

fun parse_use_tokens ::
  "(string \<Rightarrow> use_dep_default option option) \<Rightarrow> string list \<Rightarrow> (string, use_dep list) outcome" where
  "parse_use_tokens seen [] = Ok []"
| "parse_use_tokens seen (token # ts) =
     out_bind (parse_use_dep token) (\<lambda>ud.
       if seen (ud_flag ud) \<noteq> None \<and> seen (ud_flag ud) \<noteq> Some (ud_default ud) then Err token
       else out_bind (parse_use_tokens (seen(ud_flag ud \<mapsto> ud_default ud)) ts) (\<lambda>uds.
              Ok (ud # uds)))"

definition parse_use_deps :: "string \<Rightarrow> (string, use_dep list) outcome" where
  "parse_use_deps raw =
     (case strip_prefix raw ''['' of
        None \<Rightarrow> Err raw
      | Some r \<Rightarrow>
          (case strip_suffix_char r CHR '']'' of
             None \<Rightarrow> Err raw
           | Some inner \<Rightarrow> parse_use_tokens Map.empty (split_char CHR '','' inner)))"

section \<open>The second stage\<close>

record atom_options =
  ao_eapi :: atom_eapi
  ao_allow_wildcard :: bool
  ao_allow_repo :: "bool option"
  ao_allow_build_id :: "bool option"

definition default_options :: atom_options where
  "default_options =
     \<lparr> ao_eapi = ENone, ao_allow_wildcard = False, ao_allow_repo = None, ao_allow_build_id = None \<rparr>"

record name_parts =
  np_operator :: operator
  np_category :: string
  np_package :: string
  np_version :: "string option"
  np_revision :: "string option"
  np_build_id :: "string option"

type_synonym 'a atom_out = "(atom_error, 'a) outcome"

definition bad :: "string \<Rightarrow> 'a atom_out" where
  "bad s = Err (invalid_atom s)"

lemma bad_Ok [simp]: "bad s \<noteq> Ok x" "bad s \<noteq> Panicked"
  by (simp_all add: bad_def)

text \<open>\<open>split_once('/').expect(..)\<close>\<close>

definition split_slash :: "string \<Rightarrow> (string \<times> string) atom_out" where
  "split_slash s =
     (case dropWhile (\<lambda>c. c \<noteq> CHR ''/'') s of
        [] \<Rightarrow> Panicked
      | _ # r \<Rightarrow> Ok (takeWhile (\<lambda>c. c \<noteq> CHR ''/'') s, r))"

definition wild_name_parts :: "captures \<Rightarrow> string \<Rightarrow> name_parts atom_out" where
  "wild_name_parts caps s =
     (if rx_group caps ''wtaildot'' \<noteq> None then bad s
      else case rx_group caps ''simple'' of
             Some simple \<Rightarrow>
               if contains_str simple ''**'' then bad s
               else out_bind (split_slash simple) (\<lambda>(cat, pkg).
                      Ok \<lparr> np_operator = OpNone, np_category = cat, np_package = pkg,
                           np_version = None, np_revision = None, np_build_id = None \<rparr>)
           | None \<Rightarrow>
               out_bind (unwrap (rx_group caps ''starcp'')) (\<lambda>starcp.
               out_bind (unwrap (rx_group caps ''starver'')) (\<lambda>starver.
                 if contains_str (''='' @ starcp @ ''-'' @ starver) ''**'' then bad s
                 else out_bind (split_slash starcp) (\<lambda>(cat, pkg).
                        Ok \<lparr> np_operator = OpEqGlob, np_category = cat, np_package = pkg,
                             np_version = Some starver, np_revision = None, np_build_id = None \<rparr>))))"

definition versioned_tail ::
  "captures \<Rightarrow> string \<Rightarrow> bool \<Rightarrow> (string option \<times> string option \<times> string option) atom_out" where
  "versioned_tail caps s allow_build_id =
     (case rx_group caps ''bidtail'' of
        None \<Rightarrow>
          out_bind (unwrap (rx_group caps ''ver'')) (\<lambda>ver. Ok (Some ver, rx_group caps ''rev'', None))
      | Some _ \<Rightarrow>
          if \<not> allow_build_id then bad s
          else out_bind (unwrap (rx_group caps ''ver'')) (\<lambda>outer.
                 if rx_group caps ''rev'' \<noteq> None \<or> \<not> all_digits outer then bad s
                 else if 1 < length outer \<and> starts_with outer ''0'' then bad s
                 else out_bind (unwrap (rx_group caps ''tailver'')) (\<lambda>tailver.
                        Ok (Some tailver, rx_group caps ''tailrev'', Some outer))))"

definition atom_name_parts :: "bool \<Rightarrow> captures \<Rightarrow> string \<Rightarrow> bool \<Rightarrow> name_parts atom_out" where
  "atom_name_parts extended caps s allow_build_id =
     (if extended then wild_name_parts caps s
      else case rx_group caps ''op'' of
             Some op \<Rightarrow>
               if rx_group caps ''glob'' \<noteq> None \<and> (op \<noteq> ''='' \<or> rx_group caps ''bidtail'' \<noteq> None) then bad s
               else
                 out_bind (if rx_group caps ''glob'' \<noteq> None then Ok OpEqGlob
                           else case operator_from_str op of Panic \<Rightarrow> Panicked | Return x \<Rightarrow> Ok x)
                   (\<lambda>operator.
                 out_bind (versioned_tail caps s allow_build_id) (\<lambda>(version, revision, build_id).
                 out_bind (unwrap (rx_group caps ''vcat'')) (\<lambda>vcat.
                 out_bind (unwrap (rx_group caps ''vpkg'')) (\<lambda>vpkg.
                   Ok \<lparr> np_operator = operator, np_category = vcat, np_package = vpkg,
                        np_version = version, np_revision = revision, np_build_id = build_id \<rparr>))))
           | None \<Rightarrow>
               if rx_group caps ''ambiguous'' \<noteq> None then bad s
               else
                 out_bind (unwrap (rx_group caps ''cat'')) (\<lambda>cat.
                 out_bind (unwrap (rx_group caps ''pkg'')) (\<lambda>pkg.
                   Ok \<lparr> np_operator = OpNone, np_category = cat, np_package = pkg,
                        np_version = None, np_revision = None, np_build_id = None \<rparr>)))"

definition strip_blocker :: "string \<Rightarrow> blocker \<times> string" where
  "strip_blocker s =
     (case strip_prefix s ''!!'' of
        Some t \<Rightarrow> (BlockStrong, t)
      | None \<Rightarrow> (case strip_prefix s ''!'' of Some t \<Rightarrow> (BlockWeak, t) | None \<Rightarrow> (BlockNone, s)))"

definition slot_of_operator :: "string \<Rightarrow> string option \<Rightarrow> string option \<Rightarrow> slot_operator option atom_out" where
  "slot_of_operator s slot slotop =
     (case slotop of
        None \<Rightarrow> Ok None
      | Some t \<Rightarrow>
          if t = ''*'' then (if slot \<noteq> None then bad s else Ok (Some SlotStar))
          else if t = ''='' then Ok (Some SlotEquals) else Panicked)"

definition parse_slot ::
  "eapi_attrs \<Rightarrow> captures \<Rightarrow> string \<Rightarrow>
   (string option \<times> string option \<times> slot_operator option) atom_out" where
  "parse_slot attrs caps s =
     (case rx_group caps ''slotpart'' of
        None \<Rightarrow> Ok (None, None, None)
      | Some text \<Rightarrow>
          if text = [] then bad s
          else if ea_slot_operator attrs
          then let slot = rx_group caps ''slot''; sub_slot = rx_group caps ''subslot''
               in out_bind (slot_of_operator s slot (rx_group caps ''slotop'')) (\<lambda>slot_operator.
                    if slot = None \<and> slot_operator = None then bad s
                    else Ok (slot, sub_slot, slot_operator))
          else if rx_captures SLOT text = None then bad s
          else Ok (Some text, None, None))"

definition map_use_error :: "(string, 'a) outcome \<Rightarrow> 'a atom_out" where
  "map_use_error r =
     (case r of
        Panicked \<Rightarrow> Panicked
      | Err token \<Rightarrow> Err \<lparr> ae_kind = Invalid, ae_message = ''Invalid use dep: '' @ quoted token \<rparr>
      | Ok x \<Rightarrow> Ok x)"

definition parse_use_part :: "captures \<Rightarrow> use_dep list option atom_out" where
  "parse_use_part caps =
     (case rx_group caps ''usedeps'' of
        None \<Rightarrow> Ok None
      | Some raw \<Rightarrow> out_bind (map_use_error (parse_use_deps raw)) (\<lambda>uds. Ok (Some uds)))"

definition eapi_incompatible :: "string \<Rightarrow> string \<Rightarrow> string \<Rightarrow> 'a atom_out" where
  "eapi_incompatible what eapi_str s =
     Err \<lparr> ae_kind = EapiIncompatible,
           ae_message = what @ '' are not allowed in EAPI '' @ eapi_str @ '': '' @ quoted s \<rparr>"

definition check_atom_eapi_features ::
  "atom_eapi \<Rightarrow> string option \<Rightarrow> eapi_attrs \<Rightarrow> string \<Rightarrow> string \<Rightarrow> use_dep list option \<Rightarrow> blocker \<Rightarrow>
   unit atom_out" where
  "check_atom_eapi_features eapi slot attrs eapi_str s use_deps blocker =
     (if eapi = ENone then Ok ()
      else if slot \<noteq> None \<and> \<not> ea_slot_deps attrs then eapi_incompatible ''Slot deps'' eapi_str s
      else
        out_bind (case use_deps of
                    None \<Rightarrow> Ok ()
                  | Some deps \<Rightarrow>
                      if \<not> ea_use_deps attrs then eapi_incompatible ''Use deps'' eapi_str s
                      else if \<not> ea_use_dep_defaults attrs \<and> list_ex (\<lambda>d. ud_default d \<noteq> None) deps
                      then eapi_incompatible ''Use dep defaults'' eapi_str s
                      else Ok ())
          (\<lambda>_. if blocker = BlockStrong \<and> \<not> ea_strong_blocks attrs
               then eapi_incompatible ''Strong blocks'' eapi_str s else Ok ()))"

definition pick_grammar :: "string \<Rightarrow> bool \<Rightarrow> string \<Rightarrow> (captures \<times> bool) atom_out" where
  "pick_grammar s allow_wildcard rest =
     (case rx_captures atom_regex rest of
        Some caps \<Rightarrow> Ok (caps, False)
      | None \<Rightarrow>
          if \<not> allow_wildcard then bad s
          else (case rx_captures atom_wildcard_regex rest of
                  None \<Rightarrow> bad s
                | Some caps \<Rightarrow> Ok (caps, True)))"

definition lift_panic :: "('e, 'a) outcome \<Rightarrow> ('f, 'a) outcome" where
  "lift_panic r = (case r of Ok x \<Rightarrow> Ok x | _ \<Rightarrow> Panicked)"

definition parse_atom_with :: "string \<Rightarrow> atom_options \<Rightarrow> string \<Rightarrow> atom atom_out" where
  "parse_atom_with s opts eapi_str =
     out_bind (lift_panic (mode_attrs (ao_eapi opts))) (\<lambda>attrs.
       let allow_repo =
             (case ao_allow_repo opts of
                Some b \<Rightarrow> b
              | None \<Rightarrow> (if ao_eapi opts = ENone then True else ea_repo_deps attrs));
           allow_build_id =
             (case ao_allow_build_id opts of Some b \<Rightarrow> b | None \<Rightarrow> ao_eapi opts = ENone);
           (blocker, rest) = strip_blocker s
       in out_bind (pick_grammar s (ao_allow_wildcard opts) rest) (\<lambda>(caps, extended).
          out_bind (atom_name_parts extended caps s allow_build_id) (\<lambda>np.
          out_bind (parse_slot attrs caps s) (\<lambda>(slot, sub_slot, slot_operator).
          out_bind (parse_use_part caps) (\<lambda>use_deps.
            let repo = rx_group caps ''repo''
            in if repo \<noteq> None \<and> \<not> allow_repo then bad s
               else out_bind (check_atom_eapi_features (ao_eapi opts) slot attrs eapi_str s use_deps blocker)
                 (\<lambda>_. Ok \<lparr> a_blocker = blocker, a_operator = np_operator np,
                           a_category = np_category np, a_package = np_package np,
                           a_version = np_version np, a_revision = np_revision np,
                           a_slot = slot, a_sub_slot = sub_slot, a_slot_operator = slot_operator,
                           a_use_deps = use_deps, a_repo = repo, a_build_id = np_build_id np,
                           a_extended = extended \<rparr>))))))"

text \<open>\<open>Result::ok\<close>, with the panic kept.\<close>

definition out_ok :: "('e, 'a) outcome \<Rightarrow> 'a option run" where
  "out_ok r = (case r of Panicked \<Rightarrow> Panic | Err _ \<Rightarrow> Return None | Ok x \<Rightarrow> Return (Some x))"

definition parse_atom :: "string \<Rightarrow> atom option run" where
  "parse_atom s = out_ok (parse_atom_with s default_options [])"

section \<open>Candidates\<close>

definition parse_candidate :: "string \<Rightarrow> candidate option run" where
  "parse_candidate s =
     (case rx_captures candidate_regex s of
        None \<Rightarrow> Return None
      | Some caps \<Rightarrow>
          run_bind (expect_some (rx_group caps ''cat'')) (\<lambda>cat.
          run_bind (expect_some (rx_group caps ''pkg'')) (\<lambda>pkg.
          run_bind (expect_some (rx_group caps ''ver'')) (\<lambda>ver.
            Return (Some \<lparr> c_category = cat, c_package = pkg, c_version = ver,
                           c_revision = rx_group caps ''rev'', c_slot = rx_group caps ''slot'',
                           c_sub_slot = rx_group caps ''subslot'', c_repo = rx_group caps ''repo'',
                           c_build_id = None \<rparr>)))))"

section \<open>Matching strings\<close>

definition match_options :: atom_options where
  "match_options = default_options\<lparr> ao_allow_wildcard := True, ao_allow_repo := Some True \<rparr>"

definition parse_match_atom :: "string \<Rightarrow> atom option run" where
  "parse_match_atom atom_str =
     out_ok (parse_atom_with (dropWhile (\<lambda>c. c = CHR ''!'') atom_str) match_options [])"

definition match_atom_matches_candidate :: "atom \<Rightarrow> string \<Rightarrow> string option \<Rightarrow> bool run" where
  "match_atom_matches_candidate a candidate_str build_id =
     run_bind (parse_candidate candidate_str) (\<lambda>co.
       case co of
         None \<Rightarrow> Return False
       | Some c \<Rightarrow>
           candidate_hits a (case build_id of Some bid \<Rightarrow> c\<lparr> c_build_id := Some bid \<rparr> | None \<Rightarrow> c))"

definition match_pair :: "string \<Rightarrow> string \<Rightarrow> string option \<Rightarrow> bool option run" where
  "match_pair atom_str candidate build_id =
     run_bind (parse_match_atom atom_str) (\<lambda>ao.
       case ao of
         None \<Rightarrow> Return None
       | Some a \<Rightarrow>
           run_bind (match_atom_matches_candidate a candidate build_id) (\<lambda>b. Return (Some b)))"

fun match_loop :: "string \<Rightarrow> (string \<times> string option) list \<Rightarrow> string list option run" where
  "match_loop atom_str [] = Return (Some [])"
| "match_loop atom_str ((c, bid) # cs) =
     run_bind (match_pair atom_str c bid) (\<lambda>v.
       case v of
         None \<Rightarrow> Return None
       | Some b \<Rightarrow>
           run_bind (match_loop atom_str cs) (\<lambda>r.
             Return (map_option (\<lambda>out. if b then c # out else out) r)))"

definition match_from_list_with_build_id ::
  "string \<Rightarrow> (string \<times> string option) list \<Rightarrow> string list option run" where
  "match_from_list_with_build_id atom_str candidates =
     (if candidates = []
      then run_bind (parse_match_atom atom_str) (\<lambda>ao. Return (map_option (\<lambda>_. []) ao))
      else match_loop atom_str candidates)"

definition match_from_list :: "string \<Rightarrow> string list \<Rightarrow> string list option run" where
  "match_from_list atom_str candidates =
     (if candidates = []
      then run_bind (parse_match_atom atom_str) (\<lambda>ao. Return (map_option (\<lambda>_. []) ao))
      else match_loop atom_str (map (\<lambda>c. (c, None)) candidates))"

definition atom_specificity :: "string \<Rightarrow> int run" where
  "atom_specificity entry =
     run_bind (out_ok (parse_atom_with entry match_options [])) (\<lambda>ao.
       Return (case ao of None \<Rightarrow> -2 | Some a \<Rightarrow> parsed_specificity a))"

section \<open>Conditionals of an atom string\<close>

definition has_conditional :: "use_dep list \<Rightarrow> bool" where
  "has_conditional uds = list_ex (\<lambda>ud. ud_op ud \<noteq> UseEnabled \<and> ud_op ud \<noteq> UseDisabled) uds"

definition evaluate_atom_conditionals :: "string \<Rightarrow> string set \<Rightarrow> string option run" where
  "evaluate_atom_conditionals atom_str parent_use =
     run_bind (parse_atom atom_str) (\<lambda>ao.
       case ao of
         None \<Rightarrow> Return None
       | Some a \<Rightarrow>
           (case a_use_deps a of
              None \<Rightarrow> Return (Some atom_str)
            | Some use_deps \<Rightarrow>
                if use_deps = [] \<or> \<not> has_conditional use_deps then Return (Some atom_str)
                else
                  let evaluated = evaluate_use_dep_conditionals use_deps parent_use
                  in (case rx_captures atom_regex atom_str of
                        None \<Rightarrow> Return None
                      | Some caps \<Rightarrow>
                          let bracket_start =
                                (case rx_group caps ''usedeps'' of
                                   Some m \<Rightarrow> length atom_str - length m
                                 | None \<Rightarrow> length atom_str);
                              new_bracket =
                                (if evaluated = [] then []
                                 else ''['' @ join '','' (map render_use_dep evaluated) @ '']'')
                          in Return (Some (take bracket_start atom_str @ new_bracket)))))"

section \<open>Dependency tokens\<close>

text \<open>
  \<open>parse_dep_atom\<close> of \<open>portage-repo/src/globals.rs\<close>: grammar tokens and conditionals are no atoms.
  The count of unparseable tokens is a diagnostic and left out. Neither function panics
  (shown in \<open>AtomMatch\<close>).
\<close>

definition parse_dep_atom :: "string \<Rightarrow> atom option" where
  "parse_dep_atom token =
     (if token \<in> {''||'', ''^^'', ''??'', ''('', '')''} \<or> ends_with_char token CHR ''?'' then None
      else case parse_atom token of Panic \<Rightarrow> None | Return a \<Rightarrow> a)"

definition evaluated_token :: "string \<Rightarrow> string set \<Rightarrow> string" where
  "evaluated_token t use_flags =
     (case evaluate_atom_conditionals t use_flags of Return (Some e) \<Rightarrow> e | _ \<Rightarrow> t)"

end
