(* ===== verification/AtomRound.thy ===== *)
theory AtomRound
  imports AtomParse
begin

text \<open>
  What a match of the atom patterns says about the text: the captures and the pieces they stand
  for. From this the printer gives a parsed atom its text back.
\<close>

section \<open>Runs of the patterns\<close>

definition opt_text :: "string option \<Rightarrow> string" where
  "opt_text x = (case x of None \<Rightarrow> [] | Some u \<Rightarrow> u)"

definition opt_cap :: "string \<Rightarrow> string option \<Rightarrow> captures" where
  "opt_cap n x = (case x of None \<Rightarrow> [] | Some u \<Rightarrow> [(n, u)])"

lemma opt_simps [simp]:
  "opt_text None = []" "opt_text (Some u) = u" "opt_cap n None = []" "opt_cap n (Some u) = [(n, u)]"
  by (simp_all add: opt_text_def opt_cap_def)

lemma rx_group_opt_cap [simp]:
  "(f ++ map_of (opt_cap n x)) m = (if n = m \<and> x \<noteq> None then x else f m)"
  "map_of (opt_cap n x) m = (if n = m then x else None)"
  by (cases x; auto simp: map_add_def)+

lemma plain_run:
  "rx_names r = {} \<Longrightarrow> (s', c') \<in> set (rx_run r s c) \<Longrightarrow> c' = c \<and> (\<exists>u. rx_lang r u \<and> s = u @ s')"
  using rx_run_plain rx_run_lang by blast

lemma cap_run:
  "rx_names r = {} \<Longrightarrow> (s', c') \<in> set (rx_run (Cap n r) s c) \<Longrightarrow>
     \<exists>u. rx_lang r u \<and> s = u @ s' \<and> c' = (n, u) # c"
  by (auto dest: plain_run)

lemma opt_run:
  "(s', c') \<in> set (rx_run (Opt r) s c) \<longleftrightarrow> (s', c') \<in> set (rx_run r s c) \<or> (s' = s \<and> c' = c)"
  by (auto simp: Opt_def)

lemma cap_iff:
  "(s', c') \<in> set (rx_run (Cap n r) s c) \<longleftrightarrow>
     (\<exists>c1. (s', c1) \<in> set (rx_run r s c) \<and> c' = (n, take (length s - length s') s) # c1)"
  by auto

lemma opt_cap_run:
  "rx_names r = {} \<Longrightarrow> (s', c') \<in> set (rx_run (Opt (Cap n r)) s c) \<Longrightarrow>
     \<exists>x. (\<forall>u. x = Some u \<longrightarrow> rx_lang r u) \<and> s = opt_text x @ s' \<and> c' = opt_cap n x @ c"
  unfolding opt_run
proof (elim disjE conjE)
  assume "rx_names r = {}" "(s', c') \<in> set (rx_run (Cap n r) s c)"
  from cap_run [OF this] show ?thesis by (auto intro: exI [of _ "Some _"])
qed (auto intro: exI [of _ None])

lemma Lit_names [simp]: "rx_names (Lit s) = {}" by (induction s) auto

lemma Lit_lang [simp]: "rx_lang (Lit s) u \<longleftrightarrow> u = s"
proof (induction s arbitrary: u)
  case (Cons x s)
  show ?case by (auto simp: Cons.IH)
qed simp

lemma lit_run: "(s', c') \<in> set (rx_run (Lit t) s c) \<longleftrightarrow> s = t @ s' \<and> c' = c"
  by (induction t arbitrary: s) (auto split: list.splits)

lemma pattern_names [simp]:
  "rx_names CAT = {}" "rx_names PKG = {}" "rx_names digits = {}" "rx_names VER = {}"
  "rx_names SLOT = {}" "rx_names EXTCAT = {}" "rx_names EXTPKG = {}" "rx_names REPO = {}"
  "rx_names USEFLAG = {}" "rx_names suffix_word = {}"
  by (simp_all add: CAT_def PKG_def digits_def VER_def SLOT_def EXTCAT_def EXTPKG_def REPO_def
      USEFLAG_def suffix_word_def Plus_def Opt_def)

lemma seq_run:
  "(s', c') \<in> set (rx_run (Seq a b) s c) \<longleftrightarrow>
     (\<exists>s1 c1. (s1, c1) \<in> set (rx_run a s c) \<and> (s', c') \<in> set (rx_run b s1 c1))"
  by auto

lemma rev_run:
  "(s', c') \<in> set (rx_run (rx_rev n) s c) \<Longrightarrow>
     \<exists>x. (\<forall>u. x = Some u \<longrightarrow> rx_lang digits u) \<and>
         s = (case x of None \<Rightarrow> [] | Some r \<Rightarrow> ''-r'' @ r) @ s' \<and> c' = opt_cap n x @ c"
  unfolding rx_rev_def opt_run seq_run lit_run
proof (elim disjE exE conjE)
  fix s1 c1 assume "s = ''-r'' @ s1" "c1 = c" "(s', c') \<in> set (rx_run (Cap n digits) s1 c1)"
  moreover obtain u where "rx_lang digits u" "s1 = u @ s'" "c' = (n, u) # c1"
    using calculation cap_run [of digits s' c' n s1 c1] by auto
  ultimately show ?thesis by (intro exI [of _ "Some u"]) simp
qed (auto intro!: exI [of _ None])

lemma repo_run:
  "(s', c') \<in> set (rx_run rx_repo_part s c) \<Longrightarrow>
     \<exists>x. (\<forall>u. x = Some u \<longrightarrow> rx_lang REPO u) \<and>
         s = (case x of None \<Rightarrow> [] | Some r \<Rightarrow> ''::'' @ r) @ s' \<and> c' = opt_cap ''repo'' x @ c"
  unfolding rx_repo_part_def opt_run seq_run lit_run
proof (elim disjE exE conjE)
  fix s1 c1 assume "s = ''::'' @ s1" "c1 = c" "(s', c') \<in> set (rx_run (Cap ''repo'' REPO) s1 c1)"
  moreover obtain u where "rx_lang REPO u" "s1 = u @ s'" "c' = (''repo'', u) # c1"
    using calculation cap_run [of REPO s' c' "''repo''" s1 c1] by auto
  ultimately show ?thesis by (intro exI [of _ "Some u"]) simp
qed (auto intro!: exI [of _ None])

text \<open>The slot part: the whole text, the slot, the sub-slot and the operator.\<close>

definition sub_text :: "string option \<Rightarrow> string" where
  "sub_text x = (case x of None \<Rightarrow> [] | Some u \<Rightarrow> ''/'' @ u)"

lemma sub_text_simps [simp]: "sub_text None = []" "sub_text (Some u) = ''/'' @ u"
  by (simp_all add: sub_text_def)

lemma slot_inner_run:
  assumes "(s', c') \<in> set (rx_run (Opt (Seq (Cap ''slot'' SLOT)
      (Opt (Seq (Lit ''/'') (Cap ''subslot'' SLOT))))) s c)"
  shows "\<exists>slot sub. (\<forall>u. slot = Some u \<longrightarrow> rx_lang SLOT u) \<and> (\<forall>u. sub = Some u \<longrightarrow> rx_lang SLOT u) \<and>
     (slot = None \<longrightarrow> sub = None) \<and> s = opt_text slot @ sub_text sub @ s' \<and>
     c' = opt_cap ''subslot'' sub @ opt_cap ''slot'' slot @ c"
proof -
  consider "s' = s" "c' = c"
    | s1 c1 where "(s1, c1) \<in> set (rx_run (Cap ''slot'' SLOT) s c)"
        "(s', c') \<in> set (rx_run (Opt (Seq (Lit ''/'') (Cap ''subslot'' SLOT))) s1 c1)"
    using assms unfolding opt_run seq_run by blast
  then show ?thesis
  proof cases
    case 1
    then show ?thesis by (intro exI [of _ None]) simp
  next
    case 2
    obtain u where u: "rx_lang SLOT u" "s = u @ s1" "c1 = (''slot'', u) # c"
      using cap_run [OF _ 2(1)] by auto
    consider "s' = s1" "c' = c1"
      | s2 where "s1 = ''/'' @ s2" "(s', c') \<in> set (rx_run (Cap ''subslot'' SLOT) s2 c1)"
      using 2(2) unfolding opt_run seq_run lit_run by blast
    then show ?thesis
    proof cases
      case 1
      then show ?thesis using u by (intro exI [of _ "Some u"] exI [of _ None]) simp
    next
      case 2
      obtain v where "rx_lang SLOT v" "s2 = v @ s'" "c' = (''subslot'', v) # c1"
        using cap_run [OF _ 2(2)] by auto
      then show ?thesis using u 2(1) by (intro exI [of _ "Some u"] exI [of _ "Some v"]) simp
    qed
  qed
qed

definition slot_ops :: "string option \<Rightarrow> bool" where
  "slot_ops x \<longleftrightarrow> x = None \<or> x = Some ''*'' \<or> x = Some ''=''"

lemma slot_run:
  assumes "(s', c') \<in> set (rx_run rx_slot_part s c)"
  shows "s' = s \<and> c' = c \<or>
    (\<exists>slot sub op t. (\<forall>u. slot = Some u \<longrightarrow> rx_lang SLOT u) \<and> (\<forall>u. sub = Some u \<longrightarrow> rx_lang SLOT u) \<and>
       (slot = None \<longrightarrow> sub = None) \<and> slot_ops op \<and> t = opt_text slot @ sub_text sub @ opt_text op \<and>
       s = '':'' @ t @ s' \<and>
       c' = (''slotpart'', t) # opt_cap ''slotop'' op @ opt_cap ''subslot'' sub @ opt_cap ''slot'' slot @ c)"
proof -
  let ?op = "Chr (\<lambda>c. c = CHR ''*'' \<or> c = CHR ''='')"
  let ?sl = "Opt (Seq (Cap ''slot'' SLOT) (Opt (Seq (Lit ''/'') (Cap ''subslot'' SLOT))))"
  consider "s' = s" "c' = c"
    | s1 where "s = '':'' @ s1"
        "(s', c') \<in> set (rx_run (Cap ''slotpart'' (Seq ?sl (Opt (Cap ''slotop'' ?op)))) s1 c)"
    using assms unfolding rx_slot_part_def opt_run seq_run lit_run by blast
  then show ?thesis
  proof cases
    case 2
    then obtain c1 where c1: "(s', c1) \<in> set (rx_run (Seq ?sl (Opt (Cap ''slotop'' ?op))) s1 c)"
        "c' = (''slotpart'', take (length s1 - length s') s1) # c1"
      unfolding cap_iff [of _ _ "''slotpart''"] by blast
    obtain s2 c2 where 3: "(s2, c2) \<in> set (rx_run ?sl s1 c)"
        "(s', c1) \<in> set (rx_run (Opt (Cap ''slotop'' ?op)) s2 c2)"
      using c1(1) unfolding seq_run by auto
    obtain slot sub where sl: "\<forall>u. slot = Some u \<longrightarrow> rx_lang SLOT u"
        "\<forall>u. sub = Some u \<longrightarrow> rx_lang SLOT u" "slot = None \<longrightarrow> sub = None"
        "s1 = opt_text slot @ sub_text sub @ s2" "c2 = opt_cap ''subslot'' sub @ opt_cap ''slot'' slot @ c"
      using slot_inner_run [OF 3(1)] by blast
    obtain op where op: "\<forall>u. op = Some u \<longrightarrow> rx_lang ?op u" "s2 = opt_text op @ s'"
        "c1 = opt_cap ''slotop'' op @ c2"
      using opt_cap_run [OF _ 3(2)] by auto
    have "slot_ops op" using op(1) by (cases op) (auto simp: slot_ops_def)
    then show ?thesis
      using 2(1) c1(2) sl op
      by (intro disjI2 exI [of _ slot] exI [of _ sub] exI [of _ op]
          exI [of _ "opt_text slot @ sub_text sub @ opt_text op"]) simp
  qed simp
qed


lemma usedeps_run:
  "(s', c') \<in> set (rx_run rx_usedeps s c) \<Longrightarrow>
     \<exists>x. s = opt_text x @ s' \<and> c' = opt_cap ''usedeps'' x @ c"
  unfolding rx_usedeps_def by (drule opt_cap_run [rotated]) auto

text \<open>The versioned half. \<open>bid\<close> is the tail before the build-id: its version and revision.\<close>

definition rev_text_of :: "string option \<Rightarrow> string" where
  "rev_text_of x = (case x of None \<Rightarrow> [] | Some r \<Rightarrow> ''-r'' @ r)"

lemma rev_text_of_simps [simp]: "rev_text_of None = []" "rev_text_of (Some r) = ''-r'' @ r"
  by (simp_all add: rev_text_of_def)

fun bid_text :: "(string \<times> string option) option \<Rightarrow> string" where
  "bid_text None = []"
| "bid_text (Some (v, r)) = ''-'' @ v @ rev_text_of r"

fun bid_caps :: "(string \<times> string option) option \<Rightarrow> captures" where
  "bid_caps None = []"
| "bid_caps (Some (v, r)) =
     (''bidtail'', ''-'' @ v @ rev_text_of r) # opt_cap ''tailrev'' r @ [(''tailver'', v)]"

lemma bid_run:
  assumes "(s', c') \<in> set (rx_run
    (Opt (Cap ''bidtail'' (Seq (Lit ''-'') (Seq (Cap ''tailver'' VER) (rx_rev ''tailrev''))))) s c)"
  shows "\<exists>bid. (\<forall>v r. bid = Some (v, r) \<longrightarrow> rx_lang VER v \<and> (\<forall>u. r = Some u \<longrightarrow> rx_lang digits u)) \<and>
     s = bid_text bid @ s' \<and> c' = bid_caps bid @ c"
proof -
  let ?r = "Seq (Lit ''-'') (Seq (Cap ''tailver'' VER) (rx_rev ''tailrev''))"
  consider "s' = s" "c' = c"
    | c1 where "(s', c1) \<in> set (rx_run ?r s c)" "c' = (''bidtail'', take (length s - length s') s) # c1"
    using assms unfolding opt_run cap_iff [of _ _ "''bidtail''"] by blast
  then show ?thesis
  proof cases
    case 1
    then show ?thesis by (intro exI [of _ None]) simp
  next
    case 2
    obtain s1 s2 c2 where 3: "s = ''-'' @ s1" "(s2, c2) \<in> set (rx_run (Cap ''tailver'' VER) s1 c)"
        "(s', c1) \<in> set (rx_run (rx_rev ''tailrev'') s2 c2)"
      using 2(1) unfolding seq_run lit_run by blast
    obtain v where v: "rx_lang VER v" "s1 = v @ s2" "c2 = (''tailver'', v) # c"
      using cap_run [OF _ 3(2)] by auto
    obtain r where r: "\<forall>u. r = Some u \<longrightarrow> rx_lang digits u" "s2 = rev_text_of r @ s'"
        "c1 = opt_cap ''tailrev'' r @ c2"
      using rev_run [OF 3(3)] by (auto simp: rev_text_of_def)
    show ?thesis
      using 2(2) 3(1) v r by (intro exI [of _ "Some (v, r)"]) simp
  qed
qed

definition is_operator :: "string \<Rightarrow> bool" where
  "is_operator op \<longleftrightarrow> op \<in> {''='', ''>='', ''>'', ''<='', ''<'', ''~''}"

lemma seqs_run:
  "(s', c') \<in> set (rx_run (seqs (r # q # rs)) s c) \<longleftrightarrow>
     (\<exists>s1 c1. (s1, c1) \<in> set (rx_run r s c) \<and> (s', c') \<in> set (rx_run (seqs (q # rs)) s1 c1))"
  "seqs [r] = r"
  by auto

lemma op_names [simp]: "rx_names (alts [Lit a, Lit b, Lit c, Lit d, Lit e, Lit f]) = {}"
  by simp

lemma versioned_run:
  assumes "(s', c') \<in> set (rx_run rx_versioned s c)"
  shows "\<exists>op cat pkg bid ver rv glob.
     is_operator op \<and> rx_lang CAT cat \<and> rx_lang PKG pkg \<and>
     (\<forall>v r. bid = Some (v, r) \<longrightarrow> rx_lang VER v \<and> (\<forall>u. r = Some u \<longrightarrow> rx_lang digits u)) \<and>
     rx_lang VER ver \<and> (\<forall>u. rv = Some u \<longrightarrow> rx_lang digits u) \<and> (\<forall>u. glob = Some u \<longrightarrow> u = ''*'') \<and>
     s = op @ cat @ ''/'' @ pkg @ bid_text bid @ ''-'' @ ver @ rev_text_of rv @ opt_text glob @ s' \<and>
     c' = opt_cap ''glob'' glob @ opt_cap ''rev'' rv @ (''ver'', ver) # bid_caps bid
            @ [(''vpkg'', pkg), (''vcat'', cat), (''op'', op)] @ c"
proof -
  let ?ops = "alts [Lit ''='', Lit ''>='', Lit ''>'', Lit ''<='', Lit ''<'', Lit ''~'']"
  obtain s1 c1 s2 c2 s3 s4 c4 s5 c5 s6 s7 c7 s8 c8 where
    a: "(s1, c1) \<in> set (rx_run (Cap ''op'' ?ops) s c)" and
    b: "(s2, c2) \<in> set (rx_run (Cap ''vcat'' CAT) s1 c1)" and
    c: "s2 = ''/'' @ s3" and
    d: "(s4, c4) \<in> set (rx_run (Cap ''vpkg'' PKG) s3 c2)" and
    e: "(s5, c5) \<in> set (rx_run (Opt (Cap ''bidtail'' (Seq (Lit ''-'')
          (Seq (Cap ''tailver'' VER) (rx_rev ''tailrev''))))) s4 c4)" and
    f: "s5 = ''-'' @ s6" and
    g: "(s7, c7) \<in> set (rx_run (Cap ''ver'' VER) s6 c5)" and
    h: "(s8, c8) \<in> set (rx_run (rx_rev ''rev'') s7 c7)" and
    i: "(s', c') \<in> set (rx_run (Opt (Cap ''glob'' (Lit ''*''))) s8 c8)"
    using assms unfolding rx_versioned_def seqs_run lit_run by blast
  obtain op where op: "rx_lang ?ops op" "s = op @ s1" "c1 = (''op'', op) # c"
    using cap_run [OF op_names a] by blast
  obtain cat where cat: "rx_lang CAT cat" "s1 = cat @ s2" "c2 = (''vcat'', cat) # c1"
    using cap_run [OF _ b] by auto
  obtain pkg where pkg: "rx_lang PKG pkg" "s3 = pkg @ s4" "c4 = (''vpkg'', pkg) # c2"
    using cap_run [OF _ d] by auto
  obtain bid where bid: "\<forall>v r. bid = Some (v, r) \<longrightarrow> rx_lang VER v \<and> (\<forall>u. r = Some u \<longrightarrow> rx_lang digits u)"
      "s4 = bid_text bid @ s5" "c5 = bid_caps bid @ c4"
    using bid_run [OF e] by blast
  obtain ver where ver: "rx_lang VER ver" "s6 = ver @ s7" "c7 = (''ver'', ver) # c5"
    using cap_run [OF _ g] by auto
  obtain rv where rv: "\<forall>u. rv = Some u \<longrightarrow> rx_lang digits u" "s7 = rev_text_of rv @ s8"
      "c8 = opt_cap ''rev'' rv @ c7"
    using rev_run [OF h] by (auto simp: rev_text_of_def)
  obtain glob where glob: "\<forall>u. glob = Some u \<longrightarrow> rx_lang (Lit ''*'') u" "s8 = opt_text glob @ s'"
      "c' = opt_cap ''glob'' glob @ c8"
    using opt_cap_run [OF Lit_names i] by blast
  have "is_operator op" using op(1) by (simp add: is_operator_def)
  then show ?thesis
    using op cat c pkg bid f ver rv glob
    by (intro exI [of _ op] exI [of _ cat] exI [of _ pkg] exI [of _ bid] exI [of _ ver] exI [of _ rv]
        exI [of _ glob]) simp
qed

lemma bare_run:
  assumes "(s', c') \<in> set (rx_run rx_bare s c)"
  shows "\<exists>cat pkg amb. rx_lang CAT cat \<and> rx_lang PKG pkg \<and>
     s = cat @ ''/'' @ pkg @ opt_text amb @ s' \<and>
     c' = opt_cap ''ambiguous'' amb @ [(''pkg'', pkg), (''cat'', cat)] @ c"
proof -
  let ?amb = "Seq (Lit ''-'') (Seq VER (Opt (Seq (Lit ''-r'') digits)))"
  obtain s1 c1 s2 s3 c3 where
    a: "(s1, c1) \<in> set (rx_run (Cap ''cat'' CAT) s c)" "s1 = ''/'' @ s2" and
    b: "(s3, c3) \<in> set (rx_run (Cap ''pkg'' PKG) s2 c1)" and
    d: "(s', c') \<in> set (rx_run (Opt (Cap ''ambiguous'' ?amb)) s3 c3)"
    using assms unfolding rx_bare_def seqs_run lit_run by blast
  have n: "rx_names ?amb = {}" by (simp add: Opt_def)
  obtain cat where "rx_lang CAT cat" "s = cat @ s1" "c1 = (''cat'', cat) # c"
    using cap_run [OF _ a(1)] by auto
  moreover obtain pkg where "rx_lang PKG pkg" "s2 = pkg @ s3" "c3 = (''pkg'', pkg) # c1"
    using cap_run [OF _ b] by auto
  moreover obtain amb where "s3 = opt_text amb @ s'" "c' = opt_cap ''ambiguous'' amb @ c3"
    using opt_cap_run [OF n d] by blast
  ultimately show ?thesis
    using a(2) by (intro exI [of _ cat] exI [of _ pkg] exI [of _ amb]) simp
qed


section \<open>What a match says\<close>

text \<open>A slot part is the slot, the sub-slot and the operator.\<close>

type_synonym slot_view = "(string option \<times> string option \<times> string option) option"

fun slot_txt :: "slot_view \<Rightarrow> string" where
  "slot_txt None = []"
| "slot_txt (Some (slot, sub, op)) = '':'' @ opt_text slot @ sub_text sub @ opt_text op"

fun slot_caps :: "slot_view \<Rightarrow> captures" where
  "slot_caps None = []"
| "slot_caps (Some (slot, sub, op)) =
     (''slotpart'', opt_text slot @ sub_text sub @ opt_text op) #
       opt_cap ''slotop'' op @ opt_cap ''subslot'' sub @ opt_cap ''slot'' slot"

fun slot_view_ok :: "slot_view \<Rightarrow> bool" where
  "slot_view_ok None \<longleftrightarrow> True"
| "slot_view_ok (Some (slot, sub, op)) \<longleftrightarrow>
     (\<forall>u. slot = Some u \<longrightarrow> rx_lang SLOT u) \<and> (\<forall>u. sub = Some u \<longrightarrow> rx_lang SLOT u) \<and>
     (slot = None \<longrightarrow> sub = None) \<and> slot_ops op"

definition repo_txt :: "string option \<Rightarrow> string" where
  "repo_txt x = (case x of None \<Rightarrow> [] | Some r \<Rightarrow> ''::'' @ r)"

lemma repo_txt_simps [simp]: "repo_txt None = []" "repo_txt (Some r) = ''::'' @ r"
  by (simp_all add: repo_txt_def)

lemma slot_run_view:
  assumes "(s', c') \<in> set (rx_run rx_slot_part s c)"
  shows "\<exists>sv. slot_view_ok sv \<and> s = slot_txt sv @ s' \<and> c' = slot_caps sv @ c"
  using slot_run [OF assms]
proof (elim disjE exE conjE)
  assume "s' = s" "c' = c"
  then show ?thesis by (intro exI [of _ None]) simp
next
  fix slot sub op t
  assume "\<forall>u. slot = Some u \<longrightarrow> rx_lang SLOT u" "\<forall>u. sub = Some u \<longrightarrow> rx_lang SLOT u"
    "slot = None \<longrightarrow> sub = None" "slot_ops op" "t = opt_text slot @ sub_text sub @ opt_text op"
    "s = '':'' @ t @ s'"
    "c' = (''slotpart'', t) # opt_cap ''slotop'' op @ opt_cap ''subslot'' sub @ opt_cap ''slot'' slot @ c"
  then show ?thesis by (intro exI [of _ "Some (slot, sub, op)"]) simp
qed

definition tail_caps :: "slot_view \<Rightarrow> string option \<Rightarrow> string option \<Rightarrow> captures" where
  "tail_caps sv rp up = opt_cap ''usedeps'' up @ opt_cap ''repo'' rp @ slot_caps sv"

definition versioned_head :: "string \<Rightarrow> captures \<Rightarrow> bool" where
  "versioned_head head hc \<longleftrightarrow> (\<exists>op cat pkg bid ver rv glob.
     is_operator op \<and> rx_lang CAT cat \<and> rx_lang PKG pkg \<and>
     (\<forall>v r. bid = Some (v, r) \<longrightarrow> rx_lang VER v \<and> (\<forall>u. r = Some u \<longrightarrow> rx_lang digits u)) \<and>
     rx_lang VER ver \<and> (\<forall>u. rv = Some u \<longrightarrow> rx_lang digits u) \<and> (\<forall>u. glob = Some u \<longrightarrow> u = ''*'') \<and>
     head = op @ cat @ ''/'' @ pkg @ bid_text bid @ ''-'' @ ver @ rev_text_of rv @ opt_text glob \<and>
     hc = opt_cap ''glob'' glob @ opt_cap ''rev'' rv @ (''ver'', ver) # bid_caps bid
            @ [(''vpkg'', pkg), (''vcat'', cat), (''op'', op)])"

definition bare_head :: "string \<Rightarrow> captures \<Rightarrow> bool" where
  "bare_head head hc \<longleftrightarrow> (\<exists>cat pkg amb. rx_lang CAT cat \<and> rx_lang PKG pkg \<and>
     head = cat @ ''/'' @ pkg @ opt_text amb \<and>
     hc = opt_cap ''ambiguous'' amb @ [(''pkg'', pkg), (''cat'', cat)])"

lemma atom_captures:
  assumes "rx_captures atom_regex s = Some caps"
  shows "\<exists>head hc sv rp up. (versioned_head head hc \<or> bare_head head hc) \<and> slot_view_ok sv \<and>
     s = head @ slot_txt sv @ repo_txt rp @ opt_text up \<and> caps = tail_caps sv rp up @ hc"
proof -
  obtain s1 c1 s2 c2 s3 c3 where
    a: "(s1, c1) \<in> set (rx_run (Alt rx_versioned rx_bare) s [])" and
    b: "(s2, c2) \<in> set (rx_run rx_slot_part s1 c1)" and
    c: "(s3, c3) \<in> set (rx_run rx_repo_part s2 c2)" and
    d: "([], caps) \<in> set (rx_run rx_usedeps s3 c3)"
    using rx_captures_run [OF assms] unfolding atom_regex_def seqs_run by blast
  have a': "(s1, c1) \<in> set (rx_run rx_versioned s []) \<or> (s1, c1) \<in> set (rx_run rx_bare s [])"
    using a by auto
  have "\<exists>head. s = head @ s1 \<and> (versioned_head head c1 \<or> bare_head head c1)"
    using a'
  proof
    assume "(s1, c1) \<in> set (rx_run rx_versioned s [])"
    from versioned_run [OF this] show ?thesis
      unfolding versioned_head_def by (elim exE conjE) (intro exI conjI disjI1, (simp; fail)+)
  next
    assume "(s1, c1) \<in> set (rx_run rx_bare s [])"
    from bare_run [OF this] show ?thesis
      unfolding bare_head_def by (elim exE conjE) (intro exI conjI disjI2, (simp; fail)+)
  qed
  then obtain head where h: "s = head @ s1" "versioned_head head c1 \<or> bare_head head c1" by blast
  obtain sv where sv: "slot_view_ok sv" "s1 = slot_txt sv @ s2" "c2 = slot_caps sv @ c1"
    using slot_run_view [OF b] by blast
  obtain rp where rp: "s2 = repo_txt rp @ s3" "c3 = opt_cap ''repo'' rp @ c2"
    using repo_run [OF c] by (auto simp: repo_txt_def)
  obtain up where up: "s3 = opt_text up" "caps = opt_cap ''usedeps'' up @ c3"
    using usedeps_run [OF d] by auto
  show ?thesis
    using h sv rp up
    by (intro exI [of _ head] exI [of _ c1] exI [of _ sv] exI [of _ rp] exI [of _ up])
      (simp add: tail_caps_def)
qed


text \<open>The groups of the tail and those of the head do not interfere.\<close>

definition tail_names :: "string set" where
  "tail_names = {''usedeps'', ''repo'', ''slotpart'', ''slotop'', ''subslot'', ''slot''}"

lemma bid_caps_lookup:
  "(f ++ map_of (bid_caps bid)) n =
     (case bid of
        None \<Rightarrow> f n
      | Some (v, r) \<Rightarrow>
          if n = ''bidtail'' then Some (bid_text bid)
          else if n = ''tailrev'' \<and> r \<noteq> None then r
          else if n = ''tailver'' then Some v else f n)"
  by (cases bid) (auto simp: map_add_def split: prod.splits)

lemma head_no_tail:
  "versioned_head head hc \<or> bare_head head hc \<Longrightarrow> n \<in> tail_names \<Longrightarrow> map_of hc n = None"
  by (auto simp: versioned_head_def bare_head_def tail_names_def bid_caps_lookup split: option.splits)

lemma tail_lookup_head:
  "n \<notin> tail_names \<Longrightarrow> map_of (tail_caps sv rp up @ hc) n = map_of hc n"
  by (cases sv rule: slot_caps.cases) (auto simp: tail_caps_def tail_names_def)

lemma tail_lookup:
  assumes "\<And>n. n \<in> tail_names \<Longrightarrow> map_of hc n = None"
  shows "map_of (tail_caps sv rp up @ hc) ''usedeps'' = up"
    "map_of (tail_caps sv rp up @ hc) ''repo'' = rp"
    "map_of (tail_caps sv rp up @ hc) ''slotpart'' =
       map_option (\<lambda>(slot, sub, op). opt_text slot @ sub_text sub @ opt_text op) sv"
    "map_of (tail_caps sv rp up @ hc) ''slot'' = Option.bind sv (\<lambda>(slot, sub, op). slot)"
    "map_of (tail_caps sv rp up @ hc) ''subslot'' = Option.bind sv (\<lambda>(slot, sub, op). sub)"
    "map_of (tail_caps sv rp up @ hc) ''slotop'' = Option.bind sv (\<lambda>(slot, sub, op). op)"
  using assms by (cases sv rule: slot_caps.cases; auto simp: tail_caps_def tail_names_def)+

section \<open>The name\<close>

definition head_text :: "name_parts \<Rightarrow> string" where
  "head_text np =
     (if np_operator np = OpEqGlob then ''='' else operator_str (np_operator np))
     @ np_category np @ ''/'' @ np_package np
     @ (case np_version np of
          None \<Rightarrow> []
        | Some v \<Rightarrow> ''-'' @ v @ rev_text_of (np_revision np)
            @ (if np_operator np = OpEqGlob then ''*''
               else case np_build_id np of Some bid \<Rightarrow> ''-'' @ bid | None \<Rightarrow> []))"

lemma operator_from_str_text: "operator_from_str s = Return op \<Longrightarrow> operator_str op = s \<and> op \<noteq> OpEqGlob"
  by (auto simp: operator_from_str_def split: if_splits)

lemma versioned_head_text:
  assumes head: "versioned_head head hc" and c: "\<And>n. n \<notin> tail_names \<Longrightarrow> map_of caps n = map_of hc n"
    and np: "atom_name_parts False caps s allow = Ok np"
  shows "head = head_text np \<and> np_version np \<noteq> None"
proof -
  obtain op cat pkg bid ver rv glob where h: "is_operator op" "\<forall>u. glob = Some u \<longrightarrow> u = ''*''"
      "head = op @ cat @ ''/'' @ pkg @ bid_text bid @ ''-'' @ ver @ rev_text_of rv @ opt_text glob"
      "hc = opt_cap ''glob'' glob @ opt_cap ''rev'' rv @ (''ver'', ver) # bid_caps bid
            @ [(''vpkg'', pkg), (''vcat'', cat), (''op'', op)]"
    using head unfolding versioned_head_def by blast
  have look: "map_of caps ''op'' = Some op" "map_of caps ''vcat'' = Some cat" "map_of caps ''vpkg'' = Some pkg"
      "map_of caps ''ver'' = Some ver" "map_of caps ''rev'' = rv" "map_of caps ''glob'' = glob"
      "map_of caps ''bidtail'' = map_option (\<lambda>x. bid_text (Some x)) bid"
      "map_of caps ''tailver'' = map_option fst bid" "map_of caps ''tailrev'' = Option.bind bid snd"
    by (simp_all add: c tail_names_def h(4) bid_caps_lookup split: option.splits)
  show ?thesis
  proof (cases bid)
    case None
    show ?thesis
      using np h(2) look None
      by (auto simp: atom_name_parts_def versioned_tail_def h(3) head_text_def
          dest!: operator_from_str_text split: if_splits run.splits)
  next
    case (Some b)
    obtain v r where b: "b = (v, r)" by (cases b)
    have "rv = None" "glob = None"
      using np look Some b by (auto simp: atom_name_parts_def versioned_tail_def split: if_splits run.splits)
    then show ?thesis
      using np look Some b
      by (auto simp: atom_name_parts_def versioned_tail_def h(3) head_text_def
          dest!: operator_from_str_text split: if_splits run.splits)
  qed
qed

lemma bare_head_text:
  assumes head: "bare_head head hc" and c: "\<And>n. n \<notin> tail_names \<Longrightarrow> map_of caps n = map_of hc n"
    and np: "atom_name_parts False caps s allow = Ok np"
  shows "head = head_text np \<and> np_operator np = OpNone"
proof -
  obtain cat pkg amb where h: "head = cat @ ''/'' @ pkg @ opt_text amb"
      "hc = opt_cap ''ambiguous'' amb @ [(''pkg'', pkg), (''cat'', cat)]"
    using head unfolding bare_head_def by blast
  have look: "map_of caps ''op'' = None" "map_of caps ''cat'' = Some cat" "map_of caps ''pkg'' = Some pkg"
      "map_of caps ''ambiguous'' = amb"
    by (simp_all add: c tail_names_def h(2))
  show ?thesis
    using np look by (auto simp: atom_name_parts_def h(1) head_text_def split: if_splits)
qed


section \<open>USE dependencies\<close>

lemma use_token_captures:
  assumes "rx_captures use_dep_token_regex t = Some caps"
  shows "\<exists>pre flag d suf. pre \<in> {[], ''!'', ''-''} \<and> suf \<in> {[], ''?'', ''=''} \<and>
     d \<in> {None, Some ''(+)'', Some ''(-)''} \<and> rx_lang USEFLAG flag \<and>
     t = pre @ flag @ opt_text d @ suf \<and>
     map_of caps ''prefix'' = Some pre \<and> map_of caps ''flag'' = Some flag \<and>
     map_of caps ''default'' = d \<and> map_of caps ''suffix'' = Some suf"
proof -
  let ?pre = "Opt (Chr (\<lambda>c. c = CHR ''!'' \<or> c = CHR ''-''))"
  let ?suf = "Opt (Chr (\<lambda>c. c = CHR ''?'' \<or> c = CHR ''=''))"
  let ?def = "Alt (Lit ''(+)'') (Lit ''(-)'')"
  obtain s1 c1 s2 c2 s3 c3 where
    a: "(s1, c1) \<in> set (rx_run (Cap ''prefix'' ?pre) t [])" and
    b: "(s2, c2) \<in> set (rx_run (Cap ''flag'' USEFLAG) s1 c1)" and
    c: "(s3, c3) \<in> set (rx_run (Opt (Cap ''default'' ?def)) s2 c2)" and
    d: "([], caps) \<in> set (rx_run (Cap ''suffix'' ?suf) s3 c3)"
    using rx_captures_run [OF assms] unfolding use_dep_token_regex_def seqs_run by blast
  have n: "rx_names ?pre = {}" "rx_names ?suf = {}" "rx_names ?def = {}" by (simp_all add: Opt_def)
  obtain pre where pre: "rx_lang ?pre pre" "t = pre @ s1" "c1 = [(''prefix'', pre)]"
    using cap_run [OF n(1) a] by auto
  obtain flag where flag: "rx_lang USEFLAG flag" "s1 = flag @ s2" "c2 = (''flag'', flag) # c1"
    using cap_run [OF _ b] by auto
  obtain dd where dd: "\<forall>u. dd = Some u \<longrightarrow> rx_lang ?def u" "s2 = opt_text dd @ s3"
      "c3 = opt_cap ''default'' dd @ c2"
    using opt_cap_run [OF n(3) c] by blast
  obtain suf where suf: "rx_lang ?suf suf" "s3 = suf" "caps = (''suffix'', suf) # c3"
    using cap_run [OF n(2) d] by auto
  have "pre \<in> {[], ''!'', ''-''}" "suf \<in> {[], ''?'', ''=''}" "dd \<in> {None, Some ''(+)'', Some ''(-)''}"
    using pre(1) suf(1) dd(1) by (cases dd; auto simp: Opt_def)+
  then show ?thesis
    using pre flag dd suf
    by (intro exI [of _ pre] exI [of _ flag] exI [of _ dd] exI [of _ suf]) simp
qed

lemma parse_use_dep_text:
  assumes "parse_use_dep t = Ok ud"
  shows "use_dep_text ud = t"
proof -
  obtain caps where caps: "rx_captures use_dep_token_regex t = Some caps"
    using assms by (auto simp: parse_use_dep_def split: option.splits)
  from use_token_captures [OF caps] obtain pre flag d suf where
    c: "pre \<in> {[], ''!'', ''-''}" "suf \<in> {[], ''?'', ''=''}" "d \<in> {None, Some ''(+)'', Some ''(-)''}" and
    t: "t = pre @ flag @ opt_text d @ suf" and
    g: "map_of caps ''prefix'' = Some pre" "map_of caps ''flag'' = Some flag"
      "map_of caps ''default'' = d" "map_of caps ''suffix'' = Some suf" by blast
  have ud: "use_dep_op_of pre suf = Some (ud_op ud)" "ud_flag ud = flag"
      "use_default_of d = (Ok (ud_default ud) :: (string, use_dep_default option) outcome)"
    using assms by (auto simp: parse_use_dep_def caps g or_empty_def split: option.splits)
  have d: "default_str (ud_default ud) = opt_text d"
    using c(3) ud(3) by (auto simp: use_default_of_def) (metis default_str.simps)+
  have "use_dep_text ud = pre @ flag @ opt_text d @ suf"
    using c(1,2) ud(1) unfolding use_dep_text_def Let_def d ud(2)
    by (auto simp: use_dep_op_of_def split: if_splits)
  then show ?thesis using t by simp
qed

lemma join_Cons_hd: "join sep ((x # p) # ps) = x # join sep (p # ps)"
  by (cases ps) auto

lemma join_split: "join [c] (split_char c s) = s"
proof (induction s)
  case (Cons x s)
  obtain p ps where "split_char c s = p # ps" by (cases "split_char c s") auto
  then show ?case using Cons by (auto simp: join_Cons_hd)
qed simp

lemma parse_use_tokens_text: "parse_use_tokens seen ts = Ok uds \<Longrightarrow> map use_dep_text uds = ts"
  by (induction ts arbitrary: seen uds) (auto simp: parse_use_dep_text split: if_splits)

lemma parse_use_deps_text:
  "parse_use_deps raw = Ok uds \<Longrightarrow> raw = ''['' @ join '','' (map use_dep_text uds) @ '']''"
  by (auto simp: parse_use_deps_def strip_prefix_Some strip_suffix_char_def join_split
      dest!: parse_use_tokens_text split: option.splits if_splits)
    (metis append_butlast_last_id)


section \<open>Wildcards\<close>

definition wild_head :: "string \<Rightarrow> captures \<Rightarrow> bool" where
  "wild_head head hc \<longleftrightarrow>
     map_of hc ''simple'' = Some head \<and> CHR ''/'' \<in> set head \<or>
     (\<exists>cp v. CHR ''/'' \<in> set cp \<and> map_of hc ''simple'' = None \<and> map_of hc ''starcp'' = Some cp \<and>
        map_of hc ''starver'' = Some v \<and> head = ''='' @ cp @ ''-'' @ v \<and>
        (\<exists>u. rx_lang (Plus (Chr (alnum_or ''_''))) u \<and> v = ''*'' @ u @ ''*''))"

lemma rx_wtail_names [simp]: "rx_names rx_wtail = {''wtail'', ''wtaildot''}"
  by (auto simp: rx_wtail_def Opt_def Plus_def)

lemma wild_head_run:
  assumes "(s', c') \<in> set (rx_run
      (Alt (Cap ''simple'' (seqs [EXTCAT, Lit ''/'', EXTPKG, rx_wtail]))
           (seqs [Lit ''='', Cap ''starcp'' (seqs [EXTCAT, Lit ''/'', EXTPKG]), Lit ''-'',
                  Cap ''starver'' (seqs [Lit ''*'', Plus (Chr (alnum_or ''_'')), Lit ''*''])])) s [])"
  shows "\<exists>head. s = head @ s' \<and> wild_head head c' \<and> (\<forall>n \<in> tail_names. map_of c' n = None)"
proof -
  let ?simple = "seqs [EXTCAT, Lit ''/'', EXTPKG, rx_wtail]"
  let ?cp = "seqs [EXTCAT, Lit ''/'', EXTPKG]"
  let ?v = "seqs [Lit ''*'', Plus (Chr (alnum_or ''_'')), Lit ''*'']"
  have names: "rx_names ?simple = {''wtail'', ''wtaildot''}" "rx_names ?cp = {}" "rx_names ?v = {}"
    by (simp_all add: rx_wtail_def Opt_def Plus_def insert_commute)
  consider c1 where "(s', c1) \<in> set (rx_run ?simple s [])" "c' = (''simple'', take (length s - length s') s) # c1"
    | s1 s2 c2 where "s = ''='' @ s1" "(''-'' @ s2, c2) \<in> set (rx_run (Cap ''starcp'' ?cp) s1 [])"
        "(s', c') \<in> set (rx_run (Cap ''starver'' ?v) s2 c2)"
    using assms unfolding rx_run.simps(4) set_append Un_iff cap_iff [of _ _ "''simple''"]
    unfolding seqs_run(1) [of _ _ "Lit ''=''"] lit_run
    unfolding seqs_run(1) [of _ _ "Cap ''starcp'' ?cp"] seqs_run(1) [of _ _ "Lit ''-''"] lit_run seqs_run(2)
    by blast
  then show ?thesis
  proof cases
    case 1
    obtain u where u: "s = u @ s'" "rx_lang ?simple u" using rx_run_lang [OF 1(1)] by blast
    have "CHR ''/'' \<in> set u" using u(2) by auto
    moreover have "map_of c1 n = None" if "n \<in> tail_names" for n
      using rx_run_unnamed [OF 1(1), of n] that by (auto simp: names tail_names_def)
    ultimately show ?thesis
      using u(1) 1(2) by (intro exI [of _ u]) (auto simp: wild_head_def tail_names_def)
  next
    case 2
    obtain cp where cp: "s1 = cp @ ''-'' @ s2" "c2 = [(''starcp'', cp)]" "rx_lang ?cp cp"
      using cap_run [OF names(2) 2(2)] by auto
    have "CHR ''/'' \<in> set cp" using cp(3) by auto
    obtain v where v: "rx_lang ?v v" "s2 = v @ s'" "c' = (''starver'', v) # c2"
      using cap_run [OF names(3) 2(3)] by auto
    moreover have "\<exists>u. rx_lang (Plus (Chr (alnum_or ''_''))) u \<and> v = ''*'' @ u @ ''*''" using v(1) by auto
    ultimately show ?thesis
      using 2(1) cp v by (intro exI [of _ "''='' @ cp @ ''-'' @ v"]) (auto simp: wild_head_def tail_names_def)
  qed
qed

lemma wild_captures:
  assumes "rx_captures atom_wildcard_regex s = Some caps"
  shows "\<exists>head hc sv rp. wild_head head hc \<and> (\<forall>n \<in> tail_names. map_of hc n = None) \<and> slot_view_ok sv \<and>
     s = head @ slot_txt sv @ repo_txt rp \<and> caps = tail_caps sv rp None @ hc"
proof -
  let ?h = "Alt (Cap ''simple'' (seqs [EXTCAT, Lit ''/'', EXTPKG, rx_wtail]))
           (seqs [Lit ''='', Cap ''starcp'' (seqs [EXTCAT, Lit ''/'', EXTPKG]), Lit ''-'',
                  Cap ''starver'' (seqs [Lit ''*'', Plus (Chr (alnum_or ''_'')), Lit ''*''])])"
  obtain s1 c1 s2 c2 where
    a: "(s1, c1) \<in> set (rx_run ?h s [])" and
    b: "(s2, c2) \<in> set (rx_run rx_slot_part s1 c1)" and
    c: "([], caps) \<in> set (rx_run rx_repo_part s2 c2)"
    using rx_captures_run [OF assms] unfolding atom_wildcard_regex_def
    unfolding seqs_run(1) [of _ _ ?h] seqs_run(1) [of _ _ rx_slot_part] seqs_run(2) by blast
  obtain head where h: "s = head @ s1" "wild_head head c1" "\<forall>n \<in> tail_names. map_of c1 n = None"
    using wild_head_run [OF a] by blast
  obtain sv where sv: "slot_view_ok sv" "s1 = slot_txt sv @ s2" "c2 = slot_caps sv @ c1"
    using slot_run_view [OF b] by blast
  obtain rp where rp: "s2 = repo_txt rp" "caps = opt_cap ''repo'' rp @ c2"
    using repo_run [OF c] by (auto simp: repo_txt_def)
  show ?thesis
    using h sv rp
    by (intro exI [of _ head] exI [of _ c1] exI [of _ sv] exI [of _ rp]) (simp add: tail_caps_def)
qed

lemma split_slash_text: "split_slash x = Ok (a, b) \<Longrightarrow> x = a @ ''/'' @ b"
proof -
  assume "split_slash x = Ok (a, b)"
  then obtain y where y: "dropWhile (\<lambda>c. c \<noteq> CHR ''/'') x = y # b" "a = takeWhile (\<lambda>c. c \<noteq> CHR ''/'') x"
    by (auto simp: split_slash_def split: list.splits)
  have "y = CHR ''/''" using y(1) by (metis (full_types) dropWhile_eq_Cons_conv)
  then show ?thesis using takeWhile_dropWhile_id [of "\<lambda>c. c \<noteq> CHR ''/''" x] y by simp
qed

lemma wild_head_text:
  assumes head: "wild_head head hc" and c: "\<And>n. n \<notin> tail_names \<Longrightarrow> map_of caps n = map_of hc n"
    and np: "atom_name_parts True caps s allow = Ok np"
  shows "if np_operator np = OpEqGlob
     then \<exists>v. np_version np = Some v \<and> np_revision np = None \<and> np_build_id np = None \<and>
          head = ''='' @ np_category np @ ''/'' @ np_package np @ ''-'' @ v \<and>
          (\<exists>u. rx_lang (Plus (Chr (alnum_or ''_''))) u \<and> v = ''*'' @ u @ ''*'')
     else np_operator np = OpNone \<and> np_version np = None \<and> head = np_category np @ ''/'' @ np_package np"
proof -
  have look: "map_of caps n = map_of hc n" if "n \<in> {''wtaildot'', ''simple'', ''starcp'', ''starver''}" for n
    using that by (intro c) (auto simp: tail_names_def)
  show ?thesis
    using head np
    by (auto simp: wild_head_def atom_name_parts_def wild_name_parts_def look dest!: split_slash_text
        split: if_splits)
qed

section \<open>Round trip\<close>

lemma strip_blocker_text: "strip_blocker s = (b, rest) \<Longrightarrow> s = blocker_text b @ rest"
  by (auto simp: strip_blocker_def strip_prefix_Some split: option.splits)

lemma parse_slot_text:
  assumes sv: "slot_view_ok sv" and look: "map_of caps ''slotpart'' =
       map_option (\<lambda>(slot, sub, op). opt_text slot @ sub_text sub @ opt_text op) sv"
    "map_of caps ''slot'' = Option.bind sv (\<lambda>(slot, sub, op). slot)"
    "map_of caps ''subslot'' = Option.bind sv (\<lambda>(slot, sub, op). sub)"
    "map_of caps ''slotop'' = Option.bind sv (\<lambda>(slot, sub, op). op)"
    and p: "parse_slot attrs caps s = Ok (slot, sub, op)"
  shows "slot_txt sv =
    (case slot of
       Some x \<Rightarrow> '':'' @ x @ sub_text sub @ slot_operator_text op
     | None \<Rightarrow> (case op of Some o' \<Rightarrow> '':'' @ slot_operator_text (Some o') | None \<Rightarrow> []))"
proof (cases sv)
  case None
  then show ?thesis using p look by (auto simp: parse_slot_def)
next
  case (Some x)
  obtain sl su so where x: "x = (sl, su, so)" by (cases x)
  show ?thesis
  proof (cases "ea_slot_operator attrs")
    case True
    have sl: "slot = sl" "sub = su" "slot_of_operator s sl so = Ok op" "\<not> (sl = None \<and> op = None)"
      using p unfolding parse_slot_def look Some x by (auto simp: Let_def True split: if_splits)
    show ?thesis
      using sl sv unfolding Some x
      by (cases sl; cases su) (auto simp: slot_of_operator_def slot_ops_def)
  next
    case False
    then show ?thesis
      using p unfolding parse_slot_def look Some x by (auto split: if_splits)
  qed
qed


lemma slot_text_eq:
  "slot_text a =
    (case a_slot a of
       Some x \<Rightarrow> '':'' @ x @ sub_text (a_sub_slot a) @ slot_operator_text (a_slot_operator a)
     | None \<Rightarrow> (case a_slot_operator a of Some o' \<Rightarrow> '':'' @ slot_operator_text (Some o') | None \<Rightarrow> []))"
  by (auto simp: slot_text_def sub_text_def split: option.splits)

text \<open>The text of a parsed atom: the print, but for the operator of a \<open>=*\<close> atom.\<close>

definition source_operator :: "atom \<Rightarrow> string" where
  "source_operator a = (if a_operator a = OpEqGlob then ''='' else operator_str (a_operator a))"

text \<open>What the two grammars say of an accepted text.\<close>

lemma pick_grammar_cases:
  assumes caps: "pick_grammar s w rest = Ok (caps, ext)"
  obtains head hc sv rp up where
    "if ext then wild_head head hc else versioned_head head hc \<or> bare_head head hc"
    "\<forall>n \<in> tail_names. map_of hc n = None" "slot_view_ok sv"
    "rest = head @ slot_txt sv @ repo_txt rp @ opt_text up" "caps = tail_caps sv rp up @ hc"
proof (cases "rx_captures atom_regex rest")
  case None
  then have "ext" "rx_captures atom_wildcard_regex rest = Some caps"
    using caps by (auto simp: pick_grammar_def split: if_splits option.splits)
  then show ?thesis using wild_captures [of rest caps] that [where up = None] by auto
next
  case (Some c)
  then have "\<not> ext" "rx_captures atom_regex rest = Some caps"
    using caps by (auto simp: pick_grammar_def)
  then show ?thesis using atom_captures [of rest caps] that head_no_tail by metis
qed

definition use_text :: "atom \<Rightarrow> string" where
  "use_text a =
     (case a_use_deps a of Some deps \<Rightarrow> ''['' @ join '','' (map use_dep_text deps) @ '']'' | None \<Rightarrow> [])"

definition name_text :: "atom \<Rightarrow> string" where
  "name_text a =
     a_category a @ ''/'' @ a_package a @ version_text a @ slot_text a
     @ (case a_repo a of Some repo \<Rightarrow> ''::'' @ repo | None \<Rightarrow> [])"

lemma render_atom_parts:
  "render_atom a = blocker_text (a_blocker a) @ operator_str (a_operator a) @ name_text a @ use_text a"
  by (simp add: render_atom_def name_text_def use_text_def)

text \<open>The string of a parsed atom, with the text that its USE dependencies were parsed from.\<close>

lemma parse_atom_parts:
  assumes "parse_atom_with s opts eapi_str = Ok a"
  shows "\<exists>rest caps up. s = blocker_text (a_blocker a) @ rest \<and> strip_blocker s = (a_blocker a, rest) \<and>
     pick_grammar s (ao_allow_wildcard opts) rest = Ok (caps, a_extended a) \<and>
     rest = source_operator a @ name_text a @ opt_text up \<and> map_of caps ''usedeps'' = up \<and>
     opt_text up = use_text a \<and> (up = None \<longleftrightarrow> a_use_deps a = None)"
proof -
  obtain b rest where b: "strip_blocker s = (b, rest)" by (cases "strip_blocker s")
  from assms obtain attrs caps ext np slot sub sop uds allow where
    caps: "pick_grammar s (ao_allow_wildcard opts) rest = Ok (caps, ext)" and
    np: "atom_name_parts ext caps s allow = Ok np" and
    sl: "parse_slot attrs caps s = Ok (slot, sub, sop)" and
    us: "parse_use_part caps = Ok uds" and
    a: "a = \<lparr> a_blocker = b, a_operator = np_operator np,
              a_category = np_category np, a_package = np_package np,
              a_version = np_version np, a_revision = np_revision np,
              a_slot = slot, a_sub_slot = sub, a_slot_operator = sop,
              a_use_deps = uds, a_repo = rx_group caps ''repo'', a_build_id = np_build_id np,
              a_extended = ext \<rparr>"
    unfolding parse_atom_with_def b Let_def prod.case
    by (auto split: if_splits)
  obtain head hc sv rp up where
    h: "if ext then wild_head head hc else versioned_head head hc \<or> bare_head head hc"
      "\<forall>n \<in> tail_names. map_of hc n = None" "slot_view_ok sv"
      "rest = head @ slot_txt sv @ repo_txt rp @ opt_text up" "caps = tail_caps sv rp up @ hc"
    by (rule pick_grammar_cases [OF caps])
  note look = tail_lookup [OF bspec [OF h(2)], of sv rp up, folded h(5)]
  have hlook: "map_of caps n = map_of hc n" if "n \<notin> tail_names" for n
    unfolding h(5) by (rule tail_lookup_head [OF that])
  have slot: "slot_txt sv = slot_text a"
    unfolding slot_text_eq a using parse_slot_text [OF h(3) look(3,4,5,6) sl]
    by (auto split: option.splits)
  have use: "opt_text up = use_text a" "up = None \<longleftrightarrow> a_use_deps a = None"
    using us by (auto simp: a use_text_def parse_use_part_def look(1) map_use_error_def
        dest!: parse_use_deps_text split: option.splits outcome.splits)
  have name: "head = source_operator a @ a_category a @ ''/'' @ a_package a @ version_text a"
  proof (cases ext)
    case True
    have np': "atom_name_parts True caps s allow = Ok np" using np True by simp
    have "wild_head head hc" using h(1) True by simp
    from wild_head_text [OF this hlook np'] show ?thesis
      unfolding a using True by (auto simp: source_operator_def version_text_def split: if_splits)
  next
    case False
    have np': "atom_name_parts False caps s allow = Ok np" using np False by simp
    have "head = head_text np"
      using h(1) False versioned_head_text [OF _ hlook np'] bare_head_text [OF _ hlook np'] by auto
    then show ?thesis
      by (simp add: a source_operator_def version_text_def head_text_def rev_text_of_def False
          split: option.splits)
  qed
  have repo: "repo_txt rp = (case a_repo a of Some repo \<Rightarrow> ''::'' @ repo | None \<Rightarrow> [])"
    by (simp add: a look(2) repo_txt_def)
  have "rest = source_operator a @ name_text a @ opt_text up"
    unfolding h(4) name slot repo by (simp add: name_text_def)
  then show ?thesis
    using strip_blocker_text [OF b] b caps look(1) use
    by (intro exI [of _ rest] exI [of _ caps] exI [of _ up]) (simp add: a)
qed

definition source_text :: "atom \<Rightarrow> string" where
  "source_text a = blocker_text (a_blocker a) @ source_operator a @ name_text a @ use_text a"

lemma parse_atom_text: "parse_atom_with s opts eapi_str = Ok a \<Longrightarrow> s = source_text a"
  by (drule parse_atom_parts) (auto simp: source_text_def)

text \<open>
  C13: Printing a parsed atom: for every accepted string, in every parse mode and with every option, the
  printer gives back exactly the string that was parsed, unless the atom has the operator \<open>=*\<close>; for
  such an atom it never does, because the printer writes the operator's name \<open>=*\<close> before the
  category and the star after the version as well.
\<close>

theorem render_parse:
  assumes "parse_atom_with s opts eapi_str = Ok a"
  shows "render_atom a = s \<longleftrightarrow> a_operator a \<noteq> OpEqGlob"
  using parse_atom_text [OF assms]
  by (auto simp: source_text_def render_atom_parts source_operator_def)

theorem render_parse_witness:
  "\<exists>a. parse_atom_with ''!>=a/b-1_p2-r3:0=[c(+)?]'' default_options [] = Ok a \<and>
       render_atom a = ''!>=a/b-1_p2-r3:0=[c(+)?]''"
proof -
  let ?s = "''!>=a/b-1_p2-r3:0=[c(+)?]''"
  let ?a = "\<lparr> a_blocker = BlockWeak, a_operator = OpGe, a_category = ''a'', a_package = ''b'',
      a_version = Some ''1_p2'', a_revision = Some ''3'', a_slot = Some ''0'', a_sub_slot = None,
      a_slot_operator = Some SlotEquals,
      a_use_deps = Some [\<lparr> ud_flag = ''c'', ud_op = IfParentEnabled, ud_default = Some DefaultEnabled \<rparr>],
      a_repo = None, a_build_id = None, a_extended = False \<rparr>"
  have "parse_atom_with ?s default_options [] = Ok ?a" by code_simp
  from render_parse [OF this] this show ?thesis by (intro exI [of _ ?a]) simp
qed

end
