(* ===== verification/AtomMatch.thy ===== *)
theory AtomMatch
  imports AtomRound
begin

text \<open>
  What the atom parsers and the matcher guarantee: no entry point panics, a parsed version is a
  version in the sense of \<open>Versions\<close>, so that the comparisons of the matcher are comparisons of
  version keys; the meaning of parsed USE dependencies; the evaluation of conditionals as an
  operation on the text.
\<close>

section \<open>The parser never panics\<close>

lemma out_bind_Panicked:
  "out_bind x f = Panicked \<longleftrightarrow> x = Panicked \<or> (\<exists>y. x = Ok y \<and> f y = Panicked)"
  by (cases x) auto

lemma run_bind_Panic:
  "run_bind x f = Panic \<longleftrightarrow> x = Panic \<or> (\<exists>y. x = Return y \<and> f y = Panic)"
  by (cases x) auto

lemma unwrap_Panicked [simp]: "unwrap x = Panicked \<longleftrightarrow> x = None"
  by (cases x) (auto simp: unwrap_def)

lemma split_slash_Ok: "CHR ''/'' \<in> set x \<Longrightarrow> split_slash x \<noteq> Panicked"
  by (auto simp: split_slash_def dropWhile_eq_Nil_conv split: list.splits)

lemma parse_use_dep_total: "parse_use_dep t \<noteq> Panicked"
proof
  assume p: "parse_use_dep t = Panicked"
  then obtain caps where caps: "rx_captures use_dep_token_regex t = Some caps"
    by (auto simp: parse_use_dep_def split: option.splits)
  from use_token_captures [OF this] p caps show False
    by (auto simp: parse_use_dep_def out_bind_Panicked use_default_of_def
        split: option.splits if_splits)
qed

lemma parse_use_tokens_total: "parse_use_tokens seen ts \<noteq> Panicked"
  by (induction ts arbitrary: seen) (auto simp: out_bind_Panicked parse_use_dep_total)

lemma parse_use_part_total: "parse_use_part caps \<noteq> Panicked"
  by (auto simp: parse_use_part_def map_use_error_def out_bind_Panicked parse_use_deps_def
      parse_use_tokens_total split: option.splits outcome.splits)

lemma check_features_total:
  "check_atom_eapi_features e slot attrs es s uds b \<noteq> Panicked"
  by (auto simp: check_atom_eapi_features_def eapi_incompatible_def out_bind_Panicked
      split: option.splits)

lemma parse_slot_total:
  assumes "slot_view_ok sv" "map_of caps ''slotop'' = Option.bind sv (\<lambda>(slot, sub, op). op)"
  shows "parse_slot attrs caps s \<noteq> Panicked"
  using assms
  by (cases sv) (auto simp: parse_slot_def out_bind_Panicked Let_def slot_of_operator_def slot_ops_def
      split: option.splits if_splits)

lemma operator_from_str_total: "is_operator op \<Longrightarrow> operator_from_str op \<noteq> Panic"
  by (auto simp: is_operator_def operator_from_str_def)

text \<open>The groups of the head that are not in the tail.\<close>

lemma versioned_groups:
  assumes head: "versioned_head head hc" and c: "\<And>n. n \<notin> tail_names \<Longrightarrow> map_of caps n = map_of hc n"
  obtains op cat pkg bid ver rv glob where
    "is_operator op" "rx_lang VER ver" "\<forall>u. rv = Some u \<longrightarrow> rx_lang digits u"
    "\<forall>v r. bid = Some (v, r) \<longrightarrow> rx_lang VER v \<and> (\<forall>u. r = Some u \<longrightarrow> rx_lang digits u)"
    "map_of caps ''op'' = Some op" "map_of caps ''vcat'' = Some cat" "map_of caps ''vpkg'' = Some pkg"
    "map_of caps ''ver'' = Some ver" "map_of caps ''rev'' = rv" "map_of caps ''glob'' = glob"
    "map_of caps ''bidtail'' = map_option (\<lambda>x. bid_text (Some x)) bid"
    "map_of caps ''tailver'' = map_option fst bid" "map_of caps ''tailrev'' = Option.bind bid snd"
proof -
  obtain op cat pkg bid ver rv glob where h: "is_operator op" "rx_lang VER ver"
      "\<forall>u. rv = Some u \<longrightarrow> rx_lang digits u"
      "\<forall>v r. bid = Some (v, r) \<longrightarrow> rx_lang VER v \<and> (\<forall>u. r = Some u \<longrightarrow> rx_lang digits u)"
      "hc = opt_cap ''glob'' glob @ opt_cap ''rev'' rv @ (''ver'', ver) # bid_caps bid
            @ [(''vpkg'', pkg), (''vcat'', cat), (''op'', op)]"
    using head unfolding versioned_head_def by blast
  show ?thesis
    by (rule that [of op ver rv bid cat pkg glob])
      (use h(1-4) in \<open>simp_all add: c tail_names_def h(5) bid_caps_lookup split: option.splits\<close>)
qed

lemma versioned_name_total:
  assumes "versioned_head head hc" "\<And>n. n \<notin> tail_names \<Longrightarrow> map_of caps n = map_of hc n"
  shows "atom_name_parts False caps s allow \<noteq> Panicked"
  by (rule versioned_groups [OF assms])
    (auto simp: atom_name_parts_def versioned_tail_def out_bind_Panicked
      dest: operator_from_str_total split: run.splits option.splits)

lemma bare_name_total:
  assumes "bare_head head hc" "\<And>n. n \<notin> tail_names \<Longrightarrow> map_of caps n = map_of hc n"
  shows "atom_name_parts False caps s allow \<noteq> Panicked"
proof -
  have "map_of caps ''op'' = None" "map_of caps ''cat'' \<noteq> None" "map_of caps ''pkg'' \<noteq> None"
    using assms(1) by (auto simp: bare_head_def assms(2) tail_names_def)
  then show ?thesis by (auto simp: atom_name_parts_def out_bind_Panicked)
qed

lemma wild_name_total:
  assumes head: "wild_head head hc" and c: "\<And>n. n \<notin> tail_names \<Longrightarrow> map_of caps n = map_of hc n"
  shows "atom_name_parts True caps s allow \<noteq> Panicked"
proof -
  have look: "map_of caps n = map_of hc n" if "n \<in> {''wtaildot'', ''simple'', ''starcp'', ''starver''}" for n
    using that by (intro c) (auto simp: tail_names_def)
  show ?thesis
    using head
    by (auto simp: wild_head_def atom_name_parts_def wild_name_parts_def look out_bind_Panicked split_slash_Ok
        split: if_splits)
qed

text \<open>The parts of a parse; the rest of this theory speaks of them.\<close>

lemma parse_with_total: "parse_atom_with s opts eapi_str \<noteq> Panicked"
proof
  assume p: "parse_atom_with s opts eapi_str = Panicked"
  obtain b rest where b: "strip_blocker s = (b, rest)" by (cases "strip_blocker s")
  obtain attrs where attrs: "mode_attrs (ao_eapi opts) = Ok attrs" using mode_attrs_Ok by blast
  have g: "pick_grammar s w r \<noteq> Panicked" for w r
    by (auto simp: pick_grammar_def split: option.splits)
  obtain caps ext allow where caps: "pick_grammar s (ao_allow_wildcard opts) rest = Ok (caps, ext)"
      and c: "atom_name_parts ext caps s allow = Panicked \<or> parse_slot attrs caps s = Panicked"
    using p by (auto simp: parse_atom_with_def b attrs lift_panic_def out_bind_Panicked g
        parse_use_part_total check_features_total Let_def split: if_splits)
  obtain head hc sv rp up where
    h: "if ext then wild_head head hc else versioned_head head hc \<or> bare_head head hc"
      "\<forall>n \<in> tail_names. map_of hc n = None" "slot_view_ok sv"
      "rest = head @ slot_txt sv @ repo_txt rp @ opt_text up" "caps = tail_caps sv rp up @ hc"
    by (rule pick_grammar_cases [OF caps])
  note look = tail_lookup [OF bspec [OF h(2)], of sv rp up, folded h(5)]
  have hlook: "map_of caps n = map_of hc n" if "n \<notin> tail_names" for n
    unfolding h(5) by (rule tail_lookup_head [OF that])
  have "atom_name_parts ext caps s allow \<noteq> Panicked"
    using h(1) wild_name_total [OF _ hlook] versioned_name_total [OF _ hlook] bare_name_total [OF _ hlook]
    by (cases ext) auto
  then show False using c parse_slot_total [OF h(3) look(6)] by blast
qed

lemma out_ok_total: "parse_atom_with s opts e = r \<Longrightarrow> out_ok r \<noteq> Panic"
  using parse_with_total by (auto simp: out_ok_def split: outcome.splits)


section \<open>Parsed versions are versions\<close>

lemma lang_star: "rx_lang (Star r) w \<Longrightarrow> \<exists>ws. w = concat ws \<and> (\<forall>x \<in> set ws. rx_lang r x)"
proof (induction "Star r" w rule: rx_lang.induct)
  case 6
  show ?case by (intro exI [of _ "[]"]) simp
next
  case (7 u v)
  then obtain ws where "v = concat ws" "\<forall>x \<in> set ws. rx_lang r x" by blast
  then show ?case using 7(1) by (intro exI [of _ "u # ws"]) simp
qed

lemma digits_number: "rx_lang digits u \<Longrightarrow> number u"
proof -
  assume "rx_lang digits u"
  then obtain c ws where u: "is_digit c" "u = c # concat ws" "\<forall>x \<in> set ws. rx_lang (Chr is_digit) x"
    by (auto simp: digits_def Plus_def dest!: lang_star)
  have "all_digits (concat ws)" using u(3) by (induction ws) auto
  then show "number u" using u(1,2) by (simp add: number_def)
qed

lemma star_digits: "rx_lang (Star (Chr is_digit)) w \<Longrightarrow> all_digits w"
proof -
  assume "rx_lang (Star (Chr is_digit)) w"
  then obtain ws where "w = concat ws" "\<forall>x \<in> set ws. rx_lang (Chr is_digit) x" using lang_star by blast
  then show "all_digits w" by (induction ws arbitrary: w) auto
qed

lemma choose_words:
  assumes "\<forall>x \<in> set ws. \<exists>y. x = f y \<and> P y"
  shows "\<exists>ys. ws = map f ys \<and> (\<forall>y \<in> set ys. P y)"
  using assms
proof (induction ws)
  case (Cons x ws)
  then obtain y ys where "x = f y" "P y" "ws = map f ys" "\<forall>y \<in> set ys. P y" by auto
  then show ?case by (intro exI [of _ "y # ys"]) simp
qed simp

lemma VER_shape:
  assumes "rx_lang VER v" "\<forall>r. rv = Some r \<longrightarrow> rx_lang digits r"
  shows "ververify (v @ rev_text_of rv)"
proof -
  obtain m ds l sx where v: "v = m @ concat ds @ l @ concat sx" "rx_lang digits m"
      "\<forall>x \<in> set ds. rx_lang (Seq (Lit ''.'') digits) x" "rx_lang (Opt (Chr is_lower_alpha)) l"
      "\<forall>x \<in> set sx. rx_lang suffix_word x"
    using assms(1) by (auto simp: VER_def dest!: lang_star)
  have "\<exists>xs. ds = map ((#) CHR ''.'') xs \<and> (\<forall>x \<in> set xs. number x)"
    using v(3) by (intro choose_words) (auto dest: digits_number)
  then have d: "dotted_shape (concat ds)" by (auto simp: dotted_shape_def)
  have "\<exists>xs. sx = map ((#) CHR ''_'') xs \<and> (\<forall>x \<in> set xs. suffix_chunk x)"
  proof (intro choose_words ballI)
    fix x assume "x \<in> set sx"
    then have "rx_lang suffix_word x" using v(5) by blast
    then obtain n e where "n \<in> set suffix_names" "rx_lang (Star (Chr is_digit)) e" "x = CHR ''_'' # n @ e"
      by (auto simp: suffix_word_def suffix_names_def)
    then show "\<exists>y. x = CHR ''_'' # y \<and> suffix_chunk y"
      using star_digits by (auto simp: suffix_chunk_def)
  qed
  then have s: "suffix_shape (concat sx)" by (auto simp: suffix_shape_def)
  have l: "l = [] \<or> (\<exists>c. l = [c] \<and> is_lower c)"
    using v(4) by (auto simp: Opt_def is_lower_def is_lower_alpha_def)
  have r: "case rv of None \<Rightarrow> True | Some r \<Rightarrow> number r"
    using assms(2) digits_number by (cases rv) auto
  have "ver_shape (v @ rev_text_of rv)
      \<lparr> vc_main = m, vc_dotted = concat ds, vc_letter = l, vc_suffix = concat sx, vc_rev = rv \<rparr>"
    using v(1) digits_number [OF v(2)] d s l r
    by (auto simp: ver_shape_def rev_string_def rev_text_of_def)
  from ver_captures_complete [OF this] show ?thesis by (simp add: ververify_def)
qed


definition atom_ok :: "atom \<Rightarrow> bool" where
  "atom_ok a \<longleftrightarrow>
     (case a_version a of
        None \<Rightarrow> a_operator a = OpNone
      | Some v \<Rightarrow>
          if a_extended a then a_operator a = OpEqGlob \<and> star_inner v \<noteq> None
          else a_operator a \<noteq> OpNone \<and> ververify (v @ rev_text_of (a_revision a)))"

definition np_ok :: "bool \<Rightarrow> name_parts \<Rightarrow> bool" where
  "np_ok ext np \<longleftrightarrow>
     (case np_version np of
        None \<Rightarrow> np_operator np = OpNone
      | Some v \<Rightarrow>
          if ext then np_operator np = OpEqGlob \<and> star_inner v \<noteq> None
          else np_operator np \<noteq> OpNone \<and> ververify (v @ rev_text_of (np_revision np)))"

lemma operator_from_str_OpNone: "operator_from_str s \<noteq> Return OpNone"
  by (auto simp: operator_from_str_def)

lemma versioned_name_ok:
  assumes "versioned_head head hc" "\<And>n. n \<notin> tail_names \<Longrightarrow> map_of caps n = map_of hc n"
    and np: "atom_name_parts False caps s allow = Ok np"
  shows "np_ok False np"
proof (rule versioned_groups [OF assms(1,2)])
  fix op cat pkg bid ver rv glob
  assume h: "rx_lang VER ver" "\<forall>u. rv = Some u \<longrightarrow> rx_lang digits u"
    "\<forall>v r. bid = Some (v, r) \<longrightarrow> rx_lang VER v \<and> (\<forall>u. r = Some u \<longrightarrow> rx_lang digits u)"
    and look: "map_of caps ''op'' = Some op" "map_of caps ''vcat'' = Some cat" "map_of caps ''vpkg'' = Some pkg"
    "map_of caps ''ver'' = Some ver" "map_of caps ''rev'' = rv" "map_of caps ''glob'' = glob"
    "map_of caps ''bidtail'' = map_option (\<lambda>x. bid_text (Some x)) bid"
    "map_of caps ''tailver'' = map_option fst bid" "map_of caps ''tailrev'' = Option.bind bid snd"
  have "np_operator np \<noteq> OpNone"
    using np operator_from_str_OpNone by (auto simp: atom_name_parts_def look split: if_splits run.splits)
  moreover have "\<exists>v r. np_version np = Some v \<and> np_revision np = r \<and> rx_lang VER v \<and>
      (\<forall>u. r = Some u \<longrightarrow> rx_lang digits u)"
    using np h
    by (cases bid) (auto simp: atom_name_parts_def versioned_tail_def look split: if_splits run.splits)
  ultimately show ?thesis using VER_shape by (auto simp: np_ok_def)
qed

lemma star_inner_Some: "star_inner (''*'' @ u @ ''*'') = Some u"
  by (simp add: star_inner_def strip_suffix_char_def)

lemma name_ok:
  assumes h: "if ext then wild_head head hc else versioned_head head hc \<or> bare_head head hc"
    and c: "\<And>n. n \<notin> tail_names \<Longrightarrow> map_of caps n = map_of hc n"
    and np: "atom_name_parts ext caps s allow = Ok np"
  shows "np_ok ext np"
proof (cases ext)
  case True
  have p: "atom_name_parts True caps s allow = Ok np" and w: "wild_head head hc" using np h True by simp_all
  from wild_head_text [OF w c p] show ?thesis
    using star_inner_Some True by (auto simp: np_ok_def split: if_splits)
next
  case False
  have p: "atom_name_parts False caps s allow = Ok np" using np False by simp
  from h False consider "versioned_head head hc" | "bare_head head hc" by auto
  then show ?thesis
  proof cases
    case 1
    show ?thesis using versioned_name_ok [OF 1 c p] False by simp
  next
    case 2
    have "map_of caps ''op'' = None" using 2 by (auto simp: bare_head_def c tail_names_def)
    then show ?thesis using p False by (auto simp: np_ok_def atom_name_parts_def split: if_splits)
  qed
qed

lemma parse_atom_ok:
  assumes "parse_atom_with s opts eapi_str = Ok a"
  shows "atom_ok a"
proof -
  obtain b rest where b: "strip_blocker s = (b, rest)" by (cases "strip_blocker s")
  from assms obtain caps np allow where
    caps: "pick_grammar s (ao_allow_wildcard opts) rest = Ok (caps, a_extended a)" and
    np: "atom_name_parts (a_extended a) caps s allow = Ok np" and
    a: "a_operator a = np_operator np" "a_version a = np_version np" "a_revision a = np_revision np"
    unfolding parse_atom_with_def b Let_def prod.case
    by (auto split: if_splits)
  obtain head hc sv rp up where
    h: "if a_extended a then wild_head head hc else versioned_head head hc \<or> bare_head head hc"
      "caps = tail_caps sv rp up @ hc"
    by (rule pick_grammar_cases [OF caps])
  have hlook: "map_of caps n = map_of hc n" if "n \<notin> tail_names" for n
    unfolding h(2) by (rule tail_lookup_head [OF that])
  from name_ok [OF h(1) hlook np] show ?thesis
    unfolding atom_ok_def np_ok_def a .
qed

section \<open>Candidates\<close>

lemma candidate_captures:
  assumes "rx_captures candidate_regex s = Some caps"
  obtains cat pkg v rv where "map_of caps ''cat'' = Some cat" "map_of caps ''pkg'' = Some pkg"
    "map_of caps ''ver'' = Some v" "map_of caps ''rev'' = rv" "rx_lang VER v"
    "\<forall>u. rv = Some u \<longrightarrow> rx_lang digits u"
proof -
  let ?slot = "Opt (Seq (Lit '':'') (Seq (Cap ''slot'' SLOT) (Opt (Seq (Lit ''/'') (Cap ''subslot'' SLOT)))))"
  obtain s1 c1 s2 s3 c3 s4 s5 c5 s6 c6 s7 c7 where
    a: "(''/'' @ s1, c1) \<in> set (rx_run (Cap ''cat'' CAT) s [])" and
    b: "(''-'' @ s2, c3) \<in> set (rx_run (Cap ''pkg'' PKG) s1 c1)" and
    c: "(s4, c5) \<in> set (rx_run (Cap ''ver'' VER) s2 c3)" and
    d: "(s6, c6) \<in> set (rx_run (rx_rev ''rev'') s4 c5)" and
    e: "(s7, c7) \<in> set (rx_run ?slot s6 c6)" and
    f: "([], caps) \<in> set (rx_run rx_repo_part s7 c7)"
    using rx_captures_run [OF assms] unfolding candidate_regex_def seqs_run lit_run by blast
  obtain cat where 1: "c1 = [(''cat'', cat)]" using cap_run [OF _ a] by auto
  obtain pkg where 2: "c3 = (''pkg'', pkg) # c1" using cap_run [OF _ b] by auto
  obtain v where 3: "rx_lang VER v" "c5 = (''ver'', v) # c3" using cap_run [OF _ c] by auto
  obtain rv where 4: "\<forall>u. rv = Some u \<longrightarrow> rx_lang digits u" "c6 = opt_cap ''rev'' rv @ c5"
    using rev_run [OF d] by blast
  have 5: "map_of caps n = map_of c6 n" if "n \<notin> {''slot'', ''subslot'', ''repo''}" for n
    using rx_run_unnamed [OF e, of n] rx_run_unnamed [OF f, of n] that
    by (auto simp: Opt_def rx_repo_part_def)
  show ?thesis
    by (rule that [of cat pkg v rv]) (use 1 2 3 4 in \<open>simp_all add: 5 split: option.splits\<close>)
qed

lemma parse_candidate_cases:
  "parse_candidate s = Return None \<or>
   (\<exists>c. parse_candidate s = Return (Some c) \<and> ververify (c_version c @ rev_text_of (c_revision c)) \<and>
        c_build_id c = None)"
proof (cases "rx_captures candidate_regex s")
  case (Some caps)
  obtain cat pkg v rv where c: "map_of caps ''cat'' = Some cat" "map_of caps ''pkg'' = Some pkg"
    "map_of caps ''ver'' = Some v" "map_of caps ''rev'' = rv" "rx_lang VER v"
    "\<forall>u. rv = Some u \<longrightarrow> rx_lang digits u"
    by (rule candidate_captures [OF Some])
  then show ?thesis
    using VER_shape [OF c(5,6)] Some by (simp add: parse_candidate_def expect_some_def)
qed (simp add: parse_candidate_def)


section \<open>Matching\<close>

lemma atom_full_version_eq:
  "atom_full_version a = map_option (\<lambda>v. v @ rev_text_of (a_revision a)) (a_version a)"
  by (auto simp: atom_full_version_def rev_text_of_def split: option.splits)

lemma candidate_full_version_eq: "candidate_full_version c = c_version c @ rev_text_of (c_revision c)"
  by (auto simp: candidate_full_version_def rev_text_of_def split: option.splits)

text \<open>The comparison of two versions by their keys.\<close>

lemma vercmp_valid:
  assumes "ververify u" "ververify v"
  shows "vercmp u v = (if overlong u v then Panic
           else Return (Some (if version_key u < version_key v then -1
           else if version_key u = version_key v then 0 else 1)))"
proof (cases "u = v")
  case False
  then show ?thesis using assms by (auto simp: vercmp_key cmp_lin_def)
qed (simp add: vercmp_def overlong_def)

text \<open>What the version part of an atom asks of a candidate.\<close>

definition version_wanted :: "atom \<Rightarrow> candidate \<Rightarrow> bool" where
  "version_wanted a c =
     (let have_key = version_key (candidate_full_version c);
          want_key = version_key (the (atom_full_version a))
      in case a_operator a of
           OpNone \<Rightarrow> True
         | OpEq \<Rightarrow> (a_build_id a = None \<or> a_build_id a = c_build_id c) \<and> have_key = want_key
         | OpGt \<Rightarrow> have_key > want_key
         | OpGe \<Rightarrow> have_key \<ge> want_key
         | OpLt \<Rightarrow> have_key < want_key
         | OpLe \<Rightarrow> have_key \<le> want_key
         | OpTilde \<Rightarrow> a_version a = Some (c_version c)
         | OpEqGlob \<Rightarrow>
             if a_extended a
             then contains_str (candidate_full_version c) (the (star_inner (the (a_version a))))
             else glob_boundary (glob_compare_string (the (a_version a)) (a_revision a))
                    (glob_compare_string (c_version c) (c_revision c)))"

text \<open>The comparison of the versions panics: a component has to be padded beyond the width of a format.\<close>

definition version_overlong :: "atom \<Rightarrow> candidate \<Rightarrow> bool" where
  "version_overlong a c \<longleftrightarrow>
     a_operator a \<in> {OpEq, OpGt, OpGe, OpLt, OpLe} \<and>
     \<not> (a_operator a = OpEq \<and> a_build_id a \<noteq> None \<and> a_build_id a \<noteq> c_build_id c) \<and>
     overlong (candidate_full_version c) (the (atom_full_version a))"

lemma matches_version_wanted:
  assumes "atom_ok a" "ververify (candidate_full_version c)"
  shows "matches_version a c = (if version_overlong a c then Panic else Return (version_wanted a c))"
proof (cases "a_version a")
  case None
  then have "a_operator a = OpNone" using assms(1) by (simp add: atom_ok_def)
  then show ?thesis by (simp add: matches_version_def version_wanted_def version_overlong_def)
next
  case (Some v)
  have full: "atom_full_version a = Some (v @ rev_text_of (a_revision a))"
    by (simp add: atom_full_version_eq Some)
  show ?thesis
  proof (cases "a_extended a")
    case True
    then have "a_operator a = OpEqGlob" "star_inner v \<noteq> None" using assms(1) Some by (simp_all add: atom_ok_def)
    then show ?thesis
      using True by (auto simp: matches_version_def version_wanted_def version_overlong_def Some expect_some_def)
  next
    case False
    then have "ververify (v @ rev_text_of (a_revision a))" "a_operator a \<noteq> OpNone"
      using assms(1) Some by (simp_all add: atom_ok_def)
    note cmp = vercmp_valid [OF assms(2) this(1)]
    show ?thesis
      using False \<open>a_operator a \<noteq> OpNone\<close>
      by (cases "a_operator a")
        (auto simp: matches_version_def version_wanted_def version_overlong_def full Some expect_some_def cmp not_less)
  qed
qed

definition names_match :: "atom \<Rightarrow> candidate \<Rightarrow> bool" where
  "names_match a c \<longleftrightarrow>
     a_category a = c_category c \<and> a_package a = c_package c \<or>
     a_extended a \<and> extended_cp_match (a_category a @ ''/'' @ a_package a) (c_category c @ ''/'' @ c_package c)"

definition candidate_wanted :: "atom \<Rightarrow> candidate \<Rightarrow> bool" where
  "candidate_wanted a c \<longleftrightarrow> names_match a c \<and> version_wanted a c \<and> matches_slot a c \<and> matches_repo a c"

definition candidate_overlong :: "atom \<Rightarrow> candidate \<Rightarrow> bool" where
  "candidate_overlong a c \<longleftrightarrow> names_match a c \<and> version_overlong a c"

lemma candidate_hits_wanted:
  assumes "atom_ok a" "ververify (candidate_full_version c)"
  shows "candidate_hits a c = (if candidate_overlong a c then Panic else Return (candidate_wanted a c))"
  by (auto simp: candidate_hits_def candidate_wanted_def candidate_overlong_def names_match_def
      matches_version_wanted [OF assms] Let_def)

text \<open>The candidate of a string with the build-id of its binary instance.\<close>

definition candidate_of :: "string \<Rightarrow> string option \<Rightarrow> candidate option" where
  "candidate_of s bid =
     (case parse_candidate s of
        Return (Some c) \<Rightarrow> Some (case bid of Some b \<Rightarrow> c\<lparr> c_build_id := Some b \<rparr> | None \<Rightarrow> c)
      | _ \<Rightarrow> None)"

definition string_overlong :: "atom \<Rightarrow> string \<times> string option \<Rightarrow> bool" where
  "string_overlong a x = (case candidate_of (fst x) (snd x) of None \<Rightarrow> False | Some c \<Rightarrow> candidate_overlong a c)"

definition string_wanted :: "atom \<Rightarrow> string \<times> string option \<Rightarrow> bool" where
  "string_wanted a x = (case candidate_of (fst x) (snd x) of None \<Rightarrow> False | Some c \<Rightarrow> candidate_wanted a c)"

lemma match_atom_run:
  assumes "atom_ok a"
  shows "match_atom_matches_candidate a s bid =
    (if string_overlong a (s, bid) then Panic else Return (string_wanted a (s, bid)))"
proof -
  consider "parse_candidate s = Return None"
    | c where "parse_candidate s = Return (Some c)" "ververify (c_version c @ rev_text_of (c_revision c))"
    using parse_candidate_cases [of s] by blast
  then show ?thesis
  proof cases
    case 2
    then have "ververify (candidate_full_version (case bid of Some b \<Rightarrow> c\<lparr> c_build_id := Some b \<rparr> | None \<Rightarrow> c))"
      by (cases bid) (simp_all add: candidate_full_version_eq)
    from candidate_hits_wanted [OF assms this] show ?thesis
      by (simp add: match_atom_matches_candidate_def string_overlong_def string_wanted_def candidate_of_def 2)
  qed (simp add: match_atom_matches_candidate_def string_overlong_def string_wanted_def candidate_of_def)
qed

lemma parse_match_atom_ok: "parse_match_atom s = Return (Some a) \<Longrightarrow> atom_ok a"
  by (auto simp: parse_match_atom_def out_ok_def intro: parse_atom_ok split: outcome.splits)

lemma parse_match_atom_total: "\<exists>ao. parse_match_atom s = Return ao"
  using out_ok_total by (cases "parse_match_atom s") (auto simp: parse_match_atom_def)

lemma match_loop_wanted:
  assumes "parse_match_atom s = Return (Some a)"
  shows "match_loop s cs =
    (if list_ex (string_overlong a) cs then Panic else Return (Some (map fst (filter (string_wanted a) cs))))"
proof (induction cs)
  case (Cons x cs)
  then show ?case
    by (cases x) (simp add: match_pair_def assms match_atom_run [OF parse_match_atom_ok [OF assms]])
qed simp

text \<open>
  C8: \<open>match_from_list_with_build_id\<close> and \<open>match_from_list\<close> return \<open>None\<close> exactly when the atom does not
  parse, also for no candidates. Otherwise they return, in their order, the candidates that parse and that
  the atom wants: same category and package (or matched by the pattern of a wildcard atom), the version in
  the relation of the operator to the atom's version in the order of version keys, the slot and the
  repository. They panic exactly when the comparison with one of the candidates does: its name matches, the
  operator compares versions, and a component has to be padded beyond the width of a format. (The limit of
  the regex crate on the size of the pattern of a wildcard atom is not modelled.)
\<close>

theorem match_list_wanted:
  "\<exists>ao. parse_match_atom s = Return ao \<and>
     match_from_list_with_build_id s cs =
       (case ao of
          None \<Rightarrow> Return None
        | Some a \<Rightarrow> if list_ex (string_overlong a) cs then Panic
                    else Return (Some (map fst (filter (string_wanted a) cs)))) \<and>
     match_from_list s ds =
       (case ao of
          None \<Rightarrow> Return None
        | Some a \<Rightarrow> if list_ex (\<lambda>c. string_overlong a (c, None)) ds then Panic
                    else Return (Some (filter (\<lambda>c. string_wanted a (c, None)) ds)))"
proof -
  obtain ao where ao: "parse_match_atom s = Return ao" using parse_match_atom_total by blast
  show ?thesis
  proof (cases ao)
    case None
    have "match_loop s xs = Return None" if "xs \<noteq> []" for xs
      using that by (cases xs; cases "hd xs") (auto simp: match_pair_def ao None)
    then show ?thesis using ao None by (simp add: match_from_list_with_build_id_def match_from_list_def)
  next
    case (Some a)
    have p: "parse_match_atom s = Return (Some a)" using ao Some by simp
    have "map fst (filter P (map (\<lambda>c. (c, None)) ds)) = filter (\<lambda>c. P (c, None)) ds"
      "list_ex P (map (\<lambda>c. (c, None)) ds) = list_ex (\<lambda>c. P (c, None)) ds"
      for P :: "string \<times> string option \<Rightarrow> bool"
      by (induction ds) auto
    then show ?thesis
      using match_loop_wanted [OF p] p Some
      by (simp add: match_from_list_with_build_id_def match_from_list_def)
  qed
qed

section \<open>Parsed USE dependencies\<close>

text \<open>A flag has one default in a list of USE dependencies.\<close>

definition consistent :: "use_dep list \<Rightarrow> bool" where
  "consistent uds \<longleftrightarrow>
     (\<forall>x \<in> set uds. \<forall>y \<in> set uds. ud_flag x = ud_flag y \<longrightarrow> ud_default x = ud_default y)"

lemma parse_use_tokens_consistent:
  "parse_use_tokens seen ts = Ok uds \<Longrightarrow>
     consistent uds \<and> (\<forall>x \<in> set uds. \<forall>d. seen (ud_flag x) = Some d \<longrightarrow> ud_default x = d)"
proof (induction ts arbitrary: seen uds)
  case (Cons token ts)
  from Cons.prems obtain ud rest where
    ud: "\<forall>d. seen (ud_flag ud) = Some d \<longrightarrow> d = ud_default ud" and
    rest: "parse_use_tokens (seen(ud_flag ud \<mapsto> ud_default ud)) ts = Ok rest" "uds = ud # rest"
    by (fastforce split: if_splits)
  have ih: "consistent rest" "\<forall>x \<in> set rest. \<forall>d. (seen(ud_flag ud \<mapsto> ud_default ud)) (ud_flag x) = Some d \<longrightarrow> ud_default x = d"
    using Cons.IH [OF rest(1)] by blast+
  have same: "ud_default x = ud_default ud" if "x \<in> set rest" "ud_flag x = ud_flag ud" for x
    using ih(2) that by simp
  have "ud_default x = d" if "x \<in> set rest" "seen (ud_flag x) = Some d" for x d
    using ih(2) that same ud by (cases "ud_flag x = ud_flag ud") auto
  moreover have "consistent uds"
    unfolding consistent_def rest(2)
  proof (intro ballI impI)
    fix x y assume "x \<in> set (ud # rest)" "y \<in> set (ud # rest)" "ud_flag x = ud_flag y"
    then show "ud_default x = ud_default y"
      using ih(1) same [of x] same [of y] unfolding consistent_def by (metis set_ConsD)
  qed
  ultimately show ?case using ud rest(2) by auto
qed (simp add: consistent_def)

text \<open>The value a USE dependency sees, and what it asks.\<close>

definition flag_value :: "string set \<Rightarrow> string set \<Rightarrow> use_dep \<Rightarrow> bool option" where
  "flag_value iuse enabled ud =
     (if ud_flag ud \<in> iuse then Some (ud_flag ud \<in> enabled)
      else map_option (\<lambda>d. d = DefaultEnabled) (ud_default ud))"

fun wants :: "use_dep_op \<Rightarrow> bool option \<Rightarrow> bool" where
  "wants _ None = False"
| "wants UseEnabled (Some b) = b"
| "wants UseDisabled (Some b) = (\<not> b)"
| "wants _ (Some b) = True"

lemma list_ex_guard:
  "xs \<noteq> [] \<and> list_ex P xs \<longleftrightarrow> (\<exists>x \<in> set xs. P x)"
  "xs \<noteq> [] \<and> filter Q xs \<noteq> [] \<and> list_ex P (filter Q xs) \<longleftrightarrow> (\<exists>x \<in> set xs. Q x \<and> P x)"
  unfolding list_ex_iff by (cases xs) (auto simp: filter_empty_conv)

lemma False_guard: "(if P then False else Q) \<longleftrightarrow> \<not> P \<and> Q"
  by simp

lemma satisfied_guards:
  "(if A then False
    else if re \<noteq> [] \<and> list_ex (\<lambda>f. f \<in> md) re then False
    else let need = filter (\<lambda>f. f \<notin> enabled) re
         in if re \<noteq> [] \<and> need \<noteq> [] \<and> list_ex (\<lambda>f. f \<notin> me) need then False
            else if rd \<noteq> [] \<and> list_ex (\<lambda>f. f \<in> me) rd then False
            else let need = filter (\<lambda>f. f \<in> enabled) rd
                 in \<not> (rd \<noteq> [] \<and> need \<noteq> [] \<and> list_ex (\<lambda>f. f \<notin> md) need)) \<longleftrightarrow>
   \<not> A \<and> (\<forall>f \<in> set re. f \<notin> md \<and> (f \<in> enabled \<or> f \<in> me)) \<and>
   (\<forall>f \<in> set rd. f \<notin> me \<and> (f \<notin> enabled \<or> f \<in> md))"
  unfolding Let_def list_ex_guard False_guard by auto

lemma use_deps_satisfied_conj:
  "use_deps_satisfied uds iuse enabled \<longleftrightarrow>
     (let missing = (\<lambda>d f. \<exists>ud \<in> set uds. ud_flag ud = f \<and> ud_default ud = Some d \<and> f \<notin> iuse)
      in \<forall>ud \<in> set uds.
           \<not> (ud_default ud = None \<and> ud_flag ud \<notin> iuse) \<and>
           (ud_op ud = UseEnabled \<longrightarrow> \<not> missing DefaultDisabled (ud_flag ud) \<and>
              (ud_flag ud \<in> enabled \<or> missing DefaultEnabled (ud_flag ud))) \<and>
           (ud_op ud = UseDisabled \<longrightarrow> \<not> missing DefaultEnabled (ud_flag ud) \<and>
              (ud_flag ud \<notin> enabled \<or> missing DefaultDisabled (ud_flag ud))))"
proof -
  have missing: "f \<in> set (map ud_flag (filter (\<lambda>ud. ud_default ud = Some d \<and>
      \<not> (ud_flag ud \<in> iuse \<or> list_ex (\<lambda>u. ud_flag ud \<in> u) [])) uds)) \<longleftrightarrow>
      (\<exists>ud \<in> set uds. ud_flag ud = f \<and> ud_default ud = Some d \<and> f \<notin> iuse)" for d f by auto
  have wanted: "(\<forall>f \<in> set (map ud_flag (filter (\<lambda>ud. ud_op ud = op) uds)). P f) \<longleftrightarrow>
      (\<forall>ud \<in> set uds. ud_op ud = op \<longrightarrow> P (ud_flag ud))" for op P by auto
  show ?thesis
    unfolding use_deps_satisfied_def use_deps_satisfied_union_def Let_def satisfied_guards [unfolded Let_def]
      missing wanted
    by (auto simp: list_ex_iff)
qed

lemma use_deps_satisfied_iff:
  assumes "consistent uds"
  shows "use_deps_satisfied uds iuse enabled \<longleftrightarrow>
    (\<forall>ud \<in> set uds. wants (ud_op ud) (flag_value iuse enabled ud))"
proof -
  have missing: "(\<exists>x \<in> set uds. ud_flag x = ud_flag ud \<and> ud_default x = Some d \<and> ud_flag ud \<notin> iuse) \<longleftrightarrow>
      ud_default ud = Some d \<and> ud_flag ud \<notin> iuse" if "ud \<in> set uds" for ud d
    using assms that unfolding consistent_def by metis
  have one: "wants (ud_op ud) (flag_value iuse enabled ud) \<longleftrightarrow>
      \<not> (ud_default ud = None \<and> ud_flag ud \<notin> iuse) \<and>
      (ud_op ud = UseEnabled \<longrightarrow> \<not> (ud_default ud = Some DefaultDisabled \<and> ud_flag ud \<notin> iuse) \<and>
         (ud_flag ud \<in> enabled \<or> ud_default ud = Some DefaultEnabled \<and> ud_flag ud \<notin> iuse)) \<and>
      (ud_op ud = UseDisabled \<longrightarrow> \<not> (ud_default ud = Some DefaultEnabled \<and> ud_flag ud \<notin> iuse) \<and>
         (ud_flag ud \<notin> enabled \<or> ud_default ud = Some DefaultDisabled \<and> ud_flag ud \<notin> iuse))" for ud
  proof (cases "ud_default ud")
    case None
    then show ?thesis by (cases "ud_op ud") (auto simp: flag_value_def)
  next
    case (Some d)
    then show ?thesis by (cases "ud_op ud"; cases d) (auto simp: flag_value_def)
  qed
  show ?thesis
    unfolding use_deps_satisfied_conj Let_def by (rule ball_cong [OF refl]) (simp only: missing one)
qed


lemma evaluated_consistent:
  "consistent uds \<Longrightarrow> consistent (evaluate_use_dep_conditionals uds parent)"
proof -
  have same: "ud_flag y = ud_flag x \<and> ud_default y = ud_default x" if "evaluate_use_dep p x = Some y" for p x y
    using that by (auto simp: evaluate_use_dep_def Let_def split: use_dep_op.splits if_splits)
  assume c: "consistent uds"
  have "ud_default v = ud_default w"
    if "evaluate_use_dep parent x = Some v" "evaluate_use_dep parent y = Some w" "x \<in> set uds" "y \<in> set uds"
      "ud_flag v = ud_flag w" for v w x y
    using that c same [OF that(1)] same [OF that(2)] unfolding consistent_def by metis
  then show ?thesis
    by (auto simp: consistent_def evaluate_use_dep_conditionals_def map_filter_def)
qed

text \<open>What a USE dependency asks of the child, given the flags of the parent.\<close>

definition asked :: "string set \<Rightarrow> use_dep \<Rightarrow> bool option" where
  "asked parent ud =
     (let on = (ud_flag ud \<in> parent)
      in case ud_op ud of
           UseEnabled \<Rightarrow> Some True
         | UseDisabled \<Rightarrow> Some False
         | IfParentEnabled \<Rightarrow> if on then Some True else None
         | IfParentDisabled \<Rightarrow> if on then None else Some False
         | EqualParent \<Rightarrow> Some on
         | OppositeParent \<Rightarrow> Some (\<not> on))"

lemma wants_evaluated:
  "(\<forall>e. evaluate_use_dep parent ud = Some e \<longrightarrow> wants (ud_op e) (flag_value iuse enabled e)) \<longleftrightarrow>
     (case asked parent ud of None \<Rightarrow> True | Some b \<Rightarrow> flag_value iuse enabled ud = Some b)"
proof -
  have w: "wants UseEnabled v \<longleftrightarrow> v = Some True" "wants UseDisabled v \<longleftrightarrow> v = Some False" for v
    by (cases v; simp)+
  have v: "flag_value iuse enabled (ud\<lparr> ud_op := op \<rparr>) = flag_value iuse enabled ud" for op
    by (simp add: flag_value_def)
  show ?thesis
    by (cases "ud_op ud") (auto simp: evaluate_use_dep_def asked_def Let_def w v)
qed

lemma use_deps_violated_iff:
  assumes "consistent uds"
  shows "use_deps_violated uds parent enabled iuse \<longleftrightarrow>
    (\<exists>ud \<in> set uds. \<exists>b. asked parent ud = Some b \<and> flag_value iuse enabled ud \<noteq> Some b)"
proof -
  have "use_deps_violated uds parent enabled iuse \<longleftrightarrow>
      \<not> (\<forall>ud \<in> set uds. \<forall>e. evaluate_use_dep parent ud = Some e \<longrightarrow> wants (ud_op e) (flag_value iuse enabled e))"
    unfolding use_deps_violated_def use_deps_satisfied_iff [OF evaluated_consistent [OF assms]]
    by (auto simp: evaluate_use_dep_conditionals_def map_filter_def) blast
  then show ?thesis unfolding wants_evaluated by (auto split: option.splits)
qed

lemma mismatch_flags_iff:
  assumes "\<forall>ud \<in> set uds. ud_flag ud \<in> enabled \<longrightarrow> ud_flag ud \<in> iuse"
  shows "use_mismatch_flags uds enabled iuse = ({}, {}) \<longleftrightarrow>
    (\<forall>ud \<in> set uds. wants (ud_op ud) (flag_value iuse enabled ud))"
proof -
  have *: "(ud_default ud = None \<longrightarrow> ud_flag ud \<in> iuse) \<and> \<not> use_hit enabled iuse ud \<longleftrightarrow>
      wants (ud_op ud) (flag_value iuse enabled ud)" if "ud \<in> set uds" for ud
  proof (cases "ud_default ud")
    case None
    then show ?thesis using assms that by (cases "ud_op ud") (auto simp: use_hit_def flag_value_def)
  next
    case (Some d)
    then show ?thesis using assms that by (cases "ud_op ud"; cases d) (auto simp: use_hit_def flag_value_def)
  qed
  have "use_mismatch_flags uds enabled iuse = ({}, {}) \<longleftrightarrow>
      (\<forall>ud \<in> set uds. (ud_default ud = None \<longrightarrow> ud_flag ud \<in> iuse) \<and> \<not> use_hit enabled iuse ud)"
    by (auto simp: use_mismatch_flags_def Let_def filter_empty_conv)
  also have "\<dots> \<longleftrightarrow> (\<forall>ud \<in> set uds. wants (ud_op ud) (flag_value iuse enabled ud))"
    by (rule ball_cong [OF refl]) (rule *)
  finally show ?thesis .
qed

lemma parse_use_deps_consistent: "parse_use_deps raw = Ok uds \<Longrightarrow> consistent uds"
  using parse_use_tokens_consistent
  by (auto simp: parse_use_deps_def split: option.splits if_splits)

text \<open>
  C14: The USE dependencies of a parsed bracket are violated by a child exactly when one of them, read
  with the flags of the parent, asks for a value that the flag does not have in the child; a flag
  that the child does not declare has the value of its default, and no value without one. For a
  child that enables only declared flags, the flags reported as mismatched are none exactly when the
  dependencies are satisfied.
\<close>

theorem use_deps_meaning:
  assumes "parse_use_deps raw = Ok uds" "enabled \<subseteq> iuse"
  shows "(use_deps_violated uds parent enabled iuse \<longleftrightarrow>
      (\<exists>ud \<in> set uds. \<exists>b. asked parent ud = Some b \<and> flag_value iuse enabled ud \<noteq> Some b)) \<and>
    (use_mismatch_flags uds enabled iuse = ({}, {}) \<longleftrightarrow> use_deps_satisfied uds iuse enabled)"
proof -
  note c = parse_use_deps_consistent [OF assms(1)]
  have "\<forall>ud \<in> set uds. ud_flag ud \<in> enabled \<longrightarrow> ud_flag ud \<in> iuse" using assms(2) by blast
  then show ?thesis
    by (simp only: use_deps_violated_iff [OF c] mismatch_flags_iff use_deps_satisfied_iff [OF c] simp_thms)
qed

theorem use_deps_meaning_witness:
  "\<exists>uds. parse_use_deps ''[a(+)?,-b]'' = Ok uds \<and> use_deps_violated uds {''a''} {} {''a'', ''b''}"
proof -
  let ?uds = "[\<lparr> ud_flag = ''a'', ud_op = IfParentEnabled, ud_default = Some DefaultEnabled \<rparr>,
    \<lparr> ud_flag = ''b'', ud_op = UseDisabled, ud_default = None \<rparr>]"
  have p: "parse_use_deps ''[a(+)?,-b]'' = Ok ?uds" by code_simp
  have "use_deps_violated ?uds {''a''} {} {''a'', ''b''}"
    by (subst conjunct1 [OF use_deps_meaning [OF p]]) (simp_all add: asked_def flag_value_def ex_bool_eq)
  then show ?thesis using p by blast
qed


section \<open>Conditionals of an atom string\<close>

lemma atom_regex_head:
  assumes "rx_lang atom_regex s"
  shows "s \<noteq> [] \<and> hd s \<noteq> CHR ''!''"
proof -
  obtain h t where s: "s = h @ t" "rx_lang (Alt rx_versioned rx_bare) h"
    using assms by (auto simp: atom_regex_def)
  have "(\<exists>op r. is_operator op \<and> h = op @ r) \<or> (\<exists>c r. alnum_or ''_'' c \<and> h = c # r)"
    using s(2) unfolding rx_lang_simps(4)
  proof
    assume "rx_lang rx_versioned h"
    then obtain op r where "rx_lang (alts [Lit ''='', Lit ''>='', Lit ''>'', Lit ''<='', Lit ''<'', Lit ''~'']) op"
        "h = op @ r"
      unfolding rx_versioned_def seqs.simps rx_lang_simps(3,5) by blast
    then show ?thesis by (auto simp: is_operator_def)
  next
    assume "rx_lang rx_bare h"
    then obtain u r where "rx_lang CAT u" "h = u @ r"
      unfolding rx_bare_def seqs.simps rx_lang_simps(3,5) by blast
    then show ?thesis by (auto simp: CAT_def)
  qed
  then consider op r where "is_operator op" "h = op @ r" | c r where "alnum_or ''_'' c" "h = c # r"
    by blast
  then show ?thesis
  proof cases
    case 1
    then show ?thesis using s(1) by (auto simp: is_operator_def)
  next
    case 2
    have "\<not> alnum_or ''_'' CHR ''!''" by code_simp
    then show ?thesis using 2 s(1) by auto
  qed
qed

lemma evaluate_use_dep_op: "evaluate_use_dep parent x = Some y \<Longrightarrow> ud_op y = UseEnabled \<or> ud_op y = UseDisabled"
  by (cases "ud_op x") (auto simp: evaluate_use_dep_def Let_def split: if_splits)

lemma evaluated_forms:
  assumes "ud \<in> set (evaluate_use_dep_conditionals uds parent)"
  shows "render_use_dep ud = use_dep_text ud"
proof -
  have "ud_op ud = UseEnabled \<or> ud_op ud = UseDisabled"
    using assms by (auto simp: evaluate_use_dep_conditionals_def map_filter_def dest: evaluate_use_dep_op)
  then show ?thesis by (auto simp: render_use_dep_def use_dep_text_def)
qed

lemma parse_atom_Some: "parse_atom s = Return (Some a) \<longleftrightarrow> parse_atom_with s default_options [] = Ok a"
  by (auto simp: parse_atom_def out_ok_def split: outcome.splits)

definition with_use :: "atom \<Rightarrow> use_dep list \<Rightarrow> atom" where
  "with_use a uds = a\<lparr> a_use_deps := (if uds = [] then None else Some uds) \<rparr>"

lemma with_use_text:
  "source_text (with_use a uds) =
     blocker_text (a_blocker a) @ source_operator a @ name_text a
     @ (if uds = [] then [] else ''['' @ join '','' (map use_dep_text uds) @ '']'')"
  by (simp add: source_text_def with_use_def source_operator_def name_text_def use_text_def
      version_text_def slot_text_def cong: option.case_cong)

lemma evaluate_atom_conditional:
  assumes p: "parse_atom s = Return (Some a)" and u: "a_use_deps a = Some uds" "has_conditional uds"
  shows "evaluate_atom_conditionals s parent =
    (if a_blocker a = BlockNone
     then Return (Some (source_text (with_use a (evaluate_use_dep_conditionals uds parent))))
     else Return None)"
proof -
  have ne: "uds \<noteq> []" using u(2) by (auto simp: has_conditional_def)
  have "parse_atom_with s default_options [] = Ok a" using p by (simp add: parse_atom_Some)
  from parse_atom_parts [OF this] obtain rest caps up where
    s: "s = blocker_text (a_blocker a) @ rest" and
    g: "pick_grammar s (ao_allow_wildcard default_options) rest = Ok (caps, a_extended a)" and
    rest: "rest = source_operator a @ name_text a @ opt_text up" "map_of caps ''usedeps'' = up"
      "up \<noteq> None" using u(1) by auto
  have caps: "rx_captures atom_regex rest = Some caps"
    using g by (auto simp: pick_grammar_def default_options_def split: option.splits)
  show ?thesis
  proof (cases "a_blocker a = BlockNone")
    case True
    obtain raw where raw: "up = Some raw" using rest(3) by blast
    have "s = rest" using s True by simp
    moreover have "map render_use_dep (evaluate_use_dep_conditionals uds parent) =
        map use_dep_text (evaluate_use_dep_conditionals uds parent)"
      using evaluated_forms by simp
    ultimately show ?thesis
      using p u ne caps rest True
      by (simp add: evaluate_atom_conditionals_def raw with_use_text del: map_eq_conv)
  next
    case False
    have "\<exists>t. s = CHR ''!'' # t" using s False by (cases "a_blocker a") auto
    then have "\<not> rx_lang atom_regex s" using atom_regex_head by fastforce
    then have "rx_captures atom_regex s = None" using rx_captures_iff by blast
    then show ?thesis using p u ne False by (simp add: evaluate_atom_conditionals_def)
  qed
qed

text \<open>
  C31: Evaluating the conditional USE dependencies in the string of an atom. For an atom that is not a
  blocker the result is the string of the atom with the evaluated dependencies, and the string
  itself when nothing is conditional. For a blocker with a conditional dependency the result is
  \<open>None\<close>, although the string parses.
\<close>

theorem evaluate_atom_text:
  assumes "parse_atom s = Return (Some a)"
  shows "evaluate_atom_conditionals s parent =
    (case a_use_deps a of
       None \<Rightarrow> Return (Some s)
     | Some uds \<Rightarrow>
         if \<not> has_conditional uds then Return (Some s)
         else if a_blocker a = BlockNone
         then Return (Some (source_text (with_use a (evaluate_use_dep_conditionals uds parent))))
         else Return None)"
proof (cases "\<exists>uds. a_use_deps a = Some uds \<and> has_conditional uds")
  case True
  then show ?thesis using evaluate_atom_conditional [OF assms] by auto
next
  case False
  then show ?thesis using assms by (auto simp: evaluate_atom_conditionals_def split: option.splits)
qed

theorem evaluate_atom_text_witness:
  "evaluate_atom_conditionals ''=a/b-1*[c?,-d]'' {''c''} = Return (Some ''=a/b-1*[c,-d]'') \<and>
   (\<exists>a. parse_atom ''!a/b[c?]'' = Return (Some a) \<and> evaluate_atom_conditionals ''!a/b[c?]'' {''c''} = Return None)"
proof -
  let ?ud = "\<lambda>f op. \<lparr> ud_flag = f, ud_op = op, ud_default = None \<rparr>"
  let ?a = "\<lparr> a_blocker = BlockNone, a_operator = OpEqGlob, a_category = ''a'', a_package = ''b'',
      a_version = Some ''1'', a_revision = None, a_slot = None, a_sub_slot = None, a_slot_operator = None,
      a_use_deps = Some [?ud ''c'' IfParentEnabled, ?ud ''d'' UseDisabled],
      a_repo = None, a_build_id = None, a_extended = False \<rparr>"
  let ?b = "\<lparr> a_blocker = BlockWeak, a_operator = OpNone, a_category = ''a'', a_package = ''b'',
      a_version = None, a_revision = None, a_slot = None, a_sub_slot = None, a_slot_operator = None,
      a_use_deps = Some [?ud ''c'' IfParentEnabled], a_repo = None, a_build_id = None,
      a_extended = False \<rparr>"
  have 1: "parse_atom ''=a/b-1*[c?,-d]'' = Return (Some ?a)" by code_simp
  have 2: "parse_atom ''!a/b[c?]'' = Return (Some ?b)" by code_simp
  show ?thesis
    using evaluate_atom_text [OF 1, of "{''c''}"] evaluate_atom_text [OF 2, of "{''c''}"] 2
    by (simp add: has_conditional_def evaluate_use_dep_conditionals_def evaluate_use_dep_def map_filter_def
        source_text_def with_use_def source_operator_def name_text_def use_text_def use_dep_text_def
        version_text_def slot_text_def)
qed

text \<open>
  C34: the parsers of atoms and of candidates, the evaluation of the conditionals of an atom and its
  specificity do not panic, on any string, in any parse mode and with any options. (Matching can: see
  \<open>match_list_wanted\<close>.)
\<close>

theorem atoms_never_panic:
  "parse_atom_with s opts eapi_str \<noteq> Panicked \<and> parse_atom s \<noteq> Panic \<and> parse_match_atom s \<noteq> Panic \<and>
   parse_candidate s \<noteq> Panic \<and> evaluate_atom_conditionals s parent \<noteq> Panic \<and> atom_specificity s \<noteq> Panic"
proof (intro conjI)
  show "parse_candidate s \<noteq> Panic" using parse_candidate_cases [of s] by auto
  show "parse_match_atom s \<noteq> Panic" using parse_match_atom_total [of s] by auto
  show p: "parse_atom s \<noteq> Panic" using out_ok_total by (auto simp: parse_atom_def)
  show "evaluate_atom_conditionals s parent \<noteq> Panic"
  proof (cases "parse_atom s")
    case (Return ao)
    then show ?thesis
      by (auto simp: evaluate_atom_conditionals_def Let_def split: option.splits if_splits)
  qed (use p in simp)
  show "atom_specificity s \<noteq> Panic"
    using out_ok_total by (auto simp: atom_specificity_def run_bind_Panic)
qed (rule parse_with_total)

end
