(* ===== verification/AtomMemo.thy ===== *)
theory AtomMemo
  imports AtomMatch
begin

text \<open>
  The memo tables of \<open>portage-dep/src/lib.rs\<close>: \<open>ATOM_CACHE\<close>, \<open>ATOM_OPTS_CACHE\<close>, \<open>CANDIDATE_CACHE\<close> and
  \<open>MATCH_CACHE\<close> as one state, the cached entry points as functions on it, and the proof that a thread
  sees the same results with the tables as without them. The options table has no key for the EAPI
  text of the messages; that is harmless as long as the text spells the mode of the options.
\<close>

section \<open>The cached entry points\<close>

record caches =
  mc_atom :: "string \<Rightarrow> atom option option"
  mc_opts :: "atom_options \<Rightarrow> (string \<Rightarrow> atom atom_out option) option"
  mc_candidate :: "string \<Rightarrow> candidate option option"
  mc_match :: "string \<times> string \<times> string option \<Rightarrow> bool option option"

definition empty_caches :: caches where
  "empty_caches = \<lparr> mc_atom = Map.empty, mc_opts = Map.empty, mc_candidate = Map.empty, mc_match = Map.empty \<rparr>"

definition parse_atom_cached :: "string \<Rightarrow> caches \<Rightarrow> atom option run \<times> caches" where
  "parse_atom_cached s st =
     (case mc_atom st s of
        Some hit \<Rightarrow> (Return hit, st)
      | None \<Rightarrow>
          (case parse_atom s of
             Panic \<Rightarrow> (Panic, st)
           | Return parsed \<Rightarrow> (Return parsed, st\<lparr> mc_atom := (mc_atom st)(s \<mapsto> parsed) \<rparr>)))"

definition opts_get :: "caches \<Rightarrow> atom_options \<Rightarrow> string \<Rightarrow> atom atom_out option" where
  "opts_get st opts s = (case mc_opts st opts of None \<Rightarrow> None | Some by_string \<Rightarrow> by_string s)"

definition opts_put :: "atom_options \<Rightarrow> string \<Rightarrow> atom atom_out \<Rightarrow> caches \<Rightarrow> caches" where
  "opts_put opts s r st =
     (let by_string = (case mc_opts st opts of None \<Rightarrow> Map.empty | Some m \<Rightarrow> m)
      in st\<lparr> mc_opts := (mc_opts st)(opts \<mapsto> by_string(s \<mapsto> r)) \<rparr>)"

definition parse_atom_with_cached ::
  "string \<Rightarrow> atom_options \<Rightarrow> string \<Rightarrow> caches \<Rightarrow> atom atom_out \<times> caches" where
  "parse_atom_with_cached s opts eapi_str st =
     (case opts_get st opts s of
        Some hit \<Rightarrow> (hit, st)
      | None \<Rightarrow>
          (case parse_atom_with s opts eapi_str of
             Panicked \<Rightarrow> (Panicked, st)
           | parsed \<Rightarrow> (parsed, opts_put opts s parsed st)))"

definition parse_candidate_cached :: "string \<Rightarrow> caches \<Rightarrow> candidate option run \<times> caches" where
  "parse_candidate_cached s st =
     (case mc_candidate st s of
        Some hit \<Rightarrow> (Return hit, st)
      | None \<Rightarrow>
          (case parse_candidate s of
             Panic \<Rightarrow> (Panic, st)
           | Return parsed \<Rightarrow> (Return parsed, st\<lparr> mc_candidate := (mc_candidate st)(s \<mapsto> parsed) \<rparr>)))"

definition parse_match_atom_cached :: "string \<Rightarrow> caches \<Rightarrow> atom option run \<times> caches" where
  "parse_match_atom_cached atom_str st =
     (let (r, st) = parse_atom_with_cached (dropWhile (\<lambda>c. c = CHR ''!'') atom_str) match_options [] st
      in (out_ok r, st))"

definition matches_candidate_cached ::
  "atom \<Rightarrow> string \<Rightarrow> string option \<Rightarrow> caches \<Rightarrow> bool run \<times> caches" where
  "matches_candidate_cached a candidate_str build_id st =
     (case parse_candidate_cached candidate_str st of
        (Panic, st) \<Rightarrow> (Panic, st)
      | (Return None, st) \<Rightarrow> (Return False, st)
      | (Return (Some c), st) \<Rightarrow>
          (candidate_hits a (case build_id of Some bid \<Rightarrow> c\<lparr> c_build_id := Some bid \<rparr> | None \<Rightarrow> c), st))"

definition match_pair_cached ::
  "string \<Rightarrow> string \<Rightarrow> string option \<Rightarrow> caches \<Rightarrow> bool option run \<times> caches" where
  "match_pair_cached atom_str candidate build_id st =
     (case mc_match st (atom_str, candidate, build_id) of
        Some hit \<Rightarrow> (Return hit, st)
      | None \<Rightarrow>
          (case parse_match_atom_cached atom_str st of
             (Panic, st) \<Rightarrow> (Panic, st)
           | (Return None, st) \<Rightarrow>
               (Return None, st\<lparr> mc_match := (mc_match st)((atom_str, candidate, build_id) \<mapsto> None) \<rparr>)
           | (Return (Some a), st) \<Rightarrow>
               (case matches_candidate_cached a candidate build_id st of
                  (Panic, st) \<Rightarrow> (Panic, st)
                | (Return b, st) \<Rightarrow>
                    (Return (Some b),
                     st\<lparr> mc_match := (mc_match st)((atom_str, candidate, build_id) \<mapsto> Some b) \<rparr>))))"

fun match_loop_cached ::
  "string \<Rightarrow> (string \<times> string option) list \<Rightarrow> caches \<Rightarrow> string list option run \<times> caches" where
  "match_loop_cached atom_str [] st = (Return (Some []), st)"
| "match_loop_cached atom_str ((c, bid) # cs) st =
     (case match_pair_cached atom_str c bid st of
        (Panic, st) \<Rightarrow> (Panic, st)
      | (Return None, st) \<Rightarrow> (Return None, st)
      | (Return (Some b), st) \<Rightarrow>
          (case match_loop_cached atom_str cs st of
             (Panic, st) \<Rightarrow> (Panic, st)
           | (Return r, st) \<Rightarrow> (Return (map_option (\<lambda>out. if b then c # out else out) r), st)))"

definition match_list_cached ::
  "string \<Rightarrow> (string \<times> string option) list \<Rightarrow> caches \<Rightarrow> string list option run \<times> caches" where
  "match_list_cached atom_str candidates st =
     (if candidates = []
      then (case parse_match_atom_cached atom_str st of
              (Panic, st) \<Rightarrow> (Panic, st)
            | (Return ao, st) \<Rightarrow> (Return (map_option (\<lambda>_. []) ao), st))
      else match_loop_cached atom_str candidates st)"

section \<open>A memo table\<close>

text \<open>
  The laws of a table in a state: what is found is the value of the function at the key, and storing
  that value keeps the invariant of the state.
\<close>

definition memo_call ::
  "('s \<Rightarrow> 'k \<Rightarrow> 'v option) \<Rightarrow> ('k \<Rightarrow> 'v \<Rightarrow> 's \<Rightarrow> 's) \<Rightarrow> ('k \<Rightarrow> 's \<Rightarrow> 'v \<times> 's) \<Rightarrow> 'k \<Rightarrow> 's \<Rightarrow> 'v \<times> 's" where
  "memo_call get put compute k st =
     (case get st k of
        Some v \<Rightarrow> (v, st)
      | None \<Rightarrow> (let (v, st) = compute k st in (v, put k v st)))"

locale memo_table =
  fixes get :: "'s \<Rightarrow> 'k \<Rightarrow> 'v option" and put :: "'k \<Rightarrow> 'v \<Rightarrow> 's \<Rightarrow> 's"
    and spec :: "'k \<Rightarrow> 'v" and ok :: "'s \<Rightarrow> bool"
  assumes hit: "ok st \<Longrightarrow> get st k = Some v \<Longrightarrow> v = spec k"
    and store: "ok st \<Longrightarrow> ok (put k (spec k) st)"
begin

lemma call_spec:
  assumes "ok st" "\<And>st. ok st \<Longrightarrow> fst (compute k st) = spec k \<and> ok (snd (compute k st))"
  shows "fst (memo_call get put compute k st) = spec k \<and> ok (snd (memo_call get put compute k st))"
proof (cases "get st k")
  case None
  have "fst (compute k st) = spec k" "ok (snd (compute k st))" using assms(2) [OF assms(1)] by auto
  then show ?thesis using None store by (auto simp: memo_call_def split: prod.split)
next
  case (Some v)
  then show ?thesis using hit [OF assms(1) Some] assms(1) by (simp add: memo_call_def)
qed

end

section \<open>The invariant\<close>

text \<open>The text that a mode stands for; the messages depend on it only for a known EAPI.\<close>

definition mode_text :: "atom_options \<Rightarrow> string \<Rightarrow> bool" where
  "mode_text opts e \<longleftrightarrow>
     (case ao_eapi opts of EKnown n \<Rightarrow> atom_eapi_parse (Some e) = Inr (EKnown n) | _ \<Rightarrow> True)"

definition canonical_text :: "atom_options \<Rightarrow> string" where
  "canonical_text opts = (case ao_eapi opts of EKnown n \<Rightarrow> SUPPORTED_EAPIS ! n | _ \<Rightarrow> [])"

definition plain_atom :: "string \<Rightarrow> atom option" where
  "plain_atom s = (case parse_atom s of Return ao \<Rightarrow> ao | Panic \<Rightarrow> None)"

definition plain_candidate :: "string \<Rightarrow> candidate option" where
  "plain_candidate s = (case parse_candidate s of Return co \<Rightarrow> co | Panic \<Rightarrow> None)"

definition plain_pair :: "string \<times> string \<times> string option \<Rightarrow> bool option run" where
  "plain_pair k = (case k of (a, c, bid) \<Rightarrow> match_pair a c bid)"

definition plain_with :: "atom_options \<times> string \<Rightarrow> atom atom_out" where
  "plain_with k = (case k of (opts, s) \<Rightarrow> parse_atom_with s opts (canonical_text opts))"

definition caches_ok :: "caches \<Rightarrow> bool" where
  "caches_ok st \<longleftrightarrow>
     (\<forall>s v. mc_atom st s = Some v \<longrightarrow> v = plain_atom s) \<and>
     (\<forall>opts s v. opts_get st opts s = Some v \<longrightarrow> v = plain_with (opts, s)) \<and>
     (\<forall>s v. mc_candidate st s = Some v \<longrightarrow> v = plain_candidate s) \<and>
     (\<forall>k v. mc_match st k = Some v \<longrightarrow> Return v = plain_pair k)"

interpretation atom_memo: memo_table mc_atom "\<lambda>s v st. st\<lparr> mc_atom := (mc_atom st)(s \<mapsto> v) \<rparr>"
  plain_atom caches_ok
  by unfold_locales (auto simp: caches_ok_def opts_get_def)

interpretation candidate_memo: memo_table mc_candidate
  "\<lambda>s v st. st\<lparr> mc_candidate := (mc_candidate st)(s \<mapsto> v) \<rparr>" plain_candidate caches_ok
  by unfold_locales (auto simp: caches_ok_def opts_get_def)

text \<open>A verdict that panics is not stored.\<close>

definition match_get :: "caches \<Rightarrow> string \<times> string \<times> string option \<Rightarrow> bool option run option" where
  "match_get st k = map_option Return (mc_match st k)"

definition match_put :: "string \<times> string \<times> string option \<Rightarrow> bool option run \<Rightarrow> caches \<Rightarrow> caches" where
  "match_put k r st = (case r of Panic \<Rightarrow> st | Return v \<Rightarrow> st\<lparr> mc_match := (mc_match st)(k \<mapsto> v) \<rparr>)"

interpretation match_memo: memo_table match_get match_put plain_pair caches_ok
proof
  show "v = plain_pair k" if "caches_ok st" "match_get st k = Some v" for st k v
    using that by (cases k) (auto simp: caches_ok_def match_get_def)
  show "caches_ok (match_put k (plain_pair k) st)" if "caches_ok st" for st k
    using that by (cases k; cases "plain_pair k") (auto simp: caches_ok_def match_put_def opts_get_def)
qed

interpretation opts_memo: memo_table "\<lambda>st (opts, s). opts_get st opts s" "\<lambda>(opts, s) v st. opts_put opts s v st"
  plain_with caches_ok
  by unfold_locales (auto simp: caches_ok_def opts_get_def opts_put_def Let_def split: option.splits if_splits)


section \<open>The text of a mode does not matter\<close>

lemma no_feature_error:
  assumes "ea_slot_deps attrs" "ea_use_deps attrs" "ea_use_dep_defaults attrs" "ea_strong_blocks attrs"
  shows "check_atom_eapi_features e slot attrs es s uds b = Ok ()"
  using assms by (auto simp: check_atom_eapi_features_def split: option.splits)

lemma parse_with_text_irrelevant:
  assumes "\<And>attrs slot uds b. mode_attrs (ao_eapi opts) = Ok attrs \<Longrightarrow>
     check_atom_eapi_features (ao_eapi opts) slot attrs e s uds b =
     check_atom_eapi_features (ao_eapi opts) slot attrs e' s uds b"
  shows "parse_atom_with s opts e = parse_atom_with s opts e'"
proof -
  obtain attrs where a: "mode_attrs (ao_eapi opts) = Ok attrs" using mode_attrs_Ok by blast
  show ?thesis
    unfolding parse_atom_with_def a lift_panic_def outcome.case out_bind.simps Let_def assms [OF a] ..
qed

lemma parse_with_canonical:
  assumes "mode_text opts e"
  shows "parse_atom_with s opts e = plain_with (opts, s)"
  unfolding plain_with_def prod.case
proof (rule parse_with_text_irrelevant)
  fix attrs slot uds b
  assume attrs: "mode_attrs (ao_eapi opts) = Ok attrs"
  show "check_atom_eapi_features (ao_eapi opts) slot attrs e s uds b =
      check_atom_eapi_features (ao_eapi opts) slot attrs (canonical_text opts) s uds b"
  proof (cases "ao_eapi opts")
    case ENone
    then show ?thesis by (simp add: check_atom_eapi_features_def)
  next
    case EUnsupported
    then have "attrs = permissive_attrs" using attrs by (simp add: mode_attrs_def eapi_attrs_of_def)
    then show ?thesis by (simp add: no_feature_error permissive_attrs_def)
  next
    case (EKnown n)
    then have k: "n < length SUPPORTED_EAPIS" "e = SUPPORTED_EAPIS ! n \<or> n = 9"
      using assms known_spelling [of e n] by (auto simp: mode_text_def spells_def)
    then consider "e = canonical_text opts" | "n = 9" by (auto simp: canonical_text_def EKnown)
    then show ?thesis
    proof cases
      case 2
      then have "attrs = attrs_of 9" using attrs attrs_of_key [OF k(1)] EKnown by simp
      then show ?thesis by (simp add: no_feature_error attrs_of_def)
    qed simp
  qed
qed

section \<open>Cached calls\<close>

lemma parse_atom_plain: "parse_atom s = Return (plain_atom s)"
  using out_ok_total by (auto simp: plain_atom_def parse_atom_def split: run.splits)

lemma parse_candidate_plain: "parse_candidate s = Return (plain_candidate s)"
  using parse_candidate_cases [of s] by (auto simp: plain_candidate_def)

lemma plain_with_total: "plain_with k \<noteq> Panicked"
  using parse_with_total by (cases k) (simp add: plain_with_def)

lemma parse_atom_cached_ok:
  assumes "caches_ok st"
  shows "fst (parse_atom_cached s st) = parse_atom s \<and> caches_ok (snd (parse_atom_cached s st))"
proof -
  have "parse_atom_cached s st = (let (v, st) = memo_call mc_atom
      (\<lambda>s v st. st\<lparr> mc_atom := (mc_atom st)(s \<mapsto> v) \<rparr>) (\<lambda>s st. (plain_atom s, st)) s st in (Return v, st))"
    by (simp add: parse_atom_cached_def memo_call_def parse_atom_plain split: option.split)
  then show ?thesis
    using atom_memo.call_spec [OF assms, of "\<lambda>s st. (plain_atom s, st)" s] by (auto simp: parse_atom_plain split: prod.split)
qed

lemma parse_candidate_cached_ok:
  assumes "caches_ok st"
  shows "fst (parse_candidate_cached s st) = parse_candidate s \<and> caches_ok (snd (parse_candidate_cached s st))"
proof -
  have "parse_candidate_cached s st = (let (v, st) = memo_call mc_candidate
      (\<lambda>s v st. st\<lparr> mc_candidate := (mc_candidate st)(s \<mapsto> v) \<rparr>) (\<lambda>s st. (plain_candidate s, st)) s st
      in (Return v, st))"
    by (simp add: parse_candidate_cached_def memo_call_def parse_candidate_plain split: option.split)
  then show ?thesis
    using candidate_memo.call_spec [OF assms, of "\<lambda>s st. (plain_candidate s, st)" s]
    by (auto simp: parse_candidate_plain split: prod.split)
qed

lemma parse_atom_with_cached_ok:
  assumes "caches_ok st" "mode_text opts e"
  shows "fst (parse_atom_with_cached s opts e st) = parse_atom_with s opts e \<and>
    caches_ok (snd (parse_atom_with_cached s opts e st))"
proof -
  have "parse_atom_with_cached s opts e st = memo_call (\<lambda>st (opts, s). opts_get st opts s)
      (\<lambda>(opts, s) v st. opts_put opts s v st) (\<lambda>k st. (plain_with k, st)) (opts, s) st"
    using plain_with_total [of "(opts, s)"] parse_with_canonical [OF assms(2), of s]
    by (simp add: parse_atom_with_cached_def memo_call_def split: option.split outcome.split)
  then show ?thesis
    using opts_memo.call_spec [OF assms(1), of "\<lambda>k st. (plain_with k, st)"] parse_with_canonical [OF assms(2)]
    by simp
qed

lemma parse_match_atom_cached_ok:
  assumes "caches_ok st"
  shows "fst (parse_match_atom_cached s st) = parse_match_atom s \<and>
    caches_ok (snd (parse_match_atom_cached s st))"
proof -
  have "mode_text match_options []" by (simp add: mode_text_def match_options_def default_options_def)
  from parse_atom_with_cached_ok [OF assms this, of "dropWhile (\<lambda>c. c = CHR ''!'') s"] show ?thesis
    by (auto simp: parse_match_atom_cached_def parse_match_atom_def split: prod.split)
qed

lemma matches_candidate_cached_ok:
  assumes "caches_ok st"
  shows "fst (matches_candidate_cached a s bid st) = match_atom_matches_candidate a s bid \<and>
    caches_ok (snd (matches_candidate_cached a s bid st))"
proof -
  obtain st' where c: "parse_candidate_cached s st = (Return (plain_candidate s), st')" "caches_ok st'"
    using parse_candidate_cached_ok [OF assms, of s] by (metis parse_candidate_plain prod.collapse)
  show ?thesis
    using c(2)
    by (cases "plain_candidate s")
      (simp_all add: matches_candidate_cached_def match_atom_matches_candidate_def c(1) parse_candidate_plain)
qed


lemma plain_pair_eq: "match_pair a c bid = plain_pair (a, c, bid)"
  by (simp add: plain_pair_def)

text \<open>The computation behind the match table.\<close>

definition pair_compute :: "string \<times> string \<times> string option \<Rightarrow> caches \<Rightarrow> bool option run \<times> caches" where
  "pair_compute k st =
     (case k of (atom_str, candidate, build_id) \<Rightarrow>
        (case parse_match_atom_cached atom_str st of
           (Return (Some a), st) \<Rightarrow>
             (case matches_candidate_cached a candidate build_id st of
                (Return b, st) \<Rightarrow> (Return (Some b), st)
              | (Panic, st) \<Rightarrow> (Panic, st))
         | (Return None, st) \<Rightarrow> (Return None, st)
         | (Panic, st) \<Rightarrow> (Panic, st)))"

lemma pair_compute_ok:
  assumes "caches_ok st"
  shows "fst (pair_compute k st) = plain_pair k \<and> caches_ok (snd (pair_compute k st))"
proof -
  obtain a c bid where k: "k = (a, c, bid)" by (cases k)
  obtain ao where ao: "parse_match_atom a = Return ao" using parse_match_atom_total by blast
  obtain st' where 1: "parse_match_atom_cached a st = (Return ao, st')" "caches_ok st'"
    using parse_match_atom_cached_ok [OF assms, of a] ao by (metis prod.collapse)
  show ?thesis
  proof (cases ao)
    case None
    then show ?thesis using 1 ao by (simp add: pair_compute_def plain_pair_def k match_pair_def)
  next
    case (Some x)
    obtain r st'' where "matches_candidate_cached x c bid st' = (r, st'')"
      "r = match_atom_matches_candidate x c bid" "caches_ok st''"
      using matches_candidate_cached_ok [OF 1(2), of x c bid] by (metis prod.collapse)
    then show ?thesis
      using 1 Some ao by (cases "match_atom_matches_candidate x c bid") (simp_all add: pair_compute_def plain_pair_def k match_pair_def)
  qed
qed

lemma match_pair_cached_ok:
  assumes "caches_ok st"
  shows "fst (match_pair_cached a c bid st) = match_pair a c bid \<and> caches_ok (snd (match_pair_cached a c bid st))"
proof -
  have "match_pair_cached a c bid st = memo_call match_get match_put pair_compute (a, c, bid) st"
    by (auto simp: match_pair_cached_def memo_call_def pair_compute_def match_get_def match_put_def
        split: option.split prod.split run.split)
  then show ?thesis
    using match_memo.call_spec [OF assms, of pair_compute "(a, c, bid)"] pair_compute_ok
    by (simp add: plain_pair_eq)
qed

lemma match_loop_cached_ok:
  "caches_ok st \<Longrightarrow> fst (match_loop_cached s cs st) = match_loop s cs \<and> caches_ok (snd (match_loop_cached s cs st))"
proof (induction cs arbitrary: st)
  case (Cons x cs)
  obtain c bid where x: "x = (c, bid)" by (cases x)
  obtain st' where 1: "match_pair_cached s c bid st = (match_pair s c bid, st')" "caches_ok st'"
    using match_pair_cached_ok [OF Cons.prems, of s c bid] by (metis prod.collapse)
  obtain st'' where 2: "match_loop_cached s cs st' = (match_loop s cs, st'')" "caches_ok st''"
    using Cons.IH [OF 1(2)] by (metis prod.collapse)
  show ?case
    using 1 2 by (cases "match_pair s c bid"; cases "match_loop s cs") (auto simp: x split: option.split)
qed simp

lemma match_list_cached_ok:
  assumes "caches_ok st"
  shows "fst (match_list_cached s cs st) = match_from_list_with_build_id s cs \<and>
    caches_ok (snd (match_list_cached s cs st))"
proof (cases "cs = []")
  case True
  obtain ao where ao: "parse_match_atom s = Return ao" using parse_match_atom_total by blast
  obtain st' where "parse_match_atom_cached s st = (Return ao, st')" "caches_ok st'"
    using parse_match_atom_cached_ok [OF assms, of s] ao by (metis prod.collapse)
  then show ?thesis using ao True by (simp add: match_list_cached_def match_from_list_with_build_id_def)
next
  case False
  then show ?thesis
    using match_loop_cached_ok [OF assms] by (simp add: match_list_cached_def match_from_list_with_build_id_def)
qed

section \<open>A thread's calls\<close>

datatype call =
    CallAtom string
  | CallWith string atom_options string
  | CallCandidate string
  | CallMatch string "(string \<times> string option) list"

datatype answer =
    AnsAtom "atom option run"
  | AnsWith "atom atom_out"
  | AnsCandidate "candidate option run"
  | AnsMatch "string list option run"

fun answer_cached :: "call \<Rightarrow> caches \<Rightarrow> answer \<times> caches" where
  "answer_cached (CallAtom s) st = map_prod AnsAtom id (parse_atom_cached s st)"
| "answer_cached (CallWith s opts e) st = map_prod AnsWith id (parse_atom_with_cached s opts e st)"
| "answer_cached (CallCandidate s) st = map_prod AnsCandidate id (parse_candidate_cached s st)"
| "answer_cached (CallMatch s cs) st = map_prod AnsMatch id (match_list_cached s cs st)"

fun plain_answer :: "call \<Rightarrow> answer" where
  "plain_answer (CallAtom s) = AnsAtom (parse_atom s)"
| "plain_answer (CallWith s opts e) = AnsWith (parse_atom_with s opts e)"
| "plain_answer (CallCandidate s) = AnsCandidate (parse_candidate s)"
| "plain_answer (CallMatch s cs) = AnsMatch (match_from_list_with_build_id s cs)"

fun answers_cached :: "call list \<Rightarrow> caches \<Rightarrow> answer list" where
  "answers_cached [] st = []"
| "answers_cached (c # cs) st = (let (a, st) = answer_cached c st in a # answers_cached cs st)"

fun call_ok :: "call \<Rightarrow> bool" where
  "call_ok (CallWith s opts e) = mode_text opts e"
| "call_ok _ = True"

lemma answer_cached_ok:
  assumes "caches_ok st" "call_ok c"
  shows "fst (answer_cached c st) = plain_answer c \<and> caches_ok (snd (answer_cached c st))"
  using assms parse_atom_cached_ok [OF assms(1)] parse_atom_with_cached_ok [OF assms(1)]
    parse_candidate_cached_ok [OF assms(1)] match_list_cached_ok [OF assms(1)]
  by (cases c) simp_all

lemma answers_cached_ok:
  "caches_ok st \<Longrightarrow> list_all call_ok cs \<Longrightarrow> answers_cached cs st = map plain_answer cs"
proof (induction cs arbitrary: st)
  case (Cons c cs)
  then show ?case using answer_cached_ok [of st c] by (auto split: prod.split)
qed simp

text \<open>
  C27: Whatever calls a thread makes, in any order, from empty memo tables, every call returns what it
  would compute without the tables, provided that a caller that parses with a known EAPI passes a
  spelling of that EAPI as the text for the messages.
\<close>

theorem memo_transparent:
  assumes "list_all call_ok cs"
  shows "answers_cached cs empty_caches = map plain_answer cs"
proof -
  have "caches_ok empty_caches" by (simp add: caches_ok_def empty_caches_def opts_get_def)
  then show ?thesis using answers_cached_ok assms by blast
qed

theorem memo_transparent_witness:
  "answers_cached [CallWith ''a/b[c]'' (default_options\<lparr> ao_eapi := EKnown 0 \<rparr>) ''0'', CallAtom ''a/b'', CallAtom ''a/b'']
     empty_caches = map plain_answer [CallWith ''a/b[c]'' (default_options\<lparr> ao_eapi := EKnown 0 \<rparr>) ''0'', CallAtom ''a/b'', CallAtom ''a/b'']"
  by (rule memo_transparent) code_simp

end
