(* ===== verification/Priority.thy ===== *)
theory Priority
  imports DepStructured AtomParse "HOL-Library.Word"
begin

text \<open>
  Dependency priorities, the edges they label and the ladders of ignore rungs
  (\<open>merge_order/priority.rs\<close>). The metadata is the map of the dependency keys.
\<close>

unbundle bit_operations_syntax

section \<open>Priorities and edges\<close>

record dep_priority =
  buildtime :: bool
  runtime :: bool
  runtime_post :: bool
  buildtime_slot_op :: bool
  runtime_slot_op :: bool
  optional :: bool
  satisfied :: bool

definition default_priority :: dep_priority where
  "default_priority =
     \<lparr> buildtime = False, runtime = False, runtime_post = False, buildtime_slot_op = False,
       runtime_slot_op = False, optional = False, satisfied = False \<rparr>"

record dep_edge =
  edge_atom :: string
  edge_evaluated :: string
  edge_category :: string
  edge_package :: string
  edge_priority :: dep_priority
  edge_disjunctive :: bool
  edge_alt :: "(32 word \<times> 32 word) option"
  edge_key :: nat

section \<open>The deferred bundle\<close>

record split_state =
  sp_inline :: "string list"
  sp_disjunctive :: "(string \<times> 32 word \<times> 32 word) list"
  sp_any_of_depth :: "nat option"
  sp_depth :: nat
  sp_pending :: bool
  sp_group :: "32 word"
  sp_next_group :: "32 word"
  sp_branch :: "32 word"
  sp_branch_depth :: "nat option"

definition split_start :: split_state where
  "split_start =
     \<lparr> sp_inline = [], sp_disjunctive = [], sp_any_of_depth = None, sp_depth = 0,
       sp_pending = False, sp_group = 0, sp_next_group = 0, sp_branch = 0, sp_branch_depth = None \<rparr>"

definition split_open :: "split_state \<Rightarrow> split_state" where
  "split_open st =
     (let depth = sp_depth st + 1
      in if sp_pending st \<and> sp_any_of_depth st = None
         then st\<lparr> sp_depth := depth, sp_any_of_depth := Some depth, sp_group := sp_next_group st,
                  sp_next_group := sp_next_group st + 1, sp_branch := 0, sp_branch_depth := None,
                  sp_pending := False \<rparr>
         else if sp_any_of_depth st \<noteq> None \<and> Some depth = map_option Suc (sp_any_of_depth st)
                 \<and> sp_branch_depth st = None
         then st\<lparr> sp_depth := depth, sp_branch_depth := Some depth, sp_pending := False \<rparr>
         else st\<lparr> sp_depth := depth, sp_pending := False \<rparr>)"

definition split_close :: "split_state \<Rightarrow> split_state" where
  "split_close st =
     (let depth = sp_depth st;
          st = (if sp_branch_depth st = Some depth
                then st\<lparr> sp_branch_depth := None, sp_branch := sp_branch st + 1 \<rparr> else st);
          st = (if sp_any_of_depth st = Some depth then st\<lparr> sp_any_of_depth := None \<rparr> else st)
      in st\<lparr> sp_depth := depth - 1 \<rparr>)"

definition split_atom :: "string \<Rightarrow> split_state \<Rightarrow> split_state" where
  "split_atom tok st =
     (let st = st\<lparr> sp_pending := False \<rparr>;
          is_virtual = (case parse_dep_atom tok of None \<Rightarrow> False | Some a \<Rightarrow> a_category a = ''virtual'')
      in case sp_any_of_depth st of
           Some aod \<Rightarrow>
             let st = st\<lparr> sp_disjunctive := sp_disjunctive st @ [(tok, sp_group st, sp_branch st)] \<rparr>
             in if sp_depth st = aod then st\<lparr> sp_branch := sp_branch st + 1 \<rparr> else st
         | None \<Rightarrow>
             if is_virtual
             then st\<lparr> sp_disjunctive := sp_disjunctive st @ [(tok, - 1, - 1)] \<rparr>
             else st\<lparr> sp_inline := sp_inline st @ [tok] \<rparr>)"

definition split_step :: "string \<Rightarrow> split_state \<Rightarrow> split_state" where
  "split_step tok st =
     (if tok = ''||'' then st\<lparr> sp_pending := True \<rparr>
      else if tok = ''('' then split_open st
      else if tok = '')'' then split_close st
      else split_atom tok st)"

definition split_disjunctive ::
  "string list \<Rightarrow>
   string list \<times> (string \<times> 32 word \<times> 32 word) list" where
  "split_disjunctive tokens =
     (let st = fold split_step tokens split_start in (sp_inline st, sp_disjunctive st))"

section \<open>Edges of a package\<close>

definition key_priority :: "string \<Rightarrow> bool \<Rightarrow> dep_priority" where
  "key_priority key built =
     (if key = ''RDEPEND'' \<or> key = ''IDEPEND'' then default_priority\<lparr> runtime := True \<rparr>
      else if key = ''PDEPEND'' then default_priority\<lparr> runtime_post := True \<rparr>
      else default_priority\<lparr> buildtime := True, optional := built \<rparr>)"

definition key_index :: "string \<Rightarrow> nat" where
  "key_index key =
     (if key = ''RDEPEND'' then 0 else if key = ''IDEPEND'' then 1
      else if key = ''PDEPEND'' then 2 else if key = ''DEPEND'' then 3 else 4)"

definition slot_op_promote :: "atom \<Rightarrow> dep_priority \<Rightarrow> dep_priority" where
  "slot_op_promote a p =
     (if a_slot_operator a = Some SlotEquals
      then let p = (if buildtime p then p\<lparr> buildtime_slot_op := True \<rparr> else p)
           in (if runtime p then p\<lparr> runtime_slot_op := True \<rparr> else p)
      else p)"

text \<open>The set of keys already seen is the set of \<open>(atom, category, package, priority)\<close>.\<close>

type_synonym edge_id = "string \<times> string \<times> string \<times> dep_priority"

definition new_edge ::
  "string set \<Rightarrow> string \<Rightarrow> atom \<Rightarrow> dep_priority \<Rightarrow>
   (32 word \<times> 32 word) option \<Rightarrow> nat \<Rightarrow> dep_edge" where
  "new_edge use_flags t a priority alt ki =
     \<lparr> edge_atom = t,
       edge_evaluated = evaluated_token t use_flags,
       edge_category = a_category a, edge_package = a_package a,
       edge_priority = priority, edge_disjunctive = (alt \<noteq> None), edge_alt = alt, edge_key = ki \<rparr>"

fun token_edges ::
  "string set \<Rightarrow>
   dep_priority \<Rightarrow> nat \<Rightarrow> (string \<times> (32 word \<times> 32 word) option) list \<Rightarrow>
   edge_id set \<times> dep_edge list \<Rightarrow> edge_id set \<times> dep_edge list" where
  "token_edges use_flags base ki [] acc = acc"
| "token_edges use_flags base ki ((t, alt) # ts) (seen, edges) =
     (if t = ''||'' then token_edges use_flags base ki ts (seen, edges)
      else case parse_dep_atom t of
             None \<Rightarrow> token_edges use_flags base ki ts (seen, edges)
           | Some a \<Rightarrow>
               if a_blocker a \<noteq> BlockNone then token_edges use_flags base ki ts (seen, edges)
               else
                 let priority = slot_op_promote a base;
                     key = (t, a_category a, a_package a, priority)
                 in if key \<in> seen
                    then token_edges use_flags base ki ts (seen, edges)
                    else token_edges use_flags base ki ts
                           (insert key seen,
                            edges @ [new_edge use_flags t a priority alt ki]))"

fun key_edges ::
  "(string \<Rightarrow> string option) \<Rightarrow> string set \<Rightarrow> bool \<Rightarrow> string list \<Rightarrow>
   edge_id set \<times> dep_edge list \<Rightarrow> edge_id set \<times> dep_edge list" where
  "key_edges metadata use_flags built [] acc = acc"
| "key_edges metadata use_flags built (k # ks) acc =
     (case metadata k of
        None \<Rightarrow> key_edges metadata use_flags built ks acc
      | Some d \<Rightarrow>
          (case use_reduce_structured (split_whitespace d) use_flags Normal of
             Ok structured \<Rightarrow>
               let (inline, deferred) = split_disjunctive structured;
                   flat = map (\<lambda>a. (a, None)) inline @ map (\<lambda>(a, g, b). (a, Some (g, b))) deferred
               in key_edges metadata use_flags built ks
                    (token_edges use_flags (key_priority k built) (key_index k)
                       flat acc)
           | _ \<Rightarrow> key_edges metadata use_flags built ks acc))"

definition dep_edges_from_metadata ::
  "(string \<Rightarrow> string option) \<Rightarrow> string set \<Rightarrow> string list \<Rightarrow> bool \<Rightarrow> dep_edge list" where
  "dep_edges_from_metadata metadata use_flags keys built =
     snd (key_edges metadata use_flags built keys ({}, []))"

section \<open>The ignore predicates\<close>

definition n_ignore_optional :: "dep_priority \<Rightarrow> bool" where
  "n_ignore_optional p = optional p"

definition n_ignore_runtime_post :: "dep_priority \<Rightarrow> bool" where
  "n_ignore_runtime_post p = (optional p \<or> runtime_post p)"

definition n_ignore_runtime :: "dep_priority \<Rightarrow> bool" where
  "n_ignore_runtime p = (\<not> runtime_slot_op p \<and> (optional p \<or> \<not> buildtime p))"

definition s_ignore_optional :: "dep_priority \<Rightarrow> bool" where
  "s_ignore_optional p = optional p"

definition s_ignore_satisfied_runtime_post :: "dep_priority \<Rightarrow> bool" where
  "s_ignore_satisfied_runtime_post p =
     (if optional p then True
      else if \<not> satisfied p then False
      else if buildtime p \<or> runtime p then False
      else runtime_post p)"

definition s_ignore_runtime_post :: "dep_priority \<Rightarrow> bool" where
  "s_ignore_runtime_post p =
     (if optional p then True
      else if buildtime p \<or> runtime p then False
      else runtime_post p)"

definition s_ignore_satisfied_runtime :: "dep_priority \<Rightarrow> bool" where
  "s_ignore_satisfied_runtime p =
     (if optional p then True
      else if buildtime p then False
      else if \<not> runtime p then True
      else satisfied p)"

definition s_ignore_satisfied_buildtime :: "dep_priority \<Rightarrow> bool" where
  "s_ignore_satisfied_buildtime p =
     (if optional p then True
      else if buildtime_slot_op p then False
      else satisfied p)"

definition s_ignore_satisfied_buildtime_slot_op :: "dep_priority \<Rightarrow> bool" where
  "s_ignore_satisfied_buildtime_slot_op p =
     (if optional p then True
      else if satisfied p then True
      else \<not> buildtime p \<and> \<not> runtime p)"

definition s_ignore_runtime :: "dep_priority \<Rightarrow> bool" where
  "s_ignore_runtime p =
     ((\<not> runtime_slot_op p \<or> satisfied p) \<and> (satisfied p \<or> optional p \<or> \<not> buildtime p))"

lemmas ignore_defs =
  n_ignore_optional_def n_ignore_runtime_post_def n_ignore_runtime_def
  s_ignore_optional_def s_ignore_satisfied_runtime_post_def s_ignore_runtime_post_def
  s_ignore_satisfied_runtime_def s_ignore_satisfied_buildtime_def
  s_ignore_satisfied_buildtime_slot_op_def s_ignore_runtime_def

datatype ignore =
    NOptional | NRuntimePost | NRuntime
  | SOptional | SSatisfiedRuntimePost | SRuntimePost | SSatisfiedRuntime
  | SSatisfiedBuildtime | SSatisfiedBuildtimeSlotOp | SRuntime

fun ignores :: "ignore \<Rightarrow> dep_priority \<Rightarrow> bool" where
  "ignores NOptional p = n_ignore_optional p"
| "ignores NRuntimePost p = n_ignore_runtime_post p"
| "ignores NRuntime p = n_ignore_runtime p"
| "ignores SOptional p = s_ignore_optional p"
| "ignores SSatisfiedRuntimePost p = s_ignore_satisfied_runtime_post p"
| "ignores SRuntimePost p = s_ignore_runtime_post p"
| "ignores SSatisfiedRuntime p = s_ignore_satisfied_runtime p"
| "ignores SSatisfiedBuildtime p = s_ignore_satisfied_buildtime p"
| "ignores SSatisfiedBuildtimeSlotOp p = s_ignore_satisfied_buildtime_slot_op p"
| "ignores SRuntime p = s_ignore_runtime p"

fun ignore_rung_name :: "ignore \<Rightarrow> string" where
  "ignore_rung_name NOptional = ''ignore_optional''"
| "ignore_rung_name NRuntimePost = ''ignore_runtime_post''"
| "ignore_rung_name NRuntime = ''ignore_runtime''"
| "ignore_rung_name SOptional = ''ignore_optional''"
| "ignore_rung_name SSatisfiedRuntimePost = ''ignore_satisfied_runtime_post''"
| "ignore_rung_name SRuntimePost = ''ignore_runtime_post''"
| "ignore_rung_name SSatisfiedRuntime = ''ignore_satisfied_runtime''"
| "ignore_rung_name SSatisfiedBuildtime = ''ignore_satisfied_buildtime''"
| "ignore_rung_name SSatisfiedBuildtimeSlotOp = ''ignore_satisfied_buildtime_slot_op''"
| "ignore_rung_name SRuntime = ''ignore_runtime''"

definition ignore_name :: "ignore option \<Rightarrow> string" where
  "ignore_name ig = (case ig of None \<Rightarrow> ''none'' | Some f \<Rightarrow> ignore_rung_name f)"

section \<open>The ladders\<close>

record priority_range =
  pr_ignore :: "ignore option list"
  pr_medium :: nat
  pr_medium_soft :: nat
  pr_medium_post :: nat

definition NORMAL :: priority_range where
  "NORMAL =
     \<lparr> pr_ignore = [None, Some NOptional, Some NRuntimePost, Some NRuntime],
       pr_medium = 3, pr_medium_soft = 2, pr_medium_post = 2 \<rparr>"

definition SATISFIED :: priority_range where
  "SATISFIED =
     \<lparr> pr_ignore = [None, Some SOptional, Some SSatisfiedRuntimePost, Some SRuntimePost,
                    Some SSatisfiedRuntime, Some SSatisfiedBuildtime,
                    Some SSatisfiedBuildtimeSlotOp, Some SRuntime],
       pr_medium = 7, pr_medium_soft = 6, pr_medium_post = 3 \<rparr>"

definition range_ig :: "priority_range \<Rightarrow> nat \<Rightarrow> ignore option" where
  "range_ig r i = pr_ignore r ! i"

definition ig_medium :: "priority_range \<Rightarrow> ignore option" where
  "ig_medium r = pr_ignore r ! pr_medium r"

definition ig_medium_soft :: "priority_range \<Rightarrow> ignore option" where
  "ig_medium_soft r = pr_ignore r ! pr_medium_soft r"

text \<open>\<open>ig.is_none_or(|f| prios.iter().any(|p| !f.ignores(p)))\<close>: the edge survives the filter.\<close>

definition survives :: "ignore option \<Rightarrow> dep_priority list \<Rightarrow> bool" where
  "survives ig prios = (case ig of None \<Rightarrow> True | Some f \<Rightarrow> (\<exists>p \<in> set prios. \<not> ignores f p))"


lemma survives_None [simp]: "survives None prios" by (simp add: survives_def)

text \<open>\<open>Display\<close> of a priority (\<open>resolver_trace.rs\<close>).\<close>

definition dep_priority_str :: "dep_priority \<Rightarrow> string" where
  "dep_priority_str p =
     (if optional p then ''optional''
      else if buildtime_slot_op p then ''buildtime_slot_op''
      else if buildtime p then ''buildtime''
      else if runtime_slot_op p then ''runtime_slot_op''
      else if runtime p then ''runtime''
      else if runtime_post p then ''runtime_post''
      else ''soft'')"

section \<open>The deferred bundle of a reduced string\<close>

text \<open>The atoms of an item, and the items the reducer leaves: no conditionals.\<close>

fun dep_atoms :: "dep_item \<Rightarrow> string list" where
  "dep_atoms (DAtom t) = [t]"
| "dep_atoms (DGroup is) = concat (map dep_atoms is)"
| "dep_atoms (DAny is) = concat (map dep_atoms is)"
| "dep_atoms (DCond c is) = concat (map dep_atoms is)"

fun reduced_item :: "dep_item \<Rightarrow> bool" where
  "reduced_item (DAtom t) \<longleftrightarrow> t \<noteq> ''('' \<and> t \<noteq> '')'' \<and> t \<noteq> ''||''"
| "reduced_item (DGroup is) \<longleftrightarrow> list_all reduced_item is"
| "reduced_item (DAny is) \<longleftrightarrow> list_all reduced_item is"
| "reduced_item (DCond c is) \<longleftrightarrow> False"

definition is_virtual :: "string \<Rightarrow> bool" where
  "is_virtual t = (case parse_dep_atom t of None \<Rightarrow> False | Some a \<Rightarrow> a_category a = ''virtual'')"

text \<open>The members of a \<open>||\<close> group are its branches, numbered from 0.\<close>

fun branch_atoms :: "32 word \<Rightarrow> 32 word \<Rightarrow> dep_item list \<Rightarrow> (string \<times> 32 word \<times> 32 word) list" where
  "branch_atoms g b [] = []"
| "branch_atoms g b (i # is) = map (\<lambda>t. (t, g, b)) (dep_atoms i) @ branch_atoms g (b + 1) is"

text \<open>The state is the next group number and the two lists.\<close>

type_synonym split_lists = "string list \<times> (string \<times> 32 word \<times> 32 word) list"

fun split_item :: "dep_item \<Rightarrow> 32 word \<times> split_lists \<Rightarrow> 32 word \<times> split_lists"
where
  "split_item (DAtom t) (n, ins, def) =
     (if is_virtual t then (n, ins, def @ [(t, - 1, - 1)]) else (n, ins @ [t], def))"
| "split_item (DGroup is) acc = fold split_item is acc"
| "split_item (DAny is) (n, ins, def) = (n + 1, ins, def @ branch_atoms n 0 is)"
| "split_item (DCond c is) acc = acc"

text \<open>Inside a branch every atom carries the branch's marks.\<close>

lemma split_inside:
  "reduced_item i \<Longrightarrow> sp_any_of_depth st = Some a \<Longrightarrow> sp_branch_depth st = Some c \<Longrightarrow>
     a < c \<Longrightarrow> c \<le> sp_depth st \<Longrightarrow>
     fold split_step (dep_tokens i) st =
       st\<lparr> sp_disjunctive := sp_disjunctive st @ map (\<lambda>t. (t, sp_group st, sp_branch st)) (dep_atoms i),
           sp_pending := False \<rparr>"
  "list_all reduced_item is \<Longrightarrow> sp_any_of_depth st = Some a \<Longrightarrow> sp_branch_depth st = Some c \<Longrightarrow>
     a < c \<Longrightarrow> c \<le> sp_depth st \<Longrightarrow>
     fold split_step (deps_tokens is) st =
       st\<lparr> sp_disjunctive := sp_disjunctive st
             @ map (\<lambda>t. (t, sp_group st, sp_branch st)) (concat (map dep_atoms is)),
           sp_pending := sp_pending st \<and> is = [] \<rparr>"
proof (induction i and "is" arbitrary: st and st rule: dep_items_induct)
  case (Atom t)
  then show ?case by (simp add: split_step_def split_atom_def Let_def)
next
  case (Group "is")
  then show ?case by (simp add: split_step_def split_open_def split_close_def Let_def)
next
  case (Any "is")
  then show ?case by (simp add: split_step_def split_open_def split_close_def Let_def)
next
  case (Cons i "is")
  then show ?case by simp
qed auto

text \<open>The members of a \<open>||\<close> group.\<close>

lemma split_branch:
  assumes "reduced_item i" "sp_any_of_depth st = Some (sp_depth st)" "sp_branch_depth st = None"
  shows "fold split_step (dep_tokens i) st =
      st\<lparr> sp_disjunctive := sp_disjunctive st @ map (\<lambda>t. (t, sp_group st, sp_branch st)) (dep_atoms i),
          sp_branch := sp_branch st + 1, sp_pending := False \<rparr>"
proof (cases i)
  case (DAtom t)
  then show ?thesis using assms by (simp add: split_step_def split_atom_def Let_def)
next
  case (DGroup "is")
  then show ?thesis
    using assms by (simp add: split_step_def split_open_def split_close_def Let_def split_inside(2))
next
  case (DAny "is")
  then show ?thesis
    using assms by (simp add: split_step_def split_open_def split_close_def Let_def split_inside(2))
next
  case (DCond c "is")
  then show ?thesis using assms by simp
qed

lemma split_branches:
  assumes "list_all reduced_item is" "sp_any_of_depth st = Some (sp_depth st)" "sp_branch_depth st = None"
  shows "fold split_step (deps_tokens is) st =
      st\<lparr> sp_disjunctive := sp_disjunctive st @ branch_atoms (sp_group st) (sp_branch st) is,
          sp_branch := sp_branch st + of_nat (length is), sp_pending := sp_pending st \<and> is = [] \<rparr>"
  using assms
proof (induction "is" arbitrary: st)
  case (Cons i "is")
  then show ?case by (simp add: split_branch add.commute add.left_commute)
qed simp

text \<open>Outside every \<open>||\<close> group the walk is \<open>split_item\<close>; the other fields are scratch.\<close>

definition split_view :: "split_state \<Rightarrow> 32 word \<times> split_lists" where
  "split_view st = (sp_next_group st, sp_inline st, sp_disjunctive st)"

definition split_outside :: "split_state \<Rightarrow> bool" where
  "split_outside st \<longleftrightarrow> sp_any_of_depth st = None \<and> sp_branch_depth st = None \<and> \<not> sp_pending st"

lemma split_outside_close:
  "split_outside st \<Longrightarrow>
     split_outside (split_step '')'' st) \<and> split_view (split_step '')'' st) = split_view st \<and>
     sp_depth (split_step '')'' st) = sp_depth st - 1"
  by (auto simp: split_step_def split_close_def split_outside_def split_view_def Let_def)

lemma split_outer:
  "reduced_item i \<Longrightarrow> split_outside st \<Longrightarrow>
     (let st' = fold split_step (dep_tokens i) st
      in split_outside st' \<and> sp_depth st' = sp_depth st \<and>
         split_view st' = split_item i (split_view st))"
  "list_all reduced_item is \<Longrightarrow> split_outside st \<Longrightarrow>
     (let st' = fold split_step (deps_tokens is) st
      in split_outside st' \<and> sp_depth st' = sp_depth st \<and>
         split_view st' = fold split_item is (split_view st))"
proof (induction i and "is" arbitrary: st and st rule: dep_items_induct)
  case (Atom t)
  then show ?case
    by (simp add: split_step_def split_atom_def Let_def split_view_def split_outside_def is_virtual_def)
next
  case (Group "is")
  let ?st = "split_step ''('' st"
  have st: "split_outside ?st" "sp_depth ?st = sp_depth st + 1" "split_view ?st = split_view st"
    using Group.prems by (simp_all add: split_step_def split_open_def split_outside_def split_view_def Let_def)
  let ?st2 = "fold split_step (deps_tokens is) ?st"
  have st2: "split_outside ?st2" "sp_depth ?st2 = sp_depth st + 1"
      "split_view ?st2 = fold split_item is (split_view st)"
    using Group.IH [OF _ st(1)] Group.prems st by (simp_all add: Let_def)
  have close: "fold split_step (dep_tokens (DGroup is)) st = split_step '')'' ?st2"
    by simp
  show ?case
    unfolding close Let_def using st2 split_outside_close [OF st2(1)] by simp
next
  case (Any "is")
  let ?st = "split_step ''('' (split_step ''||'' st)"
  have st: "sp_any_of_depth ?st = Some (sp_depth ?st)" "sp_branch_depth ?st = None" "\<not> sp_pending ?st"
      "sp_depth ?st = sp_depth st + 1" "sp_branch ?st = 0" "sp_group ?st = sp_next_group st"
      "split_view ?st = (sp_next_group st + 1, sp_inline st, sp_disjunctive st)"
    using Any.prems by (simp_all add: split_step_def split_open_def split_outside_def split_view_def Let_def)
  have any: "fold split_step (dep_tokens (DAny is)) st =
      split_step '')'' (fold split_step (deps_tokens is) ?st)"
    by simp
  have "list_all reduced_item is" using Any.prems by simp
  note br = split_branches [OF this st(1,2)]
  show ?case
    unfolding any Let_def br using st
    by (simp add: split_step_def split_close_def split_outside_def split_view_def Let_def)
next
  case (Cons i "is")
  then show ?case by (simp add: Let_def)
qed (auto simp: Let_def)

text \<open>
  The bundle splitter on a reduced dependency string: an atom outside every \<open>||\<close> group is inline, or
  deferred with the \<open>u32::MAX\<close> marks when it is a virtual; every atom below the n-th outermost
  \<open>||\<close> group is deferred with group n, and the atoms of its k-th member with branch k, however deeply
  the member nests further groups.
\<close>

theorem split_disjunctive_spec:
  assumes "list_all reduced_item is"
  shows "split_disjunctive (deps_tokens is) = snd (fold split_item is (0, [], []))"
proof -
  have "split_outside split_start" "split_view split_start = (0, [], [])"
    by (simp_all add: split_outside_def split_start_def split_view_def)
  then show ?thesis
    using split_outer(2) [OF assms, of split_start]
    by (simp add: split_disjunctive_def Let_def split_view_def prod_eq_iff)
qed

theorem split_disjunctive_spec_witness:
  "split_disjunctive
     (deps_tokens [DAtom ''a/x'', DAny [DGroup [DAtom ''a/y'', DAtom ''a/z''], DAtom ''a/w''],
                   DAtom ''virtual/v'', DAny [DAtom ''b/x'']]) =
   ([''a/x''],
    [(''a/y'', 0, 0), (''a/z'', 0, 0), (''a/w'', 0, 1), (''virtual/v'', - 1, - 1), (''b/x'', 1, 0)])"
  by (subst split_disjunctive_spec) (simp, code_simp)

section \<open>The edges of a package\<close>

definition edge_id_of :: "dep_edge \<Rightarrow> edge_id" where
  "edge_id_of e = (edge_atom e, edge_category e, edge_package e, edge_priority e)"

text \<open>The identity of the edge a token asks for, if any.\<close>

definition token_id :: "dep_priority \<Rightarrow> string \<Rightarrow> edge_id option" where
  "token_id base t =
     (if t = ''||'' then None
      else case parse_dep_atom t of
             None \<Rightarrow> None
           | Some a \<Rightarrow> if a_blocker a \<noteq> BlockNone then None
                       else Some (t, a_category a, a_package a, slot_op_promote a base))"

definition edges_ok :: "edge_id set \<times> dep_edge list \<Rightarrow> bool" where
  "edges_ok acc \<longleftrightarrow> fst acc = set (map edge_id_of (snd acc)) \<and> distinct (map edge_id_of (snd acc))"

lemma token_edges_ok:
  assumes "edges_ok acc"
  shows "edges_ok (token_edges uses base ki ts acc) \<and>
         fst (token_edges uses base ki ts acc) =
           fst acc \<union> {e. \<exists>t \<in> fst ` set ts. token_id base t = Some e}"
  using assms
proof (induction ts arbitrary: acc)
  case (Cons x ts)
  obtain t alt where x: "x = (t, alt)" by (cases x)
  obtain seen edges where acc: "acc = (seen, edges)" by (cases acc)
  show ?case
  proof (cases "token_id base t")
    case None
    then have "token_edges uses base ki (x # ts) acc =
        token_edges uses base ki ts acc"
      by (auto simp: x acc token_id_def split: if_splits option.splits)
    then show ?thesis using Cons None by (auto simp: x)
  next
    case (Some e)
    then obtain a where a: "t \<noteq> ''||''" "parse_dep_atom t = Some a" "a_blocker a = BlockNone"
        "e = (t, a_category a, a_package a, slot_op_promote a base)"
      by (auto simp: token_id_def split: if_splits option.splits)
    show ?thesis
    proof (cases "e \<in> seen")
      case True
      then have "token_edges uses base ki (x # ts) acc =
          token_edges uses base ki ts acc"
        using a by (simp add: x acc Let_def)
      then show ?thesis using Cons Some True by (auto simp: x acc)
    next
      case False
      let ?d = "new_edge uses t a (slot_op_promote a base) alt ki"
      have d: "edge_id_of ?d = e"
          "token_edges uses base ki (x # ts) acc =
             token_edges uses base ki ts (insert e seen, edges @ [?d])"
        using a False by (simp_all add: x acc Let_def edge_id_of_def new_edge_def)
      have "edges_ok (insert e seen, edges @ [?d])"
        using Cons.prems False d(1) by (auto simp: edges_ok_def acc)
      moreover have "{e'. \<exists>u \<in> fst ` set (x # ts). token_id base u = Some e'} =
          insert e {e'. \<exists>u \<in> fst ` set ts. token_id base u = Some e'}"
        using Some by (auto simp: x)
      ultimately show ?thesis using Cons.IH by (simp add: d(2)) (simp add: acc)
    qed
  qed
qed simp


text \<open>Every atom of the reduced string lands in one of the two bundles.\<close>

definition split_tokens :: "split_state \<Rightarrow> string set" where
  "split_tokens st = set (sp_inline st) \<union> fst ` set (sp_disjunctive st)"

lemma split_step_tokens:
  "split_tokens (split_step t st) =
     split_tokens st \<union> (if t = ''||'' \<or> t = ''('' \<or> t = '')'' then {} else {t})"
  by (auto simp: split_tokens_def split_step_def split_open_def split_close_def split_atom_def Let_def
      image_Un split: option.splits)

lemma split_fold_tokens:
  "split_tokens (fold split_step ts st) = split_tokens st \<union> (set ts - {''||'', ''('', '')''})"
  by (induction ts arbitrary: st) (auto simp: split_step_tokens)

lemma split_disjunctive_tokens:
  "set (fst (split_disjunctive ts)) \<union> fst ` set (snd (split_disjunctive ts)) =
     set ts - {''||'', ''('', '')''}"
  using split_fold_tokens [of ts split_start]
  by (simp add: split_disjunctive_def Let_def split_tokens_def split_start_def)

definition key_ids ::
  "(string \<Rightarrow> string option) \<Rightarrow> string set \<Rightarrow> bool \<Rightarrow> string \<Rightarrow>
   edge_id set" where
  "key_ids metadata uses built k =
     {e. \<exists>d ts t. metadata k = Some d \<and> use_reduce_structured (split_whitespace d) uses Normal = Ok ts \<and>
         t \<in> set ts \<and> t \<noteq> ''('' \<and> t \<noteq> '')'' \<and> token_id (key_priority k built) t = Some e}"

lemma key_edges_ok:
  assumes "edges_ok acc"
  shows "edges_ok (key_edges metadata uses built ks acc) \<and>
         fst (key_edges metadata uses built ks acc) =
           fst acc \<union> (\<Union>k \<in> set ks. key_ids metadata uses built k)"
  using assms
proof (induction ks arbitrary: acc)
  case (Cons k ks)
  show ?case
  proof (cases "\<exists>d ts. metadata k = Some d \<and> use_reduce_structured (split_whitespace d) uses Normal = Ok ts")
    case False
    then have "key_edges metadata uses built (k # ks) acc =
        key_edges metadata uses built ks acc" "key_ids metadata uses built k = {}"
      by (auto simp: key_ids_def split: option.splits outcome.splits)
    then show ?thesis using Cons by simp
  next
    case True
    then obtain d ts where d: "metadata k = Some d"
        "use_reduce_structured (split_whitespace d) uses Normal = Ok ts" by auto
    obtain inline deferred where sp: "split_disjunctive ts = (inline, deferred)"
      by (cases "split_disjunctive ts")
    let ?flat = "map (\<lambda>a. (a, None)) inline @ map (\<lambda>(a, g, b). (a, Some (g, b))) deferred"
    let ?acc = "token_edges uses (key_priority k built) (key_index k) ?flat acc"
    have "key_edges metadata uses built (k # ks) acc =
        key_edges metadata uses built ks ?acc"
      by (simp add: d sp)
    moreover have "fst ` set ?flat = set ts - {''||'', ''('', '')''}"
      using split_disjunctive_tokens [of ts]
      by (simp add: sp image_Un image_image case_prod_beta)
    moreover have "token_id base ''||'' = None" for base by (simp add: token_id_def)
    ultimately show ?thesis
      using token_edges_ok [OF Cons.prems, of uses "key_priority k built" "key_index k" ?flat]
        Cons.IH [of ?acc]
      by (auto simp: key_ids_def d)
  qed
qed simp

text \<open>
  The edges of a package: for every dependency key in the metadata whose string reduces, every atom of the
  reduced string that parses and is no blocker contributes the edge of its category, package and
  priority, the key's priority with the slot-operator flag on a \<open>:=\<close> atom; there are no other edges,
  and no two edges agree in atom, category, package and priority.
\<close>

theorem dep_edges_exact:
  "distinct (map edge_id_of (dep_edges_from_metadata metadata uses keys built)) \<and>
   set (map edge_id_of (dep_edges_from_metadata metadata uses keys built)) =
     (\<Union>k \<in> set keys. key_ids metadata uses built k)"
  using key_edges_ok [of "({}, [])" metadata uses built keys]
  by (auto simp: dep_edges_from_metadata_def edges_ok_def)

section \<open>The ladders are nested\<close>

text \<open>
  The priorities the resolver makes: a key's priority, perhaps with the slot-operator flag, perhaps
  satisfied.
\<close>

definition key_made :: "dep_priority \<Rightarrow> bool" where
  "key_made p \<longleftrightarrow> (\<exists>k built a s. p = (slot_op_promote a (key_priority k built))\<lparr> satisfied := s \<rparr>)"

lemma key_made_cases:
  assumes "key_made p"
  shows "runtime p \<and> \<not> runtime_post p \<and> \<not> buildtime p \<and> \<not> buildtime_slot_op p \<and> \<not> optional p \<or>
         runtime_post p \<and> \<not> runtime p \<and> \<not> buildtime p \<and> \<not> buildtime_slot_op p \<and> \<not> runtime_slot_op p
           \<and> \<not> optional p \<or>
         buildtime p \<and> \<not> runtime p \<and> \<not> runtime_post p \<and> \<not> runtime_slot_op p"
proof -
  obtain k built a s where p: "p = (slot_op_promote a (key_priority k built))\<lparr> satisfied := s \<rparr>"
    using assms by (auto simp: key_made_def)
  consider "k = ''RDEPEND'' \<or> k = ''IDEPEND''" | "k = ''PDEPEND''"
    | "\<not> (k = ''RDEPEND'' \<or> k = ''IDEPEND'')" "k \<noteq> ''PDEPEND''" by blast
  then show ?thesis
    unfolding p
    by cases (simp_all add: slot_op_promote_def key_priority_def default_priority_def Let_def)
qed

lemma less_4_cases: "(i::nat) < 4 \<longleftrightarrow> i = 0 \<or> i = 1 \<or> i = 2 \<or> i = 3" by auto

lemma less_8_cases:
  "(i::nat) < 8 \<longleftrightarrow> i = 0 \<or> i = 1 \<or> i = 2 \<or> i = 3 \<or> i = 4 \<or> i = 5 \<or> i = 6 \<or> i = 7" by auto

lemma ladder_lengths [simp]: "length (pr_ignore NORMAL) = 4" "length (pr_ignore SATISFIED) = 8"
  by (simp_all add: NORMAL_def SATISFIED_def)

lemma normal_rung:
  "key_made p \<Longrightarrow> range_ig NORMAL i = Some f \<Longrightarrow> i < 4 \<Longrightarrow>
     ignores f p \<longleftrightarrow> (if optional p then True else if runtime_post p then 2 \<le> i
                     else runtime p \<and> i = 3 \<and> \<not> runtime_slot_op p)"
  unfolding less_4_cases
  by (drule key_made_cases, elim disjE; simp add: range_ig_def NORMAL_def; drule sym;
      simp add: ignore_defs; blast)

lemma normal_rung_mono:
  "key_made p \<Longrightarrow> range_ig NORMAL i = Some f \<Longrightarrow> range_ig NORMAL j = Some g \<Longrightarrow> i \<le> j \<Longrightarrow> j < 4 \<Longrightarrow>
     ignores f p \<Longrightarrow> ignores g p"
  by (simp add: normal_rung split: if_splits)

lemma satisfied_rung:
  "key_made p \<Longrightarrow> range_ig SATISFIED i = Some f \<Longrightarrow> i < 8 \<Longrightarrow>
     ignores f p \<longleftrightarrow> (if optional p then True
                     else if runtime p then (if satisfied p then 4 \<le> i else i = 7 \<and> \<not> runtime_slot_op p)
                     else if runtime_post p then (if satisfied p then 2 \<le> i else 3 \<le> i \<and> i \<noteq> 5)
                     else satisfied p \<and> (if buildtime_slot_op p then 6 \<le> i else 5 \<le> i))"
  unfolding less_8_cases
  by (drule key_made_cases, elim disjE; simp add: range_ig_def SATISFIED_def; drule sym;
      simp add: ignore_defs; blast)

text \<open>
  The normal ladder relaxes step by step: among the priorities the dependency keys produce, an edge
  that survives a higher rung survives every lower one.
\<close>

theorem normal_ladder_nested:
  assumes "\<forall>p \<in> set prios. key_made p" "i \<le> j" "j < 4"
    and "survives (range_ig NORMAL j) prios"
  shows "survives (range_ig NORMAL i) prios"
proof (cases "range_ig NORMAL i")
  case (Some f)
  obtain g where g: "range_ig NORMAL j = Some g"
    using Some assms(2,3) unfolding less_4_cases by (auto simp: range_ig_def NORMAL_def)
  show ?thesis
    using assms normal_rung_mono [OF _ Some g] by (auto simp: survives_def Some g)
qed simp

definition bare_atom :: atom where
  "bare_atom =
     \<lparr> a_blocker = BlockNone, a_operator = OpNone, a_category = ''a'', a_package = ''b'', a_version = None,
       a_revision = None, a_slot = None, a_sub_slot = None, a_slot_operator = None, a_use_deps = None,
       a_repo = None, a_build_id = None, a_extended = False \<rparr>"

definition runtime_dep :: dep_priority where
  "runtime_dep = default_priority\<lparr> runtime := True \<rparr>"

lemma key_made_runtime: "key_made runtime_dep"
  unfolding key_made_def
  by (intro exI [of _ "''RDEPEND''"] exI [of _ False]
      exI [of _ bare_atom]
      exI [of _ False])
    (simp add: slot_op_promote_def key_priority_def bare_atom_def runtime_dep_def default_priority_def)

theorem normal_ladder_nested_witness:
  "survives (range_ig NORMAL 1) [runtime_dep] \<and> \<not> survives (range_ig NORMAL 3) [runtime_dep]"
proof
  have "survives (range_ig NORMAL 2) [runtime_dep]"
    by (simp add: range_ig_def NORMAL_def survives_def ignore_defs runtime_dep_def default_priority_def)
  then show "survives (range_ig NORMAL 1) [runtime_dep]"
    using normal_ladder_nested [of "[runtime_dep]" 1 2] key_made_runtime by simp
qed (simp add: range_ig_def NORMAL_def survives_def ignore_defs runtime_dep_def default_priority_def)

text \<open>
  The satisfied ladder is nested but for one rung: a priority the dependency keys produce that rung i
  ignores is ignored by every higher rung j, except exactly an unsatisfied run-time-post edge, which
  the rungs 3 and 4 ignore and rung 5 restores.
\<close>

theorem satisfied_ladder_nested:
  assumes "key_made p" "range_ig SATISFIED i = Some f" "range_ig SATISFIED j = Some g"
    and "i \<le> j" "j < 8" "ignores f p"
  shows "ignores g p \<longleftrightarrow> \<not> (j = 5 \<and> (i = 3 \<or> i = 4) \<and> runtime_post p \<and> \<not> satisfied p)"
proof -
  have i: "i < 8" using assms by simp
  show ?thesis
    using satisfied_rung [OF assms(1,2) i] satisfied_rung [OF assms(1,3,5)] assms(4-)
      key_made_cases [OF assms(1)] by auto
qed

definition post_dep :: dep_priority where
  "post_dep = default_priority\<lparr> runtime_post := True \<rparr>"

lemma key_made_post: "key_made post_dep"
  unfolding key_made_def
  by (intro exI [of _ "''PDEPEND''"] exI [of _ False]
      exI [of _ bare_atom]
      exI [of _ False])
    (simp add: slot_op_promote_def key_priority_def bare_atom_def post_dep_def default_priority_def)

theorem satisfied_ladder_nested_witness:
  "ignores SRuntimePost post_dep \<and> \<not> ignores SSatisfiedBuildtime post_dep"
proof -
  have r: "range_ig SATISFIED 3 = Some SRuntimePost" "range_ig SATISFIED 5 = Some SSatisfiedBuildtime"
    by (simp_all add: range_ig_def SATISFIED_def)
  have p: "ignores SRuntimePost post_dep" "runtime_post post_dep" "\<not> satisfied post_dep"
    by (simp_all add: ignore_defs post_dep_def default_priority_def)
  show ?thesis
    using satisfied_ladder_nested [OF key_made_post r(1) r(2)] p by simp
qed

end
