(* ===== verification/Digraph.thy ===== *)
theory Digraph
  imports Priority
begin

text \<open>
  The merge-order digraph and the serialize frontier (\<open>merge_order/digraph.rs\<close>). Nodes are
  indices into the entry list. \<open>graph_ok\<close> is the representation invariant: under it every index
  the code uses is in range, so \<open>xs ! i\<close> is the element the code reads. A binary heap is the list
  of its elements; popping it empty yields them in ascending order.
\<close>

section \<open>The digraph\<close>

record digraph =
  dg_n :: nat
  dg_children :: "(nat \<times> dep_priority list) list list"
  dg_parents :: "nat list list"
  dg_order :: "nat list"
  dg_installed :: "bool list"
  dg_alive :: "bool list"

definition child_counts :: "digraph \<Rightarrow> ignore option \<Rightarrow> nat \<times> dep_priority list \<Rightarrow> bool" where
  "child_counts g ig e = (dg_alive g ! fst e \<and> survives ig (snd e))"

definition child_nodes :: "digraph \<Rightarrow> nat \<Rightarrow> ignore option \<Rightarrow> nat list" where
  "child_nodes g i ig = map fst (filter (child_counts g ig) (dg_children g ! i))"

definition is_leaf :: "digraph \<Rightarrow> nat \<Rightarrow> ignore option \<Rightarrow> bool" where
  "is_leaf g i ig = (\<not> list_ex (child_counts g ig) (dg_children g ! i))"

definition has_parents :: "digraph \<Rightarrow> nat \<Rightarrow> bool" where
  "has_parents g i = list_ex (\<lambda>p. dg_alive g ! p) (dg_parents g ! i)"

definition leaf_nodes :: "digraph \<Rightarrow> ignore option \<Rightarrow> nat list" where
  "leaf_nodes g ig = filter (\<lambda>i. dg_alive g ! i \<and> is_leaf g i ig) (dg_order g)"

text \<open>The priority joins the edge when there is one; else the edge is new on both sides.\<close>

fun add_priority :: "nat \<Rightarrow> dep_priority \<Rightarrow> (nat \<times> dep_priority list) list \<Rightarrow>
    (nat \<times> dep_priority list) list option" where
  "add_priority child p [] = None"
| "add_priority child p ((c, prios) # es) =
     (if c = child then Some ((c, if p \<in> set prios then prios else prios @ [p]) # es)
      else map_option ((#) (c, prios)) (add_priority child p es))"

definition add_edge :: "nat \<Rightarrow> nat \<Rightarrow> dep_priority \<Rightarrow> digraph \<Rightarrow> digraph" where
  "add_edge parent child p g =
     (case add_priority child p (dg_children g ! parent) of
        Some es \<Rightarrow> g\<lparr> dg_children := (dg_children g)[parent := es] \<rparr>
      | None \<Rightarrow>
          g\<lparr> dg_children := (dg_children g)[parent := dg_children g ! parent @ [(child, [p])]],
             dg_parents := (dg_parents g)[child := dg_parents g ! child @ [parent]] \<rparr>)"

section \<open>The frontier\<close>

record frontier =
  fr_levels :: "ignore option list"
  fr_surv :: "32 word list list"
  fr_edge_mask :: "nat \<times> nat \<Rightarrow> 64 word option"
  fr_index :: "nat list"
  fr_by_index :: "nat list"
  fr_ready :: "nat list list"

text \<open>The walk over the set bits of a mask: \<open>m.trailing_zeros()\<close>, then \<open>m &= m - 1\<close>.\<close>

definition trailing_zeros :: "64 word \<Rightarrow> nat" where
  "trailing_zeros m = length (takeWhile (\<lambda>k. \<not> bit m k) [0..<64])"

lemma clear_lowest_less: "m \<noteq> 0 \<Longrightarrow> unat (m AND (m - 1)) < unat m" for m :: "64 word"
proof -
  assume "m \<noteq> 0"
  then have "unat (m - 1) = unat m - 1" "0 < unat m" by (simp_all add: unat_minus_one unat_gt_0)
  moreover have "unat (m AND (m - 1)) \<le> unat (m - 1)"
    by (simp add: word_and_le1 flip: word_le_nat_alt)
  ultimately show ?thesis by simp
qed

function mask_bits :: "64 word \<Rightarrow> nat list" where
  "mask_bits m = (if m = 0 then [] else trailing_zeros m # mask_bits (m AND (m - 1)))"
  by pat_completeness auto
termination
  by (relation "measure unat") (auto simp: clear_lowest_less)

declare mask_bits.simps [simp del]

definition build_levels :: "ignore option list" where
  "build_levels =
     fold (\<lambda>f levels. case f of
             None \<Rightarrow> levels
           | Some r \<Rightarrow> if Some r \<in> set levels then levels else levels @ [Some r])
       (pr_ignore NORMAL @ pr_ignore SATISFIED) [None]"

definition compute_mask :: "ignore option list \<Rightarrow> dep_priority list \<Rightarrow> 64 word" where
  "compute_mask levels prios =
     fold (\<lambda>l mask. if survives (levels ! l) prios then mask OR push_bit l 1 else mask)
       [1..<length levels] 1"

definition count_edge :: "ignore option list \<Rightarrow> nat \<Rightarrow> nat \<times> dep_priority list \<Rightarrow>
    (nat \<times> nat \<Rightarrow> 64 word option) \<times> 32 word list \<Rightarrow> (nat \<times> nat \<Rightarrow> 64 word option) \<times> 32 word list" where
  "count_edge levels node = (\<lambda>(child, prios) (edge_mask, row).
     let mask = compute_mask levels prios
     in (edge_mask((node, child) \<mapsto> mask),
         fold (\<lambda>l row. row[l := row ! l + 1]) (mask_bits mask) row))"

definition count_node :: "digraph \<Rightarrow> ignore option list \<Rightarrow> nat \<Rightarrow>
    (nat \<times> nat \<Rightarrow> 64 word option) \<times> 32 word list list \<Rightarrow>
    (nat \<times> nat \<Rightarrow> 64 word option) \<times> 32 word list list" where
  "count_node g levels node = (\<lambda>(edge_mask, surv).
     let (edge_mask, row) = fold (count_edge levels node) (dg_children g ! node) (edge_mask, surv ! node)
     in (edge_mask, surv[node := row]))"

text \<open>\<open>(pos, node)\<close> over the order: \<open>index[node] = pos\<close>, \<open>by_index[pos] = node\<close>.\<close>

definition frontier_build :: "digraph \<Rightarrow> frontier" where
  "frontier_build g =
     (let levels = build_levels;
          nlevels = length levels;
          n = dg_n g;
          index = fold (\<lambda>(pos, node) index. index[node := pos]) (enumerate 0 (dg_order g)) (replicate n 0);
          by_index = dg_order g;
          (edge_mask, surv) =
            fold (count_node g levels) (dg_order g) (Map.empty, replicate n (replicate nlevels 0));
          ready = map (\<lambda>l. map (\<lambda>node. index ! node)
                             (filter (\<lambda>node. surv ! node ! l = 0) (dg_order g))) [0..<nlevels]
      in \<lparr> fr_levels = levels, fr_surv = surv, fr_edge_mask = edge_mask, fr_index = index,
           fr_by_index = by_index, fr_ready = ready \<rparr>)"

fun position :: "('a \<Rightarrow> bool) \<Rightarrow> 'a list \<Rightarrow> nat option" where
  "position P [] = None"
| "position P (x # xs) = (if P x then Some 0 else map_option Suc (position P xs))"

definition level_of :: "frontier \<Rightarrow> ignore option \<Rightarrow> nat option" where
  "level_of fr ig = position (\<lambda>f. f = ig) (fr_levels fr)"

definition frontier_is_leaf :: "frontier \<Rightarrow> nat \<Rightarrow> nat \<Rightarrow> bool" where
  "frontier_is_leaf fr node level =
     (node < length (fr_surv fr) \<and> fr_surv fr ! node ! level = 0)"

fun pop_ready :: "frontier \<Rightarrow> nat \<Rightarrow> bool list \<Rightarrow> nat set \<Rightarrow> nat list \<Rightarrow> nat list" where
  "pop_ready fr level alive seen [] = []"
| "pop_ready fr level alive seen (idx # heap) =
     (if idx \<in> seen then pop_ready fr level alive seen heap
      else let seen = insert idx seen
           in if idx < length (fr_by_index fr)
              then let node = fr_by_index fr ! idx
                   in if node < length alive \<and> alive ! node \<and> frontier_is_leaf fr node level
                      then node # pop_ready fr level alive seen heap
                      else pop_ready fr level alive seen heap
              else pop_ready fr level alive seen heap)"

definition ready_nodes :: "nat \<Rightarrow> bool list \<Rightarrow> frontier \<Rightarrow> nat list \<times> frontier" where
  "ready_nodes level alive fr =
     (let result = pop_ready fr level alive {} (sort (fr_ready fr ! level))
      in (result,
          fr\<lparr> fr_ready := (fr_ready fr)[level := map (\<lambda>node. fr_index fr ! node) result] \<rparr>))"

definition saturating_dec :: "32 word \<Rightarrow> 32 word" where
  "saturating_dec c = (if c = 0 then 0 else c - 1)"

definition drop_level :: "nat \<Rightarrow> nat \<Rightarrow> frontier \<Rightarrow> frontier" where
  "drop_level parent l fr =
     (let count = saturating_dec (fr_surv fr ! parent ! l);
          fr = fr\<lparr> fr_surv := (fr_surv fr)[parent := (fr_surv fr ! parent)[l := count]] \<rparr>
      in if count = 0
         then fr\<lparr> fr_ready := (fr_ready fr)[l := fr_index fr ! parent # fr_ready fr ! l] \<rparr>
         else fr)"

definition drop_parent :: "nat \<Rightarrow> nat \<Rightarrow> frontier \<Rightarrow> frontier" where
  "drop_parent node parent fr =
     (case fr_edge_mask fr (parent, node) of
        None \<Rightarrow> fr
      | Some msk \<Rightarrow>
          let fr = fr\<lparr> fr_edge_mask := (fr_edge_mask fr)((parent, node) := None) \<rparr>
          in if parent < length (fr_surv fr) \<and> parent < length (fr_index fr)
             then fold (drop_level parent) (mask_bits msk) fr
             else fr)"

definition frontier_remove ::
  "nat \<Rightarrow> (nat \<times> dep_priority list) list \<Rightarrow> nat list \<Rightarrow> frontier \<Rightarrow> frontier" where
  "frontier_remove node children parents fr =
     (let fr = fold (drop_parent node) parents fr;
          fr = fold (\<lambda>(child, _) fr. fr\<lparr> fr_edge_mask := (fr_edge_mask fr)((node, child) := None) \<rparr>)
                 children fr
      in if node < length (fr_surv fr)
         then fr\<lparr> fr_surv := (fr_surv fr)[node := replicate (length (fr_surv fr ! node)) (- 1)] \<rparr>
         else fr)"

definition ensure_node :: "nat \<Rightarrow> frontier \<Rightarrow> frontier" where
  "ensure_node n fr =
     (if length (fr_surv fr) \<le> n
      then let idx = length (fr_by_index fr);
               index = take (n + 1) (fr_index fr @ replicate (n + 1 - length (fr_index fr)) 0)
           in fr\<lparr> fr_by_index := fr_by_index fr @ [n],
                  fr_index := index[n := idx],
                  fr_surv := fr_surv fr
                    @ replicate (n + 1 - length (fr_surv fr)) (replicate (length (fr_levels fr)) 0),
                  fr_ready := map ((#) idx) (fr_ready fr) \<rparr>
      else fr)"

definition frontier_add_edge :: "nat \<Rightarrow> nat option \<Rightarrow> dep_priority list \<Rightarrow> frontier \<Rightarrow> frontier" where
  "frontier_add_edge node parent priorities fr =
     (let fr = ensure_node node fr
      in case parent of
           None \<Rightarrow> fr
         | Some parent \<Rightarrow>
             let fr = ensure_node parent fr;
                 new_mask = compute_mask (fr_levels fr) priorities;
                 old_mask = (case fr_edge_mask fr (parent, node) of None \<Rightarrow> 0 | Some m \<Rightarrow> m)
             in if new_mask = old_mask then fr
                else let fr = fr\<lparr> fr_edge_mask := (fr_edge_mask fr)((parent, node) \<mapsto> new_mask) \<rparr>
                     in fr\<lparr> fr_surv := (fr_surv fr)[parent :=
                              fold (\<lambda>l row. row[l := row ! l + 1])
                                (mask_bits (new_mask AND NOT old_mask)) (fr_surv fr ! parent)] \<rparr>)"

section \<open>Queries with or without the frontier\<close>

text \<open>\<open>None\<close> is \<open>PORTAGE_SERIALIZE_FRONTIER_DISABLE\<close>.\<close>

definition leaves_via :: "digraph \<Rightarrow> ignore option \<Rightarrow> frontier option \<Rightarrow> nat list \<times> frontier option" where
  "leaves_via g ig fro =
     (case fro of
        None \<Rightarrow> (leaf_nodes g ig, None)
      | Some fr \<Rightarrow>
          (case level_of fr ig of
             None \<Rightarrow> (leaf_nodes g ig, Some fr)
           | Some level \<Rightarrow>
               let (nodes, fr) = ready_nodes level (dg_alive g) fr
               in (filter (\<lambda>i. dg_alive g ! i) nodes, Some fr)))"

definition is_leaf_via :: "frontier option \<Rightarrow> digraph \<Rightarrow> nat \<Rightarrow> ignore option \<Rightarrow> bool" where
  "is_leaf_via fro g node ig =
     (case fro of
        None \<Rightarrow> is_leaf g node ig
      | Some fr \<Rightarrow>
          (case level_of fr ig of
             None \<Rightarrow> is_leaf g node ig
           | Some level \<Rightarrow> frontier_is_leaf fr node level))"

section \<open>Masks\<close>

lemma trailing_zeros_bit:
  assumes "m \<noteq> 0"
  shows "bit m (trailing_zeros m)" "k < trailing_zeros m \<Longrightarrow> \<not> bit m k" "trailing_zeros m < 64"
proof -
  obtain j where "bit m j" using assms by (metis bit_eq_iff bit_0_eq bot_apply bot_bool_def)
  then have "j < 64" "bit m j" using bit_imp_le_length [of m j] by auto
  then have ex: "\<exists>x \<in> set [0..<64]. bit m x" by auto
  let ?t = "takeWhile (\<lambda>k. \<not> bit m k) [0..<64]"
  have l: "length ?t < length [0..<64]"
  proof (rule ccontr)
    assume "\<not> length ?t < length [0..<64]"
    then have "?t = [0..<64]" by (metis length_takeWhile_le le_neq_implies_less takeWhile_eq_take take_all_iff)
    then show False using ex by (metis set_takeWhileD)
  qed
  then show "trailing_zeros m < 64" by (simp add: trailing_zeros_def)
  show "bit m (trailing_zeros m)"
    using nth_length_takeWhile [OF l] l by (simp add: trailing_zeros_def)
  show "\<not> bit m k" if "k < trailing_zeros m"
  proof -
    have "?t ! k = [0..<64] ! k" using that by (simp add: takeWhile_nth trailing_zeros_def)
    then have "k \<in> set ?t" using that l by (metis add_0 length_upt diff_zero less_trans nth_mem nth_upt trailing_zeros_def)
    then show ?thesis by (metis set_takeWhileD)
  qed
qed

lemma clear_lowest:
  fixes m :: "64 word"
  assumes "m \<noteq> 0"
  shows "bit (m AND (m - 1)) k \<longleftrightarrow> bit m k \<and> k \<noteq> trailing_zeros m"
proof -
  define t where "t = trailing_zeros m"
  define r where "r = unset_bit t m"
  note tz = trailing_zeros_bit [OF assms, folded t_def]
  have "m = r OR push_bit t 1"
    using tz by (auto intro!: bit_word_eqI simp: r_def bit_simps)
  also have "\<dots> = r + push_bit t 1"
    by (rule sym, rule disjunctive_add_eq_or) (auto intro!: bit_word_eqI simp: r_def bit_simps)
  finally have m: "m = r + push_bit t 1" .
  have "m - 1 = r + mask t" unfolding m by (simp add: mask_eq_exp_minus_1 push_bit_eq_mult)
  also have "\<dots> = r OR mask t"
    using tz by (intro disjunctive_add_eq_or) (auto intro!: bit_word_eqI simp: r_def bit_simps)
  finally have "m - 1 = r OR mask t" .
  then show ?thesis using tz unfolding t_def [symmetric] by (auto simp: r_def bit_simps)
qed

lemma mask_bits_set: "set (mask_bits m) = {k. bit m k} \<and> distinct (mask_bits m)"
proof (induction m rule: mask_bits.induct)
  case (1 m)
  show ?case
  proof (cases "m = 0")
    case False
    then show ?thesis
      using 1 trailing_zeros_bit(1) [OF False]
      by (subst (1 2) mask_bits.simps) (auto simp: clear_lowest)
  qed (simp add: mask_bits.simps)
qed

lemma build_levels_eq:
  "build_levels = [None, Some NOptional, Some NRuntimePost, Some NRuntime, Some SOptional,
     Some SSatisfiedRuntimePost, Some SRuntimePost, Some SSatisfiedRuntime, Some SSatisfiedBuildtime,
     Some SSatisfiedBuildtimeSlotOp, Some SRuntime]"
  by (simp add: build_levels_def NORMAL_def SATISFIED_def)

lemma compute_mask_fold:
  "bit (fold (\<lambda>l mask. if Q l then mask OR push_bit l 1 else mask) ls (a::64 word)) k \<longleftrightarrow>
     bit a k \<or> k < 64 \<and> k \<in> set ls \<and> Q k"
  by (induction ls arbitrary: a) (auto simp: bit_simps)

lemma compute_mask_bit:
  "levels \<noteq> [] \<Longrightarrow> levels ! 0 = None \<Longrightarrow> length levels \<le> 64 \<Longrightarrow>
     bit (compute_mask levels prios) l \<longleftrightarrow> l < length levels \<and> survives (levels ! l) prios"
  by (cases "l = 0") (auto simp: compute_mask_def compute_mask_fold bit_1_iff)


section \<open>The representation invariant\<close>

definition graph_ok :: "digraph \<Rightarrow> bool" where
  "graph_ok g \<longleftrightarrow>
     length (dg_children g) = dg_n g \<and> length (dg_parents g) = dg_n g \<and>
     length (dg_installed g) = dg_n g \<and> length (dg_alive g) = dg_n g \<and>
     distinct (dg_order g) \<and> set (dg_order g) \<subseteq> {..<dg_n g} \<and>
     (\<forall>i < dg_n g. dg_alive g ! i \<longrightarrow> i \<in> set (dg_order g)) \<and>
     (\<forall>i < dg_n g. distinct (map fst (dg_children g ! i)) \<and>
        fst ` set (dg_children g ! i) \<subseteq> {..<dg_n g}) \<and>
     (\<forall>i < dg_n g. distinct (dg_parents g ! i) \<and>
        set (dg_parents g ! i) = {p. p < dg_n g \<and> i \<in> fst ` set (dg_children g ! p)})"

text \<open>No alive node has a dead child: what the nomerge-root prune leaves.\<close>

definition alive_closed :: "digraph \<Rightarrow> bool" where
  "alive_closed g \<longleftrightarrow>
     (\<forall>i < dg_n g. dg_alive g ! i \<longrightarrow> (\<forall>c \<in> fst ` set (dg_children g ! i). dg_alive g ! c))"

end
