(* ===== verification/Frontier.thy ===== *)
theory Frontier
  imports Digraph
begin

text \<open>
  The frontier is plumbing: as long as \<open>frontier_ok\<close> relates it to the graph, its answers are those
  of the plain scans. The invariant holds after the build and is kept by the removal of a node and
  by the queries.
\<close>

section \<open>Counting rows\<close>

lemma bump_row:
  assumes "distinct ls" "set ls \<subseteq> {..<length row}"
  shows "length (fold (\<lambda>l row. row[l := row ! l + 1]) ls row) = length row \<and>
    (\<forall>k < length row. fold (\<lambda>l row. row[l := row ! l + (1 :: 32 word)]) ls row ! k =
       row ! k + (if k \<in> set ls then 1 else 0))"
  using assms
proof (induction ls arbitrary: row)
  case (Cons l ls)
  have "fold (\<lambda>l row. row[l := row ! l + 1]) ls (row[l := row ! l + 1]) ! k =
      row[l := row ! l + 1] ! k + (if k \<in> set ls then 1 else 0)" if "k < length row" for k
    using Cons.IH [of "row[l := row ! l + 1]"] Cons.prems that by auto
  moreover have "length (fold (\<lambda>l row. row[l := row ! l + 1]) ls (row[l := row ! l + 1])) = length row"
    using Cons.IH [of "row[l := row ! l + 1]"] Cons.prems by auto
  ultimately show ?case using Cons.prems by (auto simp: nth_list_update)
qed simp

definition levels_ok :: "ignore option list \<Rightarrow> bool" where
  "levels_ok levels \<longleftrightarrow> levels \<noteq> [] \<and> levels ! 0 = None \<and> length levels \<le> 64"

lemma build_levels_ok [simp]: "levels_ok build_levels"
  by (simp add: levels_ok_def build_levels_eq)

lemma mask_bits_distinct: "distinct (mask_bits m)"
  using mask_bits_set by blast

lemma mask_levels:
  assumes "levels_ok levels"
  shows "set (mask_bits (compute_mask levels prios)) = {l. l < length levels \<and> survives (levels ! l) prios}"
  using assms mask_bits_set compute_mask_bit by (auto simp: levels_ok_def)

abbreviation edge_counts :: "ignore option \<Rightarrow> (nat \<times> dep_priority list) list \<Rightarrow> nat" where
  "edge_counts ig es \<equiv> length (filter (\<lambda>e. survives ig (snd e)) es)"

lemma count_edges:
  assumes "levels_ok levels" "length row = length levels" "distinct (map fst es)"
    and "fold (count_edge levels node) es (em, row) = (em', row')"
  shows "length row' = length levels \<and>
    (\<forall>l < length levels. row' ! l = row ! l + of_nat (edge_counts (levels ! l) es)) \<and>
    em' = (\<lambda>(p, c). if p = node \<and> c \<in> fst ` set es
                    then map_option (compute_mask levels) (map_of es c) else em (p, c))"
  using assms(2-)
proof (induction es arbitrary: em row)
  case Nil
  then show ?case by auto
next
  case (Cons e es)
  obtain c prios where e: "e = (c, prios)" by (cases e)
  let ?m = "compute_mask levels prios"
  let ?row = "fold (\<lambda>l row. row[l := row ! l + 1]) (mask_bits ?m) row"
  have ml: "set (mask_bits ?m) = {l. l < length levels \<and> survives (levels ! l) prios}"
    by (rule mask_levels) fact
  have sub: "set (mask_bits ?m) \<subseteq> {..<length row}" using ml Cons.prems(1) by auto
  have row: "length ?row = length levels"
      "\<And>k. k < length levels \<Longrightarrow> ?row ! k = row ! k + (if survives (levels ! k) prios then 1 else 0)"
    using bump_row [OF mask_bits_distinct sub] ml Cons.prems(1) by auto
  have "fold (count_edge levels node) es (em((node, c) \<mapsto> ?m), ?row) = (em', row')"
    using Cons.prems(3) by (simp add: e count_edge_def Let_def)
  from Cons.IH [OF row(1) _ this] Cons.prems(2)
  show ?case
    using row(2) by (auto simp: e fun_eq_iff)
qed

lemma index_fold:
  assumes "distinct order" "set order \<subseteq> {..<length ix}"
  shows "length (fold (\<lambda>(pos, node) index. index[node := pos]) (enumerate k order) ix) = length ix \<and>
    (\<forall>v. v \<notin> set order \<longrightarrow>
       fold (\<lambda>(pos, node) index. index[node := pos]) (enumerate k order) ix ! v = ix ! v) \<and>
    (\<forall>i < length order.
       fold (\<lambda>(pos, node) index. index[node := pos]) (enumerate k order) ix ! (order ! i) = k + i)"
  using assms
proof (induction order arbitrary: k ix)
  case (Cons v vs)
  show ?case using Cons.IH [of "ix[v := k]" "Suc k"] Cons.prems
    by (auto simp: nth_Cons' less_Suc_eq_0_disj)
qed simp

section \<open>The invariant\<close>

definition node_count :: "digraph \<Rightarrow> ignore option \<Rightarrow> nat \<Rightarrow> nat" where
  "node_count g ig v = length (filter (child_counts g ig) (dg_children g ! v))"

lemma is_leaf_count: "is_leaf g v ig \<longleftrightarrow> node_count g ig v = 0"
  by (auto simp: is_leaf_def node_count_def list_ex_iff filter_empty_conv)

definition frontier_shape :: "frontier \<Rightarrow> digraph \<Rightarrow> bool" where
  "frontier_shape fr g \<longleftrightarrow>
     fr_levels fr = build_levels \<and> length (fr_surv fr) = dg_n g \<and>
     (\<forall>v < dg_n g. length (fr_surv fr ! v) = length build_levels) \<and>
     length (fr_index fr) = dg_n g \<and> length (fr_ready fr) = length build_levels \<and>
     set (fr_by_index fr) \<subseteq> {..<dg_n g} \<and>
     (\<forall>i < length (fr_by_index fr). fr_index fr ! (fr_by_index fr ! i) = i) \<and>
     filter ((!) (dg_alive g)) (dg_order g) = filter ((!) (dg_alive g)) (fr_by_index fr)"

definition frontier_ok :: "frontier \<Rightarrow> digraph \<Rightarrow> bool" where
  "frontier_ok fr g \<longleftrightarrow> frontier_shape fr g \<and>
     (\<forall>v < dg_n g. dg_alive g ! v \<longrightarrow> (\<forall>l < length build_levels.
        unat (fr_surv fr ! v ! l) = node_count g (build_levels ! l) v \<and>
        (is_leaf g v (build_levels ! l) \<longrightarrow> fr_index fr ! v \<in> set (fr_ready fr ! l)))) \<and>
     (\<forall>p < dg_n g. \<forall>c < dg_n g. fr_edge_mask fr (p, c) =
        (if dg_alive g ! p \<and> dg_alive g ! c
         then map_option (compute_mask build_levels) (map_of (dg_children g ! p) c) else None))"


lemma graph_okD:
  assumes "graph_ok g" "v < dg_n g"
  shows "distinct (map fst (dg_children g ! v))" "fst ` set (dg_children g ! v) \<subseteq> {..<dg_n g}"
    "distinct (dg_parents g ! v)"
    "set (dg_parents g ! v) = {p. p < dg_n g \<and> v \<in> fst ` set (dg_children g ! p)}"
    "length (dg_alive g) = dg_n g" "distinct (dg_order g)" "set (dg_order g) \<subseteq> {..<dg_n g}"
    "dg_alive g ! v \<Longrightarrow> v \<in> set (dg_order g)"
  using assms by (auto simp: graph_ok_def)

lemma children_bound:
  assumes "graph_ok g" "v < dg_n g"
  shows "length (dg_children g ! v) \<le> dg_n g"
proof -
  have "length (dg_children g ! v) = card (fst ` set (dg_children g ! v))"
    using graph_okD(1) [OF assms] by (metis distinct_card length_map set_map)
  also have "\<dots> \<le> card {..<dg_n g}"
    by (intro card_mono) (use graph_okD(2) [OF assms] in auto)
  finally show ?thesis by simp
qed

lemma count_nodes:
  assumes lv: "levels_ok levels" and g: "graph_ok g"
    and vs: "distinct vs" "set vs \<subseteq> {..<dg_n g}"
    and surv: "length surv = dg_n g" "\<forall>v < dg_n g. length (surv ! v) = length levels"
    and f: "fold (count_node g levels) vs (em, surv) = (em', surv')"
  shows "length surv' = dg_n g \<and> (\<forall>v < dg_n g. length (surv' ! v) = length levels) \<and>
    (\<forall>v < dg_n g. \<forall>l < length levels. surv' ! v ! l =
       surv ! v ! l + (if v \<in> set vs then of_nat (edge_counts (levels ! l) (dg_children g ! v)) else 0)) \<and>
    em' = (\<lambda>(p, c). if p \<in> set vs \<and> c \<in> fst ` set (dg_children g ! p)
                    then map_option (compute_mask levels) (map_of (dg_children g ! p) c) else em (p, c))"
  using vs surv f
proof (induction vs arbitrary: em surv)
  case Nil
  then show ?case by auto
next
  case (Cons v vs)
  obtain em1 row where r: "fold (count_edge levels v) (dg_children g ! v) (em, surv ! v) = (em1, row)"
    by fastforce
  have v: "v < dg_n g" using Cons.prems by simp
  note ce = count_edges [OF lv _ graph_okD(1) [OF g v] r]
  have step: "count_node g levels v (em, surv) = (em1, surv[v := row])"
    by (simp add: count_node_def r)
  have f: "fold (count_node g levels) vs (em1, surv[v := row]) = (em', surv')"
    using Cons.prems(5) step by simp
  have row: "length row = length levels" using ce Cons.prems(4) v by simp
  show ?case
    using Cons.IH [OF _ _ _ _ f] Cons.prems ce row
    by (auto simp: nth_list_update fun_eq_iff)
qed

lemma build_index:
  assumes "graph_ok g" "i < length (dg_order g)"
  shows "fold (\<lambda>(pos, node) index. index[node := pos]) (enumerate 0 (dg_order g))
           (replicate (dg_n g) 0) ! (dg_order g ! i) = i"
    "length (fold (\<lambda>(pos, node) index. index[node := pos]) (enumerate 0 (dg_order g))
           (replicate (dg_n g) 0)) = dg_n g"
  using index_fold [of "dg_order g" "replicate (dg_n g) 0" 0] assms by (auto simp: graph_ok_def)

lemma frontier_build_ok:
  assumes g: "graph_ok g" and closed: "alive_closed g" and n: "dg_n g < 2 ^ 32"
    and alive: "\<forall>i \<in> set (dg_order g). dg_alive g ! i"
  shows "frontier_ok (frontier_build g) g"
proof -
  obtain em surv where f: "fold (count_node g build_levels) (dg_order g)
      (Map.empty, replicate (dg_n g) (replicate (length build_levels) 0)) = (em, surv)"
    by fastforce
  note cn = count_nodes [OF build_levels_ok g _ _ _ _ f]
  have ord: "distinct (dg_order g)" "set (dg_order g) \<subseteq> {..<dg_n g}"
      "\<And>i. i < dg_n g \<Longrightarrow> dg_alive g ! i \<longleftrightarrow> i \<in> set (dg_order g)"
    using g alive by (auto simp: graph_ok_def)
  have count: "node_count g ig v = edge_counts ig (dg_children g ! v)"
    if "v < dg_n g" "dg_alive g ! v" for v ig
    unfolding node_count_def child_counts_def
    using closed that by (intro arg_cong [of _ _ length] filter_cong) (auto simp: alive_closed_def)
  have surv: "length surv = dg_n g" "\<And>v. v < dg_n g \<Longrightarrow> length (surv ! v) = length build_levels"
    using cn ord by simp_all
  have unat: "unat (surv ! v ! l) = node_count g (build_levels ! l) v"
    if "v < dg_n g" "dg_alive g ! v" "l < length build_levels" for v l
  proof -
    have "surv ! v ! l = of_nat (node_count g (build_levels ! l) v)"
      using cn ord that count by simp
    moreover have "node_count g (build_levels ! l) v < 2 ^ 32"
      using children_bound [OF g that(1)] n
      by (metis length_filter_le node_count_def le_trans le_less_trans)
    ultimately show ?thesis by (simp add: unat_of_nat)
  qed
  let ?ix = "fold (\<lambda>(pos, node) index. index[node := pos]) (enumerate 0 (dg_order g))
           (replicate (dg_n g) 0)"
  let ?ready = "map (\<lambda>l. map (\<lambda>node. ?ix ! node)
      (filter (\<lambda>node. surv ! node ! l = 0) (dg_order g))) [0..<length build_levels]"
  have b: "frontier_build g = \<lparr> fr_levels = build_levels, fr_surv = surv, fr_edge_mask = em,
      fr_index = ?ix, fr_by_index = dg_order g, fr_ready = ?ready \<rparr>"
    by (simp add: frontier_build_def Let_def f)
  have "frontier_shape (frontier_build g) g"
    unfolding frontier_shape_def b
    using surv ord build_index [OF g] index_fold [of "dg_order g" "replicate (dg_n g) 0" 0] by simp
  moreover have "?ix ! v \<in> set (?ready ! l)"
    if "v < dg_n g" "dg_alive g ! v" "l < length build_levels" "is_leaf g v (build_levels ! l)" for v l
  proof -
    have "surv ! v ! l = 0" using unat [OF that(1,2,3)] that(4) by (simp add: is_leaf_count unat_eq_0)
    then show ?thesis using that ord by auto
  qed
  moreover have "em (p, c) =
        (if dg_alive g ! p \<and> dg_alive g ! c
         then map_option (compute_mask build_levels) (map_of (dg_children g ! p) c) else None)"
    if "p < dg_n g" "c < dg_n g" for p c
  proof -
    have "map_of (dg_children g ! p) c = None" if "c \<notin> fst ` set (dg_children g ! p)"
      using that by (simp add: map_of_eq_None_iff)
    moreover have "dg_alive g ! c" if "dg_alive g ! p" "c \<in> fst ` set (dg_children g ! p)"
      using closed that \<open>p < dg_n g\<close> by (auto simp: alive_closed_def)
    ultimately show ?thesis using cn ord that by (auto simp: fun_eq_iff)
  qed
  ultimately show ?thesis
    unfolding frontier_ok_def using unat by (simp add: b)
qed

section \<open>The queries\<close>

lemma position_nth: "distinct xs \<Longrightarrow> i < length xs \<Longrightarrow> position (\<lambda>f. f = xs ! i) xs = Some i"
  by (induction xs arbitrary: i) (auto simp: nth_Cons split: nat.splits)

lemma position_Some: "position P xs = Some i \<Longrightarrow> i < length xs \<and> P (xs ! i)"
  by (induction xs arbitrary: i) (auto split: if_splits)

text \<open>Popping the sorted heap keeps the alive leaves, each once.\<close>

fun pops :: "nat set \<Rightarrow> nat list \<Rightarrow> nat list" where
  "pops seen [] = []"
| "pops seen (i # heap) = (if i \<in> seen then pops seen heap else i # pops (insert i seen) heap)"

lemma pops_sorted:
  "sorted heap \<Longrightarrow> sorted (pops seen heap) \<and> distinct (pops seen heap) \<and> set (pops seen heap) = set heap - seen"
  by (induction heap arbitrary: seen) auto

definition pop_keeps :: "frontier \<Rightarrow> nat \<Rightarrow> bool list \<Rightarrow> nat \<Rightarrow> bool" where
  "pop_keeps fr level alive idx \<longleftrightarrow>
     idx < length (fr_by_index fr) \<and> fr_by_index fr ! idx < length alive \<and>
     alive ! (fr_by_index fr ! idx) \<and> frontier_is_leaf fr (fr_by_index fr ! idx) level"

lemma pop_ready_eq:
  "pop_ready fr level alive seen heap =
     map ((!) (fr_by_index fr)) (filter (pop_keeps fr level alive) (pops seen heap))"
  by (induction heap arbitrary: seen) (auto simp: Let_def pop_keeps_def)

lemma filter_nth: "filter P xs = map ((!) xs) (filter (\<lambda>i. P (xs ! i)) [0..<length xs])"
  by (metis (mono_tags, lifting) comp_apply filter_cong filter_map map_nth)

lemma pop_ready_filter:
  assumes "\<And>idx. pop_keeps fr level alive idx \<Longrightarrow> idx \<in> set heap"
    and "set (fr_by_index fr) \<subseteq> {..<length alive}"
  shows "pop_ready fr level alive {} (sort heap) =
     filter (\<lambda>v. alive ! v \<and> frontier_is_leaf fr v level) (fr_by_index fr)"
proof -
  let ?P = "pop_keeps fr level alive"
  let ?Q = "\<lambda>i. alive ! (fr_by_index fr ! i) \<and> frontier_is_leaf fr (fr_by_index fr ! i) level"
  have "filter ?P (pops {} (sort heap)) = filter ?Q [0..<length (fr_by_index fr)]"
  proof (rule sorted_distinct_set_unique)
    show "set (filter ?P (pops {} (sort heap))) = set (filter ?Q [0..<length (fr_by_index fr)])"
      using pops_sorted [OF sorted_sort, of "{}" heap] assms by (auto simp: pop_keeps_def subset_eq)
  qed (use pops_sorted [OF sorted_sort, of "{}" heap] in \<open>auto intro: sorted_filter [of id, simplified]\<close>)
  then show ?thesis
    by (simp add: pop_ready_eq filter_nth [of _ "fr_by_index fr"])
qed

lemma frontier_leaf:
  assumes "frontier_ok fr g" "v < dg_n g" "dg_alive g ! v" "l < length build_levels"
  shows "frontier_is_leaf fr v l \<longleftrightarrow> is_leaf g v (build_levels ! l)"
proof -
  have "unat (fr_surv fr ! v ! l) = node_count g (build_levels ! l) v" "length (fr_surv fr) = dg_n g"
    using assms by (auto simp: frontier_ok_def frontier_shape_def)
  then show ?thesis
    using assms(2) by (simp add: frontier_is_leaf_def is_leaf_count flip: unat_eq_0)
qed

lemma ready_nodes_eq:
  assumes g: "graph_ok g" and fr: "frontier_ok fr g" and l: "l < length build_levels"
    and r: "ready_nodes l (dg_alive g) fr = (nodes, fr')"
  shows "nodes = leaf_nodes g (build_levels ! l)" "frontier_ok fr' g"
proof -
  have sh: "frontier_shape fr g" using fr by (simp add: frontier_ok_def)
  have len: "length (dg_alive g) = dg_n g" using g by (simp add: graph_ok_def)
  have bi: "fr_by_index fr ! i < dg_n g" if "i < length (fr_by_index fr)" for i
    using that sh nth_mem by (fastforce simp: frontier_shape_def)
  have keeps: "idx \<in> set (fr_ready fr ! l)" if "pop_keeps fr l (dg_alive g) idx" for idx
  proof -
    let ?v = "fr_by_index fr ! idx"
    have v: "idx < length (fr_by_index fr)" "dg_alive g ! ?v" "frontier_is_leaf fr ?v l"
      using that by (auto simp: pop_keeps_def)
    then have "is_leaf g ?v (build_levels ! l)" using frontier_leaf [OF fr bi _ l] by simp
    then have "fr_index fr ! ?v \<in> set (fr_ready fr ! l)"
      using fr v bi l by (simp add: frontier_ok_def)
    then show ?thesis using sh v(1) by (simp add: frontier_shape_def)
  qed
  have "nodes = filter (\<lambda>v. dg_alive g ! v \<and> frontier_is_leaf fr v l) (fr_by_index fr)"
    using r pop_ready_filter [OF keeps] sh len by (auto simp: ready_nodes_def Let_def frontier_shape_def)
  also have "\<dots> = filter (\<lambda>v. dg_alive g ! v \<and> is_leaf g v (build_levels ! l)) (fr_by_index fr)"
    using frontier_leaf [OF fr _ _ l] sh by (intro filter_cong) (auto simp: frontier_shape_def)
  also have "\<dots> = filter (\<lambda>v. is_leaf g v (build_levels ! l)) (filter ((!) (dg_alive g)) (fr_by_index fr))"
    by (simp add: conj_commute)
  also have "\<dots> = leaf_nodes g (build_levels ! l)"
    using sh by (simp add: frontier_shape_def leaf_nodes_def conj_commute flip: filter_filter)
  finally show nodes: "nodes = leaf_nodes g (build_levels ! l)" .
  have fr': "fr' = fr\<lparr> fr_ready := (fr_ready fr)[l := map ((!) (fr_index fr)) nodes] \<rparr>"
    using r by (auto simp: ready_nodes_def Let_def)
  have "v \<in> set nodes" if "v < dg_n g" "dg_alive g ! v" "is_leaf g v (build_levels ! l)" for v
    using that g by (auto simp: nodes leaf_nodes_def graph_ok_def)
  then show "frontier_ok fr' g"
    using fr l unfolding frontier_ok_def fr' frontier_shape_def
    by (auto simp: nth_list_update)
qed


section \<open>Removing a node\<close>

text \<open>The fields a removal does not write.\<close>

definition frame_eq :: "frontier \<Rightarrow> frontier \<Rightarrow> bool" where
  "frame_eq fr fr' \<longleftrightarrow>
     fr_levels fr' = fr_levels fr \<and> fr_index fr' = fr_index fr \<and> fr_by_index fr' = fr_by_index fr \<and>
     length (fr_surv fr') = length (fr_surv fr) \<and>
     (\<forall>v. length (fr_surv fr' ! v) = length (fr_surv fr ! v)) \<and>
     length (fr_ready fr') = length (fr_ready fr) \<and>
     (\<forall>l. set (fr_ready fr ! l) \<subseteq> set (fr_ready fr' ! l))"

lemma frame_eq_refl [simp]: "frame_eq fr fr"
  by (simp add: frame_eq_def)

lemma frame_eq_trans: "frame_eq a b \<Longrightarrow> frame_eq b c \<Longrightarrow> frame_eq a c"
  unfolding frame_eq_def by (metis subset_trans)

lemma nth_upd: "xs[i := x] ! j = (if i = j \<and> i < length xs then x else xs ! j)"
  by (cases "i < length xs") (auto simp: nth_list_update list_update_beyond)

lemma frame_eq_drop_level: "frame_eq fr (drop_level p l fr)"
  by (auto simp: frame_eq_def drop_level_def Let_def nth_upd)

lemma drop_level_surv:
  "p < length (fr_surv fr) \<Longrightarrow> l < length (fr_surv fr ! p) \<Longrightarrow>
     fr_surv (drop_level p l fr) ! v ! k =
       (if v = p \<and> k = l then saturating_dec (fr_surv fr ! v ! k) else fr_surv fr ! v ! k)"
  by (auto simp: drop_level_def Let_def nth_list_update)

lemma drop_level_mask [simp]: "fr_edge_mask (drop_level p l fr) = fr_edge_mask fr"
  by (simp add: drop_level_def Let_def)

lemma drop_level_ready:
  "p < length (fr_surv fr) \<Longrightarrow> l < length (fr_ready fr) \<Longrightarrow> saturating_dec (fr_surv fr ! p ! l) = 0 \<Longrightarrow>
     fr_index fr ! p \<in> set (fr_ready (drop_level p l fr) ! l)"
  by (auto simp: drop_level_def Let_def)

lemma drop_levels:
  assumes "distinct ls" "set ls \<subseteq> {..<length (fr_surv fr ! p)}" "p < length (fr_surv fr)"
    and "set ls \<subseteq> {..<length (fr_ready fr)}"
  shows "frame_eq fr (fold (drop_level p) ls fr) \<and>
    fr_edge_mask (fold (drop_level p) ls fr) = fr_edge_mask fr \<and>
    (\<forall>v k. fr_surv (fold (drop_level p) ls fr) ! v ! k =
       (if v = p \<and> k \<in> set ls then saturating_dec (fr_surv fr ! v ! k) else fr_surv fr ! v ! k)) \<and>
    (\<forall>l \<in> set ls. saturating_dec (fr_surv fr ! p ! l) = 0 \<longrightarrow>
       fr_index fr ! p \<in> set (fr_ready (fold (drop_level p) ls fr) ! l))"
  using assms
proof (induction ls arbitrary: fr)
  case (Cons l ls)
  let ?fr = "drop_level p l fr"
  have fe: "frame_eq fr ?fr" by (rule frame_eq_drop_level)
  have s: "fr_surv ?fr ! v ! k =
       (if v = p \<and> k = l then saturating_dec (fr_surv fr ! v ! k) else fr_surv fr ! v ! k)" for v k
    using Cons.prems by (intro drop_level_surv) auto
  have "saturating_dec (fr_surv fr ! p ! l) = 0 \<Longrightarrow> fr_index fr ! p \<in> set (fr_ready ?fr ! l)"
    using Cons.prems by (intro drop_level_ready) auto
  moreover have "distinct ls" "set ls \<subseteq> {..<length (fr_surv ?fr ! p)}" "p < length (fr_surv ?fr)"
      "set ls \<subseteq> {..<length (fr_ready ?fr)}" "l \<notin> set ls"
    using Cons.prems fe by (auto simp: frame_eq_def)
  moreover note IH = Cons.IH [OF this(1-4)]
  moreover have "frame_eq fr (fold (drop_level p) ls ?fr)"
    using IH frame_eq_trans [OF fe] by simp
  moreover have "set (fr_ready ?fr ! l) \<subseteq> set (fr_ready (fold (drop_level p) ls ?fr) ! l)"
      "fr_index ?fr = fr_index fr"
    using IH fe by (auto simp: frame_eq_def)
  moreover have "fr_index fr ! p \<in> set (fr_ready (fold (drop_level p) ls ?fr) ! k)"
    if "k \<in> set ls" "saturating_dec (fr_surv fr ! p ! k) = 0" for k
  proof -
    have "fr_surv ?fr ! p ! k = fr_surv fr ! p ! k" using that(1) \<open>l \<notin> set ls\<close> s by auto
    then show ?thesis using IH that \<open>fr_index ?fr = fr_index fr\<close> by simp
  qed
  ultimately show ?case using s by auto
qed simp

text \<open>The bits of a mask stay within the levels.\<close>

definition mask_ok :: "frontier \<Rightarrow> 64 word \<Rightarrow> bool" where
  "mask_ok fr m \<longleftrightarrow> (\<forall>l. bit m l \<longrightarrow> l < length build_levels)"

definition hit :: "frontier \<Rightarrow> nat \<Rightarrow> nat set \<Rightarrow> nat \<Rightarrow> nat \<Rightarrow> bool" where
  "hit fr node ps v l \<longleftrightarrow> v \<in> ps \<and> (\<exists>m. fr_edge_mask fr (v, node) = Some m \<and> bit m l)"

definition sized :: "frontier \<Rightarrow> nat \<Rightarrow> bool" where
  "sized fr n \<longleftrightarrow> length (fr_surv fr) = n \<and> (\<forall>v < n. length (fr_surv fr ! v) = length build_levels) \<and>
     length (fr_index fr) = n \<and> length (fr_ready fr) = length build_levels"

lemma sized_frame: "sized fr n \<Longrightarrow> frame_eq fr fr' \<Longrightarrow> sized fr' n"
  by (simp add: sized_def frame_eq_def)

lemma drop_parent:
  assumes "sized fr n" "p < n" "\<And>m. fr_edge_mask fr (p, node) = Some m \<Longrightarrow> mask_ok fr m"
  shows "frame_eq fr (drop_parent node p fr) \<and>
    fr_edge_mask (drop_parent node p fr) = (fr_edge_mask fr)((p, node) := None) \<and>
    (\<forall>v k. fr_surv (drop_parent node p fr) ! v ! k =
       (if hit fr node {p} v k then saturating_dec (fr_surv fr ! v ! k) else fr_surv fr ! v ! k)) \<and>
    (\<forall>v l. hit fr node {p} v l \<and> saturating_dec (fr_surv fr ! v ! l) = 0 \<longrightarrow>
       fr_index fr ! v \<in> set (fr_ready (drop_parent node p fr) ! l))"
proof (cases "fr_edge_mask fr (p, node)")
  case None
  then show ?thesis by (auto simp: drop_parent_def hit_def fun_eq_iff)
next
  case (Some m)
  let ?fr = "fr\<lparr> fr_edge_mask := (fr_edge_mask fr)((p, node) := None) \<rparr>"
  have "mask_ok fr m" by (rule assms(3)) fact
  then have sub: "set (mask_bits m) \<subseteq> {..<length build_levels}"
    using mask_bits_set [of m] by (auto simp: mask_ok_def)
  have "frame_eq fr ?fr" by (simp add: frame_eq_def)
  moreover have "drop_parent node p fr = fold (drop_level p) (mask_bits m) ?fr"
    using Some assms(1,2) by (simp add: drop_parent_def sized_def)
  moreover note drop_levels [OF mask_bits_distinct, of m ?fr p]
  moreover have "k \<in> set (mask_bits m) \<longleftrightarrow> bit m k" for k using mask_bits_set [of m] by auto
  ultimately show ?thesis
    using sub assms(1,2) Some by (auto simp: sized_def hit_def intro: frame_eq_trans)
qed

lemma drop_parents:
  assumes "sized fr n" "distinct ps" "set ps \<subseteq> {..<n}"
    and "\<forall>p \<in> set ps. \<forall>m. fr_edge_mask fr (p, node) = Some m \<longrightarrow> mask_ok fr m"
  shows "frame_eq fr (fold (drop_parent node) ps fr) \<and>
    fr_edge_mask (fold (drop_parent node) ps fr) =
      (\<lambda>(a, b). if b = node \<and> a \<in> set ps then None else fr_edge_mask fr (a, b)) \<and>
    (\<forall>v k. fr_surv (fold (drop_parent node) ps fr) ! v ! k =
       (if hit fr node (set ps) v k then saturating_dec (fr_surv fr ! v ! k) else fr_surv fr ! v ! k)) \<and>
    (\<forall>v l. hit fr node (set ps) v l \<and> saturating_dec (fr_surv fr ! v ! l) = 0 \<longrightarrow>
       fr_index fr ! v \<in> set (fr_ready (fold (drop_parent node) ps fr) ! l))"
  using assms
proof (induction ps arbitrary: fr)
  case Nil
  then show ?case by (auto simp: hit_def)
next
  case (Cons p ps)
  let ?fr = "drop_parent node p fr"
  have dp: "frame_eq fr ?fr" "fr_edge_mask ?fr = (fr_edge_mask fr)((p, node) := None)"
      "\<And>v k. fr_surv ?fr ! v ! k =
       (if hit fr node {p} v k then saturating_dec (fr_surv fr ! v ! k) else fr_surv fr ! v ! k)"
      "\<And>v l. hit fr node {p} v l \<Longrightarrow> saturating_dec (fr_surv fr ! v ! l) = 0 \<Longrightarrow>
       fr_index fr ! v \<in> set (fr_ready ?fr ! l)"
    using drop_parent [OF Cons.prems(1), of p node] Cons.prems(3,4) by simp_all
  have hit: "hit ?fr node (set ps) v l \<longleftrightarrow> hit fr node (set ps) v l"
      "hit fr node (set (p # ps)) v l \<longleftrightarrow> hit fr node {p} v l \<or> hit fr node (set ps) v l"
      "\<not> (hit fr node {p} v l \<and> hit fr node (set ps) v l)" for v l
    using Cons.prems(2) by (auto simp: hit_def dp(2))
  have "\<forall>q \<in> set ps. \<forall>m. fr_edge_mask ?fr (q, node) = Some m \<longrightarrow> mask_ok ?fr m"
    using Cons.prems(4) by (auto simp: mask_ok_def dp(2) split: if_splits)
  note IH = Cons.IH [OF sized_frame [OF Cons.prems(1) dp(1)] _ _ this]
  have "frame_eq fr (fold (drop_parent node) ps ?fr)"
    using IH Cons.prems(2,3) frame_eq_trans [OF dp(1)] by simp
  moreover have "fr_edge_mask (fold (drop_parent node) ps ?fr) =
      (\<lambda>(a, b). if b = node \<and> a \<in> set (p # ps) then None else fr_edge_mask fr (a, b))"
    using IH Cons.prems(2,3) by (auto simp: dp(2) fun_eq_iff)
  moreover have "fr_surv (fold (drop_parent node) ps ?fr) ! v ! k =
       (if hit fr node (set (p # ps)) v k then saturating_dec (fr_surv fr ! v ! k) else fr_surv fr ! v ! k)"
    for v k
    using IH Cons.prems(2,3) hit [of v k] dp(3) [of v k] by auto
  moreover have "fr_index fr ! v \<in> set (fr_ready (fold (drop_parent node) ps ?fr) ! l)"
    if h: "hit fr node (set (p # ps)) v l" and z: "saturating_dec (fr_surv fr ! v ! l) = 0" for v l
  proof (cases "hit fr node {p} v l")
    case True
    have "frame_eq ?fr (fold (drop_parent node) ps ?fr)" using IH Cons.prems(2,3) by simp
    then show ?thesis using dp(4) [OF True z] by (auto simp: frame_eq_def)
  next
    case False
    then have "hit ?fr node (set ps) v l" using h hit by simp
    moreover have "saturating_dec (fr_surv ?fr ! v ! l) = 0" using False z dp(3) by simp
    moreover have "fr_index ?fr = fr_index fr" using dp(1) by (simp add: frame_eq_def)
    ultimately show ?thesis using IH Cons.prems(2,3) by auto
  qed
  ultimately show ?case by simp
qed


lemma fold_clear_masks:
  "fold (\<lambda>(child, _) fr. fr\<lparr> fr_edge_mask := (fr_edge_mask fr)((node, child) := None) \<rparr>) es fr =
     fr\<lparr> fr_edge_mask := (\<lambda>(a, b). if a = node \<and> b \<in> fst ` set es then None else fr_edge_mask fr (a, b)) \<rparr>"
proof (induction es arbitrary: fr)
  case (Cons e es)
  then show ?case by (cases e) (auto simp: fun_eq_iff)
qed simp

definition kill :: "nat \<Rightarrow> digraph \<Rightarrow> digraph" where
  "kill i g = g\<lparr> dg_alive := (dg_alive g)[i := False] \<rparr>"

lemma kill_simps [simp]:
  "dg_n (kill i g) = dg_n g" "dg_children (kill i g) = dg_children g"
  "dg_parents (kill i g) = dg_parents g" "dg_order (kill i g) = dg_order g"
  "dg_installed (kill i g) = dg_installed g"
  by (simp_all add: kill_def)

lemma kill_alive: "dg_alive (kill i g) ! j \<longleftrightarrow> dg_alive g ! j \<and> \<not> (i = j \<and> i < length (dg_alive g))"
  by (simp add: kill_def nth_upd)

lemma graph_ok_kill: "graph_ok g \<Longrightarrow> graph_ok (kill i g)"
  by (auto simp: graph_ok_def kill_alive) (simp add: kill_def)

lemma length_filter_minus:
  assumes "distinct (map fst es)" "map_of es x = Some y"
  shows "length (filter (\<lambda>e. P e \<and> fst e \<noteq> x) es) = length (filter P es) - (if P (x, y) then 1 else 0)"
  using assms
proof (induction es)
  case (Cons e es)
  obtain a b where e: "e = (a, b)" by (cases e)
  show ?case
  proof (cases "a = x")
    case True
    then have "filter (\<lambda>e. P e \<and> fst e \<noteq> x) es = filter P es"
      using Cons.prems(1) by (intro filter_cong) (auto simp: e)
    then show ?thesis using Cons.prems True by (simp add: e)
  next
    case False
    then have "P (x, y) \<Longrightarrow> 0 < length (filter P es)"
      using Cons.prems(2) map_of_SomeD [of es x y] by (auto simp: e filter_empty_conv)
    then show ?thesis using Cons False by (auto simp: e)
  qed
qed simp

lemma kill_count:
  assumes g: "graph_ok g" and "v < dg_n g" "dg_alive g ! node" "node < dg_n g"
  shows "node_count (kill node g) ig v =
    node_count g ig v - (case map_of (dg_children g ! v) node of
                           None \<Rightarrow> 0 | Some prios \<Rightarrow> if survives ig prios then 1 else 0)"
proof -
  have len: "length (dg_alive g) = dg_n g" using g by (simp add: graph_ok_def)
  have f: "filter (child_counts (kill node g) ig) (dg_children g ! v) =
      filter (\<lambda>e. child_counts g ig e \<and> fst e \<noteq> node) (dg_children g ! v)"
    using assms(4) len by (intro filter_cong) (auto simp: child_counts_def kill_alive)
  show ?thesis
  proof (cases "map_of (dg_children g ! v) node")
    case None
    then have "node \<notin> fst ` set (dg_children g ! v)" by (simp add: map_of_eq_None_iff)
    then have "filter (\<lambda>e. child_counts g ig e \<and> fst e \<noteq> node) (dg_children g ! v) =
        filter (child_counts g ig) (dg_children g ! v)"
      by (intro filter_cong) force+
    then show ?thesis using f None by (simp add: node_count_def)
  next
    case (Some prios)
    then show ?thesis
      using length_filter_minus [OF graph_okD(1) [OF g assms(2)] Some, of "child_counts g ig"] assms(3)
      by (simp add: node_count_def f) (simp add: child_counts_def)
  qed
qed

lemma unat_saturating_dec: "unat (saturating_dec c) = unat c - 1"
  by (cases "c = 0") (simp_all add: saturating_dec_def unat_minus_one)

lemma build_levels_bound [simp]: "0 < length build_levels" "build_levels ! 0 = None"
  by (simp_all add: build_levels_eq)

lemma compute_mask_ok: "mask_ok fr (compute_mask build_levels prios)"
  using build_levels_ok by (simp add: mask_ok_def compute_mask_bit levels_ok_def)

lemma bit_build_mask:
  "bit (compute_mask build_levels prios) l \<longleftrightarrow> l < length build_levels \<and> survives (build_levels ! l) prios"
  using build_levels_ok by (intro compute_mask_bit) (auto simp: levels_ok_def)

lemma frontier_remove_ok:
  assumes g: "graph_ok g" and fr: "frontier_ok fr g" and i: "i < dg_n g" "dg_alive g ! i"
  shows "frontier_ok (frontier_remove i (dg_children g ! i) (dg_parents g ! i) fr) (kill i g)"
proof -
  let ?n = "dg_n g" and ?ps = "dg_parents g ! i"
  have sh: "frontier_shape fr g"
    and surv: "\<And>v l. v < ?n \<Longrightarrow> dg_alive g ! v \<Longrightarrow> l < length build_levels \<Longrightarrow>
        unat (fr_surv fr ! v ! l) = node_count g (build_levels ! l) v"
    and ready: "\<And>v l. v < ?n \<Longrightarrow> dg_alive g ! v \<Longrightarrow> l < length build_levels \<Longrightarrow>
        is_leaf g v (build_levels ! l) \<Longrightarrow> fr_index fr ! v \<in> set (fr_ready fr ! l)"
    and em: "\<And>p c. p < ?n \<Longrightarrow> c < ?n \<Longrightarrow> fr_edge_mask fr (p, c) =
        (if dg_alive g ! p \<and> dg_alive g ! c
         then map_option (compute_mask build_levels) (map_of (dg_children g ! p) c) else None)"
    using fr unfolding frontier_ok_def by simp_all
  have sz: "sized fr ?n" using sh by (simp add: sized_def frontier_shape_def)
  have ps: "distinct ?ps" "set ?ps = {p. p < ?n \<and> i \<in> fst ` set (dg_children g ! p)}"
    using graph_okD(3,4) [OF g i(1)] by auto
  have "mask_ok fr m" if p: "p \<in> set ?ps" "fr_edge_mask fr (p, i) = Some m" for p m
  proof -
    have "p < ?n" using p(1) ps(2) by auto
    then obtain prios where "m = compute_mask build_levels prios"
      using em [OF _ i(1), of p] p(2)
      by (cases "map_of (dg_children g ! p) i") (auto split: if_splits)
    then show ?thesis by (simp add: compute_mask_ok)
  qed
  then have mask: "\<forall>p \<in> set ?ps. \<forall>m. fr_edge_mask fr (p, i) = Some m \<longrightarrow> mask_ok fr m" by blast
  have "set ?ps \<subseteq> {..<?n}" using ps(2) by auto
  note dp = drop_parents [OF sz ps(1) this mask]
  define fr1 where "fr1 = fold (drop_parent i) ?ps fr"
  have fe: "frame_eq fr fr1"
    and em1: "fr_edge_mask fr1 = (\<lambda>(a, b). if b = i \<and> a \<in> set ?ps then None else fr_edge_mask fr (a, b))"
    and surv1: "\<And>v k. fr_surv fr1 ! v ! k =
       (if hit fr i (set ?ps) v k then saturating_dec (fr_surv fr ! v ! k) else fr_surv fr ! v ! k)"
    and ready1: "\<And>v l. hit fr i (set ?ps) v l \<Longrightarrow> saturating_dec (fr_surv fr ! v ! l) = 0 \<Longrightarrow>
       fr_index fr ! v \<in> set (fr_ready fr1 ! l)"
    using dp unfolding fr1_def by simp_all
  have ihit: "hit fr i (set ?ps) v l \<longleftrightarrow>
      (case map_of (dg_children g ! v) i of None \<Rightarrow> False | Some prios \<Rightarrow> survives (build_levels ! l) prios)"
    if "v < ?n" "dg_alive g ! v" "l < length build_levels" for v l
  proof (cases "map_of (dg_children g ! v) i")
    case None
    then show ?thesis using that em [of v i] i by (simp add: hit_def)
  next
    case (Some prios)
    have "v \<in> set ?ps" using map_of_SomeD [OF Some] that(1) ps(2) by force
    then show ?thesis using that em [of v i] i Some by (simp add: hit_def bit_build_mask)
  qed
  have len: "length (dg_alive g) = ?n" using g by (simp add: graph_ok_def)
  have count: "node_count (kill i g) (build_levels ! l) v =
      node_count g (build_levels ! l) v - (if hit fr i (set ?ps) v l then 1 else 0)"
    if "v < ?n" "dg_alive g ! v" "l < length build_levels" for v l
    unfolding ihit [OF that] kill_count [OF g that(1) i(2,1)] by (auto split: option.splits)
  have surv': "unat (fr_surv fr1 ! v ! l) = node_count (kill i g) (build_levels ! l) v"
    if "v < ?n" "dg_alive g ! v" "l < length build_levels" for v l
    using surv [OF that] count [OF that] by (simp add: surv1 unat_saturating_dec)
  have ready': "fr_index fr ! v \<in> set (fr_ready fr1 ! l)"
    if v: "v < ?n" "dg_alive g ! v" "l < length build_levels" and "is_leaf (kill i g) v (build_levels ! l)" for v l
  proof (cases "hit fr i (set ?ps) v l")
    case True
    have "unat (fr_surv fr1 ! v ! l) = 0" using surv' [OF v] that(4) by (simp add: is_leaf_count)
    then show ?thesis using ready1 [OF True] True by (simp add: surv1 unat_eq_0)
  next
    case False
    then have "is_leaf g v (build_levels ! l)" using count [OF v] that(4) by (simp add: is_leaf_count)
    then show ?thesis using ready [OF v] fe by (auto simp: frame_eq_def)
  qed
  let ?row = "replicate (length (fr_surv fr1 ! i)) (- 1)"
  have fr2: "frontier_remove i (dg_children g ! i) ?ps fr =
      fr1\<lparr> fr_edge_mask := (\<lambda>(a, b). if a = i \<and> b \<in> fst ` set (dg_children g ! i) then None
                                    else fr_edge_mask fr1 (a, b)),
           fr_surv := (fr_surv fr1)[i := ?row] \<rparr>"
    using sz fe i(1) by (simp add: frontier_remove_def fold_clear_masks sized_def frame_eq_def flip: fr1_def)
  have f: "filter ((!) (dg_alive (kill i g))) xs = filter (\<lambda>j. j \<noteq> i) (filter ((!) (dg_alive g)) xs)" for xs
    using i len by (auto simp: kill_alive intro: filter_cong)
  have "filter ((!) (dg_alive (kill i g))) (dg_order g) = filter ((!) (dg_alive (kill i g))) (fr_by_index fr)"
    unfolding f using sh by (simp only: frontier_shape_def)
  then have shape: "frontier_shape (frontier_remove i (dg_children g ! i) ?ps fr) (kill i g)"
    using sh fe by (simp add: frontier_shape_def fr2 frame_eq_def nth_upd)
  have mask: "fr_edge_mask (frontier_remove i (dg_children g ! i) ?ps fr) (p, c) =
        (if dg_alive (kill i g) ! p \<and> dg_alive (kill i g) ! c
         then map_option (compute_mask build_levels) (map_of (dg_children g ! p) c) else None)"
    if "p < ?n" "c < ?n" for p c
    using em [OF that] i len that ps(2)
    by (auto simp: fr2 em1 kill_alive map_of_eq_None_iff)
  show ?thesis
    unfolding frontier_ok_def
    using shape mask surv' ready' i len fe
    by (auto simp: fr2 kill_alive nth_upd frame_eq_def)
qed

text \<open>The order of the graph may drop dead nodes.\<close>

definition retain_alive :: "digraph \<Rightarrow> digraph" where
  "retain_alive g = g\<lparr> dg_order := filter ((!) (dg_alive g)) (dg_order g) \<rparr>"

lemma retain_alive_simps [simp]:
  "dg_n (retain_alive g) = dg_n g" "dg_children (retain_alive g) = dg_children g"
  "dg_parents (retain_alive g) = dg_parents g" "dg_alive (retain_alive g) = dg_alive g"
  "dg_installed (retain_alive g) = dg_installed g"
  "dg_order (retain_alive g) = filter ((!) (dg_alive g)) (dg_order g)"
  by (simp_all add: retain_alive_def)

lemma graph_ok_retain: "graph_ok g \<Longrightarrow> graph_ok (retain_alive g)"
  by (auto simp: graph_ok_def)

lemma frontier_ok_retain: "frontier_ok fr g \<Longrightarrow> frontier_ok fr (retain_alive g)"
  by (simp add: frontier_ok_def frontier_shape_def is_leaf_count node_count_def child_counts_def
      cong: filter_cong)


section \<open>The queries, with or without the frontier\<close>

definition synced :: "frontier option \<Rightarrow> digraph \<Rightarrow> bool" where
  "synced fro g \<longleftrightarrow> (case fro of None \<Rightarrow> True | Some fr \<Rightarrow> frontier_ok fr g)"

lemma level_of_Some:
  "frontier_ok fr g \<Longrightarrow> level_of fr ig = Some l \<Longrightarrow> l < length build_levels \<and> build_levels ! l = ig"
  using position_Some by (fastforce simp: level_of_def frontier_ok_def frontier_shape_def)

lemma leaves_via_eq:
  assumes "graph_ok g" "synced fro g" "leaves_via g ig fro = (nodes, fro')"
  shows "nodes = leaf_nodes g ig" "synced fro' g" "fro' = None \<longleftrightarrow> fro = None"
proof -
  have alive: "filter ((!) (dg_alive g)) (leaf_nodes g ig) = leaf_nodes g ig"
    by (simp add: leaf_nodes_def cong: conj_cong)
  have "nodes = leaf_nodes g ig \<and> synced fro' g \<and> (fro' = None \<longleftrightarrow> fro = None)"
  proof (cases fro)
    case None
    then show ?thesis using assms(3) by (auto simp: leaves_via_def synced_def)
  next
    case (Some fr)
    show ?thesis
    proof (cases "level_of fr ig")
      case None
      then show ?thesis using assms(2,3) Some by (auto simp: leaves_via_def)
    next
      case (Some l)
      obtain ns fr' where r: "ready_nodes l (dg_alive g) fr = (ns, fr')" by fastforce
      have fr: "frontier_ok fr g" using assms(2) \<open>fro = Some fr\<close> by (simp add: synced_def)
      have l: "l < length build_levels" "build_levels ! l = ig" using level_of_Some [OF fr Some] by auto
      have "ns = leaf_nodes g ig" "frontier_ok fr' g"
        using ready_nodes_eq [OF assms(1) fr l(1) r] l(2) by auto
      then show ?thesis
        using assms(3) \<open>fro = Some fr\<close> Some r alive by (auto simp: leaves_via_def synced_def)
    qed
  qed
  then show "nodes = leaf_nodes g ig" "synced fro' g" "fro' = None \<longleftrightarrow> fro = None" by auto
qed

lemma is_leaf_via_eq:
  assumes "synced fro g" "v < dg_n g" "dg_alive g ! v"
  shows "is_leaf_via fro g v ig = is_leaf g v ig"
  using assms level_of_Some [of _ g ig] frontier_leaf [of _ g v]
  by (auto simp: is_leaf_via_def synced_def split: option.splits)

text \<open>What the selection loop does to the pair of graph and frontier.\<close>

inductive frontier_run :: "digraph \<Rightarrow> frontier \<Rightarrow> digraph \<Rightarrow> bool" for g0 where
  built: "frontier_run g0 (frontier_build g0) g0"
| queried: "frontier_run g0 fr g \<Longrightarrow> leaves_via g ig (Some fr) = (nodes, Some fr') \<Longrightarrow> frontier_run g0 fr' g"
| removed: "frontier_run g0 fr g \<Longrightarrow> i < dg_n g \<Longrightarrow> dg_alive g ! i \<Longrightarrow>
     frontier_run g0 (frontier_remove i (dg_children g ! i) (dg_parents g ! i) fr) (kill i g)"
| retained: "frontier_run g0 fr g \<Longrightarrow> frontier_run g0 fr (retain_alive g)"

lemma frontier_run_ok:
  assumes "frontier_run g0 fr g" "graph_ok g0" "alive_closed g0" "dg_n g0 < 2 ^ 32"
    and "\<forall>i \<in> set (dg_order g0). dg_alive g0 ! i"
  shows "frontier_ok fr g \<and> graph_ok g"
  using assms
proof (induction rule: frontier_run.induct)
  case built
  then show ?case by (simp add: frontier_build_ok)
next
  case (queried fr g ig nodes fr')
  then show ?case using leaves_via_eq(2) [OF _ _ queried.hyps(2)] by (simp add: synced_def)
next
  case (removed fr g i)
  then show ?case by (simp add: frontier_remove_ok graph_ok_kill)
next
  case (retained fr g)
  then show ?case by (simp add: frontier_ok_retain graph_ok_retain)
qed

text \<open>
  C17: The leaf frontier implements the plain scans: built from a graph whose alive nodes have only alive
  children, and kept in step through any sequence of queries and removals, it lists the alive leaves
  of every ignore level in graph order and answers every leaf test exactly as \<open>leaf_nodes\<close> and
  \<open>is_leaf\<close> do on the graph at that moment.
\<close>

theorem frontier_refines_scan:
  assumes "graph_ok g0" "alive_closed g0" "dg_n g0 < 2 ^ 32"
    and "\<forall>i \<in> set (dg_order g0). dg_alive g0 ! i" "frontier_run g0 fr g"
  shows "fst (leaves_via g ig (Some fr)) = leaf_nodes g ig \<and>
    (\<forall>v < dg_n g. dg_alive g ! v \<longrightarrow> is_leaf_via (Some fr) g v ig = is_leaf g v ig)"
proof -
  have ok: "frontier_ok fr g" "graph_ok g" using frontier_run_ok [OF assms(5,1-4)] by auto
  obtain nodes fro where v: "leaves_via g ig (Some fr) = (nodes, fro)" by fastforce
  show ?thesis
    using leaves_via_eq(1) [OF ok(2) _ v] is_leaf_via_eq [of "Some fr" g] ok by (simp add: v synced_def)
qed

text \<open>A chain of two packages and a run-time-post edge back.\<close>

definition tiny_graph :: digraph where
  "tiny_graph =
     \<lparr> dg_n = 2, dg_children = [[(1, [runtime_dep])], [(0, [post_dep])]],
       dg_parents = [[1], [0]], dg_order = [0, 1], dg_installed = [False, False],
       dg_alive = [True, True] \<rparr>"

lemma tiny_ok: "graph_ok tiny_graph" "alive_closed tiny_graph"
  by (auto simp: graph_ok_def alive_closed_def tiny_graph_def less_Suc_eq numeral_2_eq_2)

theorem frontier_refines_scan_witness:
  "fst (leaves_via tiny_graph (Some NRuntimePost) (Some (frontier_build tiny_graph))) = [1]"
proof -
  have "fst (leaves_via tiny_graph (Some NRuntimePost) (Some (frontier_build tiny_graph))) =
      leaf_nodes tiny_graph (Some NRuntimePost)"
    using frontier_refines_scan [OF tiny_ok _ _ frontier_run.built] by (simp add: tiny_graph_def)
  then show ?thesis
    by (simp add: leaf_nodes_def is_leaf_def child_counts_def tiny_graph_def survives_def ignore_defs
        runtime_dep_def post_dep_def default_priority_def)
qed

end
