(* ===== verification/Entries.thy ===== *)
theory Entries
  imports Frontier
begin

text \<open>
  The graph entries (\<open>resolve/entry.rs\<close>, \<open>resolve/outcome.rs\<close>): the outcome of a package, its blocker
  rows and dependency edges, and what is only displayed; the toolchain seed of \<open>build.rs\<close> and the
  removal rows with their owners (\<open>select_nodes.rs\<close>).
\<close>

section \<open>Data\<close>

datatype pretend_outcome =
    NoVisibleCandidate
  | New string
  | Upgrade string string
  | Downgrade string string
  | AlreadyInstalled string
  | Reinstall string "string list" bool bool bool bool bool
  | Uninstall string

datatype blocker_satisfied_by =
    Replacement "string \<times> string" string
  | RemovedBy string "string \<times> string"

record blocker_conflict =
  bc_atom_str :: string
  bc_strong :: bool
  bc_matched_category :: string
  bc_matched_package :: string
  bc_matched_version :: string
  bc_unsolvable :: bool
  bc_satisfied_by :: "blocker_satisfied_by option"
  bc_tree_scheduled_uninstall :: bool

datatype candidate_source = Ebuild | Binary

record installed_ref =
  ir_version :: string
  ir_slot :: string
  ir_sub_slot :: string
  ir_repo :: string

record visibility_provenance =
  vp_mask_entry :: "string option"
  vp_unmask_entry :: "string option"
  vp_keyword_entry :: "string option"

type_synonym parent_use_suggestion = "string \<times> string \<times> string \<times> (string \<times> bool) list"

record graph_entry =
  e_category :: string
  e_package :: string
  e_outcome :: pretend_outcome
  e_blockers :: "blocker_conflict list"
  e_slot :: "string option"
  e_sub_slot :: "string option"
  e_repo_name :: "string option"
  e_oldbest :: "installed_ref list"
  e_use_flags_display :: "(string \<times> bool) list"
  e_use_expand_display :: "(string \<times> string) list"
  e_use_expand_display_p :: "(string \<times> string) list"
  e_keyword_mask :: "char option"
  e_new_slot :: bool
  e_interactive :: bool
  e_fetch_restrict :: bool
  e_fetch_restrict_satisfied :: bool
  e_download_files :: "(string \<times> 64 word) list"
  e_required_by :: "(string \<times> string) list"
  e_source :: candidate_source
  e_provenance :: visibility_provenance
  e_keyword_suggestion :: "(string \<times> string) option"
  e_use_suggestion :: "(string \<times> (string \<times> bool) list) option"
  e_parent_use_suggestion :: "parent_use_suggestion option"
  e_targets_running_root :: bool
  e_remote_binary :: bool
  e_build_id :: "string option"
  e_build_time :: "64 word option"
  e_deps :: "dep_edge list"
  e_discovery :: nat

text \<open>The node of an installed package that the resolver made no entry for.\<close>

definition synthetic_installed_entry :: "string \<Rightarrow> string \<Rightarrow> string \<Rightarrow> dep_edge list \<Rightarrow> graph_entry" where
  "synthetic_installed_entry category package version deps =
     \<lparr> e_category = category, e_package = package, e_outcome = AlreadyInstalled version,
       e_blockers = [], e_slot = None, e_sub_slot = None, e_repo_name = None, e_oldbest = [],
       e_use_flags_display = [], e_use_expand_display = [], e_use_expand_display_p = [],
       e_keyword_mask = None, e_new_slot = False, e_interactive = False, e_fetch_restrict = False,
       e_fetch_restrict_satisfied = False, e_download_files = [], e_required_by = [],
       e_source = Ebuild,
       e_provenance = \<lparr> vp_mask_entry = None, vp_unmask_entry = None, vp_keyword_entry = None \<rparr>,
       e_keyword_suggestion = None, e_use_suggestion = None, e_parent_use_suggestion = None,
       e_targets_running_root = False, e_remote_binary = False, e_build_id = None,
       e_build_time = None, e_deps = deps, e_discovery = 0 \<rparr>"

definition entry_version :: "graph_entry \<Rightarrow> string option" where
  "entry_version e =
     (case e_outcome e of
        New v \<Rightarrow> Some v
      | Reinstall v _ _ _ _ _ _ \<Rightarrow> Some v
      | AlreadyInstalled v \<Rightarrow> Some v
      | Uninstall v \<Rightarrow> Some v
      | Upgrade _ to \<Rightarrow> Some to
      | Downgrade _ to \<Rightarrow> Some to
      | NoVisibleCandidate \<Rightarrow> None)"

definition merge_bound_version :: "pretend_outcome \<Rightarrow> string option" where
  "merge_bound_version out =
     (case out of
        New v \<Rightarrow> Some v
      | Reinstall v _ _ _ _ _ _ \<Rightarrow> Some v
      | Upgrade _ to \<Rightarrow> Some to
      | Downgrade _ to \<Rightarrow> Some to
      | AlreadyInstalled _ \<Rightarrow> None
      | NoVisibleCandidate \<Rightarrow> None
      | Uninstall _ \<Rightarrow> None)"

text \<open>The version without that of a removal.\<close>

definition outcome_version :: "graph_entry \<Rightarrow> string option" where
  "outcome_version e =
     (case e_outcome e of
        New v \<Rightarrow> Some v
      | Reinstall v _ _ _ _ _ _ \<Rightarrow> Some v
      | Upgrade _ to \<Rightarrow> Some to
      | Downgrade _ to \<Rightarrow> Some to
      | AlreadyInstalled v \<Rightarrow> Some v
      | NoVisibleCandidate \<Rightarrow> None
      | Uninstall _ \<Rightarrow> None)"

definition dep_child_root :: "bool \<Rightarrow> nat \<Rightarrow> bool" where
  "dep_child_root owner_targets_running_root key =
     (if key = 0 \<or> key = 2 then owner_targets_running_root
      else if key = 1 \<or> key = 3 \<or> key = 4 then True
      else owner_targets_running_root)"

definition is_uninstall :: "graph_entry \<Rightarrow> bool" where
  "is_uninstall e = (case e_outcome e of Uninstall _ \<Rightarrow> True | _ \<Rightarrow> False)"

section \<open>The toolchain seed\<close>

definition new_cpv_merge :: "graph_entry list \<Rightarrow> nat \<Rightarrow> bool" where
  "new_cpv_merge entries i =
     (case e_outcome (entries ! i) of
        New _ \<Rightarrow> True | Upgrade _ _ \<Rightarrow> True | Downgrade _ _ \<Rightarrow> True | _ \<Rightarrow> False)"

fun seed_edges :: "graph_entry list \<Rightarrow> dep_edge list \<Rightarrow> nat list \<Rightarrow> nat list" where
  "seed_edges entries [] out = out"
| "seed_edges entries (edge # edges) out =
     (case position (\<lambda>e. e_category e = edge_category edge \<and> e_package e = edge_package edge) entries of
        Some i \<Rightarrow>
          seed_edges entries edges (if new_cpv_merge entries i \<and> i \<notin> set out then out @ [i] else out)
      | None \<Rightarrow> seed_edges entries edges out)"

definition seed_providers :: "graph_entry list \<Rightarrow> string \<Rightarrow> nat list" where
  "seed_providers entries virt_pkg =
     (case position (\<lambda>e. e_category e = ''virtual'' \<and> e_package e = virt_pkg) entries of
        None \<Rightarrow> []
      | Some vi \<Rightarrow>
          seed_edges entries (filter (\<lambda>d. edge_key d = 0) (e_deps (entries ! vi)))
            (if new_cpv_merge entries vi then [vi] else []))"

definition seed_toolchain_asap :: "graph_entry list \<Rightarrow> nat list" where
  "seed_toolchain_asap entries =
     fold (\<lambda>i asap. if i \<in> set asap then asap else asap @ [i])
       (seed_providers entries ''os-headers'' @ seed_providers entries ''libc'') []"

section \<open>Removals\<close>

definition removal_rows :: "graph_entry list \<Rightarrow> nat list" where
  "removal_rows entries = filter (\<lambda>i. is_uninstall (entries ! i)) [0..<length entries]"

definition owns_removal :: "graph_entry \<Rightarrow> string \<Rightarrow> graph_entry \<Rightarrow> bool" where
  "owns_removal removal rcpv e =
     ((case e_outcome e of
         New _ \<Rightarrow> True | Upgrade _ _ \<Rightarrow> True | Downgrade _ _ \<Rightarrow> True
       | Reinstall _ _ _ _ _ _ _ \<Rightarrow> True | _ \<Rightarrow> False) \<and>
      (e_category e, e_package e) \<in> set (e_required_by removal) \<and>
      list_ex (\<lambda>b. case bc_satisfied_by b of Some (RemovedBy cpv _) \<Rightarrow> cpv = rcpv | _ \<Rightarrow> False)
        (e_blockers e))"

definition removal_cpv :: "graph_entry \<Rightarrow> string option" where
  "removal_cpv e =
     (case e_outcome e of
        Uninstall version \<Rightarrow> Some (e_category e @ ''/'' @ e_package e @ ''-'' @ version)
      | _ \<Rightarrow> None)"

definition removal_owner_pairs :: "graph_entry list \<Rightarrow> (nat \<times> nat) list" where
  "removal_owner_pairs entries =
     List.map_filter
       (\<lambda>r. case removal_cpv (entries ! r) of
              None \<Rightarrow> None
            | Some rcpv \<Rightarrow> map_option (Pair r) (position (owns_removal (entries ! r) rcpv) entries))
       (removal_rows entries)"

section \<open>Sorting\<close>

text \<open>The stable sort of a slice by a comparison function.\<close>

fun insert_by :: "('a \<Rightarrow> 'a \<Rightarrow> ordering) \<Rightarrow> 'a \<Rightarrow> 'a list \<Rightarrow> 'a list" where
  "insert_by cmp x [] = [x]"
| "insert_by cmp x (y # ys) = (if cmp x y = Greater then y # insert_by cmp x ys else x # y # ys)"

definition sort_by :: "('a \<Rightarrow> 'a \<Rightarrow> ordering) \<Rightarrow> 'a list \<Rightarrow> 'a list" where
  "sort_by cmp xs = foldr (insert_by cmp) xs []"

lemma set_insert_by [simp]: "set (insert_by cmp x ys) = insert x (set ys)"
  by (induction ys) auto

lemma set_sort_by [simp]: "set (sort_by cmp xs) = set xs"
  by (induction xs) (auto simp: sort_by_def)

text \<open>Category, package, then version; incomparable versions count as equal.\<close>

definition cmp_entry_version :: "graph_entry \<Rightarrow> graph_entry \<Rightarrow> ordering" where
  "cmp_entry_version a b =
     (let ver = (\<lambda>e. case entry_version e of None \<Rightarrow> [] | Some v \<Rightarrow> v)
      in case vercmp (ver a) (ver b) of
           Return (Some r) \<Rightarrow> cmp_lin r 0
         | _ \<Rightarrow> Equal)"

definition cmp_entries :: "graph_entry list \<Rightarrow> nat \<Rightarrow> nat \<Rightarrow> ordering" where
  "cmp_entries entries a b =
     then_with (then_with (cmp_str (e_category (entries ! a)) (e_category (entries ! b)))
                          (cmp_str (e_package (entries ! a)) (e_package (entries ! b))))
       (cmp_entry_version (entries ! a) (entries ! b))"

end
