(* ===== verification/Vdb.thy ===== *)
theory Vdb
  imports Entries
begin

text \<open>
  What the merge order reads of the installed packages (\<open>installed.rs\<close>, \<open>reinstall.rs\<close>,
  \<open>merge_order/installed_closure.rs\<close>). The database itself is a record of what its readers
  return for one root: the installed packages, the aux values (\<open>vdb_aux_get\<close>), whether the recorded
  repository still has the ebuild (\<open>live_metadata_for_installed\<close>), and the installed versions of a
  package. The caches keyed by the database generation return what they were filled with and are left out.
\<close>

section \<open>The database\<close>

record installed_package =
  ip_category :: string
  ip_package :: string
  ip_version :: string
  ip_slot :: string

record vdb_view =
  vdb_installed :: "installed_package list"
  vdb_aux :: "string \<Rightarrow> string \<Rightarrow> string \<Rightarrow> string \<Rightarrow> string"
  vdb_live :: "string \<Rightarrow> string \<Rightarrow> string \<Rightarrow> bool"
  vdb_versions :: "string \<Rightarrow> string \<Rightarrow> string list"

definition split_slot :: "string \<Rightarrow> string \<times> string" where
  "split_slot raw =
     (if raw = [] then (''0'', ''0'')
      else if CHR ''/'' \<in> set raw
           then (takeWhile (\<lambda>c. c \<noteq> CHR ''/'') raw, tl (dropWhile (\<lambda>c. c \<noteq> CHR ''/'') raw))
           else (raw, raw))"

definition read_vdb_string :: "vdb_view \<Rightarrow> string \<Rightarrow> string \<Rightarrow> string \<Rightarrow> string \<Rightarrow> string" where
  "read_vdb_string v category package version filename = vdb_aux v category package version filename"

definition read_vdb_slot :: "vdb_view \<Rightarrow> string \<Rightarrow> string \<Rightarrow> string \<Rightarrow> string \<times> string" where
  "read_vdb_slot v category package version =
     split_slot (read_vdb_string v category package version ''SLOT'')"

definition read_vdb_flag_set :: "vdb_view \<Rightarrow> string \<Rightarrow> string \<Rightarrow> string \<Rightarrow> string \<Rightarrow> string set" where
  "read_vdb_flag_set v category package version filename =
     set (map (dropWhile (\<lambda>c. c = CHR ''+'' \<or> c = CHR ''-''))
            (split_whitespace (vdb_aux v category package version filename)))"

section \<open>The providers of the libc\<close>

definition flat_dep_atoms :: "string \<Rightarrow> string set \<Rightarrow> string set option" where
  "flat_dep_atoms depstr use_flags =
     (case use_reduce_flat (split_whitespace depstr) use_flags Normal of
        Ok flat \<Rightarrow> Some (set (filter (\<lambda>t. t \<noteq> ''||'') flat))
      | _ \<Rightarrow> None)"

text \<open>\<open>parse_atom\<close> does not panic (shown in \<open>AtomMatch\<close>).\<close>

definition atom_of :: "string \<Rightarrow> atom option" where
  "atom_of s = (case parse_atom s of Panic \<Rightarrow> None | Return a \<Rightarrow> a)"

definition libc_provider_cps :: "vdb_view \<Rightarrow> (string \<times> string) set" where
  "libc_provider_cps v =
     \<Union> (set (map (\<lambda>version.
          case flat_dep_atoms (read_vdb_string v ''virtual'' ''libc'' version ''RDEPEND'')
                 (read_vdb_flag_set v ''virtual'' ''libc'' version ''USE'') of
            None \<Rightarrow> {}
          | Some atoms \<Rightarrow>
              \<Union> ((\<lambda>s. case atom_of s of None \<Rightarrow> {} | Some a \<Rightarrow> {(a_category a, a_package a)}) ` atoms))
        (vdb_versions v ''virtual'' ''libc'')))"

section \<open>Matching against the installed packages\<close>

text \<open>
  \<open>match_from_list\<close>, where its panic on versions with a component that is too long (\<open>match_list_wanted\<close> in
  \<open>AtomMatch\<close>) is read as no result.
\<close>

definition match_list :: "string \<Rightarrow> string list \<Rightarrow> string list option" where
  "match_list atom_str candidates =
     (case match_from_list atom_str candidates of Panic \<Rightarrow> None | Return m \<Rightarrow> m)"

definition matches_some :: "string \<Rightarrow> string list \<Rightarrow> bool" where
  "matches_some atom_str candidates =
     (case match_list atom_str candidates of None \<Rightarrow> False | Some m \<Rightarrow> m \<noteq> [])"

definition candidate_of :: "string \<Rightarrow> candidate option" where
  "candidate_of s = (case parse_candidate s of Panic \<Rightarrow> None | Return c \<Rightarrow> c)"

type_synonym installed_map = "string \<times> string \<Rightarrow> string list option"

definition installed_candidates_by_cp :: "vdb_view \<Rightarrow> installed_map" where
  "installed_candidates_by_cp v cp =
     (case filter (\<lambda>p. (ip_category p, ip_package p) = cp) (vdb_installed v) of
        [] \<Rightarrow> None
      | ps \<Rightarrow> Some (map (\<lambda>p.
          let (slot, sub_slot) = read_vdb_slot v (ip_category p) (ip_package p) (ip_version p)
          in ip_category p @ ''/'' @ ip_package p @ ''-'' @ ip_version p @ '':'' @ slot @ ''/'' @ sub_slot) ps))"

definition edge_satisfied_with :: "installed_map \<Rightarrow> dep_edge \<Rightarrow> (string \<times> string) option \<Rightarrow> bool" where
  "edge_satisfied_with installed_by_cp edge child_slot =
     (case installed_by_cp (edge_category edge, edge_package edge) of
        None \<Rightarrow> False
      | Some cands \<Rightarrow>
          (case match_list (edge_atom edge) cands of
             None \<Rightarrow> False
           | Some matched \<Rightarrow>
               if matched = [] then False
               else if buildtime_slot_op (edge_priority edge) \<or> runtime_slot_op (edge_priority edge)
               then (case child_slot of
                       None \<Rightarrow> True
                     | Some (slot, sub_slot) \<Rightarrow>
                         list_ex (\<lambda>m. case candidate_of m of
                                        None \<Rightarrow> False
                                      | Some c \<Rightarrow> c_slot c = Some slot \<and> c_sub_slot c = Some sub_slot) matched)
               else True))"

definition entry_slots :: "graph_entry \<Rightarrow> (string \<times> string) option" where
  "entry_slots e =
     (case (e_slot e, e_sub_slot e) of (Some s, Some ss) \<Rightarrow> Some (s, ss) | _ \<Rightarrow> None)"

definition dep_edge_satisfied_by_installed :: "vdb_view \<Rightarrow> dep_edge \<Rightarrow> graph_entry option \<Rightarrow> bool" where
  "dep_edge_satisfied_by_installed v edge child =
     edge_satisfied_with (installed_candidates_by_cp v) edge (Option.bind child entry_slots)"

end
