(* ===== verification/DepTargets.thy ===== *)
theory DepTargets
  imports Vdb
begin

text \<open>
  The lookups of the digraph build (\<open>merge_order/prelude.rs\<close>) and the choice among the alternatives
  of an any-of group (\<open>merge_order/alt_edges.rs\<close>): the one entry that an edge resolves to.
\<close>

section \<open>The prelude\<close>

record digraph_prelude =
  dp_cp_indices :: "string \<times> string \<Rightarrow> nat list option"
  dp_installed :: "bool list"
  dp_entry_candidate :: "string option list"

definition indices_of_cp :: "graph_entry list \<Rightarrow> string \<times> string \<Rightarrow> nat list option" where
  "indices_of_cp entries cp =
     (case filter (\<lambda>i. (e_category (entries ! i), e_package (entries ! i)) = cp) [0..<length entries] of
        [] \<Rightarrow> None
      | idxs \<Rightarrow> Some idxs)"

definition nomerge_outcome :: "graph_entry \<Rightarrow> bool" where
  "nomerge_outcome e =
     (case e_outcome e of AlreadyInstalled _ \<Rightarrow> True | NoVisibleCandidate \<Rightarrow> True | _ \<Rightarrow> False)"

definition entry_candidate :: "vdb_view \<Rightarrow> graph_entry \<Rightarrow> string option" where
  "entry_candidate v e =
     (case entry_version e of
        None \<Rightarrow> None
      | Some ver \<Rightarrow>
          let (slot, sub_slot) =
                (case entry_slots e of
                   Some s \<Rightarrow> s
                 | None \<Rightarrow> read_vdb_slot v (e_category e) (e_package e) ver);
              repo = (case e_repo_name e of Some r \<Rightarrow> r | None \<Rightarrow> ''gentoo'')
          in Some (e_category e @ ''/'' @ e_package e @ ''-'' @ ver @ '':'' @ slot @ ''/'' @ sub_slot
                   @ ''::'' @ repo))"

definition digraph_prelude_of :: "vdb_view \<Rightarrow> graph_entry list \<Rightarrow> digraph_prelude" where
  "digraph_prelude_of v entries =
     \<lparr> dp_cp_indices = indices_of_cp entries, dp_installed = map nomerge_outcome entries,
       dp_entry_candidate = map (entry_candidate v) entries \<rparr>"

section \<open>The target of an edge\<close>

definition edge_matches :: "digraph_prelude \<Rightarrow> string \<Rightarrow> nat \<Rightarrow> bool" where
  "edge_matches pre atom_str j =
     (case dp_entry_candidate pre ! j of
        None \<Rightarrow> True
      | Some cand \<Rightarrow>
          (case match_list atom_str [cand] of Some m \<Rightarrow> m \<noteq> [] | None \<Rightarrow> True))"

definition version_or_empty :: "graph_entry \<Rightarrow> string" where
  "version_or_empty e = (case outcome_version e of Some v \<Rightarrow> v | None \<Rightarrow> [])"

definition better_target :: "graph_entry list \<Rightarrow> bool list \<Rightarrow> nat \<Rightarrow> nat \<Rightarrow> bool" where
  "better_target entries installed j b =
     (case (\<not> installed ! j, \<not> installed ! b) of
        (True, False) \<Rightarrow> True
      | (False, True) \<Rightarrow> False
      | _ \<Rightarrow> (case vercmp (version_or_empty (entries ! j)) (version_or_empty (entries ! b)) of
                Return (Some r) \<Rightarrow> r > 0
              | _ \<Rightarrow> False))"

definition rank_best :: "graph_entry list \<Rightarrow> bool list \<Rightarrow> nat list \<Rightarrow> nat option" where
  "rank_best entries installed cands =
     fold (\<lambda>j best. case best of
             None \<Rightarrow> Some j
           | Some b \<Rightarrow> Some (if better_target entries installed j b then j else b)) cands None"

definition flag_carrier :: "use_dep list \<Rightarrow> string set \<Rightarrow> bool" where
  "flag_carrier use_deps declared = list_all (\<lambda>d. ud_default d \<noteq> None \<or> ud_flag d \<in> declared) use_deps"

definition narrow_by_use :: "graph_entry list \<Rightarrow> string \<Rightarrow> nat list \<Rightarrow> nat list" where
  "narrow_by_use entries atom_str cands =
     (if length cands < 2 then cands
      else case parse_dep_atom atom_str of
        None \<Rightarrow> cands
      | Some parsed \<Rightarrow>
          let use_deps = (case a_use_deps parsed of None \<Rightarrow> [] | Some u \<Rightarrow> u);
              display = (\<lambda>j. e_use_flags_display (entries ! j));
              declared = (\<lambda>j. set (map fst (display j)));
              enabled = (\<lambda>j. set (map fst (filter snd (display j))));
              kept = filter (\<lambda>j. use_deps_satisfied use_deps (declared j) (enabled j)) cands;
              carriers = filter (\<lambda>j. flag_carrier use_deps (declared j)) cands
          in if use_deps = [] \<or> list_ex (\<lambda>j. display j = []) cands then cands
             else if kept \<noteq> [] then kept
             else if carriers \<noteq> [] then carriers
             else cands)"

definition match_candidates ::
  "digraph_prelude \<Rightarrow> graph_entry list \<Rightarrow> nat \<Rightarrow> dep_edge \<Rightarrow> bool \<Rightarrow> nat list" where
  "match_candidates pre entries from_node edge merge_bound_only =
     (case dp_cp_indices pre (edge_category edge, edge_package edge) of
        None \<Rightarrow> []
      | Some idxs \<Rightarrow>
          let cands = filter (\<lambda>j. edge_matches pre (edge_atom edge) j \<and> \<not> is_uninstall (entries ! j)
                        \<and> \<not> (merge_bound_only \<and> (j = from_node \<or> dp_installed pre ! j))) idxs;
              want = dep_child_root (e_targets_running_root (entries ! from_node)) (edge_key edge);
              rooted = filter (\<lambda>j. e_targets_running_root (entries ! j) = want) cands
          in narrow_by_use entries (edge_atom edge) (if rooted = [] then cands else rooted))"

text \<open>The elimination of a candidate that every edge naming it can do without.\<close>

fun shared_by_all :: "nat \<Rightarrow> (nat \<Rightarrow> bool) \<Rightarrow> nat list list \<Rightarrow> bool \<Rightarrow> bool" where
  "shared_by_all p counts [] acc = acc"
| "shared_by_all p counts (s # sets) acc =
     (if p \<in> set s
      then if length (filter counts s) < 2 then False else shared_by_all p counts sets True
      else shared_by_all p counts sets acc)"

definition no_candidate :: "graph_entry list \<Rightarrow> nat \<Rightarrow> bool" where
  "no_candidate entries j = (e_outcome (entries ! j) = NoVisibleCandidate)"

definition eliminate :: "graph_entry list \<Rightarrow> nat list list \<Rightarrow> nat \<Rightarrow> nat set \<Rightarrow> nat set" where
  "eliminate entries sib_sets p alive =
     (if no_candidate entries p \<or> p \<notin> alive then alive
      else if shared_by_all p (\<lambda>q. q \<in> alive \<and> \<not> no_candidate entries q) sib_sets False
           then alive - {p} else alive)"

definition cmp_elimination :: "graph_entry list \<Rightarrow> bool list \<Rightarrow> nat \<Rightarrow> nat \<Rightarrow> ordering" where
  "cmp_elimination entries installed a b =
     (case (installed ! a, installed ! b) of
        (True, False) \<Rightarrow> Less
      | (False, True) \<Rightarrow> Greater
      | _ \<Rightarrow> (case vercmp (version_or_empty (entries ! a)) (version_or_empty (entries ! b)) of
                Return (Some r) \<Rightarrow> cmp_lin r 0
              | _ \<Rightarrow> Equal))"

definition sibling_edges :: "dep_edge list \<Rightarrow> nat \<Rightarrow> nat set \<Rightarrow> nat list" where
  "sibling_edges from_deps ei suppressed =
     filter (\<lambda>si. edge_category (from_deps ! si) = edge_category (from_deps ! ei)
                  \<and> edge_package (from_deps ! si) = edge_package (from_deps ! ei) \<and> si \<notin> suppressed)
       [0..<length from_deps]"

definition select_dep_target ::
  "digraph_prelude \<Rightarrow> graph_entry list \<Rightarrow> nat \<Rightarrow> dep_edge list \<Rightarrow> nat \<Rightarrow> nat set \<Rightarrow> bool \<Rightarrow> nat option" where
  "select_dep_target pre entries from_node from_deps ei suppressed merge_bound_only =
     (let sib_eis = sibling_edges from_deps ei suppressed;
          sib_sets = map (\<lambda>si. match_candidates pre entries from_node (from_deps ! si) merge_bound_only) sib_eis
      in case position (\<lambda>si. si = ei) sib_eis of
           None \<Rightarrow> None
         | Some pos \<Rightarrow>
             let own = sib_sets ! pos
             in if length own < 2 then rank_best entries (dp_installed pre) own
                else
                  let union = fold (\<lambda>j u. if j \<in> set u then u else u @ [j]) (concat sib_sets) [];
                      union = sort_by (cmp_elimination entries (dp_installed pre)) union;
                      alive = fold (eliminate entries sib_sets) union (set union)
                  in rank_best entries (dp_installed pre) (filter (\<lambda>j. j \<in> alive) own))"

section \<open>Alternatives\<close>

record circular_dep_child =
  cd_category :: string
  cd_package :: string
  cd_version :: string
  cd_slot :: "string option"
  cd_sub_slot :: "string option"

type_synonym circular_map = "bool \<times> string \<times> string \<Rightarrow> circular_dep_child list option"

definition circular_child_candidate :: "circular_dep_child \<Rightarrow> string" where
  "circular_child_candidate child =
     cd_category child @ ''/'' @ cd_package child @ ''-'' @ cd_version child
     @ (case cd_slot child of
          None \<Rightarrow> []
        | Some slot \<Rightarrow>
            '':'' @ slot @ (case cd_sub_slot child of None \<Rightarrow> [] | Some sub \<Rightarrow> ''/'' @ sub))"

text \<open>The members of a group: branch and index of each edge; \<open>u32::MAX\<close> is no group.\<close>

definition alt_members :: "dep_edge list \<Rightarrow> nat \<times> 32 word \<Rightarrow> (32 word \<times> nat) list" where
  "alt_members deps grp =
     List.map_filter (\<lambda>(ei, edge).
         case edge_alt edge of
           None \<Rightarrow> None
         | Some (g, b) \<Rightarrow> if g \<noteq> - 1 \<and> (edge_key edge, g) = grp then Some (b, ei) else None)
       (enumerate 0 deps)"

definition alt_groups :: "dep_edge list \<Rightarrow> (nat \<times> 32 word) list" where
  "alt_groups deps =
     remdups (List.map_filter (\<lambda>edge.
         case edge_alt edge of
           None \<Rightarrow> None
         | Some (g, b) \<Rightarrow> if g \<noteq> - 1 then Some (edge_key edge, g) else None) deps)"

text \<open>The entries an alternative matches, without the owner's own node that is not yet merged.\<close>

definition edge_hits :: "digraph_prelude \<Rightarrow> nat \<Rightarrow> dep_edge \<Rightarrow> nat list" where
  "edge_hits pre i edge =
     (case dp_cp_indices pre (edge_category edge, edge_package edge) of
        None \<Rightarrow> []
      | Some idxs \<Rightarrow> filter (\<lambda>j. \<not> (j = i \<and> \<not> dp_installed pre ! j) \<and> edge_matches pre (edge_atom edge) j) idxs)"

definition demotes :: "installed_map \<Rightarrow> circular_dep_child list option \<Rightarrow> dep_edge \<Rightarrow> bool" where
  "demotes installed_by_cp children edge =
     (case children of
        None \<Rightarrow> False
      | Some cs \<Rightarrow>
          (case parse_dep_atom (edge_atom edge) of
             None \<Rightarrow> False
           | Some a \<Rightarrow>
               a_blocker a = BlockNone
               \<and> \<not> (case installed_by_cp (a_category a, a_package a) of
                      None \<Rightarrow> False | Some cands \<Rightarrow> matches_some (edge_atom edge) cands)
               \<and> list_ex (\<lambda>child. matches_some (edge_atom edge) [circular_child_candidate child]) cs))"

definition branch_all :: "(nat \<Rightarrow> bool) \<Rightarrow> (32 word \<times> nat) list \<Rightarrow> 32 word \<Rightarrow> bool" where
  "branch_all P members b = list_all (\<lambda>(b', ei). b' = b \<longrightarrow> P ei) members"

definition pick_branch ::
  "digraph_prelude \<Rightarrow> installed_map \<Rightarrow> circular_dep_child list option \<Rightarrow> nat \<Rightarrow> dep_edge list \<Rightarrow>
   (32 word \<times> nat) list \<Rightarrow> 32 word option" where
  "pick_branch pre installed_by_cp children i deps members =
     (let hits = (\<lambda>ei. edge_hits pre i (deps ! ei));
          branches = sort (remdups (map fst members));
          demoted = (\<lambda>b. list_ex (\<lambda>(b', ei). b' = b \<and> demotes installed_by_cp children (deps ! ei)) members);
          rank = (\<lambda>P. find (\<lambda>b. \<not> demoted b \<and> branch_all P members b) branches)
      in case rank (\<lambda>ei. list_ex (\<lambda>j. \<not> dp_installed pre ! j) (hits ei)) of
           Some b \<Rightarrow> Some b
         | None \<Rightarrow>
             (case rank (\<lambda>ei. list_ex (\<lambda>j. dp_installed pre ! j) (hits ei)) of
                Some b \<Rightarrow> Some b
              | None \<Rightarrow>
                  (case rank (\<lambda>ei. hits ei \<noteq> []) of
                     Some b \<Rightarrow> Some b
                   | None \<Rightarrow> find demoted branches)))"

definition suppressed_of ::
  "digraph_prelude \<Rightarrow> installed_map \<Rightarrow> circular_map \<Rightarrow> nat \<Rightarrow> graph_entry \<Rightarrow> nat set" where
  "suppressed_of pre installed_by_cp circular i e =
     \<Union> (set (map (\<lambda>grp.
          let members = alt_members (e_deps e) grp
          in case pick_branch pre installed_by_cp
                    (circular (e_targets_running_root e, e_category e, e_package e)) i (e_deps e) members of
               None \<Rightarrow> {}
             | Some pick \<Rightarrow> set (map snd (filter (\<lambda>(b, ei). b \<noteq> pick) members)))
        (alt_groups (e_deps e))))"

definition suppressed_alt_edges ::
  "vdb_view \<Rightarrow> digraph_prelude \<Rightarrow> circular_map \<Rightarrow> graph_entry list \<Rightarrow> nat set list" where
  "suppressed_alt_edges v pre circular entries =
     map (\<lambda>(i, e). suppressed_of pre (installed_candidates_by_cp v) circular i e) (enumerate 0 entries)"

definition kept_alt_branches :: "vdb_view \<Rightarrow> circular_map \<Rightarrow> graph_entry list \<Rightarrow> nat set list" where
  "kept_alt_branches v circular entries =
     (let suppressed = suppressed_alt_edges v (digraph_prelude_of v entries) circular entries
      in map (\<lambda>(i, e). set (map fst (filter (\<lambda>(ei, edge). edge_alt edge \<noteq> None \<and> ei \<notin> suppressed ! i)
                              (enumerate 0 (e_deps e)))))
           (enumerate 0 entries))"

definition resolved_dep_targets :: "vdb_view \<Rightarrow> circular_map \<Rightarrow> graph_entry list \<Rightarrow> nat option list list" where
  "resolved_dep_targets v circular entries =
     (let pre = digraph_prelude_of v entries;
          suppressed = suppressed_alt_edges v pre circular entries
      in map (\<lambda>(i, e). map (\<lambda>ei. if ei \<in> suppressed ! i then None
                                 else select_dep_target pre entries i (e_deps e) ei (suppressed ! i) True)
                       [0..<length (e_deps e)])
           (enumerate 0 entries))"

end
