(* ===== verification/Closure.thy ===== *)
theory Closure
  imports DepTargets "HOL-Library.While_Combinator"
begin

text \<open>
  The installed packages that the merge-order graph needs besides the entries of the resolver
  (\<open>merge_order/installed_closure.rs\<close>): the dependencies of installed entries are filled in and a
  synthetic node is appended for every installed dependency without one, to a fixpoint.
\<close>

section \<open>The installed version that an atom names\<close>

definition cmp_version :: "string \<Rightarrow> string \<Rightarrow> ordering" where
  "cmp_version a b = (case vercmp a b of Return (Some r) \<Rightarrow> cmp_lin r 0 | _ \<Rightarrow> Equal)"

definition installed_match_str :: "string \<Rightarrow> string \<Rightarrow> installed_package \<Rightarrow> string" where
  "installed_match_str cat pkg p = cat @ ''/'' @ pkg @ ''-'' @ ip_version p @ '':'' @ ip_slot p"

definition best_matching :: "string option \<Rightarrow> string \<Rightarrow> string \<Rightarrow> installed_package list \<Rightarrow> installed_package option" where
  "best_matching atom_str cat pkg cands =
     fold (\<lambda>p best.
         if (case atom_str of
               None \<Rightarrow> False
             | Some a \<Rightarrow> \<not> matches_some a [installed_match_str cat pkg p]) then best
         else case best of
                None \<Rightarrow> Some p
              | Some b \<Rightarrow> if cmp_version (ip_version b) (ip_version p) = Less then Some p else Some b)
       cands None"

text \<open>\<open>max_by\<close> returns the last of equal elements.\<close>

definition highest_installed :: "installed_package list \<Rightarrow> installed_package option" where
  "highest_installed cands =
     fold (\<lambda>p best. case best of
             None \<Rightarrow> Some p
           | Some b \<Rightarrow> if cmp_version (ip_version b) (ip_version p) = Greater then Some b else Some p)
       cands None"

definition pick_installed :: "vdb_view \<Rightarrow> string option \<Rightarrow> string \<Rightarrow> string \<Rightarrow> installed_package option" where
  "pick_installed v atom_str cat pkg =
     (let cands = filter (\<lambda>p. ip_category p = cat \<and> ip_package p = pkg) (vdb_installed v)
      in if cands = [] then None
         else case best_matching atom_str cat pkg cands of
                Some p \<Rightarrow> Some p
              | None \<Rightarrow> highest_installed cands)"

section \<open>The recorded edges\<close>

definition is_injected_libc :: "vdb_view \<Rightarrow> string \<Rightarrow> bool" where
  "is_injected_libc v atom_str =
     (case atom_of atom_str of
        None \<Rightarrow> False
      | Some a \<Rightarrow>
          a_blocker a = BlockNone \<and> a_operator a = OpGe \<and> a_version a \<noteq> None \<and> a_slot a = None
          \<and> a_sub_slot a = None \<and> (case a_use_deps a of None \<Rightarrow> True | Some u \<Rightarrow> u = [])
          \<and> (a_category a, a_package a) \<in> libc_provider_cps v)"

definition dep_keys :: "string list" where
  "dep_keys = [''RDEPEND'', ''IDEPEND'', ''PDEPEND'', ''DEPEND'', ''BDEPEND'']"

definition recorded_metadata :: "vdb_view \<Rightarrow> string \<Rightarrow> string \<Rightarrow> string \<Rightarrow> string \<Rightarrow> string option" where
  "recorded_metadata v cat pkg ver k =
     (if k \<in> set dep_keys
      then let s = read_vdb_string v cat pkg ver k
           in if list_all is_space s then None else Some s
      else None)"

definition vdb_edges :: "vdb_view \<Rightarrow> string \<Rightarrow> string \<Rightarrow> string \<Rightarrow> dep_edge list" where
  "vdb_edges v cat pkg ver =
     filter (\<lambda>e. \<not> vdb_live v cat pkg ver \<or> \<not> is_injected_libc v (edge_atom e))
       (dep_edges_from_metadata (recorded_metadata v cat pkg ver)
          (read_vdb_flag_set v cat pkg ver ''USE'') dep_keys True)"

section \<open>The closure\<close>

type_synonym pkg_key = "string \<times> string \<times> string"

record closure_state =
  cs_entries :: "graph_entry list"
  cs_present :: "pkg_key set"
  cs_queue :: "nat list"

definition package_key :: "installed_package \<Rightarrow> pkg_key" where
  "package_key p = (ip_category p, ip_package p, ip_version p)"

definition expandable :: "bool \<Rightarrow> string \<Rightarrow> bool" where
  "expandable virtuals_only cat = (\<not> virtuals_only \<or> cat = ''virtual'')"

definition add_node :: "vdb_view \<Rightarrow> bool \<Rightarrow> string option \<Rightarrow> string \<Rightarrow> string \<Rightarrow> closure_state \<Rightarrow> closure_state" where
  "add_node v virtuals_only atom_str cat pkg st =
     (case pick_installed v atom_str cat pkg of
        None \<Rightarrow> st
      | Some p \<Rightarrow>
          if package_key p \<in> cs_present st then st
          else
            st\<lparr> cs_present := insert (package_key p) (cs_present st),
                cs_entries := cs_entries st
                  @ [synthetic_installed_entry (ip_category p) (ip_package p) (ip_version p) []],
                cs_queue := (if expandable virtuals_only cat
                             then cs_queue st @ [length (cs_entries st)] else cs_queue st) \<rparr>)"

definition add_edge_nodes :: "vdb_view \<Rightarrow> bool \<Rightarrow> dep_edge list \<Rightarrow> closure_state \<Rightarrow> closure_state" where
  "add_edge_nodes v virtuals_only edges =
     fold (\<lambda>d. add_node v virtuals_only (Some (edge_atom d)) (edge_category d) (edge_package d)) edges"

definition add_system_nodes :: "vdb_view \<Rightarrow> bool \<Rightarrow> string list \<Rightarrow> closure_state \<Rightarrow> closure_state" where
  "add_system_nodes v virtuals_only system_atoms st =
     (if virtuals_only then st
      else fold (\<lambda>s st. case parse_dep_atom s of
                          None \<Rightarrow> st
                        | Some a \<Rightarrow> add_node v virtuals_only (Some s) (a_category a) (a_package a) st)
             (sort_by cmp_str system_atoms) st)"

definition is_installed_outcome :: "graph_entry \<Rightarrow> bool" where
  "is_installed_outcome e = (case e_outcome e of AlreadyInstalled _ \<Rightarrow> True | _ \<Rightarrow> False)"

definition closure_start :: "vdb_view \<Rightarrow> bool \<Rightarrow> string list \<Rightarrow> graph_entry list \<Rightarrow> closure_state" where
  "closure_start v virtuals_only system_atoms entries =
     (let st = \<lparr> cs_entries = entries,
                 cs_present = set (map (\<lambda>e. (e_category e, e_package e, version_or_empty e)) entries),
                 cs_queue = [] \<rparr>;
          st = add_edge_nodes v virtuals_only (concat (map e_deps entries)) st;
          st = add_system_nodes v virtuals_only system_atoms st
      in st\<lparr> cs_queue := cs_queue st
               @ filter (\<lambda>i. is_installed_outcome (cs_entries st ! i) \<and> e_deps (cs_entries st ! i) = []
                             \<and> expandable virtuals_only (e_category (cs_entries st ! i)))
                   [0..<length (cs_entries st)] \<rparr>)"

definition closure_step :: "vdb_view \<Rightarrow> bool \<Rightarrow> closure_state \<Rightarrow> closure_state" where
  "closure_step v virtuals_only st =
     (case cs_queue st of
        [] \<Rightarrow> st
      | i # queue \<Rightarrow>
          let st = st\<lparr> cs_queue := queue \<rparr>; e = cs_entries st ! i
          in case e_outcome e of
               AlreadyInstalled version \<Rightarrow>
                 if e_deps e \<noteq> [] then st
                 else
                   let edges = vdb_edges v (e_category e) (e_package e) version;
                       st = add_edge_nodes v virtuals_only edges st
                   in st\<lparr> cs_entries := (cs_entries st)[i := (cs_entries st ! i)\<lparr> e_deps := edges \<rparr>] \<rparr>
             | _ \<Rightarrow> st)"

text \<open>\<open>None\<close> is a loop that does not end.\<close>

definition add_installed_dependency_closure ::
  "vdb_view \<Rightarrow> string list \<Rightarrow> bool \<Rightarrow> graph_entry list \<Rightarrow> graph_entry list option" where
  "add_installed_dependency_closure v system_atoms virtuals_only entries =
     map_option cs_entries
       (while_option (\<lambda>st. cs_queue st \<noteq> []) (closure_step v virtuals_only)
          (closure_start v virtuals_only system_atoms entries))"

end
