(* ===== verification/Cycles.thy ===== *)
theory Cycles
  imports Entries
begin

text \<open>
  The cycle search of the merge order (\<open>build.rs\<close>, \<open>cycles.rs\<close>): closures of mergeable nodes, the
  smallest one, and the order in which a cycle is harvested. A \<open>HashSet\<close> is a set; where the source
  iterates over one, the order is the parameter \<open>hash_order\<close>.
\<close>

section \<open>Closures\<close>

text \<open>The stack is the \<open>Vec\<close> with its end first.\<close>

function gather_loop ::
  "digraph \<Rightarrow> ignore option \<Rightarrow> nat list \<Rightarrow> nat set \<Rightarrow> nat list \<Rightarrow> nat set option" where
  "gather_loop g ig mergeable sel [] = Some sel"
| "gather_loop g ig mergeable sel (x # stack) =
     (if x \<in> sel then gather_loop g ig mergeable sel stack
      else if x \<notin> set mergeable then None
      else gather_loop g ig mergeable (insert x sel) (rev (child_nodes g x ig) @ stack))"
  by pat_completeness auto
termination
proof (relation "measures [\<lambda>(g, ig, mergeable, sel, stack). card (set mergeable - sel),
    \<lambda>(g, ig, mergeable, sel, stack). length stack]", simp, simp)
  fix g ig and mergeable :: "nat list" and sel x and stack :: "nat list"
  assume "x \<notin> sel" "\<not> x \<notin> set mergeable"
  then have "set mergeable - insert x sel \<subset> set mergeable - sel" by blast
  then have "card (set mergeable - insert x sel) < card (set mergeable - sel)"
    by (rule psubset_card_mono [rotated]) simp
  then show "((g, ig, mergeable, insert x sel, rev (child_nodes g x ig) @ stack), g, ig, mergeable, sel, x # stack)
      \<in> measures [\<lambda>(g, ig, mergeable, sel, stack). card (set mergeable - sel),
          \<lambda>(g, ig, mergeable, sel, stack). length stack]"
    by simp
qed

definition gather_deps :: "digraph \<Rightarrow> nat \<Rightarrow> ignore option \<Rightarrow> nat list \<Rightarrow> nat set option" where
  "gather_deps g node ig mergeable = gather_loop g ig mergeable {} [node]"

section \<open>The smallest closure\<close>

fun scan_candidates ::
  "digraph \<Rightarrow> ignore option \<Rightarrow> nat list \<Rightarrow> nat list \<Rightarrow>
   (nat set \<times> ignore option) option \<Rightarrow> (nat set \<times> ignore option) option" where
  "scan_candidates g ig mergeable [] best = best"
| "scan_candidates g ig mergeable (node # cand) best =
     (if \<not> has_parents g node then scan_candidates g ig mergeable cand best
      else case gather_deps g node ig mergeable of
             None \<Rightarrow> scan_candidates g ig mergeable cand best
           | Some cl \<Rightarrow>
               scan_candidates g ig mergeable cand
                 (if (case best of None \<Rightarrow> True | Some (b, _) \<Rightarrow> card cl < card b)
                  then Some (cl, ig) else best))"

fun scan_rungs ::
  "digraph \<Rightarrow> priority_range \<Rightarrow> nat list \<Rightarrow> nat list \<Rightarrow> nat list \<Rightarrow> (nat set \<times> ignore option) option" where
  "scan_rungs g lr mergeable cand [] = None"
| "scan_rungs g lr mergeable cand (i # rungs) =
     (case scan_candidates g (range_ig lr i) mergeable cand None of
        None \<Rightarrow> scan_rungs g lr mergeable cand rungs
      | Some best \<Rightarrow> Some best)"

definition cycle_candidates ::
  "(nat set \<Rightarrow> nat list) \<Rightarrow> graph_entry list \<Rightarrow> nat list \<Rightarrow> bool \<Rightarrow> nat list \<Rightarrow> nat list" where
  "cycle_candidates hash_order entries asap prefer_asap mergeable =
     sort_by (cmp_entries entries)
       (if prefer_asap \<and> asap \<noteq> [] then filter (\<lambda>i. i \<in> set mergeable) asap
        else hash_order (set mergeable))"

definition find_smallest_cycle ::
  "(nat set \<Rightarrow> nat list) \<Rightarrow> digraph \<Rightarrow> graph_entry list \<Rightarrow> priority_range \<Rightarrow> nat list \<Rightarrow> bool \<Rightarrow> nat set \<Rightarrow>
   frontier option \<Rightarrow> (nat set \<times> ignore option) option \<times> frontier option" where
  "find_smallest_cycle hash_order g entries lr asap prefer_asap ineligible fro =
     (let (nodes, fro) = leaves_via g (ig_medium lr) fro;
          mergeable = filter (\<lambda>i. i \<notin> ineligible) nodes
      in if mergeable = [] then (None, fro)
         else (scan_rungs g lr mergeable
                 (cycle_candidates hash_order entries asap prefer_asap mergeable)
                 [pr_medium_post lr..<Suc (pr_medium_soft lr)], fro))"

section \<open>Harvesting a cycle\<close>

definition harvest_ladder :: "ignore option list" where
  "harvest_ladder = filter (\<lambda>f. f \<noteq> None) (pr_ignore NORMAL @ pr_ignore SATISFIED)"

definition harvest_leaves :: "digraph \<Rightarrow> nat set \<Rightarrow> ignore option \<Rightarrow> nat list" where
  "harvest_leaves g remaining ig =
     filter (\<lambda>i. i \<in> remaining \<and>
               \<not> list_ex (\<lambda>(c, prios). c \<in> remaining \<and> survives ig prios) (dg_children g ! i)) (dg_order g)"

fun first_leaves :: "digraph \<Rightarrow> nat set \<Rightarrow> ignore option list \<Rightarrow> nat list" where
  "first_leaves g remaining [] = []"
| "first_leaves g remaining (ig # igs) =
     (let leaves = harvest_leaves g remaining ig
      in if leaves \<noteq> [] then leaves else first_leaves g remaining igs)"

text \<open>\<open>expect("remaining is non-empty")\<close>: a member of the cycle that is not in the order.\<close>

definition harvest_pick :: "digraph \<Rightarrow> nat set \<Rightarrow> nat run" where
  "harvest_pick g remaining =
     (let leaves = first_leaves g remaining harvest_ladder
      in run_bind
           (if leaves \<noteq> [] then Return leaves
            else case find (\<lambda>i. i \<in> remaining) (rev (dg_order g)) of
                   None \<Rightarrow> Panic
                 | Some i \<Rightarrow> Return [i])
           (\<lambda>leaves. Return
              (case filter (\<lambda>i. dg_installed g ! i) leaves of [] \<Rightarrow> hd leaves | i # _ \<Rightarrow> i)))"

text \<open>Fuel: the size of the cycle, since every round removes one member.\<close>

fun harvest_loop :: "nat \<Rightarrow> digraph \<Rightarrow> nat set \<Rightarrow> nat list \<Rightarrow> nat list run" where
  "harvest_loop 0 g remaining out = Return out"
| "harvest_loop (Suc k) g remaining out =
     (if remaining = {} then Return out
      else run_bind (harvest_pick g remaining) (\<lambda>pick.
             harvest_loop k g (remaining - {pick}) (out @ [pick])))"

definition harvest_cycle :: "digraph \<Rightarrow> nat set \<Rightarrow> nat list run" where
  "harvest_cycle g sub = harvest_loop (card sub) g sub []"

end
