(* ===== verification/Select.thy ===== *)
theory Select
  imports Cycles
begin

text \<open>
  The selection loop of the merge order (\<open>merge_order/select_nodes.rs\<close>) with the stuck branch of tree
  mode (\<open>tree_display.rs\<close>): one definition per rung, the round that composes them with their early
  returns, and the loop. Debug output is left out. \<open>hash_order\<close> is the iteration order of a
  \<open>HashSet\<close>.
\<close>

section \<open>Tree mode\<close>

record pending_uninstall =
  pu_repl :: nat
  pu_inst_cp :: "string \<times> string"
  pu_inst_slot :: string
  pu_inst_version :: string
  pu_owner :: nat
  pu_blocker :: nat
  pu_strong :: bool
  pu_node :: "nat option"

record tree_stuck =
  ts_pending :: "pending_uninstall list"
  ts_scheduled :: "nat set"
  ts_solved :: "(nat \<times> nat) list"
  ts_progressed :: bool

definition walked_installed :: "graph_entry list \<Rightarrow> pending_uninstall \<Rightarrow> bool" where
  "walked_installed entries p =
     list_ex (\<lambda>e. e_category e = fst (pu_inst_cp p) \<and> e_package e = snd (pu_inst_cp p)
                  \<and> e_slot e = Some (pu_inst_slot p)
                  \<and> e_outcome e = AlreadyInstalled (pu_inst_version p)) entries"

definition tree_schedule_stuck :: "graph_entry list \<Rightarrow> digraph \<times> tree_stuck \<Rightarrow> digraph \<times> tree_stuck" where
  "tree_schedule_stuck entries = (\<lambda>(g, ts).
     case position (\<lambda>p. pu_node p = None \<and> \<not> pu_strong p \<and> \<not> walked_installed entries p) (ts_pending ts) of
       None \<Rightarrow> (g, ts)
     | Some k \<Rightarrow>
         let p = ts_pending ts ! k;
             u = dg_n g;
             parents = dg_parents g @ [[]]
         in (g\<lparr> dg_n := dg_n g + 1,
                dg_children := dg_children g @ [[(pu_repl p, [default_priority])]],
                dg_parents := parents[pu_repl p := parents ! pu_repl p @ [u]],
                dg_order := dg_order g @ [u],
                dg_installed := dg_installed g @ [True],
                dg_alive := dg_alive g @ [True] \<rparr>,
             ts\<lparr> ts_pending := (ts_pending ts)[k := p\<lparr> pu_node := Some u \<rparr>],
                 ts_scheduled := insert u (ts_scheduled ts),
                 ts_progressed := True \<rparr>))"

definition note_pending ::
  "nat \<Rightarrow> pending_uninstall \<Rightarrow> digraph \<times> tree_stuck \<Rightarrow> digraph \<times> tree_stuck" where
  "note_pending selected p = (\<lambda>(g, ts).
     case pu_node p of
       None \<Rightarrow> (g, ts)
     | Some u \<Rightarrow>
         if u \<notin> ts_scheduled ts \<or> (selected \<noteq> pu_repl p \<and> selected \<noteq> u) then (g, ts)
         else (if selected = pu_repl p then g\<lparr> dg_alive := (dg_alive g)[u := False] \<rparr> else g,
               if (pu_owner p, pu_blocker p) \<in> set (ts_solved ts) then ts
               else ts\<lparr> ts_solved := ts_solved ts @ [(pu_owner p, pu_blocker p)] \<rparr>))"

definition tree_note_selection :: "nat \<Rightarrow> digraph \<times> tree_stuck \<Rightarrow> digraph \<times> tree_stuck" where
  "tree_note_selection selected = (\<lambda>(g, ts). fold (note_pending selected) (ts_pending ts) (g, ts))"

fun stuck_rows :: "graph_entry list \<Rightarrow> nat \<Rightarrow> (nat \<times> blocker_conflict) list \<Rightarrow> pending_uninstall list" where
  "stuck_rows entries owner [] = []"
| "stuck_rows entries owner ((blocker, b) # rows) =
     (case (bc_unsolvable b, bc_satisfied_by b) of
        (False, Some (Replacement cp slot)) \<Rightarrow>
          (case position (\<lambda>e. e_category e = fst cp \<and> e_package e = snd cp \<and> e_slot e = Some slot
                  \<and> (case merge_bound_version (e_outcome e) of
                       None \<Rightarrow> False | Some v \<Rightarrow> v \<noteq> bc_matched_version b)) entries of
             None \<Rightarrow> stuck_rows entries owner rows
           | Some repl \<Rightarrow>
               \<lparr> pu_repl = repl, pu_inst_cp = (bc_matched_category b, bc_matched_package b),
                 pu_inst_slot = slot, pu_inst_version = bc_matched_version b, pu_owner = owner,
                 pu_blocker = blocker, pu_strong = bc_strong b, pu_node = None \<rparr>
               # stuck_rows entries owner rows)
      | _ \<Rightarrow> stuck_rows entries owner rows)"

definition tree_stuck_pending :: "graph_entry list \<Rightarrow> pending_uninstall list" where
  "tree_stuck_pending entries =
     concat (map (\<lambda>(owner, e). stuck_rows entries owner (enumerate 0 (e_blockers e))) (enumerate 0 entries))"

section \<open>The state of the loop\<close>

record sel_state =
  sl_g :: digraph
  sl_fro :: "frontier option"
  sl_ret :: "nat list"
  sl_asap :: "nat list"
  sl_prefer_asap :: bool
  sl_drop_satisfied :: bool
  sl_scheduled :: "nat set"
  sl_tree :: "tree_stuck option"

text \<open>Owners of live unadmitted removals, and admitted removals whose owner is not admitted.\<close>

definition waiting_owners :: "digraph \<Rightarrow> nat set \<Rightarrow> (nat \<times> nat) list \<Rightarrow> nat set" where
  "waiting_owners g scheduled pairs =
     set (filter (\<lambda>v. dg_alive g ! v)
       (map snd (filter (\<lambda>(r, v). r \<notin> scheduled \<and> dg_alive g ! r) pairs)))"

definition admitted_waiting :: "bool \<Rightarrow> digraph \<Rightarrow> nat set \<Rightarrow> (nat \<times> nat) list \<Rightarrow> nat set" where
  "admitted_waiting tree g scheduled pairs =
     (if tree
      then set (map fst (filter (\<lambda>(r, v). r \<in> scheduled \<and> v \<notin> scheduled \<and> dg_alive g ! r \<and> dg_alive g ! v)
                  pairs))
      else {})"

definition ineligible_nodes :: "digraph \<Rightarrow> nat set \<Rightarrow> nat list \<Rightarrow> nat set \<Rightarrow> nat set \<Rightarrow> nat set" where
  "ineligible_nodes g scheduled removals waiting admitted =
     waiting \<union> set (filter (\<lambda>r. r \<notin> scheduled \<and> dg_alive g ! r) removals) \<union> admitted"

section \<open>The rungs\<close>

text \<open>The first (rung, position) with a mergeable node.\<close>

definition asap_pick ::
  "frontier option \<Rightarrow> digraph \<Rightarrow> nat set \<Rightarrow> nat set \<Rightarrow> priority_range \<Rightarrow> nat list \<Rightarrow> (nat \<times> nat) option" where
  "asap_pick fro g waiting admitted lr asap =
     find (\<lambda>(i, pos). asap ! pos \<notin> waiting \<and> asap ! pos \<notin> admitted
                      \<and> is_leaf_via fro g (asap ! pos) (range_ig lr i))
       (List.product [1..<Suc (pr_medium_soft lr)] [0..<length asap])"

text \<open>A node with an alive prioritised parent through an edge that survives the ladder.\<close>

definition child_of_asap :: "digraph \<Rightarrow> priority_range \<Rightarrow> nat list \<Rightarrow> nat \<Rightarrow> bool" where
  "child_of_asap g lr asap node =
     list_ex (\<lambda>p. dg_alive g ! p \<and> p \<in> set asap
                  \<and> list_ex (\<lambda>(c, prios). c = node \<and> survives (ig_medium_soft lr) prios) (dg_children g ! p))
       (dg_parents g ! node)"

definition rung_choice ::
  "graph_entry list \<Rightarrow> digraph \<Rightarrow> nat list \<Rightarrow> bool \<Rightarrow> priority_range \<Rightarrow> ignore option \<Rightarrow> nat list \<Rightarrow>
   nat list option" where
  "rung_choice entries g asap tree lr ig rest =
     (if rest = [] then None
      else
        let good_uninstalls =
              (if length rest > 1 then filter (\<lambda>n. is_uninstall (entries ! n)) rest else []);
            rest = (if good_uninstalls \<noteq> [] then good_uninstalls else rest)
        in if good_uninstalls \<noteq> [] \<or> length rest = 1 \<or> (ig = None \<and> asap = [] \<and> \<not> tree)
           then Some rest
           else
             let picked = (if asap \<noteq> [] then find (child_of_asap g lr asap) rest else None);
                 picked = (if picked = None then find (has_parents g) rest else picked)
             in map_option (\<lambda>p. [p]) picked)"

fun first_rung_scan ::
  "graph_entry list \<Rightarrow> digraph \<Rightarrow> nat list \<Rightarrow> bool \<Rightarrow> priority_range \<Rightarrow> (nat \<Rightarrow> bool) \<Rightarrow> nat list \<Rightarrow>
   frontier option \<Rightarrow> (nat list \<times> ignore option) option \<times> frontier option" where
  "first_rung_scan entries g asap tree lr competes [] fro = (None, fro)"
| "first_rung_scan entries g asap tree lr competes (i # rungs) fro =
     (let ig = range_ig lr i;
          (nodes, fro) = leaves_via g ig fro
      in case rung_choice entries g asap tree lr ig (filter competes nodes) of
           None \<Rightarrow> first_rung_scan entries g asap tree lr competes rungs fro
         | Some sel \<Rightarrow> (Some (sel, ig), fro))"

definition select_first_rung ::
  "graph_entry list \<Rightarrow> digraph \<Rightarrow> nat list \<Rightarrow> bool \<Rightarrow> bool \<Rightarrow> priority_range \<Rightarrow> (nat \<Rightarrow> bool) \<Rightarrow>
   (nat list \<times> ignore option) option \<Rightarrow> frontier option \<Rightarrow>
   (nat list \<times> ignore option) option \<times> frontier option" where
  "select_first_rung entries g asap prefer_asap tree lr competes selected fro =
     (if selected = None \<and> \<not> (prefer_asap \<and> asap \<noteq> [])
      then first_rung_scan entries g asap tree lr competes [0..<Suc (pr_medium_soft lr)] fro
      else (selected, fro))"

definition cycle_ranges :: "priority_range \<Rightarrow> bool \<Rightarrow> priority_range list" where
  "cycle_ranges lr drop_satisfied =
     (if lr \<noteq> NORMAL then [NORMAL] else []) @ [lr]
     @ (if drop_satisfied \<and> lr \<noteq> SATISFIED then [SATISFIED] else [])"

definition cycle_choice :: "(nat set \<Rightarrow> nat list) \<Rightarrow> digraph \<Rightarrow> nat set \<Rightarrow> nat list run" where
  "cycle_choice hash_order g sub =
     (case filter (\<lambda>i. i \<in> sub \<and> \<not> list_ex (\<lambda>(c, _). c \<in> sub) (dg_children g ! i)) (dg_order g) of
        i # _ \<Rightarrow> Return [i]
      | [] \<Rightarrow> if card sub > 1 then harvest_cycle g sub else Return (hash_order sub))"

fun cycle_scan ::
  "(nat set \<Rightarrow> nat list) \<Rightarrow> graph_entry list \<Rightarrow> digraph \<Rightarrow> nat list \<Rightarrow> bool \<Rightarrow> nat set \<Rightarrow>
   priority_range list \<Rightarrow> frontier option \<Rightarrow> ((nat list \<times> ignore option) option \<times> frontier option) run" where
  "cycle_scan hash_order entries g asap prefer_asap ineligible [] fro = Return (None, fro)"
| "cycle_scan hash_order entries g asap prefer_asap ineligible (lr # lrs) fro =
     (case find_smallest_cycle hash_order g entries lr asap prefer_asap ineligible fro of
        (None, fro) \<Rightarrow> cycle_scan hash_order entries g asap prefer_asap ineligible lrs fro
      | (Some (sub, ig), fro) \<Rightarrow>
          run_bind (cycle_choice hash_order g sub) (\<lambda>sel. Return (Some (sel, ig), fro)))"

text \<open>\<open>None\<close> of the outer option is \<open>ControlFlow::Break\<close>: the round is retried without \<open>asap\<close>.\<close>

definition select_second_rung ::
  "(nat set \<Rightarrow> nat list) \<Rightarrow> graph_entry list \<Rightarrow> digraph \<Rightarrow> nat list \<Rightarrow> bool \<Rightarrow> bool \<Rightarrow> nat set \<Rightarrow>
   priority_range \<Rightarrow> (nat list \<times> ignore option) option \<Rightarrow> frontier option \<Rightarrow>
   ((nat list \<times> ignore option) option option \<times> frontier option) run" where
  "select_second_rung hash_order entries g asap prefer_asap drop_satisfied ineligible lr selected fro =
     (if selected \<noteq> None then Return (Some selected, fro)
      else run_bind (cycle_scan hash_order entries g asap prefer_asap ineligible
                       (cycle_ranges lr drop_satisfied) fro)
             (\<lambda>(selected, fro).
               if selected = None \<and> prefer_asap \<and> asap \<noteq> [] then Return (None, fro)
               else Return (Some selected, fro)))"

section \<open>After a selection\<close>

definition freed_medium_post :: "dep_priority list \<Rightarrow> bool" where
  "freed_medium_post prios =
     (\<not> list_ex (\<lambda>p. \<not> s_ignore_runtime_post p) prios
      \<and> list_ex (\<lambda>p. \<not> s_ignore_satisfied_runtime_post p) prios)"

definition promote_freed_medium_post ::
  "(nat list \<times> ignore option) option \<Rightarrow> digraph \<Rightarrow> nat list \<Rightarrow> nat list" where
  "promote_freed_medium_post selected g asap =
     (case selected of
        Some (sel, Some _) \<Rightarrow>
          fold (\<lambda>c asap. if c \<in> set sel \<or> c \<in> set asap then asap else asap @ [c])
            (concat (map (\<lambda>node. map fst (filter (\<lambda>(c, prios). dg_alive g ! c \<and> freed_medium_post prios)
                                          (dg_children g ! node))) sel))
            asap
      | _ \<Rightarrow> asap)"

definition first_unadmitted :: "digraph \<Rightarrow> nat list \<Rightarrow> nat set \<Rightarrow> nat option" where
  "first_unadmitted g removals scheduled = find (\<lambda>r. r \<notin> scheduled \<and> dg_alive g ! r) removals"

text \<open>Tree mode schedules a stuck uninstall first; \<open>Some\<close> is \<open>ControlFlow::Break\<close> with the new state.\<close>

definition retry_state :: "sel_state \<Rightarrow> sel_state" where
  "retry_state st = st\<lparr> sl_prefer_asap := True, sl_drop_satisfied := False \<rparr>"

definition stuck_tree :: "graph_entry list \<Rightarrow> sel_state \<Rightarrow> sel_state \<times> bool" where
  "stuck_tree entries st =
     (case sl_tree st of
        None \<Rightarrow> (st, False)
      | Some ts \<Rightarrow>
          let (g, ts) = tree_schedule_stuck entries (sl_g st, ts)
          in (st\<lparr> sl_g := g, sl_tree := Some (ts\<lparr> ts_progressed := False \<rparr>) \<rparr>, ts_progressed ts))"

definition schedule_stuck_or_admit ::
  "graph_entry list \<Rightarrow> nat list \<Rightarrow> (nat list \<times> ignore option) option \<Rightarrow> sel_state \<Rightarrow> sel_state \<times> bool" where
  "schedule_stuck_or_admit entries removals selected st =
     (if selected \<noteq> None then (st, False)
      else
        let (st, progressed) = stuck_tree entries st
        in if progressed then (retry_state st, True)
           else case first_unadmitted (sl_g st) removals (sl_scheduled st) of
                  Some r \<Rightarrow> (retry_state (st\<lparr> sl_scheduled := insert r (sl_scheduled st) \<rparr>), True)
                | None \<Rightarrow> (st, False))"

definition order_rank :: "nat list \<Rightarrow> nat \<Rightarrow> nat" where
  "order_rank order i = (case position (\<lambda>j. j = i) order of None \<Rightarrow> 0 | Some p \<Rightarrow> Suc p)"

definition root_choice :: "digraph \<Rightarrow> frontier option \<Rightarrow> nat list option \<times> frontier option" where
  "root_choice g fro =
     (let (roots, fro) = leaves_via g None fro
      in (if roots = [] then None else Some (sort_key (order_rank (dg_order g)) roots), fro))"

definition fallback_node :: "digraph \<Rightarrow> nat option" where
  "fallback_node g =
     (case find (\<lambda>i. dg_alive g ! i \<and> is_leaf g i (ig_medium SATISFIED)) (dg_order g) of
        Some i \<Rightarrow> Some i
      | None \<Rightarrow> find (\<lambda>i. dg_alive g ! i) (dg_order g))"

definition commit_node :: "nat \<Rightarrow> sel_state \<Rightarrow> sel_state" where
  "commit_node i st =
     (if \<not> dg_alive (sl_g st) ! i then st
      else
        let g = kill i (sl_g st);
            fro = map_option (frontier_remove i (dg_children g ! i) (dg_parents g ! i)) (sl_fro st);
            (g, tree) =
              (case sl_tree st of
                 None \<Rightarrow> (g, None)
               | Some ts \<Rightarrow> (let (g, ts) = tree_note_selection i (g, ts) in (g, Some ts)))
        in st\<lparr> sl_g := g, sl_fro := fro, sl_tree := tree, sl_ret := sl_ret st @ [i] \<rparr>)"

definition commit_selection :: "nat list \<Rightarrow> sel_state \<Rightarrow> sel_state" where
  "commit_selection selected st =
     (let st = fold commit_node selected (retry_state st)
      in st\<lparr> sl_g := retain_alive (sl_g st) \<rparr>)"

section \<open>The loop\<close>

text \<open>The last resorts: the roots, then \<open>drop_satisfied\<close>, then one node of an unbreakable cycle.\<close>

definition select_last_resort :: "sel_state \<Rightarrow> sel_state run" where
  "select_last_resort st =
     (case root_choice (sl_g st) (sl_fro st) of
        (Some roots, fro) \<Rightarrow> Return (commit_selection roots (st\<lparr> sl_fro := fro \<rparr>))
      | (None, fro) \<Rightarrow>
          if \<not> sl_drop_satisfied st then Return (st\<lparr> sl_fro := fro, sl_drop_satisfied := True \<rparr>)
          else case fallback_node (sl_g st) of
                 None \<Rightarrow> Panic
               | Some i \<Rightarrow> Return (commit_selection [i] (st\<lparr> sl_fro := fro \<rparr>)))"

text \<open>The ladder of a round, and its attempt to take a prioritised node.\<close>

definition asap_active :: "sel_state \<Rightarrow> bool" where
  "asap_active st = (sl_prefer_asap st \<and> sl_asap st \<noteq> [])"

definition round_range :: "sel_state \<Rightarrow> priority_range" where
  "round_range st = (if asap_active st then SATISFIED else NORMAL)"

definition asap_step ::
  "sel_state \<Rightarrow> nat set \<Rightarrow> nat set \<Rightarrow> (nat list \<times> ignore option) option \<times> nat list" where
  "asap_step st waiting admitted =
     (if asap_active st
      then
        let g = sl_g st; lr = round_range st;
            asap = filter ((!) (dg_alive g)) (sl_asap st)
        in case asap_pick (sl_fro st) g waiting admitted lr asap of
             None \<Rightarrow> (None, asap)
           | Some (i, pos) \<Rightarrow>
               (Some ([asap ! pos], range_ig lr i), take pos asap @ drop (Suc pos) asap)
      else (None, sl_asap st))"

text \<open>The three ways to select; the outer option is that of \<open>select_second_rung\<close>.\<close>

definition round_front ::
  "(nat set \<Rightarrow> nat list) \<Rightarrow> graph_entry list \<Rightarrow> sel_state \<Rightarrow>
   ((nat list \<times> ignore option) option option \<times> nat list \<times> frontier option) run" where
  "round_front hash_order entries st =
     (let g = sl_g st; scheduled = sl_scheduled st; tree = (sl_tree st \<noteq> None);
          removals = removal_rows entries; pairs = removal_owner_pairs entries;
          waiting = waiting_owners g scheduled pairs;
          admitted = admitted_waiting tree g scheduled pairs;
          ineligible = ineligible_nodes g scheduled removals waiting admitted;
          (selected, asap) = asap_step st waiting admitted;
          (selected, fro) =
            select_first_rung entries g asap (sl_prefer_asap st) tree (round_range st)
              (\<lambda>n. n \<notin> waiting \<and> n \<notin> admitted \<and> (n \<in> scheduled \<or> n \<notin> set removals)) selected (sl_fro st)
      in run_bind
           (select_second_rung hash_order entries g asap (sl_prefer_asap st) (sl_drop_satisfied st)
              ineligible (round_range st) selected fro)
           (\<lambda>(selected, fro). Return (selected, asap, fro)))"

definition round_back ::
  "graph_entry list \<Rightarrow> (nat list \<times> ignore option) option \<Rightarrow> sel_state \<Rightarrow> sel_state run" where
  "round_back entries selected st =
     (let (st, retry) = schedule_stuck_or_admit entries (removal_rows entries) selected st
      in if retry then Return st
         else case selected of
                Some (sel, _) \<Rightarrow> Return (commit_selection sel st)
              | None \<Rightarrow> select_last_resort st)"

definition select_round :: "(nat set \<Rightarrow> nat list) \<Rightarrow> graph_entry list \<Rightarrow> sel_state \<Rightarrow> sel_state run" where
  "select_round hash_order entries st =
     run_bind (round_front hash_order entries st) (\<lambda>(selected, asap, fro).
       case selected of
         None \<Rightarrow> Return (st\<lparr> sl_fro := fro, sl_asap := asap, sl_prefer_asap := False \<rparr>)
       | Some selected \<Rightarrow>
           round_back entries selected
             (st\<lparr> sl_fro := fro, sl_asap := promote_freed_medium_post selected (sl_g st) asap \<rparr>))"

definition any_alive :: "digraph \<Rightarrow> bool" where
  "any_alive g = list_ex (\<lambda>i. dg_alive g ! i) (dg_order g)"

text \<open>\<open>None\<close> is a loop that does not end.\<close>

partial_function (option) select_loop ::
  "(nat set \<Rightarrow> nat list) \<Rightarrow> graph_entry list \<Rightarrow> sel_state \<Rightarrow> sel_state run option" where
  "select_loop hash_order entries st =
     (if any_alive (sl_g st)
      then case select_round hash_order entries st of
             Panic \<Rightarrow> Some Panic
           | Return st \<Rightarrow> select_loop hash_order entries st
      else Some (Return st))"

definition select_start :: "bool \<Rightarrow> graph_entry list \<Rightarrow> digraph \<Rightarrow> tree_stuck option \<Rightarrow> sel_state" where
  "select_start frontier_enabled entries g tree =
     \<lparr> sl_g = g, sl_fro = (if frontier_enabled then Some (frontier_build g) else None), sl_ret = [],
       sl_asap = seed_toolchain_asap entries, sl_prefer_asap = True, sl_drop_satisfied = False,
       sl_scheduled = {}, sl_tree = tree \<rparr>"

definition select_nodes ::
  "bool \<Rightarrow> (nat set \<Rightarrow> nat list) \<Rightarrow> graph_entry list \<Rightarrow> digraph \<Rightarrow> tree_stuck option \<Rightarrow> nat list run option" where
  "select_nodes frontier_enabled hash_order entries g tree =
     map_option (\<lambda>r. run_bind r (\<lambda>st. Return (sl_ret st)))
       (select_loop hash_order entries (select_start frontier_enabled entries g tree))"

end
