(* ===== verification/Build.thy ===== *)
theory Build
  imports Closure Select
begin

text \<open>
  The merge-order digraph (\<open>merge_order/build.rs\<close>), the prune of its synthetic roots and the whole
  scheduler (\<open>merge_order/mod.rs\<close>), the tree-mode orders (\<open>merge_order/tree_display.rs\<close>) and the
  sorted entries (\<open>resolve/entry.rs\<close>). \<open>None\<close> is a loop that does not end.
\<close>

section \<open>Discovery\<close>

record discovery =
  ds_seen :: "bool list"
  ds_order :: "nat list"
  ds_stack :: "nat list"
  ds_disjunctive :: "(nat \<times> nat) list"

text \<open>The stacks have their end first.\<close>

definition discover :: "nat \<Rightarrow> discovery \<Rightarrow> discovery" where
  "discover i st =
     (if ds_seen st ! i then st
      else st\<lparr> ds_seen := (ds_seen st)[i := True], ds_order := ds_order st @ [i],
               ds_stack := i # ds_stack st \<rparr>)"

definition discover_matches ::
  "digraph_prelude \<Rightarrow> string \<Rightarrow> string \<times> string \<Rightarrow> discovery \<Rightarrow> discovery" where
  "discover_matches pre atom_str cp st =
     (case dp_cp_indices pre cp of
        None \<Rightarrow> st
      | Some idxs \<Rightarrow> fold (\<lambda>j st. if edge_matches pre atom_str j then discover j st else st) idxs st)"

definition discover_seeds :: "digraph_prelude \<Rightarrow> string list \<Rightarrow> discovery \<Rightarrow> discovery" where
  "discover_seeds pre =
     fold (\<lambda>s st. case parse_dep_atom s of
              None \<Rightarrow> st
            | Some a \<Rightarrow>
                if a_blocker a \<noteq> BlockNone then st
                else discover_matches pre s (a_category a, a_package a) st)"

definition expand_node ::
  "digraph_prelude \<Rightarrow> nat set list \<Rightarrow> graph_entry list \<Rightarrow> nat \<Rightarrow> bool \<Rightarrow> nat option \<Rightarrow> discovery \<Rightarrow> discovery" where
  "expand_node pre suppressed entries i disjunctive key_filter =
     fold (\<lambda>(ei, edge) st.
         if edge_disjunctive edge \<noteq> disjunctive
            \<or> (case key_filter of None \<Rightarrow> False | Some k \<Rightarrow> k \<noteq> edge_key edge)
            \<or> ei \<in> suppressed ! i then st
         else discover_matches pre (edge_atom edge) (edge_category edge, edge_package edge) st)
       (enumerate 0 (e_deps (entries ! i)))"

definition discover_step ::
  "digraph_prelude \<Rightarrow> nat set list \<Rightarrow> graph_entry list \<Rightarrow> discovery \<Rightarrow> discovery" where
  "discover_step pre suppressed entries st =
     (case ds_stack st of
        i # stack \<Rightarrow>
          let keys = remdups_adj (map edge_key (filter edge_disjunctive (e_deps (entries ! i))));
              st = st\<lparr> ds_stack := stack, ds_disjunctive := rev (map (Pair i) keys) @ ds_disjunctive st \<rparr>
          in expand_node pre suppressed entries i False None st
      | [] \<Rightarrow>
          (case ds_disjunctive st of
             [] \<Rightarrow> st
           | (i, k) # rest \<Rightarrow>
               expand_node pre suppressed entries i True (Some k) (st\<lparr> ds_disjunctive := rest \<rparr>)))"

definition discovery_order ::
  "digraph_prelude \<Rightarrow> nat set list \<Rightarrow> graph_entry list \<Rightarrow> string list \<Rightarrow> nat list option" where
  "discovery_order pre suppressed entries top_level_atoms =
     map_option (\<lambda>st. ds_order st @ filter (\<lambda>i. \<not> ds_seen st ! i) [0..<length entries])
       (while_option (\<lambda>st. ds_stack st \<noteq> [] \<or> ds_disjunctive st \<noteq> [])
          (discover_step pre suppressed entries)
          (discover_seeds pre top_level_atoms
             \<lparr> ds_seen = replicate (length entries) False, ds_order = [], ds_stack = [],
               ds_disjunctive = [] \<rparr>))"

section \<open>Edges\<close>

definition has_child :: "digraph \<Rightarrow> nat \<Rightarrow> nat \<Rightarrow> bool" where
  "has_child g i j = list_ex (\<lambda>(c, _). c = j) (dg_children g ! i)"

definition add_dep_edge ::
  "digraph_prelude \<Rightarrow> installed_map \<Rightarrow> nat set list \<Rightarrow> graph_entry list \<Rightarrow> nat \<Rightarrow> nat \<times> dep_edge \<Rightarrow>
   digraph \<Rightarrow> digraph" where
  "add_dep_edge pre installed_by_cp suppressed entries i = (\<lambda>(ei, edge) g.
     if ei \<in> suppressed ! i then g
     else case select_dep_target pre entries i (e_deps (entries ! i)) ei (suppressed ! i) False of
            None \<Rightarrow> g
          | Some j \<Rightarrow>
              let sat = edge_satisfied_with installed_by_cp edge (entry_slots (entries ! j))
              in if i = j \<and> \<not> (buildtime (edge_priority edge) \<and> \<not> sat) then g
                 else add_edge i j ((edge_priority edge)\<lparr> satisfied := sat \<rparr>) g)"

text \<open>The owner of a removal becomes a child of the removal; else the owner gets the edge.\<close>

definition removal_edge :: "nat \<Rightarrow> nat \<Rightarrow> digraph \<Rightarrow> digraph" where
  "removal_edge j i g =
     (if i = j \<or> has_child g i j then g
      else add_edge j i (default_priority\<lparr> buildtime := True, runtime := True \<rparr>) g)"

definition owner_edge :: "graph_entry list \<Rightarrow> nat \<Rightarrow> nat \<Rightarrow> digraph \<Rightarrow> digraph" where
  "owner_edge entries j i g =
     (if i = j \<or> has_child g i j then g
      else if list_ex (\<lambda>(c, _). e_category (entries ! c) = e_category (entries ! j)
                               \<and> e_package (entries ! c) = e_package (entries ! j)) (dg_children g ! i) then g
      else if has_child g j i then g
      else add_edge i j (default_priority\<lparr> runtime := True, satisfied := dg_installed g ! j \<rparr>) g)"

definition fallback_edges :: "digraph_prelude \<Rightarrow> graph_entry list \<Rightarrow> nat \<Rightarrow> digraph \<Rightarrow> digraph" where
  "fallback_edges pre entries j =
     fold (\<lambda>owner g.
         case dp_cp_indices pre owner of
           None \<Rightarrow> g
         | Some idxs \<Rightarrow>
             fold (\<lambda>i. if is_uninstall (entries ! j) then removal_edge j i else owner_edge entries j i) idxs g)
       (e_required_by (entries ! j))"

definition empty_graph :: "digraph_prelude \<Rightarrow> nat \<Rightarrow> nat list \<Rightarrow> digraph" where
  "empty_graph pre n order =
     \<lparr> dg_n = n, dg_children = replicate n [], dg_parents = replicate n [], dg_order = order,
       dg_installed = dp_installed pre, dg_alive = replicate n True \<rparr>"

definition build_digraph ::
  "vdb_view \<Rightarrow> circular_map \<Rightarrow> graph_entry list \<Rightarrow> string list \<Rightarrow> digraph option" where
  "build_digraph v circular entries top_level_atoms =
     (let n = length entries;
          pre = digraph_prelude_of v entries;
          installed_by_cp = installed_candidates_by_cp v;
          suppressed = suppressed_alt_edges v pre circular entries
      in map_option (\<lambda>order.
             fold (fallback_edges pre entries) [0..<n]
               (fold (\<lambda>i. fold (add_dep_edge pre installed_by_cp suppressed entries i)
                            (enumerate 0 (e_deps (entries ! i))))
                 [0..<n] (empty_graph pre n order)))
           (discovery_order pre suppressed entries top_level_atoms))"

section \<open>The bias\<close>

definition system_cps :: "string list \<Rightarrow> (string \<times> string) set" where
  "system_cps system_packages =
     set (List.map_filter (\<lambda>s. map_option (\<lambda>a. (a_category a, a_package a)) (parse_dep_atom s)) system_packages)"

definition deep_step :: "digraph \<Rightarrow> bool list \<times> nat list \<Rightarrow> bool list \<times> nat list" where
  "deep_step g = (\<lambda>(deep, stack).
     case stack of
       [] \<Rightarrow> (deep, stack)
     | i # stack \<Rightarrow>
         if deep ! i then (deep, stack)
         else (deep[i := True],
               rev (map fst (filter (\<lambda>(c, prios). dg_alive g ! c \<and> list_ex (\<lambda>p. runtime p \<or> runtime_post p) prios)
                               (dg_children g ! i))) @ stack))"

definition deep_system_deps :: "digraph \<Rightarrow> graph_entry list \<Rightarrow> string list \<Rightarrow> bool list option" where
  "deep_system_deps g entries system_packages =
     map_option fst
       (while_option (\<lambda>(deep, stack). stack \<noteq> []) (deep_step g)
          (replicate (dg_n g) False,
           rev (filter (\<lambda>i. (e_category (entries ! i), e_package (entries ! i)) \<in> system_cps system_packages)
                  (dg_order g))))"

text \<open>One pass of the simulated prune; the flag says whether it removed a node.\<close>

definition count_pass :: "digraph \<Rightarrow> bool list \<times> nat list \<times> bool \<Rightarrow> bool list \<times> nat list \<times> bool" where
  "count_pass g = (\<lambda>(alive, count, _).
     fold (\<lambda>i (alive, count, removed).
         if \<not> alive ! i \<or> \<not> dg_installed g ! i \<or> count ! i \<noteq> 0 then (alive, count, removed)
         else
           let alive = alive[i := False]
           in (alive,
               fold (\<lambda>(c, _) count. if alive ! c then count[c := count ! c - 1] else count)
                 (dg_children g ! i) count,
               True))
       [0..<dg_n g] (alive, count, False))"

definition post_prune_parent_count :: "digraph \<Rightarrow> nat list option" where
  "post_prune_parent_count g =
     map_option (\<lambda>(alive, count, _). count)
       (while_option (\<lambda>(alive, count, removed). removed) (count_pass g)
          (dg_alive g, map (\<lambda>i. length (filter (\<lambda>p. dg_alive g ! p) (dg_parents g ! i))) [0..<dg_n g], True))"

definition merge_order_bias :: "graph_entry list \<Rightarrow> string list \<Rightarrow> bool \<Rightarrow> digraph \<Rightarrow> digraph option" where
  "merge_order_bias entries system_packages implicit_system_deps g =
     (if \<not> implicit_system_deps then Some g
      else Option.bind (deep_system_deps g entries system_packages) (\<lambda>deep.
           map_option (\<lambda>count.
               g\<lparr> dg_order := sort_key (\<lambda>i. (\<not> deep ! i, - int (count ! i))) (dg_order g) \<rparr>)
             (post_prune_parent_count g)))"

section \<open>The prune\<close>

definition prune_pass :: "nat \<Rightarrow> digraph \<times> bool \<Rightarrow> digraph \<times> bool" where
  "prune_pass lo = (\<lambda>(g, _).
     fold (\<lambda>i (g, removed).
         if \<not> dg_alive g ! i \<or> \<not> dg_installed g ! i \<or> has_parents g i then (g, removed)
         else (kill i g, True))
       [lo..<dg_n g] (g, False))"

definition prune_nomerge_roots :: "nat \<Rightarrow> digraph \<Rightarrow> digraph option" where
  "prune_nomerge_roots lo g =
     map_option (\<lambda>(g, _). retain_alive g) (while_option snd (prune_pass lo) (g, True))"

section \<open>The scheduler\<close>

text \<open>What the configuration and the run give the scheduler.\<close>

record schedule_env =
  sc_vdb :: vdb_view
  sc_circular :: circular_map
  sc_top_level_atoms :: "string list"
  sc_system_packages :: "string list"
  sc_implicit_system_deps :: bool
  sc_frontier_enabled :: bool
  sc_hash_order :: "nat set \<Rightarrow> nat list"

definition complete_mode :: "graph_entry list \<Rightarrow> bool" where
  "complete_mode entries =
     list_ex (\<lambda>e. (case e_outcome e of
                     Reinstall _ _ _ _ _ _ _ \<Rightarrow> True | Upgrade _ _ \<Rightarrow> True | Downgrade _ _ \<Rightarrow> True
                   | New _ \<Rightarrow> e_new_slot e | _ \<Rightarrow> False)) entries"

definition ranks_of :: "nat \<Rightarrow> nat list \<Rightarrow> nat list" where
  "ranks_of n order = fold (\<lambda>(pos, i) rank. rank[i := pos]) (enumerate 0 order) (replicate n 0)"

definition schedule_graph ::
  "schedule_env \<Rightarrow> graph_entry list \<Rightarrow> (graph_entry list \<times> digraph \<times> nat \<times> nat list) option" where
  "schedule_graph env entries =
     (let real_n = length entries
      in Option.bind (add_installed_dependency_closure (sc_vdb env) (sc_system_packages env)
                        (\<not> complete_mode entries) entries) (\<lambda>ext.
         Option.bind (build_digraph (sc_vdb env) (sc_circular env) ext (sc_top_level_atoms env)) (\<lambda>g.
         Option.bind (prune_nomerge_roots real_n g) (\<lambda>pruned.
         map_option (\<lambda>biased. (ext, biased, real_n, ranks_of (length ext) (dg_order g)))
           (merge_order_bias ext (sc_system_packages env) (sc_implicit_system_deps env) pruned)))))"

fun weave :: "nat list \<Rightarrow> nat list \<Rightarrow> nat list \<Rightarrow> nat list" where
  "weave rank [] leftover = leftover"
| "weave rank (m # ms) leftover =
     takeWhile (\<lambda>t. rank ! t < rank ! m) leftover @ m # weave rank ms (dropWhile (\<lambda>t. rank ! t < rank ! m) leftover)"

definition weave_scheduled_leftovers :: "nat list \<Rightarrow> nat \<Rightarrow> nat list \<Rightarrow> nat list" where
  "weave_scheduled_leftovers scheduled real_n discovery_rank =
     weave discovery_rank scheduled
       (sort_key (\<lambda>i. discovery_rank ! i) (filter (\<lambda>i. i \<notin> set scheduled) [0..<real_n]))"

definition serialize_merge_order ::
  "schedule_env \<Rightarrow> graph_entry list \<Rightarrow> (nat list \<times> nat list) run option" where
  "serialize_merge_order env entries =
     Option.bind (schedule_graph env entries) (\<lambda>(ext, g, real_n, rank).
     Option.bind (merge_order_bias ext (sc_system_packages env) (sc_implicit_system_deps env) g) (\<lambda>g.
     map_option (\<lambda>r. run_bind r (\<lambda>order.
         Return (weave_scheduled_leftovers (filter (\<lambda>i. i < real_n) order) real_n rank, take real_n rank)))
       (select_nodes (sc_frontier_enabled env) (sc_hash_order env) ext g None)))"

section \<open>The orders of tree mode\<close>

definition tree_start :: "pending_uninstall list \<Rightarrow> tree_stuck" where
  "tree_start pending =
     \<lparr> ts_pending = pending, ts_scheduled = {}, ts_solved = [], ts_progressed = False \<rparr>"

definition tree_solved_replacements ::
  "schedule_env \<Rightarrow> graph_entry list \<Rightarrow> (nat \<times> nat) list run option" where
  "tree_solved_replacements env entries =
     (let pending = tree_stuck_pending entries
      in if pending = [] then Some (Return [])
         else Option.bind (schedule_graph env entries) (\<lambda>(ext, g, _, _).
           map_option (\<lambda>r. run_bind r (\<lambda>st.
               Return (case sl_tree st of None \<Rightarrow> [] | Some ts \<Rightarrow> ts_solved ts)))
             (select_loop (sc_hash_order env) ext
                (select_start (sc_frontier_enabled env) ext g (Some (tree_start pending))))))"

definition tree_display_order :: "schedule_env \<Rightarrow> graph_entry list \<Rightarrow> nat list run option" where
  "tree_display_order env entries =
     Option.bind (schedule_graph env entries) (\<lambda>(ext, g, real_n, rank).
     map_option (\<lambda>r. run_bind r (\<lambda>order.
         Return (weave_scheduled_leftovers (filter (\<lambda>i. i < real_n) order) real_n rank)))
       (select_nodes (sc_frontier_enabled env) (sc_hash_order env) ext g
          (Some (tree_start (tree_stuck_pending entries)))))"

section \<open>The sorted entries\<close>

text \<open>\<open>take().expect(..)\<close> on the slot of an index: out of range and taken twice are panics.\<close>

fun take_slots :: "nat list \<Rightarrow> graph_entry option list \<Rightarrow> graph_entry list run" where
  "take_slots [] slots = Return []"
| "take_slots (i # order) slots =
     (if i < length slots
      then case slots ! i of
             None \<Rightarrow> Panic
           | Some e \<Rightarrow> run_bind (take_slots order (slots[i := None])) (\<lambda>es. Return (e # es))
      else Panic)"

definition topological_merge_order ::
  "schedule_env \<Rightarrow> graph_entry list \<Rightarrow> (graph_entry list \<times> nat list) run option" where
  "topological_merge_order env entries =
     (let entries = map (\<lambda>(seq, e). e\<lparr> e_discovery := seq \<rparr>) (enumerate 0 entries)
      in if length entries < 2 then Some (Return (entries, [0..<length entries]))
         else map_option (\<lambda>r. run_bind r (\<lambda>(order, insertion_rank).
                run_bind (take_slots order (map Some entries)) (\<lambda>es.
                  Return (es, map (\<lambda>i. insertion_rank ! i) order))))
              (serialize_merge_order env entries))"

end
