(* ===== verification/BuildOk.thy ===== *)
theory BuildOk
  imports Build
begin

text \<open>The digraph build ends, and its result is well-formed: every index is in range and the two directions agree.\<close>

section \<open>Indices\<close>

lemma indices_bound: "indices_of_cp entries cp = Some idxs \<Longrightarrow> set idxs \<subseteq> {..<length entries}"
  by (auto simp: indices_of_cp_def split: list.splits dest!: arg_cong [where f = set])

lemma cp_indices_bound:
  "dp_cp_indices (digraph_prelude_of v entries) cp = Some idxs \<Longrightarrow> set idxs \<subseteq> {..<length entries}"
  using indices_bound by (simp add: digraph_prelude_of_def)

lemma narrow_by_use_sub: "set (narrow_by_use entries a cands) \<subseteq> set cands"
  by (auto simp: narrow_by_use_def Let_def split: option.splits if_splits)

lemma match_candidates_bound:
  "set (match_candidates (digraph_prelude_of v entries) entries i edge mb) \<subseteq> {..<length entries}"
proof (cases "dp_cp_indices (digraph_prelude_of v entries) (edge_category edge, edge_package edge)")
  case (Some idxs)
  have narrow: "set (narrow_by_use entries a (if filter P cs = [] then cs else filter P cs)) \<subseteq> set cs" for a P cs
    using narrow_by_use_sub [of entries a "if filter P cs = [] then cs else filter P cs"] by auto
  show ?thesis
    unfolding match_candidates_def Some option.case Let_def
    by (rule subset_trans [OF narrow]) (use cp_indices_bound [OF Some] in auto)
qed (simp add: match_candidates_def)

lemma rank_best_in: "rank_best entries installed cands = Some j \<Longrightarrow> j \<in> set cands"
proof -
  have "fold (\<lambda>j best. case best of None \<Rightarrow> Some j
            | Some b \<Rightarrow> Some (if better_target entries installed j b then j else b)) cands acc = Some j \<Longrightarrow>
      (\<forall>b. acc = Some b \<longrightarrow> b \<in> X) \<Longrightarrow> set cands \<subseteq> X \<Longrightarrow> j \<in> X" for acc X
    by (induction cands arbitrary: acc) (auto split: option.splits if_splits)
  from this [of None "set cands"] show "rank_best entries installed cands = Some j \<Longrightarrow> j \<in> set cands"
    by (simp add: rank_best_def)
qed

lemma position_Some_bound: "position P xs = Some k \<Longrightarrow> k < length xs"
  by (induction xs arbitrary: k) (auto split: if_splits)

lemma target_bound:
  assumes "select_dep_target (digraph_prelude_of v entries) entries i deps ei supp mb = Some j"
  shows "j < length entries"
proof -
  let ?pre = "digraph_prelude_of v entries"
  define sibs where "sibs = sibling_edges deps ei supp"
  define ss where "ss = map (\<lambda>si. match_candidates ?pre entries i (deps ! si) mb) sibs"
  obtain pos where pos: "position (\<lambda>si. si = ei) sibs = Some pos"
    using assms by (auto simp: select_dep_target_def sibs_def Let_def split: option.splits)
  then have "pos < length ss" using position_Some_bound by (simp add: ss_def)
  then have own: "set (ss ! pos) \<subseteq> {..<length entries}"
    using match_candidates_bound by (auto simp: ss_def)
  from assms pos obtain cands where "rank_best entries (dp_installed ?pre) cands = Some j" "set cands \<subseteq> set (ss ! pos)"
    by (auto simp: select_dep_target_def Let_def sibs_def [symmetric] ss_def [symmetric] split: if_splits)
  then show ?thesis using rank_best_in own by blast
qed

section \<open>Discovery\<close>

definition disc_ok :: "nat \<Rightarrow> discovery \<Rightarrow> bool" where
  "disc_ok n st \<longleftrightarrow> length (ds_seen st) = n \<and> distinct (ds_order st) \<and>
     set (ds_order st) = {i. i < n \<and> ds_seen st ! i}"

definition unseen :: "discovery \<Rightarrow> nat" where
  "unseen st = card {i. i < length (ds_seen st) \<and> \<not> ds_seen st ! i}"

text \<open>Discovery keeps the stacks or sees a new node.\<close>

definition disc_grows :: "discovery \<Rightarrow> discovery \<Rightarrow> bool" where
  "disc_grows st st' \<longleftrightarrow> st' = st \<or> unseen st' < unseen st"

lemma disc_grows_trans: "disc_grows a b \<Longrightarrow> disc_grows b c \<Longrightarrow> disc_grows a c"
  by (auto simp: disc_grows_def)

lemma discover_ok:
  assumes "disc_ok n st" "j < n"
  shows "disc_ok n (discover j st) \<and> disc_grows st (discover j st)"
proof (cases "ds_seen st ! j")
  case False
  let ?s = "(ds_seen st)[j := True]"
  have "{i. i < n \<and> \<not> ?s ! i} \<subset> {i. i < n \<and> \<not> ds_seen st ! i}"
    using assms False by (auto simp: disc_ok_def nth_list_update psubset_eq split: if_splits)
  then have "card {i. i < n \<and> \<not> ?s ! i} < card {i. i < n \<and> \<not> ds_seen st ! i}"
    by (intro psubset_card_mono) auto
  then show ?thesis
    using assms False by (auto simp: disc_ok_def disc_grows_def discover_def unseen_def nth_list_update split: if_splits)
qed (use assms in \<open>simp add: discover_def disc_grows_def\<close>)

definition walks :: "nat \<Rightarrow> (discovery \<Rightarrow> discovery) \<Rightarrow> bool" where
  "walks n f \<longleftrightarrow> (\<forall>st. disc_ok n st \<longrightarrow> disc_ok n (f st) \<and> disc_grows st (f st))"

lemma walksD: "walks n f \<Longrightarrow> disc_ok n st \<Longrightarrow> disc_ok n (f st) \<and> disc_grows st (f st)"
  by (simp add: walks_def)

lemma walks_id: "walks n (\<lambda>st. st)"
  by (simp add: walks_def disc_grows_def)

lemma walks_if: "walks n f \<Longrightarrow> walks n g \<Longrightarrow> walks n (\<lambda>st. if b then f st else g st)"
  by (cases b) simp_all

lemma walks_fold: "(\<And>x. x \<in> set xs \<Longrightarrow> walks n (f x)) \<Longrightarrow> walks n (fold f xs)"
proof (induction xs)
  case (Cons x xs)
  then have x: "walks n (f x)" and xs: "walks n (fold f xs)" by auto
  have "disc_ok n (fold f xs (f x st)) \<and> disc_grows st (fold f xs (f x st))" if "disc_ok n st" for st
    using walksD [OF x that] walksD [OF xs, of "f x st"] disc_grows_trans by blast
  then show ?case by (simp add: walks_def)
qed (simp add: walks_def disc_grows_def)

lemma walks_discover: "j < n \<Longrightarrow> walks n (discover j)"
  using discover_ok by (simp add: walks_def)

lemma walks_matches: "walks (length entries) (discover_matches (digraph_prelude_of v entries) a cp)"
proof (cases "dp_cp_indices (digraph_prelude_of v entries) cp")
  case None
  then show ?thesis by (simp add: discover_matches_def walks_def disc_grows_def)
next
  case (Some idxs)
  then have "\<forall>j \<in> set idxs. j < length entries" using cp_indices_bound by fastforce
  then have "walks (length entries)
      (fold (\<lambda>j st. if edge_matches (digraph_prelude_of v entries) a j then discover j st else st) idxs)"
    by (intro walks_fold walks_if walks_discover walks_id) blast
  then show ?thesis using Some by (simp add: discover_matches_def walks_def)
qed

lemma walks_expand: "walks (length entries) (expand_node (digraph_prelude_of v entries) supp entries i d k)"
  unfolding expand_node_def
proof (rule walks_fold)
  fix x assume "x \<in> set (enumerate 0 (e_deps (entries ! i)))"
  obtain ei edge where x: "x = (ei, edge)" by (cases x)
  show "walks (length entries) ((\<lambda>(ei, edge) st.
      if edge_disjunctive edge \<noteq> d \<or> (case k of None \<Rightarrow> False | Some k \<Rightarrow> k \<noteq> edge_key edge) \<or> ei \<in> supp ! i then st
      else discover_matches (digraph_prelude_of v entries) (edge_atom edge) (edge_category edge, edge_package edge) st) x)"
    unfolding x prod.case by (intro walks_if walks_id walks_matches)
qed

lemma walks_seeds: "walks (length entries) (discover_seeds (digraph_prelude_of v entries) atoms)"
  unfolding discover_seeds_def
proof (rule walks_fold)
  fix s
  show "walks (length entries) (\<lambda>st. case parse_dep_atom s of None \<Rightarrow> st
      | Some a \<Rightarrow> if a_blocker a \<noteq> BlockNone then st
          else discover_matches (digraph_prelude_of v entries) s (a_category a, a_package a) st)"
    by (cases "parse_dep_atom s") (use walks_id walks_if [OF walks_id walks_matches] in simp_all)
qed

text \<open>One step of the walk: a new node, or a shorter stack.\<close>

definition disc_rel :: "(discovery \<times> discovery) set" where
  "disc_rel = inv_image (less_than <*lex*> less_than <*lex*> less_than)
     (\<lambda>st. (unseen st, length (ds_stack st), length (ds_disjunctive st)))"

lemma wf_disc_rel: "wf disc_rel"
  unfolding disc_rel_def by (intro wf_inv_image wf_lex_prod wf_less_than)

lemma discover_step_ok:
  fixes v :: vdb_view and supp :: "nat set list"
  assumes "disc_ok (length entries) st" "ds_stack st \<noteq> [] \<or> ds_disjunctive st \<noteq> []"
  defines "st' \<equiv> discover_step (digraph_prelude_of v entries) supp entries st"
  shows "disc_ok (length entries) st' \<and> (st', st) \<in> disc_rel"
proof -
  have pop: "disc_ok (length entries) (st\<lparr> ds_stack := s, ds_disjunctive := d \<rparr>)"
    "unseen (st\<lparr> ds_stack := s, ds_disjunctive := d \<rparr>) = unseen st" for s d
    using assms(1) by (simp_all add: disc_ok_def unseen_def)
  show ?thesis
  proof (cases "ds_stack st")
    case (Cons i stack)
    define st1 where "st1 = st\<lparr> ds_stack := stack, ds_disjunctive :=
        rev (map (Pair i) (remdups_adj (map edge_key (filter edge_disjunctive (e_deps (entries ! i)))))) @ ds_disjunctive st \<rparr>"
    have st': "st' = expand_node (digraph_prelude_of v entries) supp entries i False None st1"
      using Cons by (simp add: st'_def discover_step_def st1_def Let_def)
    have "disc_ok (length entries) st1" "unseen st1 = unseen st" "ds_stack st1 = stack"
      using pop by (simp_all add: st1_def)
    then show ?thesis
      using walksD [OF walks_expand, of entries st1 v supp i False None] Cons
      by (auto simp: st' disc_rel_def disc_grows_def)
  next
    case Nil
    then obtain i k rest where d: "ds_disjunctive st = (i, k) # rest" using assms(2) by (cases "ds_disjunctive st") auto
    define st1 where "st1 = st\<lparr> ds_disjunctive := rest \<rparr>"
    have st': "st' = expand_node (digraph_prelude_of v entries) supp entries i True (Some k) st1"
      using Nil d by (simp add: st'_def discover_step_def st1_def)
    have "st1 = st\<lparr> ds_stack := [], ds_disjunctive := rest \<rparr>" using Nil by (simp add: st1_def)
    then have "disc_ok (length entries) st1" "unseen st1 = unseen st" "ds_stack st1 = []" "ds_disjunctive st1 = rest"
      using pop by simp_all
    then show ?thesis
      using walksD [OF walks_expand, of entries st1 v supp i True "Some k"] Nil d
      by (auto simp: st' disc_rel_def disc_grows_def)
  qed
qed

lemma discovery_order_ok:
  obtains order where "discovery_order (digraph_prelude_of v entries) supp entries atoms = Some order"
    "distinct order" "set order = {..<length entries}"
proof -
  let ?n = "length entries" and ?pre = "digraph_prelude_of v entries"
  let ?start = "discover_seeds ?pre atoms \<lparr> ds_seen = replicate ?n False, ds_order = [], ds_stack = [], ds_disjunctive = [] \<rparr>"
  let ?b = "\<lambda>st. ds_stack st \<noteq> [] \<or> ds_disjunctive st \<noteq> []"
  have start: "disc_ok ?n ?start" 
  proof -
    have "disc_ok ?n \<lparr> ds_seen = replicate ?n False, ds_order = [], ds_stack = [], ds_disjunctive = [] \<rparr>"
      by (auto simp: disc_ok_def)
    from walksD [OF walks_seeds this] show ?thesis ..
  qed
  have "\<exists>st. while_option ?b (discover_step ?pre supp entries) ?start = Some st"
    by (rule wf_rel_while_option_Some [OF wf_disc_rel, where P = "disc_ok ?n"]) (use start discover_step_ok in blast)+
  then obtain st where st: "while_option ?b (discover_step ?pre supp entries) ?start = Some st" ..
  have "disc_ok ?n st"
    by (rule while_option_rule [OF _ st, where P = "disc_ok ?n"]) (use start discover_step_ok in blast)+
  then show thesis
    using st by (intro that [of "ds_order st @ filter (\<lambda>i. \<not> ds_seen st ! i) [0..<?n]"])
      (auto simp: discovery_order_def disc_ok_def)
qed

section \<open>Edges\<close>

lemma empty_graph_ok:
  assumes "distinct order" "set order = {..<length entries}"
  shows "graph_ok (empty_graph (digraph_prelude_of v entries) (length entries) order)"
  using assms by (auto simp: graph_ok_def empty_graph_def digraph_prelude_of_def)

lemma add_priority_Some:
  "add_priority child p es = Some es' \<Longrightarrow> map fst es' = map fst es"
  by (induction es arbitrary: es') (auto split: if_splits)

lemma add_priority_None: "add_priority child p es = None \<longleftrightarrow> child \<notin> fst ` set es"
  by (induction p es rule: add_priority.induct [of _ child]) auto

text \<open>What an edge leaves as it is.\<close>

definition same_nodes :: "digraph \<Rightarrow> digraph \<Rightarrow> bool" where
  "same_nodes g g' \<longleftrightarrow> dg_n g' = dg_n g \<and> dg_order g' = dg_order g \<and> dg_installed g' = dg_installed g \<and>
     dg_alive g' = dg_alive g"

lemma same_nodes_refl [simp]: "same_nodes g g"
  by (simp add: same_nodes_def)

lemma same_nodes_trans: "same_nodes a b \<Longrightarrow> same_nodes b c \<Longrightarrow> same_nodes a c"
  by (simp add: same_nodes_def)

lemma add_edge_ok:
  assumes g: "graph_ok g" and i: "i < dg_n g" and j: "j < dg_n g"
  shows "graph_ok (add_edge i j p g) \<and> same_nodes g (add_edge i j p g)"
proof (cases "add_priority j p (dg_children g ! i)")
  case (Some es)
  have e: "map fst es = map fst (dg_children g ! i)" using add_priority_Some [OF Some] .
  then have "fst ` set es = fst ` set (dg_children g ! i)" by (metis list.set_map)
  then show ?thesis
    using g i Some e by (auto simp: add_edge_def graph_ok_def same_nodes_def nth_list_update)
next
  case None
  then have "j \<notin> fst ` set (dg_children g ! i)" by (simp add: add_priority_None)
  then have "i \<notin> set (dg_parents g ! j)" using g i j by (simp add: graph_ok_def)
  then show ?thesis
    using g i j None \<open>j \<notin> fst ` set (dg_children g ! i)\<close>
    by (auto simp: add_edge_def graph_ok_def same_nodes_def nth_list_update)
qed

definition keeps :: "(digraph \<Rightarrow> digraph) \<Rightarrow> nat \<Rightarrow> bool" where
  "keeps f n \<longleftrightarrow> (\<forall>g. graph_ok g \<longrightarrow> dg_n g = n \<longrightarrow> graph_ok (f g) \<and> same_nodes g (f g))"

lemma keepsD: "keeps f n \<Longrightarrow> graph_ok g \<Longrightarrow> dg_n g = n \<Longrightarrow> graph_ok (f g) \<and> same_nodes g (f g)"
  by (simp add: keeps_def)

lemma keeps_fold: "(\<And>x. x \<in> set xs \<Longrightarrow> keeps (f x) n) \<Longrightarrow> keeps (fold f xs) n"
proof (induction xs)
  case (Cons x xs)
  then have x: "keeps (f x) n" and xs: "keeps (fold f xs) n" by auto
  have "graph_ok (fold f xs (f x g)) \<and> same_nodes g (fold f xs (f x g))" if g: "graph_ok g" "dg_n g = n" for g
  proof -
    have 1: "graph_ok (f x g)" "same_nodes g (f x g)" using keepsD [OF x g] by simp_all
    then have "dg_n (f x g) = n" using g(2) by (simp add: same_nodes_def)
    from keepsD [OF xs 1(1) this] show ?thesis using same_nodes_trans [OF 1(2)] by blast
  qed
  then show ?case by (simp add: keeps_def)
qed (simp add: keeps_def)

lemma keeps_add_edge: "i < n \<Longrightarrow> j < n \<Longrightarrow> keeps (add_edge i j p) n"
  using add_edge_ok by (auto simp: keeps_def)

lemma keeps_dep_edge:
  "i < length entries \<Longrightarrow>
     keeps (add_dep_edge (digraph_prelude_of v entries) inst supp entries i e) (length entries)"
  using target_bound add_edge_ok
  by (auto simp: keeps_def add_dep_edge_def Let_def split: prod.splits option.splits)

lemma keeps_fallback:
  assumes "j < length entries"
  shows "keeps (fallback_edges (digraph_prelude_of v entries) entries j) (length entries)"
proof -
  let ?n = "length entries"
  have one: "keeps (if u then removal_edge j i else owner_edge entries j i) ?n" if "i < ?n" for i u
    using assms that add_edge_ok by (auto simp: keeps_def removal_edge_def owner_edge_def)
  have "keeps (\<lambda>g. case dp_cp_indices (digraph_prelude_of v entries) owner of None \<Rightarrow> g
      | Some idxs \<Rightarrow> fold (\<lambda>i. if is_uninstall (entries ! j) then removal_edge j i else owner_edge entries j i) idxs g) ?n"
    for owner
  proof (cases "dp_cp_indices (digraph_prelude_of v entries) owner")
    case (Some idxs)
    then have "\<forall>i \<in> set idxs. i < ?n" using cp_indices_bound by fastforce
    then show ?thesis using Some keeps_fold [of idxs _ ?n] one by simp
  qed (simp add: keeps_def)
  then show ?thesis unfolding fallback_edges_def by (intro keeps_fold)
qed

lemma build_digraph_graph:
  obtains g where "build_digraph v circular entries atoms = Some g" "graph_ok g" "dg_n g = length entries"
    "set (dg_order g) = {..<length entries}" "dg_alive g = replicate (length entries) True"
    "dg_installed g = map nomerge_outcome entries"
proof -
  let ?n = "length entries" and ?pre = "digraph_prelude_of v entries" and ?inst = "installed_candidates_by_cp v"
  let ?supp = "suppressed_alt_edges v ?pre circular entries"
  obtain order where o: "discovery_order ?pre ?supp entries atoms = Some order" "distinct order" "set order = {..<?n}"
    by (rule discovery_order_ok)
  define f where "f = (\<lambda>i. fold (add_dep_edge ?pre ?inst ?supp entries i) (enumerate 0 (e_deps (entries ! i))))"
  let ?g0 = "empty_graph ?pre ?n order"
  have f: "keeps (fold f [0..<?n]) ?n"
    by (intro keeps_fold) (auto simp: f_def intro!: keeps_fold keeps_dep_edge)
  have h: "keeps (fold (fallback_edges ?pre entries) [0..<?n]) ?n"
    by (intro keeps_fold) (auto intro: keeps_fallback)
  define g1 where "g1 = fold f [0..<?n] ?g0"
  define g2 where "g2 = fold (fallback_edges ?pre entries) [0..<?n] g1"
  have g0: "graph_ok ?g0" "dg_n ?g0 = ?n" using empty_graph_ok [OF o(2,3)] by (simp_all add: empty_graph_def)
  have g1: "graph_ok g1" "same_nodes ?g0 g1" using keepsD [OF f g0] by (simp_all add: g1_def)
  then have "dg_n g1 = ?n" using g0(2) by (simp add: same_nodes_def)
  from keepsD [OF h g1(1) this] have g2: "graph_ok g2" "same_nodes ?g0 g2"
    using same_nodes_trans [OF g1(2)] by (simp_all add: g2_def)
  have "build_digraph v circular entries atoms = Some g2"
    using o(1) by (simp add: build_digraph_def Let_def f_def [symmetric] g1_def [symmetric] g2_def [symmetric])
  then show thesis
    using g2 o(3) by (intro that [of g2]) (auto simp: same_nodes_def empty_graph_def digraph_prelude_of_def)
qed

end
