(* ===== verification/CycleSearch.thy ===== *)
theory CycleSearch
  imports Cycles
begin

text \<open>
  What the cycle search finds: the closure of a node is what it reaches, the result is a smallest
  closure at the first rung that has one, and a harvested cycle is an order of its members.
\<close>

section \<open>Closures are reachable sets\<close>

definition dep_rel :: "digraph \<Rightarrow> ignore option \<Rightarrow> (nat \<times> nat) set" where
  "dep_rel g ig = {(x, y). y \<in> set (child_nodes g x ig)}"

definition reached :: "digraph \<Rightarrow> ignore option \<Rightarrow> nat set \<Rightarrow> nat set" where
  "reached g ig X = (dep_rel g ig)\<^sup>* `` X"

lemma reached_refl: "X \<subseteq> reached g ig X"
  by (auto simp: reached_def)

lemma reached_closed:
  assumes "\<forall>x \<in> S. set (child_nodes g x ig) \<subseteq> S" "X \<subseteq> S"
  shows "reached g ig X \<subseteq> S"
proof
  fix y assume "y \<in> reached g ig X"
  then obtain x where "x \<in> X" "(x, y) \<in> (dep_rel g ig)\<^sup>*" by (auto simp: reached_def)
  from this(2) show "y \<in> S"
    by (induction rule: rtrancl_induct) (use \<open>x \<in> X\<close> assms in \<open>auto simp: dep_rel_def\<close>)
qed

lemma reached_step: "x \<in> reached g ig X \<Longrightarrow> set (child_nodes g x ig) \<subseteq> reached g ig X"
  by (auto simp: reached_def dep_rel_def intro: rtrancl_into_rtrancl)

lemma reached_mono: "X \<subseteq> Y \<Longrightarrow> reached g ig X \<subseteq> reached g ig Y"
  unfolding reached_def by blast

lemma reached_add:
  assumes "x \<in> X"
  shows "reached g ig (X \<union> set (child_nodes g x ig)) = reached g ig X"
proof
  have "set (child_nodes g x ig) \<subseteq> reached g ig X"
    using assms reached_step [of x g ig X] reached_refl [of X g ig] by blast
  then show "reached g ig (X \<union> set (child_nodes g x ig)) \<subseteq> reached g ig X"
    using reached_refl [of X g ig] reached_step by (intro reached_closed) blast+
qed (rule reached_mono, blast)

lemma gather_loop_reached:
  assumes "\<forall>x \<in> sel. set (child_nodes g x ig) \<subseteq> sel \<union> set stack" "sel \<subseteq> set mergeable"
  shows "gather_loop g ig mergeable sel stack =
    (if reached g ig (sel \<union> set stack) \<subseteq> set mergeable then Some (reached g ig (sel \<union> set stack)) else None)"
  using assms
proof (induction g ig mergeable sel stack rule: gather_loop.induct)
  case (1 g ig mergeable sel)
  then have "reached g ig sel = sel"
    using reached_closed [of sel g ig sel] reached_refl [of sel g ig] by auto
  then show ?case using 1 by simp
next
  case (2 g ig mergeable sel x stack)
  show ?case
  proof (cases "x \<in> sel")
    case True
    then have e: "sel \<union> set (x # stack) = sel \<union> set stack" by auto
    show ?thesis using 2(1) [OF True] 2(3,4) True by (simp only: gather_loop.simps if_True e)
  next
    case False
    show ?thesis
    proof (cases "x \<in> set mergeable")
      case True
      have u: "insert x sel \<union> set (rev (child_nodes g x ig) @ stack)
          = (sel \<union> set (x # stack)) \<union> set (child_nodes g x ig)" by auto
      have "reached g ig (insert x sel \<union> set (rev (child_nodes g x ig) @ stack)) =
          reached g ig (sel \<union> set (x # stack))"
        unfolding u by (rule reached_add) simp
      moreover have "gather_loop g ig mergeable (insert x sel) (rev (child_nodes g x ig) @ stack) =
          (if reached g ig (insert x sel \<union> set (rev (child_nodes g x ig) @ stack)) \<subseteq> set mergeable
           then Some (reached g ig (insert x sel \<union> set (rev (child_nodes g x ig) @ stack))) else None)"
        using 2(3,4) False True by (intro 2(2)) auto
      moreover have "gather_loop g ig mergeable sel (x # stack) =
          gather_loop g ig mergeable (insert x sel) (rev (child_nodes g x ig) @ stack)"
        using False True by simp
      ultimately show ?thesis by presburger
    next
      case False
      then have "\<not> reached g ig (sel \<union> set (x # stack)) \<subseteq> set mergeable"
        using reached_refl [of "sel \<union> set (x # stack)" g ig] by auto
      then show ?thesis using False \<open>x \<notin> sel\<close> by simp
    qed
  qed
qed

lemma gather_deps_reached:
  "gather_deps g node ig mergeable =
     (if reached g ig {node} \<subseteq> set mergeable then Some (reached g ig {node}) else None)"
  using gather_loop_reached [of "{}" g ig "[node]" mergeable] unfolding gather_deps_def by simp

section \<open>The smallest closure\<close>

text \<open>The candidates with a closure among the mergeable nodes, at one rung.\<close>

definition closes :: "digraph \<Rightarrow> ignore option \<Rightarrow> nat list \<Rightarrow> nat \<Rightarrow> bool" where
  "closes g ig mergeable node \<longleftrightarrow> has_parents g node \<and> reached g ig {node} \<subseteq> set mergeable"

lemma scan_candidates_Cons:
  "scan_candidates g ig mergeable (node # cand) best =
     scan_candidates g ig mergeable cand
       (if closes g ig mergeable node
        then (case best of
                None \<Rightarrow> Some (reached g ig {node}, ig)
              | Some (b, _) \<Rightarrow> if card (reached g ig {node}) < card b then Some (reached g ig {node}, ig) else best)
        else best)"
  by (auto simp: closes_def gather_deps_reached split: option.split)

definition no_larger :: "(nat set \<times> ignore option) option \<Rightarrow> nat set \<Rightarrow> bool" where
  "no_larger r S \<longleftrightarrow> (\<exists>T ig. r = Some (T, ig) \<and> card T \<le> card S)"

lemma no_larger_Some [simp]: "no_larger (Some (T, ig)) S \<longleftrightarrow> card T \<le> card S"
  by (simp add: no_larger_def)

lemma scan_candidates_best:
  "let r = scan_candidates g ig mergeable cand best
   in (r = best \<or> (\<exists>node \<in> set cand. closes g ig mergeable node \<and> r = Some (reached g ig {node}, ig))) \<and>
      (\<forall>b ig0. best = Some (b, ig0) \<longrightarrow> no_larger r b) \<and>
      (\<forall>node \<in> set cand. closes g ig mergeable node \<longrightarrow> no_larger r (reached g ig {node}))"
proof (induction cand arbitrary: best)
  case Nil
  show ?case by auto
next
  case (Cons node cand)
  define S where "S = reached g ig {node}"
  define best' where "best' = (if closes g ig mergeable node
      then (case best of None \<Rightarrow> Some (S, ig) | Some (b, _) \<Rightarrow> if card S < card b then Some (S, ig) else best)
      else best)"
  define r where "r = scan_candidates g ig mergeable (node # cand) best"
  have r: "r = scan_candidates g ig mergeable cand best'"
    by (simp only: r_def scan_candidates_Cons best'_def S_def)
  note ih = Cons.IH [of best', unfolded Let_def, folded r]
  have no_larger_trans: "no_larger r S" if "no_larger r T" "card T \<le> card S" for T S
    using that by (auto simp: no_larger_def)
  have b': "best' = best \<or> closes g ig mergeable node \<and> best' = Some (S, ig)"
    by (auto simp: best'_def split: option.splits prod.splits)
  have old: "no_larger r b" if "best = Some (b, ig0)" for b ig0
    using ih that no_larger_trans unfolding best'_def
    by (cases "closes g ig mergeable node \<and> card S < card b") (auto split: if_splits)
  have new: "no_larger r S" if "closes g ig mergeable node"
    using ih that no_larger_trans unfolding best'_def
    by (cases best) (auto split: if_splits simp: not_less)
  show ?case
    unfolding r_def [symmetric] Let_def
    using ih b' old new unfolding S_def by auto
qed


lemma scan_rungs_iff:
  "case scan_rungs g lr mergeable cand rungs of
     None \<Rightarrow> \<forall>i \<in> set rungs. \<forall>node \<in> set cand. \<not> closes g (range_ig lr i) mergeable node
   | Some (S, ig) \<Rightarrow>
       \<exists>lower i higher. rungs = lower @ i # higher \<and> ig = range_ig lr i \<and>
         (\<forall>j \<in> set lower. \<forall>node \<in> set cand. \<not> closes g (range_ig lr j) mergeable node) \<and>
         (\<exists>node \<in> set cand. closes g ig mergeable node \<and> S = reached g ig {node}) \<and>
         (\<forall>node \<in> set cand. closes g ig mergeable node \<longrightarrow> card S \<le> card (reached g ig {node}))"
proof (induction rungs)
  case (Cons i rungs)
  define r where "r = scan_candidates g (range_ig lr i) mergeable cand None"
  note best = scan_candidates_best [of g "range_ig lr i" mergeable cand None, unfolded Let_def, folded r_def]
  show ?case
  proof (cases r)
    case None
    then have none: "\<forall>node \<in> set cand. \<not> closes g (range_ig lr i) mergeable node"
      using best by (auto simp: no_larger_def)
    have scan: "scan_rungs g lr mergeable cand (i # rungs) = scan_rungs g lr mergeable cand rungs"
      using None by (simp flip: r_def)
    show ?thesis
    proof (cases "scan_rungs g lr mergeable cand rungs")
      case None
      then show ?thesis using Cons none scan by simp
    next
      case (Some c)
      obtain S ig where c: "c = (S, ig)" by (cases c)
      obtain lower k higher where k: "rungs = lower @ k # higher" "ig = range_ig lr k"
         "\<forall>j \<in> set lower. \<forall>node \<in> set cand. \<not> closes g (range_ig lr j) mergeable node"
         "\<exists>node \<in> set cand. closes g ig mergeable node \<and> S = reached g ig {node}"
         "\<forall>node \<in> set cand. closes g ig mergeable node \<longrightarrow> card S \<le> card (reached g ig {node})"
        using Cons Some c by auto
      show ?thesis
        unfolding scan Some c option.case prod.case
        by (rule exI [of _ "i # lower"], rule exI [of _ k], rule exI [of _ higher]) (use k none in auto)
    qed
  next
    case (Some c)
    obtain S ig where c: "c = (S, ig)" by (cases c)
    have scan: "scan_rungs g lr mergeable cand (i # rungs) = Some (S, ig)"
      using Some c by (simp flip: r_def)
    have "\<exists>node \<in> set cand. closes g ig mergeable node \<and> S = reached g ig {node}" "ig = range_ig lr i"
      using best Some c by auto
    moreover have "\<forall>node \<in> set cand. closes g ig mergeable node \<longrightarrow> card S \<le> card (reached g ig {node})"
      using best Some c calculation(2) by auto
    ultimately show ?thesis
      unfolding scan option.case prod.case
      by (intro exI [of _ "[]"] exI [of _ i] exI [of _ rungs]) simp
  qed
qed simp

text \<open>An iteration order lists the set.\<close>

definition hash_law :: "(nat set \<Rightarrow> nat list) \<Rightarrow> bool" where
  "hash_law h \<longleftrightarrow> (\<forall>S. finite S \<longrightarrow> set (h S) = S \<and> distinct (h S))"

definition mergeable_nodes :: "digraph \<Rightarrow> priority_range \<Rightarrow> nat set \<Rightarrow> nat list" where
  "mergeable_nodes g lr inel = filter (\<lambda>i. i \<notin> inel) (leaf_nodes g (ig_medium lr))"

definition start_nodes :: "digraph \<Rightarrow> priority_range \<Rightarrow> nat list \<Rightarrow> bool \<Rightarrow> nat set \<Rightarrow> nat set" where
  "start_nodes g lr asap prefer_asap inel =
     (if prefer_asap \<and> asap \<noteq> [] then set asap \<inter> set (mergeable_nodes g lr inel)
      else set (mergeable_nodes g lr inel))"

lemma set_cycle_candidates:
  "hash_law h \<Longrightarrow> set (cycle_candidates h entries asap p (mergeable_nodes g lr inel)) = start_nodes g lr asap p inel"
  by (auto simp: cycle_candidates_def start_nodes_def hash_law_def)

lemma find_smallest_cycle_flat:
  "fst (find_smallest_cycle h g entries lr asap p inel None) =
     (if mergeable_nodes g lr inel = [] then None
      else scan_rungs g lr (mergeable_nodes g lr inel)
             (cycle_candidates h entries asap p (mergeable_nodes g lr inel))
             [pr_medium_post lr..<Suc (pr_medium_soft lr)])"
  by (simp add: find_smallest_cycle_def leaves_via_def mergeable_nodes_def Let_def del: upt_Suc)

lemma upt_split: "[a..<b] = lower @ i # higher \<Longrightarrow> a \<le> i \<and> i < b \<and> set lower = {a..<i}"
proof -
  assume e: "[a..<b] = lower @ i # higher"
  then have "i \<in> set [a..<b]" by (metis in_set_conv_decomp)
  then have i: "a \<le> i" "i < b" by auto
  have len: "length lower < length [a..<b]" using e by simp
  have "[a..<b] ! length lower = i" using e by (metis nth_append_length)
  then have "length lower = i - a" using len by (simp add: nth_upt)
  moreover have "lower = take (length lower) [a..<b]" using e by simp
  ultimately have "lower = [a..<i]" using i by (simp add: take_upt)
  then show ?thesis using i by simp
qed

text \<open>
  C25: \<open>find_smallest_cycle\<close>, for every iteration order of its hash set: it returns nothing exactly when no
  start node with an alive parent has, at a rung from \<open>medium_post\<close> to \<open>medium_soft\<close>, all that it
  reaches among the mergeable nodes; otherwise the result is what such a start node reaches at the
  lowest of these rungs, and no start node reaches less there. The start nodes are the mergeable
  nodes, or those of them in \<open>asap\<close> while that list is preferred.
\<close>

theorem smallest_cycle:
  assumes "graph_ok g" "synced fro g" "hash_law h"
  shows "case fst (find_smallest_cycle h g entries lr asap p inel fro) of
      None \<Rightarrow> \<forall>i \<in> {pr_medium_post lr..pr_medium_soft lr}. \<forall>node \<in> start_nodes g lr asap p inel.
                 \<not> closes g (range_ig lr i) (mergeable_nodes g lr inel) node
    | Some (S, ig) \<Rightarrow> \<exists>i \<in> {pr_medium_post lr..pr_medium_soft lr}. ig = range_ig lr i \<and>
        (\<forall>j \<in> {pr_medium_post lr..<i}. \<forall>node \<in> start_nodes g lr asap p inel.
           \<not> closes g (range_ig lr j) (mergeable_nodes g lr inel) node) \<and>
        (\<exists>node \<in> start_nodes g lr asap p inel.
           closes g ig (mergeable_nodes g lr inel) node \<and> S = reached g ig {node}) \<and>
        (\<forall>node \<in> start_nodes g lr asap p inel.
           closes g ig (mergeable_nodes g lr inel) node \<longrightarrow> card S \<le> card (reached g ig {node}))"
proof -
  let ?m = "mergeable_nodes g lr inel"
  obtain fro' where "leaves_via g (ig_medium lr) fro = (leaf_nodes g (ig_medium lr), fro')"
    using leaves_via_eq(1) [OF assms(1,2)] by (cases "leaves_via g (ig_medium lr) fro") blast
  then have r: "fst (find_smallest_cycle h g entries lr asap p inel fro) =
      fst (find_smallest_cycle h g entries lr asap p inel None)"
    unfolding find_smallest_cycle_def by (simp add: leaves_via_def [of _ _ None] Let_def)
  show ?thesis
  proof (cases "?m = []")
    case True
    then show ?thesis by (simp add: r find_smallest_cycle_flat start_nodes_def)
  next
    case False
    note scan = scan_rungs_iff [where g = g and lr = lr and mergeable = ?m and
        cand = "cycle_candidates h entries asap p ?m" and rungs = "[pr_medium_post lr..<Suc (pr_medium_soft lr)]",
        unfolded set_cycle_candidates [OF assms(3)]]
    have e: "fst (find_smallest_cycle h g entries lr asap p inel fro) =
        scan_rungs g lr ?m (cycle_candidates h entries asap p ?m) [pr_medium_post lr..<Suc (pr_medium_soft lr)]"
      using False by (simp add: r find_smallest_cycle_flat)
    show ?thesis
    proof (cases "fst (find_smallest_cycle h g entries lr asap p inel fro)")
      case None
      then show ?thesis using scan unfolding e [symmetric] by (auto simp: less_Suc_eq_le)
    next
      case (Some c)
      obtain S ig where c: "c = (S, ig)" by (cases c)
      obtain lower i higher where i: "[pr_medium_post lr..<Suc (pr_medium_soft lr)] = lower @ i # higher"
          "ig = range_ig lr i"
          "\<forall>j \<in> set lower. \<forall>node \<in> start_nodes g lr asap p inel. \<not> closes g (range_ig lr j) ?m node"
          "\<exists>node \<in> start_nodes g lr asap p inel. closes g ig ?m node \<and> S = reached g ig {node}"
          "\<forall>node \<in> start_nodes g lr asap p inel. closes g ig ?m node \<longrightarrow> card S \<le> card (reached g ig {node})"
        using scan unfolding e [symmetric] Some c by auto
      show ?thesis
        unfolding Some c option.case prod.case
        by (rule bexI [of _ i]) (use i upt_split [OF i(1)] in auto)
    qed
  qed
qed

text \<open>Two new packages of one category, the nodes of \<open>tiny_graph\<close>.\<close>

definition tiny_entry :: "string \<Rightarrow> graph_entry" where
  "tiny_entry package =
     (synthetic_installed_entry ''a'' package ''1'' [])\<lparr> e_outcome := New ''1'' \<rparr>"

lemma hash_law_sorted: "hash_law sorted_list_of_set"
  by (simp add: hash_law_def)

theorem smallest_cycle_witness:
  "case fst (find_smallest_cycle sorted_list_of_set tiny_graph [tiny_entry ''b'', tiny_entry ''c''] NORMAL [] True {} None) of
      None \<Rightarrow> \<not> closes tiny_graph (Some NRuntimePost) [0, 1] 1
    | Some (S, ig) \<Rightarrow> card S \<le> card (reached tiny_graph (Some NRuntimePost) {1})"
proof -
  let ?e = "[tiny_entry ''b'', tiny_entry ''c'']"
  have m: "mergeable_nodes tiny_graph NORMAL {} = [0, 1]"
    by (simp add: mergeable_nodes_def leaf_nodes_def is_leaf_def child_counts_def tiny_graph_def survives_def
        ignore_defs runtime_dep_def post_dep_def default_priority_def ig_medium_def NORMAL_def)
  have n: "{pr_medium_post NORMAL..pr_medium_soft NORMAL} = {2}" "range_ig NORMAL 2 = Some NRuntimePost"
    by (simp_all add: NORMAL_def range_ig_def)
  have c: "closes tiny_graph (Some NRuntimePost) [0, 1] 1"
  proof -
    have "set (child_nodes tiny_graph 1 (Some NRuntimePost)) = {}"
      by (simp add: child_nodes_def child_counts_def tiny_graph_def survives_def ignore_defs post_dep_def
          default_priority_def)
    then have "reached tiny_graph (Some NRuntimePost) {1} \<subseteq> {1}" by (intro reached_closed) auto
    then show ?thesis by (auto simp: closes_def has_parents_def tiny_graph_def)
  qed
  have s: "1 \<in> start_nodes tiny_graph NORMAL [] True {}" by (simp add: start_nodes_def m)
  show ?thesis
    using smallest_cycle [OF tiny_ok(1) _ hash_law_sorted, where fro = None and entries = ?e and lr = NORMAL
          and asap = "[]" and p = True and inel = "{}"] c s
    by (auto simp: synced_def n m split: option.splits prod.splits)
qed

section \<open>Harvesting\<close>

lemma first_leaves_mem: "set (first_leaves g remaining igs) \<subseteq> remaining"
  by (induction igs) (auto simp: Let_def harvest_leaves_def)

lemma harvest_pick_mem:
  assumes "remaining \<noteq> {}" "remaining \<subseteq> set (dg_order g)"
  shows "\<exists>i. harvest_pick g remaining = Return i \<and> i \<in> remaining"
proof -
  let ?l = "first_leaves g remaining harvest_ladder"
  have pick: "(case filter Q xs of [] \<Rightarrow> hd xs | i # _ \<Rightarrow> i) \<in> set xs" if "xs \<noteq> []" for xs :: "nat list" and Q
    using that by (cases "filter Q xs") (auto dest: filter_eq_ConsD)
  show ?thesis
  proof (cases "?l = []")
    case False
    then show ?thesis using pick [OF False] first_leaves_mem [of g remaining harvest_ladder]
      by (auto simp: harvest_pick_def Let_def)
  next
    case True
    obtain i where "find (\<lambda>i. i \<in> remaining) (rev (dg_order g)) = Some i"
      using assms by (cases "find (\<lambda>i. i \<in> remaining) (rev (dg_order g))") (auto simp: find_None_iff)
    moreover have "i \<in> remaining" using calculation by (auto simp: find_Some_iff)
    ultimately show ?thesis using True by (auto simp: harvest_pick_def Let_def)
  qed
qed

lemma harvest_loop_perm:
  "finite remaining \<Longrightarrow> remaining \<subseteq> set (dg_order g) \<Longrightarrow> card remaining \<le> k \<Longrightarrow> distinct out \<Longrightarrow>
     set out \<inter> remaining = {} \<Longrightarrow>
   \<exists>r. harvest_loop k g remaining out = Return r \<and> distinct r \<and> set r = set out \<union> remaining"
proof (induction k arbitrary: remaining out)
  case (Suc k)
  show ?case
  proof (cases "remaining = {}")
    case False
    obtain i where i: "harvest_pick g remaining = Return i" "i \<in> remaining"
      using harvest_pick_mem [OF False Suc.prems(2)] by blast
    have "card (remaining - {i}) \<le> k" using i(2) Suc.prems(1,3) by (simp add: card_Diff_singleton)
    then have "\<exists>r. harvest_loop k g (remaining - {i}) (out @ [i]) = Return r \<and> distinct r \<and>
        set r = set (out @ [i]) \<union> (remaining - {i})"
      using Suc.prems i(2) by (intro Suc.IH) auto
    then show ?thesis using False i by auto
  qed (use Suc.prems in auto)
qed auto

lemma harvest_cycle_perm:
  assumes "finite sub" "sub \<subseteq> set (dg_order g)"
  shows "\<exists>r. harvest_cycle g sub = Return r \<and> distinct r \<and> set r = sub"
  using harvest_loop_perm [of sub g "card sub" "[]"] assms by (simp add: harvest_cycle_def)

end
