(* ===== verification/SelectOrder.thy ===== *)
theory SelectOrder
  imports Select CycleSearch
begin

text \<open>
  The selection loop without tree mode: the frontier does not change a result, the loop ends, and it
  emits every alive node exactly once; on a graph without cycles the order respects every edge.
\<close>

section \<open>The frontier is transparent\<close>

lemma leaves_via_None [simp]: "leaves_via g ig None = (leaf_nodes g ig, None)"
  by (simp add: leaves_via_def)

lemma leaves_via_synced:
  assumes "graph_ok g" "synced fro g"
  obtains fro' where "leaves_via g ig fro = (leaf_nodes g ig, fro')" "synced fro' g"
  using leaves_via_eq [OF assms] by (cases "leaves_via g ig fro") blast

lemma first_rung_scan_synced:
  assumes "graph_ok g" "synced fro g"
  shows "\<exists>fro'. first_rung_scan entries g asap tree lr competes rungs fro =
      (fst (first_rung_scan entries g asap tree lr competes rungs None), fro') \<and> synced fro' g \<and>
      snd (first_rung_scan entries g asap tree lr competes rungs None) = None"
  using assms(2)
proof (induction rungs arbitrary: fro)
  case (Cons i rungs)
  obtain fro' where f: "leaves_via g (range_ig lr i) fro = (leaf_nodes g (range_ig lr i), fro')" "synced fro' g"
    by (rule leaves_via_synced [OF assms(1) Cons.prems])
  from Cons.IH [OF f(2)] f(2) show ?case by (auto simp: f(1) Let_def split: option.split)
qed simp

lemma find_smallest_cycle_synced:
  assumes "graph_ok g" "synced fro g"
  shows "\<exists>fro'. find_smallest_cycle h g entries lr asap pa inel fro =
      (fst (find_smallest_cycle h g entries lr asap pa inel None), fro') \<and> synced fro' g \<and>
      snd (find_smallest_cycle h g entries lr asap pa inel None) = None"
proof -
  obtain fro' where "leaves_via g (ig_medium lr) fro = (leaf_nodes g (ig_medium lr), fro')" "synced fro' g"
    by (rule leaves_via_synced [OF assms])
  then show ?thesis by (simp add: find_smallest_cycle_def Let_def)
qed

lemma cycle_scan_synced:
  assumes "graph_ok g" "synced fro g"
  shows "(cycle_scan h entries g asap pa inel lrs None = Panic \<longrightarrow>
        cycle_scan h entries g asap pa inel lrs fro = Panic) \<and>
     (\<forall>sel fro0. cycle_scan h entries g asap pa inel lrs None = Return (sel, fro0) \<longrightarrow> fro0 = None \<and>
       (\<exists>fro'. cycle_scan h entries g asap pa inel lrs fro = Return (sel, fro') \<and> synced fro' g))"
  using assms(2)
proof (induction lrs arbitrary: fro)
  case (Cons lr lrs)
  obtain r fro' where f: "find_smallest_cycle h g entries lr asap pa inel fro = (r, fro')" "synced fro' g"
      "find_smallest_cycle h g entries lr asap pa inel None = (r, None)"
    using find_smallest_cycle_synced [OF assms(1) Cons.prems, of h entries lr asap pa inel]
    by (metis prod.collapse)
  show ?case
  proof (cases r)
    case None
    then show ?thesis using Cons.IH [OF f(2)] f(1,3) by simp
  next
    case (Some c)
    obtain sub ig where c: "c = (sub, ig)" by (cases c)
    show ?thesis using f Some c by (cases "cycle_choice h g sub") simp_all
  qed
qed simp

lemma asap_pick_synced:
  assumes "synced fro g" "\<forall>v \<in> set asap. v < dg_n g \<and> dg_alive g ! v"
  shows "asap_pick fro g waiting admitted lr asap = asap_pick None g waiting admitted lr asap"
proof -
  have "is_leaf_via fro g (asap ! pos) ig = is_leaf g (asap ! pos) ig" if "pos < length asap" for pos ig
    using assms that by (intro is_leaf_via_eq) auto
  moreover have "is_leaf_via None g v ig = is_leaf g v ig" for v ig by (simp add: is_leaf_via_def)
  ultimately show ?thesis unfolding asap_pick_def by (intro find_cong) auto
qed

section \<open>The state of a flat run\<close>

definition sel_ok :: "sel_state \<Rightarrow> bool" where
  "sel_ok st \<longleftrightarrow>
     graph_ok (sl_g st) \<and> sl_tree st = None \<and> synced (sl_fro st) (sl_g st) \<and>
     (\<forall>i \<in> set (dg_order (sl_g st)). dg_alive (sl_g st) ! i) \<and> set (sl_asap st) \<subseteq> {..<dg_n (sl_g st)}"

definition erase :: "sel_state \<Rightarrow> sel_state" where
  "erase st = st\<lparr> sl_fro := None \<rparr>"

lemma erase_simps [simp]:
  "sl_g (erase st) = sl_g st" "sl_fro (erase st) = None" "sl_ret (erase st) = sl_ret st"
  "sl_asap (erase st) = sl_asap st" "sl_prefer_asap (erase st) = sl_prefer_asap st"
  "sl_drop_satisfied (erase st) = sl_drop_satisfied st" "sl_scheduled (erase st) = sl_scheduled st"
  "sl_tree (erase st) = sl_tree st"
  by (simp_all add: erase_def)

lemma erase_upd [simp]:
  "erase (st\<lparr> sl_fro := f \<rparr>) = erase st"
  "erase (st\<lparr> sl_asap := a \<rparr>) = (erase st)\<lparr> sl_asap := a \<rparr>"
  "erase (st\<lparr> sl_prefer_asap := b \<rparr>) = (erase st)\<lparr> sl_prefer_asap := b \<rparr>"
  "erase (st\<lparr> sl_drop_satisfied := b \<rparr>) = (erase st)\<lparr> sl_drop_satisfied := b \<rparr>"
  "erase (st\<lparr> sl_scheduled := s \<rparr>) = (erase st)\<lparr> sl_scheduled := s \<rparr>"
  "erase (st\<lparr> sl_g := g \<rparr>) = (erase st)\<lparr> sl_g := g \<rparr>"
  "(erase st)\<lparr> sl_fro := None \<rparr> = erase st"
  by (simp_all add: erase_def)

lemma retry_state_simps [simp]:
  "sl_g (retry_state st) = sl_g st" "sl_fro (retry_state st) = sl_fro st" "sl_ret (retry_state st) = sl_ret st"
  "sl_asap (retry_state st) = sl_asap st" "sl_prefer_asap (retry_state st)"
  "\<not> sl_drop_satisfied (retry_state st)" "sl_scheduled (retry_state st) = sl_scheduled st"
  "sl_tree (retry_state st) = sl_tree st" "erase (retry_state st) = retry_state (erase st)"
  by (simp_all add: retry_state_def)

text \<open>Committing one node, and a selection of nodes, in flat mode.\<close>

lemma commit_node_flat:
  assumes "sl_tree st = None"
  shows "commit_node i st =
    (if dg_alive (sl_g st) ! i
     then st\<lparr> sl_g := kill i (sl_g st),
              sl_fro := map_option (frontier_remove i (dg_children (sl_g st) ! i) (dg_parents (sl_g st) ! i)) (sl_fro st),
              sl_ret := sl_ret st @ [i] \<rparr>
     else st)"
  using assms by (simp add: commit_node_def Let_def)

lemma commit_node_erase:
  "sl_tree st = None \<Longrightarrow> erase (commit_node i st) = commit_node i (erase st)"
  by (simp add: commit_node_flat)

definition commit_ok :: "sel_state \<Rightarrow> bool" where
  "commit_ok st \<longleftrightarrow> graph_ok (sl_g st) \<and> sl_tree st = None \<and> synced (sl_fro st) (sl_g st) \<and>
     set (sl_asap st) \<subseteq> {..<dg_n (sl_g st)}"

lemma commit_node_ok:
  assumes "commit_ok st" "i < dg_n (sl_g st)"
  shows "commit_ok (commit_node i st)"
  using assms frontier_remove_ok [of "sl_g st" _ i]
  by (auto simp: commit_ok_def commit_node_flat graph_ok_kill synced_def split: option.splits)

lemma commit_node_frame [simp]:
  assumes "sl_tree st = None"
  shows "dg_n (sl_g (commit_node i st)) = dg_n (sl_g st)" "dg_order (sl_g (commit_node i st)) = dg_order (sl_g st)"
    "dg_children (sl_g (commit_node i st)) = dg_children (sl_g st)"
    "sl_tree (commit_node i st) = None" "sl_scheduled (commit_node i st) = sl_scheduled st"
    "sl_asap (commit_node i st) = sl_asap st" "sl_prefer_asap (commit_node i st) = sl_prefer_asap st"
    "sl_drop_satisfied (commit_node i st) = sl_drop_satisfied st"
  using assms by (simp_all add: commit_node_flat)

lemma fold_commit:
  assumes "commit_ok st" "set sel \<subseteq> {..<dg_n (sl_g st)}" "distinct sel"
  shows "commit_ok (fold commit_node sel st)"
    "erase (fold commit_node sel st) = fold commit_node sel (erase st)"
    "dg_n (sl_g (fold commit_node sel st)) = dg_n (sl_g st)"
    "dg_order (sl_g (fold commit_node sel st)) = dg_order (sl_g st)"
    "dg_children (sl_g (fold commit_node sel st)) = dg_children (sl_g st)"
    "sl_scheduled (fold commit_node sel st) = sl_scheduled st"
    "sl_asap (fold commit_node sel st) = sl_asap st"
    "sl_prefer_asap (fold commit_node sel st) = sl_prefer_asap st"
    "sl_drop_satisfied (fold commit_node sel st) = sl_drop_satisfied st"
    "sl_ret (fold commit_node sel st) = sl_ret st @ filter ((!) (dg_alive (sl_g st))) sel"
    "dg_alive (sl_g (fold commit_node sel st)) ! j \<longleftrightarrow> dg_alive (sl_g st) ! j \<and> j \<notin> set sel"
proof -
  have "commit_ok (fold commit_node sel st) \<and>
    erase (fold commit_node sel st) = fold commit_node sel (erase st) \<and>
    dg_n (sl_g (fold commit_node sel st)) = dg_n (sl_g st) \<and>
    dg_order (sl_g (fold commit_node sel st)) = dg_order (sl_g st) \<and>
    dg_children (sl_g (fold commit_node sel st)) = dg_children (sl_g st) \<and>
    sl_scheduled (fold commit_node sel st) = sl_scheduled st \<and>
    sl_asap (fold commit_node sel st) = sl_asap st \<and>
    sl_prefer_asap (fold commit_node sel st) = sl_prefer_asap st \<and>
    sl_drop_satisfied (fold commit_node sel st) = sl_drop_satisfied st \<and>
    sl_ret (fold commit_node sel st) = sl_ret st @ filter ((!) (dg_alive (sl_g st))) sel \<and>
    (\<forall>j. dg_alive (sl_g (fold commit_node sel st)) ! j \<longleftrightarrow> dg_alive (sl_g st) ! j \<and> j \<notin> set sel)"
    using assms
  proof (induction sel arbitrary: st)
    case (Cons i sel)
    have t: "sl_tree st = None" using Cons.prems(1) by (simp add: commit_ok_def)
    have len: "length (dg_alive (sl_g st)) = dg_n (sl_g st)"
      using Cons.prems(1) by (simp add: commit_ok_def graph_ok_def)
    have alive: "dg_alive (sl_g (commit_node i st)) ! j \<longleftrightarrow> dg_alive (sl_g st) ! j \<and> j \<noteq> i" for j
      using Cons.prems(2) len by (auto simp: commit_node_flat [OF t] kill_alive)
    have ret: "sl_ret (commit_node i st) = sl_ret st @ (if dg_alive (sl_g st) ! i then [i] else [])"
      by (simp add: commit_node_flat [OF t])
    have ok: "commit_ok (commit_node i st)" using commit_node_ok [OF Cons.prems(1)] Cons.prems(2) by simp
    have f: "filter (\<lambda>a. dg_alive (sl_g st) ! a \<and> a \<noteq> i) sel = filter ((!) (dg_alive (sl_g st))) sel"
      using Cons.prems(3) by (intro filter_cong) auto
    show ?case
      using Cons.IH [OF ok] Cons.prems t commit_node_erase [OF t, of i]
      by (auto simp: alive ret f)
  qed simp
  then show "commit_ok (fold commit_node sel st)"
    "erase (fold commit_node sel st) = fold commit_node sel (erase st)"
    "dg_n (sl_g (fold commit_node sel st)) = dg_n (sl_g st)"
    "dg_order (sl_g (fold commit_node sel st)) = dg_order (sl_g st)"
    "dg_children (sl_g (fold commit_node sel st)) = dg_children (sl_g st)"
    "sl_scheduled (fold commit_node sel st) = sl_scheduled st"
    "sl_asap (fold commit_node sel st) = sl_asap st"
    "sl_prefer_asap (fold commit_node sel st) = sl_prefer_asap st"
    "sl_drop_satisfied (fold commit_node sel st) = sl_drop_satisfied st"
    "sl_ret (fold commit_node sel st) = sl_ret st @ filter ((!) (dg_alive (sl_g st))) sel"
    "dg_alive (sl_g (fold commit_node sel st)) ! j \<longleftrightarrow> dg_alive (sl_g st) ! j \<and> j \<notin> set sel"
    by blast+
qed


section \<open>Every selection is good\<close>

text \<open>
  A hard edge survives every rung either ladder reaches before its medium one: an unsatisfied
  build-time or run-time dependency.
\<close>

definition hard_dep :: "dep_priority \<Rightarrow> bool" where
  "hard_dep p \<longleftrightarrow> \<not> optional p \<and> \<not> satisfied p \<and> \<not> runtime_post p \<and> (buildtime p \<or> runtime p)"

definition hard_edge :: "dep_priority list \<Rightarrow> bool" where
  "hard_edge prios \<longleftrightarrow> list_ex hard_dep prios"

definition keeps_hard :: "ignore option \<Rightarrow> bool" where
  "keeps_hard ig \<longleftrightarrow> (\<forall>prios. hard_edge prios \<longrightarrow> survives ig prios)"

lemma keeps_hard_None [simp]: "keeps_hard None"
  by (simp add: keeps_hard_def)

lemma keeps_hard_soft:
  assumes "f \<in> {NOptional, NRuntimePost, SOptional, SSatisfiedRuntimePost, SRuntimePost, SSatisfiedRuntime,
    SSatisfiedBuildtime, SSatisfiedBuildtimeSlotOp}"
  shows "keeps_hard (Some f)"
proof -
  have "hard_dep p \<Longrightarrow> \<not> ignores f p" for p using assms by (auto simp: hard_dep_def ignore_defs split: if_splits)
  then show ?thesis by (auto simp: keeps_hard_def hard_edge_def survives_def list_ex_iff)
qed

lemma keeps_hard_range:
  assumes "lr = NORMAL \<or> lr = SATISFIED" "i \<le> pr_medium_soft lr"
  shows "keeps_hard (range_ig lr i)"
proof -
  have "i \<in> {0, 1, 2, 3, 4, 5, 6}" "lr = NORMAL \<Longrightarrow> i \<in> {0, 1, 2}"
    using assms by (auto simp: NORMAL_def SATISFIED_def)
  then show ?thesis
    using assms(1) by (elim disjE) (auto simp: range_ig_def NORMAL_def SATISFIED_def intro!: keeps_hard_soft)
qed

definition live_edges :: "digraph \<Rightarrow> (nat \<times> nat) set" where
  "live_edges g = {(p, c). p < dg_n g \<and> dg_alive g ! p \<and> dg_alive g ! c \<and> c \<in> fst ` set (dg_children g ! p)}"

definition no_hard_child :: "digraph \<Rightarrow> nat \<Rightarrow> bool" where
  "no_hard_child g p \<longleftrightarrow> (\<forall>(c, prios) \<in> set (dg_children g ! p). hard_edge prios \<longrightarrow> \<not> dg_alive g ! c)"

definition hard_free :: "digraph \<Rightarrow> nat list \<Rightarrow> bool" where
  "hard_free g sel \<longleftrightarrow> (acyclic (live_edges g) \<longrightarrow> (\<forall>p \<in> set sel. no_hard_child g p))"

definition sel_good :: "digraph \<Rightarrow> nat list \<Rightarrow> bool" where
  "sel_good g sel \<longleftrightarrow>
     sel \<noteq> [] \<and> distinct sel \<and> set sel \<subseteq> set (dg_order g) \<and> (\<forall>i \<in> set sel. dg_alive g ! i) \<and> hard_free g sel"

lemma leaf_hard:
  assumes "keeps_hard ig" "is_leaf g p ig" shows "no_hard_child g p"
  using assms unfolding no_hard_child_def is_leaf_def list_ex_iff child_counts_def keeps_hard_def by fastforce

lemma leaf_nodes_hard: "keeps_hard ig \<Longrightarrow> set sel \<subseteq> set (leaf_nodes g ig) \<Longrightarrow> hard_free g sel"
  using leaf_hard by (auto simp: hard_free_def leaf_nodes_def)

text \<open>Without cycles a non-empty set of alive nodes has a node with no edge inside it.\<close>

lemma finite_live_edges:
  assumes "graph_ok g" shows "finite (live_edges g)"
proof (rule finite_subset)
  show "live_edges g \<subseteq> {..<dg_n g} \<times> {..<dg_n g}"
    using graph_okD(2) [OF assms] by (fastforce simp: live_edges_def)
qed simp

lemma acyclic_bottom:
  assumes "graph_ok g" "acyclic (live_edges g)" "i \<in> S" "\<forall>i \<in> S. i < dg_n g \<and> dg_alive g ! i"
  obtains z where "z \<in> S" "\<forall>c \<in> fst ` set (dg_children g ! z). c \<notin> S"
proof -
  have "wf ((live_edges g)\<inverse>)"
    by (rule finite_acyclic_wf_converse [OF finite_live_edges [OF assms(1)] assms(2)])
  then obtain z where z: "z \<in> S" "\<And>y. (y, z) \<in> (live_edges g)\<inverse> \<Longrightarrow> y \<notin> S"
    using assms(3) by (rule wfE_min) blast
  have "c \<notin> S" if c: "c \<in> fst ` set (dg_children g ! z)" for c
  proof
    assume "c \<in> S"
    then have "(z, c) \<in> live_edges g" using z(1) c assms(4) by (simp add: live_edges_def)
    then show False using z(2) \<open>c \<in> S\<close> by blast
  qed
  with z(1) show thesis by (intro that) blast+
qed

lemma acyclic_leaf:
  assumes "graph_ok g" "acyclic (live_edges g)" "any_alive g"
  shows "leaf_nodes g None \<noteq> []"
proof -
  let ?S = "{i \<in> set (dg_order g). dg_alive g ! i}"
  obtain i where i: "i \<in> ?S" using assms(3) by (auto simp: any_alive_def list_ex_iff)
  have S: "\<forall>i \<in> ?S. i < dg_n g \<and> dg_alive g ! i" using assms(1) by (auto simp: graph_ok_def)
  obtain z where z: "z \<in> ?S" "\<forall>c \<in> fst ` set (dg_children g ! z). c \<notin> ?S"
    using acyclic_bottom [OF assms(1,2) i S] by blast
  have "\<not> dg_alive g ! c" if "c \<in> fst ` set (dg_children g ! z)" for c
    using that z graph_okD(2,8) [OF assms(1)] S by blast
  then have "is_leaf g z None" by (force simp: is_leaf_def list_ex_iff child_counts_def)
  then have "z \<in> set (leaf_nodes g None)" using z(1) by (simp add: leaf_nodes_def)
  then show ?thesis by auto
qed

lemma leaf_nodes_set: "set (leaf_nodes g ig) \<subseteq> set (dg_order g)" "i \<in> set (leaf_nodes g ig) \<Longrightarrow> dg_alive g ! i"
  by (auto simp: leaf_nodes_def)

lemma leaf_nodes_distinct: "graph_ok g \<Longrightarrow> distinct (leaf_nodes g ig)"
  by (simp add: leaf_nodes_def graph_ok_def)

lemma rung_choice_sub:
  assumes "rung_choice entries g asap tree lr ig rest = Some sel" "distinct rest"
  shows "sel \<noteq> [] \<and> distinct sel \<and> set sel \<subseteq> set rest"
  using assms
  by (auto simp: rung_choice_def Let_def find_Some_iff split: if_splits)

abbreviation ladder :: "priority_range \<Rightarrow> bool" where
  "ladder lr \<equiv> lr = NORMAL \<or> lr = SATISFIED"

lemma first_rung_scan_good:
  assumes "graph_ok g" "first_rung_scan entries g asap tree lr competes rungs None = (Some (sel, ig), f)"
    and lr: "ladder lr" and "\<forall>i \<in> set rungs. i \<le> pr_medium_soft lr"
  shows "sel_good g sel"
  using assms(2,4)
proof (induction rungs)
  case (Cons i rungs)
  show ?case
  proof (cases "rung_choice entries g asap tree lr (range_ig lr i) (filter competes (leaf_nodes g (range_ig lr i)))")
    case None
    then show ?thesis using Cons by simp
  next
    case (Some s)
    then have s: "s = sel" using Cons.prems by simp
    have sub: "sel \<noteq> [] \<and> distinct sel \<and> set sel \<subseteq> set (leaf_nodes g (range_ig lr i))"
      using rung_choice_sub [OF Some] leaf_nodes_distinct [OF assms(1), of "range_ig lr i"] s by auto
    have "keeps_hard (range_ig lr i)" using keeps_hard_range [OF lr] Cons.prems(2) by simp
    from leaf_nodes_hard [OF this] show ?thesis
      using sub leaf_nodes_set [where g = g and ig = "range_ig lr i"] by (auto simp: sel_good_def)
  qed
qed simp

lemma cycle_choice_good:
  assumes "graph_ok g" "hash_law h" "sub \<noteq> {}" "finite sub" "sub \<subseteq> set (dg_order g)" "\<forall>i \<in> sub. dg_alive g ! i"
    and closed: "\<forall>x \<in> sub. set (child_nodes g x ig) \<subseteq> sub" "keeps_hard ig"
  shows "\<exists>sel. cycle_choice h g sub = Return sel \<and> sel_good g sel"
proof -
  let ?f = "filter (\<lambda>i. i \<in> sub \<and> \<not> list_ex (\<lambda>(c, _). c \<in> sub) (dg_children g ! i)) (dg_order g)"
  have bound: "\<forall>i \<in> sub. i < dg_n g \<and> dg_alive g ! i" using assms(1,5,6) by (auto simp: graph_ok_def)
  have mem: "?f \<noteq> []" if a: "acyclic (live_edges g)"
  proof -
    obtain i where "i \<in> sub" using assms(3) by blast
    then obtain z where z: "z \<in> sub" "\<forall>c \<in> fst ` set (dg_children g ! z). c \<notin> sub"
      using acyclic_bottom [OF assms(1) a _ bound] by blast
    then have "z \<in> set ?f" using assms(5) by (auto simp: list_ex_iff)
    then show ?thesis by (metis list.distinct(1) list.set_cases)
  qed
  show ?thesis
  proof (cases ?f)
    case Nil
    then have cyc: "hard_free g s" for s using mem by (auto simp: hard_free_def)
    show ?thesis
    proof (cases "card sub > 1")
      case True
      obtain r where "harvest_cycle g sub = Return r" "distinct r" "set r = sub"
        using harvest_cycle_perm [OF assms(4,5)] by blast
      then show ?thesis using Nil True assms(3,5,6) cyc by (auto simp: cycle_choice_def sel_good_def)
    next
      case False
      have "set (h sub) = sub" "distinct (h sub)" using assms(2,4) by (auto simp: hash_law_def)
      then show ?thesis using Nil False assms(3,5,6) cyc by (auto simp: cycle_choice_def sel_good_def)
    qed
  next
    case (Cons i r)
    have "i \<in> set ?f" unfolding Cons by simp
    then have i: "i \<in> sub" "i \<in> set (dg_order g)" "\<forall>c \<in> fst ` set (dg_children g ! i). c \<notin> sub"
      by (auto simp: list_ex_iff)
    have "no_hard_child g i"
      unfolding no_hard_child_def
    proof clarify
      fix c prios assume c: "(c, prios) \<in> set (dg_children g ! i)" "hard_edge prios" "dg_alive g ! c"
      then have "c \<in> set (child_nodes g i ig)"
        using closed(2) by (force simp: child_nodes_def child_counts_def keeps_hard_def)
      then show False using closed(1) i(1,3) c(1) by force
    qed
    then show ?thesis using Cons i assms(6) by (auto simp: cycle_choice_def sel_good_def hard_free_def)
  qed
qed

lemma smallest_cycle_good:
  assumes "graph_ok g" "find_smallest_cycle h g entries lr asap p inel None = (Some (sub, ig), f)"
    and lr: "ladder lr"
  shows "sub \<noteq> {} \<and> finite sub \<and> sub \<subseteq> set (dg_order g) \<and> (\<forall>i \<in> sub. dg_alive g ! i) \<and>
    (\<forall>x \<in> sub. set (child_nodes g x ig) \<subseteq> sub) \<and> keeps_hard ig"
proof -
  let ?m = "mergeable_nodes g lr inel"
  have "scan_rungs g lr ?m (cycle_candidates h entries asap p ?m) [pr_medium_post lr..<Suc (pr_medium_soft lr)]
      = Some (sub, ig)"
    using find_smallest_cycle_flat [of h g entries lr asap p inel] assms(2) by (simp split: if_splits del: upt_Suc)
  with scan_rungs_iff [where g = g and lr = lr and mergeable = ?m and
        cand = "cycle_candidates h entries asap p ?m" and rungs = "[pr_medium_post lr..<Suc (pr_medium_soft lr)]"]
  obtain node lower i higher where n: "closes g ig ?m node" "sub = reached g ig {node}" "ig = range_ig lr i"
      "[pr_medium_post lr..<Suc (pr_medium_soft lr)] = lower @ i # higher" by (auto simp del: upt_Suc)
  then have "sub \<subseteq> set ?m" "node \<in> sub" using reached_refl [of "{node}" g ig] by (auto simp: closes_def)
  moreover have "keeps_hard ig" using keeps_hard_range [OF lr, of i] upt_split [OF n(4)] n(3) by simp
  moreover have "\<forall>x \<in> sub. set (child_nodes g x ig) \<subseteq> sub" using reached_step n(2) by blast
  ultimately show ?thesis
    using leaf_nodes_set [where g = g and ig = "ig_medium lr"]
    by (auto simp: mergeable_nodes_def intro: finite_subset)
qed

lemma cycle_scan_good:
  assumes "graph_ok g" "hash_law h" "\<forall>lr \<in> set lrs. ladder lr"
  shows "\<exists>r. cycle_scan h entries g asap p inel lrs None = Return (r, None) \<and>
    (\<forall>sel ig. r = Some (sel, ig) \<longrightarrow> sel_good g sel)"
  using assms(3)
proof (induction lrs)
  case (Cons lr lrs)
  obtain r where r: "find_smallest_cycle h g entries lr asap p inel None = (r, None)"
    using find_smallest_cycle_synced [OF assms(1), of None] by (metis prod.collapse synced_def option.case(1))
  show ?case
  proof (cases r)
    case None
    then show ?thesis using Cons r by simp
  next
    case (Some c)
    obtain sub ig where c: "c = (sub, ig)" by (cases c)
    have "ladder lr" using Cons.prems by simp
    then have "sub \<noteq> {}" "finite sub" "sub \<subseteq> set (dg_order g)" "\<forall>i \<in> sub. dg_alive g ! i"
        "\<forall>x \<in> sub. set (child_nodes g x ig) \<subseteq> sub" "keeps_hard ig"
      using smallest_cycle_good [OF assms(1)] r Some c by blast+
    from cycle_choice_good [OF assms(1,2) this] show ?thesis using r Some c by auto
  qed
qed simp


section \<open>One round\<close>

definition asap_ok :: "digraph \<Rightarrow> nat list \<Rightarrow> bool" where
  "asap_ok g asap \<longleftrightarrow> set asap \<subseteq> {..<dg_n g}"

lemma order_alive: "graph_ok g \<Longrightarrow> i < dg_n g \<Longrightarrow> dg_alive g ! i \<Longrightarrow> i \<in> set (dg_order g)"
  by (simp add: graph_ok_def)

lemma asap_step_flat:
  assumes "sel_ok st"
  shows "asap_step st w a = asap_step (erase st) w a"
    "asap_ok (sl_g st) (snd (asap_step st w a))"
    "fst (asap_step st w a) = Some (sel, ig) \<Longrightarrow> sel_good (sl_g st) sel"
proof -
  let ?g = "sl_g st" and ?lr = "round_range st"
  let ?asap = "filter ((!) (dg_alive ?g)) (sl_asap st)"
  have g: "graph_ok ?g" and s: "synced (sl_fro st) ?g" and b: "set (sl_asap st) \<subseteq> {..<dg_n ?g}"
    using assms by (simp_all add: sel_ok_def)
  have "\<forall>v \<in> set ?asap. v < dg_n ?g \<and> dg_alive ?g ! v" using b by auto
  note pick = asap_pick_synced [OF s this, of w a ?lr]
  have act: "asap_active (erase st) = asap_active st" "round_range (erase st) = ?lr"
    by (simp_all add: asap_active_def round_range_def)
  show "asap_step st w a = asap_step (erase st) w a"
    by (simp add: asap_step_def act pick Let_def cong: option.case_cong)
  have bound: "set ?asap \<subseteq> {..<dg_n ?g}" using b by auto
  have td: "set (take pos ?asap @ drop (Suc pos) ?asap) \<subseteq> {..<dg_n ?g}" for pos
    using bound set_take_subset [of pos ?asap] set_drop_subset [of "Suc pos" ?asap] by auto
  show "asap_ok ?g (snd (asap_step st w a))"
  proof (cases "asap_active st")
    case True
    show ?thesis
    proof (cases "asap_pick (sl_fro st) ?g w a ?lr ?asap")
      case None
      then show ?thesis using True bound by (simp add: asap_step_def asap_ok_def Let_def)
    next
      case (Some p)
      obtain i pos where "p = (i, pos)" by (cases p)
      then show ?thesis using True Some td [of pos] by (simp add: asap_step_def asap_ok_def Let_def)
    qed
  qed (use b in \<open>simp add: asap_step_def asap_ok_def\<close>)
  assume sel: "fst (asap_step st w a) = Some (sel, ig)"
  then obtain i pos where p: "asap_pick (sl_fro st) ?g w a ?lr ?asap = Some (i, pos)" "sel = [?asap ! pos]"
    by (auto simp: asap_step_def Let_def split: if_splits option.splits)
  have "find Q xs = Some x \<Longrightarrow> x \<in> set xs \<and> Q x" for Q xs and x :: "nat \<times> nat" by (auto simp: find_Some_iff)
  then have ip: "(i, pos) \<in> set (List.product [1..<Suc (pr_medium_soft ?lr)] [0..<length ?asap])"
      and "is_leaf_via None ?g (?asap ! pos) (range_ig ?lr i)"
    using p(1) unfolding asap_pick_def pick [unfolded asap_pick_def] by blast+
  then have leaf: "is_leaf ?g (?asap ! pos) (range_ig ?lr i)" by (simp add: is_leaf_via_def)
  have "pos < length ?asap" "i \<le> pr_medium_soft ?lr" using ip by auto
  moreover have "ladder ?lr" by (simp add: round_range_def)
  ultimately have "keeps_hard (range_ig ?lr i)" using keeps_hard_range by blast
  with leaf have "no_hard_child ?g (?asap ! pos)" by (blast intro: leaf_hard)
  moreover have "?asap ! pos \<in> set ?asap" using \<open>pos < length ?asap\<close> by (rule nth_mem)
  ultimately show "sel_good ?g sel"
    using p(2) b order_alive [OF g] by (auto simp: sel_good_def hard_free_def)
qed

lemma round_front_flat:
  assumes ok: "sel_ok st" and h: "hash_law h"
  shows "\<exists>sel asap fro. round_front h entries st = Return (sel, asap, fro) \<and>
     round_front h entries (erase st) = Return (sel, asap, None) \<and> synced fro (sl_g st) \<and>
     asap_ok (sl_g st) asap \<and> (sel = None \<longrightarrow> sl_prefer_asap st) \<and>
     (\<forall>s ig. sel = Some (Some (s, ig)) \<longrightarrow> sel_good (sl_g st) s)"
proof -
  let ?g = "sl_g st" and ?lr = "round_range st"
  have g: "graph_ok ?g" and s: "synced (sl_fro st) ?g" and t: "sl_tree st = None"
    using ok by (simp_all add: sel_ok_def)
  define w where "w = waiting_owners ?g (sl_scheduled st) (removal_owner_pairs entries)"
  define a where "a = admitted_waiting False ?g (sl_scheduled st) (removal_owner_pairs entries)"
  define inel where "inel = ineligible_nodes ?g (sl_scheduled st) (removal_rows entries) w a"
  define comp where "comp = (\<lambda>n. n \<notin> w \<and> n \<notin> a \<and> (n \<in> sl_scheduled st \<or> n \<notin> set (removal_rows entries)))"
  obtain sel0 asap where a0: "asap_step st w a = (sel0, asap)" by (cases "asap_step st w a")
  note as = asap_step_flat [OF ok, of w a, unfolded a0]
  have range: "round_range (erase st) = ?lr" by (simp add: round_range_def asap_active_def)
  have lad: "ladder ?lr" by (simp add: round_range_def)
  then have lads: "\<forall>lr \<in> set (cycle_ranges ?lr (sl_drop_satisfied st)). ladder lr" by (auto simp: cycle_ranges_def)
  have "\<exists>sel1 fro1. select_first_rung entries ?g asap (sl_prefer_asap st) False ?lr comp sel0 (sl_fro st) = (sel1, fro1) \<and>
      select_first_rung entries ?g asap (sl_prefer_asap st) False ?lr comp sel0 None = (sel1, None) \<and>
      synced fro1 ?g \<and> (\<forall>x ig. sel1 = Some (x, ig) \<longrightarrow> sel_good ?g x)"
  proof (cases "sel0 = None \<and> \<not> (sl_prefer_asap st \<and> asap \<noteq> [])")
    case True
    let ?scan = "first_rung_scan entries ?g asap False ?lr comp [0..<Suc (pr_medium_soft ?lr)]"
    obtain r fro1 where r: "?scan None = (r, None)" "?scan (sl_fro st) = (r, fro1)" "synced fro1 ?g"
      using first_rung_scan_synced [OF g s, of entries asap False ?lr comp "[0..<Suc (pr_medium_soft ?lr)]"]
      by (metis prod.collapse)
    have "\<forall>i \<in> set [0..<Suc (pr_medium_soft ?lr)]. i \<le> pr_medium_soft ?lr" by auto
    then have "\<forall>x ig. r = Some (x, ig) \<longrightarrow> sel_good ?g x"
      using first_rung_scan_good [OF g _ lad] r(1) by blast
    then show ?thesis using True r by (auto simp: select_first_rung_def simp del: upt_Suc)
  next
    case False
    then show ?thesis using s as(3) by (auto simp: select_first_rung_def)
  qed
  then obtain sel1 fro1 where
    f1: "select_first_rung entries ?g asap (sl_prefer_asap st) False ?lr comp sel0 (sl_fro st) = (sel1, fro1)"
      "select_first_rung entries ?g asap (sl_prefer_asap st) False ?lr comp sel0 None = (sel1, None)"
      "synced fro1 ?g" "\<And>x ig. sel1 = Some (x, ig) \<Longrightarrow> sel_good ?g x" by blast
  let ?second = "select_second_rung h entries ?g asap (sl_prefer_asap st) (sl_drop_satisfied st) inel ?lr sel1"
  have "\<exists>sel2 fro2. ?second fro1 = Return (sel2, fro2) \<and> ?second None = Return (sel2, None) \<and> synced fro2 ?g \<and>
      (sel2 = None \<longrightarrow> sl_prefer_asap st) \<and> (\<forall>x ig. sel2 = Some (Some (x, ig)) \<longrightarrow> sel_good ?g x)"
  proof (cases sel1)
    case None
    obtain r where r: "cycle_scan h entries ?g asap (sl_prefer_asap st) inel (cycle_ranges ?lr (sl_drop_satisfied st)) None
        = Return (r, None)" "\<forall>x ig. r = Some (x, ig) \<longrightarrow> sel_good ?g x"
      using cycle_scan_good [OF g h lads] by blast
    obtain fro2 where "cycle_scan h entries ?g asap (sl_prefer_asap st) inel
        (cycle_ranges ?lr (sl_drop_satisfied st)) fro1 = Return (r, fro2)" "synced fro2 ?g"
      using cycle_scan_synced [OF g f1(3)] r(1) by blast
    then show ?thesis using None r by (auto simp: select_second_rung_def)
  next
    case (Some c)
    then show ?thesis using f1(3,4) by (auto simp: select_second_rung_def)
  qed
  then obtain sel2 fro2 where f2: "?second fro1 = Return (sel2, fro2)" "?second None = Return (sel2, None)"
      "synced fro2 ?g" "sel2 = None \<longrightarrow> sl_prefer_asap st" "\<forall>x ig. sel2 = Some (Some (x, ig)) \<longrightarrow> sel_good ?g x"
    by blast
  have "round_front h entries st = Return (sel2, asap, fro2)"
    by (simp add: round_front_def Let_def t a0 f1(1) f2(1) flip: w_def a_def comp_def inel_def)
  moreover have "round_front h entries (erase st) = Return (sel2, asap, None)"
    by (simp add: round_front_def Let_def t as(1) [symmetric] f1(2) f2(2) range flip: w_def a_def comp_def inel_def)
  ultimately show ?thesis using f2 as(2) by auto
qed


text \<open>A round either commits a selection or changes the flags for another try.\<close>

definition committed :: "sel_state \<Rightarrow> nat list \<Rightarrow> sel_state \<Rightarrow> bool" where
  "committed st sel st' \<longleftrightarrow>
     sel_good (sl_g st) sel \<and> sl_ret st' = sl_ret st @ sel \<and> dg_n (sl_g st') = dg_n (sl_g st) \<and>
     dg_children (sl_g st') = dg_children (sl_g st) \<and>
     (\<forall>j. dg_alive (sl_g st') ! j \<longleftrightarrow> dg_alive (sl_g st) ! j \<and> j \<notin> set sel)"

definition retried :: "graph_entry list \<Rightarrow> sel_state \<Rightarrow> sel_state \<Rightarrow> bool" where
  "retried entries st st' \<longleftrightarrow>
     sl_g st' = sl_g st \<and> sl_ret st' = sl_ret st \<and>
     (sl_scheduled st' = sl_scheduled st \<and> sl_prefer_asap st \<and> \<not> sl_prefer_asap st' \<or>
      (\<exists>r \<in> set (removal_rows entries). r \<notin> sl_scheduled st \<and> sl_scheduled st' = insert r (sl_scheduled st)) \<or>
      sl_scheduled st' = sl_scheduled st \<and> sl_prefer_asap st' = sl_prefer_asap st \<and>
        \<not> sl_drop_satisfied st \<and> sl_drop_satisfied st')"

lemma commit_selection_ok:
  assumes ok: "graph_ok (sl_g st)" "sl_tree st = None" "synced (sl_fro st) (sl_g st)" "asap_ok (sl_g st) (sl_asap st)"
    and good: "sel_good (sl_g st) sel"
  shows "sel_ok (commit_selection sel st)" "committed st sel (commit_selection sel st)"
    "erase (commit_selection sel st) = commit_selection sel (erase st)"
proof -
  have c: "commit_ok (retry_state st)" using ok by (simp add: commit_ok_def asap_ok_def)
  have sel: "set sel \<subseteq> {..<dg_n (sl_g (retry_state st))}" "distinct sel" "\<forall>i \<in> set sel. dg_alive (sl_g st) ! i"
    using good ok(1) by (auto simp: sel_good_def graph_ok_def)
  note f = fold_commit [OF c sel(1,2)]
  show "sel_ok (commit_selection sel st)"
    using f(1) graph_ok_retain frontier_ok_retain
    by (auto simp: commit_selection_def sel_ok_def commit_ok_def Let_def synced_def split: option.splits)
  show "committed st sel (commit_selection sel st)"
    using f(3,5,10,11) good sel(3)
    by (simp add: committed_def commit_selection_def Let_def filter_id_conv)
  show "erase (commit_selection sel st) = commit_selection sel (erase st)"
  proof -
    have "erase (fold commit_node sel (retry_state st)) = fold commit_node sel (retry_state (erase st))"
      using f(2) by simp
    then show ?thesis by (simp add: commit_selection_def Let_def) (metis erase_simps(1))
  qed
qed

lemma sort_key_Nil: "sort_key f xs = [] \<longleftrightarrow> xs = []"
  by (metis length_sort length_0_conv)

lemma root_choice_flat:
  assumes "graph_ok g" "synced fro g"
  shows "\<exists>r fro'. root_choice g fro = (r, fro') \<and> root_choice g None = (r, None) \<and> synced fro' g \<and>
    (\<forall>roots. r = Some roots \<longrightarrow> sel_good g roots) \<and> (r = None \<longrightarrow> leaf_nodes g None = [])"
proof -
  have "hard_free g (sort_key f (leaf_nodes g None))" for f :: "nat \<Rightarrow> nat"
    by (rule leaf_nodes_hard [of None]) simp_all
  moreover
  obtain fro' where f: "leaves_via g None fro = (leaf_nodes g None, fro')" "synced fro' g"
    by (rule leaves_via_synced [OF assms])
  ultimately show ?thesis
    using f leaf_nodes_distinct [OF assms(1), of None] leaf_nodes_set [where g = g and ig = None]
    by (auto simp: root_choice_def sel_good_def sort_key_Nil)
qed

lemma fallback_flat:
  assumes "graph_ok g" "any_alive g" "leaf_nodes g None = []"
  shows "\<exists>i. fallback_node g = Some i \<and> sel_good g [i]"
proof -
  have free: "hard_free g s" for s using acyclic_leaf assms by (auto simp: hard_free_def)
  have in_order: "i \<in> set (dg_order g) \<and> Q i" if "find Q (dg_order g) = Some i" for Q i
    using that by (auto simp: find_Some_iff)
  show ?thesis
  proof (cases "find (\<lambda>i. dg_alive g ! i \<and> is_leaf g i (ig_medium SATISFIED)) (dg_order g)")
    case None
    obtain i where "find (\<lambda>i. dg_alive g ! i) (dg_order g) = Some i"
      using assms(2) by (cases "find (\<lambda>i. dg_alive g ! i) (dg_order g)")
        (auto simp: find_None_iff any_alive_def list_ex_iff)
    then show ?thesis using None in_order [of "\<lambda>i. dg_alive g ! i" i]
      by (auto simp: fallback_node_def sel_good_def free)
  next
    case (Some i)
    then show ?thesis using in_order [OF Some] by (auto simp: fallback_node_def sel_good_def free)
  qed
qed

lemma promote_ok:
  assumes "graph_ok g" "asap_ok g asap" "\<forall>s ig. sel = Some (s, ig) \<longrightarrow> sel_good g s"
  shows "asap_ok g (promote_freed_medium_post sel g asap)"
proof (cases sel)
  case (Some c)
  obtain s ig where c: "c = (s, ig)" by (cases c)
  define cs where "cs = concat (map (\<lambda>node. map fst (filter (\<lambda>(c, prios). dg_alive g ! c \<and> freed_medium_post prios)
      (dg_children g ! node))) s)"
  have "set s \<subseteq> {..<dg_n g}" using assms(1,3) Some c by (auto simp: sel_good_def graph_ok_def)
  then have "set cs \<subseteq> {..<dg_n g}"
    using graph_okD(2) [OF assms(1)] unfolding cs_def by (fastforce simp: subset_eq)
  then have "set (fold (\<lambda>c asap. if c \<in> set s \<or> c \<in> set asap then asap else asap @ [c]) cs asap) \<subseteq> {..<dg_n g}"
    using assms(2) by (induction cs arbitrary: asap) (auto simp: asap_ok_def)
  then show ?thesis
    using assms(2) by (cases ig) (auto simp: promote_freed_medium_post_def Some c asap_ok_def cs_def)
qed (use assms in \<open>simp add: promote_freed_medium_post_def\<close>)


text \<open>Two runs from states that differ only in the frontier stay so.\<close>

definition lockstep :: "graph_entry list \<Rightarrow> sel_state \<Rightarrow> sel_state run \<Rightarrow> sel_state run \<Rightarrow> bool" where
  "lockstep entries st r r0 \<longleftrightarrow>
     (\<exists>st'. r = Return st' \<and> r0 = Return (erase st') \<and> sel_ok st' \<and>
        ((\<exists>sel. committed st sel st') \<or> retried entries st st'))"

lemma lockstep_commit:
  assumes "sel_ok st" "sel_good (sl_g st) sel" "synced f (sl_g st)"
  shows "lockstep entries st (Return (commit_selection sel (st\<lparr> sl_fro := f \<rparr>)))
           (Return (commit_selection sel (erase st)))"
proof -
  have "commit_selection sel (erase st) = erase (commit_selection sel (st\<lparr> sl_fro := f \<rparr>))"
    "sel_ok (commit_selection sel (st\<lparr> sl_fro := f \<rparr>))"
    "committed (st\<lparr> sl_fro := f \<rparr>) sel (commit_selection sel (st\<lparr> sl_fro := f \<rparr>))"
    using assms commit_selection_ok [of "st\<lparr> sl_fro := f \<rparr>" sel] by (simp_all add: sel_ok_def asap_ok_def)
  then show ?thesis by (auto simp: lockstep_def committed_def)
qed

lemma last_resort_lockstep:
  assumes ok: "sel_ok st" and alive: "any_alive (sl_g st)"
  shows "lockstep entries st (select_last_resort st) (select_last_resort (erase st))"
proof -
  have g: "graph_ok (sl_g st)" "synced (sl_fro st) (sl_g st)" using ok by (simp_all add: sel_ok_def)
  obtain r fro where r: "root_choice (sl_g st) (sl_fro st) = (r, fro)" "root_choice (sl_g st) None = (r, None)"
      "synced fro (sl_g st)" "\<forall>roots. r = Some roots \<longrightarrow> sel_good (sl_g st) roots"
      "r = None \<longrightarrow> leaf_nodes (sl_g st) None = []"
    using root_choice_flat [OF g] by blast
  show ?thesis
  proof (cases r)
    case None
    show ?thesis
    proof (cases "sl_drop_satisfied st")
      case True
      obtain i where i: "fallback_node (sl_g st) = Some i" "sel_good (sl_g st) [i]"
        using fallback_flat [OF g(1) alive] None r(5) by blast
      then show ?thesis using True None r lockstep_commit [OF ok i(2) r(3)] by (simp add: select_last_resort_def)
    next
      case False
      then show ?thesis using None r ok
        by (auto simp: select_last_resort_def lockstep_def sel_ok_def retried_def)
    qed
  next
    case (Some roots)
    then show ?thesis using r lockstep_commit [OF ok _ r(3)] by (simp add: select_last_resort_def)
  qed
qed

lemma round_back_lockstep:
  assumes ok: "sel_ok st" and alive: "any_alive (sl_g st)"
    and sel: "\<forall>s ig. selected = Some (s, ig) \<longrightarrow> sel_good (sl_g st) s"
  shows "lockstep entries st (round_back entries selected st) (round_back entries selected (erase st))"
proof (cases selected)
  case (Some c)
  obtain s ig where c: "c = (s, ig)" by (cases c)
  have "synced (sl_fro st) (sl_g st)" using ok by (simp add: sel_ok_def)
  from lockstep_commit [OF ok _ this, of s entries] show ?thesis
    using Some c sel by (simp add: round_back_def schedule_stuck_or_admit_def)
next
  case None
  have t: "stuck_tree entries st = (st, False)" "stuck_tree entries (erase st) = (erase st, False)"
    using ok by (simp_all add: stuck_tree_def sel_ok_def)
  show ?thesis
  proof (cases "first_unadmitted (sl_g st) (removal_rows entries) (sl_scheduled st)")
    case None
    then show ?thesis using \<open>selected = None\<close> t last_resort_lockstep [OF ok alive]
      by (simp add: round_back_def schedule_stuck_or_admit_def)
  next
    case (Some r)
    then have "r \<in> set (removal_rows entries)" "r \<notin> sl_scheduled st"
      by (auto simp: first_unadmitted_def find_Some_iff)
    then show ?thesis using \<open>selected = None\<close> t Some ok
      by (auto simp: round_back_def schedule_stuck_or_admit_def lockstep_def sel_ok_def retried_def)
  qed
qed

lemma select_round_lockstep:
  assumes ok: "sel_ok st" and alive: "any_alive (sl_g st)" and h: "hash_law h"
  shows "lockstep entries st (select_round h entries st) (select_round h entries (erase st))"
proof -
  obtain sel asap fro where f: "round_front h entries st = Return (sel, asap, fro)"
      "round_front h entries (erase st) = Return (sel, asap, None)" "synced fro (sl_g st)"
      "asap_ok (sl_g st) asap" "sel = None \<longrightarrow> sl_prefer_asap st"
      "\<forall>s ig. sel = Some (Some (s, ig)) \<longrightarrow> sel_good (sl_g st) s"
    using round_front_flat [OF ok h] by blast
  show ?thesis
  proof (cases sel)
    case None
    then show ?thesis using f ok
      by (auto simp: select_round_def lockstep_def sel_ok_def retried_def asap_ok_def)
  next
    case (Some s)
    let ?st = "st\<lparr> sl_fro := fro, sl_asap := promote_freed_medium_post s (sl_g st) asap \<rparr>"
    have "asap_ok (sl_g st) (promote_freed_medium_post s (sl_g st) asap)"
      using promote_ok [of "sl_g st" asap s] f(4,6) Some ok by (auto simp: sel_ok_def)
    then have "sel_ok ?st" using ok f(3) by (simp add: sel_ok_def asap_ok_def)
    then have "lockstep entries ?st (round_back entries s ?st) (round_back entries s (erase ?st))"
      using round_back_lockstep [of ?st s entries] alive f(6) Some by simp
    then show ?thesis using f(1,2) Some
      by (simp add: select_round_def lockstep_def committed_def retried_def)
  qed
qed

end
