(* ===== verification/SelectTotal.thy ===== *)
theory SelectTotal
  imports SelectOrder
begin

text \<open>
  The loop of the selection: it ends, every alive node is emitted once, hard edges of an acyclic
  graph are respected, and with no removal and no prioritised node it is Kahn's algorithm by layers.
\<close>

section \<open>The measure\<close>

definition live :: "digraph \<Rightarrow> nat set" where
  "live g = {i. i < dg_n g \<and> dg_alive g ! i}"

lemma live_order: "graph_ok g \<Longrightarrow> live g = {i \<in> set (dg_order g). dg_alive g ! i}"
  by (auto simp: live_def graph_ok_def)

lemma finite_live [simp]: "finite (live g)"
  by (simp add: live_def)

lemma any_alive_live: "graph_ok g \<Longrightarrow> any_alive g \<longleftrightarrow> live g \<noteq> {}"
  by (auto simp: live_order any_alive_def list_ex_iff)

text \<open>Alive nodes, removals not admitted, and the two flags.\<close>

definition round_measure :: "graph_entry list \<Rightarrow> sel_state \<Rightarrow> nat \<times> nat \<times> nat \<times> nat" where
  "round_measure entries st =
     (card (live (sl_g st)), card (set (removal_rows entries) - sl_scheduled st),
      of_bool (sl_prefer_asap st), of_bool (\<not> sl_drop_satisfied st))"

definition measure_rel :: "((nat \<times> nat \<times> nat \<times> nat) \<times> (nat \<times> nat \<times> nat \<times> nat)) set" where
  "measure_rel = less_than <*lex*> less_than <*lex*> less_than <*lex*> less_than"

lemma wf_measure_rel: "wf measure_rel"
  unfolding measure_rel_def by (intro wf_lex_prod wf_less_than)

lemma committed_live:
  assumes "graph_ok (sl_g st)" "committed st sel st'"
  shows "live (sl_g st') = live (sl_g st) - set sel" "set sel \<subseteq> live (sl_g st)" "sel \<noteq> []" "distinct sel"
    "live (sl_g st') \<subset> live (sl_g st)"
proof -
  show l: "live (sl_g st') = live (sl_g st) - set sel" using assms by (auto simp: committed_def live_def)
  show s: "set sel \<subseteq> live (sl_g st)" "sel \<noteq> []" "distinct sel"
    using assms by (auto simp: committed_def sel_good_def live_order)
  then show "live (sl_g st') \<subset> live (sl_g st)" using l by (cases sel) auto
qed

lemma round_decreases:
  assumes "sel_ok st" "committed st sel st' \<or> retried entries st st'"
  shows "(round_measure entries st', round_measure entries st) \<in> measure_rel"
  using assms(2)
proof
  assume c: "committed st sel st'"
  have "card (live (sl_g st')) < card (live (sl_g st))"
    using committed_live(5) [OF _ c] assms(1) by (auto simp: sel_ok_def intro: psubset_card_mono)
  then show ?thesis by (simp add: round_measure_def measure_rel_def)
next
  assume r: "retried entries st st'"
  show ?thesis
  proof (cases "\<exists>r \<in> set (removal_rows entries). r \<notin> sl_scheduled st \<and> sl_scheduled st' = insert r (sl_scheduled st)")
    case True
    then have "set (removal_rows entries) - sl_scheduled st' \<subset> set (removal_rows entries) - sl_scheduled st" by auto
    then have "card (set (removal_rows entries) - sl_scheduled st') < card (set (removal_rows entries) - sl_scheduled st)"
      by (intro psubset_card_mono) auto
    then show ?thesis using r by (simp add: retried_def round_measure_def measure_rel_def)
  next
    case False
    then show ?thesis using r by (auto simp: retried_def round_measure_def measure_rel_def)
  qed
qed

section \<open>The whole loop\<close>

fun hard_order :: "(nat \<times> dep_priority list) list list \<Rightarrow> nat list \<Rightarrow> bool" where
  "hard_order children [] \<longleftrightarrow> True"
| "hard_order children (p # out) \<longleftrightarrow>
     (\<forall>(c, prios) \<in> set (children ! p). hard_edge prios \<longrightarrow> c \<notin> insert p (set out)) \<and> hard_order children out"

lemma hard_order_append:
  assumes "\<forall>p \<in> set sel. \<forall>(c, prios) \<in> set (children ! p). hard_edge prios \<longrightarrow> c \<notin> set sel \<union> set out"
    and "hard_order children out"
  shows "hard_order children (sel @ out)"
  using assms by (induction sel) fastforce+

lemma hard_order_split:
  "hard_order children (xs @ p # ys) \<Longrightarrow> (c, prios) \<in> set (children ! p) \<Longrightarrow> hard_edge prios \<Longrightarrow> c \<notin> set (p # ys)"
  by (induction xs) auto

lemma live_edges_mono:
  assumes "dg_n g' = dg_n g" "dg_children g' = dg_children g" "\<And>j. dg_alive g' ! j \<Longrightarrow> dg_alive g ! j"
  shows "live_edges g' \<subseteq> live_edges g"
  using assms by (auto simp: live_edges_def)

definition emitted :: "sel_state \<Rightarrow> nat list \<Rightarrow> bool" where
  "emitted st out \<longleftrightarrow> distinct out \<and> set out = live (sl_g st) \<and>
     (acyclic (live_edges (sl_g st)) \<longrightarrow> hard_order (dg_children (sl_g st)) out)"

lemma emitted_committed:
  assumes "graph_ok (sl_g st)" "committed st sel st'" "emitted st' out"
  shows "emitted st (sel @ out)"
proof -
  note l = committed_live [OF assms(1,2)]
  have "hard_order (dg_children (sl_g st)) (sel @ out)" if a: "acyclic (live_edges (sl_g st))"
  proof (rule hard_order_append)
    have "live_edges (sl_g st') \<subseteq> live_edges (sl_g st)"
      using assms(2) by (intro live_edges_mono) (auto simp: committed_def)
    then have "acyclic (live_edges (sl_g st'))" using a acyclic_subset by blast
    then show "hard_order (dg_children (sl_g st)) out" using assms(2,3) by (simp add: emitted_def committed_def)
    have "\<forall>p \<in> set sel. no_hard_child (sl_g st) p"
      using assms(2) a by (simp add: committed_def sel_good_def hard_free_def)
    moreover have "set sel \<union> set out \<subseteq> live (sl_g st)" using l assms(3) by (auto simp: emitted_def)
    ultimately show "\<forall>p \<in> set sel. \<forall>(c, prios) \<in> set (dg_children (sl_g st) ! p).
        hard_edge prios \<longrightarrow> c \<notin> set sel \<union> set out"
      by (fastforce simp: no_hard_child_def live_def)
  qed
  then show ?thesis using l assms(3) by (auto simp: emitted_def)
qed

lemma select_loop_run:
  assumes "hash_law h" "sel_ok st"
  shows "\<exists>out st'. select_loop h entries st = Some (Return st') \<and>
    select_loop h entries (erase st) = Some (Return (erase st')) \<and>
    sl_ret st' = sl_ret st @ out \<and> emitted st out"
  using assms(2)
proof (induction "round_measure entries st" arbitrary: st rule: wf_induct_rule [OF wf_measure_rel])
  case (1 st)
  have g: "graph_ok (sl_g st)" using 1(2) by (simp add: sel_ok_def)
  show ?case
  proof (cases "any_alive (sl_g st)")
    case False
    then show ?thesis using any_alive_live [OF g]
      by (auto simp: select_loop.simps [of h entries st] select_loop.simps [of h entries "erase st"] emitted_def)
  next
    case True
    obtain st1 where r: "select_round h entries st = Return st1" "select_round h entries (erase st) = Return (erase st1)"
        "sel_ok st1" "(\<exists>sel. committed st sel st1) \<or> retried entries st st1"
      using select_round_lockstep [OF 1(2) True assms(1), of entries] unfolding lockstep_def by blast
    then have "(round_measure entries st1, round_measure entries st) \<in> measure_rel"
      using round_decreases [OF 1(2)] by blast
    then obtain out st' where s: "select_loop h entries st1 = Some (Return st')"
        "select_loop h entries (erase st1) = Some (Return (erase st'))" "sl_ret st' = sl_ret st1 @ out" "emitted st1 out"
      using 1(1) r(3) by blast
    have "\<exists>out. sl_ret st' = sl_ret st @ out \<and> emitted st out"
      using r(4)
    proof
      assume "\<exists>sel. committed st sel st1"
      then obtain sel where c: "committed st sel st1" ..
      then show ?thesis using s(3) emitted_committed [OF g c s(4)] by (auto simp: committed_def)
    next
      assume "retried entries st st1"
      then show ?thesis using s(3,4) by (auto simp: retried_def emitted_def)
    qed
    then show ?thesis using True r(1,2) s(1,2)
      by (simp add: select_loop.simps [of h entries st] select_loop.simps [of h entries "erase st"])
  qed
qed

text \<open>The edge of the synthetic uninstall node is not hard.\<close>

lemma synthetic_edge_is_ignored:
  "ignores NRuntime default_priority" "ignores SSatisfiedRuntime default_priority"
  "ignores SSatisfiedBuildtimeSlotOp default_priority"
  by (simp_all add: ignore_defs default_priority_def)

section \<open>The selection\<close>

definition digraph_ready :: "digraph \<Rightarrow> graph_entry list \<Rightarrow> bool" where
  "digraph_ready g entries \<longleftrightarrow>
     graph_ok g \<and> alive_closed g \<and> dg_n g < 2 ^ 32 \<and> dg_n g = length entries \<and>
     (\<forall>i \<in> set (dg_order g). dg_alive g ! i)"

lemma seed_bound:
  assumes "length entries = n" shows "set (seed_toolchain_asap entries) \<subseteq> {..<n}"
proof -
  have pos: "position P entries = Some i \<Longrightarrow> i < n" for P i using position_Some assms by blast
  have edges: "set out \<subseteq> {..<n} \<Longrightarrow> set (seed_edges entries es out) \<subseteq> {..<n}" for es out
    using pos by (induction es arbitrary: out) (auto split: option.splits)
  have prov: "set (seed_providers entries v) \<subseteq> {..<n}" for v
    unfolding seed_providers_def using pos by (auto split: option.splits dest!: subsetD [OF edges, rotated])
  have "set (fold (\<lambda>i asap. if i \<in> set asap then asap else asap @ [i]) xs asap) \<subseteq> set xs \<union> set asap" for xs asap :: "nat list"
    by (induction xs arbitrary: asap) (force split: if_splits)+
  then show ?thesis unfolding seed_toolchain_asap_def using prov by fastforce
qed

lemma start_ok:
  assumes "digraph_ready g entries"
  shows "sel_ok (select_start fe entries g None)"
  using assms frontier_build_ok [of g] seed_bound [of entries "dg_n g"]
  by (auto simp: sel_ok_def select_start_def digraph_ready_def synced_def)

lemma select_nodes_run:
  assumes "digraph_ready g entries" "hash_law h"
  obtains out where "\<And>fe. select_nodes fe h entries g None = Some (Return out)" "distinct out" "set out = live g"
    "acyclic (live_edges g) \<Longrightarrow> hard_order (dg_children g) out"
proof -
  let ?st = "select_start True entries g None"
  have e: "erase ?st = select_start False entries g None" by (simp add: erase_def select_start_def)
  obtain out st' where "select_loop h entries ?st = Some (Return st')"
      "select_loop h entries (erase ?st) = Some (Return (erase st'))" "sl_ret st' = sl_ret ?st @ out" "emitted ?st out"
    using select_loop_run [OF assms(2) start_ok [OF assms(1)]] by blast
  then show thesis
    using that [of out] unfolding e by (force simp: select_nodes_def emitted_def select_start_def split: bool.splits)
qed

text \<open>A layer of Kahn's algorithm: the leaves, dropped from the graph.\<close>

definition drop_nodes :: "nat list \<Rightarrow> digraph \<Rightarrow> digraph" where
  "drop_nodes sel g = retain_alive (fold kill sel g)"

primrec kahn :: "nat \<Rightarrow> digraph \<Rightarrow> nat list" where
  "kahn 0 g = []"
| "kahn (Suc k) g = (let layer = leaf_nodes g None in layer @ kahn k (drop_nodes layer g))"

lemma commit_graph:
  assumes "sl_tree st = None" "\<forall>i \<in> set sel. dg_alive (sl_g st) ! i" "distinct sel"
  shows "sl_g (fold commit_node sel st) = fold kill sel (sl_g st)"
  using assms
proof (induction sel arbitrary: st)
  case (Cons i sel)
  have "sl_g (commit_node i st) = kill i (sl_g st)" "sl_tree (commit_node i st) = None"
    using Cons.prems by (simp_all add: commit_node_flat)
  moreover have "\<forall>j \<in> set sel. dg_alive (kill i (sl_g st)) ! j" using Cons.prems by (auto simp: kill_alive)
  ultimately show ?case using Cons.IH [of "commit_node i st"] Cons.prems by simp
qed simp

text \<open>With nothing prioritised and no removal a round of an acyclic graph takes the layer.\<close>

definition plain_run :: "graph_entry list \<Rightarrow> sel_state \<Rightarrow> bool" where
  "plain_run entries st \<longleftrightarrow>
     sel_ok st \<and> sl_fro st = None \<and> sl_asap st = [] \<and> acyclic (live_edges (sl_g st)) \<and>
     dg_n (sl_g st) = length entries \<and> removal_rows entries = []"

lemma plain_round:
  assumes p: "plain_run entries st" and alive: "any_alive (sl_g st)"
  shows "select_round h entries st = Return (commit_selection (leaf_nodes (sl_g st) None) st)"
proof -
  let ?g = "sl_g st" and ?ns = "leaf_nodes (sl_g st) None"
  have g: "graph_ok ?g" and asap: "sl_asap st = []" and tree: "sl_tree st = None" and fro: "sl_fro st = None"
    and rem: "removal_rows entries = []" and len: "dg_n ?g = length entries"
    using p by (simp_all add: plain_run_def sel_ok_def)
  have ne: "?ns \<noteq> []" using acyclic_leaf [OF g _ alive] p by (simp add: plain_run_def)
  have "\<not> is_uninstall (entries ! n)" if "n \<in> set ?ns" for n
  proof -
    have "n < length entries" using that g len leaf_nodes_set(1) by (fastforce simp: graph_ok_def)
    then show ?thesis using rem by (auto simp: removal_rows_def filter_empty_conv)
  qed
  then have good: "filter (\<lambda>n. is_uninstall (entries ! n)) ?ns = []" by (simp add: filter_empty_conv)
  have choice: "rung_choice entries ?g [] False lr None ?ns = Some ?ns" for lr
    using ne good by (simp add: rung_choice_def)
  have scan: "first_rung_scan entries ?g [] False (round_range st) (\<lambda>n. True) [0..<Suc k] None
      = (Some (?ns, None), None)" for k
  proof -
    have "range_ig (round_range st) 0 = None" by (simp add: round_range_def range_ig_def NORMAL_def SATISFIED_def)
    then show ?thesis using choice by (simp add: upt_conv_Cons del: upt_Suc)
  qed
  have "round_front h entries st = Return (Some (Some (?ns, None)), [], None)"
    using rem asap tree fro scan
    by (simp add: round_front_def Let_def removal_owner_pairs_def waiting_owners_def admitted_waiting_def
        asap_step_def asap_active_def select_first_rung_def select_second_rung_def map_filter_def del: upt_Suc)
  moreover have "st\<lparr> sl_fro := None, sl_asap := [] \<rparr> = st" using asap fro by simp
  ultimately show ?thesis
    by (simp add: select_round_def promote_freed_medium_post_def round_back_def schedule_stuck_or_admit_def)
qed

lemma plain_commit:
  assumes p: "plain_run entries st" and alive: "any_alive (sl_g st)"
  defines "st' \<equiv> commit_selection (leaf_nodes (sl_g st) None) st"
  shows "plain_run entries st'" "sl_g st' = drop_nodes (leaf_nodes (sl_g st) None) (sl_g st)"
    "sl_ret st' = sl_ret st @ leaf_nodes (sl_g st) None" "card (live (sl_g st')) < card (live (sl_g st))"
proof -
  let ?ns = "leaf_nodes (sl_g st) None"
  have st: "graph_ok (sl_g st)" "sl_tree st = None" "synced (sl_fro st) (sl_g st)" "asap_ok (sl_g st) (sl_asap st)"
    using p by (auto simp: plain_run_def sel_ok_def asap_ok_def)
  have good: "sel_good (sl_g st) ?ns"
    using acyclic_leaf [OF st(1) _ alive] p leaf_nodes_distinct [OF st(1)] leaf_nodes_set [where g = "sl_g st" and ig = None]
      leaf_nodes_hard [of None ?ns "sl_g st"] by (auto simp: sel_good_def plain_run_def)
  note c = commit_selection_ok [OF st good, folded st'_def]
  have d: "distinct ?ns" "\<forall>i \<in> set ?ns. dg_alive (sl_g st) ! i" using good by (simp_all add: sel_good_def)
  then show "sl_g st' = drop_nodes ?ns (sl_g st)"
    using commit_graph [of "retry_state st" ?ns] st(2) by (simp add: st'_def commit_selection_def Let_def drop_nodes_def)
  show "sl_ret st' = sl_ret st @ ?ns" using c(2) by (simp add: committed_def)
  have "live_edges (sl_g st') \<subseteq> live_edges (sl_g st)"
    using c(2) by (intro live_edges_mono) (auto simp: committed_def)
  then have "acyclic (live_edges (sl_g st'))" using p acyclic_subset by (auto simp: plain_run_def)
  moreover have "sl_asap st' = []" "sl_fro st' = None"
  proof -
    have "commit_ok (retry_state st)" using st by (simp add: commit_ok_def asap_ok_def)
    moreover have "set ?ns \<subseteq> {..<dg_n (sl_g (retry_state st))}"
      using good st(1) by (auto simp: sel_good_def graph_ok_def)
    ultimately show "sl_asap st' = []"
      using fold_commit(7) [OF _ _ d(1), of "retry_state st"] p by (simp add: st'_def commit_selection_def Let_def plain_run_def)
    have "erase st = st" using p by (simp add: plain_run_def erase_def)
    then show "sl_fro st' = None" using c(3) unfolding st'_def by (metis erase_simps(2))
  qed
  ultimately show "plain_run entries st'" using p c(1,2) by (simp add: plain_run_def committed_def)
  show "card (live (sl_g st')) < card (live (sl_g st))"
    using committed_live(5) [OF st(1) c(2)] by (simp add: psubset_card_mono)
qed

lemma plain_loop:
  "plain_run entries st \<Longrightarrow> card (live (sl_g st)) \<le> k \<Longrightarrow>
     \<exists>st'. select_loop h entries st = Some (Return st') \<and> sl_ret st' = sl_ret st @ kahn k (sl_g st)"
proof (induction k arbitrary: st)
  case 0
  then have "\<not> any_alive (sl_g st)" using any_alive_live by (auto simp: plain_run_def sel_ok_def)
  then show ?case by (simp add: select_loop.simps [of h entries st])
next
  case (Suc k)
  show ?case
  proof (cases "any_alive (sl_g st)")
    case False
    then have none: "leaf_nodes (sl_g st) None = []"
      by (auto simp: leaf_nodes_def any_alive_def list_ex_iff filter_empty_conv)
    have "live (sl_g (st\<lparr> sl_g := drop_nodes [] (sl_g st) \<rparr>)) = {}"
      using False any_alive_live [of "sl_g st"] Suc.prems(1)
      by (simp add: plain_run_def sel_ok_def drop_nodes_def live_def)
    moreover have "retain_alive (sl_g st) = sl_g st"
      using Suc.prems(1) by (simp add: plain_run_def sel_ok_def retain_alive_def filter_id_conv)
    ultimately have "\<exists>st'. select_loop h entries st = Some (Return st') \<and> sl_ret st' = sl_ret st @ kahn k (sl_g st)"
      using Suc.IH [OF Suc.prems(1)] by (simp add: drop_nodes_def)
    then show ?thesis using none \<open>retain_alive (sl_g st) = sl_g st\<close> by (simp add: drop_nodes_def)
  next
    case True
    note c = plain_commit [OF Suc.prems(1) True]
    obtain st' where "select_loop h entries (commit_selection (leaf_nodes (sl_g st) None) st) = Some (Return st')"
        "sl_ret st' = sl_ret (commit_selection (leaf_nodes (sl_g st) None) st) @
           kahn k (sl_g (commit_selection (leaf_nodes (sl_g st) None) st))"
      using Suc.IH [OF c(1)] c(4) Suc.prems(2) by auto
    then show ?thesis
      using True plain_round [OF Suc.prems(1) True] c(2,3)
      by (simp add: select_loop.simps [of h entries st] Let_def)
  qed
qed

lemma select_plain:
  assumes ready: "digraph_ready g entries" and "hash_law h" "acyclic (live_edges g)"
    and "removal_rows entries = []" "seed_toolchain_asap entries = []"
  shows "select_nodes fe h entries g None = Some (Return (kahn (dg_n g) g))"
proof -
  let ?st = "select_start False entries g None"
  have "plain_run entries ?st"
    using assms start_ok [OF ready, of False] by (simp add: plain_run_def select_start_def digraph_ready_def)
  moreover have "card (live g) \<le> dg_n g"
    using card_mono [of "{..<dg_n g}" "live g"] by (auto simp: live_def)
  ultimately obtain st' where "select_loop h entries ?st = Some (Return st')" "sl_ret st' = kahn (dg_n g) g"
    using plain_loop [of entries ?st "dg_n g" h] by (auto simp: select_start_def)
  then have "select_nodes False h entries g None = Some (Return (kahn (dg_n g) g))" by (simp add: select_nodes_def)
  then show ?thesis using select_nodes_run [OF ready assms(2)] by metis
qed

section \<open>The properties\<close>

text \<open>On a well-formed graph the selection loop ends without a panic and emits every alive node exactly once,
  whatever the cycles, the prioritised nodes and the removals, and whatever order the hash set has.\<close>

theorem select_permutation:
  assumes "digraph_ready g entries" "hash_law h"
  shows "\<exists>out. select_nodes fe h entries g None = Some (Return out) \<and> distinct out \<and>
    set out = {i. i < dg_n g \<and> dg_alive g ! i}"
  using select_nodes_run [OF assms] by (metis live_def)

lemma tiny_ready: "digraph_ready tiny_graph [tiny_entry ''b'', tiny_entry ''c'']"
  using tiny_ok by (auto simp: digraph_ready_def tiny_graph_def)

theorem select_permutation_witness:
  "\<exists>out. select_nodes True sorted_list_of_set [tiny_entry ''b'', tiny_entry ''c''] tiny_graph None = Some (Return out) \<and>
     distinct out \<and> set out = {0, 1}"
proof -
  have "{i. i < dg_n tiny_graph \<and> dg_alive tiny_graph ! i} = {0, 1}"
    by (auto simp: tiny_graph_def less_Suc_eq numeral_2_eq_2)
  then show ?thesis using select_permutation [OF tiny_ready hash_law_sorted, of True] by simp
qed

text \<open>The selection with the incremental frontier is the selection that scans the graph in every round.\<close>

theorem select_frontier_equiv:
  assumes "digraph_ready g entries" "hash_law h"
  shows "select_nodes True h entries g None = select_nodes False h entries g None"
  using select_nodes_run [OF assms] by metis

theorem select_frontier_equiv_witness:
  "select_nodes True sorted_list_of_set [tiny_entry ''b'', tiny_entry ''c''] tiny_graph None =
     select_nodes False sorted_list_of_set [tiny_entry ''b'', tiny_entry ''c''] tiny_graph None"
  by (rule select_frontier_equiv [OF tiny_ready hash_law_sorted])

text \<open>In an acyclic graph a package is emitted after each of its unsatisfied build-time and run-time
  dependencies, whatever is prioritised or removed.\<close>

theorem select_hard_edges:
  assumes "digraph_ready g entries" "hash_law h" "acyclic (live_edges g)"
    and "select_nodes fe h entries g None = Some (Return (xs @ p # ys))"
    and "(c, prios) \<in> set (dg_children g ! p)" "dg_alive g ! c" "hard_edge prios"
  shows "c \<in> set xs"
proof -
  obtain out where out: "\<And>fe. select_nodes fe h entries g None = Some (Return out)" "set out = live g"
      "hard_order (dg_children g) out"
    using select_nodes_run [OF assms(1,2)] assms(3) by metis
  then have xs: "out = xs @ p # ys" using assms(4) by simp
  then have "c \<notin> set (p # ys)" using out(3) hard_order_split assms(5,7) by blast
  moreover have "c \<in> live g"
  proof -
    have "p < dg_n g" using out(2) xs by (auto simp: live_def)
    then show ?thesis using assms(1,5,6) graph_okD(2) [of g p] by (force simp: live_def digraph_ready_def)
  qed
  ultimately show ?thesis using out(2) xs by auto
qed

text \<open>A package and its run-time dependency.\<close>

definition chain_graph :: digraph where
  "chain_graph =
     \<lparr> dg_n = 2, dg_children = [[(1, [runtime_dep])], []], dg_parents = [[], [0]], dg_order = [0, 1],
       dg_installed = [False, False], dg_alive = [True, True] \<rparr>"

lemma chain_ready: "digraph_ready chain_graph [tiny_entry ''b'', tiny_entry ''c'']"
proof -
  have two: "(\<forall>i < (2::nat). Q i) \<longleftrightarrow> Q 0 \<and> Q 1" for Q by (auto simp: less_2_cases_iff)
  have parents: "{p. p < (2::nat) \<and> Q p} = (if Q 0 then {0} else {}) \<union> (if Q 1 then {1} else {})" for Q
    by (auto simp: less_2_cases_iff) (metis gr0I)
  have "graph_ok chain_graph" "alive_closed chain_graph"
    unfolding graph_ok_def alive_closed_def chain_graph_def digraph.simps two parents by simp_all
  then show ?thesis by (simp add: digraph_ready_def chain_graph_def)
qed

lemma chain_acyclic: "acyclic (live_edges chain_graph)"
proof -
  have "live_edges chain_graph = {(0, 1)}"
    by (auto simp: live_edges_def chain_graph_def less_Suc_eq numeral_2_eq_2)
  then show ?thesis by (simp add: wf_acyclic)
qed

lemma chain_plain:
  "removal_rows [tiny_entry ''b'', tiny_entry ''c''] = []" "seed_toolchain_asap [tiny_entry ''b'', tiny_entry ''c''] = []"
  by (simp_all add: removal_rows_def is_uninstall_def seed_toolchain_asap_def seed_providers_def tiny_entry_def synthetic_installed_entry_def)

lemma chain_kahn: "kahn (dg_n chain_graph) chain_graph = [1, 0]"
  by (simp add: chain_graph_def numeral_2_eq_2 leaf_nodes_def is_leaf_def child_counts_def drop_nodes_def kill_def
      retain_alive_def Let_def)

lemma chain_hard: "hard_edge [runtime_dep]"
  by (simp add: hard_edge_def hard_dep_def runtime_dep_def default_priority_def)

theorem select_hard_edges_witness: "1 \<in> set [1 :: nat]"
proof (rule select_hard_edges [OF chain_ready hash_law_sorted chain_acyclic _ _ _ chain_hard])
  show "select_nodes True sorted_list_of_set [tiny_entry ''b'', tiny_entry ''c''] chain_graph None
      = Some (Return ([1] @ 0 # []))"
    using select_plain [OF chain_ready hash_law_sorted chain_acyclic chain_plain, of True] chain_kahn by simp
qed (simp_all add: chain_graph_def)

text \<open>With no removal and no prioritised toolchain package the order of an acyclic graph is Kahn's: in each round
  all the packages with no dependency left, in the order of the graph.\<close>

theorem select_kahn:
  assumes "digraph_ready g entries" "hash_law h" "acyclic (live_edges g)"
    and "\<forall>e \<in> set entries. \<not> is_uninstall e" "seed_toolchain_asap entries = []"
  shows "select_nodes fe h entries g None = Some (Return (kahn (dg_n g) g))"
proof -
  have "removal_rows entries = []" using assms(4) by (simp add: removal_rows_def filter_empty_conv)
  then show ?thesis by (rule select_plain [OF assms(1-3) _ assms(5)])
qed

theorem select_kahn_witness:
  "select_nodes True sorted_list_of_set [tiny_entry ''b'', tiny_entry ''c''] chain_graph None = Some (Return [1, 0])"
proof -
  have "\<forall>e \<in> set [tiny_entry ''b'', tiny_entry ''c'']. \<not> is_uninstall e" by (simp add: is_uninstall_def tiny_entry_def synthetic_installed_entry_def)
  from select_kahn [OF chain_ready hash_law_sorted chain_acyclic this chain_plain(2), of True] show ?thesis
    by (simp add: chain_kahn)
qed

end
