(* ===== verification/ScheduleOk.thy ===== *)
theory ScheduleOk
  imports BuildOk SelectTotal
begin

text \<open>
  The loops around the digraph build end: the installed closure, the prune, the bias and its counts.
  The graph they leave is the one the selection expects.
\<close>

section \<open>The installed closure\<close>

definition missing :: "vdb_view \<Rightarrow> closure_state \<Rightarrow> nat" where
  "missing v st = card (package_key ` set (vdb_installed v) - cs_present st)"

text \<open>A node is added for a package that was missing, or nothing changes.\<close>

definition closure_grows :: "vdb_view \<Rightarrow> closure_state \<Rightarrow> closure_state \<Rightarrow> bool" where
  "closure_grows v st st' \<longleftrightarrow>
     length (cs_entries st) + missing v st = length (cs_entries st') + missing v st' \<and>
     (st' = st \<or> missing v st' < missing v st)"

lemma closure_grows_refl [simp]: "closure_grows v st st"
  by (simp add: closure_grows_def)

lemma closure_grows_trans: "closure_grows v a b \<Longrightarrow> closure_grows v b c \<Longrightarrow> closure_grows v a c"
  by (auto simp: closure_grows_def)

lemma fold_pick: "(\<And>p b. f p b = b \<or> f p b = Some p) \<Longrightarrow> fold f cands None = Some x \<Longrightarrow> x \<in> set cands"
proof -
  assume f: "\<And>p b. f p b = b \<or> f p b = Some p"
  have "fold f cands acc = Some x \<Longrightarrow> acc = Some x \<or> x \<in> set cands" for acc
  proof (induction cands arbitrary: acc)
    case (Cons p cands)
    then have "f p acc = Some x \<or> x \<in> set cands" by simp
    then show ?case using f [of p acc] by auto
  qed simp
  then show "fold f cands None = Some x \<Longrightarrow> x \<in> set cands" by blast
qed

lemma pick_installed_in: "pick_installed v a cat pkg = Some p \<Longrightarrow> p \<in> set (vdb_installed v)"
proof -
  let ?c = "filter (\<lambda>p. ip_category p = cat \<and> ip_package p = pkg) (vdb_installed v)"
  have "best_matching a cat pkg ?c = Some p \<Longrightarrow> p \<in> set ?c"
    unfolding best_matching_def by (rule fold_pick) (auto split: option.split)
  moreover have "highest_installed ?c = Some p \<Longrightarrow> p \<in> set ?c"
    unfolding highest_installed_def by (rule fold_pick) (auto split: option.split)
  ultimately show "pick_installed v a cat pkg = Some p \<Longrightarrow> p \<in> set (vdb_installed v)"
    by (auto simp: pick_installed_def Let_def split: if_splits option.splits)
qed

lemma add_node_grows: "closure_grows v st (add_node v vo a cat pkg st)"
proof (cases "pick_installed v a cat pkg")
  case (Some p)
  have k: "package_key p \<in> package_key ` set (vdb_installed v)" using pick_installed_in [OF Some] by simp
  show ?thesis
  proof (cases "package_key p \<in> cs_present st")
    case False
    have "card (package_key ` set (vdb_installed v) - cs_present st) =
        Suc (card (package_key ` set (vdb_installed v) - insert (package_key p) (cs_present st)))"
    proof -
      have "package_key ` set (vdb_installed v) - insert (package_key p) (cs_present st) =
          package_key ` set (vdb_installed v) - cs_present st - {package_key p}" by auto
      then show ?thesis using k False card_Suc_Diff1 [of "package_key ` set (vdb_installed v) - cs_present st"] by simp
    qed
    then show ?thesis using Some False by (simp add: add_node_def closure_grows_def missing_def)
  qed (simp add: add_node_def Some)
qed (simp add: add_node_def)

lemma fold_grows: "(\<And>x st. closure_grows v st (f x st)) \<Longrightarrow> closure_grows v st (fold f xs st)"
proof (induction xs arbitrary: st)
  case (Cons x xs)
  from Cons.IH [of "f x st"] show ?case using Cons.prems [of st x] closure_grows_trans Cons.prems by simp blast
qed simp

lemma add_edge_nodes_grows: "closure_grows v st (add_edge_nodes v vo edges st)"
  unfolding add_edge_nodes_def by (rule fold_grows) (rule add_node_grows)

lemma add_system_nodes_grows: "closure_grows v st (add_system_nodes v vo atoms st)"
  unfolding add_system_nodes_def
  by (auto intro!: fold_grows add_node_grows split: option.split)

definition closure_rel :: "vdb_view \<Rightarrow> (closure_state \<times> closure_state) set" where
  "closure_rel v = inv_image (less_than <*lex*> less_than) (\<lambda>st. (missing v st, length (cs_queue st)))"

definition closure_size :: "vdb_view \<Rightarrow> nat \<Rightarrow> nat \<Rightarrow> closure_state \<Rightarrow> bool" where
  "closure_size v lo hi st \<longleftrightarrow> lo \<le> length (cs_entries st) \<and> length (cs_entries st) + missing v st = hi"

lemma closure_size_grows: "closure_size v lo hi st \<Longrightarrow> closure_grows v st st' \<Longrightarrow> closure_size v lo hi st'"
  by (auto simp: closure_size_def closure_grows_def)

lemma closure_step_ok:
  assumes "cs_queue st \<noteq> []"
  shows "(closure_step v vo st, st) \<in> closure_rel v" "closure_size v lo hi st \<Longrightarrow> closure_size v lo hi (closure_step v vo st)"
proof -
  obtain i queue where q: "cs_queue st = i # queue" using assms by (cases "cs_queue st") auto
  define st1 where "st1 = st\<lparr> cs_queue := queue \<rparr>"
  let ?e = "cs_entries st ! i"
  have m1: "missing v st1 = missing v st" "cs_queue st1 = queue" "cs_entries st1 = cs_entries st"
    by (simp_all add: missing_def st1_def)
  define upd :: "closure_state \<Rightarrow> dep_edge list \<Rightarrow> closure_state" where
    "upd = (\<lambda>s edges. s\<lparr> cs_entries := (cs_entries s)[i := (cs_entries s ! i)\<lparr> e_deps := edges \<rparr>] \<rparr>)"
  have step: "closure_step v vo st = st1 \<or> (\<exists>edges. closure_step v vo st = upd (add_edge_nodes v vo edges st1) edges)"
  proof (cases "e_outcome ?e")
    case (AlreadyInstalled ver)
    then show ?thesis using q by (auto simp: closure_step_def Let_def upd_def st1_def)
  qed (use q in \<open>simp_all add: closure_step_def Let_def st1_def\<close>)
  have upd: "missing v (upd s edges) = missing v s" "length (cs_entries (upd s edges)) = length (cs_entries s)"
      "cs_queue (upd s edges) = cs_queue s" for s edges
    by (simp_all add: missing_def upd_def)
  from step show "(closure_step v vo st, st) \<in> closure_rel v"
  proof
    assume "\<exists>edges. closure_step v vo st = upd (add_edge_nodes v vo edges st1) edges"
    then obtain edges where e: "closure_step v vo st = upd (add_edge_nodes v vo edges st1) edges" ..
    show ?thesis using add_edge_nodes_grows [of v st1 vo edges] m1 q
      by (auto simp: closure_rel_def closure_grows_def upd e)
  qed (use q m1 in \<open>simp add: closure_rel_def\<close>)
  assume size: "closure_size v lo hi st"
  from step show "closure_size v lo hi (closure_step v vo st)"
  proof
    assume "\<exists>edges. closure_step v vo st = upd (add_edge_nodes v vo edges st1) edges"
    then obtain edges where e: "closure_step v vo st = upd (add_edge_nodes v vo edges st1) edges" ..
    have "closure_size v lo hi st1" using size m1 by (simp add: closure_size_def)
    from closure_size_grows [OF this add_edge_nodes_grows, of vo edges] show ?thesis
      by (simp add: closure_size_def upd e)
  qed (use size m1 in \<open>simp add: closure_size_def\<close>)
qed

lemma closure_total:
  obtains ext where "add_installed_dependency_closure v atoms vo entries = Some ext"
    "length entries \<le> length ext" "length ext \<le> length entries + length (vdb_installed v)"
proof -
  let ?start = "closure_start v vo atoms entries"
  let ?b = "\<lambda>st. cs_queue st \<noteq> []"
  let ?hi = "length (cs_entries ?start) + missing v ?start"
  define st0 where "st0 = \<lparr> cs_entries = entries,
      cs_present = set (map (\<lambda>e. (e_category e, e_package e, version_or_empty e)) entries), cs_queue = [] \<rparr>"
  define st1 where "st1 = add_system_nodes v vo atoms (add_edge_nodes v vo (concat (map e_deps entries)) st0)"
  have g: "closure_grows v st0 st1"
    unfolding st1_def by (rule closure_grows_trans [OF add_edge_nodes_grows add_system_nodes_grows])
  have start: "cs_entries ?start = cs_entries st1" "missing v ?start = missing v st1"
    by (simp_all add: closure_start_def Let_def st0_def st1_def missing_def)
  have "missing v st0 \<le> card (package_key ` set (vdb_installed v))" by (simp add: missing_def card_mono)
  also have "\<dots> \<le> length (vdb_installed v)" by (meson card_image_le card_length finite_set le_trans)
  finally have bound: "?hi \<le> length entries + length (vdb_installed v)" "length entries \<le> length (cs_entries ?start)"
    using g start by (auto simp: closure_grows_def st0_def)
  have size: "closure_size v (length entries) ?hi ?start" using bound(2) by (simp add: closure_size_def)
  have wf: "wf (closure_rel v)" unfolding closure_rel_def by (intro wf_inv_image wf_lex_prod wf_less_than)
  obtain st where st: "while_option ?b (closure_step v vo) ?start = Some st"
    using wf_rel_while_option_Some [OF wf, where P = "\<lambda>_. True" and b = ?b and c = "closure_step v vo"]
      closure_step_ok(1) by blast
  have "closure_size v (length entries) ?hi st"
    by (rule while_option_rule [OF _ st, where P = "closure_size v (length entries) ?hi"])
      (use size closure_step_ok(2) in blast)+
  then show thesis
    using st bound(1) by (intro that [of "cs_entries st"])
      (auto simp: add_installed_dependency_closure_def closure_size_def)
qed


section \<open>The prune\<close>

text \<open>Below the bound nothing dies, and a dead node has no alive parent.\<close>

definition pruned_from :: "nat \<Rightarrow> digraph \<Rightarrow> digraph \<Rightarrow> bool" where
  "pruned_from lo g0 g \<longleftrightarrow>
     graph_ok g \<and> dg_n g = dg_n g0 \<and> dg_children g = dg_children g0 \<and> dg_order g = dg_order g0 \<and>
     (\<forall>i < lo. dg_alive g ! i = dg_alive g0 ! i) \<and> alive_closed g"

lemma kill_alive_closed:
  assumes "graph_ok g" "alive_closed g" "i < dg_n g" "\<not> has_parents g i"
  shows "alive_closed (kill i g)"
proof -
  have "c \<noteq> i" if "p < dg_n g" "dg_alive g ! p" "c \<in> fst ` set (dg_children g ! p)" for p c
  proof
    assume "c = i"
    then have "p \<in> set (dg_parents g ! i)" using that assms(1,3) graph_okD(4) by blast
    then show False using that assms(4) by (auto simp: has_parents_def list_ex_iff)
  qed
  then show ?thesis using assms(2) by (auto simp: alive_closed_def kill_alive)
qed

lemma live_kill: "graph_ok g \<Longrightarrow> i < dg_n g \<Longrightarrow> live (kill i g) = live g - {i}"
  by (auto simp: live_def kill_alive graph_ok_def)

lemma prune_pass_ok:
  assumes "pruned_from lo g0 g" "prune_pass lo (g, r) = (g', r')"
  shows "pruned_from lo g0 g' \<and> (r' \<longrightarrow> card (live g') < card (live g)) \<and> (\<not> r' \<longrightarrow> g' = g)"
proof -
  define f where "f = (\<lambda>i (g, removed).
      if \<not> dg_alive g ! i \<or> \<not> dg_installed g ! i \<or> has_parents g i then (g, removed) else (kill i g, True))"
  have "pruned_from lo g0 g2 \<and> (r2 \<longrightarrow> card (live g2) < card (live g)) \<and> (\<not> r2 \<longrightarrow> g2 = g)"
    if "fold f xs (g1, r1) = (g2, r2)" "set xs \<subseteq> {lo..<dg_n g0}"
      "pruned_from lo g0 g1" "r1 \<longrightarrow> card (live g1) < card (live g)" "\<not> r1 \<longrightarrow> g1 = g" for xs g1 r1 g2 r2
    using that
  proof (induction xs arbitrary: g1 r1)
    case (Cons i xs)
    show ?case
    proof (cases "\<not> dg_alive g1 ! i \<or> \<not> dg_installed g1 ! i \<or> has_parents g1 i")
      case True
      then have "f i (g1, r1) = (g1, r1)" by (auto simp: f_def)
      then show ?thesis using Cons.IH [of g1 r1] Cons.prems by simp
    next
      case False
      then have fi: "f i (g1, r1) = (kill i g1, True)" by (simp add: f_def)
      have g1: "graph_ok g1" "i < dg_n g1" "lo \<le> i" using Cons.prems(2,3) by (auto simp: pruned_from_def)
      have "live (kill i g1) \<subset> live g1" using live_kill [OF g1(1,2)] False g1(2) by (auto simp: live_def)
      then have "card (live (kill i g1)) < card (live g1)" by (simp add: psubset_card_mono)
      moreover have "card (live g1) \<le> card (live g)" using Cons.prems(4,5) by (cases r1) auto
      moreover have "pruned_from lo g0 (kill i g1)"
        using Cons.prems(3) g1 False kill_alive_closed graph_ok_kill by (auto simp: pruned_from_def kill_alive)
      ultimately show ?thesis
        using Cons.IH [of "kill i g1" True] Cons.prems(1,2) fi by simp
    qed
  qed simp
  from this [of "[lo..<dg_n g]" g False g' r'] show ?thesis
    using assms by (auto simp: prune_pass_def f_def pruned_from_def)
qed

lemma alive_closed_all: "graph_ok g \<Longrightarrow> (\<forall>i < dg_n g. dg_alive g ! i) \<Longrightarrow> alive_closed g"
  using graph_okD(2) by (fastforce simp: alive_closed_def)

lemma prune_total:
  assumes g: "graph_ok g" and alive: "\<forall>i < dg_n g. dg_alive g ! i"
  obtains g' where "prune_nomerge_roots lo g = Some g'" "graph_ok g'" "alive_closed g'" "dg_n g' = dg_n g"
    "\<forall>i < lo. dg_alive g' ! i = dg_alive g ! i" "\<forall>i \<in> set (dg_order g'). dg_alive g' ! i"
proof -
  let ?P = "\<lambda>(g', r :: bool). pruned_from lo g g'" and ?m = "\<lambda>(g', r). 2 * card (live g') + of_bool r"
  have start: "?P (g, True)" using g alive_closed_all [OF g alive] by (simp add: pruned_from_def)
  have step: "?P (prune_pass lo s) \<and> ?m (prune_pass lo s) < ?m s" if "?P s" "snd s" for s
  proof -
    obtain g1 r1 where s: "s = (g1, r1)" by (cases s)
    obtain g2 r2 where s2: "prune_pass lo (g1, r1) = (g2, r2)" by (cases "prune_pass lo (g1, r1)")
    show ?thesis using prune_pass_ok [of lo g g1 r1 g2 r2] that s s2 by (cases r2) auto
  qed
  have "\<exists>t. while_option snd (prune_pass lo) (g, True) = Some t"
    by (rule measure_while_option_Some [where P = ?P and f = ?m]) (rule step start, assumption?, assumption?)+
  then obtain g1 r1 where t: "while_option snd (prune_pass lo) (g, True) = Some (g1, r1)" by auto
  have "?P (g1, r1)"
    by (rule while_option_rule [OF _ t, where P = ?P]) (rule step [THEN conjunct1] start, assumption?, assumption?)+
  then have p: "pruned_from lo g g1" by simp
  then have "alive_closed (retain_alive g1)" by (simp add: pruned_from_def alive_closed_def)
  then show thesis
    using t p graph_ok_retain by (intro that [of "retain_alive g1"]) (auto simp: prune_nomerge_roots_def pruned_from_def)
qed

section \<open>The bias\<close>

lemma deep_total:
  assumes g: "graph_ok g"
  shows "\<exists>deep. deep_system_deps g entries system_packages = Some deep"
proof -
  let ?P = "\<lambda>(deep, stack). length deep = dg_n g \<and> set stack \<subseteq> {..<dg_n g}"
  let ?R = "inv_image (less_than <*lex*> less_than) (\<lambda>(deep, stack). (length (filter Not deep), length stack))"
  let ?start = "(replicate (dg_n g) False,
      rev (filter (\<lambda>i. (e_category (entries ! i), e_package (entries ! i)) \<in> system_cps system_packages) (dg_order g)))"
  have wf: "wf ?R" by (intro wf_inv_image wf_lex_prod wf_less_than)
  have less: "length (filter Not (xs[i := True])) < length (filter Not xs)" if "i < length xs" "\<not> xs ! i" for xs i
    using that by (induction xs arbitrary: i) (auto split: nat.splits simp: nth_Cons)
  have step: "(deep_step g s, s) \<in> ?R \<and> ?P (deep_step g s)" if s: "?P s" "case s of (deep, stack) \<Rightarrow> stack \<noteq> []" for s
  proof -
    obtain deep i stack where d: "s = (deep, i # stack)" using s(2) by (cases s) (auto simp: neq_Nil_conv)
    then have i: "i < dg_n g" "length deep = dg_n g" "set stack \<subseteq> {..<dg_n g}" using s(1) by auto
    have "set (map fst (filter Q (dg_children g ! i))) \<subseteq> {..<dg_n g}" for Q
      using graph_okD(2) [OF g i(1)] by auto
    then show ?thesis using i less [of i deep] by (auto simp: d deep_step_def)
  qed
  have start: "?P ?start" using g by (auto simp: graph_ok_def)
  have "\<exists>t. while_option (\<lambda>(deep, stack). stack \<noteq> []) (deep_step g) ?start = Some t"
  proof (rule wf_rel_while_option_Some [OF wf, where P = ?P])
    show "(deep_step g s, s) \<in> ?R" if "?P s \<and> (case s of (deep, stack) \<Rightarrow> stack \<noteq> [])" for s
      using step [of s] that by (rule_tac conjunct1) iprover
    show "?P (deep_step g s)" if "?P s \<and> (case s of (deep, stack) \<Rightarrow> stack \<noteq> [])" for s
      using step [of s] that by (rule_tac conjunct2) iprover
  qed (rule start)
  then show ?thesis by (auto simp: deep_system_deps_def)
qed

lemma count_pass_ok:
  assumes "length alive = dg_n g" "count_pass g (alive, count, r) = (alive', count', r')"
  shows "length alive' = dg_n g \<and> length (filter (\<lambda>b. b) alive') + of_bool r' \<le> length (filter (\<lambda>b. b) alive)"
proof -
  define f where "f = (\<lambda>i (alive, count, removed).
      if \<not> alive ! i \<or> \<not> dg_installed g ! i \<or> count ! i \<noteq> (0 :: nat) then (alive, count, removed)
      else
        let alive = alive[i := False]
        in (alive, fold (\<lambda>(c, _) count. if alive ! c then count[c := count ! c - 1] else count) (dg_children g ! i) count,
            True))"
  have less: "length (filter (\<lambda>b. b) (xs[i := False])) < length (filter (\<lambda>b. b) xs)" if "i < length xs" "xs ! i" for xs i
    using that by (induction xs arbitrary: i) (auto split: nat.splits simp: nth_Cons)
  have "length a2 = dg_n g \<and> length (filter (\<lambda>b. b) a2) + of_bool r2 \<le> length (filter (\<lambda>b. b) alive)"
    if "fold f xs (a1, c1, r1) = (a2, c2, r2)" "set xs \<subseteq> {..<dg_n g}" "length a1 = dg_n g"
      "length (filter (\<lambda>b. b) a1) + of_bool r1 \<le> length (filter (\<lambda>b. b) alive)"
    for xs a1 c1 r1 a2 c2 r2
    using that
  proof (induction xs arbitrary: a1 c1 r1)
    case (Cons i xs)
    show ?case
    proof (cases "\<not> a1 ! i \<or> \<not> dg_installed g ! i \<or> c1 ! i \<noteq> 0")
      case True
      then have "f i (a1, c1, r1) = (a1, c1, r1)" by (auto simp: f_def)
      then show ?thesis using Cons by simp
    next
      case False
      then obtain c where c: "f i (a1, c1, r1) = (a1[i := False], c, True)" by (auto simp: f_def Let_def)
      have "length (filter (\<lambda>b. b) (a1[i := False])) < length (filter (\<lambda>b. b) alive)"
        using less [of i a1] False Cons.prems(2-4) by simp
      then show ?thesis using Cons.IH [of "a1[i := False]" c True] Cons.prems c by simp
    qed
  qed simp
  moreover have "fold f [0..<dg_n g] (alive, count, False) = (alive', count', r')"
    using assms(2) by (simp add: count_pass_def f_def)
  moreover have "set [0..<dg_n g] \<subseteq> {..<dg_n g}" by auto
  ultimately show ?thesis using assms(1) by fastforce
qed

lemma count_total:
  assumes "graph_ok g"
  shows "\<exists>count. post_prune_parent_count g = Some count"
proof -
  let ?P = "\<lambda>(alive, count :: nat list, r :: bool). length alive = dg_n g"
  let ?m = "\<lambda>(alive, count :: nat list, r). 2 * length (filter (\<lambda>b. b) alive) + of_bool r"
  let ?b = "\<lambda>(alive :: bool list, count :: nat list, removed). removed"
  have less: "?P (count_pass g s) \<and> ?m (count_pass g s) < ?m s" if s: "?P s" "?b s" for s
  proof -
    obtain a c r where s1: "s = (a, c, r)" by (cases s)
    obtain a2 c2 r2 where s2: "count_pass g (a, c, r) = (a2, c2, r2)" by (cases "count_pass g (a, c, r)")
    show ?thesis using count_pass_ok [of a g c r a2 c2 r2] s s1 s2 by (cases r2) auto
  qed
  have start: "?P (dg_alive g, map (\<lambda>i. length (filter (\<lambda>p. dg_alive g ! p) (dg_parents g ! i))) [0..<dg_n g], True)"
    using assms by (simp add: graph_ok_def)
  have "\<exists>t. while_option ?b (count_pass g)
      (dg_alive g, map (\<lambda>i. length (filter (\<lambda>p. dg_alive g ! p) (dg_parents g ! i))) [0..<dg_n g], True) = Some t"
    by (rule measure_while_option_Some [where P = ?P and f = ?m]) (rule less start, assumption?, assumption?)+
  then show ?thesis by (auto simp: post_prune_parent_count_def)
qed

lemma bias_total:
  assumes "graph_ok g"
  obtains order where "merge_order_bias entries system_packages implicit g = Some (g\<lparr> dg_order := order \<rparr>)"
    "distinct order" "set order = set (dg_order g)"
proof (cases implicit)
  case False
  then show thesis using assms by (intro that [of "dg_order g"]) (simp_all add: merge_order_bias_def graph_ok_def)
next
  case True
  obtain deep where "deep_system_deps g entries system_packages = Some deep" using deep_total [OF assms] by blast
  moreover obtain count where "post_prune_parent_count g = Some count" using count_total [OF assms] by blast
  ultimately show thesis
    using True assms by (intro that [of "sort_key (\<lambda>i. (\<not> deep ! i, - int (count ! i))) (dg_order g)"])
      (simp_all add: merge_order_bias_def graph_ok_def)
qed

end
