(* ===== verification/SerializeTotal.thy ===== *)
theory SerializeTotal
  imports ScheduleOk
begin

text \<open>
  The whole merge order: from any entries and any installed packages the scheduler ends without a
  panic, its order is a permutation of the entries, and it respects the hard edges of an acyclic graph.
\<close>

section \<open>The scheduled graph\<close>

lemma ready_reorder:
  assumes "graph_ok g" "alive_closed g" "dg_n g < 2 ^ 32" "dg_n g = length ext"
    and "\<forall>i \<in> set (dg_order g). dg_alive g ! i" "distinct order" "set order = set (dg_order g)"
  shows "digraph_ready (g\<lparr> dg_order := order \<rparr>) ext"
  using assms by (auto simp: digraph_ready_def graph_ok_def alive_closed_def)

lemma ranks_of_order:
  assumes "distinct order" "set order = {..<n}"
  shows "length (ranks_of n order) = n" "i < n \<Longrightarrow> ranks_of n order ! (order ! i) = i"
    "distinct (ranks_of n order)"
proof -
  have n: "length order = n" using assms by (metis card_lessThan distinct_card)
  have f: "length (ranks_of n order) = n" "\<forall>i < length order. ranks_of n order ! (order ! i) = 0 + i"
    using index_fold [of order "replicate n 0" 0] assms by (auto simp: ranks_of_def)
  then show "length (ranks_of n order) = n" and r: "\<And>i. i < n \<Longrightarrow> ranks_of n order ! (order ! i) = i"
    using n by auto
  show "distinct (ranks_of n order)"
    unfolding distinct_conv_nth f(1)
  proof (intro allI impI)
    fix a b assume ab: "a < n" "b < n" "a \<noteq> b"
    then obtain i j where "i < n" "j < n" "order ! i = a" "order ! j = b"
      using assms(2) n by (metis in_set_conv_nth lessThan_iff)
    then show "ranks_of n order ! a \<noteq> ranks_of n order ! b" using r ab(3) by metis
  qed
qed

definition env_ok :: "schedule_env \<Rightarrow> graph_entry list \<Rightarrow> bool" where
  "env_ok env entries \<longleftrightarrow>
     hash_law (sc_hash_order env) \<and> length entries + length (vdb_installed (sc_vdb env)) < 2 ^ 32"

lemma schedule_graph_total:
  assumes "env_ok env entries"
  obtains ext g rank where "schedule_graph env entries = Some (ext, g, length entries, rank)"
    "digraph_ready g ext" "\<forall>i < length entries. dg_alive g ! i" "length entries \<le> length ext"
    "length rank = length ext" "distinct rank"
proof -
  obtain ext where ext: "add_installed_dependency_closure (sc_vdb env) (sc_system_packages env)
        (\<not> complete_mode entries) entries = Some ext" "length entries \<le> length ext"
      "length ext \<le> length entries + length (vdb_installed (sc_vdb env))"
    by (rule closure_total)
  obtain g where g: "build_digraph (sc_vdb env) (sc_circular env) ext (sc_top_level_atoms env) = Some g" "graph_ok g"
      "dg_n g = length ext" "set (dg_order g) = {..<length ext}" "dg_alive g = replicate (length ext) True"
    by (rule build_digraph_graph)
  have alive: "\<forall>i < dg_n g. dg_alive g ! i" using g(3,5) by simp
  obtain p where p: "prune_nomerge_roots (length entries) g = Some p" "graph_ok p" "alive_closed p" "dg_n p = dg_n g"
      "\<forall>i < length entries. dg_alive p ! i = dg_alive g ! i" "\<forall>i \<in> set (dg_order p). dg_alive p ! i"
    by (rule prune_total [OF g(2) alive])
  obtain order where o: "merge_order_bias ext (sc_system_packages env) (sc_implicit_system_deps env) p
      = Some (p\<lparr> dg_order := order \<rparr>)" "distinct order" "set order = set (dg_order p)"
    by (rule bias_total [OF p(2)])
  have "digraph_ready (p\<lparr> dg_order := order \<rparr>) ext"
    using ready_reorder [OF p(2,3) _ _ p(6) o(2,3)] ext(3) assms p(4) g(3) by (simp add: env_ok_def)
  moreover have "\<forall>i < length entries. dg_alive (p\<lparr> dg_order := order \<rparr>) ! i" using p(5) alive ext(2) g(3) by simp
  moreover have "schedule_graph env entries =
      Some (ext, p\<lparr> dg_order := order \<rparr>, length entries, ranks_of (length ext) (dg_order g))"
    using ext(1) g(1) p(1) o(1) by (simp add: schedule_graph_def)
  moreover have "distinct (dg_order g)" using g(2) by (simp add: graph_ok_def)
  ultimately show thesis
    using that ext(2) ranks_of_order [of "dg_order g" "length ext"] g(4) by blast
qed

section \<open>The order\<close>

lemma weave_none [simp]: "weave rank ms [] = ms"
  by (induction ms) simp_all

lemma hard_order_filter: "hard_order children out \<Longrightarrow> hard_order children (filter P out)"
  by (induction out) fastforce+

lemma serialize_run:
  assumes "env_ok env entries"
  obtains ext g rank order where
    "schedule_graph env entries = Some (ext, g, length entries, rank)"
    "serialize_merge_order env entries = Some (Return (order, take (length entries) rank))"
    "distinct order" "set order = {..<length entries}"
    "acyclic (live_edges g) \<Longrightarrow> hard_order (dg_children g) order"
    "length rank = length ext" "distinct rank" "length entries \<le> length ext"
proof -
  let ?n = "length entries"
  obtain ext g rank where s: "schedule_graph env entries = Some (ext, g, ?n, rank)" "digraph_ready g ext"
      "\<forall>i < ?n. dg_alive g ! i" "?n \<le> length ext" "length rank = length ext" "distinct rank"
    by (rule schedule_graph_total [OF assms])
  have g: "graph_ok g" "alive_closed g" "dg_n g < 2 ^ 32" "dg_n g = length ext" "\<forall>i \<in> set (dg_order g). dg_alive g ! i"
    using s(2) by (simp_all add: digraph_ready_def)
  obtain ord where o: "merge_order_bias ext (sc_system_packages env) (sc_implicit_system_deps env) g
      = Some (g\<lparr> dg_order := ord \<rparr>)" "distinct ord" "set ord = set (dg_order g)"
    by (rule bias_total [OF g(1)])
  let ?g = "g\<lparr> dg_order := ord \<rparr>"
  have r: "digraph_ready ?g ext" by (rule ready_reorder [OF g o(2,3)])
  have h: "hash_law (sc_hash_order env)" using assms by (simp add: env_ok_def)
  obtain out where out: "\<And>fe. select_nodes fe (sc_hash_order env) ext ?g None = Some (Return out)" "distinct out"
      "set out = live ?g" "acyclic (live_edges ?g) \<Longrightarrow> hard_order (dg_children ?g) out"
    by (rule select_nodes_run [OF r h]) blast
  let ?order = "filter (\<lambda>i. i < ?n) out"
  have "set ?order = {..<?n}" using out(3) s(3,4) g(4) by (auto simp: live_def)
  moreover have "filter (\<lambda>i. i \<notin> {..<?n}) [0..<?n] = []" by (simp add: filter_empty_conv)
  ultimately have w: "weave_scheduled_leftovers ?order ?n rank = ?order"
    unfolding weave_scheduled_leftovers_def by simp
  have "live_edges ?g = live_edges g" by (simp add: live_edges_def)
  then have "acyclic (live_edges g) \<Longrightarrow> hard_order (dg_children g) ?order"
    using out(4) hard_order_filter by simp
  moreover have "serialize_merge_order env entries = Some (Return (?order, take ?n rank))"
    using s(1) o(1) out(1) w by (simp add: serialize_merge_order_def)
  ultimately show thesis
    using that [of ext g rank ?order] s out(2) \<open>set ?order = {..<?n}\<close> by simp
qed

lemma take_slots_order:
  "distinct order \<Longrightarrow> \<forall>i \<in> set order. i < length slots \<and> slots ! i = Some (es ! i) \<Longrightarrow>
     take_slots order slots = Return (map ((!) es) order)"
proof (induction order arbitrary: slots)
  case (Cons i order)
  have "\<forall>j \<in> set order. j < length (slots[i := None]) \<and> slots[i := None] ! j = Some (es ! j)"
    using Cons.prems by (auto simp: nth_list_update)
  from Cons.IH [OF _ this] show ?case using Cons.prems by simp
qed simp

section \<open>The properties\<close>

text \<open>C26: the digraph build ends for every input, and its graph is well-formed: all indices in range, no duplicate
  edge, parents and children mutually inverse, every entry alive and listed once in the order.\<close>

theorem build_digraph_wellformed:
  "\<exists>g. build_digraph v circular entries atoms = Some g \<and> graph_ok g \<and> dg_n g = length entries \<and>
     distinct (dg_order g) \<and> set (dg_order g) = {..<length entries} \<and> dg_alive g = replicate (length entries) True"
proof -
  obtain g where "build_digraph v circular entries atoms = Some g" "graph_ok g" "dg_n g = length entries"
    "set (dg_order g) = {..<length entries}" "dg_alive g = replicate (length entries) True"
    by (rule build_digraph_graph)
  then show ?thesis by (intro exI [of _ g]) (simp add: graph_ok_def)
qed

text \<open>C2: the merge order ends without a panic on any entries, and returns every entry exactly once, stamped with its
  place in the input, together with distinct ranks.\<close>

theorem merge_order_permutation:
  assumes "env_ok env entries"
  shows "\<exists>order ranks. topological_merge_order env entries =
      Some (Return (map (\<lambda>i. (entries ! i)\<lparr> e_discovery := i \<rparr>) order, ranks)) \<and>
    distinct order \<and> set order = {..<length entries} \<and> length ranks = length entries \<and> distinct ranks"
proof -
  let ?es = "map (\<lambda>(seq, e). e\<lparr> e_discovery := seq \<rparr>) (enumerate 0 entries)"
  have nth: "?es ! i = (entries ! i)\<lparr> e_discovery := i \<rparr>" if "i < length entries" for i
    using that by (simp add: nth_enumerate_eq)
  show ?thesis
  proof (cases "length entries < 2")
    case True
    have "?es = map (\<lambda>i. (entries ! i)\<lparr> e_discovery := i \<rparr>) [0..<length entries]"
      by (rule nth_equalityI) (simp_all add: nth_enumerate_eq)
    then show ?thesis using True
      by (intro exI [of _ "[0..<length entries]"]) (auto simp: topological_merge_order_def)
  next
    case False
    define es where "es = ?es"
    have "env_ok env es" using assms by (simp add: env_ok_def es_def)
    from serialize_run [OF this] obtain ext :: "graph_entry list" and rank order where
      s: "serialize_merge_order env es = Some (Return (order, take (length es) rank))"
        "distinct order" "set order = {..<length es}" "length rank = length ext" "distinct rank" "length es \<le> length ext"
      by metis
    have len: "length es = length entries" by (simp add: es_def)
    then have order: "set order = {..<length entries}" using s(3) by simp
    then have olen: "length order = length entries" using s(2) by (metis card_lessThan distinct_card)
    have "take_slots order (map Some es) = Return (map ((!) es) order)"
      by (rule take_slots_order) (use s(2) order len in auto)
    moreover have "map ((!) es) order = map (\<lambda>i. (entries ! i)\<lparr> e_discovery := i \<rparr>) order"
      using order nth by (auto simp: es_def)
    ultimately have t: "topological_merge_order env entries =
        Some (Return (map (\<lambda>i. (entries ! i)\<lparr> e_discovery := i \<rparr>) order, map ((!) (take (length entries) rank)) order))"
      using False s(1) len by (simp add: topological_merge_order_def es_def [symmetric])
    have "distinct (map ((!) (take (length entries) rank)) order)"
    proof (subst distinct_map, intro conjI s(2) inj_onI)
      fix i j assume ij: "i \<in> set order" "j \<in> set order" "take (length entries) rank ! i = take (length entries) rank ! j"
      then have "i < length rank" "j < length rank" "rank ! i = rank ! j" using order s(4,6) len by auto
      then show "i = j" using s(5) nth_eq_iff_index_eq by blast
    qed
    then show ?thesis using t s(2) order olen
      by (intro exI [of _ order] exI [of _ "map ((!) (take (length entries) rank)) order"]) (simp only: length_map simp_thms)
  qed
qed

text \<open>A run with no installed package, and two entries of which the first needs the second.\<close>

definition demo_env :: schedule_env where
  "demo_env =
     \<lparr> sc_vdb = \<lparr> vdb_installed = [], vdb_aux = (\<lambda>_ _ _ _. []), vdb_live = (\<lambda>_ _ _. False),
                  vdb_versions = (\<lambda>_ _. []) \<rparr>,
       sc_circular = (\<lambda>_. None), sc_top_level_atoms = [], sc_system_packages = [],
       sc_implicit_system_deps = False, sc_frontier_enabled = True, sc_hash_order = sorted_list_of_set \<rparr>"

definition demo_entries :: "graph_entry list" where
  "demo_entries = [tiny_entry ''b'', (tiny_entry ''c'')\<lparr> e_required_by := [(''a'', ''b'')] \<rparr>]"

lemma demo_ok: "env_ok demo_env demo_entries"
  by (simp add: env_ok_def demo_env_def demo_entries_def hash_law_sorted)

theorem merge_order_permutation_witness:
  "\<exists>order ranks. topological_merge_order demo_env demo_entries =
      Some (Return (map (\<lambda>i. (demo_entries ! i)\<lparr> e_discovery := i \<rparr>) order, ranks)) \<and>
    distinct order \<and> set order = {..<2} \<and> length ranks = 2 \<and> distinct ranks"
proof -
  have "length demo_entries = 2" by (simp add: demo_entries_def)
  then show ?thesis using merge_order_permutation [OF demo_ok] by simp
qed

text \<open>C1: when the scheduled graph has no cycle, the merge order puts every unsatisfied build-time or run-time
  dependency before the package that needs it.\<close>

theorem merge_order_dependencies_first:
  assumes "env_ok env entries" "schedule_graph env entries = Some (ext, g, n, rank)" "acyclic (live_edges g)"
    and "(c, prios) \<in> set (dg_children g ! p)" "hard_edge prios" "p < length entries" "c < length entries"
  shows "\<exists>xs ys ranks. serialize_merge_order env entries = Some (Return (xs @ p # ys, ranks)) \<and> c \<in> set xs"
proof -
  obtain order ranks where s: "serialize_merge_order env entries = Some (Return (order, ranks))"
      "set order = {..<length entries}" "hard_order (dg_children g) order"
    by (rule serialize_run [OF assms(1)]) (use assms(2,3) in auto)
  then obtain xs ys where xs: "order = xs @ p # ys" using assms(6) by (metis lessThan_iff split_list)
  then have "c \<notin> set (p # ys)" using s(3) hard_order_split assms(4,5) by blast
  then have "c \<in> set xs" using s(2) xs assms(7) by auto
  then show ?thesis using s(1) xs by blast
qed

definition demo_graph :: digraph where
  "demo_graph =
     \<lparr> dg_n = 2, dg_children = [[(1, [default_priority\<lparr> runtime := True, satisfied := False \<rparr>])], []], dg_parents = [[], [0]],
       dg_order = [0, 1], dg_installed = [False, False], dg_alive = [True, True] \<rparr>"

lemma while_option_done: "\<not> b s \<Longrightarrow> while_option b c s = Some s"
  by (subst while_option_unfold) simp

lemma demo_schedule: "schedule_graph demo_env demo_entries = Some (demo_entries, demo_graph, 2, [0, 1])"
proof -
  let ?v = "sc_vdb demo_env"
  have deps: "map e_deps demo_entries = [[], []]" "length demo_entries = 2"
    by (simp_all add: demo_entries_def tiny_entry_def synthetic_installed_entry_def)
  have out: "\<not> is_installed_outcome (demo_entries ! i)" if "i < 2" for i
    using that by (auto simp: less_2_cases_iff demo_entries_def tiny_entry_def is_installed_outcome_def)
  have closure: "add_installed_dependency_closure ?v atoms True demo_entries = Some demo_entries" for atoms
  proof -
    have "cs_queue (closure_start ?v True atoms demo_entries) = []" "cs_entries (closure_start ?v True atoms demo_entries) = demo_entries"
      using deps out by (simp_all add: closure_start_def Let_def add_edge_nodes_def add_system_nodes_def filter_empty_conv)
    then show ?thesis by (simp add: add_installed_dependency_closure_def while_option_done)
  qed
  have build: "build_digraph ?v (sc_circular demo_env) demo_entries [] = Some demo_graph"
  proof -
    have nodeps: "e_deps (demo_entries ! 0) = []" "e_deps (demo_entries ! Suc 0) = []" "\<not> is_uninstall (demo_entries ! Suc 0)"
      "e_required_by (demo_entries ! 0) = []" "e_required_by (demo_entries ! Suc 0) = [(''a'', ''b'')]"
      by (simp_all add: demo_entries_def tiny_entry_def synthetic_installed_entry_def is_uninstall_def)
    have idx: "indices_of_cp demo_entries (''a'', ''b'') = Some [0]"
      by (simp add: indices_of_cp_def demo_entries_def tiny_entry_def synthetic_installed_entry_def)
    have inst: "map nomerge_outcome demo_entries = [False, False]"
      by (simp add: demo_entries_def tiny_entry_def nomerge_outcome_def)
    show ?thesis
      using deps(2) nodeps idx inst
      by (simp add: build_digraph_def Let_def discovery_order_def discover_seeds_def while_option_done numeral_2_eq_2
          fallback_edges_def digraph_prelude_of_def owner_edge_def has_child_def empty_graph_def add_edge_def demo_graph_def)
  qed
  have prune: "prune_nomerge_roots 2 demo_graph = Some demo_graph"
    by (subst prune_nomerge_roots_def, subst while_option_unfold)
      (simp add: prune_pass_def while_option_done demo_graph_def retain_alive_def numeral_2_eq_2)
  have "\<not> complete_mode demo_entries"
    by (simp add: complete_mode_def demo_entries_def tiny_entry_def synthetic_installed_entry_def)
  moreover have "ranks_of 2 (dg_order demo_graph) = [0, 1]" by (simp add: ranks_of_def demo_graph_def numeral_2_eq_2)
  ultimately show ?thesis
    using closure build prune deps(2)
    by (simp add: schedule_graph_def merge_order_bias_def) (simp add: demo_env_def)
qed

theorem merge_order_dependencies_first_witness:
  "\<exists>xs ys ranks. serialize_merge_order demo_env demo_entries = Some (Return (xs @ 0 # ys, ranks)) \<and> 1 \<in> set xs"
proof (rule merge_order_dependencies_first [OF demo_ok demo_schedule])
  have "live_edges demo_graph = {(0, 1)}"
    by (auto simp: live_edges_def demo_graph_def less_Suc_eq numeral_2_eq_2)
  then show "acyclic (live_edges demo_graph)" by (simp add: wf_acyclic)
  show "(1, [default_priority\<lparr> runtime := True, satisfied := False \<rparr>]) \<in> set (dg_children demo_graph ! 0)" by (simp add: demo_graph_def)
  show "hard_edge [default_priority\<lparr> runtime := True, satisfied := False \<rparr>]" by (simp add: hard_edge_def hard_dep_def default_priority_def)
qed (simp_all add: demo_entries_def)

end
