(* ===== verification/Replay.thy ===== *)
theory Replay
  imports BuildOk "HOL-Library.Finite_Map"
begin

text \<open>
  The walk of \<open>_create_graph\<close> replayed over a settled graph (\<open>merge_order/replay.rs\<close>): it admits the
  entries in order, collects the USE changes that the dependencies need and stops at the first
  dependency that fails. \<open>None\<close> of the loop is a walk that does not end; hash maps are finite maps,
  hash sets are sets, and the stacks have their end first.
\<close>

section \<open>State\<close>

type_synonym use_needed = "(string \<times> string, (string, bool) fmap) fmap"

record replay_use =
  ru_iuse :: "string set"
  ru_enabled :: "string set"
  ru_fixed :: "string set"

record replay_failure =
  rf_parent :: nat
  rf_edge :: nat
  rf_contradiction :: bool

record walk_replay =
  wr_admitted :: "nat list"
  wr_admitted_by :: "(nat \<times> nat) option list"
  wr_admitted_arg :: "nat option list"
  wr_edges :: "(nat \<times> nat \<times> nat) list"
  wr_flip_origin :: "(string \<times> string, nat \<times> nat) fmap"
  wr_failure :: "replay_failure option"
  wr_needed :: use_needed

record replay_walk_state =
  rw_out :: walk_replay
  rw_discovered :: "bool list"
  rw_stack :: "nat list"
  rw_disjunctive :: "(nat \<times> nat) list"

text \<open>What does not change during a walk.\<close>

record replay_env =
  re_entries :: "graph_entry list"
  re_pre :: digraph_prelude
  re_suppressed :: "nat set list"
  re_allow_flips :: bool
  re_use_of :: "nat \<Rightarrow> replay_use option"

section \<open>The targets of an edge\<close>

definition replay_edge_atom :: "dep_edge \<Rightarrow> atom option" where
  "replay_edge_atom edge =
     (case parse_atom (edge_evaluated edge) of
        Return (Some a) \<Rightarrow> Some a
      | _ \<Rightarrow> parse_dep_atom (edge_atom edge))"

definition replay_indices :: "replay_env \<Rightarrow> dep_edge \<Rightarrow> nat list" where
  "replay_indices env edge =
     (case dp_cp_indices (re_pre env) (edge_category edge, edge_package edge) of None \<Rightarrow> [] | Some idxs \<Rightarrow> idxs)"

definition replay_target :: "replay_env \<Rightarrow> dep_edge \<Rightarrow> nat \<Rightarrow> bool" where
  "replay_target env edge j \<longleftrightarrow>
     \<not> (no_candidate (re_entries env) j \<or> is_uninstall (re_entries env ! j))
     \<and> edge_matches (re_pre env) (edge_atom edge) j"

definition replay_edge_has_target :: "replay_env \<Rightarrow> nat \<Rightarrow> nat \<Rightarrow> bool" where
  "replay_edge_has_target env i ei =
     (let edge = e_deps (re_entries env ! i) ! ei
      in case replay_edge_atom edge of
           None \<Rightarrow> False
         | Some a \<Rightarrow> a_blocker a = BlockNone \<and> list_ex (replay_target env edge) (replay_indices env edge))"

definition replay_order :: "replay_env \<Rightarrow> nat \<Rightarrow> bool \<Rightarrow> nat \<Rightarrow> nat list" where
  "replay_order env i disjunctive key =
     sort_key (\<lambda>ei. replay_edge_has_target env i ei)
       (map fst (filter (\<lambda>(ei, edge). \<not> (edge_disjunctive edge \<noteq> disjunctive \<or> edge_key edge \<noteq> key
                                        \<or> ei \<in> re_suppressed env ! i))
                   (enumerate 0 (e_deps (re_entries env ! i)))))"

section \<open>USE of a target\<close>

definition set_flag :: "string \<times> bool \<Rightarrow> string set \<Rightarrow> string set" where
  "set_flag c s = (case c of (f, on) \<Rightarrow> if on then insert f s else s - {f})"

definition needed_flag :: "use_needed \<Rightarrow> string \<times> string \<Rightarrow> string \<Rightarrow> bool option" where
  "needed_flag needed cp f = (case fmlookup needed cp of None \<Rightarrow> None | Some m \<Rightarrow> fmlookup m f)"

text \<open>The needed changes of a package on its declared flags; their order does not matter.\<close>

definition apply_needed :: "use_needed \<Rightarrow> string \<times> string \<Rightarrow> string set \<Rightarrow> string set \<Rightarrow> string set" where
  "apply_needed needed cp iuse enabled =
     (case fmlookup needed cp of
        None \<Rightarrow> enabled
      | Some m \<Rightarrow>
          (enabled \<union> fset (ffilter (\<lambda>f. f \<in> iuse \<and> fmlookup m f = Some True) (fmdom m)))
          - fset (ffilter (\<lambda>f. f \<in> iuse \<and> fmlookup m f = Some False) (fmdom m)))"

type_synonym use_flips = "((string \<times> string) \<times> (string \<times> bool) list) list"

definition flips_of :: "use_flips \<Rightarrow> string \<times> string \<Rightarrow> (string \<times> bool) list" where
  "flips_of flips cp = concat (map snd (filter (\<lambda>(c, _). c = cp) flips))"

definition current_use :: "use_needed \<Rightarrow> use_flips \<Rightarrow> string \<times> string \<Rightarrow> replay_use \<Rightarrow> string set" where
  "current_use needed flips cp u =
     fold set_flag (flips_of flips cp) (apply_needed needed cp (ru_iuse u) (ru_enabled u))"

definition wanted_of :: "use_dep list \<Rightarrow> (string \<times> bool) list" where
  "wanted_of = List.map_filter (\<lambda>d. case ud_op d of
     UseEnabled \<Rightarrow> Some (ud_flag d, True) | UseDisabled \<Rightarrow> Some (ud_flag d, False) | _ \<Rightarrow> None)"

definition prior_want :: "use_needed \<Rightarrow> use_flips \<Rightarrow> string \<times> string \<Rightarrow> string \<Rightarrow> bool option" where
  "prior_want needed flips cp f =
     (case needed_flag needed cp f of Some v \<Rightarrow> Some v | None \<Rightarrow> map_of (flips_of flips cp) f)"

record flip_scan =
  fs_change :: "(string \<times> bool) list"
  fs_contradiction :: bool
  fs_impossible :: bool

definition scan_want ::
  "replay_use \<Rightarrow> string set \<Rightarrow> (string \<Rightarrow> bool option) \<Rightarrow> string list \<Rightarrow> string \<times> bool \<Rightarrow> flip_scan \<Rightarrow> flip_scan" where
  "scan_want u current prior flag_names want st =
     (case want of (f, on) \<Rightarrow>
        if f \<notin> ru_iuse u then (if f \<in> set flag_names then st\<lparr> fs_impossible := True \<rparr> else st)
        else if (f \<in> current) = on then st
        else if f \<in> ru_fixed u then st\<lparr> fs_impossible := True \<rparr>
        else st\<lparr> fs_contradiction := (fs_contradiction st \<or> (case prior f of None \<Rightarrow> False | Some p \<Rightarrow> p \<noteq> on)),
                 fs_change := fs_change st @ [(f, on)] \<rparr>)"

text \<open>The USE dependencies of the evaluated atom that the written atom has unconditionally.\<close>

definition unconditional_use_deps :: "dep_edge \<Rightarrow> atom \<Rightarrow> use_dep list" where
  "unconditional_use_deps edge a =
     (let deps_of = (\<lambda>x. case a_use_deps x of None \<Rightarrow> [] | Some u \<Rightarrow> u);
          written = (case parse_dep_atom (edge_atom edge) of
              None \<Rightarrow> []
            | Some w \<Rightarrow> map ud_flag (filter (\<lambda>d. ud_op d = UseEnabled \<or> ud_op d = UseDisabled) (deps_of w)))
      in filter (\<lambda>d. ud_flag d \<in> set written) (deps_of a))"

section \<open>One key\<close>

record key_acc =
  ka_targets :: "(nat \<times> nat) list"
  ka_flips :: use_flips
  ka_origin :: "(string \<times> string, nat \<times> nat) fmap"

type_synonym key_result = "(replay_failure \<times> (string \<times> string, nat \<times> nat) fmap) + key_acc"

text \<open>The USE of the target \<open>t\<close>: nothing to do, the changes it needs, or the failure of the key.\<close>

definition settle_use ::
  "replay_env \<Rightarrow> use_needed \<Rightarrow> nat \<Rightarrow> nat \<Rightarrow> use_dep list \<Rightarrow> nat \<Rightarrow> key_acc \<Rightarrow> key_result" where
  "settle_use env needed i ei use_deps t acc =
     (case re_use_of env t of
        None \<Rightarrow> Inr acc
      | Some u \<Rightarrow>
          let tcp = (e_category (re_entries env ! t), e_package (re_entries env ! t));
              current = current_use needed (ka_flips acc) tcp u;
              flag_names = map ud_flag (filter (\<lambda>d. ud_default d = None) use_deps);
              scan = fold (scan_want u current (prior_want needed (ka_flips acc) tcp) flag_names) (wanted_of use_deps)
                       \<lparr> fs_change = [], fs_contradiction = False, fs_impossible = False \<rparr>
          in if use_deps = [] \<or> use_deps_satisfied use_deps (ru_iuse u) current then Inr acc
             else if fs_contradiction scan \<or> fs_impossible scan \<or> \<not> re_allow_flips env \<or> fs_change scan = []
             then Inl (\<lparr> rf_parent = i, rf_edge = ei, rf_contradiction = fs_contradiction scan \<rparr>, ka_origin acc)
             else Inr (acc\<lparr> ka_origin := (if fmlookup (ka_origin acc) tcp = None then fmupd tcp (i, ei) (ka_origin acc)
                                          else ka_origin acc),
                            ka_flips := ka_flips acc @ [(tcp, fs_change scan)] \<rparr>))"

definition carries_flags :: "replay_env \<Rightarrow> string list \<Rightarrow> nat \<Rightarrow> bool" where
  "carries_flags env flag_names j =
     (case re_use_of env j of None \<Rightarrow> True | Some u \<Rightarrow> list_all (\<lambda>f. f \<in> ru_iuse u) flag_names)"

text \<open>The target of an edge: the best candidate, those that declare the flags first.\<close>

definition replay_pick :: "replay_env \<Rightarrow> dep_edge \<Rightarrow> use_dep list \<Rightarrow> nat option" where
  "replay_pick env edge use_deps =
     (let cands = filter (replay_target env edge) (replay_indices env edge);
          flag_names = map ud_flag (filter (\<lambda>d. ud_default d = None) use_deps);
          preferred = filter (carries_flags env flag_names) cands
      in rank_best (re_entries env) (dp_installed (re_pre env)) (if preferred = [] then cands else preferred))"

definition settle_edge :: "replay_env \<Rightarrow> use_needed \<Rightarrow> nat \<Rightarrow> nat \<Rightarrow> key_acc \<Rightarrow> key_result" where
  "settle_edge env needed i ei acc =
     (let edge = e_deps (re_entries env ! i) ! ei
      in case replay_edge_atom edge of
           None \<Rightarrow> Inr acc
         | Some a \<Rightarrow>
             if a_blocker a \<noteq> BlockNone then Inr acc
             else
               let parent_cp = (e_category (re_entries env ! i), e_package (re_entries env ! i));
                   nvc_names_parent = list_ex (\<lambda>j. no_candidate (re_entries env) j
                     \<and> parent_cp \<in> set (e_required_by (re_entries env ! j))) (replay_indices env edge);
                   use_deps = unconditional_use_deps edge a
               in case replay_pick env edge use_deps of
                    None \<Rightarrow>
                      if nvc_names_parent
                      then Inl (\<lparr> rf_parent = i, rf_edge = ei, rf_contradiction = False \<rparr>, ka_origin acc)
                      else Inr acc
                  | Some t \<Rightarrow>
                      (case settle_use env needed i ei use_deps t acc of
                         Inl failure \<Rightarrow> Inl failure
                       | Inr acc' \<Rightarrow> Inr (acc'\<lparr> ka_targets := ka_targets acc' @ [(t, ei)] \<rparr>)))"

fun settle_edges :: "replay_env \<Rightarrow> use_needed \<Rightarrow> nat \<Rightarrow> nat list \<Rightarrow> key_acc \<Rightarrow> key_result" where
  "settle_edges env needed i [] acc = Inr acc"
| "settle_edges env needed i (ei # eis) acc =
     (case settle_edge env needed i ei acc of
        Inl failure \<Rightarrow> Inl failure
      | Inr acc' \<Rightarrow> settle_edges env needed i eis acc')"

definition need_flips :: "(string \<times> string) \<times> (string \<times> bool) list \<Rightarrow> use_needed \<Rightarrow> use_needed" where
  "need_flips flip needed =
     (case flip of (cp, fl) \<Rightarrow>
        fmupd cp (fold (\<lambda>(f, on) m. fmupd f on m) fl
                    (case fmlookup needed cp of None \<Rightarrow> fmempty | Some m \<Rightarrow> m)) needed)"

definition admit_target :: "nat \<Rightarrow> nat \<times> nat \<Rightarrow> replay_walk_state \<Rightarrow> replay_walk_state" where
  "admit_target i target st =
     (case target of (t, ei) \<Rightarrow>
        let st = st\<lparr> rw_out := (rw_out st)\<lparr> wr_edges := wr_edges (rw_out st) @ [(i, ei, t)] \<rparr> \<rparr>
        in if rw_discovered st ! t then st
           else st\<lparr> rw_discovered := (rw_discovered st)[t := True],
                    rw_stack := t # rw_stack st,
                    rw_out := (rw_out st)\<lparr> wr_admitted := wr_admitted (rw_out st) @ [t],
                                wr_admitted_by := (wr_admitted_by (rw_out st))[t := Some (i, ei)] \<rparr> \<rparr>)"

definition replay_key :: "replay_env \<Rightarrow> nat \<Rightarrow> bool \<Rightarrow> nat \<Rightarrow> replay_walk_state \<Rightarrow> replay_walk_state" where
  "replay_key env i disjunctive key st =
     (case settle_edges env (wr_needed (rw_out st)) i (replay_order env i disjunctive key)
             \<lparr> ka_targets = [], ka_flips = [], ka_origin = wr_flip_origin (rw_out st) \<rparr> of
        Inl (failure, origin) \<Rightarrow>
          st\<lparr> rw_out := (rw_out st)\<lparr> wr_flip_origin := origin, wr_failure := Some failure \<rparr> \<rparr>
      | Inr acc \<Rightarrow>
          fold (admit_target i) (ka_targets acc)
            (st\<lparr> rw_out := (rw_out st)\<lparr> wr_flip_origin := ka_origin acc,
                   wr_needed := fold need_flips (ka_flips acc) (wr_needed (rw_out st)) \<rparr> \<rparr>))"

section \<open>The walk\<close>

text \<open>A failure ends the walk: what is left of the keys and the stacks is not looked at.\<close>

definition replay_keys :: "replay_env \<Rightarrow> nat \<Rightarrow> nat list \<Rightarrow> replay_walk_state \<Rightarrow> replay_walk_state" where
  "replay_keys env i =
     fold (\<lambda>k st. if wr_failure (rw_out st) \<noteq> None then st else replay_key env i False k st)"

definition replay_step :: "replay_env \<Rightarrow> replay_walk_state \<Rightarrow> replay_walk_state" where
  "replay_step env st =
     (case rw_stack st of
        i # stack \<Rightarrow>
          let deps = e_deps (re_entries env ! i);
              keys = (\<lambda>d. remdups_adj (map edge_key (filter (\<lambda>e. edge_disjunctive e = d) deps)))
          in replay_keys env i (keys False)
               (st\<lparr> rw_stack := stack, rw_disjunctive := rev (map (Pair i) (keys True)) @ rw_disjunctive st \<rparr>)
      | [] \<Rightarrow>
          (case rw_disjunctive st of
             [] \<Rightarrow> st
           | (i, k) # rest \<Rightarrow> replay_key env i True k (st\<lparr> rw_disjunctive := rest \<rparr>)))"

definition replay_running :: "replay_walk_state \<Rightarrow> bool" where
  "replay_running st \<longleftrightarrow> wr_failure (rw_out st) = None \<and> (rw_stack st \<noteq> [] \<or> rw_disjunctive st \<noteq> [])"

definition seed_entry :: "digraph_prelude \<Rightarrow> nat \<Rightarrow> string \<Rightarrow> nat \<Rightarrow> replay_walk_state \<Rightarrow> replay_walk_state" where
  "seed_entry pre ai atom_str i st =
     (if dp_installed pre ! i \<or> \<not> edge_matches pre atom_str i \<or> rw_discovered st ! i then st
      else st\<lparr> rw_discovered := (rw_discovered st)[i := True],
               rw_stack := i # rw_stack st,
               rw_out := (rw_out st)\<lparr> wr_admitted := wr_admitted (rw_out st) @ [i],
                           wr_admitted_arg := (wr_admitted_arg (rw_out st))[i := Some ai] \<rparr> \<rparr>)"

definition seed_atom :: "digraph_prelude \<Rightarrow> nat \<times> string \<Rightarrow> replay_walk_state \<Rightarrow> replay_walk_state" where
  "seed_atom pre arg st =
     (case arg of (ai, atom_str) \<Rightarrow>
        (case parse_dep_atom atom_str of
           None \<Rightarrow> st
         | Some a \<Rightarrow>
             if a_blocker a \<noteq> BlockNone then st
             else (case dp_cp_indices pre (a_category a, a_package a) of
                     None \<Rightarrow> st
                   | Some idxs \<Rightarrow> fold (seed_entry pre ai atom_str) idxs st)))"

definition replay_start :: "nat \<Rightarrow> use_needed \<Rightarrow> replay_walk_state" where
  "replay_start n needed_init =
     \<lparr> rw_out = \<lparr> wr_admitted = [], wr_admitted_by = replicate n None, wr_admitted_arg = replicate n None,
                  wr_edges = [], wr_flip_origin = fmempty, wr_failure = None, wr_needed = needed_init \<rparr>,
       rw_discovered = replicate n False, rw_stack = [], rw_disjunctive = [] \<rparr>"

definition replay_env_of ::
  "vdb_view \<Rightarrow> graph_entry list \<Rightarrow> bool \<Rightarrow> (nat \<Rightarrow> replay_use option) \<Rightarrow> replay_env" where
  "replay_env_of v entries allow_flips use_of =
     (let pre = digraph_prelude_of v entries
      in \<lparr> re_entries = entries, re_pre = pre,
           re_suppressed = suppressed_alt_edges v pre (\<lambda>_. None) entries,
           re_allow_flips = allow_flips, re_use_of = use_of \<rparr>)"

definition replay_create_graph ::
  "vdb_view \<Rightarrow> graph_entry list \<Rightarrow> string list \<Rightarrow> bool \<Rightarrow> use_needed \<Rightarrow> (nat \<Rightarrow> replay_use option) \<Rightarrow>
   walk_replay option" where
  "replay_create_graph v entries top_level_atoms allow_flips needed_init use_of =
     (let env = replay_env_of v entries allow_flips use_of
      in map_option rw_out
           (while_option replay_running (replay_step env)
              (fold (seed_atom (re_pre env)) (enumerate 0 top_level_atoms)
                 (replay_start (length entries) needed_init))))"

end
