(* ===== verification/ReplayOk.thy ===== *)
theory ReplayOk
  imports Replay
begin

text \<open>
  The replayed walk ends; every entry it admits has a chain of admitting edges down to an argument;
  and a USE change that is needed is never turned round.
\<close>

section \<open>The invariant of the walk\<close>

text \<open>How the entry \<open>i\<close> was admitted: by an argument, or by an edge of an entry admitted before it.\<close>

definition admitted_how :: "walk_replay \<Rightarrow> nat set \<Rightarrow> nat \<Rightarrow> bool" where
  "admitted_how out earlier i \<longleftrightarrow>
     (case (wr_admitted_arg out ! i, wr_admitted_by out ! i) of
        (Some _, None) \<Rightarrow> True
      | (None, Some (p, ei)) \<Rightarrow> p \<in> earlier \<and> (p, ei, i) \<in> set (wr_edges out)
      | _ \<Rightarrow> False)"

definition walk_out_ok :: "graph_entry list \<Rightarrow> walk_replay \<Rightarrow> bool" where
  "walk_out_ok entries out \<longleftrightarrow>
     (let n = length entries; adm = wr_admitted out
      in length (wr_admitted_by out) = n \<and> length (wr_admitted_arg out) = n \<and>
         distinct adm \<and> set adm \<subseteq> {..<n} \<and>
         (\<forall>k < length adm. admitted_how out (set (take k adm)) (adm ! k)) \<and>
         (\<forall>i < n. i \<notin> set adm \<longrightarrow> wr_admitted_by out ! i = None \<and> wr_admitted_arg out ! i = None) \<and>
         (\<forall>(p, ei, t) \<in> set (wr_edges out). p \<in> set adm \<and> t \<in> set adm \<and> ei < length (e_deps (entries ! p))) \<and>
         (\<forall>f. wr_failure out = Some f \<longrightarrow>
            rf_parent f \<in> set adm \<and> rf_edge f < length (e_deps (entries ! rf_parent f))))"

definition replay_ok :: "graph_entry list \<Rightarrow> replay_walk_state \<Rightarrow> bool" where
  "replay_ok entries st \<longleftrightarrow>
     walk_out_ok entries (rw_out st) \<and> length (rw_discovered st) = length entries \<and>
     set (wr_admitted (rw_out st)) = {i. i < length entries \<and> rw_discovered st ! i} \<and>
     set (rw_stack st) \<subseteq> set (wr_admitted (rw_out st)) \<and>
     fst ` set (rw_disjunctive st) \<subseteq> set (wr_admitted (rw_out st))"

definition undiscovered :: "replay_walk_state \<Rightarrow> nat" where
  "undiscovered st = card {i. i < length (rw_discovered st) \<and> \<not> rw_discovered st ! i}"

text \<open>A part of the walk keeps the stacks or discovers an entry; nothing admitted is lost.\<close>

definition replay_grows :: "replay_walk_state \<Rightarrow> replay_walk_state \<Rightarrow> bool" where
  "replay_grows st st' \<longleftrightarrow>
     set (wr_admitted (rw_out st)) \<subseteq> set (wr_admitted (rw_out st')) \<and>
     (undiscovered st' < undiscovered st \<or>
      undiscovered st' = undiscovered st \<and> rw_stack st' = rw_stack st \<and> rw_disjunctive st' = rw_disjunctive st)"

lemma replay_grows_refl [simp]: "replay_grows st st"
  by (simp add: replay_grows_def)

lemma replay_grows_trans: "replay_grows a b \<Longrightarrow> replay_grows b c \<Longrightarrow> replay_grows a c"
  by (auto simp: replay_grows_def)

definition replay_part :: "graph_entry list \<Rightarrow> nat set \<Rightarrow> (replay_walk_state \<Rightarrow> replay_walk_state) \<Rightarrow> bool" where
  "replay_part entries need f \<longleftrightarrow>
     (\<forall>st. replay_ok entries st \<and> need \<subseteq> set (wr_admitted (rw_out st)) \<longrightarrow>
           replay_ok entries (f st) \<and> replay_grows st (f st))"

lemma replay_partD:
  "replay_part entries need f \<Longrightarrow> replay_ok entries st \<Longrightarrow> need \<subseteq> set (wr_admitted (rw_out st)) \<Longrightarrow>
   replay_ok entries (f st) \<and> replay_grows st (f st)"
  by (simp add: replay_part_def)

lemma replay_part_id: "replay_part entries need (\<lambda>st. st)"
  by (simp add: replay_part_def)

lemma replay_part_fold:
  "(\<And>x. x \<in> set xs \<Longrightarrow> replay_part entries need (f x)) \<Longrightarrow> replay_part entries need (fold f xs)"
proof (induction xs)
  case (Cons x xs)
  then have x: "replay_part entries need (f x)" and xs: "replay_part entries need (fold f xs)" by auto
  have "replay_ok entries (fold f xs (f x st)) \<and> replay_grows st (fold f xs (f x st))"
    if "replay_ok entries st" "need \<subseteq> set (wr_admitted (rw_out st))" for st
  proof -
    note a = replay_partD [OF x that]
    then have "need \<subseteq> set (wr_admitted (rw_out (f x st)))" using that(2) by (auto simp: replay_grows_def)
    from replay_partD [OF xs _ this] a show ?thesis using replay_grows_trans by blast
  qed
  then show ?case by (simp add: replay_part_def)
qed (simp add: replay_part_def)

lemma undiscovered_less:
  assumes "i < length (rw_discovered st)" "\<not> rw_discovered st ! i"
    and "rw_discovered st' = (rw_discovered st)[i := True]"
  shows "undiscovered st' < undiscovered st"
proof -
  have "{j. j < length (rw_discovered st') \<and> \<not> rw_discovered st' ! j} \<subset>
      {j. j < length (rw_discovered st) \<and> \<not> rw_discovered st ! j}"
    using assms by (auto simp: nth_list_update split: if_splits)
  then show ?thesis unfolding undiscovered_def by (rule psubset_card_mono [rotated]) simp
qed

text \<open>A new entry at the end of the admitted ones.\<close>

lemma out_admit:
  assumes ok: "walk_out_ok entries out" and t: "t < length entries" "t \<notin> set (wr_admitted out)"
    and how: "admitted_how out' (set (wr_admitted out)) t"
    and out': "wr_admitted out' = wr_admitted out @ [t]" "wr_failure out' = wr_failure out"
      "set (wr_edges out) \<subseteq> set (wr_edges out')"
      "length (wr_admitted_by out') = length entries" "length (wr_admitted_arg out') = length entries"
    and same: "\<And>i. i \<noteq> t \<Longrightarrow> i < length entries \<Longrightarrow> wr_admitted_by out' ! i = wr_admitted_by out ! i \<and>
      wr_admitted_arg out' ! i = wr_admitted_arg out ! i"
    and edges: "\<And>p ei u. (p, ei, u) \<in> set (wr_edges out') \<Longrightarrow>
      (p, ei, u) \<in> set (wr_edges out) \<or> (p \<in> set (wr_admitted out) \<and> u = t \<and> ei < length (e_deps (entries ! p)))"
  shows "walk_out_ok entries out'"
proof -
  let ?adm = "wr_admitted out"
  have adm: "set ?adm \<subseteq> {..<length entries}" "distinct ?adm" using ok by (auto simp: walk_out_ok_def Let_def)
  have h: "admitted_how out' (set (take k (wr_admitted out'))) (wr_admitted out' ! k)"
    if "k < length (wr_admitted out')" for k
  proof (cases "k < length ?adm")
    case True
    then have i: "?adm ! k \<in> set ?adm" by simp
    then have "?adm ! k \<noteq> t" "?adm ! k < length entries" using t(2) adm by auto
    moreover have "admitted_how out (set (take k ?adm)) (?adm ! k)" using ok True by (simp add: walk_out_ok_def Let_def)
    ultimately show ?thesis using True same [of "?adm ! k"] out'(3)
      by (auto simp: admitted_how_def out'(1) nth_append split: option.splits)
  next
    case False
    then have "k = length ?adm" using that by (simp add: out'(1))
    then show ?thesis using how by (simp add: out'(1))
  qed
  have u: "wr_admitted_by out' ! i = None \<and> wr_admitted_arg out' ! i = None"
    if "i < length entries" "i \<notin> set (wr_admitted out')" for i
    using that same [of i] ok by (auto simp: walk_out_ok_def Let_def out'(1))
  have e: "p \<in> set (wr_admitted out') \<and> v \<in> set (wr_admitted out') \<and> ei < length (e_deps (entries ! p))"
    if "(p, ei, v) \<in> set (wr_edges out')" for p ei v
    using edges [OF that] ok by (auto simp: walk_out_ok_def Let_def out'(1))
  have f: "rf_parent f \<in> set (wr_admitted out') \<and> rf_edge f < length (e_deps (entries ! rf_parent f))"
    if "wr_failure out' = Some f" for f
    using ok that by (simp add: walk_out_ok_def Let_def out')
  have d: "distinct (wr_admitted out')" "set (wr_admitted out') \<subseteq> {..<length entries}"
    using adm t by (auto simp: out'(1))
  show ?thesis unfolding walk_out_ok_def Let_def using d h u e f out'(4,5) by blast
qed

lemma out_edge:
  assumes "walk_out_ok entries out" "p \<in> set (wr_admitted out)" "t \<in> set (wr_admitted out)"
    "ei < length (e_deps (entries ! p))"
  shows "walk_out_ok entries (out\<lparr> wr_edges := wr_edges out @ [(p, ei, t)] \<rparr>)"
proof -
  let ?out = "out\<lparr> wr_edges := wr_edges out @ [(p, ei, t)] \<rparr>"
  have h: "admitted_how ?out s i" if "admitted_how out s i" for s i
    using that by (auto simp: admitted_how_def split: option.splits)
  have o: "wr_admitted ?out = wr_admitted out" "wr_admitted_by ?out = wr_admitted_by out"
    "wr_admitted_arg ?out = wr_admitted_arg out" "wr_failure ?out = wr_failure out"
    "set (wr_edges ?out) = insert (p, ei, t) (set (wr_edges out))" by auto
  show ?thesis using assms h unfolding walk_out_ok_def Let_def o by blast
qed

lemma admit_part:
  assumes "t < length entries" "ei < length (e_deps (entries ! i))"
  shows "replay_part entries {i} (admit_target i (t, ei))"
  unfolding replay_part_def
proof (intro allI impI)
  fix st assume a: "replay_ok entries st \<and> {i} \<subseteq> set (wr_admitted (rw_out st))"
  let ?out = "rw_out st"
  have ok: "walk_out_ok entries ?out" and adm: "set (wr_admitted ?out) = {i. i < length entries \<and> rw_discovered st ! i}"
    and len: "length (rw_discovered st) = length entries" using a by (simp_all add: replay_ok_def)
  show "replay_ok entries (admit_target i (t, ei) st) \<and> replay_grows st (admit_target i (t, ei) st)"
  proof (cases "rw_discovered st ! t")
    case True
    then have "t \<in> set (wr_admitted ?out)" using adm assms by simp
    then have "walk_out_ok entries (?out\<lparr> wr_edges := wr_edges ?out @ [(i, ei, t)] \<rparr>)"
      using out_edge ok a assms by simp
    then show ?thesis using True a
      by (auto simp: admit_target_def replay_ok_def replay_grows_def undiscovered_def)
  next
    case False
    let ?st = "admit_target i (t, ei) st"
    have st: "?st = st\<lparr> rw_discovered := (rw_discovered st)[t := True], rw_stack := t # rw_stack st,
        rw_out := ?out\<lparr> wr_admitted := wr_admitted ?out @ [t], wr_admitted_by := (wr_admitted_by ?out)[t := Some (i, ei)],
          wr_edges := wr_edges ?out @ [(i, ei, t)] \<rparr> \<rparr>"
      using False by (simp add: admit_target_def Let_def)
    have t: "t \<notin> set (wr_admitted ?out)" using False adm by simp
    then have arg: "wr_admitted_arg ?out ! t = None" using ok assms by (simp add: walk_out_ok_def Let_def)
    have l: "length (wr_admitted_by ?out) = length entries" "length (wr_admitted_arg ?out) = length entries"
      using ok by (simp_all add: walk_out_ok_def Let_def)
    have "walk_out_ok entries (rw_out ?st)"
    proof (rule out_admit [OF ok assms(1) t])
      show "admitted_how (rw_out ?st) (set (wr_admitted ?out)) t"
        using arg l a assms by (simp add: st admitted_how_def)
      show "(p, e, u) \<in> set (wr_edges ?out) \<or> (p \<in> set (wr_admitted ?out) \<and> u = t \<and> e < length (e_deps (entries ! p)))"
        if "(p, e, u) \<in> set (wr_edges (rw_out ?st))" for p e u using that a assms by (auto simp: st)
    qed (use l in \<open>auto simp: st\<close>)
    moreover have "set (wr_admitted (rw_out ?st)) = {i. i < length entries \<and> rw_discovered ?st ! i}"
      using adm assms len by (auto simp: st nth_list_update)
    moreover have "set (rw_stack ?st) \<subseteq> set (wr_admitted (rw_out ?st)) \<and>
        fst ` set (rw_disjunctive ?st) \<subseteq> set (wr_admitted (rw_out ?st)) \<and> length (rw_discovered ?st) = length entries"
      using a unfolding replay_ok_def by (simp add: st) blast
    ultimately have "replay_ok entries ?st" unfolding replay_ok_def by blast
    moreover have "undiscovered ?st < undiscovered st"
      by (rule undiscovered_less [of t]) (use False assms len in \<open>simp_all add: st\<close>)
    then have "replay_grows st ?st" by (auto simp: replay_grows_def st)
    ultimately show ?thesis ..
  qed
qed

lemma seed_entry_part:
  assumes "i < length entries"
  shows "replay_part entries {} (seed_entry pre ai s i)"
  unfolding replay_part_def
proof (intro allI impI)
  fix st assume "replay_ok entries st \<and> {} \<subseteq> set (wr_admitted (rw_out st))"
  then have a: "replay_ok entries st" ..
  let ?out = "rw_out st"
  have ok: "walk_out_ok entries ?out" and adm: "set (wr_admitted ?out) = {i. i < length entries \<and> rw_discovered st ! i}"
    and len: "length (rw_discovered st) = length entries" using a by (simp_all add: replay_ok_def)
  let ?st = "seed_entry pre ai s i st"
  show "replay_ok entries ?st \<and> replay_grows st ?st"
  proof (cases "dp_installed pre ! i \<or> \<not> edge_matches pre s i \<or> rw_discovered st ! i")
    case False
    have st: "?st = st\<lparr> rw_discovered := (rw_discovered st)[i := True], rw_stack := i # rw_stack st,
        rw_out := ?out\<lparr> wr_admitted := wr_admitted ?out @ [i], wr_admitted_arg := (wr_admitted_arg ?out)[i := Some ai] \<rparr> \<rparr>"
      using False by (simp add: seed_entry_def)
    have t: "i \<notin> set (wr_admitted ?out)" using False adm by simp
    then have by_none: "wr_admitted_by ?out ! i = None" using ok assms by (simp add: walk_out_ok_def Let_def)
    have l: "length (wr_admitted_by ?out) = length entries" "length (wr_admitted_arg ?out) = length entries"
      using ok by (simp_all add: walk_out_ok_def Let_def)
    have "walk_out_ok entries (rw_out ?st)"
    proof (rule out_admit [OF ok assms t])
      show "admitted_how (rw_out ?st) (set (wr_admitted ?out)) i"
        using by_none l assms by (simp add: st admitted_how_def)
    qed (use l in \<open>auto simp: st\<close>)
    moreover have "set (wr_admitted (rw_out ?st)) = {i. i < length entries \<and> rw_discovered ?st ! i}"
      using adm assms len by (auto simp: st nth_list_update)
    moreover have "set (rw_stack ?st) \<subseteq> set (wr_admitted (rw_out ?st)) \<and>
        fst ` set (rw_disjunctive ?st) \<subseteq> set (wr_admitted (rw_out ?st)) \<and> length (rw_discovered ?st) = length entries"
      using a unfolding replay_ok_def by (simp add: st) blast
    ultimately have "replay_ok entries ?st" unfolding replay_ok_def by blast
    moreover have "undiscovered ?st < undiscovered st"
      by (rule undiscovered_less [of i]) (use False assms len in \<open>simp_all add: st\<close>)
    then have "replay_grows st ?st" by (auto simp: replay_grows_def st)
    ultimately show ?thesis ..
  qed (use a in \<open>simp add: seed_entry_def\<close>)
qed

lemma seed_atom_part: "replay_part entries {} (seed_atom (digraph_prelude_of v entries) arg)"
proof -
  obtain ai s where arg: "arg = (ai, s)" by (cases arg)
  have f: "replay_part entries {} (fold (seed_entry (digraph_prelude_of v entries) ai s) idxs)"
    if "dp_cp_indices (digraph_prelude_of v entries) cp = Some idxs" for idxs cp
    by (rule replay_part_fold, rule seed_entry_part) (use cp_indices_bound [OF that] in auto)
  show ?thesis
    using f by (auto simp: replay_part_def seed_atom_def arg split: option.split)
qed

lemma replay_start_ok: "replay_ok entries (replay_start (length entries) needed)"
  by (auto simp: replay_ok_def replay_start_def walk_out_ok_def)

section \<open>One key\<close>

lemma admitted_how_update [simp]:
  "admitted_how (out\<lparr> wr_flip_origin := x, wr_needed := m \<rparr>) s i = admitted_how out s i"
  "admitted_how (out\<lparr> wr_flip_origin := x, wr_failure := f \<rparr>) s i = admitted_how out s i"
  by (simp_all add: admitted_how_def split: option.split)

lemma walk_out_ok_needed [simp]:
  "walk_out_ok entries (out\<lparr> wr_flip_origin := x, wr_needed := m \<rparr>) = walk_out_ok entries out"
  by (simp add: walk_out_ok_def Let_def)

lemma walk_out_ok_failure:
  assumes "walk_out_ok entries out" "rf_parent f \<in> set (wr_admitted out)"
    "rf_edge f < length (e_deps (entries ! rf_parent f))"
  shows "walk_out_ok entries (out\<lparr> wr_flip_origin := x, wr_failure := Some f \<rparr>)"
  using assms by (auto simp: walk_out_ok_def Let_def)

lemma settle_use_targets:
  "settle_use env needed i ei deps t acc = Inr acc' \<Longrightarrow> ka_targets acc' = ka_targets acc"
  "settle_use env needed i ei deps t acc = Inl (f, origin) \<Longrightarrow> rf_parent f = i \<and> rf_edge f = ei"
  by (auto simp: settle_use_def Let_def split: option.splits if_splits)

lemma settle_edge_targets:
  fixes v entries
  assumes env: "env = replay_env_of v entries flips use_of"
  shows "settle_edge env needed i ei acc = Inr acc' \<Longrightarrow>
      set (ka_targets acc') \<subseteq> set (ka_targets acc) \<union> {..<length entries} \<times> {ei}"
    and "settle_edge env needed i ei acc = Inl (f, origin) \<Longrightarrow> rf_parent f = i \<and> rf_edge f = ei"
proof -
  have n: "set (replay_indices env edge) \<subseteq> {..<length entries}" for edge
    using cp_indices_bound [of v entries "(edge_category edge, edge_package edge)"]
    by (cases "dp_cp_indices (digraph_prelude_of v entries) (edge_category edge, edge_package edge)")
      (simp_all add: replay_indices_def env replay_env_of_def Let_def)
  have t: "t < length entries" if "replay_pick env edge deps = Some t" for edge deps t
    using that by (auto simp: replay_pick_def Let_def dest!: rank_best_in split: if_splits dest: n [THEN subsetD])
  show "set (ka_targets acc') \<subseteq> set (ka_targets acc) \<union> {..<length entries} \<times> {ei}"
    if "settle_edge env needed i ei acc = Inr acc'"
    using that by (auto simp: settle_edge_def Let_def dest!: t split: option.splits if_splits sum.splits
        dest: settle_use_targets(1))
  show "rf_parent f = i \<and> rf_edge f = ei" if "settle_edge env needed i ei acc = Inl (f, origin)"
    using that by (auto simp: settle_edge_def Let_def split: option.splits if_splits sum.splits
        dest: settle_use_targets(2))
qed

lemma settle_edges_targets:
  assumes env: "env = replay_env_of v entries flips use_of"
  shows "(\<forall>acc'. settle_edges env needed i eis acc = Inr acc' \<longrightarrow>
        set (ka_targets acc') \<subseteq> set (ka_targets acc) \<union> {..<length entries} \<times> set eis) \<and>
      (\<forall>f origin. settle_edges env needed i eis acc = Inl (f, origin) \<longrightarrow> rf_parent f = i \<and> rf_edge f \<in> set eis)"
proof (induction eis arbitrary: acc)
  case (Cons ei eis)
  show ?case
  proof (cases "settle_edge env needed i ei acc")
    case (Inl x)
    then show ?thesis using settle_edge_targets(2) [OF env] by (cases x) auto
  next
    case (Inr acc1)
    then show ?thesis using Cons.IH [of acc1] settle_edge_targets(1) [OF env Inr] by fastforce
  qed
qed simp

lemma replay_order_bound: "ei \<in> set (replay_order env i d k) \<Longrightarrow> ei < length (e_deps (re_entries env ! i))"
  by (auto simp: replay_order_def in_set_enumerate_eq)

lemma replay_key_part:
  assumes env: "env = replay_env_of v entries flips use_of"
  shows "replay_part entries {i} (replay_key env i d k)"
  unfolding replay_part_def
proof (intro allI impI)
  fix st assume a: "replay_ok entries st \<and> {i} \<subseteq> set (wr_admitted (rw_out st))"
  have es: "re_entries env = entries" by (simp add: env replay_env_of_def Let_def)
  let ?r = "settle_edges env (wr_needed (rw_out st)) i (replay_order env i d k)
      \<lparr> ka_targets = [], ka_flips = [], ka_origin = wr_flip_origin (rw_out st) \<rparr>"
  note s = settle_edges_targets [OF env, of "wr_needed (rw_out st)" i "replay_order env i d k"
      "\<lparr> ka_targets = [], ka_flips = [], ka_origin = wr_flip_origin (rw_out st) \<rparr>"]
  show "replay_ok entries (replay_key env i d k st) \<and> replay_grows st (replay_key env i d k st)"
  proof (cases ?r)
    case (Inl x)
    obtain f origin where x: "x = (f, origin)" by (cases x)
    have "rf_parent f = i" "rf_edge f < length (e_deps (entries ! i))"
      using s Inl x replay_order_bound [of "rf_edge f" env i d k] es by auto
    then have "walk_out_ok entries ((rw_out st)\<lparr> wr_flip_origin := origin, wr_failure := Some f \<rparr>)"
      using a by (intro walk_out_ok_failure) (auto simp: replay_ok_def)
    then show ?thesis using a Inl x
      by (auto simp: replay_key_def replay_ok_def replay_grows_def undiscovered_def)
  next
    case (Inr acc)
    let ?st = "st\<lparr> rw_out := (rw_out st)\<lparr> wr_flip_origin := ka_origin acc,
        wr_needed := fold need_flips (ka_flips acc) (wr_needed (rw_out st)) \<rparr> \<rparr>"
    have st: "replay_ok entries ?st" "replay_grows st ?st" "{i} \<subseteq> set (wr_admitted (rw_out ?st))"
      using a by (auto simp: replay_ok_def replay_grows_def undiscovered_def)
    have "replay_part entries {i} (fold (admit_target i) (ka_targets acc))"
    proof (rule replay_part_fold)
      fix x assume "x \<in> set (ka_targets acc)"
      then have "x \<in> {..<length entries} \<times> set (replay_order env i d k)" using s Inr by auto
      then show "replay_part entries {i} (admit_target i x)"
        using replay_order_bound es by (cases x) (auto intro!: admit_part)
    qed
    from replay_partD [OF this st(1,3)] show ?thesis
      using Inr replay_grows_trans [OF st(2)] by (simp add: replay_key_def)
  qed
qed

section \<open>The walk ends\<close>

definition replay_rel :: "(replay_walk_state \<times> replay_walk_state) set" where
  "replay_rel = inv_image (less_than <*lex*> less_than <*lex*> less_than)
     (\<lambda>st. (undiscovered st, length (rw_stack st), length (rw_disjunctive st)))"

lemma wf_replay_rel: "wf replay_rel"
  unfolding replay_rel_def by (intro wf_inv_image wf_lex_prod wf_less_than)

lemma replay_step_ok:
  assumes env: "env = replay_env_of v entries flips use_of"
    and ok: "replay_ok entries st" "replay_running st"
  shows "replay_ok entries (replay_step env st) \<and> (replay_step env st, st) \<in> replay_rel"
proof (cases "rw_stack st")
  case (Cons i stack)
  define keys where "keys d = remdups_adj (map edge_key (filter (\<lambda>e. edge_disjunctive e = d)
      (e_deps (re_entries env ! i))))" for d
  define st1 where "st1 = st\<lparr> rw_stack := stack, rw_disjunctive := rev (map (Pair i) (keys True)) @ rw_disjunctive st \<rparr>"
  have st: "replay_step env st = replay_keys env i (keys False) st1"
    using Cons by (simp add: replay_step_def keys_def st1_def Let_def)
  have s1: "replay_ok entries st1" "{i} \<subseteq> set (wr_admitted (rw_out st1))"
    using ok Cons by (auto simp: st1_def replay_ok_def)
  have u: "undiscovered st1 = undiscovered st" "rw_stack st1 = stack" by (simp_all add: st1_def undiscovered_def)
  have "replay_part entries {i} (replay_keys env i (keys False))"
    unfolding replay_keys_def
    by (rule replay_part_fold) (use replay_key_part [OF env] in \<open>auto simp: replay_part_def\<close>)
  from replay_partD [OF this s1] show ?thesis
    using u Cons by (auto simp: st replay_rel_def replay_grows_def)
next
  case Nil
  then obtain i k rest where d: "rw_disjunctive st = (i, k) # rest"
    using ok(2) by (cases "rw_disjunctive st") (auto simp: replay_running_def)
  define st1 where "st1 = st\<lparr> rw_disjunctive := rest \<rparr>"
  have st: "replay_step env st = replay_key env i True k st1"
    using Nil d by (simp add: replay_step_def st1_def)
  have s1: "replay_ok entries st1" "{i} \<subseteq> set (wr_admitted (rw_out st1))"
    using ok d by (auto simp: st1_def replay_ok_def)
  have u: "undiscovered st1 = undiscovered st" "rw_stack st1 = []" "rw_disjunctive st1 = rest"
    using Nil by (simp_all add: st1_def undiscovered_def)
  from replay_partD [OF replay_key_part [OF env] s1, of True k] show ?thesis
    using u d Nil by (auto simp: st replay_rel_def replay_grows_def)
qed

lemma replay_total:
  obtains out where "replay_create_graph v entries atoms flips needed use_of = Some out" "walk_out_ok entries out"
proof -
  define env where env: "env = replay_env_of v entries flips use_of"
  let ?start = "fold (seed_atom (re_pre env)) (enumerate 0 atoms) (replay_start (length entries) needed)"
  have "replay_part entries {} (fold (seed_atom (re_pre env)) (enumerate 0 atoms))"
    by (rule replay_part_fold) (use seed_atom_part in \<open>simp add: env replay_env_of_def Let_def\<close>)
  from replay_partD [OF this replay_start_ok] have start: "replay_ok entries ?start" by simp
  have "\<exists>st. while_option replay_running (replay_step env) ?start = Some st"
    by (rule wf_rel_while_option_Some [OF wf_replay_rel, where P = "replay_ok entries"])
      (use start replay_step_ok [OF env] in blast)+
  then obtain st where st: "while_option replay_running (replay_step env) ?start = Some st" ..
  have "replay_ok entries st"
    by (rule while_option_rule [OF _ st, where P = "replay_ok entries"]) (use start replay_step_ok [OF env] in blast)+
  then show thesis
    using st by (intro that [of "rw_out st"]) (simp_all add: replay_create_graph_def replay_ok_def env Let_def)
qed

section \<open>Needed changes\<close>

text \<open>A package has an entry whose USE may be changed on the flag: declared, not forced and not masked.\<close>

definition takable :: "graph_entry list \<Rightarrow> (nat \<Rightarrow> replay_use option) \<Rightarrow> string \<times> string \<Rightarrow> string \<Rightarrow> bool" where
  "takable entries use_of cp f \<longleftrightarrow>
     (\<exists>t u. (e_category (entries ! t), e_package (entries ! t)) = cp \<and> use_of t = Some u \<and>
            f \<in> ru_iuse u \<and> f \<notin> ru_fixed u)"

definition needed_ok :: "replay_env \<Rightarrow> use_needed \<Rightarrow> use_needed \<Rightarrow> bool" where
  "needed_ok env before after \<longleftrightarrow>
     (\<forall>cp f v. needed_flag before cp f = Some v \<longrightarrow> needed_flag after cp f = Some v) \<and>
     (\<forall>cp f v. needed_flag after cp f = Some v \<longrightarrow> needed_flag before cp f = Some v \<or>
        re_allow_flips env \<and> takable (re_entries env) (re_use_of env) cp f)"

lemma needed_ok_refl [simp]: "needed_ok env m m"
  by (simp add: needed_ok_def)

lemma needed_ok_trans [trans]: "needed_ok env a b \<Longrightarrow> needed_ok env b c \<Longrightarrow> needed_ok env a c"
  unfolding needed_ok_def by metis

definition flip_ok :: "replay_env \<Rightarrow> use_needed \<Rightarrow> (string \<times> string) \<times> (string \<times> bool) list \<Rightarrow> bool" where
  "flip_ok env needed flip \<longleftrightarrow>
     (\<forall>(f, on) \<in> set (snd flip). (\<forall>v. needed_flag needed (fst flip) f = Some v \<longrightarrow> v = on) \<and>
        re_allow_flips env \<and> takable (re_entries env) (re_use_of env) (fst flip) f)"

lemma scan_want_step:
  assumes "\<not> fs_contradiction (scan_want u current prior flag_names w st)"
  shows "\<not> fs_contradiction st \<and>
    (\<forall>f on. (f, on) \<in> set (fs_change (scan_want u current prior flag_names w st)) \<longrightarrow>
       (f, on) \<in> set (fs_change st) \<or> f \<in> ru_iuse u \<and> f \<notin> ru_fixed u \<and> prior f \<in> {None, Some on})"
  using assms by (cases w; cases "prior (fst w)") (auto simp: scan_want_def split: if_splits)

lemma scan_want_ok:
  assumes "\<not> fs_contradiction (fold (scan_want u current prior flag_names) wants st)"
  shows "\<not> fs_contradiction st \<and>
    (\<forall>f on. (f, on) \<in> set (fs_change (fold (scan_want u current prior flag_names) wants st)) \<longrightarrow>
       (f, on) \<in> set (fs_change st) \<or> f \<in> ru_iuse u \<and> f \<notin> ru_fixed u \<and> prior f \<in> {None, Some on})"
  using assms
proof (induction wants arbitrary: st)
  case (Cons w ws)
  let ?st = "scan_want u current prior flag_names w st"
  have *: "\<not> fs_contradiction (fold (scan_want u current prior flag_names) ws ?st)" using Cons.prems by simp
  note ih = Cons.IH [OF *]
  note step = scan_want_step [OF conjunct1 [OF ih]]
  show ?case using ih step unfolding fold_simps(2) by blast
qed simp

lemma settle_use_flips:
  assumes "settle_use env needed i ei deps t acc = Inr acc'" "\<forall>x \<in> set (ka_flips acc). flip_ok env needed x"
  shows "\<forall>x \<in> set (ka_flips acc'). flip_ok env needed x"
proof (cases "re_use_of env t")
  case (Some u)
  let ?tcp = "(e_category (re_entries env ! t), e_package (re_entries env ! t))"
  define scan where "scan = fold (scan_want u (current_use needed (ka_flips acc) ?tcp u)
      (prior_want needed (ka_flips acc) ?tcp) (map ud_flag (filter (\<lambda>d. ud_default d = None) deps)))
      (wanted_of deps) \<lparr> fs_change = [], fs_contradiction = False, fs_impossible = False \<rparr>"
  have r: "ka_flips acc' = ka_flips acc \<or>
      \<not> fs_contradiction scan \<and> re_allow_flips env \<and> ka_flips acc' = ka_flips acc @ [(?tcp, fs_change scan)]"
    using assms(1) Some by (auto simp: settle_use_def Let_def scan_def split: if_splits)
  have "flip_ok env needed (?tcp, fs_change scan)" if "\<not> fs_contradiction scan" "re_allow_flips env"
  proof -
    have "f \<in> ru_iuse u \<and> f \<notin> ru_fixed u \<and> (\<forall>v. needed_flag needed ?tcp f = Some v \<longrightarrow> v = on)"
      if "(f, on) \<in> set (fs_change scan)" for f on
    proof -
      have "f \<in> ru_iuse u \<and> f \<notin> ru_fixed u \<and> prior_want needed (ka_flips acc) ?tcp f \<in> {None, Some on}"
        using scan_want_ok [OF \<open>\<not> fs_contradiction scan\<close> [unfolded scan_def]] that
        unfolding scan_def by (simp del: insert_iff)
      then show ?thesis by (auto simp: prior_want_def split: option.splits)
    qed
    note f = this
    have "takable (re_entries env) (re_use_of env) ?tcp f" if "(f, on) \<in> set (fs_change scan)" for f on
      unfolding takable_def by (rule exI [of _ t], rule exI [of _ u]) (use f [OF that] Some in simp)
    then show ?thesis using f that(2) unfolding flip_ok_def by (simp only: fst_conv snd_conv) blast
  qed
  then show ?thesis using r assms(2) by auto
qed (use assms in \<open>simp add: settle_use_def\<close>)

lemma settle_edge_flips:
  assumes "settle_edge env needed i ei acc = Inr acc'" "\<forall>x \<in> set (ka_flips acc). flip_ok env needed x"
  shows "\<forall>x \<in> set (ka_flips acc'). flip_ok env needed x"
  using assms by (auto simp: settle_edge_def Let_def split: option.splits if_splits sum.splits dest!: settle_use_flips)

lemma settle_edges_flips:
  "settle_edges env needed i eis acc = Inr acc' \<Longrightarrow> \<forall>x \<in> set (ka_flips acc). flip_ok env needed x \<Longrightarrow>
   \<forall>x \<in> set (ka_flips acc'). flip_ok env needed x"
proof (induction eis arbitrary: acc)
  case (Cons ei eis)
  then obtain acc1 where "settle_edge env needed i ei acc = Inr acc1" by (auto split: sum.splits)
  then show ?case using Cons.IH [of acc1] Cons.prems settle_edge_flips by simp
qed simp

lemma flags_fold:
  "fmlookup (fold (\<lambda>(f, on) m. fmupd f on m) fl m) g = (case map_of (rev fl) g of None \<Rightarrow> fmlookup m g | Some v \<Rightarrow> Some v)"
  by (induction fl arbitrary: m) (auto simp: map_add_def split: option.splits)

lemma need_flips_flag:
  "needed_flag (need_flips (cp, fl) needed) c g =
     (if c = cp then case map_of (rev fl) g of None \<Rightarrow> needed_flag needed c g | Some v \<Rightarrow> Some v
      else needed_flag needed c g)"
  by (auto simp: needed_flag_def need_flips_def flags_fold split: option.split)

lemma need_flips_ok:
  assumes "needed_ok env before needed" "\<forall>x \<in> set flips. flip_ok env before x"
  shows "needed_ok env before (fold need_flips flips needed)"
  using assms
proof (induction flips arbitrary: needed)
  case (Cons x flips)
  obtain cp fl where x: "x = (cp, fl)" by (cases x)
  have f: "flip_ok env before (cp, fl)" using Cons.prems x by simp
  have "needed_ok env before (need_flips (cp, fl) needed)"
    using Cons.prems(1) f unfolding needed_ok_def flip_ok_def
    by (fastforce simp: need_flips_flag split: if_splits option.splits dest!: map_of_SomeD)
  then show ?case using Cons x by simp
qed simp

lemma admit_needed: "wr_needed (rw_out (fold (admit_target i) ts st)) = wr_needed (rw_out st)"
  by (induction ts arbitrary: st) (auto simp: admit_target_def Let_def)

lemma replay_key_needed: "needed_ok env (wr_needed (rw_out st)) (wr_needed (rw_out (replay_key env i d k st)))"
proof (cases "settle_edges env (wr_needed (rw_out st)) i (replay_order env i d k)
             \<lparr> ka_targets = [], ka_flips = [], ka_origin = wr_flip_origin (rw_out st) \<rparr>")
  case (Inl x)
  then show ?thesis by (cases x) (simp add: replay_key_def)
next
  case (Inr acc)
  then show ?thesis using need_flips_ok [OF needed_ok_refl settle_edges_flips [OF Inr]]
    by (simp add: replay_key_def admit_needed)
qed

lemma replay_keys_needed: "needed_ok env (wr_needed (rw_out st)) (wr_needed (rw_out (replay_keys env i keys st)))"
  unfolding replay_keys_def
proof (induction keys arbitrary: st)
  case (Cons k keys)
  have "needed_ok env (wr_needed (rw_out st)) (wr_needed (rw_out (replay_key env i False k st)))"
    by (rule replay_key_needed)
  also note Cons.IH [of "replay_key env i False k st"]
  finally show ?case using Cons.IH [of st] by simp
qed simp

lemma replay_step_needed: "needed_ok env (wr_needed (rw_out st)) (wr_needed (rw_out (replay_step env st)))"
proof (cases "rw_stack st")
  case (Cons i stack)
  have "needed_ok env (wr_needed (rw_out st))
      (wr_needed (rw_out (replay_keys env i keys (st\<lparr> rw_stack := stack, rw_disjunctive := d \<rparr>))))" for keys d
    using replay_keys_needed [of env "st\<lparr> rw_stack := stack, rw_disjunctive := d \<rparr>"] by simp
  then show ?thesis using Cons by (simp add: replay_step_def Let_def)
next
  case Nil
  have "needed_ok env (wr_needed (rw_out st))
      (wr_needed (rw_out (replay_key env i True k (st\<lparr> rw_disjunctive := d \<rparr>))))" for i k d
    using replay_key_needed [of env "st\<lparr> rw_disjunctive := d \<rparr>"] by simp
  then show ?thesis using Nil by (auto simp: replay_step_def split: list.split)
qed

lemma seed_needed: "wr_needed (rw_out (fold (seed_atom pre) atoms st)) = wr_needed (rw_out st)"
proof -
  have "wr_needed (rw_out (fold (seed_entry pre ai s) idxs st)) = wr_needed (rw_out st)" for ai s idxs st
    by (induction idxs arbitrary: st) (auto simp: seed_entry_def)
  then have "wr_needed (rw_out (seed_atom pre x st)) = wr_needed (rw_out st)" for x st
    by (simp add: seed_atom_def split: prod.split option.split)
  then show ?thesis by (induction atoms arbitrary: st) simp_all
qed

lemma replay_needed_ok:
  assumes "replay_create_graph v entries atoms flips needed use_of = Some out"
  shows "needed_ok (replay_env_of v entries flips use_of) needed (wr_needed out)"
proof -
  let ?env = "replay_env_of v entries flips use_of"
  from assms obtain st where st: "out = rw_out st"
    "while_option replay_running (replay_step ?env) (fold (seed_atom (re_pre ?env)) (enumerate 0 atoms)
       (replay_start (length entries) needed)) = Some st"
    by (auto simp: replay_create_graph_def Let_def)
  show ?thesis unfolding st(1)
    by (rule while_option_rule [OF _ st(2), where P = "\<lambda>st. needed_ok ?env needed (wr_needed (rw_out st))"])
      (use replay_step_needed needed_ok_trans in \<open>auto simp: seed_needed replay_start_def\<close>)
qed

text \<open>
  C15: the replayed walk ends on every graph. A USE change that is needed before the walk is needed after
  it with the same value: a dependency that wants the flag the other way fails the walk. What is new is on
  a declared flag that is neither forced nor masked, and only when the walk may change USE.
\<close>

theorem replay_needed_kept:
  "\<exists>out. replay_create_graph v entries atoms flips needed use_of = Some out \<and>
     (\<forall>cp f on. needed_flag needed cp f = Some on \<longrightarrow> needed_flag (wr_needed out) cp f = Some on) \<and>
     (\<forall>cp f on. needed_flag (wr_needed out) cp f = Some on \<longrightarrow>
        needed_flag needed cp f = Some on \<or> flips \<and> takable entries use_of cp f)"
proof -
  obtain out where r: "replay_create_graph v entries atoms flips needed use_of = Some out"
    using replay_total by blast
  show ?thesis
    using r replay_needed_ok [OF r] by (simp add: needed_ok_def replay_env_of_def Let_def)
qed

section \<open>An example\<close>

text \<open>A package with a dependency that no entry satisfies.\<close>

definition example_dep :: "string \<Rightarrow> string \<Rightarrow> dep_edge" where
  "example_dep c p =
     \<lparr> edge_atom = c @ ''/'' @ p, edge_evaluated = c @ ''/'' @ p, edge_category = c, edge_package = p,
       edge_priority = default_priority, edge_disjunctive = False, edge_alt = None, edge_key = 0 \<rparr>"

definition example_graph :: "graph_entry list" where
  "example_graph =
     [(synthetic_installed_entry ''a'' ''b'' ''1'' [example_dep ''c'' ''d''])
        \<lparr> e_outcome := New ''1'', e_slot := Some ''0'', e_sub_slot := Some ''0'', e_repo_name := Some ''g'' \<rparr>,
      (synthetic_installed_entry ''c'' ''d'' ''1'' [])
        \<lparr> e_outcome := NoVisibleCandidate, e_required_by := [(''a'', ''b'')] \<rparr>]"

definition empty_vdb :: vdb_view where
  "empty_vdb =
     \<lparr> vdb_installed = [], vdb_aux = (\<lambda>_ _ _ _. []), vdb_live = (\<lambda>_ _ _. False), vdb_versions = (\<lambda>_ _. []) \<rparr>"

lemma example_replay:
  "\<exists>r. replay_create_graph empty_vdb example_graph [''a/b''] False fmempty (\<lambda>_. None) = Some r \<and>
     wr_failure r = Some \<lparr> rf_parent = 0, rf_edge = 0, rf_contradiction = False \<rparr>"
proof -
  have "map_option (\<lambda>r. (wr_admitted r, wr_failure r))
     (replay_create_graph empty_vdb example_graph [''a/b''] False fmempty (\<lambda>_. None)) =
   Some ([0], Some \<lparr> rf_parent = 0, rf_edge = 0, rf_contradiction = False \<rparr>)" by code_simp
  then show ?thesis by auto
qed

text \<open>A dependency on a flag that its target has disabled.\<close>

definition flip_graph :: "graph_entry list" where
  "flip_graph =
     [(synthetic_installed_entry ''a'' ''b'' ''1''
         [(example_dep ''c'' ''d'')\<lparr> edge_atom := ''c/d[x]'', edge_evaluated := ''c/d[x]'' \<rparr>])
        \<lparr> e_outcome := New ''1'', e_slot := Some ''0'', e_sub_slot := Some ''0'', e_repo_name := Some ''g'' \<rparr>,
      (synthetic_installed_entry ''c'' ''d'' ''1'' [])
        \<lparr> e_outcome := New ''1'', e_slot := Some ''0'', e_sub_slot := Some ''0'', e_repo_name := Some ''g'' \<rparr>]"

definition flip_use :: "nat \<Rightarrow> replay_use option" where
  "flip_use i = (if i = 1 then Some \<lparr> ru_iuse = {''x'', ''y''}, ru_enabled = {''y''}, ru_fixed = {} \<rparr> else None)"

definition flip_needed :: "bool \<Rightarrow> use_needed" where
  "flip_needed on = fmupd (''c'', ''d'') (fmupd ''x'' on (fmupd ''y'' False fmempty)) fmempty"

lemma flip_replay:
  "map_option (\<lambda>r. (wr_failure r, needed_flag (wr_needed r) (''c'', ''d'') ''x''))
     (replay_create_graph empty_vdb flip_graph [''a/b''] True fmempty flip_use) = Some (None, Some True)"
  by code_simp

lemma flip_contradiction:
  "map_option wr_failure (replay_create_graph empty_vdb flip_graph [''a/b''] True (flip_needed False) flip_use) =
     Some (Some \<lparr> rf_parent = 0, rf_edge = 0, rf_contradiction = True \<rparr>)"
  by code_simp

lemma replay_needed_kept_witness:
  "\<exists>out. replay_create_graph empty_vdb flip_graph [''a/b''] True (flip_needed False) flip_use = Some out \<and>
     wr_failure out = Some \<lparr> rf_parent = 0, rf_edge = 0, rf_contradiction = True \<rparr> \<and>
     needed_flag (wr_needed out) (''c'', ''d'') ''x'' = Some False \<and>
     needed_flag (wr_needed out) (''c'', ''d'') ''y'' = Some False"
proof -
  obtain out where r: "replay_create_graph empty_vdb flip_graph [''a/b''] True (flip_needed False) flip_use = Some out"
    and kept: "\<And>cp f on. needed_flag (flip_needed False) cp f = Some on \<Longrightarrow> needed_flag (wr_needed out) cp f = Some on"
    using replay_needed_kept [of empty_vdb flip_graph "[''a/b'']" True "flip_needed False" flip_use] by blast
  have "needed_flag (flip_needed False) (''c'', ''d'') ''x'' = Some False"
    "needed_flag (flip_needed False) (''c'', ''d'') ''y'' = Some False"
    by (simp_all add: flip_needed_def needed_flag_def)
  with r kept flip_contradiction show ?thesis by simp
qed

end
