(* ===== verification/Candidates.thy ===== *)
theory Candidates
  imports Vdb "HOL-Library.Finite_Map"
begin

text \<open>
  Ebuild candidates (\<open>candidates.rs\<close>): the record, the string an atom is matched against, and the
  functions that take \<open>package-version\<close> and \<open>category/package-version\<close> apart (\<open>split_pf\<close>,
  \<open>split_cpv\<close> of \<open>resolve/cycles.rs\<close>).
\<close>

section \<open>Data\<close>

record repo_candidate =
  rc_version :: string
  rc_keywords :: "string list"
  rc_slot :: string
  rc_sub_slot :: string
  rc_repo_location :: string
  rc_repo_priority :: int
  rc_repo_name :: string
  rc_license :: string
  rc_iuse :: string
  rc_properties :: string
  rc_restrict :: string
  rc_source :: candidate_source
  rc_binary_use :: "string fset option"
  rc_remote :: bool
  rc_build_id :: "string option"
  rc_build_time :: "int option"
  rc_eapi :: string
  rc_binary_deps :: "(string, string) fmap"
  rc_user_patches :: string

definition match_str :: "repo_candidate \<Rightarrow> string \<Rightarrow> string \<Rightarrow> string" where
  "match_str c category package =
     category @ ''/'' @ package @ ''-'' @ rc_version c @ '':'' @ rc_slot c @ ''/'' @ rc_sub_slot c
     @ ''::'' @ rc_repo_name c"

section \<open>Taking names apart\<close>

definition strip_version_prefix :: "string \<Rightarrow> string \<Rightarrow> string option" where
  "strip_version_prefix dir_name package =
     Option.bind (strip_prefix dir_name package) (\<lambda>r.
     Option.bind (strip_prefix r ''-'') (\<lambda>rest.
       if rest \<noteq> [] \<and> is_digit (hd rest) then Some rest else None))"

text \<open>The loop over \<open>1..words.len()\<close> that both splitters run, from the longest right half on.\<close>

definition version_boundary :: "string list \<Rightarrow> (string \<times> string) option" where
  "version_boundary words =
     map_option (\<lambda>i. (join ''-'' (take i words), join ''-'' (drop i words)))
       (find (\<lambda>i. ververify (join ''-'' (drop i words))) [1..<length words])"

definition split_pf :: "string \<Rightarrow> (string \<times> string) option" where
  "split_pf pf = version_boundary (split_char CHR ''-'' pf)"

definition split_once :: "char \<Rightarrow> string \<Rightarrow> (string \<times> string) option" where
  "split_once c s =
     (case dropWhile (\<lambda>x. x \<noteq> c) s of
        [] \<Rightarrow> None
      | _ # r \<Rightarrow> Some (takeWhile (\<lambda>x. x \<noteq> c) s, r))"

definition split_cpv :: "string \<Rightarrow> (string \<times> string \<times> string) option" where
  "split_cpv cpv =
     Option.bind (split_once CHR ''/'' cpv) (\<lambda>(cat, rest).
       map_option (\<lambda>(pkg, version). (cat, pkg, version)) (version_boundary (split_char CHR ''-'' rest)))"

section \<open>Versions of candidates\<close>

text \<open>
  Incomparable versions count as equal; so do here versions with a component too long for \<open>vercmp\<close>, which
  panics on them.
\<close>

definition vercmp_ordering :: "string \<Rightarrow> string \<Rightarrow> ordering" where
  "vercmp_ordering a b =
     (case vercmp a b of
        Return (Some n) \<Rightarrow> if n > 0 then Greater else if n < 0 then Less else Equal
      | _ \<Rightarrow> Equal)"

text \<open>\<open>Iterator::max_by_key\<close>: of several maxima the last one.\<close>

fun max_by_key :: "('a \<Rightarrow> 'k::linorder) \<Rightarrow> 'a list \<Rightarrow> 'a option" where
  "max_by_key f [] = None"
| "max_by_key f (x # xs) =
     (case max_by_key f xs of None \<Rightarrow> Some x | Some y \<Rightarrow> Some (if f x \<le> f y then y else x))"

section \<open>A version has one left boundary\<close>

lemma digits_no_dash: "all_digits s \<Longrightarrow> CHR ''-'' \<notin> set s"
  by (auto simp: all_digits_iff)

lemma number_no_dash: "number s \<Longrightarrow> CHR ''-'' \<notin> set s"
  by (simp add: number_def digits_no_dash)

lemma suffix_chunk_no_dash: "suffix_chunk s \<Longrightarrow> CHR ''-'' \<notin> set s"
  by (auto simp: suffix_chunk_def suffix_names_def digits_no_dash)

text \<open>A version has no dash but that of its revision, and begins with a digit.\<close>

lemma version_dash:
  assumes "ververify (x @ ''-'' @ v)"
  shows "\<exists>r. v = CHR ''r'' # r"
proof -
  obtain c where "ver_captures (x @ ''-'' @ v) = Some c" using assms by (auto simp: ververify_def)
  then have c: "ver_shape (x @ ''-'' @ v) c" by (rule ver_captures_sound)
  let ?b = "vc_main c @ vc_dotted c @ vc_letter c @ vc_suffix c"
  have s: "x @ ''-'' @ v = ?b @ rev_string (vc_rev c)" using c by (simp add: ver_shape_def)
  have "CHR ''-'' \<notin> set (vc_main c)" using c number_no_dash by (simp add: ver_shape_def)
  moreover have "CHR ''-'' \<notin> set (vc_dotted c)"
  proof -
    obtain xs where "vc_dotted c = concat (map ((#) CHR ''.'') xs)" "\<forall>x \<in> set xs. number x"
      using c by (auto simp: ver_shape_def dotted_shape_def)
    then show ?thesis using number_no_dash by auto
  qed
  moreover have "CHR ''-'' \<notin> set (vc_letter c)"
  proof -
    have "vc_letter c = [] \<or> (\<exists>l. vc_letter c = [l] \<and> is_lower l)" using c by (simp add: ver_shape_def)
    moreover have "\<not> is_lower CHR ''-''" by code_simp
    ultimately show ?thesis by auto
  qed
  moreover have "CHR ''-'' \<notin> set (vc_suffix c)"
  proof -
    obtain xs where "vc_suffix c = concat (map ((#) CHR ''_'') xs)" "\<forall>x \<in> set xs. suffix_chunk x"
      using c by (auto simp: ver_shape_def suffix_shape_def)
    then show ?thesis using suffix_chunk_no_dash by auto
  qed
  ultimately have nb: "CHR ''-'' \<notin> set ?b" by simp
  have "CHR ''-'' \<in> set (x @ ''-'' @ v)" by simp
  then obtain r where r: "vc_rev c = Some r"
    unfolding s using nb by (cases "vc_rev c") (auto simp: rev_string_def)
  then have n: "CHR ''-'' \<notin> set r" using c number_no_dash by (simp add: ver_shape_def)
  have "x @ CHR ''-'' # v = ?b @ CHR ''-'' # (CHR ''r'' # r)" using s r by (simp add: rev_string_def)
  moreover have "CHR ''-'' \<notin> set (CHR ''r'' # r)" using n by simp
  ultimately show ?thesis
    using append_Cons_eq_iff [OF nb, of "CHR ''r'' # r" x v] by auto
qed

lemma version_digit: "ververify v \<Longrightarrow> v \<noteq> [] \<and> is_digit (hd v)"
  by (auto simp: ververify_def dest!: ver_captures_sound)
    (auto simp: ver_shape_def number_def all_digits_iff)

lemma boundary_unique: "ververify v \<Longrightarrow> \<not> ververify (x @ ''-'' @ v)"
proof
  assume v: "ververify v" and "ververify (x @ ''-'' @ v)"
  then obtain r where "v = CHR ''r'' # r" using version_dash by blast
  then show False using version_digit [OF v] by (simp add: is_digit_def char_code_def)
qed

section \<open>Splitting\<close>

lemma join_split_char [simp]: "join [c] (split_char c s) = s"
proof (induction c s rule: split_char.induct)
  case (2 c d s)
  obtain a l where "split_char c s = a # l" using split_char_nonempty [of c s] by (cases "split_char c s") auto
  then show ?case using 2 by (cases l) auto
qed simp

lemma join_append: "xs \<noteq> [] \<Longrightarrow> ys \<noteq> [] \<Longrightarrow> join d (xs @ ys) = join d xs @ d @ join d ys"
  by (induction d xs rule: join.induct) (auto simp: neq_Nil_conv)

lemma split_char_app: "split_char c (a @ c # b) = split_char c a @ split_char c b"
proof (induction c a rule: split_char.induct)
  case (2 c d s)
  then show ?case by (cases "split_char c s") auto
qed simp

lemma version_boundary_iff:
  "version_boundary (split_char CHR ''-'' s) = Some (p, v) \<longleftrightarrow> s = p @ ''-'' @ v \<and> ververify v"
proof
  let ?ws = "split_char CHR ''-'' s"
  assume "version_boundary ?ws = Some (p, v)"
  then obtain i where i: "find (\<lambda>i. ververify (join ''-'' (drop i ?ws))) [1..<length ?ws] = Some i"
      "p = join ''-'' (take i ?ws)" "v = join ''-'' (drop i ?ws)"
    by (auto simp: version_boundary_def)
  then have b: "1 \<le> i" "i < length ?ws" "ververify v" by (auto simp: find_Some_iff)
  have "s = join ''-'' (take i ?ws @ drop i ?ws)" by simp
  also have "\<dots> = p @ ''-'' @ v" unfolding i(2,3) by (rule join_append) (use b in auto)
  finally show "s = p @ ''-'' @ v \<and> ververify v" using b by simp
next
  assume s: "s = p @ ''-'' @ v \<and> ververify v"
  let ?P = "split_char CHR ''-'' p"
  let ?V = "split_char CHR ''-'' v"
  let ?ws = "split_char CHR ''-'' s"
  have ws: "?ws = ?P @ ?V" using s by (simp add: split_char_app)
  have n: "1 \<le> length ?P" "length ?P < length ?ws"
    using split_char_nonempty [of "CHR ''-''" p] split_char_nonempty [of "CHR ''-''" v]
    unfolding ws by (simp_all add: Suc_le_eq)
  have at: "drop (length ?P) ?ws = ?V" "take (length ?P) ?ws = ?P" by (simp_all add: ws)
  have before: "\<not> ververify (join ''-'' (drop j ?ws))" if "j < length ?P" for j
  proof -
    have "join ''-'' (drop j ?P @ ?V) = join ''-'' (drop j ?P) @ ''-'' @ v"
      using join_append [of "drop j ?P" ?V "''-''"] that by simp
    moreover have "drop j ?ws = drop j ?P @ ?V" using that by (simp add: ws)
    ultimately show ?thesis using boundary_unique s by (metis append.assoc)
  qed
  have "find (\<lambda>i. ververify (join ''-'' (drop i ?ws))) [1..<length ?ws] = Some (length ?P)"
    unfolding find_Some_iff using n before s at
    by (intro exI [of _ "length ?P - 1"]) (auto simp: less_diff_conv)
  then show "version_boundary ?ws = Some (p, v)" by (simp add: version_boundary_def at)
qed

lemma split_once_iff: "split_once c s = Some (a, b) \<longleftrightarrow> s = a @ c # b \<and> c \<notin> set a"
proof
  assume "split_once c s = Some (a, b)"
  then obtain r where "dropWhile (\<lambda>x. x \<noteq> c) s = r # b" "a = takeWhile (\<lambda>x. x \<noteq> c) s"
    by (auto simp: split_once_def split: list.splits)
  moreover from this have "r = c" by (metis (full_types) dropWhile_eq_Cons_conv)
  ultimately show "s = a @ c # b \<and> c \<notin> set a"
    using takeWhile_dropWhile_id [of "\<lambda>x. x \<noteq> c" s] by (auto dest: set_takeWhileD)
next
  assume "s = a @ c # b \<and> c \<notin> set a"
  moreover from this have "takeWhile (\<lambda>x. x \<noteq> c) s = a" "dropWhile (\<lambda>x. x \<noteq> c) s = c # b"
    by (auto simp: takeWhile_append dropWhile_append)
  ultimately show "split_once c s = Some (a, b)" by (simp add: split_once_def)
qed

text \<open>
  C33: \<open>split_pf\<close> and \<open>split_cpv\<close> invert the printed names. They return the parts exactly for the strings
  with a version after a dash; at most one dash of a string has a version to its right, so that the
  search from the left and the last boundary of the documentation are the same.
\<close>

theorem split_cpv_iff:
  "(split_cpv s = Some (cat, pkg, version) \<longleftrightarrow>
      s = cat @ ''/'' @ pkg @ ''-'' @ version \<and> CHR ''/'' \<notin> set cat \<and> ververify version) \<and>
   (split_pf s = Some (pkg, version) \<longleftrightarrow> s = pkg @ ''-'' @ version \<and> ververify version)"
proof
  show "split_pf s = Some (pkg, version) \<longleftrightarrow> s = pkg @ ''-'' @ version \<and> ververify version"
    unfolding split_pf_def by (rule version_boundary_iff)
  have "split_cpv s = Some (cat, pkg, version) \<longleftrightarrow>
      (\<exists>rest. split_once CHR ''/'' s = Some (cat, rest) \<and>
              version_boundary (split_char CHR ''-'' rest) = Some (pkg, version))"
    by (auto simp: split_cpv_def bind_eq_Some_conv)
  then show "split_cpv s = Some (cat, pkg, version) \<longleftrightarrow>
     s = cat @ ''/'' @ pkg @ ''-'' @ version \<and> CHR ''/'' \<notin> set cat \<and> ververify version"
    by (auto simp: version_boundary_iff split_once_iff)
qed

end
