(* ===== verification/ConfigMatch.thy ===== *)
theory ConfigMatch
  imports AtomMatch "HOL-Library.Word"
begin

text \<open>
  The index over the atoms of a \<open>package.*\<close> list (\<open>config_match.rs\<close>): plain atoms are bucketed by
  \<open>cat/pkg\<close>, wildcard and unparseable entries are always looked at. The memo of built indices is a
  state with the address and the length of the list as its key.
\<close>

section \<open>Matching one entry\<close>

text \<open>
  \<open>match_from_list(..).is_some_and(|m| !m.is_empty())\<close>. The matcher panics on versions with a component that is
  too long (\<open>match_list_wanted\<close> in \<open>AtomMatch\<close>); this is read as no match.
\<close>

definition nonempty_match :: "string list option run \<Rightarrow> bool" where
  "nonempty_match r = (case r of Return (Some m) \<Rightarrow> m \<noteq> [] | _ \<Rightarrow> False)"

definition matches_config_entry_with_build_id :: "string \<Rightarrow> string \<Rightarrow> string option \<Rightarrow> bool" where
  "matches_config_entry_with_build_id entry candidate_str build_id =
     nonempty_match (match_from_list_with_build_id entry [(candidate_str, build_id)])"

definition matches_config_entry :: "string \<Rightarrow> string \<Rightarrow> bool" where
  "matches_config_entry entry candidate_str = matches_config_entry_with_build_id entry candidate_str None"

definition matches_cli_option_atom :: "string \<Rightarrow> string \<Rightarrow> bool" where
  "matches_cli_option_atom entry candidate_str =
     (if nonempty_match (match_from_list entry [candidate_str]) then True
      else if CHR ''/'' \<in> set (hd (split_char CHR '':'' entry)) then False
      else nonempty_match (match_from_list (''*/'' @ entry) [candidate_str]))"

section \<open>The index\<close>

text \<open>Positions are \<open>u32\<close>. An entry is anything that has an atom (\<open>ConfigAtomEntry\<close>).\<close>

record cp_bucket_index =
  by_cp :: "string \<Rightarrow> 32 word list option"
  other :: "32 word list"

record cached_bucket_index =
  first_atom :: string
  last_atom :: string
  cached_index :: cp_bucket_index

type_synonym bucket_cache = "nat \<times> nat \<Rightarrow> cached_bucket_index option"

definition cp_key :: "string \<Rightarrow> string \<Rightarrow> string" where
  "cp_key category package = category @ ''/'' @ package"

definition empty_index :: cp_bucket_index where
  "empty_index = \<lparr> by_cp = Map.empty, other = [] \<rparr>"

definition bucket_push :: "32 word \<Rightarrow> string \<Rightarrow> cp_bucket_index \<Rightarrow> cp_bucket_index" where
  "bucket_push i s idx =
     (case parse_atom s of
        Return (Some a) \<Rightarrow>
          let key = cp_key (a_category a) (a_package a)
          in idx\<lparr> by_cp := (by_cp idx)(key \<mapsto> (case by_cp idx key of None \<Rightarrow> [] | Some v \<Rightarrow> v) @ [i]) \<rparr>
      | _ \<Rightarrow> idx\<lparr> other := other idx @ [i] \<rparr>)"

definition build_index :: "('e \<Rightarrow> string) \<Rightarrow> 'e list \<Rightarrow> cp_bucket_index" where
  "build_index config_atom entries =
     fold (\<lambda>(i, e). bucket_push (of_nat i) (config_atom e)) (enumerate 0 entries) empty_index"

definition candidate_positions :: "cp_bucket_index \<Rightarrow> string \<Rightarrow> string \<Rightarrow> 32 word list" where
  "candidate_positions idx category package =
     sort ((case by_cp idx (cp_key category package) of Some v \<Rightarrow> v | None \<Rightarrow> []) @ other idx)"

definition cp_bucket_index_of ::
  "('e \<Rightarrow> string) \<Rightarrow> nat \<Rightarrow> 'e list \<Rightarrow> bucket_cache \<Rightarrow> cp_bucket_index \<times> bucket_cache" where
  "cp_bucket_index_of config_atom ptr entries cache =
     (if entries = [] then (empty_index, cache)
      else
        let key = (ptr, length entries);
            fst_atom = config_atom (hd entries);
            lst_atom = config_atom (last entries);
            index = build_index config_atom entries;
            fresh = (index, cache(key \<mapsto> \<lparr> first_atom = fst_atom, last_atom = lst_atom, cached_index = index \<rparr>))
        in case cache key of
             None \<Rightarrow> fresh
           | Some cached \<Rightarrow>
               if first_atom cached = fst_atom \<and> last_atom cached = lst_atom
               then (cached_index cached, cache) else fresh)"

text \<open>\<open>entries[i as usize]\<close> panics out of range: \<open>None\<close>.\<close>

definition config_entries_matching_with_build_id ::
  "('e \<Rightarrow> string) \<Rightarrow> nat \<Rightarrow> 'e list \<Rightarrow> string \<Rightarrow> string option \<Rightarrow> string \<Rightarrow> string \<Rightarrow> bucket_cache \<Rightarrow>
   'e list option \<times> bucket_cache" where
  "config_entries_matching_with_build_id config_atom ptr entries candidate_str build_id category package cache =
     (let (idx, cache') = cp_bucket_index_of config_atom ptr entries cache;
          positions = map unat (candidate_positions idx category package)
      in (if list_all (\<lambda>i. i < length entries) positions
          then Some (map (\<lambda>i. entries ! i)
                 (filter (\<lambda>i. matches_config_entry_with_build_id (config_atom (entries ! i)) candidate_str build_id)
                    positions))
          else None, cache'))"

definition config_entries_matching ::
  "('e \<Rightarrow> string) \<Rightarrow> nat \<Rightarrow> 'e list \<Rightarrow> string \<Rightarrow> string \<Rightarrow> string \<Rightarrow> bucket_cache \<Rightarrow>
   'e list option \<times> bucket_cache" where
  "config_entries_matching config_atom ptr entries candidate_str category package cache =
     config_entries_matching_with_build_id config_atom ptr entries candidate_str None category package cache"

fun any_position :: "('e \<Rightarrow> string) \<Rightarrow> 'e list \<Rightarrow> string \<Rightarrow> string option \<Rightarrow> nat list \<Rightarrow> bool option" where
  "any_position config_atom entries candidate_str build_id [] = Some False"
| "any_position config_atom entries candidate_str build_id (i # is) =
     (if i < length entries
      then if matches_config_entry_with_build_id (config_atom (entries ! i)) candidate_str build_id then Some True
           else any_position config_atom entries candidate_str build_id is
      else None)"

definition any_config_entry_matches_with_build_id ::
  "('e \<Rightarrow> string) \<Rightarrow> nat \<Rightarrow> 'e list \<Rightarrow> string \<Rightarrow> string option \<Rightarrow> string \<Rightarrow> string \<Rightarrow> bucket_cache \<Rightarrow>
   bool option \<times> bucket_cache" where
  "any_config_entry_matches_with_build_id config_atom ptr entries candidate_str build_id category package cache =
     (let (idx, cache') = cp_bucket_index_of config_atom ptr entries cache
      in (any_position config_atom entries candidate_str build_id
            (map unat (candidate_positions idx category package)), cache'))"

section \<open>The index loses no match\<close>

text \<open>
  The string is only used for the text of an error: the parts of the parser agree for two strings
  where they succeed.
\<close>

definition agree :: "('e, 'a) outcome \<Rightarrow> ('e, 'a) outcome \<Rightarrow> bool" where
  "agree r r' \<longleftrightarrow> (\<forall>x. r = Ok x \<longrightarrow> r' = Ok x)"

lemma agree_refl: "agree r r"
  by (simp add: agree_def)

lemma agree_bad: "agree (bad s) r"
  by (simp add: agree_def)

lemma agree_bind:
  "agree m m' \<Longrightarrow> (\<And>x. agree (f x) (f' x)) \<Longrightarrow> agree (out_bind m f) (out_bind m' f')"
  by (auto simp: agree_def)

lemma agree_if: "agree a a' \<Longrightarrow> agree b b' \<Longrightarrow> agree (if c then a else b) (if c then a' else b')"
  by simp

lemma agree_option:
  "agree a a' \<Longrightarrow> (\<And>x. agree (f x) (f' x)) \<Longrightarrow>
   agree (case q of None \<Rightarrow> a | Some x \<Rightarrow> f x) (case q of None \<Rightarrow> a' | Some x \<Rightarrow> f' x)"
  by (cases q) simp_all

lemma agree_pair: "(\<And>x y. agree (f x y) (f' x y)) \<Longrightarrow> agree (case p of (x, y) \<Rightarrow> f x y) (case p of (x, y) \<Rightarrow> f' x y)"
  by (cases p) simp

lemmas agree_intros = agree_bad agree_bind agree_if agree_option agree_pair agree_refl

lemma versioned_tail_agree: "agree (versioned_tail caps s b) (versioned_tail caps s' b)"
  unfolding versioned_tail_def by (intro agree_intros)

lemma name_parts_agree: "agree (atom_name_parts False caps s b) (atom_name_parts False caps s' b)"
  unfolding atom_name_parts_def if_False by (intro agree_intros versioned_tail_agree)

lemma slot_of_operator_agree: "agree (slot_of_operator s sl op) (slot_of_operator s' sl op)"
  unfolding slot_of_operator_def by (intro agree_intros)

lemma parse_slot_agree: "agree (parse_slot attrs caps s) (parse_slot attrs caps s')"
  unfolding parse_slot_def Let_def by (intro agree_intros slot_of_operator_agree)

lemma agreeD: "agree r r' \<Longrightarrow> r = Ok x \<Longrightarrow> r' = Ok x"
  by (simp add: agree_def)

lemma strip_blocker_rest:
  assumes "strip_blocker s = (b, rest)" "rest \<noteq> []" "hd rest \<noteq> CHR ''!''"
  shows "dropWhile (\<lambda>c. c = CHR ''!'') s = rest"
proof -
  have "s = blocker_text b @ rest" by (rule strip_blocker_text [OF assms(1)])
  then show ?thesis using assms(2,3) by (cases b; cases rest) auto
qed

text \<open>A plain atom is read the same by the matcher, which strips the blocker and allows wildcards.\<close>

lemma match_atom_of_plain:
  assumes "parse_atom s = Return (Some a)"
  shows "parse_match_atom s = Return (Some (a\<lparr> a_blocker := BlockNone \<rparr>)) \<and> \<not> a_extended a"
proof -
  have p: "parse_atom_with s default_options [] = Ok a" using assms by (simp add: parse_atom_Some)
  obtain b rest where b: "strip_blocker s = (b, rest)" by (cases "strip_blocker s")
  obtain attrs where attrs: "mode_attrs ENone = Ok attrs" using mode_attrs_Ok by blast
  obtain caps where caps: "rx_captures atom_regex rest = Some caps"
    using p by (auto simp: parse_atom_with_def b attrs default_options_def lift_panic_def pick_grammar_def
        split: option.splits)
  have h: "rest \<noteq> []" "hd rest \<noteq> CHR ''!''"
    using atom_regex_head caps rx_captures_iff by (metis option.distinct(1))+
  have d: "dropWhile (\<lambda>c. c = CHR ''!'') s = rest" by (rule strip_blocker_rest [OF b h])
  have b': "strip_blocker rest = (BlockNone, rest)"
    using h by (cases rest) (auto simp: strip_blocker_def strip_prefix_def starts_with_def split: option.splits)
  obtain np sl sub op uds where
    np: "atom_name_parts False caps s True = Ok np" and sl: "parse_slot attrs caps s = Ok (sl, sub, op)" and
    uds: "parse_use_part caps = Ok uds" and
    a: "a = \<lparr> a_blocker = b, a_operator = np_operator np, a_category = np_category np,
              a_package = np_package np, a_version = np_version np, a_revision = np_revision np,
              a_slot = sl, a_sub_slot = sub, a_slot_operator = op, a_use_deps = uds,
              a_repo = rx_group caps ''repo'', a_build_id = np_build_id np, a_extended = False \<rparr>"
    using p by (auto simp: parse_atom_with_def b attrs default_options_def lift_panic_def
        pick_grammar_def caps check_atom_eapi_features_def Let_def)
  have "parse_atom_with rest match_options [] = Ok (a\<lparr> a_blocker := BlockNone \<rparr>)"
    using agreeD [OF name_parts_agree np, of rest] agreeD [OF parse_slot_agree sl, of rest] uds
    by (simp add: parse_atom_with_def b' attrs default_options_def match_options_def lift_panic_def
        pick_grammar_def caps check_atom_eapi_features_def a)
  then show ?thesis by (simp add: parse_match_atom_def d out_ok_def a)
qed

text \<open>When an entry matches, in terms of the candidate.\<close>

definition entry_wants :: "string \<Rightarrow> candidate option \<Rightarrow> bool" where
  "entry_wants s co =
     (case (parse_match_atom s, co) of (Return (Some a), Some c) \<Rightarrow> \<not> candidate_overlong a c \<and> candidate_wanted a c | _ \<Rightarrow> False)"

lemma matches_entry_iff:
  "matches_config_entry_with_build_id s c bid = entry_wants s (candidate_of c bid)"
proof -
  obtain ao where ao: "parse_match_atom s = Return ao" using parse_match_atom_total by blast
  show ?thesis
  proof (cases ao)
    case None
    then show ?thesis
      by (simp add: matches_config_entry_with_build_id_def match_from_list_with_build_id_def match_pair_def ao
          entry_wants_def nonempty_match_def)
  next
    case (Some a)
    then have p: "parse_match_atom s = Return (Some a)" using ao by simp
    show ?thesis
      by (simp add: matches_config_entry_with_build_id_def match_from_list_with_build_id_def
          match_loop_wanted [OF p] entry_wants_def nonempty_match_def p string_overlong_def string_wanted_def del: match_loop.simps
          split: option.split)
  qed
qed

definition bucket_of :: "string \<Rightarrow> string option" where
  "bucket_of s = (case parse_atom s of Return (Some a) \<Rightarrow> Some (cp_key (a_category a) (a_package a)) | _ \<Rightarrow> None)"

lemma wanted_in_bucket:
  assumes "entry_wants s (Some c)"
  shows "bucket_of s = None \<or> bucket_of s = Some (cp_key (c_category c) (c_package c))"
proof (cases "\<exists>a. parse_atom s = Return (Some a)")
  case True
  then obtain a where a: "parse_atom s = Return (Some a)" by blast
  note m = match_atom_of_plain [OF a]
  have "candidate_wanted (a\<lparr> a_blocker := BlockNone \<rparr>) c" using assms m by (simp add: entry_wants_def)
  then have "a_category a = c_category c" "a_package a = c_package c"
    using m by (auto simp: candidate_wanted_def names_match_def)
  then show ?thesis by (simp add: bucket_of_def a)
next
  case False
  then show ?thesis by (simp add: bucket_of_def split: run.split option.split)
qed

text \<open>The positions of the entries with a property, in file order.\<close>

definition positions_where :: "('e \<Rightarrow> bool) \<Rightarrow> 'e list \<Rightarrow> 32 word list" where
  "positions_where Q es = map of_nat (filter (\<lambda>i. Q (es ! i)) [0..<length es])"

lemma positions_where_snoc:
  "positions_where Q (es @ [e]) = positions_where Q es @ (if Q e then [of_nat (length es)] else [])"
proof -
  have "filter (\<lambda>i. Q ((es @ [e]) ! i)) [0..<length es] = filter (\<lambda>i. Q (es ! i)) [0..<length es]"
    by (rule filter_cong) (auto simp: nth_append)
  then show ?thesis by (simp add: positions_where_def)
qed

lemma build_index_snoc:
  "build_index f (es @ [e]) = bucket_push (of_nat (length es)) (f e) (build_index f es)"
  by (simp add: build_index_def enumerate_append_eq)

lemma bucket_push_other:
  "other (bucket_push i s idx) = other idx @ (if bucket_of s = None then [i] else [])"
  by (simp add: bucket_push_def bucket_of_def Let_def split: run.split option.split)

lemma bucket_push_by_cp:
  "(case by_cp (bucket_push i s idx) key of Some v \<Rightarrow> v | None \<Rightarrow> []) =
   (case by_cp idx key of Some v \<Rightarrow> v | None \<Rightarrow> []) @ (if bucket_of s = Some key then [i] else [])"
  by (auto simp: bucket_push_def bucket_of_def Let_def split: run.split option.split)

lemma build_index_other: "other (build_index f es) = positions_where (\<lambda>e. bucket_of (f e) = None) es"
  by (induction es rule: rev_induct)
    (simp_all add: build_index_snoc positions_where_snoc bucket_push_other, simp add: build_index_def
      empty_index_def positions_where_def)

lemma build_index_by_cp:
  "(case by_cp (build_index f es) key of Some v \<Rightarrow> v | None \<Rightarrow> []) =
   positions_where (\<lambda>e. bucket_of (f e) = Some key) es"
  by (induction es rule: rev_induct)
    (simp_all add: build_index_snoc positions_where_snoc bucket_push_by_cp, simp add: build_index_def
      empty_index_def positions_where_def)

lemma sorted_positions: "length es \<le> 2 ^ 32 \<Longrightarrow> sorted (positions_where Q es) \<and> distinct (positions_where Q es)"
proof -
  assume n: "length es \<le> 2 ^ 32"
  let ?is = "filter (\<lambda>i. Q (es ! i)) [0..<length es]"
  have le: "(of_nat i :: 32 word) \<le> of_nat j" if "i \<le> j" "j < length es" for i j
    using that n by (simp add: word_le_nat_alt unat_of_nat take_bit_nat_eq_self)
  have "sorted_wrt (<) ?is" using sorted_wrt_filter [OF sorted_wrt_upt] by blast
  then have "sorted_wrt (\<lambda>i j. (of_nat i :: 32 word) \<le> of_nat j) ?is"
    by (rule sorted_wrt_mono_rel [rotated]) (auto intro: le)
  moreover have "inj_on (of_nat :: nat \<Rightarrow> 32 word) (set ?is)"
    using n by (auto intro!: inj_onI simp: word_of_nat_eq_iff take_bit_nat_eq_self)
  ultimately show ?thesis
    by (simp add: positions_where_def sorted_wrt_map distinct_map)
qed

lemma candidate_positions_build:
  assumes "length es \<le> 2 ^ 32"
  shows "candidate_positions (build_index f es) category package =
    positions_where (\<lambda>e. bucket_of (f e) = None \<or> bucket_of (f e) = Some (cp_key category package)) es"
    (is "_ = positions_where ?B es")
proof -
  let ?P = "positions_where (\<lambda>e. bucket_of (f e) = Some (cp_key category package)) es"
  let ?O = "positions_where (\<lambda>e. bucket_of (f e) = None) es"
  have c: "candidate_positions (build_index f es) category package = sort (?P @ ?O)"
    by (simp add: candidate_positions_def build_index_by_cp build_index_other)
  have inj: "inj_on (of_nat :: nat \<Rightarrow> 32 word) {0..<length es}"
    using assms by (auto intro!: inj_onI simp: word_of_nat_eq_iff take_bit_nat_eq_self)
  have "set ?P \<inter> set ?O = {}"
    using inj by (auto simp: positions_where_def inj_on_def) fastforce
  then have "distinct (sort (?P @ ?O))" using sorted_positions [OF assms] by auto
  moreover have "set (sort (?P @ ?O)) = set (positions_where ?B es)"
    by (auto simp: positions_where_def)
  ultimately show ?thesis
    unfolding c using sorted_positions [OF assms]
    by (intro sorted_distinct_set_unique) auto
qed

section \<open>The memo\<close>

text \<open>An address that still holds the list the index was built from, when the two ends agree.\<close>

definition memo_fresh :: "('e \<Rightarrow> string) \<Rightarrow> nat \<Rightarrow> 'e list \<Rightarrow> bucket_cache \<Rightarrow> bool" where
  "memo_fresh f ptr es cache \<longleftrightarrow>
     (case cache (ptr, length es) of
        None \<Rightarrow> True
      | Some m \<Rightarrow> es \<noteq> [] \<and> first_atom m = f (hd es) \<and> last_atom m = f (last es) \<longrightarrow>
                  cached_index m = build_index f es)"

lemma memo_fresh_index: "memo_fresh f ptr es cache \<Longrightarrow> fst (cp_bucket_index_of f ptr es cache) = build_index f es"
  by (auto simp: memo_fresh_def cp_bucket_index_of_def Let_def build_index_def split: option.splits)

lemma memo_fresh_after: "memo_fresh f ptr es cache \<Longrightarrow> memo_fresh f ptr es (snd (cp_bucket_index_of f ptr es cache))"
  by (auto simp: memo_fresh_def cp_bucket_index_of_def Let_def split: option.splits if_splits)

lemma unat_positions:
  "length es \<le> 2 ^ 32 \<Longrightarrow> map unat (positions_where Q es) = filter (\<lambda>i. Q (es ! i)) [0..<length es]"
  by (auto simp: positions_where_def unat_of_nat take_bit_nat_eq_self intro!: map_idI)

lemma map_nth_filter: "map ((!) es) (filter (\<lambda>i. R (es ! i)) [0..<length es]) = filter R es"
proof -
  have "filter R (map ((!) es) [0..<length es]) = map ((!) es) (filter (R \<circ> (!) es) [0..<length es])"
    by (rule filter_map)
  then show ?thesis by (simp add: map_nth comp_def)
qed

lemma entries_matching_positions:
  "fst (config_entries_matching_with_build_id f ptr es c bid category package cache) =
     (let positions = map unat (candidate_positions (fst (cp_bucket_index_of f ptr es cache)) category package)
      in if \<forall>i \<in> set positions. i < length es
         then Some (map ((!) es) (filter (\<lambda>i. matches_config_entry_with_build_id (f (es ! i)) c bid) positions))
         else None)"
  "snd (config_entries_matching_with_build_id f ptr es c bid category package cache) =
     snd (cp_bucket_index_of f ptr es cache)"
  "fst (any_config_entry_matches_with_build_id f ptr es c bid category package cache) =
     any_position f es c bid
       (map unat (candidate_positions (fst (cp_bucket_index_of f ptr es cache)) category package))"
  by (simp_all add: config_entries_matching_with_build_id_def any_config_entry_matches_with_build_id_def
      split_beta Let_def list_all_iff)

lemma any_position_list_ex:
  "\<forall>i \<in> set is. i < length es \<Longrightarrow>
   any_position f es c bid is = Some (list_ex (\<lambda>i. matches_config_entry_with_build_id (f (es ! i)) c bid) is)"
  by (induction "is") auto

lemma bucketed_filter:
  assumes "\<And>x. candidate_of c bid = Some x \<Longrightarrow> c_category x = category \<and> c_package x = package"
  shows "(bucket_of s = None \<or> bucket_of s = Some (cp_key category package)) \<and>
         matches_config_entry_with_build_id s c bid \<longleftrightarrow> matches_config_entry_with_build_id s c bid"
proof (cases "candidate_of c bid")
  case None
  then show ?thesis by (simp add: matches_entry_iff entry_wants_def split: run.split option.split)
next
  case (Some x)
  then show ?thesis using wanted_in_bucket [of s x] assms [OF Some] by (auto simp: matches_entry_iff)
qed

text \<open>
  C29: for a candidate of the package \<open>category/package\<close> the index finds, in file order, exactly the
  entries that a scan of the whole list finds, wildcard and unparseable entries included, and no
  position is out of range. The memo must not hold an index of another list under this address.
\<close>

theorem config_index_flat_scan:
  assumes "length entries \<le> 2 ^ 32" "memo_fresh config_atom ptr entries cache"
    and "\<And>x. candidate_of candidate_str build_id = Some x \<Longrightarrow> c_category x = category \<and> c_package x = package"
  shows "fst (config_entries_matching_with_build_id config_atom ptr entries candidate_str build_id category package cache) =
           Some (filter (\<lambda>e. matches_config_entry_with_build_id (config_atom e) candidate_str build_id) entries)
       \<and> fst (any_config_entry_matches_with_build_id config_atom ptr entries candidate_str build_id category package cache) =
           Some (list_ex (\<lambda>e. matches_config_entry_with_build_id (config_atom e) candidate_str build_id) entries)"
proof -
  let ?M = "\<lambda>e. matches_config_entry_with_build_id (config_atom e) candidate_str build_id"
  let ?B = "\<lambda>e. bucket_of (config_atom e) = None \<or> bucket_of (config_atom e) = Some (cp_key category package)"
  let ?ps = "filter (\<lambda>i. ?B (entries ! i)) [0..<length entries]"
  have ps: "map unat (candidate_positions (fst (cp_bucket_index_of config_atom ptr entries cache)) category package) = ?ps"
    by (simp add: memo_fresh_index [OF assms(2)] candidate_positions_build [OF assms(1)] unat_positions [OF assms(1)])
  have BM: "?B e \<and> ?M e \<longleftrightarrow> ?M e" for e by (rule bucketed_filter [OF assms(3)])
  have f: "filter (\<lambda>i. ?M (entries ! i)) ?ps = filter (\<lambda>i. ?M (entries ! i)) [0..<length entries]"
    by (simp add: filter_filter BM)
  have "list_ex (\<lambda>i. ?M (entries ! i)) ?ps \<longleftrightarrow> list_ex ?M entries"
    using BM by (force simp: list_ex_iff in_set_conv_nth intro: nth_mem)
  then show ?thesis
    using map_nth_filter [of entries ?M] unfolding entries_matching_positions ps Let_def
    by (simp add: f any_position_list_ex del: filter_filter)
qed

text \<open>A candidate string with its parse, and a list with a plain, a wildcard and a blocking entry.\<close>

lemma example_parse:
  "parse_candidate ''a/b-1'' = Return (Some \<lparr> c_category = ''a'', c_package = ''b'', c_version = ''1'',
     c_revision = None, c_slot = None, c_sub_slot = None, c_repo = None, c_build_id = None \<rparr>)"
  by code_simp

theorem config_index_flat_scan_witness:
  "fst (config_entries_matching id 7 [''c/d'', ''*/b'', ''>a/b-0'', ''!a/b''] ''a/b-1'' ''a'' ''b'' Map.empty) =
     Some [''*/b'', ''>a/b-0'', ''!a/b'']"
proof -
  let ?es = "[''c/d'', ''*/b'', ''>a/b-0'', ''!a/b'']"
  have m: "\<not> matches_config_entry_with_build_id ''c/d'' ''a/b-1'' None"
      "matches_config_entry_with_build_id ''*/b'' ''a/b-1'' None"
      "matches_config_entry_with_build_id ''>a/b-0'' ''a/b-1'' None"
      "matches_config_entry_with_build_id ''!a/b'' ''a/b-1'' None"
    by code_simp+
  have f: "memo_fresh id 7 ?es Map.empty" by (simp add: memo_fresh_def)
  have c: "c_category x = ''a'' \<and> c_package x = ''b''" if "candidate_of ''a/b-1'' None = Some x" for x
    using that by (auto simp: candidate_of_def example_parse)
  show ?thesis
    using conjunct1 [OF config_index_flat_scan [OF _ f c]] m by (simp add: config_entries_matching_def)
qed

text \<open>
  C30: the fingerprint of the memo, address, length, first and last atom, does not identify a list. After
  a lookup in a list at some address, a list that differs in the middle only and has come to lie there
  is answered from the old index: an entry that names the candidate's package is not found.
\<close>

theorem config_index_stale:
  "let old = [''a/a'', ''a/x'', ''a/z'']; new = [''a/a'', ''a/b'', ''a/z''];
       cache = snd (config_entries_matching id ptr old ''a/b-1'' ''a'' ''b'' Map.empty)
   in fst (config_entries_matching id ptr new ''a/b-1'' ''a'' ''b'' cache) = Some [] \<and>
      fst (config_entries_matching id ptr new ''a/b-1'' ''a'' ''b'' Map.empty) = Some [''a/b'']"
proof -
  define old where "old = [''a/a'', ''a/x'', ''a/z'']"
  define new where "new = [''a/a'', ''a/b'', ''a/z'']"
  have b: "bucket_of ''a/a'' = Some ''a/a''" "bucket_of ''a/x'' = Some ''a/x''"
      "bucket_of ''a/z'' = Some ''a/z''" "bucket_of ''a/b'' = Some ''a/b''" by code_simp+
  have m: "matches_config_entry_with_build_id ''a/b'' ''a/b-1'' None" by code_simp
  have k: "cp_key ''a'' ''b'' = ''a/b''" by code_simp
  define cache where "cache = snd (config_entries_matching id ptr old ''a/b-1'' ''a'' ''b'' Map.empty)"
  have c: "cache = [(ptr, 3) \<mapsto> \<lparr> first_atom = ''a/a'', last_atom = ''a/z'', cached_index = build_index id old \<rparr>]"
    by (simp add: cache_def config_entries_matching_def entries_matching_positions cp_bucket_index_of_def Let_def old_def
        numeral_3_eq_3)
  have i: "fst (cp_bucket_index_of id ptr new cache) = build_index id old"
      "fst (cp_bucket_index_of id ptr new Map.empty) = build_index id new"
    by (simp_all add: cp_bucket_index_of_def Let_def c new_def numeral_3_eq_3)
  have p: "map unat (candidate_positions (build_index id old) ''a'' ''b'') = []"
      "map unat (candidate_positions (build_index id new) ''a'' ''b'') = [1]"
    by (simp_all add: candidate_positions_build unat_positions old_def new_def b k upt_rec)
  have "fst (config_entries_matching id ptr new ''a/b-1'' ''a'' ''b'' cache) = Some []"
      "fst (config_entries_matching id ptr new ''a/b-1'' ''a'' ''b'' Map.empty) = Some [''a/b'']"
    unfolding config_entries_matching_def entries_matching_positions i p Let_def by (simp_all add: new_def m)
  then show ?thesis by (simp add: cache_def old_def new_def)
qed

end
