(* ===== verification/BacktrackParams.thy ===== *)
theory BacktrackParams
  imports Candidates DepTargets ConfigMatch
begin

text \<open>
  The parameters of a backtracking pass (\<open>resolve/backtrack_params.rs\<close>), with the masks of
  \<open>resolve/feedback/mod.rs\<close>, the pins of \<open>rev_dep.rs\<close>, the change records of \<open>result.rs\<close> and the slot
  conflicts of \<open>slot_conflict.rs\<close>. Hash maps are finite maps, hash and B-tree sets finite sets. The
  profile configuration (\<open>portage_profile::Config\<close>) is a type parameter: nothing here looks into it.
\<close>

section \<open>Masks, pins and change records\<close>

type_synonym cp = "string \<times> string"
type_synonym cpv = "string \<times> string \<times> string"

datatype mask_reason =
    SlotConflictMask "(cpv \<times> string) list"
  | MissingDependency cp string
  | SlotOperatorBuilt

record mask_entry =
  me_neg :: string
  me_reason :: mask_reason

record rev_dep_pin =
  rp_cp :: cp
  rp_atom :: string
  rp_raw_atom :: string
  rp_built_render :: "string list"
  rp_consumer :: cpv
  rp_holder_open :: bool

record autounmask_change =
  am_atom :: string
  am_token :: string
  am_dep_chain :: "string list"
  am_trigger :: "cp option"
  am_mask_entry :: "string option"

record expansion_seed =
  es_owner :: cpv
  es_atom :: string
  es_demoters :: "cpv fset"

record posture_hold =
  ph_owner :: cpv
  ph_atom :: string

section \<open>Slot conflicts\<close>

record slot_conflict_parent =
  scp_parent_cpv :: string
  scp_atom :: string
  scp_use_display :: "(string \<times> string) list"
  scp_installed :: bool

record slot_conflict_instance =
  sci_version :: string
  sci_sub_slot :: string
  sci_repo_name :: string
  sci_use_display :: "(string \<times> string) list"
  sci_parents :: "slot_conflict_parent list"
  sci_installed :: bool

record slot_conflict =
  sc_category :: string
  sc_package :: string
  sc_slot :: string
  sc_resolved_version :: string
  sc_conflicting_atom :: string
  sc_instances :: "slot_conflict_instance list"

type_synonym slot_pullers = "(cp, (string \<times> string \<times> string \<times> string) list) fmap"

section \<open>The parameters\<close>

type_synonym mask_parent_key = "cp \<times> string \<times> cpv"

record 'cfg backtrack_params =
  bp_suggest_keywords :: bool
  bp_suggest_use :: bool
  bp_suggest_license :: bool
  bp_suggest_masks :: bool
  bp_missing_dep_masked :: "string fset"
  bp_reverse_dep_masked :: "(cp \<times> string) fset"
  bp_reverse_dep_conflict_parents :: "mask_parent_key fset"
  bp_dropped_pins :: "rev_dep_pin list"
  bp_reverse_dep_pins :: "rev_dep_pin list"
  bp_slot_constraints :: "(cp, string list) fmap"
  bp_runtime_pkg_mask :: "(cp, mask_entry list) fmap"
  bp_mask_order :: "(cp \<times> string) list"
  bp_mask_steps :: "32 word"
  bp_depth :: "32 word"
  bp_use_config :: "(cp, (string, bool) fmap) fmap"
  bp_use_change_records :: "autounmask_change list"
  bp_config :: "'cfg option"
  bp_use_broke :: bool
  bp_disabled :: bool
  bp_replace_installed :: "cp fset"
  bp_probe_replaced :: "cp fset"
  bp_rebuild_if_replace :: "cp fset"
  bp_forced_upgrade :: "cpv fset"
  bp_expansion_seeds :: "expansion_seed fset"
  bp_posture_holds :: "posture_hold fset"
  bp_undone :: "cp fset"
  bp_prune_rebuilds :: bool
  bp_circular :: "(bool \<times> string \<times> string, circular_dep_child list) fmap"

definition default_params :: "'cfg backtrack_params" where
  "default_params =
     \<lparr> bp_suggest_keywords = False, bp_suggest_use = False, bp_suggest_license = False,
       bp_suggest_masks = False, bp_missing_dep_masked = {||}, bp_reverse_dep_masked = {||},
       bp_reverse_dep_conflict_parents = {||}, bp_dropped_pins = [], bp_reverse_dep_pins = [],
       bp_slot_constraints = fmempty, bp_runtime_pkg_mask = fmempty, bp_mask_order = [],
       bp_mask_steps = 0, bp_depth = 0, bp_use_config = fmempty, bp_use_change_records = [],
       bp_config = None, bp_use_broke = False, bp_disabled = False, bp_replace_installed = {||},
       bp_probe_replaced = {||}, bp_rebuild_if_replace = {||}, bp_forced_upgrade = {||},
       bp_expansion_seeds = {||}, bp_posture_holds = {||}, bp_undone = {||},
       bp_prune_rebuilds = False, bp_circular = fmempty \<rparr>"

text \<open>\<open>BacktrackParams::initial\<close>, from the four suggestion options of the request.\<close>

definition initial_params :: "bool \<Rightarrow> bool \<Rightarrow> bool \<Rightarrow> bool \<Rightarrow> 'cfg backtrack_params" where
  "initial_params keywords use license masks =
     default_params\<lparr> bp_suggest_keywords := keywords, bp_suggest_use := use,
       bp_suggest_license := license, bp_suggest_masks := masks \<rparr>"

definition bucket :: "('k, 'v list) fmap \<Rightarrow> 'k \<Rightarrow> 'v list" where
  "bucket m k = (case fmlookup m k of Some v \<Rightarrow> v | None \<Rightarrow> [])"

definition union_constraints :: "'cfg backtrack_params \<Rightarrow> (cp, string list) fmap" where
  "union_constraints p =
     bp_slot_constraints p ++\<^sub>f
     fmmap_keys (\<lambda>cp masks. bucket (bp_slot_constraints p) cp @ map me_neg masks) (bp_runtime_pkg_mask p)"

definition masked_negatives_for :: "'cfg backtrack_params \<Rightarrow> cp \<Rightarrow> string list" where
  "masked_negatives_for p cp =
     (case fmlookup (bp_runtime_pkg_mask p) cp of Some b \<Rightarrow> map me_neg b | None \<Rightarrow> [])"

section \<open>Stale constraints\<close>

text \<open>
  The candidates of a package (\<open>gate.repo_candidates\<close>, \<open>None\<close> for an error), their visibility under the
  configuration, and whether an installed package matches an atom. The trace output is left out.
\<close>

record 'cfg repo_view =
  rv_candidates :: "string \<Rightarrow> string \<Rightarrow> repo_candidate list option"
  rv_visible :: "repo_candidate \<Rightarrow> string \<Rightarrow> string \<Rightarrow> 'cfg \<Rightarrow> bool"
  rv_installed :: "string \<Rightarrow> 'cfg \<Rightarrow> bool"

definition ends_with :: "string \<Rightarrow> string \<Rightarrow> bool" where
  "ends_with s t = (length t \<le> length s \<and> drop (length s - length t) s = t)"

definition is_binary_only_mask :: "string \<Rightarrow> bool" where
  "is_binary_only_mask constraint =
     (case strip_prefix constraint ''!'' of None \<Rightarrow> False | Some neg \<Rightarrow> ends_with neg ''[binary]'')"

definition is_installed_only_mask :: "string \<Rightarrow> bool" where
  "is_installed_only_mask constraint =
     (case strip_prefix constraint ''!'' of None \<Rightarrow> False | Some neg \<Rightarrow> ends_with neg ''[installed]'')"

definition is_instance_only_mask :: "string \<Rightarrow> bool" where
  "is_instance_only_mask constraint = (is_binary_only_mask constraint \<or> is_installed_only_mask constraint)"

definition live_positive :: "'cfg repo_view \<Rightarrow> 'cfg \<Rightarrow> string list \<Rightarrow> string list \<Rightarrow> string \<Rightarrow> bool" where
  "live_positive rv config visible negatives c =
     (let hidden = (\<lambda>m. list_ex (\<lambda>n. matches_some (tl n) [m]) negatives)
      in list_ex (\<lambda>v. \<not> hidden v \<and> matches_some c [v]) visible \<or> rv_installed rv c config)"

definition keep_constraints :: "'cfg repo_view \<Rightarrow> 'cfg \<Rightarrow> cp \<Rightarrow> string list \<Rightarrow> string list" where
  "keep_constraints rv config cp constraints =
     (if list_all (\<lambda>c. starts_with c ''!'') constraints then constraints
      else case rv_candidates rv (fst cp) (snd cp) of
             None \<Rightarrow> constraints
           | Some candidates \<Rightarrow>
               let visible = map (\<lambda>c. match_str c (fst cp) (snd cp))
                     (filter (\<lambda>c. rv_visible rv c (fst cp) (snd cp) config) candidates);
                   negatives = filter (\<lambda>c. starts_with c ''!'' \<and> \<not> is_instance_only_mask c) constraints
               in filter (\<lambda>c. starts_with c ''!'' \<or> live_positive rv config visible negatives c) constraints)"

definition drop_stale_positives ::
  "'cfg repo_view \<Rightarrow> 'cfg \<Rightarrow> (cp, string list) fmap \<Rightarrow> (cp, string list) fmap" where
  "drop_stale_positives rv config m = fmmap_keys (keep_constraints rv config) m"

section \<open>Masks of one instance\<close>

definition strip_suffix :: "string \<Rightarrow> string \<Rightarrow> string option" where
  "strip_suffix s t = (if ends_with s t then Some (take (length s - length t) s) else None)"

definition marked_version :: "string \<Rightarrow> string \<Rightarrow> string \<Rightarrow> string \<Rightarrow> string option" where
  "marked_version mark neg category package =
     Option.bind (strip_prefix neg ''!='') (\<lambda>r.
     Option.bind (strip_suffix r mark) (\<lambda>rest.
     Option.bind (split_cpv rest) (\<lambda>(c, p, v).
       if c = category \<and> p = package then Some v else None)))"

definition slot_operator_binary_masked_version :: "string \<Rightarrow> string \<Rightarrow> string \<Rightarrow> string option" where
  "slot_operator_binary_masked_version = marked_version ''[binary]''"

definition slot_operator_installed_masked_version :: "string \<Rightarrow> string \<Rightarrow> string \<Rightarrow> string option" where
  "slot_operator_installed_masked_version = marked_version ''[installed]''"

definition installed_version_masked :: "string list \<Rightarrow> string \<Rightarrow> string \<Rightarrow> string \<Rightarrow> bool" where
  "installed_version_masked extra_constraints category package version =
     list_ex (\<lambda>ec. slot_operator_installed_masked_version ec category package = Some version) extra_constraints"

definition installed_instance_masked :: "vdb_view \<Rightarrow> 'cfg backtrack_params \<Rightarrow> cp \<Rightarrow> bool" where
  "installed_instance_masked v grown cp =
     list_ex (\<lambda>p. ip_category p = fst cp \<and> ip_package p = snd cp \<and>
                  installed_version_masked (masked_negatives_for grown cp) (ip_category p) (ip_package p) (ip_version p))
       (vdb_installed v)"

definition neg_of :: "cpv \<Rightarrow> string" where
  "neg_of t = (case t of (cat, pkg, ver) \<Rightarrow> ''!='' @ cat @ ''/'' @ pkg @ ''-'' @ ver)"

section \<open>Mask choices of a slot conflict\<close>

record similar_mask =
  sm_target :: cpv
  sm_parents :: "(cpv \<times> string) list"

record mask_choice =
  mc_target :: cpv
  mc_parents :: "(cpv \<times> string) list"
  mc_similar :: "similar_mask list"
  mc_installed :: bool

definition conflict_parent_key :: "string \<Rightarrow> cpv" where
  "conflict_parent_key parent_cpv =
     (case split_cpv (hd (split_char CHR '':'' parent_cpv)) of Some k \<Rightarrow> k | None \<Rightarrow> ([], [], []))"

definition slot_conflict_meta :: "'cfg repo_view \<Rightarrow> string \<Rightarrow> string \<Rightarrow> string \<Rightarrow> string \<times> string \<times> string" where
  "slot_conflict_meta rv category package version =
     (case Option.bind (rv_candidates rv category package)
             (\<lambda>cs. max_by_key rc_repo_priority (filter (\<lambda>c. rc_version c = version) cs)) of
        Some c \<Rightarrow> (rc_sub_slot c, rc_repo_name c, rc_slot c)
      | None \<Rightarrow> ([], [], []))"

definition is_built_slot_op :: "atom \<Rightarrow> bool" where
  "is_built_slot_op a =
     (a_slot_operator a = Some SlotEquals \<and> a_slot a \<noteq> None \<and> a_sub_slot a \<noteq> None)"

definition nonempty :: "string option \<Rightarrow> string option" where
  "nonempty o' = (case o' of Some s \<Rightarrow> if s = [] then None else Some s | None \<Rightarrow> None)"

definition conflict_versions :: "slot_conflict \<Rightarrow> string list" where
  "conflict_versions sc =
     (let versions = remdups_adj (rev (sort_by vercmp_ordering (map sci_version (sc_instances sc))))
      in if sc_resolved_version sc \<in> set versions then versions else versions @ [sc_resolved_version sc])"

fun push_new :: "'a \<Rightarrow> 'a list \<Rightarrow> 'a list" where
  "push_new x xs = (if x \<in> set xs then xs else xs @ [x])"

definition conflict_parents :: "slot_pullers \<Rightarrow> slot_conflict \<Rightarrow> (cpv \<times> string) list" where
  "conflict_parents slot_pullers sc =
     (let pullers = map (\<lambda>(pc, pp, pv, atom). ((pc, pp, pv), atom))
                      (bucket slot_pullers (sc_category sc, sc_package sc));
          records = map (\<lambda>p. (conflict_parent_key (scp_parent_cpv p), scp_atom p))
                      (concat (map sci_parents (sc_instances sc)))
      in fold push_new (pullers @ records) [])"

definition conflict_candidate :: "'cfg repo_view \<Rightarrow> slot_conflict \<Rightarrow> string \<Rightarrow> string" where
  "conflict_candidate rv sc ver =
     (let recorded = nonempty (map_option sci_sub_slot (find (\<lambda>i. sci_version i = ver) (sc_instances sc)));
          sub = (case recorded of
                   Some s \<Rightarrow> Some s
                 | None \<Rightarrow> nonempty (Some (fst (slot_conflict_meta rv (sc_category sc) (sc_package sc) ver))))
      in sc_category sc @ ''/'' @ sc_package sc @ ''-'' @ ver @ '':'' @ sc_slot sc
         @ (case sub of Some s \<Rightarrow> ''/'' @ s | None \<Rightarrow> []))"

definition opposing :: "string \<Rightarrow> (cpv \<times> string) list \<Rightarrow> (cpv \<times> string) list" where
  "opposing candidate parents = filter (\<lambda>(_, atom). \<not> matches_some atom [candidate]) parents"

definition built_first :: "(cpv \<times> string) list \<Rightarrow> (cpv \<times> string) list" where
  "built_first parents =
     (let built = (\<lambda>(_, atom). case parse_dep_atom atom of Some a \<Rightarrow> is_built_slot_op a | None \<Rightarrow> False)
      in filter built parents @ filter (\<lambda>x. \<not> built x) parents)"

definition masked_here :: "'cfg backtrack_params \<Rightarrow> cpv \<Rightarrow> bool" where
  "masked_here params t =
     (case fmlookup (bp_runtime_pkg_mask params) (fst t, fst (snd t)) of
        None \<Rightarrow> False
      | Some b \<Rightarrow> list_ex (\<lambda>m. me_neg m = neg_of t) b)"

definition conflict_siblings ::
  "'cfg repo_view \<Rightarrow> 'cfg \<Rightarrow> string list \<Rightarrow> 'cfg backtrack_params \<Rightarrow> slot_conflict \<Rightarrow> string \<Rightarrow>
   repo_candidate list \<Rightarrow> repo_candidate list" where
  "conflict_siblings rv config excluded params sc ver cands =
     (let party_versions = map sci_version (filter (\<lambda>i. \<not> sci_installed i) (sc_instances sc)) @ [ver]
      in sort_by (\<lambda>a b. vercmp_ordering (rc_version b) (rc_version a))
           (filter (\<lambda>c.
              \<not> (rc_slot c \<noteq> sc_slot sc \<or> rc_version c \<in> set party_versions)
              \<and> \<not> masked_here params (sc_category sc, sc_package sc, rc_version c)
              \<and> rv_visible rv c (sc_category sc) (sc_package sc) config
              \<and> \<not> list_ex (\<lambda>ex. matches_cli_option_atom ex (match_str c (sc_category sc) (sc_package sc))) excluded)
            cands))"

definition similar_of :: "slot_conflict \<Rightarrow> (cpv \<times> string) list \<Rightarrow> repo_candidate \<Rightarrow> similar_mask option" where
  "similar_of sc parents c =
     (let sim_cpv = sc_category sc @ ''/'' @ sc_package sc @ ''-'' @ rc_version c @ '':'' @ sc_slot sc
                    @ ''/'' @ rc_sub_slot c;
          subset = opposing sim_cpv parents
      in if subset = [] then None
         else Some \<lparr> sm_target = (sc_category sc, sc_package sc, rc_version c), sm_parents = subset \<rparr>)"

definition choice_of ::
  "'cfg repo_view \<Rightarrow> 'cfg \<Rightarrow> string list \<Rightarrow> 'cfg backtrack_params \<Rightarrow> slot_conflict \<Rightarrow>
   (cpv \<times> string) list \<Rightarrow> string \<Rightarrow> mask_choice" where
  "choice_of rv config excluded params sc all_parents ver =
     (let parents = built_first (opposing (conflict_candidate rv sc ver) all_parents);
          similar = (if parents = [] then []
                     else case rv_candidates rv (sc_category sc) (sc_package sc) of
                            None \<Rightarrow> []
                          | Some cands \<Rightarrow>
                              List.map_filter (similar_of sc parents)
                                (conflict_siblings rv config excluded params sc ver cands))
      in \<lparr> mc_target = (sc_category sc, sc_package sc, ver), mc_parents = parents, mc_similar = similar,
           mc_installed = list_ex (\<lambda>i. sci_installed i \<and> sci_version i = ver) (sc_instances sc) \<rparr>)"

definition slot_conflict_mask_choices ::
  "'cfg repo_view \<Rightarrow> 'cfg \<Rightarrow> string list \<Rightarrow> 'cfg backtrack_params \<Rightarrow> slot_pullers \<Rightarrow> slot_conflict \<Rightarrow>
   mask_choice list" where
  "slot_conflict_mask_choices rv config excluded params slot_pullers sc =
     sort_key (length \<circ> mc_parents)
       (map (choice_of rv config excluded params sc (conflict_parents slot_pullers sc)) (conflict_versions sc))"

section \<open>Outcomes of a pass\<close>

datatype 'cfg backtrack_feedback =
    ConfigFeedback "'cfg backtrack_params"
  | RevDepFeedback "'cfg backtrack_params"
  | SlotConflictFeedback "'cfg backtrack_params" "mask_choice list"
  | CircularFeedback "'cfg backtrack_params"
  | MissingDepFeedback "'cfg backtrack_params" cp mask_entry

datatype 'cfg pass_decision =
    Settle "'cfg backtrack_params"
  | Feedback "'cfg backtrack_feedback"
  | DeadEnd "'cfg backtrack_params"

text \<open>The parameters that a decision hands back: its working copy.\<close>

fun feedback_params :: "'cfg backtrack_feedback \<Rightarrow> 'cfg backtrack_params" where
  "feedback_params (ConfigFeedback p) = p"
| "feedback_params (RevDepFeedback p) = p"
| "feedback_params (CircularFeedback p) = p"
| "feedback_params (SlotConflictFeedback p _) = p"
| "feedback_params (MissingDepFeedback p _ _) = p"

fun decision_params :: "'cfg pass_decision \<Rightarrow> 'cfg backtrack_params" where
  "decision_params (Settle p) = p"
| "decision_params (DeadEnd p) = p"
| "decision_params (Feedback k) = feedback_params k"

end
