(* ===== verification/Backtracker.thy ===== *)
theory Backtracker
  imports BacktrackParams
begin

text \<open>
  The search tree of the backtracking resolver (\<open>resolve/backtracker.rs\<close>): nodes with their
  parameters, the stack of unexplored nodes and the node whose pass just ran. Indexing out of range and
  \<open>expect\<close> are panics; the two counters are \<open>u32\<close>.
\<close>

section \<open>Nodes\<close>

record 'cfg backtrack_node =
  bn_params :: "'cfg backtrack_params"
  bn_terminal :: bool

record 'cfg backtracker =
  bt_nodes :: "'cfg backtrack_node list"
  bt_unexplored :: "nat list"
  bt_current :: "nat option"
  bt_max_depth :: "32 word"

definition params_equal :: "'cfg backtrack_params \<Rightarrow> 'cfg backtrack_params \<Rightarrow> bool" where
  "params_equal a b \<longleftrightarrow>
     bp_suggest_keywords a = bp_suggest_keywords b
     \<and> bp_suggest_use a = bp_suggest_use b
     \<and> bp_suggest_license a = bp_suggest_license b
     \<and> bp_suggest_masks a = bp_suggest_masks b
     \<and> bp_missing_dep_masked a = bp_missing_dep_masked b
     \<and> bp_reverse_dep_masked a = bp_reverse_dep_masked b
     \<and> bp_dropped_pins a = bp_dropped_pins b
     \<and> bp_reverse_dep_pins a = bp_reverse_dep_pins b
     \<and> bp_slot_constraints a = bp_slot_constraints b
     \<and> bp_runtime_pkg_mask a = bp_runtime_pkg_mask b
     \<and> bp_circular a = bp_circular b
     \<and> bp_use_config a = bp_use_config b
     \<and> bp_use_change_records a = bp_use_change_records b
     \<and> bp_use_broke a = bp_use_broke b
     \<and> bp_disabled a = bp_disabled b
     \<and> bp_replace_installed a = bp_replace_installed b
     \<and> bp_rebuild_if_replace a = bp_rebuild_if_replace b
     \<and> bp_forced_upgrade a = bp_forced_upgrade b
     \<and> bp_expansion_seeds a = bp_expansion_seeds b
     \<and> bp_posture_holds a = bp_posture_holds b
     \<and> bp_undone a = bp_undone b
     \<and> bp_prune_rebuilds a = bp_prune_rebuilds b
     \<and> bp_circular a = bp_circular b"

text \<open>A mask is without reason when each of its parents is itself masked.\<close>

definition parent_masked :: "(cp, mask_entry list) fmap \<Rightarrow> cpv \<Rightarrow> bool" where
  "parent_masked masks t =
     (case fmlookup masks (fst t, fst (snd t)) of
        None \<Rightarrow> False
      | Some b \<Rightarrow> list_ex (\<lambda>m. me_neg m = neg_of t) b)"

definition entry_valid :: "(cp, mask_entry list) fmap \<Rightarrow> mask_entry \<Rightarrow> bool" where
  "entry_valid masks entry =
     (case me_reason entry of
        SlotConflictMask parents \<Rightarrow> parents = [] \<or> list_ex (\<lambda>(p, _). \<not> parent_masked masks p) parents
      | MissingDependency _ _ \<Rightarrow> True
      | SlotOperatorBuilt \<Rightarrow> True)"

definition check_runtime_pkg_mask :: "(cp, mask_entry list) fmap \<Rightarrow> bool" where
  "check_runtime_pkg_mask masks = fBall (fmran masks) (list_all (entry_valid masks))"

section \<open>Operations\<close>

definition add_node :: "'cfg backtrack_params \<Rightarrow> bool \<Rightarrow> bool \<Rightarrow> 'cfg backtracker \<Rightarrow> bool \<times> 'cfg backtracker" where
  "add_node params terminal explore bt =
     (if \<not> check_runtime_pkg_mask (bp_runtime_pkg_mask params) then (False, bt)
      else if bt_max_depth bt < bp_mask_steps params then (False, bt)
      else if list_ex (\<lambda>n. params_equal (bn_params n) params) (bt_nodes bt) then (False, bt)
      else
        let nodes = bt_nodes bt @ [\<lparr> bn_params = params, bn_terminal = terminal \<rparr>]
        in (True, bt\<lparr> bt_nodes := nodes,
                     bt_unexplored := (if explore then bt_unexplored bt @ [length nodes - 1]
                                       else bt_unexplored bt) \<rparr>))"

definition new_backtracker :: "32 word \<Rightarrow> 'cfg backtrack_params \<Rightarrow> 'cfg backtracker" where
  "new_backtracker max_depth initial =
     snd (add_node initial True True
       \<lparr> bt_nodes = [], bt_unexplored = [], bt_current = None, bt_max_depth = max_depth \<rparr>)"

definition set_params :: "nat \<Rightarrow> 'cfg backtrack_params \<Rightarrow> 'cfg backtracker \<Rightarrow> 'cfg backtracker run" where
  "set_params idx params bt =
     (if idx < length (bt_nodes bt)
      then Return (bt\<lparr> bt_nodes := (bt_nodes bt)[idx := (bt_nodes bt ! idx)\<lparr> bn_params := params \<rparr>] \<rparr>)
      else Panic)"

definition adopt_current :: "'cfg backtrack_params \<Rightarrow> 'cfg backtracker \<Rightarrow> 'cfg backtracker run" where
  "adopt_current params bt =
     (case bt_current bt of None \<Rightarrow> Return bt | Some idx \<Rightarrow> set_params idx params bt)"

text \<open>\<open>Backtracker::get\<close>: pop the stack.\<close>

definition get_node :: "'cfg backtracker \<Rightarrow> ('cfg backtrack_params option \<times> 'cfg backtracker) run" where
  "get_node bt =
     (if bt_unexplored bt = [] then Return (None, bt)
      else
        let idx = last (bt_unexplored bt);
            bt' = bt\<lparr> bt_unexplored := butlast (bt_unexplored bt), bt_current := Some idx \<rparr>
        in if idx < length (bt_nodes bt) then Return (Some (bn_params (bt_nodes bt ! idx)), bt') else Panic)"

definition deeper :: "'cfg backtrack_node list \<Rightarrow> nat \<Rightarrow> nat \<Rightarrow> nat" where
  "deeper nodes best i =
     (if bn_terminal (nodes ! i) \<and> bp_depth (bn_params (nodes ! best)) < bp_depth (bn_params (nodes ! i))
      then i else best)"

definition get_best_run :: "'cfg backtracker \<Rightarrow> 'cfg backtrack_params run" where
  "get_best_run bt =
     (if bt_nodes bt = [] then Panic
      else Return (bn_params (bt_nodes bt ! foldl (deeper (bt_nodes bt)) 0 [0..<length (bt_nodes bt)])))"

section \<open>Feedback\<close>

fun replace_reason :: "string \<Rightarrow> mask_reason \<Rightarrow> mask_entry list \<Rightarrow> mask_entry list" where
  "replace_reason neg r [] = []"
| "replace_reason neg r (m # ms) =
     (if me_neg m = neg then m\<lparr> me_reason := r \<rparr> # ms else m # replace_reason neg r ms)"

text \<open>One member of the group: a repeated mask replaces its reason, a new one is also recorded in the order.\<close>

definition mask_member ::
  "cpv \<times> (cpv \<times> string) list \<Rightarrow> 'cfg backtrack_params \<Rightarrow> 'cfg backtrack_params" where
  "mask_member member params =
     (case member of (t, parents) \<Rightarrow>
        let neg = neg_of t; key = (fst t, fst (snd t));
            b = bucket (bp_runtime_pkg_mask params) key
        in if list_ex (\<lambda>m. me_neg m = neg) b
           then params\<lparr> bp_runtime_pkg_mask :=
                  fmupd key (replace_reason neg (SlotConflictMask parents) b) (bp_runtime_pkg_mask params) \<rparr>
           else params\<lparr> bp_runtime_pkg_mask :=
                  fmupd key (b @ [\<lparr> me_neg = neg, me_reason = SlotConflictMask parents \<rparr>]) (bp_runtime_pkg_mask params),
                  bp_mask_order := bp_mask_order params @ [(key, neg)] \<rparr>)"

definition mask_installed :: "mask_choice \<Rightarrow> 'cfg backtrack_params \<Rightarrow> 'cfg backtrack_params" where
  "mask_installed choice params =
     (if \<not> mc_installed choice then params
      else
        let t = mc_target choice; neg = neg_of t @ ''[installed]''; key = (fst t, fst (snd t));
            b = bucket (bp_runtime_pkg_mask params) key
        in params\<lparr> bp_runtime_pkg_mask :=
             fmupd key (if list_ex (\<lambda>m. me_neg m = neg) b then b
                        else b @ [\<lparr> me_neg = neg, me_reason = SlotConflictMask (mc_parents choice) \<rparr>])
               (bp_runtime_pkg_mask params) \<rparr>)"

definition choice_members :: "mask_choice \<Rightarrow> (cpv \<times> (cpv \<times> string) list) list" where
  "choice_members choice =
     map (\<lambda>s. (sm_target s, sm_parents s)) (mc_similar choice) @ [(mc_target choice, mc_parents choice)]"

definition choice_child :: "'cfg backtrack_params \<Rightarrow> mask_choice \<Rightarrow> 'cfg backtrack_params" where
  "choice_child base choice =
     (let p = mask_installed choice (fold mask_member (choice_members choice) base)
      in p\<lparr> bp_mask_steps := bp_mask_steps p + 1, bp_depth := bp_depth p + 1 \<rparr>)"

definition missing_child :: "'cfg backtrack_params \<Rightarrow> cp \<Rightarrow> mask_entry \<Rightarrow> 'cfg backtrack_params" where
  "missing_child base owner entry =
     (let p = base\<lparr> bp_missing_dep_masked := finsert (me_neg entry) (bp_missing_dep_masked base) \<rparr>;
          b = bucket (bp_runtime_pkg_mask p) owner
      in if list_ex (\<lambda>m. me_neg m = me_neg entry) b
         then p\<lparr> bp_runtime_pkg_mask := fmupd owner b (bp_runtime_pkg_mask p) \<rparr>
         else p\<lparr> bp_runtime_pkg_mask := fmupd owner (b @ [entry]) (bp_runtime_pkg_mask p),
                bp_mask_order := bp_mask_order p @ [(owner, me_neg entry)] \<rparr>)"

definition grown_child :: "32 word \<Rightarrow> 'cfg backtrack_params \<Rightarrow> 'cfg backtrack_params" where
  "grown_child mask_cost p = p\<lparr> bp_mask_steps := bp_mask_steps p + mask_cost, bp_depth := bp_depth p + 1 \<rparr>"

definition feedback :: "'cfg backtrack_feedback \<Rightarrow> 'cfg backtracker \<Rightarrow> 'cfg backtracker run" where
  "feedback kind bt =
     (case bt_current bt of
        None \<Rightarrow> Panic
      | Some cur \<Rightarrow>
          if \<not> cur < length (bt_nodes bt) then Panic
          else
            let current_terminal = bn_terminal (bt_nodes bt ! cur);
                add = (\<lambda>p terminal. Return (snd (add_node p terminal True bt)))
            in case kind of
                 ConfigFeedback p \<Rightarrow> add (grown_child 0 p) current_terminal
               | RevDepFeedback p \<Rightarrow> add (grown_child 0 p) current_terminal
               | CircularFeedback p \<Rightarrow> add (grown_child 0 p) current_terminal
               | MissingDepFeedback base owner entry \<Rightarrow>
                   add (grown_child 1 (missing_child base owner entry)) False
               | SlotConflictFeedback base choices \<Rightarrow>
                   run_bind (set_params cur base bt) (\<lambda>bt'.
                     Return (fold (\<lambda>choice b. snd (add_node (choice_child base choice) False True b)) choices bt')))"

end
