(* ===== verification/Feedback.thy ===== *)
theory Feedback
  imports Backtracker "HOL-Library.Product_Lexorder" "HOL-Library.List_Lexorder" "HOL-Library.Char_ord"
begin

text \<open>
  From the problems of a pass to the feedback for the next one (\<open>resolve/feedback/\<close>): the decision chain
  \<open>collect_feedback_inner\<close> with all of its steps. The scans of the graph and of the installed packages
  are functions of a record, the database and the repositories the views of the other theories. A step
  is given the working copy and the pass and either ends the chain or hands both on. The trace output
  is left out.
\<close>

section \<open>The pass and the context\<close>

record use_unsat_dep =
  uu_category :: string
  uu_package :: string
  uu_atom :: string

type_synonym root_cp = "bool \<times> string \<times> string"

text \<open>What the chain reads of a pass; report rows that it only counts have the type \<open>'x\<close>.\<close>

record 'x pass_result =
  pr_entries :: "graph_entry list"
  pr_slot_conflicts :: "slot_conflict list"
  pr_skipped_updates :: "'x list"
  pr_orphan_blockers :: "'x list"
  pr_slot_want :: "(cp, string list) fmap"
  pr_slot_pullers :: slot_pullers
  pr_masked_deps :: "'x list"
  pr_use_unsat_deps :: "use_unsat_dep list"
  pr_plain_miss_deps :: "'x list"
  pr_missing_dep_trigger :: "(cp \<times> string \<times> string) option"
  pr_missing_args :: "string list"
  pr_autounmask_grew :: bool
  pr_edge_kind_map :: "(root_cp \<times> root_cp, bool \<times> bool) fmap"
  pr_use_changes :: "autounmask_change list"
  pr_use_overlay :: "(cp, (string, bool) fmap) fmap"
  pr_use_change_overlay :: "autounmask_change list"
  pr_use_broke :: bool
  pr_abi_rebuilds :: "(string \<times> string) list option"
  pr_suppressed_nvc :: bool

record 'cfg resolve_ctx =
  cx_backtrack_max :: "32 word"
  cx_config :: 'cfg
  cx_nodeps :: bool
  cx_fetchonly :: bool
  cx_fetch_all_uri :: bool
  cx_buildpkgonly :: bool
  cx_autounmask_backtrack :: bool
  cx_usepkgonly :: bool
  cx_complete :: bool
  cx_update :: bool
  cx_ignore_built :: bool
  cx_rebuild_if_new_slot :: bool
  cx_rebuild_if_unbuilt :: bool
  cx_rebuild_if_new_rev :: bool
  cx_rebuild_if_new_ver :: bool
  cx_excluded :: "string list"
  cx_atoms :: "string list"
  cx_vdb :: vdb_view
  cx_repos :: "'cfg repo_view"

record reverse_scan =
  rs_enforced :: "rev_dep_pin list"
  rs_dropped :: "rev_dep_pin list"
  rs_report :: "rev_dep_pin list"

record expansion_feed =
  ef_seeds :: "expansion_seed list"
  ef_holds_added :: "posture_hold list"
  ef_holds_dropped :: "posture_hold list"

record abi_probe =
  ab_parents :: "cp fset"
  ab_children :: "cp fset"
  ab_display_only :: "cp fset"

text \<open>The scans, each for the context of the run.\<close>

record ('cfg, 'x) scanners =
  sn_reverse :: "'x pass_result \<Rightarrow> reverse_scan"
  sn_seeds :: "'x pass_result \<Rightarrow> 'cfg backtrack_params \<Rightarrow> expansion_feed"
  sn_built_parent :: "'x pass_result \<Rightarrow> (cp, mask_entry list) fmap \<Rightarrow> cp fset \<times> cpv fset"
  sn_installed_parent :: "'x pass_result \<Rightarrow> (cp, mask_entry list) fmap \<Rightarrow> cp fset"
  sn_unsatisfied :: "'x pass_result \<Rightarrow> (cp, mask_entry list) fmap \<Rightarrow> cp fset \<times> cpv fset"
  sn_rebuild :: "'x pass_result \<Rightarrow> cp fset \<Rightarrow> cp fset \<Rightarrow> cp fset \<times> (string \<times> string) list \<times> cpv list"
  sn_force :: "'x pass_result \<Rightarrow> cp fset \<Rightarrow> cp fset \<Rightarrow> cp fset \<times> cpv fset"
  sn_abi :: "'x pass_result \<Rightarrow> cp fset \<Rightarrow> cp fset \<Rightarrow> abi_probe"
  sn_residual :: "'x pass_result \<Rightarrow> rev_dep_pin list \<Rightarrow> slot_conflict list"
  sn_hard_cycles :: "'x pass_result \<Rightarrow> (root_cp, circular_dep_child list) fmap \<Rightarrow> string list list"
  sn_restartable :: "'x pass_result \<Rightarrow> (root_cp, circular_dep_child list) fmap \<Rightarrow> string list \<Rightarrow> bool"
  sn_restart_cycles :: "'x pass_result \<Rightarrow> (root_cp, circular_dep_child list) fmap \<Rightarrow> nat list list"
  sn_rebuild_if :: "'x pass_result \<Rightarrow> cp fset \<Rightarrow> cp fset"
  sn_missed_updates :: "'x pass_result \<Rightarrow> 'cfg backtrack_params \<Rightarrow> 'x list \<times> 'x list \<times> 'x list"
  sn_eliminate :: "'x pass_result \<Rightarrow> cp fset \<Rightarrow> rev_dep_pin list \<Rightarrow> cp list"
  sn_flag_sets :: "string \<Rightarrow> string \<Rightarrow> string \<Rightarrow> string set \<times> string set"
  sn_use_tier :: "'cfg \<Rightarrow> (string \<times> string list) list \<Rightarrow> 'cfg"

type_synonym ('cfg, 'x) step =
  "'cfg pass_decision \<times> 'x pass_result + 'cfg backtrack_params \<times> 'x pass_result"

definition no_visible :: "'x pass_result \<Rightarrow> bool" where
  "no_visible pass = list_ex (\<lambda>e. e_outcome e = NoVisibleCandidate) (pr_entries pass)"

section \<open>The overlay of the pass\<close>

definition merge_use_config ::
  "(cp, (string, bool) fmap) fmap \<Rightarrow> (cp, (string, bool) fmap) fmap \<Rightarrow> (cp, (string, bool) fmap) fmap" where
  "merge_use_config config overlay =
     config ++\<^sub>f fmmap_keys (\<lambda>cp flags.
       (case fmlookup config cp of Some old \<Rightarrow> old | None \<Rightarrow> fmempty) ++\<^sub>f flags) overlay"

fun push_record :: "autounmask_change \<Rightarrow> autounmask_change list \<Rightarrow> autounmask_change list" where
  "push_record r rs = (if list_ex (\<lambda>c. am_atom c = am_atom r \<and> am_token c = am_token r) rs then rs else rs @ [r])"

definition fold_overlay :: "'x pass_result \<Rightarrow> 'cfg backtrack_params \<Rightarrow> 'cfg backtrack_params" where
  "fold_overlay pass grown =
     grown\<lparr> bp_use_config := merge_use_config (bp_use_config grown) (pr_use_overlay pass),
            bp_use_change_records := fold push_record (pr_use_change_overlay pass) (bp_use_change_records grown),
            bp_use_broke := bp_use_broke grown \<or> pr_use_broke pass \<rparr>"

section \<open>Pins\<close>

definition masked_versions :: "'x pass_result \<Rightarrow> cp \<Rightarrow> (string \<times> string) list" where
  "masked_versions pass cp =
     List.map_filter (\<lambda>e. map_option (\<lambda>v. (neg_of (fst cp, snd cp, v), v)) (merge_bound_version (e_outcome e)))
       (filter (\<lambda>e. e_category e = fst cp \<and> e_package e = snd cp) (pr_entries pass))"

definition merge_candidate :: "'x pass_result \<Rightarrow> cp \<Rightarrow> string \<Rightarrow> string option" where
  "merge_candidate pass cp version =
     map_option (\<lambda>e.
         let or0 = (\<lambda>x. case x of Some s \<Rightarrow> s | None \<Rightarrow> ''0'')
         in fst cp @ ''/'' @ snd cp @ ''-'' @ version @ '':'' @ or0 (e_slot e) @ ''/'' @ or0 (e_sub_slot e)
            @ ''::'' @ (case e_repo_name e of Some r \<Rightarrow> r | None \<Rightarrow> []))
       (find (\<lambda>e. e_category e = fst cp \<and> e_package e = snd cp \<and> merge_bound_version (e_outcome e) = Some version)
          (pr_entries pass))"

definition pin_spares :: "'x pass_result \<Rightarrow> rev_dep_pin \<Rightarrow> string \<Rightarrow> bool" where
  "pin_spares pass pin ver =
     (case merge_candidate pass (rp_cp pin) ver of
        None \<Rightarrow> False
      | Some candidate \<Rightarrow> matches_some (rp_atom pin) [candidate])"

fun extend_reason :: "string \<Rightarrow> ((cpv \<times> string) list \<Rightarrow> (cpv \<times> string) list) \<Rightarrow> mask_entry list \<Rightarrow> mask_entry list" where
  "extend_reason neg f [] = []"
| "extend_reason neg f (m # ms) =
     (if me_neg m = neg
      then (case me_reason m of SlotConflictMask known \<Rightarrow> m\<lparr> me_reason := SlotConflictMask (f known) \<rparr> | _ \<Rightarrow> m) # ms
      else m # extend_reason neg f ms)"

definition pin_rows :: "rev_dep_pin \<Rightarrow> (cpv \<times> string) list" where
  "pin_rows pin = map (\<lambda>built. (rp_consumer pin, built)) (rp_built_render pin) @ [(rp_consumer pin, rp_atom pin)]"

definition mask_pin ::
  "'x pass_result \<Rightarrow> rev_dep_pin \<Rightarrow> string \<times> string \<Rightarrow> 'cfg backtrack_params \<Rightarrow> 'cfg backtrack_params" where
  "mask_pin pass pin nv grown =
     (case nv of (neg, ver) \<Rightarrow>
        if pin_spares pass pin ver then grown
        else
          let b = bucket (bp_runtime_pkg_mask grown) (rp_cp pin)
          in if list_ex (\<lambda>m. me_neg m = neg) b
             then grown\<lparr> bp_runtime_pkg_mask := fmupd (rp_cp pin)
                    (extend_reason neg (\<lambda>known. remdups_adj (sort (fold push_new (pin_rows pin) known))) b)
                    (bp_runtime_pkg_mask grown) \<rparr>
             else grown\<lparr> bp_runtime_pkg_mask := fmupd (rp_cp pin)
                    (b @ [\<lparr> me_neg = neg, me_reason = SlotConflictMask (pin_rows pin) \<rparr>]) (bp_runtime_pkg_mask grown),
                    bp_mask_order := bp_mask_order grown @ [(rp_cp pin, neg)] \<rparr>)"

definition apply_enforced_pin ::
  "'x pass_result \<Rightarrow> 32 word \<Rightarrow> rev_dep_pin \<Rightarrow> 'cfg backtrack_params \<Rightarrow> bool \<times> 'cfg backtrack_params" where
  "apply_enforced_pin pass backtrack_max pin grown =
     (let fresh_atom = (rp_cp pin, rp_atom pin) |\<notin>| bp_reverse_dep_masked grown;
          fresh_parents = (rp_cp pin, rp_atom pin, rp_consumer pin) |\<notin>| bp_reverse_dep_conflict_parents grown;
          g1 = grown\<lparr> bp_reverse_dep_pins := push_new pin (bp_reverse_dep_pins grown),
                 bp_reverse_dep_masked := finsert (rp_cp pin, rp_atom pin) (bp_reverse_dep_masked grown),
                 bp_reverse_dep_conflict_parents :=
                   finsert (rp_cp pin, rp_atom pin, rp_consumer pin) (bp_reverse_dep_conflict_parents grown) \<rparr>;
          g2 = (if 0 < backtrack_max \<and> (fresh_atom \<or> fresh_parents)
                then fold (mask_pin pass pin) (masked_versions pass (rp_cp pin)) g1 else g1)
      in if fresh_atom
         then (True, g2\<lparr> bp_slot_constraints := fmupd (rp_cp pin)
                 (bucket (bp_slot_constraints g2) (rp_cp pin) @ [rp_atom pin]) (bp_slot_constraints g2) \<rparr>)
         else (False, g2))"

text \<open>The loop over the pins, with whether one of them was new.\<close>

definition apply_pins ::
  "'x pass_result \<Rightarrow> 32 word \<Rightarrow> rev_dep_pin list \<Rightarrow> 'cfg backtrack_params \<Rightarrow> bool \<times> 'cfg backtrack_params" where
  "apply_pins pass backtrack_max pins grown =
     fold (\<lambda>pin (added, g). case apply_enforced_pin pass backtrack_max pin g of (a, g') \<Rightarrow> (added \<or> a, g'))
       pins (False, grown)"

definition push_dropped :: "rev_dep_pin list \<Rightarrow> 'cfg backtrack_params \<Rightarrow> 'cfg backtrack_params" where
  "push_dropped pins grown = grown\<lparr> bp_dropped_pins := fold push_new pins (bp_dropped_pins grown) \<rparr>"

section \<open>Filing probe results\<close>

definition drop_masked_installed ::
  "vdb_view \<Rightarrow> 'cfg backtrack_params \<Rightarrow> cp fset \<Rightarrow> cp fset \<Rightarrow> cp fset" where
  "drop_masked_installed v grown before scheduled =
     ffilter (\<lambda>cp. cp |\<in>| before \<or> \<not> installed_instance_masked v grown cp) scheduled"

definition mask_binary :: "cpv \<Rightarrow> bool \<times> 'cfg backtrack_params \<Rightarrow> bool \<times> 'cfg backtrack_params" where
  "mask_binary t st =
     (case st of (masks_new, grown) \<Rightarrow>
        let neg = neg_of t @ ''[binary]''; key = (fst t, fst (snd t));
            b = bucket (bp_runtime_pkg_mask grown) key
        in if list_ex (\<lambda>m. me_neg m = neg) b then (masks_new, grown)
           else (True, grown\<lparr> bp_runtime_pkg_mask :=
                   fmupd key (b @ [\<lparr> me_neg = neg, me_reason = SlotOperatorBuilt \<rparr>]) (bp_runtime_pkg_mask grown) \<rparr>))"

definition file_unsat_probe_results ::
  "vdb_view \<Rightarrow> bool \<Rightarrow> cp fset \<Rightarrow> cpv fset \<Rightarrow> 'cfg backtrack_params \<Rightarrow> bool \<times> 'cfg backtrack_params" where
  "file_unsat_probe_results v usepkgonly fresh binary_masks grown =
     (let masks = (if usepkgonly then [] else sorted_list_of_fset binary_masks);
          (masks_new, g) = fold mask_binary masks (False, grown);
          fresh' = drop_masked_installed v g (bp_replace_installed g) fresh
      in if masks_new \<or> \<not> fresh' |\<subseteq>| bp_replace_installed g
         then (True, g\<lparr> bp_replace_installed := bp_replace_installed g |\<union>| fresh' \<rparr>)
         else (False, g))"

definition fold_rebuild_scan ::
  "('cfg, 'x) scanners \<Rightarrow> 'cfg resolve_ctx \<Rightarrow> 'x pass_result \<Rightarrow> 'cfg backtrack_params \<Rightarrow> 'cfg backtrack_params" where
  "fold_rebuild_scan sn ctx pass grown =
     (if pr_suppressed_nvc pass \<or> no_visible pass \<or> cx_backtrack_max ctx = 0 \<or> cx_ignore_built ctx
         \<or> \<not> cx_rebuild_if_new_slot ctx then grown
      else
        let (scheduled0, _, _) = sn_rebuild sn pass (bp_replace_installed grown) (bp_undone grown);
            (force_consumers, forced) = sn_force sn pass scheduled0 (bp_undone grown);
            g = grown\<lparr> bp_forced_upgrade := bp_forced_upgrade grown |\<union>| forced \<rparr>;
            scheduled = drop_masked_installed (cx_vdb ctx) g (bp_replace_installed g) (scheduled0 |\<union>| force_consumers)
        in g\<lparr> bp_replace_installed := scheduled, bp_probe_replaced := bp_probe_replaced g |\<union>| scheduled \<rparr>)"

definition apply_prune_rebuilds :: "'cfg backtrack_params \<Rightarrow> 'cfg backtrack_params" where
  "apply_prune_rebuilds p =
     (let masks = bp_runtime_pkg_mask p;
          keep = fmmap (filter (\<lambda>m. me_reason m \<noteq> SlotOperatorBuilt)) masks;
          removed = (\<lambda>(cp, neg). list_ex (\<lambda>m. me_reason m = SlotOperatorBuilt \<and> me_neg m = neg) (bucket masks cp))
      in p\<lparr> bp_prune_rebuilds := True, bp_replace_installed := {||}, bp_probe_replaced := {||},
            bp_forced_upgrade := {||},
            bp_runtime_pkg_mask := fmfilter (\<lambda>cp. bucket keep cp \<noteq> []) keep,
            bp_mask_order := filter (\<lambda>slot. \<not> removed slot) (bp_mask_order p) \<rparr>)"

section \<open>The steps\<close>

definition step_built_parent_update_probe ::
  "('cfg, 'x) scanners \<Rightarrow> 'cfg resolve_ctx \<Rightarrow> 'cfg backtrack_params \<times> 'x pass_result \<Rightarrow>
   ('cfg pass_decision \<times> 'x pass_result) + (bool \<times> 'cfg backtrack_params \<times> 'x pass_result)" where
  "step_built_parent_update_probe sn ctx st =
     (case st of (grown, pass) \<Rightarrow>
        if cx_backtrack_max ctx = 0 \<or> cx_usepkgonly ctx then Inr (False, grown, pass)
        else
          let (fresh, masks) = sn_built_parent sn pass (bp_runtime_pkg_mask grown);
              (filed, g) = file_unsat_probe_results (cx_vdb ctx) (cx_usepkgonly ctx) fresh masks grown
          in if \<not> filed then Inr (False, g, pass)
             else
               let g' = fold_rebuild_scan sn ctx pass (g\<lparr> bp_probe_replaced := bp_probe_replaced g |\<union>| fresh \<rparr>)
               in if pr_slot_conflicts pass = [] then Inl (Feedback (ConfigFeedback g'), pass)
                  else Inr (True, g', pass))"

text \<open>The children of the nodes of a hard cycle: \<open>cycle[-1]\<close> for the first, the node before for the others.\<close>

definition cycle_child :: "string list \<Rightarrow> nat \<Rightarrow> string" where
  "cycle_child cycle i = (if i = 0 then cycle ! (length cycle - 1) else cycle ! (i - 1))"

definition record_child ::
  "root_cp \<Rightarrow> circular_dep_child \<Rightarrow> bool \<times> 'cfg backtrack_params \<Rightarrow> bool \<times> 'cfg backtrack_params" where
  "record_child key child st =
     (case st of (new_info, grown) \<Rightarrow>
        let b = bucket (bp_circular grown) key
        in if child \<in> set b then (new_info, grown\<lparr> bp_circular := fmupd key b (bp_circular grown) \<rparr>)
           else (True, grown\<lparr> bp_circular := fmupd key (b @ [child]) (bp_circular grown) \<rparr>))"

definition record_cycle_node ::
  "'x pass_result \<Rightarrow> string list \<Rightarrow> nat \<Rightarrow> bool \<times> 'cfg backtrack_params \<Rightarrow> bool \<times> 'cfg backtrack_params" where
  "record_cycle_node pass cycle i st =
     (case split_cpv (cycle ! i) of
        None \<Rightarrow> st
      | Some (node_cat, node_pkg, _) \<Rightarrow>
          let node = (True, node_cat, node_pkg);
              cycler_running = (case fmlookup (pr_edge_kind_map pass) (node, node) of
                                  Some (has_hard, _) \<Rightarrow> has_hard | None \<Rightarrow> False);
              child_cpv = cycle_child cycle i
          in (case split_cpv child_cpv of
                None \<Rightarrow> st
              | Some (child_cat, child_pkg, child_ver) \<Rightarrow>
                  if child_ver = [] then st
                  else
                    let slots = (case find (\<lambda>e. map_option (\<lambda>v. e_category e @ ''/'' @ e_package e @ ''-'' @ v)
                                               (merge_bound_version (e_outcome e)) = Some child_cpv) (pr_entries pass) of
                                   Some e \<Rightarrow> (e_slot e, e_sub_slot e) | None \<Rightarrow> (None, None))
                    in record_child (cycler_running, node_cat, node_pkg)
                         \<lparr> cd_category = child_cat, cd_package = child_pkg, cd_version = child_ver,
                           cd_slot = fst slots, cd_sub_slot = snd slots \<rparr> st))"

definition step_circular_dead_end :: "('cfg, 'x) scanners \<Rightarrow> 'cfg backtrack_params \<times> 'x pass_result \<Rightarrow> ('cfg, 'x) step" where
  "step_circular_dead_end sn st =
     (case st of (grown, pass) \<Rightarrow>
        (case sn_hard_cycles sn pass (bp_circular grown) of
           [cycle] \<Rightarrow>
             if \<not> sn_restartable sn pass (bp_circular grown) cycle then Inr (grown, pass)
             else
               let (new_info, g) = fold (record_cycle_node pass cycle) [0..<length cycle] (False, grown)
               in Inl (if new_info then Feedback (CircularFeedback g) else DeadEnd g, pass)
         | _ \<Rightarrow> Inr (grown, pass)))"

definition step_slot_conflict_abi ::
  "('cfg, 'x) scanners \<Rightarrow> 'cfg resolve_ctx \<Rightarrow> 'cfg backtrack_params \<times> 'x pass_result \<Rightarrow> ('cfg, 'x) step" where
  "step_slot_conflict_abi sn ctx st =
     (case st of (grown, pass) \<Rightarrow>
        if pr_slot_conflicts pass \<noteq> [] \<and> 0 < cx_backtrack_max ctx \<and> \<not> cx_ignore_built ctx
           \<and> \<not> pr_suppressed_nvc pass \<and> \<not> no_visible pass
        then
          let fresh = sn_abi sn pass (bp_replace_installed grown) (bp_undone grown)
          in if ab_parents fresh = {||} then Inr (grown, pass)
             else
               let filed = ab_parents fresh |\<union>| ab_children fresh
               in Inl (Feedback (ConfigFeedback
                    (grown\<lparr> bp_replace_installed := bp_replace_installed grown |\<union>| filed,
                            bp_probe_replaced := bp_probe_replaced grown |\<union>| filed |\<union>| ab_display_only fresh \<rparr>)), pass)
        else Inr (grown, pass))"

definition want_satisfied :: "('cfg, 'x) scanners \<Rightarrow> cp \<Rightarrow> repo_candidate \<Rightarrow> string \<Rightarrow> bool" where
  "want_satisfied sn cp c w =
     (let cs = fst cp @ ''/'' @ snd cp @ ''-'' @ rc_version c @ '':'' @ rc_slot c;
          (iuse, use_flags) = sn_flag_sets sn (fst cp) (snd cp) (rc_version c)
      in matches_some w [cs] \<and>
         (case atom_of w of
            None \<Rightarrow> True
          | Some a \<Rightarrow> (case a_use_deps a of None \<Rightarrow> True | Some ud \<Rightarrow> use_deps_satisfied ud iuse use_flags)))"

definition push_want :: "string \<Rightarrow> bool \<times> string list \<Rightarrow> bool \<times> string list" where
  "push_want w st = (case st of (progressed, slot) \<Rightarrow> if w \<in> set slot then st else (True, slot @ [w]))"

definition solve_conflict ::
  "('cfg, 'x) scanners \<Rightarrow> 'cfg resolve_ctx \<Rightarrow> 'x pass_result \<Rightarrow> slot_conflict \<Rightarrow>
   bool \<times> 'cfg backtrack_params \<Rightarrow> bool \<times> 'cfg backtrack_params" where
  "solve_conflict sn ctx pass sc st =
     (case st of (progressed, grown) \<Rightarrow>
        let cp = (sc_category sc, sc_package sc)
        in (case fmlookup (pr_slot_want pass) cp of
              None \<Rightarrow> st
            | Some ws \<Rightarrow>
                if length ws < 2 then st
                else
                  let candidates = (case rv_candidates (cx_repos ctx) (fst cp) (snd cp) of Some cs \<Rightarrow> cs | None \<Rightarrow> [])
                  in if \<not> list_ex (\<lambda>c. list_all (want_satisfied sn cp c) ws) candidates then st
                     else
                       let (progressed', slot) = fold push_want ws (progressed, bucket (bp_slot_constraints grown) cp)
                       in (progressed', grown\<lparr> bp_slot_constraints := fmupd cp slot (bp_slot_constraints grown) \<rparr>)))"

definition step_solvable_slot_conflicts ::
  "('cfg, 'x) scanners \<Rightarrow> 'cfg resolve_ctx \<Rightarrow> 'cfg backtrack_params \<times> 'x pass_result \<Rightarrow> ('cfg, 'x) step" where
  "step_solvable_slot_conflicts sn ctx st =
     (case st of (grown, pass) \<Rightarrow>
        let (progressed, g) = fold (solve_conflict sn ctx pass) (pr_slot_conflicts pass) (False, grown)
        in if progressed then Inl (Feedback (ConfigFeedback g), pass) else Inr (g, pass))"

text \<open>A conflict of the same slot and instances takes the installed parents of the record.\<close>

definition same_conflict :: "slot_conflict \<Rightarrow> slot_conflict \<Rightarrow> bool" where
  "same_conflict record c =
     (let second = (\<lambda>x. if 1 < length (sc_instances x) then Some (sci_version (sc_instances x ! 1)) else None)
      in sc_category c = sc_category record \<and> sc_package c = sc_package record \<and> sc_slot c = sc_slot record
         \<and> sc_resolved_version c = sc_resolved_version record \<and> second c = second record)"

fun map_first :: "('a \<Rightarrow> bool) \<Rightarrow> ('a \<Rightarrow> 'a) \<Rightarrow> 'a list \<Rightarrow> 'a list" where
  "map_first P f [] = []"
| "map_first P f (x # xs) = (if P x then f x # xs else x # map_first P f xs)"

definition add_parents :: "slot_conflict_instance \<Rightarrow> bool \<times> slot_conflict \<Rightarrow> bool \<times> slot_conflict" where
  "add_parents added st =
     (case st of (changed, existing) \<Rightarrow>
        let P = (\<lambda>i. sci_installed i \<and> sci_version i = sci_version added)
        in (case find P (sc_instances existing) of
              None \<Rightarrow> st
            | Some inst \<Rightarrow>
                (changed \<or> list_ex (\<lambda>p. p \<notin> set (sci_parents inst)) (sci_parents added),
                 existing\<lparr> sc_instances :=
                   map_first P (\<lambda>i. i\<lparr> sci_parents := fold push_new (sci_parents added) (sci_parents i) \<rparr>)
                     (sc_instances existing) \<rparr>)))"

definition file_after_walker_conflicts :: "slot_conflict \<Rightarrow> bool \<times> slot_conflict list \<Rightarrow> bool \<times> slot_conflict list" where
  "file_after_walker_conflicts record st =
     (case st of (filed, conflicts) \<Rightarrow>
        (case find (same_conflict record) conflicts of
           None \<Rightarrow> (True, conflicts @ [record])
         | Some existing \<Rightarrow>
             let (changed, c') = fold add_parents (filter sci_installed (sc_instances record)) (False, existing)
             in (filed \<or> changed, map_first (same_conflict record) (\<lambda>_. c') conflicts)))"

definition pass_has_unsatisfied_dep :: "'x pass_result \<Rightarrow> bool" where
  "pass_has_unsatisfied_dep pass =
     (pr_masked_deps pass \<noteq> [] \<or> pr_use_unsat_deps pass \<noteq> [] \<or> pr_plain_miss_deps pass \<noteq> []
      \<or> pr_missing_dep_trigger pass \<noteq> None)"

definition consumer_pin_conflict_may_feed_back ::
  "'x pass_result \<Rightarrow> 'cfg backtrack_params \<Rightarrow> reverse_scan \<Rightarrow> bool" where
  "consumer_pin_conflict_may_feed_back pass grown scan =
     (list_all (\<lambda>p. (rp_cp p, rp_atom p) |\<in>| bp_reverse_dep_masked grown) (rs_enforced scan)
      \<and> pr_use_changes pass = [] \<and> pr_use_overlay pass = fmempty \<and> \<not> pass_has_unsatisfied_dep pass
      \<and> \<not> pr_autounmask_grew pass \<and> \<not> (bp_use_broke grown \<and> \<not> bp_disabled grown))"

definition file_consumer_pin_conflicts ::
  "('cfg, 'x) scanners \<Rightarrow> 'cfg resolve_ctx \<Rightarrow> reverse_scan \<Rightarrow> 'cfg backtrack_params \<times> 'x pass_result \<Rightarrow>
   bool \<times> 'cfg backtrack_params \<times> 'x pass_result" where
  "file_consumer_pin_conflicts sn ctx scan st =
     (case st of (grown, pass) \<Rightarrow>
        if cx_backtrack_max ctx = 0 \<or> \<not> consumer_pin_conflict_may_feed_back pass grown scan
        then (False, grown, pass)
        else
          let g = push_dropped (rs_dropped scan) grown;
              (filed, conflicts) = fold file_after_walker_conflicts (sn_residual sn pass (bp_dropped_pins g))
                                     (False, pr_slot_conflicts pass)
          in (filed, g, pass\<lparr> pr_slot_conflicts := conflicts \<rparr>))"

definition choice_is_new :: "'cfg backtrack_params \<Rightarrow> mask_choice \<Rightarrow> bool" where
  "choice_is_new grown c =
     list_ex (\<lambda>(t, parents).
         \<lparr> me_neg = neg_of t, me_reason = SlotConflictMask parents \<rparr>
           \<notin> set (bucket (bp_runtime_pkg_mask grown) (fst t, fst (snd t))))
       (choice_members c)"

definition step_slot_conflict_backtrack ::
  "('cfg, 'x) scanners \<Rightarrow> 'cfg resolve_ctx \<Rightarrow> 'cfg \<Rightarrow> 'cfg backtrack_params \<times> 'x pass_result \<Rightarrow> ('cfg, 'x) step" where
  "step_slot_conflict_backtrack sn ctx config st =
     (case st of (grown, pass) \<Rightarrow>
        (case pr_slot_conflicts pass of
           [] \<Rightarrow> Inr (grown, pass)
         | sc # _ \<Rightarrow>
             let choices = slot_conflict_mask_choices (cx_repos ctx) config (cx_excluded ctx) grown
                             (pr_slot_pullers pass) sc
             in if list_ex (choice_is_new grown) choices
                then Inl (Feedback (SlotConflictFeedback (fold_rebuild_scan sn ctx pass grown) choices), pass)
                else Inr (grown, pass)))"

definition autounmask_use_tier :: "(cp, (string, bool) fmap) fmap \<Rightarrow> (string \<times> string list) list" where
  "autounmask_use_tier acc =
     sort (map (\<lambda>(cat, pkg).
         let flags = (case fmlookup acc (cat, pkg) of Some f \<Rightarrow> f | None \<Rightarrow> fmempty)
         in (cat @ ''/'' @ pkg,
             sort (map (\<lambda>f. if fmlookup flags f = Some True then f else ''-'' @ f) (sorted_list_of_fset (fmdom flags)))))
       (sorted_list_of_fset (fmdom acc)))"

definition step_autounmask ::
  "('cfg, 'x) scanners \<Rightarrow> 'cfg resolve_ctx \<Rightarrow> 'cfg backtrack_params \<times> 'x pass_result \<Rightarrow> ('cfg, 'x) step" where
  "step_autounmask sn ctx st =
     (case st of (grown, pass) \<Rightarrow>
        if bp_use_broke grown \<and> \<not> bp_disabled grown
        then Inl (Feedback (ConfigFeedback
               (grown\<lparr> bp_disabled := True, bp_suggest_keywords := False, bp_suggest_use := False,
                       bp_suggest_license := False, bp_suggest_masks := False, bp_use_config := fmempty,
                       bp_use_change_records := [], bp_config := None \<rparr>)), pass)
        else if pr_autounmask_grew pass
        then Inl (Feedback (ConfigFeedback
               (grown\<lparr> bp_config := Some (sn_use_tier sn (cx_config ctx) (autounmask_use_tier (bp_use_config grown))) \<rparr>)),
               pass)
        else Inr (grown, pass))"

definition edge_index :: "dep_edge list \<Rightarrow> string \<Rightarrow> nat option" where
  "edge_index deps atom = find (\<lambda>i. edge_atom (deps ! i) = atom \<or> edge_evaluated (deps ! i) = atom) [0..<length deps]"

definition trigger_preempted_by_use_miss :: "'x pass_result \<Rightarrow> bool" where
  "trigger_preempted_by_use_miss pass =
     (case pr_missing_dep_trigger pass of
        None \<Rightarrow> False
      | Some ((pc, pp), _, dep_atom) \<Rightarrow>
          (case find (\<lambda>e. e_category e = pc \<and> e_package e = pp \<and> edge_index (e_deps e) dep_atom \<noteq> None) (pr_entries pass) of
             None \<Rightarrow> False
           | Some owner \<Rightarrow>
               (case edge_index (e_deps owner) dep_atom of
                  None \<Rightarrow> False
                | Some trigger_idx \<Rightarrow>
                    list_ex (\<lambda>rep.
                        (case edge_index (e_deps owner) (uu_atom rep) of
                           None \<Rightarrow> False | Some rep_idx \<Rightarrow> rep_idx < trigger_idx)
                        \<and> list_ex (\<lambda>e. e_category e = uu_category rep \<and> e_package e = uu_package rep
                              \<and> e_outcome e = NoVisibleCandidate \<and> e_use_suggestion e = None
                              \<and> list_ex (\<lambda>r. r = (pc, pp)) (e_required_by e)) (pr_entries pass))
                      (pr_use_unsat_deps pass))))"

definition unsat_trigger_hit :: "cp fset \<Rightarrow> cpv fset \<Rightarrow> cp \<Rightarrow> bool" where
  "unsat_trigger_hit fresh binary_masks owner =
     (owner |\<in>| fresh \<or> owner |\<in>| (\<lambda>t. (fst t, fst (snd t))) |`| binary_masks)"

definition step_missing_dep ::
  "('cfg, 'x) scanners \<Rightarrow> 'cfg resolve_ctx \<Rightarrow> 'cfg backtrack_params \<times> 'x pass_result \<Rightarrow> ('cfg, 'x) step" where
  "step_missing_dep sn ctx st =
     (case st of (grown, pass0) \<Rightarrow>
        let trigger = (if trigger_preempted_by_use_miss pass0 then None else pr_missing_dep_trigger pass0);
            pass = pass0\<lparr> pr_missing_dep_trigger := None \<rparr>
        in (case trigger of
              None \<Rightarrow> Inr (grown, pass)
            | Some (owner, neg, dep_atom) \<Rightarrow>
                let mask = (\<lambda>g. (Feedback (MissingDepFeedback g owner
                              \<lparr> me_neg = neg, me_reason = MissingDependency owner dep_atom \<rparr>), pass))
                in if 0 < cx_backtrack_max ctx \<and> \<not> cx_usepkgonly ctx \<and>
                      (case parse_dep_atom dep_atom of Some a \<Rightarrow> is_built_slot_op a | None \<Rightarrow> False)
                   then
                     let (fresh, binary_masks) = sn_unsatisfied sn pass (bp_runtime_pkg_mask grown)
                     in if unsat_trigger_hit fresh binary_masks owner
                        then
                          let (filed, g) = file_unsat_probe_results (cx_vdb ctx) (cx_usepkgonly ctx) fresh binary_masks grown
                          in Inl (if filed then (Feedback (ConfigFeedback g), pass) else mask g)
                        else Inl (mask grown)
                   else Inl (mask grown)))"

definition report_row ::
  "'x pass_result \<Rightarrow> rev_dep_pin \<Rightarrow> string \<times> string \<Rightarrow> 'cfg backtrack_params \<Rightarrow> 'cfg backtrack_params" where
  "report_row pass pin nv grown =
     (case nv of (neg, ver) \<Rightarrow>
        if pin_spares pass pin ver then grown
        else case fmlookup (bp_runtime_pkg_mask grown) (rp_cp pin) of
               None \<Rightarrow> grown
             | Some b \<Rightarrow>
                 let row = (rp_consumer pin, rp_atom pin)
                 in grown\<lparr> bp_runtime_pkg_mask := fmupd (rp_cp pin)
                      (extend_reason neg (\<lambda>parents. if row \<in> set parents then parents else sort (parents @ [row])) b)
                      (bp_runtime_pkg_mask grown) \<rparr>)"

definition report_pin :: "'x pass_result \<Rightarrow> rev_dep_pin \<Rightarrow> 'cfg backtrack_params \<Rightarrow> 'cfg backtrack_params" where
  "report_pin pass pin grown =
     (let k = (rp_cp pin, rp_atom pin, rp_consumer pin)
      in if k |\<in>| bp_reverse_dep_conflict_parents grown then grown
         else fold (report_row pass pin) (masked_versions pass (rp_cp pin))
                (grown\<lparr> bp_reverse_dep_conflict_parents := finsert k (bp_reverse_dep_conflict_parents grown) \<rparr>))"

definition step_reverse_dep_pins ::
  "'cfg resolve_ctx \<Rightarrow> reverse_scan \<Rightarrow> 'cfg backtrack_params \<times> 'x pass_result \<Rightarrow> ('cfg, 'x) step" where
  "step_reverse_dep_pins ctx scan st =
     (case st of (grown, pass) \<Rightarrow>
        let (added, g1) = apply_pins pass (cx_backtrack_max ctx) (rs_enforced scan) grown;
            g = push_dropped (rs_dropped scan) (fold (report_pin pass) (rs_report scan) g1)
        in if added then Inl (Feedback (RevDepFeedback g), pass) else Inr (g, pass))"

text \<open>The rebuild trigger, the prune restart and the elimination of rebuilds, in their order.\<close>

definition step_unsatisfied_dead_end ::
  "('cfg, 'x) scanners \<Rightarrow> 'cfg resolve_ctx \<Rightarrow> rev_dep_pin list \<Rightarrow> 'cfg backtrack_params \<times> 'x pass_result \<Rightarrow>
   ('cfg, 'x) step" where
  "step_unsatisfied_dead_end sn ctx reverse_pins st =
     (case st of (grown, pass) \<Rightarrow>
        if pr_suppressed_nvc pass \<or> no_visible pass \<or> cx_backtrack_max ctx = 0 \<or> cx_ignore_built ctx
           \<or> \<not> cx_rebuild_if_new_slot ctx
        then Inr (grown, pass\<lparr> pr_abi_rebuilds := Some [] \<rparr>)
        else
          let (scheduled0, abi_rebuilds, masked_binaries) =
                sn_rebuild sn pass (bp_replace_installed grown) (bp_undone grown);
              (force_consumers, forced) = sn_force sn pass scheduled0 (bp_undone grown);
              scheduled = drop_masked_installed (cx_vdb ctx) grown (bp_replace_installed grown)
                            (scheduled0 |\<union>| force_consumers);
              pass' = pass\<lparr> pr_abi_rebuilds := Some abi_rebuilds \<rparr>;
              forced_new = (\<not> forced |\<subseteq>| bp_forced_upgrade grown);
              (masks_new, g) = fold mask_binary masked_binaries
                (False, grown\<lparr> bp_forced_upgrade := bp_forced_upgrade grown |\<union>| forced \<rparr>)
          in if scheduled \<noteq> bp_replace_installed g \<or> masks_new \<or> forced_new
             then Inl (Feedback (ConfigFeedback (g\<lparr> bp_replace_installed := scheduled \<rparr>)), pass')
             else if \<not> bp_prune_rebuilds g \<and> bp_replace_installed g \<noteq> {||} \<and> pr_slot_conflicts pass' = []
                     \<and> (case sn_missed_updates sn pass' g of (skipped, missing, full) \<Rightarrow>
                          skipped \<noteq> [] \<or> missing \<noteq> [] \<or> full \<noteq> [] \<or> pr_skipped_updates pass' \<noteq> [])
             then Inl (Feedback (ConfigFeedback (apply_prune_rebuilds g)), pass')
             else
               let demoted = (if pr_slot_conflicts pass' = [] then sn_eliminate sn pass' (bp_replace_installed g) reverse_pins
                              else [])
               in if demoted \<noteq> []
                  then Inl (Feedback (ConfigFeedback
                         (g\<lparr> bp_replace_installed := bp_replace_installed g |-| fset_of_list demoted,
                             bp_undone := bp_undone g |\<union>| fset_of_list demoted \<rparr>)), pass')
                  else Inr (g, pass'))"

definition entry_key :: "graph_entry \<Rightarrow> root_cp" where
  "entry_key e = (e_targets_running_root e, e_category e, e_package e)"

definition record_index_cycle ::
  "graph_entry list \<Rightarrow> nat list \<Rightarrow> 'cfg backtrack_params \<Rightarrow> 'cfg backtrack_params" where
  "record_index_cycle entries cycle grown =
     fold (\<lambda>i g.
         let child = entries ! (cycle ! ((i + length cycle - 1) mod length cycle));
             parent = entries ! (cycle ! i)
         in (case merge_bound_version (e_outcome child) of
               None \<Rightarrow> g
             | Some v \<Rightarrow>
                 if v = [] then g
                 else snd (record_child (entry_key parent)
                        \<lparr> cd_category = e_category child, cd_package = e_package child, cd_version = v,
                          cd_slot = e_slot child, cd_sub_slot = e_sub_slot child \<rparr> (False, g))))
       [0..<length cycle] grown"

definition step_no_leaf_restart ::
  "('cfg, 'x) scanners \<Rightarrow> 'cfg resolve_ctx \<Rightarrow> bool \<Rightarrow> 'cfg backtrack_params \<times> 'x pass_result \<Rightarrow> ('cfg, 'x) step" where
  "step_no_leaf_restart sn ctx has_nvc st =
     (case st of (grown, pass) \<Rightarrow>
        if 0 < cx_backtrack_max ctx \<and> \<not> has_nvc \<and> pr_slot_conflicts pass = [] \<and> pr_orphan_blockers pass = []
        then
          let cycles = sn_restart_cycles sn pass (bp_circular grown);
              unsolved = list_ex (\<lambda>idx. entry_key (pr_entries pass ! idx) |\<in>| fmdom (bp_circular grown)) (concat cycles)
          in if cycles \<noteq> [] \<and> \<not> unsolved
             then Inl (Feedback (CircularFeedback (fold (record_index_cycle (pr_entries pass)) cycles grown)), pass)
             else Inr (grown, pass)
        else Inr (grown, pass))"

definition step_slot_operator_probe ::
  "('cfg, 'x) scanners \<Rightarrow> 'cfg resolve_ctx \<Rightarrow> bool \<Rightarrow> 'cfg backtrack_params \<times> 'x pass_result \<Rightarrow> ('cfg, 'x) step" where
  "step_slot_operator_probe sn ctx has_nvc st =
     (case st of (grown, pass) \<Rightarrow>
        if has_nvc \<and> 0 < cx_backtrack_max ctx
        then
          let (fresh, binary_masks) = sn_unsatisfied sn pass (bp_runtime_pkg_mask grown);
              (filed, g) = file_unsat_probe_results (cx_vdb ctx) (cx_usepkgonly ctx) fresh binary_masks grown
          in if filed then Inl (Feedback (ConfigFeedback g), pass) else Inr (g, pass)
        else Inr (grown, pass))"

definition step_rebuild_if_restart ::
  "('cfg, 'x) scanners \<Rightarrow> 'cfg resolve_ctx \<Rightarrow> bool \<Rightarrow> 'cfg backtrack_params \<times> 'x pass_result \<Rightarrow> ('cfg, 'x) step" where
  "step_rebuild_if_restart sn ctx has_nvc st =
     (case st of (grown, pass) \<Rightarrow>
        if \<not> has_nvc \<and> pr_slot_conflicts pass = [] \<and> 0 < cx_backtrack_max ctx \<and> \<not> cx_nodeps ctx
           \<and> (cx_rebuild_if_unbuilt ctx \<or> cx_rebuild_if_new_rev ctx \<or> cx_rebuild_if_new_ver ctx)
        then
          let fresh = sn_rebuild_if sn pass (bp_rebuild_if_replace grown)
          in if \<not> fresh |\<subseteq>| bp_rebuild_if_replace grown
             then Inl (Feedback (ConfigFeedback
                    (grown\<lparr> bp_rebuild_if_replace := bp_rebuild_if_replace grown |\<union>| fresh \<rparr>)), pass)
             else Inr (grown, pass)
        else Inr (grown, pass))"

definition step_installed_parent_update_probe ::
  "('cfg, 'x) scanners \<Rightarrow> 'cfg resolve_ctx \<Rightarrow> 'cfg backtrack_params \<times> 'x pass_result \<Rightarrow> ('cfg, 'x) step" where
  "step_installed_parent_update_probe sn ctx st =
     (case st of (grown, pass) \<Rightarrow>
        if cx_backtrack_max ctx = 0 \<or> \<not> cx_update ctx then Inr (grown, pass)
        else
          let fresh = sn_installed_parent sn pass (bp_runtime_pkg_mask grown);
              (filed, g) = file_unsat_probe_results (cx_vdb ctx) (cx_usepkgonly ctx) fresh {||} grown
          in if \<not> filed then Inr (g, pass)
             else Inl (Feedback (ConfigFeedback
                    (fold_rebuild_scan sn ctx pass (g\<lparr> bp_probe_replaced := bp_probe_replaced g |\<union>| fresh \<rparr>))), pass))"

section \<open>The decision chain\<close>

definition skip_when :: "bool \<Rightarrow> ('s \<Rightarrow> 'r + 's) \<Rightarrow> 's \<Rightarrow> 'r + 's" where
  "skip_when b f st = (if b then Inr st else f st)"

text \<open>The pins and seeds that restart before everything else.\<close>

definition early_feed ::
  "('cfg, 'x) scanners \<Rightarrow> 'cfg resolve_ctx \<Rightarrow> reverse_scan \<Rightarrow> 'x pass_result \<Rightarrow> 'cfg backtrack_params \<Rightarrow>
   bool \<times> 'cfg backtrack_params" where
  "early_feed sn ctx scan pass grown0 =
     (let holder_open_cps = map rp_cp (filter rp_holder_open (rs_enforced scan));
          (holder_open_added, g1) = apply_pins pass (cx_backtrack_max ctx)
            (filter (\<lambda>pin. rp_holder_open pin \<or> rp_cp pin \<in> set holder_open_cps) (rs_enforced scan)) grown0;
          g2 = (if pr_slot_conflicts pass \<noteq> [] then push_dropped (rs_dropped scan) g1 else g1);
          feed = sn_seeds sn pass g2;
          expansion_added = list_ex (\<lambda>s. s |\<notin>| bp_expansion_seeds g2) (ef_seeds feed);
          g = g2\<lparr> bp_expansion_seeds := bp_expansion_seeds g2 |\<union>| fset_of_list (ef_seeds feed),
                  bp_posture_holds := (bp_posture_holds g2 |\<union>| fset_of_list (ef_holds_added feed))
                                      |-| fset_of_list (ef_holds_dropped feed) \<rparr>
      in (expansion_added \<or> holder_open_added, g))"

definition conflict_steps ::
  "('cfg, 'x) scanners \<Rightarrow> 'cfg resolve_ctx \<Rightarrow> 'cfg \<Rightarrow> reverse_scan \<Rightarrow> 'cfg backtrack_params \<times> 'x pass_result \<Rightarrow>
   ('cfg, 'x) step" where
  "conflict_steps sn ctx config scan st0 =
     res_bind (step_circular_dead_end sn st0) (\<lambda>st1.
     let walk_stopped = (\<not> cx_complete ctx \<and> pass_has_unsatisfied_dep (snd st1))
     in res_bind (skip_when walk_stopped (step_slot_conflict_abi sn ctx) st1) (\<lambda>st2.
        res_bind (skip_when walk_stopped (step_solvable_slot_conflicts sn ctx) st2) (\<lambda>st3.
        case file_consumer_pin_conflicts sn ctx scan st3 of (filed, st4) \<Rightarrow>
        res_bind (skip_when (\<not> filed) (step_slot_conflict_abi sn ctx) st4) (\<lambda>st5.
        skip_when walk_stopped (step_slot_conflict_backtrack sn ctx config) st5))))"

definition settle_steps ::
  "('cfg, 'x) scanners \<Rightarrow> 'cfg resolve_ctx \<Rightarrow> reverse_scan \<Rightarrow> 'cfg backtrack_params \<times> 'x pass_result \<Rightarrow>
   ('cfg, 'x) step" where
  "settle_steps sn ctx scan st0 =
     res_bind (step_autounmask sn ctx st0) (\<lambda>st1.
     res_bind (step_missing_dep sn ctx st1) (\<lambda>st2.
     res_bind (step_reverse_dep_pins ctx scan st2) (\<lambda>st3.
     let has_nvc = (pr_suppressed_nvc (snd st3) \<or> no_visible (snd st3))
     in res_bind (step_unsatisfied_dead_end sn ctx (rs_enforced scan @ rs_dropped scan) st3) (\<lambda>st4.
        res_bind (step_no_leaf_restart sn ctx has_nvc st4) (\<lambda>st5.
        res_bind (step_slot_operator_probe sn ctx has_nvc st5) (\<lambda>st6.
        res_bind (step_rebuild_if_restart sn ctx has_nvc st6) (\<lambda>st7.
        res_bind (skip_when (has_nvc \<or> pr_slot_conflicts (snd st7) \<noteq> []) (step_installed_parent_update_probe sn ctx) st7)
          (\<lambda>st8. Inl (if has_nvc then DeadEnd (fst st8) else Settle (fst st8), snd st8)))))))))"

definition probe_filed_step :: "bool \<Rightarrow> 'cfg backtrack_params \<times> 'x pass_result \<Rightarrow> ('cfg, 'x) step" where
  "probe_filed_step probe_filed st =
     (if probe_filed then Inl (Feedback (ConfigFeedback (fst st)), snd st) else Inr st)"

definition collect_feedback ::
  "('cfg, 'x) scanners \<Rightarrow> 'cfg resolve_ctx \<Rightarrow> 'cfg \<Rightarrow> 'cfg backtrack_params \<Rightarrow> 'x pass_result \<Rightarrow>
   'cfg pass_decision \<times> 'x pass_result" where
  "collect_feedback sn ctx config params pass =
     (let scan = sn_reverse sn pass;
          (restart, grown) = early_feed sn ctx scan pass (fold_overlay pass params)
      in if restart then (Feedback (RevDepFeedback grown), pass)
         else
           case res_bind (step_built_parent_update_probe sn ctx (grown, pass)) (\<lambda>(probe_filed, st1).
                res_bind (conflict_steps sn ctx config scan st1) (\<lambda>st2.
                res_bind (probe_filed_step probe_filed st2) (\<lambda>st3.
                settle_steps sn ctx scan st3))) of
             Inl d \<Rightarrow> d
           | Inr (g, p) \<Rightarrow> (Settle g, p))"

end
