(* ===== verification/PassReplay.thy ===== *)
theory PassReplay
  imports ReplayOk Feedback
begin

text \<open>
  The replay in the resolver (\<open>resolve/replay.rs\<close>): the USE model of an entry, the clean pass after an
  autounmask breakage, what is left of its report, and the flips and slot conflicts of a replayed pass.
  What the profile, the metadata and the display of USE give is read through \<open>profile_view\<close>.
\<close>

section \<open>What the replay reads\<close>

record 'cfg profile_view =
  pv_valid_iuse :: "string set \<Rightarrow> 'cfg \<Rightarrow> string set"
  pv_effective_use :: "repo_candidate \<Rightarrow> string \<Rightarrow> string \<Rightarrow> 'cfg \<Rightarrow> string set"
  pv_fixed_flags :: "repo_candidate \<Rightarrow> string \<Rightarrow> string \<Rightarrow> 'cfg \<Rightarrow> string set"
  pv_candidate_use :: "repo_candidate \<Rightarrow> string \<Rightarrow> string \<Rightarrow> 'cfg \<Rightarrow> string set option"
  pv_metadata :: "string \<Rightarrow> string \<Rightarrow> string \<Rightarrow> (string, string) fmap option"
  pv_tree_display ::
    "repo_candidate \<Rightarrow> (string, string) fmap \<Rightarrow> string set \<Rightarrow> 'cfg \<Rightarrow> string \<Rightarrow> string \<Rightarrow> (string \<times> string) list"
  pv_expand_display :: "(string \<times> bool) list \<Rightarrow> 'cfg \<Rightarrow> string set \<Rightarrow> bool \<Rightarrow> (string \<times> string) list"
  pv_atom_form :: "repo_candidate \<Rightarrow> repo_candidate list \<Rightarrow> string \<Rightarrow> string \<Rightarrow> 'cfg \<Rightarrow> string"
  pv_chain_line :: "graph_entry \<Rightarrow> 'cfg \<Rightarrow> cp \<Rightarrow> (string \<times> string) option"
  pv_label :: "string \<Rightarrow> string"

definition entry_cp :: "graph_entry \<Rightarrow> cp" where
  "entry_cp e = (e_category e, e_package e)"

definition same_repo :: "graph_entry \<Rightarrow> repo_candidate \<Rightarrow> bool" where
  "same_repo e c = (case e_repo_name e of None \<Rightarrow> True | Some r \<Rightarrow> r = rc_repo_name c)"

definition declared_flags :: "repo_candidate \<Rightarrow> string set" where
  "declared_flags c = set (map (dropWhile (\<lambda>x. x = CHR ''+'' \<or> x = CHR ''-'')) (split_whitespace (rc_iuse c)))"

definition replay_use_of :: "'cfg profile_view \<Rightarrow> 'cfg resolve_ctx \<Rightarrow> graph_entry \<Rightarrow> replay_use option" where
  "replay_use_of pv ctx e =
     (if e_source e \<noteq> Ebuild then None
      else
        Option.bind (merge_bound_version (e_outcome e)) (\<lambda>version.
        Option.bind (rv_candidates (cx_repos ctx) (e_category e) (e_package e)) (\<lambda>cands.
        Option.bind (find (\<lambda>c. rc_version c = version \<and> same_repo e c) cands) (\<lambda>cand.
          Some \<lparr> ru_iuse = pv_valid_iuse pv (declared_flags cand) (cx_config ctx),
                 ru_enabled = pv_effective_use pv cand (e_category e) (e_package e) (cx_config ctx),
                 ru_fixed = pv_fixed_flags pv cand (e_category e) (e_package e) (cx_config ctx) \<rparr>))))"

definition replay_walk ::
  "'cfg profile_view \<Rightarrow> 'cfg resolve_ctx \<Rightarrow> graph_entry list \<Rightarrow> bool \<Rightarrow> use_needed \<Rightarrow> walk_replay option" where
  "replay_walk pv ctx entries allow_flips needed_init =
     replay_create_graph (cx_vdb ctx) entries (cx_atoms ctx) allow_flips needed_init
       (\<lambda>i. replay_use_of pv ctx (entries ! i))"

definition pass_has_use_changes :: "'cfg backtrack_params \<Rightarrow> 'x pass_result \<Rightarrow> bool" where
  "pass_has_use_changes params pass \<longleftrightarrow>
     pr_use_changes pass \<noteq> [] \<or> pr_use_overlay pass \<noteq> fmempty \<or> bp_use_config params \<noteq> fmempty"

definition breakage_clean_params :: "'cfg backtrack_params \<Rightarrow> 'cfg backtrack_params" where
  "breakage_clean_params params =
     params\<lparr> bp_disabled := True, bp_suggest_keywords := False, bp_suggest_use := False,
             bp_suggest_license := False, bp_suggest_masks := False, bp_use_config := fmempty,
             bp_use_change_records := [], bp_config := None \<rparr>"

section \<open>The result\<close>

text \<open>What the replay and the driver read or set of \<open>GraphResult\<close> (\<open>result.rs\<close>); the rest is \<open>gr_rest\<close>.\<close>

datatype abort_reason =
    MaskedDep string string
  | UnsatisfiedAtom string string
  | UnserializableCycle "string list"
  | VirtualCycle "string list"

datatype resolve_outcome = Complete | Aborted abort_reason "graph_entry list"

record 'y dep_report =
  rep_category :: string
  rep_package :: string
  rep_atom :: string
  rep_chain :: "(string \<times> string) list"
  rep_rest :: 'y

record ('y, 'r) graph_result =
  gr_entries :: "graph_entry list"
  gr_outcome :: resolve_outcome
  gr_backtrack_restarts :: nat
  gr_backtrack_max :: "32 word"
  gr_slot_conflicts :: "slot_conflict list"
  gr_prune_unresolved :: bool
  gr_missing_args :: "string list"
  gr_masked_deps :: "'y dep_report list"
  gr_use_unsat_deps :: "'y dep_report list"
  gr_plain_miss_deps :: "'y dep_report list"
  gr_settled_with_backtracking :: bool
  gr_rest :: 'r

section \<open>Fail-fast truncation\<close>

text \<open>
  The chain of the failing parent, innermost first: \<open>guard\<close> more entries after the one at hand. The
  lines are those of \<open>chain_node_line\<close>; an argument ends the chain.
\<close>

fun failure_chain ::
  "(graph_entry \<Rightarrow> cp \<Rightarrow> (string \<times> string) option) \<Rightarrow> (nat \<Rightarrow> string) \<Rightarrow> graph_entry list \<Rightarrow> walk_replay \<Rightarrow>
   nat \<Rightarrow> nat \<Rightarrow> cp \<Rightarrow> (string \<times> string) list" where
  "failure_chain line label entries r guard cur child =
     (case line (entries ! cur) child of
        None \<Rightarrow> []
      | Some l \<Rightarrow>
          l # (case wr_admitted_arg r ! cur of
                 Some ai \<Rightarrow> [(label ai, ''argument'')]
               | None \<Rightarrow>
                   (case wr_admitted_by r ! cur of
                      None \<Rightarrow> []
                    | Some (p, _) \<Rightarrow>
                        (case guard of
                           0 \<Rightarrow> []
                         | Suc g \<Rightarrow> failure_chain line label entries r g p (entry_cp (entries ! cur))))))"

declare failure_chain.simps [simp del]

definition admission_rank :: "graph_entry list \<Rightarrow> walk_replay \<Rightarrow> cpv \<Rightarrow> nat option" where
  "admission_rank entries r =
     map_of (rev (List.map_filter (\<lambda>(pos, i).
       map_option (\<lambda>v. ((e_category (entries ! i), e_package (entries ! i), v), pos))
         (merge_bound_version (e_outcome (entries ! i))))
       (enumerate 0 (wr_admitted r))))"

definition truncate_conflict :: "(cpv \<Rightarrow> nat option) \<Rightarrow> slot_conflict \<Rightarrow> slot_conflict" where
  "truncate_conflict rank c =
     (let rank_of = (\<lambda>inst. rank (sc_category c, sc_package c, sci_version inst));
          parent_rank = (\<lambda>cpv. Option.bind (split_cpv (hd (split_char CHR '':'' cpv))) rank);
          kept = sort_key (\<lambda>inst. the (rank_of inst)) (filter (\<lambda>inst. rank_of inst \<noteq> None) (sc_instances c))
      in c\<lparr> sc_instances := map (\<lambda>inst. inst\<lparr> sci_parents :=
               filter (\<lambda>p. scp_parent_cpv p = [] \<or> parent_rank (scp_parent_cpv p) \<noteq> None) (sci_parents inst) \<rparr>) kept \<rparr>)"

definition truncate_outcome :: "graph_entry \<Rightarrow> string \<Rightarrow> resolve_outcome \<Rightarrow> resolve_outcome" where
  "truncate_outcome pe edge_atom' out =
     (let parent = (\<lambda>old. case merge_bound_version (e_outcome pe) of
                      Some v \<Rightarrow> e_category pe @ ''/'' @ e_package pe @ ''-'' @ v | None \<Rightarrow> old)
      in case out of
           Aborted (UnsatisfiedAtom _ cpv) partial \<Rightarrow> Aborted (UnsatisfiedAtom edge_atom' (parent cpv)) partial
         | Aborted (MaskedDep _ cpv) partial \<Rightarrow> Aborted (MaskedDep edge_atom' (parent cpv)) partial
         | _ \<Rightarrow> out)"

definition is_aborted :: "resolve_outcome \<Rightarrow> bool" where
  "is_aborted out = (case out of Aborted _ _ \<Rightarrow> True | Complete \<Rightarrow> False)"

text \<open>The truncation for the replay \<open>r\<close> of the result.\<close>

definition truncate_result ::
  "'cfg profile_view \<Rightarrow> 'cfg resolve_ctx \<Rightarrow> walk_replay \<Rightarrow> ('y, 'r) graph_result \<Rightarrow> ('y, 'r) graph_result" where
  "truncate_result pv ctx r result =
     (case wr_failure r of
        None \<Rightarrow> result
      | Some f \<Rightarrow>
          let entries = gr_entries result; pe = entries ! rf_parent f; edge = e_deps pe ! rf_edge f;
              same = (\<lambda>d. rep_category d = edge_category edge \<and> rep_package d = edge_package edge
                          \<and> rep_atom d = edge_atom edge);
              chain = failure_chain (\<lambda>e. pv_chain_line pv e (cx_config ctx)) (\<lambda>ai. pv_label pv (cx_atoms ctx ! ai))
                        entries r (length entries) (rf_parent f) (edge_category edge, edge_package edge);
              report = (\<lambda>ds. map (\<lambda>d. d\<lparr> rep_chain := chain \<rparr>) (filter same ds))
          in if \<not> list_ex same (gr_use_unsat_deps result) \<and> \<not> list_ex same (gr_plain_miss_deps result) then result
             else result\<lparr> gr_use_unsat_deps := report (gr_use_unsat_deps result),
                    gr_plain_miss_deps := report (gr_plain_miss_deps result),
                    gr_masked_deps := [],
                    gr_slot_conflicts := filter (\<lambda>c. 2 \<le> length (sc_instances c))
                      (map (truncate_conflict (admission_rank entries r)) (gr_slot_conflicts result)),
                    gr_outcome := truncate_outcome pe (edge_atom edge) (gr_outcome result) \<rparr>)"

definition fail_fast_truncate ::
  "'cfg profile_view \<Rightarrow> 'cfg resolve_ctx \<Rightarrow> ('y, 'r) graph_result \<Rightarrow> ('y, 'r) graph_result option" where
  "fail_fast_truncate pv ctx result =
     (if \<not> is_aborted (gr_outcome result) then Some result
      else map_option (\<lambda>r. truncate_result pv ctx r result) (replay_walk pv ctx (gr_entries result) False fmempty))"

definition run_breakage_clean_pass ::
  "'cfg profile_view \<Rightarrow> 'cfg resolve_ctx \<Rightarrow>
   ('cfg resolve_ctx \<Rightarrow> 'cfg backtrack_params \<Rightarrow> bool \<Rightarrow> 'e + 'x pass_result) \<Rightarrow>
   ('cfg resolve_ctx \<Rightarrow> 'cfg backtrack_params \<Rightarrow> 'x pass_result \<Rightarrow> 'cfg \<Rightarrow> nat \<Rightarrow> ('y, 'r) graph_result) \<Rightarrow>
   'cfg backtrack_params \<Rightarrow> nat \<Rightarrow> ('e + ('y, 'r) graph_result) option" where
  "run_breakage_clean_pass pv ctx run_pass assemble initial restarts =
     (let clean = breakage_clean_params initial
      in case run_pass ctx clean False of
           Inl e \<Rightarrow> Some (Inl e)
         | Inr pass \<Rightarrow>
             map_option Inr (fail_fast_truncate pv ctx (assemble ctx clean pass (cx_config ctx) restarts)))"

section \<open>Slot conflicts of a replayed pass\<close>

definition replay_conflict_use_display ::
  "'cfg profile_view \<Rightarrow> 'cfg resolve_ctx \<Rightarrow> graph_entry \<Rightarrow> string \<Rightarrow> (string \<times> string) list option" where
  "replay_conflict_use_display pv ctx e version =
     Option.bind (rv_candidates (cx_repos ctx) (e_category e) (e_package e)) (\<lambda>candidates.
     Option.bind (max_by_key rc_repo_priority (filter (\<lambda>c. rc_version c = version \<and> same_repo e c) candidates)) (\<lambda>cand.
     Option.bind (pv_metadata pv (rc_repo_location cand) (e_category e) (e_package e @ ''-'' @ version)) (\<lambda>metadata.
     Option.bind (pv_candidate_use pv cand (e_category e) (e_package e) (cx_config ctx)) (\<lambda>base.
       Some (pv_tree_display pv cand metadata (fold set_flag (e_use_flags_display e) base) (cx_config ctx)
               (e_category e) (e_package e))))))"

definition conflict_position :: "graph_entry list \<Rightarrow> string \<Rightarrow> string \<Rightarrow> string \<Rightarrow> nat option" where
  "conflict_position entries c p v =
     find (\<lambda>i. e_category (entries ! i) = c \<and> e_package (entries ! i) = p
               \<and> merge_bound_version (e_outcome (entries ! i)) = Some v) [0..<length entries]"

definition replay_parents ::
  "'cfg profile_view \<Rightarrow> 'cfg resolve_ctx \<Rightarrow> graph_entry list \<Rightarrow> walk_replay \<Rightarrow> nat \<Rightarrow> slot_conflict_parent list" where
  "replay_parents pv ctx entries r i =
     List.map_filter (\<lambda>(p, ei, t).
         if t \<noteq> i then None
         else
           let pe = entries ! p
           in map_option (\<lambda>v.
                case slot_conflict_meta (cx_repos ctx) (e_category pe) (e_package pe) v of
                  (sub, repo, slot) \<Rightarrow>
                    \<lparr> scp_parent_cpv = e_category pe @ ''/'' @ e_package pe @ ''-'' @ v @ '':'' @ slot @ ''/'' @ sub
                        @ ''::'' @ repo,
                      scp_atom = edge_atom (e_deps pe ! ei),
                      scp_use_display = (case replay_conflict_use_display pv ctx pe v of
                          Some d \<Rightarrow> d | None \<Rightarrow> e_use_expand_display pe),
                      scp_installed = False \<rparr>)
              (merge_bound_version (e_outcome pe)))
       (wr_edges r)"

definition replay_instance ::
  "'cfg profile_view \<Rightarrow> 'cfg resolve_ctx \<Rightarrow> graph_entry list \<Rightarrow> walk_replay \<Rightarrow> slot_conflict_instance \<Rightarrow> nat \<Rightarrow>
   slot_conflict_instance" where
  "replay_instance pv ctx entries r inst i =
     (let parents = replay_parents pv ctx entries r i
      in inst\<lparr> sci_parents := (if parents \<noteq> [] then parents else sci_parents inst),
               sci_use_display := (case replay_conflict_use_display pv ctx (entries ! i) (sci_version inst) of
                   Some d \<Rightarrow> d | None \<Rightarrow> sci_use_display inst) \<rparr>)"

text \<open>The position of an admitted entry in the admission order.\<close>

definition admission_pos :: "walk_replay \<Rightarrow> nat \<Rightarrow> nat option" where
  "admission_pos r i = map_of (rev (map (\<lambda>(k, i). (i, k)) (enumerate 0 (wr_admitted r)))) i"

definition replay_slot_conflict ::
  "'cfg profile_view \<Rightarrow> 'cfg resolve_ctx \<Rightarrow> graph_entry list \<Rightarrow> walk_replay \<Rightarrow> slot_conflict \<Rightarrow> slot_conflict" where
  "replay_slot_conflict pv ctx entries r c =
     (let idx = map (\<lambda>inst. case conflict_position entries (sc_category c) (sc_package c) (sci_version inst) of
                      Some i \<Rightarrow> if admission_pos r i = None then None else Some i
                    | None \<Rightarrow> None) (sc_instances c)
      in if None \<in> set idx then c
         else
           let instances = map2 (replay_instance pv ctx entries r) (sc_instances c) (map the idx);
               order = zip (map (\<lambda>i. the (admission_pos r (the i))) idx) instances
           in c\<lparr> sc_instances := map snd (sort_key fst order) \<rparr>)"

definition replay_slot_conflicts ::
  "'cfg profile_view \<Rightarrow> 'cfg resolve_ctx \<Rightarrow> graph_entry list \<Rightarrow> walk_replay \<Rightarrow> slot_conflict list \<Rightarrow> slot_conflict list" where
  "replay_slot_conflicts pv ctx entries r = map (replay_slot_conflict pv ctx entries r)"

section \<open>Flips of a replayed pass\<close>

text \<open>The changes of the walk that \<open>base\<close> did not have, by package and flag.\<close>

definition new_flips :: "walk_replay \<Rightarrow> use_needed \<Rightarrow> cp \<Rightarrow> (string \<times> bool) list" where
  "new_flips r base cp =
     (case fmlookup (wr_needed r) cp of
        None \<Rightarrow> []
      | Some flags \<Rightarrow> filter (\<lambda>(f, v). needed_flag base cp f \<noteq> Some v) (sorted_list_of_fmap flags))"

definition set_display_flag :: "string \<times> bool \<Rightarrow> (string \<times> bool) list \<Rightarrow> (string \<times> bool) list" where
  "set_display_flag c = (case c of (f, on) \<Rightarrow> map (\<lambda>(g, v). if g = f then (g, on) else (g, v)))"

definition flip_token :: "(string \<times> bool) list \<Rightarrow> string" where
  "flip_token new = join '' '' (map (\<lambda>(f, on). if on then f else CHR ''-'' # f) new)"

text \<open>An entry of the package: \<open>None\<close> when the flips do not land on it.\<close>

definition flip_entry ::
  "'cfg profile_view \<Rightarrow> 'cfg resolve_ctx \<Rightarrow> repo_candidate list \<Rightarrow> cp \<Rightarrow> (string \<times> bool) list \<Rightarrow> cp option \<Rightarrow>
   graph_entry \<Rightarrow> (graph_entry \<times> autounmask_change) option" where
  "flip_entry pv ctx cands cp new trigger e =
     (if entry_cp e \<noteq> cp \<or> e_source e \<noteq> Ebuild then None
      else
        Option.bind (merge_bound_version (e_outcome e)) (\<lambda>version.
          if \<not> list_all (\<lambda>(f, _). f \<in> fst ` set (e_use_flags_display e)) new then None
          else
            map_option (\<lambda>cand.
              let display = fold set_display_flag new (e_use_flags_display e);
                  forced = pv_fixed_flags pv cand (fst cp) (snd cp) (cx_config ctx)
              in (e\<lparr> e_use_flags_display := display,
                     e_use_expand_display := pv_expand_display pv display (cx_config ctx) forced True,
                     e_use_expand_display_p := pv_expand_display pv display (cx_config ctx) forced False \<rparr>,
                  \<lparr> am_atom = pv_atom_form pv cand cands (fst cp) (snd cp) (cx_config ctx), am_token = flip_token new,
                    am_dep_chain = [], am_trigger = trigger, am_mask_entry = None \<rparr>))
              (find (\<lambda>c. rc_version c = version \<and> same_repo e c) cands)))"

fun flip_entries ::
  "(graph_entry \<Rightarrow> (graph_entry \<times> autounmask_change) option) \<Rightarrow> graph_entry list \<Rightarrow> autounmask_change list \<Rightarrow>
   graph_entry list \<times> autounmask_change list" where
  "flip_entries flip [] changes = ([], changes)"
| "flip_entries flip (e # es) changes =
     (case flip e of
        None \<Rightarrow> (case flip_entries flip es changes of (es', cs) \<Rightarrow> (e # es', cs))
      | Some (e', c) \<Rightarrow> (case flip_entries flip es (push_record c changes) of (es', cs) \<Rightarrow> (e' # es', cs)))"

definition flip_package ::
  "'cfg profile_view \<Rightarrow> 'cfg resolve_ctx \<Rightarrow> walk_replay \<Rightarrow> use_needed \<Rightarrow> (cp \<Rightarrow> cp option) \<Rightarrow> cp \<Rightarrow>
   graph_entry list \<times> autounmask_change list \<Rightarrow> graph_entry list \<times> autounmask_change list" where
  "flip_package pv ctx r base origin_cp cp st =
     (case st of (entries, changes) \<Rightarrow>
        let new = new_flips r base cp
        in if new = [] then (entries, changes)
           else case rv_candidates (cx_repos ctx) (fst cp) (snd cp) of
             None \<Rightarrow> (entries, changes)
           | Some cands \<Rightarrow> flip_entries (flip_entry pv ctx cands cp new (origin_cp cp)) entries changes)"

definition apply_replay_flips ::
  "'cfg profile_view \<Rightarrow> 'cfg resolve_ctx \<Rightarrow> walk_replay \<Rightarrow> use_needed \<Rightarrow>
   graph_entry list \<Rightarrow> autounmask_change list \<Rightarrow> graph_entry list \<times> autounmask_change list" where
  "apply_replay_flips pv ctx r base entries changes =
     (let origin_cp = (\<lambda>cp. map_option (\<lambda>(p, _). entry_cp (entries ! p)) (fmlookup (wr_flip_origin r) cp))
      in fold (flip_package pv ctx r base origin_cp) (sorted_list_of_fset (fmdom (wr_needed r))) (entries, changes))"

end
