(* ===== verification/SlotSolver.thy ===== *)
theory SlotSolver
  imports BacktrackParams RequiredUse
begin

text \<open>
  The search of the slot-conflict handler for USE changes that solve the conflicts
  (\<open>resolve/slot_conflict_solutions.rs\<close>) and its input (\<open>slot_conflict_inputs.rs\<close>). The insertion-ordered
  maps are association lists without repeated keys, hash sets are sets.
\<close>

section \<open>Packages and conflicts\<close>

record pkg_key =
  pk_cpv :: string
  pk_installed :: bool

record handler_pkg =
  hp_key :: pkg_key
  hp_match_str :: string
  hp_iuse :: "string set"
  hp_use :: "string set"
  hp_required_use :: string

datatype parent_kind = Argument | Package handler_pkg

record handler_parent =
  hq_kind :: parent_kind
  hq_atom :: string
  hq_unevaluated :: string

record handler_conflict =
  hc_pkgs :: "handler_pkg list"
  hc_parents :: "handler_parent list"

record use_change =
  uc_cpv :: string
  uc_flags :: "(string \<times> bool) list"

record slot_solutions =
  ss_conflict_count :: nat
  ss_solution_count :: nat
  ss_changes :: "use_change list list"

datatype involved = InvEmpty | InvCond | InvEnabled | InvDisabled | InvContradiction
datatype forced = ForcedEmpty | ForcedEnabled | ForcedDisabled | ForcedContradiction

type_synonym 'v ordered = "(string \<times> 'v) list"
type_synonym solution = "(handler_pkg \<times> forced ordered) list"

fun ordered_set :: "string \<Rightarrow> 'v \<Rightarrow> 'v ordered \<Rightarrow> 'v ordered" where
  "ordered_set f v [] = [(f, v)]"
| "ordered_set f v ((g, w) # m) = (if g = f then (g, v) # m else (g, w) # ordered_set f v m)"

definition ordered_get :: "'v ordered \<Rightarrow> string \<Rightarrow> 'v option" where
  "ordered_get m f = map_of m f"

section \<open>What is left of an atom's USE dependencies\<close>

record violated =
  vi_enabled :: "string set"
  vi_disabled :: "string set"
  vi_required :: "string list"

text \<open>A token that is kept: \<open>valid\<close>, \<open>dflt_on\<close> and \<open>dflt_off\<close> say that the flag is declared or has a default.\<close>

definition token_kept :: "use_dep_op \<Rightarrow> bool \<Rightarrow> bool \<Rightarrow> bool \<Rightarrow> bool \<Rightarrow> bool \<Rightarrow> bool" where
  "token_kept op in_parent in_other valid dflt_on dflt_off =
     (let unset = (valid \<or> dflt_off); isset = (in_other \<or> \<not> valid \<and> dflt_on)
      in case op of
           UseEnabled \<Rightarrow> \<not> in_other \<and> unset
         | UseDisabled \<Rightarrow> isset
         | IfParentEnabled \<Rightarrow> in_parent \<and> \<not> in_other \<and> unset
         | EqualParent \<Rightarrow> if in_parent \<and> \<not> in_other then unset else if \<not> in_parent then isset else False
         | OppositeParent \<Rightarrow> if \<not> in_parent \<and> \<not> in_other then unset else if in_parent then isset else False
         | IfParentDisabled \<Rightarrow> \<not> in_parent \<and> isset)"

definition violated_conditionals ::
  "use_dep list \<Rightarrow> string set \<Rightarrow> string set \<Rightarrow> string set \<Rightarrow> violated option" where
  "violated_conditionals use_deps other_use iuse parent_use =
     (let with_default = (\<lambda>d. set (map ud_flag (filter (\<lambda>u. ud_default u = Some d) use_deps)));
          dflt_on = with_default DefaultEnabled; dflt_off = with_default DefaultDisabled;
          kept = (\<lambda>u. let f = ud_flag u; valid = f \<in> iuse
                  in if \<not> (valid \<or> f \<in> dflt_on \<or> f \<in> dflt_off) then True
                     else token_kept (ud_op u) (f \<in> parent_use) (f \<in> other_use) valid (f \<in> dflt_on) (f \<in> dflt_off));
          left = (\<lambda>op. set (map ud_flag (filter (\<lambda>u. kept u \<and> ud_op u = op) use_deps)))
      in if list_ex kept use_deps
         then Some \<lparr> vi_enabled = left UseEnabled, vi_disabled = left UseDisabled, vi_required = map ud_flag use_deps \<rparr>
         else None)"

section \<open>The search\<close>

record parent_view =
  vw_parent :: handler_parent
  vw_atom :: "atom option"
  vw_unevaluated :: "atom option"

record search =
  se_conflicts :: "handler_conflict list"
  se_views :: "parent_view list list"
  se_nodes :: "pkg_key set"

definition new_search :: "handler_conflict list \<Rightarrow> search" where
  "new_search conflicts =
     \<lparr> se_conflicts = conflicts,
       se_views = map (\<lambda>c. map (\<lambda>p. \<lparr> vw_parent = p, vw_atom = parse_dep_atom (hq_atom p),
                                     vw_unevaluated = parse_dep_atom (hq_unevaluated p) \<rparr>) (hc_parents c)) conflicts,
       se_nodes = set (map hp_key (concat (map hc_pkgs conflicts))) \<rparr>"

definition atom_use_deps :: "atom option \<Rightarrow> use_dep list" where
  "atom_use_deps a = (case Option.bind a a_use_deps of Some d \<Rightarrow> d | None \<Rightarrow> [])"

definition atom_matches :: "string \<Rightarrow> handler_pkg \<Rightarrow> string set \<Rightarrow> bool" where
  "atom_matches atom_str pkg use_set =
     (matches_some atom_str [hp_match_str pkg] \<and>
      (case Option.bind (parse_dep_atom atom_str) a_use_deps of
         Some deps \<Rightarrow> use_deps_satisfied deps (hp_iuse pkg) use_set
       | None \<Rightarrow> True))"

fun apply_force :: "string \<times> forced \<Rightarrow> string set \<Rightarrow> string set" where
  "apply_force (f, ForcedEnabled) use_set = insert f use_set"
| "apply_force (f, ForcedDisabled) use_set = use_set - {f}"
| "apply_force _ use_set = use_set"

definition apply_forced :: "string set \<Rightarrow> forced ordered \<Rightarrow> string set" where
  "apply_forced base changes = fold apply_force changes base"

definition forced_for :: "solution \<Rightarrow> pkg_key \<Rightarrow> forced ordered" where
  "forced_for sol key = (case find (\<lambda>(p, _). hp_key p = key) sol of Some (_, c) \<Rightarrow> c | None \<Rightarrow> [])"

definition force_next :: "handler_pkg \<Rightarrow> string \<Rightarrow> bool \<Rightarrow> forced option \<Rightarrow> forced" where
  "force_next pkg flag enable recorded =
     (let prior = (case recorded of Some v \<Rightarrow> v | None \<Rightarrow> ForcedEmpty)
      in if enable then (if prior = ForcedDisabled then ForcedContradiction else ForcedEnabled)
         else if prior = ForcedEnabled then ForcedContradiction
         else if flag \<in> hp_use pkg then ForcedDisabled
         else prior)"

fun force_flag :: "handler_pkg \<Rightarrow> string \<Rightarrow> bool \<Rightarrow> solution \<Rightarrow> solution" where
  "force_flag pkg flag enable [] = [(pkg, [(flag, force_next pkg flag enable None)])]"
| "force_flag pkg flag enable ((p, c) # sol) =
     (if hp_key p = hp_key pkg
      then (p, ordered_set flag (force_next pkg flag enable (ordered_get c flag)) c) # sol
      else (p, c) # force_flag pkg flag enable sol)"

definition conditional_form :: "use_dep list \<Rightarrow> string \<Rightarrow> use_dep_op option" where
  "conditional_form deps flag =
     Option.bind (find (\<lambda>u. ud_flag u = flag) deps)
       (\<lambda>u. if ud_op u = UseEnabled \<or> ud_op u = UseDisabled then None else Some (ud_op u))"

section \<open>A configuration\<close>

text \<open>An installed package whose USE differs from another instance cannot stay.\<close>

definition installed_differs :: "search \<Rightarrow> handler_pkg list \<Rightarrow> bool" where
  "installed_differs se config =
     list_ex (\<lambda>p. list_ex (\<lambda>c. list_ex (\<lambda>q. hp_key q = hp_key p) (hc_pkgs c) \<and>
         list_ex (\<lambda>q. hp_key q \<noteq> hp_key p \<and> (hp_iuse p \<noteq> hp_iuse q \<or> hp_use p \<noteq> hp_use q)) (hc_pkgs c))
       (se_conflicts se)) (filter (\<lambda>p. pk_installed (hp_key p)) config)"

definition note_flag :: "violated \<Rightarrow> string \<Rightarrow> involved ordered \<Rightarrow> involved ordered" where
  "note_flag v flag m =
     (let state = (case ordered_get m flag of Some s \<Rightarrow> s | None \<Rightarrow> InvEmpty)
      in ordered_set flag
           (if flag \<in> vi_enabled v
            then (if state \<in> {InvEmpty, InvCond, InvEnabled} then InvEnabled else InvContradiction)
            else if flag \<in> vi_disabled v
            then (if state \<in> {InvEmpty, InvCond, InvDisabled} then InvDisabled else InvContradiction)
            else if state = InvEmpty then InvCond else state) m)"

definition view_violated :: "handler_pkg \<Rightarrow> parent_view \<Rightarrow> violated option" where
  "view_violated pkg vw =
     (let evaluated = violated_conditionals (atom_use_deps (vw_atom vw)) (hp_use pkg) (hp_iuse pkg) {}
      in case hq_kind (vw_parent vw) of
           Package pp \<Rightarrow>
             if pk_installed (hp_key pp) then evaluated
             else violated_conditionals (atom_use_deps (vw_unevaluated vw)) (hp_use pkg) (hp_iuse pkg) (hp_use pp)
         | Argument \<Rightarrow> evaluated)"

text \<open>One parent of a package: \<open>None\<close> rejects the configuration.\<close>

definition view_involved ::
  "search \<Rightarrow> pkg_key set \<Rightarrow> handler_pkg \<Rightarrow> parent_view \<Rightarrow> involved ordered \<Rightarrow> involved ordered option" where
  "view_involved se config_keys pkg vw m =
     (let atom_str = hq_atom (vw_parent vw);
          left_out = (case hq_kind (vw_parent vw) of
                        Package pp \<Rightarrow> hp_key pp \<in> se_nodes se \<and> hp_key pp \<notin> config_keys
                      | Argument \<Rightarrow> False)
      in if left_out \<or> atom_matches atom_str pkg (hp_use pkg) then Some m
         else if \<not> atom_matches (without_use atom_str) pkg (hp_use pkg) then None
         else if list_ex (\<lambda>u. ud_flag u \<notin> hp_iuse pkg) (atom_use_deps (vw_unevaluated vw)) then None
         else
           case view_violated pkg vw of
             None \<Rightarrow> Some m
           | Some v \<Rightarrow>
               if pk_installed (hp_key pkg) \<and> (vi_enabled v \<noteq> {} \<or> vi_disabled v \<noteq> {}) then None
               else Some (fold (note_flag v) (vi_required v) m))"

fun views_involved ::
  "search \<Rightarrow> pkg_key set \<Rightarrow> handler_pkg \<Rightarrow> parent_view list \<Rightarrow> involved ordered \<Rightarrow> involved ordered option" where
  "views_involved se config_keys pkg [] m = Some m"
| "views_involved se config_keys pkg (vw # vws) m =
     Option.bind (view_involved se config_keys pkg vw m) (views_involved se config_keys pkg vws)"

definition installed_state :: "handler_pkg \<Rightarrow> string \<times> involved \<Rightarrow> string \<times> involved" where
  "installed_state pkg fs =
     (case fs of (flag, state) \<Rightarrow>
        let on = (flag \<in> hp_use pkg)
        in (flag, case state of
                    InvEnabled \<Rightarrow> if on then InvEnabled else InvContradiction
                  | InvDisabled \<Rightarrow> if on then InvContradiction else InvDisabled
                  | InvCond \<Rightarrow> if on then InvEnabled else InvDisabled
                  | _ \<Rightarrow> state))"

definition pkg_involved :: "search \<Rightarrow> pkg_key set \<Rightarrow> nat \<times> handler_pkg \<Rightarrow> involved ordered option" where
  "pkg_involved se config_keys ip =
     (case ip of (idx, pkg) \<Rightarrow>
        Option.bind (views_involved se config_keys pkg (se_views se ! idx) []) (\<lambda>m.
          let m' = (if pk_installed (hp_key pkg) then map (installed_state pkg) m else m)
          in if InvContradiction \<in> snd ` set m' then None else Some m'))"

fun all_some :: "('a \<Rightarrow> 'b option) \<Rightarrow> 'a list \<Rightarrow> 'b list option" where
  "all_some f [] = Some []"
| "all_some f (x # xs) = Option.bind (f x) (\<lambda>y. Option.bind (all_some f xs) (\<lambda>ys. Some (y # ys)))"

section \<open>The settings of the flags\<close>

definition cond_slots :: "involved ordered list \<Rightarrow> (nat \<times> nat) list" where
  "cond_slots all_involved =
     concat (map (\<lambda>(i, m). map (\<lambda>(j, _). (i, j))
         (filter (\<lambda>(_, (_, s)). s \<noteq> InvEnabled \<and> s \<noteq> InvDisabled) (enumerate 0 m)))
       (enumerate 0 all_involved))"

text \<open>\<open>checked_shr\<close> gives nothing for 64 bits or more.\<close>

definition counter_bit :: "nat \<Rightarrow> nat \<Rightarrow> bool" where
  "counter_bit counter k = (k < 64 \<and> odd (counter div 2 ^ k))"

definition set_slot :: "nat \<times> nat \<Rightarrow> bool \<Rightarrow> bool ordered list \<Rightarrow> bool ordered list" where
  "set_slot ij b flags =
     (case ij of (i, j) \<Rightarrow> flags[i := (flags ! i)[j := (fst (flags ! i ! j), b)]])"

definition flag_setting :: "involved ordered list \<Rightarrow> nat \<Rightarrow> bool ordered list" where
  "flag_setting all_involved counter =
     (let slots = cond_slots all_involved
      in fold (\<lambda>(n, ij). set_slot ij (counter_bit counter (length slots - 1 - n))) (enumerate 0 slots)
           (map (map (\<lambda>(f, s). (f, s = InvEnabled))) all_involved))"

definition check_configuration_max :: nat where
  "check_configuration_max = 1024"

definition setting_count :: "nat \<Rightarrow> nat" where
  "setting_count n = (if n < 64 then 2 ^ n else 2 ^ 64 - 1)"

section \<open>A solution\<close>

definition force_own :: "handler_pkg \<Rightarrow> bool ordered \<Rightarrow> solution \<Rightarrow> solution" where
  "force_own pkg flags sol =
     (if pk_installed (hp_key pkg) then sol
      else fold (\<lambda>(f, enable) s. if f \<in> hp_iuse pkg then force_flag pkg f enable s else s) flags sol)"

fun forced_to :: "use_dep_op \<Rightarrow> bool \<Rightarrow> bool option" where
  "forced_to IfParentEnabled False = Some False"
| "forced_to IfParentDisabled True = Some False"
| "forced_to EqualParent e = Some e"
| "forced_to OppositeParent e = Some (\<not> e)"
| "forced_to _ _ = None"

definition force_parent :: "bool ordered \<Rightarrow> parent_view \<Rightarrow> solution \<Rightarrow> solution" where
  "force_parent flags vw sol =
     (case hq_kind (vw_parent vw) of
        Argument \<Rightarrow> sol
      | Package ppkg \<Rightarrow>
          fold (\<lambda>(f, enable) s.
              case Option.bind (conditional_form (atom_use_deps (vw_unevaluated vw)) f) (\<lambda>form. forced_to form enable) of
                None \<Rightarrow> s
              | Some b \<Rightarrow> force_flag ppkg f b s)
            flags sol)"

definition required_changes :: "search \<Rightarrow> handler_pkg list \<Rightarrow> bool ordered list \<Rightarrow> solution" where
  "required_changes se config flags =
     fold (\<lambda>(idx, pkg) sol. fold (force_parent (flags ! idx)) (se_views se ! idx) (force_own pkg (flags ! idx) sol))
       (enumerate 0 config) []"

definition definite :: "solution \<Rightarrow> bool" where
  "definite sol = list_all (\<lambda>(_, c). list_all (\<lambda>(_, s). s = ForcedEnabled \<or> s = ForcedDisabled) c) sol"

definition view_holds :: "solution \<Rightarrow> handler_pkg \<Rightarrow> parent_view \<Rightarrow> bool" where
  "view_holds sol pkg vw =
     (case hq_kind (vw_parent vw) of
        Argument \<Rightarrow> True
      | Package ppkg \<Rightarrow>
          (case evaluate_atom_conditionals (hq_unevaluated (vw_parent vw))
                  (apply_forced (hp_use ppkg) (forced_for sol (hp_key ppkg))) of
             Return (Some new_atom) \<Rightarrow>
               atom_matches new_atom pkg (apply_forced (hp_use pkg) (forced_for sol (hp_key pkg)))
           | _ \<Rightarrow> False))"

definition required_use_holds :: "handler_pkg \<times> forced ordered \<Rightarrow> bool" where
  "required_use_holds pc =
     (case pc of (pkg, changes) \<Rightarrow>
        split_whitespace (hp_required_use pkg) = [] \<or>
        (case check_required_use (hp_required_use pkg) (apply_forced (hp_use pkg) changes) (hp_iuse pkg) of
           Inl _ \<Rightarrow> True
         | Inr b \<Rightarrow> b))"

definition check_solution :: "search \<Rightarrow> handler_pkg list \<Rightarrow> bool ordered list \<Rightarrow> solution option" where
  "check_solution se config flags =
     (let required = required_changes se config flags
      in if definite required \<and>
            list_all (\<lambda>(idx, pkg). list_all (view_holds required pkg) (se_views se ! idx)) (enumerate 0 config) \<and>
            list_all required_use_holds required \<and> required \<noteq> []
         then Some required else None)"

definition check_configuration :: "search \<Rightarrow> handler_pkg list \<Rightarrow> solution list option" where
  "check_configuration se config =
     (if installed_differs se config then None
      else
        map_option (\<lambda>all_involved.
            List.map_filter (\<lambda>counter. check_solution se config (flag_setting all_involved counter))
              [0..<min (setting_count (length (cond_slots all_involved))) check_configuration_max])
          (all_some (pkg_involved se (set (map hp_key config))) (enumerate 0 config)))"

section \<open>Minimal changes\<close>

definition solution_change :: "solution \<Rightarrow> use_change list" where
  "solution_change sol =
     List.map_filter (\<lambda>(pkg, flags).
         let changed = List.map_filter (\<lambda>(f, state).
               if f \<notin> hp_iuse pkg then None
               else if state = ForcedEnabled \<and> f \<notin> hp_use pkg then Some (f, True)
               else if state = ForcedDisabled \<and> f \<in> hp_use pkg then Some (f, False)
               else None) flags
         in if changed = [] then None else Some \<lparr> uc_cpv = pk_cpv (hp_key pkg), uc_flags = changed \<rparr>)
       sol"

definition is_subset :: "use_change list \<Rightarrow> use_change list \<Rightarrow> bool" where
  "is_subset small big =
     list_all (\<lambda>s. case find (\<lambda>b. uc_cpv b = uc_cpv s) big of
         None \<Rightarrow> False
       | Some b \<Rightarrow> list_all (\<lambda>fv. fv \<in> set (uc_flags b)) (uc_flags s)) small"

definition add_change :: "use_change list \<Rightarrow> use_change list list \<Rightarrow> use_change list list" where
  "add_change new changes =
     (if list_ex (\<lambda>existing. is_subset existing new) changes then changes
      else filter (\<lambda>existing. \<not> is_subset new existing) changes @ [new])"

section \<open>The configurations\<close>

definition next_configuration :: "nat list \<Rightarrow> 'p list list \<Rightarrow> nat list option" where
  "next_configuration ids ordered =
     map_option (\<lambda>pos. take pos ids @ [ids ! pos + 1] @ replicate (length ids - pos - 1) 0)
       (find (\<lambda>pos. ids ! pos + 1 < length (ordered ! pos)) (rev [0..<length ids]))"

definition full_search_conflict_limit :: nat where
  "full_search_conflict_limit = 4"

definition ordered_pkgs :: "handler_conflict \<Rightarrow> handler_pkg list" where
  "ordered_pkgs c =
     filter (\<lambda>p. \<not> pk_installed (hp_key p)) (hc_pkgs c) @ filter (\<lambda>p. pk_installed (hp_key p)) (hc_pkgs c)"

text \<open>The digits that the odometer has left, first position first.\<close>

definition digits_left :: "nat list \<Rightarrow> 'p list list \<Rightarrow> nat list" where
  "digits_left ids ordered = map (\<lambda>pos. length (ordered ! pos) - ids ! pos) [0..<length ids]"

lemma find_some: "find P xs = Some x \<Longrightarrow> x \<in> set xs \<and> P x"
  by (induction xs) (auto split: if_splits)

lemma next_configuration_cases:
  assumes "next_configuration ids ordered = Some ids'"
  obtains pos where "pos < length ids" "ids ! pos + 1 < length (ordered ! pos)"
    "ids' = take pos ids @ [ids ! pos + 1] @ replicate (length ids - pos - 1) 0"
  using assms find_some [of "\<lambda>pos. ids ! pos + 1 < length (ordered ! pos)" "rev [0..<length ids]"]
  by (auto simp: next_configuration_def)

lemma next_configuration_less:
  assumes "next_configuration ids ordered = Some ids'"
  shows "(digits_left ids' ordered, digits_left ids ordered) \<in> lex less_than"
proof -
  obtain pos where p: "pos < length ids" "ids ! pos + 1 < length (ordered ! pos)"
    and ids': "ids' = take pos ids @ [ids ! pos + 1] @ replicate (length ids - pos - 1) 0"
    using assms by (rule next_configuration_cases)
  have len: "length ids' = length ids" using p by (simp add: ids')
  have nth: "ids' ! k = (if k < pos then ids ! k else if k = pos then ids ! pos + 1 else 0)" if "k < length ids" for k
    using that p by (auto simp: ids' nth_append nth_Cons')
  let ?f = "\<lambda>ids k. length (ordered ! k) - ids ! k"
  have split: "[0..<length ids] = [0..<pos] @ pos # [Suc pos..<length ids]"
    using p upt_add_eq_append [of 0 pos "length ids - pos"] by (simp add: upt_conv_Cons)
  have same: "map (?f ids') [0..<pos] = map (?f ids) [0..<pos]" using nth p by (auto intro: map_cong)
  have less: "?f ids' pos < ?f ids pos" using nth [OF p(1)] p by simp
  show ?thesis
    unfolding digits_left_def len split map_append list.map same lex_def
    using less by (auto simp: lexn_conv intro!: exI [of _ "map (?f ids) [0..<pos]"])
qed

function search_configurations ::
  "search \<Rightarrow> handler_pkg list list \<Rightarrow> nat list \<Rightarrow> bool \<Rightarrow> solution list \<Rightarrow> solution list" where
  "search_configurations se ordered ids first sols =
     (let found = (case check_configuration se (map (\<lambda>i. ordered ! i ! (ids ! i)) [0..<length ids]) of
                     Some f \<Rightarrow> f | None \<Rightarrow> [])
      in if first \<and> found \<noteq> [] \<or> full_search_conflict_limit < length ordered then sols @ found
         else (case next_configuration ids ordered of
                 None \<Rightarrow> sols @ found
               | Some ids' \<Rightarrow> search_configurations se ordered ids' False (sols @ found)))"
  by auto

termination
  by (relation "inv_image (lex less_than) (\<lambda>(se, ordered, ids, first, sols). digits_left ids ordered)")
    (auto simp: wf_lex next_configuration_less)

declare search_configurations.simps [simp del]

definition solve_slot_conflicts :: "handler_conflict list \<Rightarrow> slot_solutions" where
  "solve_slot_conflicts conflicts =
     (let ordered = map ordered_pkgs conflicts;
          solutions = (if ordered = [] \<or> [] \<in> set ordered then []
                       else search_configurations (new_search conflicts) ordered (replicate (length ordered) 0) True [])
      in \<lparr> ss_conflict_count = length conflicts, ss_solution_count = length solutions,
           ss_changes = fold (\<lambda>s. add_change (solution_change s)) solutions [] \<rparr>)"

section \<open>The conflicts of a graph\<close>

text \<open>What the handler's input reads of the installed packages, the repositories and the profile.\<close>

record 'cfg node_view =
  nv_vdb :: vdb_view
  nv_repos :: "'cfg repo_view"
  nv_installed_flags :: "string \<Rightarrow> string \<Rightarrow> string \<Rightarrow> string set \<times> string set"
  nv_flag_sets :: "string \<Rightarrow> string \<Rightarrow> string \<Rightarrow> string set \<times> string set"
  nv_metadata :: "string \<Rightarrow> string \<Rightarrow> string \<Rightarrow> (string, string) fmap option"

definition tree_metadata :: "'cfg node_view \<Rightarrow> cpv \<Rightarrow> (string, string) fmap option" where
  "tree_metadata nv n =
     (case n of (category, package, version) \<Rightarrow>
        Option.bind (rv_candidates (nv_repos nv) category package) (\<lambda>cs.
        Option.bind (max_by_key rc_repo_priority (filter (\<lambda>c. rc_version c = version) cs)) (\<lambda>cand.
          nv_metadata nv (rc_repo_location cand) category (package @ ''-'' @ version))))"

definition node_state :: "'cfg node_view \<Rightarrow> cpv \<Rightarrow> bool \<Rightarrow> string set \<times> string set \<times> string" where
  "node_state nv n installed =
     (case n of (category, package, version) \<Rightarrow>
        if installed
        then (case nv_installed_flags nv category package version of (iuse, use_flags) \<Rightarrow>
                (iuse, use_flags, vdb_aux (nv_vdb nv) category package version ''REQUIRED_USE''))
        else (case nv_flag_sets nv category package version of (iuse, use_flags) \<Rightarrow>
                (iuse, use_flags,
                 case Option.bind (tree_metadata nv n) (\<lambda>m. fmlookup m ''REQUIRED_USE'') of Some s \<Rightarrow> s | None \<Rightarrow> [])))"

definition dep_sources :: "'cfg node_view \<Rightarrow> cpv \<Rightarrow> bool \<Rightarrow> string list" where
  "dep_sources nv n installed =
     (case n of (category, package, version) \<Rightarrow>
        concat (map (\<lambda>key.
            case tree_metadata nv n of
              Some meta \<Rightarrow> (case fmlookup meta key of Some s \<Rightarrow> [s] | None \<Rightarrow> [])
            | None \<Rightarrow> if installed then [vdb_aux (nv_vdb nv) category package version key] else [])
          [''DEPEND'', ''RDEPEND'', ''BDEPEND'', ''PDEPEND'', ''IDEPEND'']))"

definition unevaluated_atom :: "'cfg node_view \<Rightarrow> cpv \<Rightarrow> bool \<Rightarrow> string set \<Rightarrow> string \<Rightarrow> string" where
  "unevaluated_atom nv n installed parent_use evaluated =
     (case find (\<lambda>tok. evaluate_atom_conditionals tok parent_use = Return (Some evaluated))
             (concat (map split_whitespace (dep_sources nv n installed))) of
        Some tok \<Rightarrow> tok
      | None \<Rightarrow> evaluated)"

definition handler_pkg_of :: "'cfg node_view \<Rightarrow> cpv \<Rightarrow> bool \<Rightarrow> string \<Rightarrow> handler_pkg" where
  "handler_pkg_of nv n installed match =
     (case n of (category, package, version) \<Rightarrow>
        case node_state nv n installed of (iuse, use_enabled, required_use) \<Rightarrow>
          \<lparr> hp_key = \<lparr> pk_cpv = category @ ''/'' @ package @ ''-'' @ version, pk_installed = installed \<rparr>,
            hp_match_str = match, hp_iuse = iuse, hp_use = use_enabled, hp_required_use = required_use \<rparr>)"

definition handler_parent_of :: "'cfg node_view \<Rightarrow> slot_conflict_parent \<Rightarrow> handler_parent" where
  "handler_parent_of nv p =
     (let cpv_text = hd (split_char CHR '':'' (scp_parent_cpv p))
      in case if cpv_text = [] then None else split_cpv cpv_text of
           None \<Rightarrow> \<lparr> hq_kind = Argument, hq_atom = scp_atom p, hq_unevaluated = scp_atom p \<rparr>
         | Some n \<Rightarrow>
             let pkg = handler_pkg_of nv n (scp_installed p) (scp_parent_cpv p)
             in \<lparr> hq_kind = Package pkg, hq_atom = scp_atom p,
                  hq_unevaluated = unevaluated_atom nv n (scp_installed p) (hp_use pkg) (scp_atom p) \<rparr>)"

definition add_instance ::
  "'cfg node_view \<Rightarrow> slot_conflict \<Rightarrow> slot_conflict_instance \<Rightarrow> handler_pkg list \<Rightarrow> handler_pkg list" where
  "add_instance nv sc inst pkgs =
     (let n = (sc_category sc, sc_package sc, sci_version inst);
          pkg = handler_pkg_of nv n (sci_installed inst)
            (sc_category sc @ ''/'' @ sc_package sc @ ''-'' @ sci_version inst @ '':'' @ sc_slot sc
             @ ''/'' @ sci_sub_slot inst @ ''::'' @ sci_repo_name inst)
      in if hp_key pkg \<in> set (map hp_key pkgs) then pkgs else pkgs @ [pkg])"

definition parent_id :: "slot_conflict_parent \<Rightarrow> string \<times> string \<times> bool" where
  "parent_id p = (scp_parent_cpv p, scp_atom p, scp_installed p)"

fun first_of :: "('a \<Rightarrow> 'b) \<Rightarrow> 'a list \<Rightarrow> 'b set \<Rightarrow> 'a list" where
  "first_of f [] seen = []"
| "first_of f (x # xs) seen = (if f x \<in> seen then first_of f xs seen else x # first_of f xs (insert (f x) seen))"

definition conflict_for_group :: "'cfg node_view \<Rightarrow> slot_conflict list \<Rightarrow> handler_conflict" where
  "conflict_for_group nv records =
     \<lparr> hc_pkgs = fold (add_instance nv (hd records)) (concat (map sc_instances records)) [],
       hc_parents = map (handler_parent_of nv)
         (first_of parent_id (concat (map sci_parents (concat (map sc_instances records)))) {}) \<rparr>"

definition slot_key :: "slot_conflict \<Rightarrow> string \<times> string \<times> string" where
  "slot_key c = (sc_category c, sc_package c, sc_slot c)"

definition solve_slot_conflict_records :: "'cfg node_view \<Rightarrow> slot_conflict list \<Rightarrow> slot_solutions" where
  "solve_slot_conflict_records nv conflicts =
     solve_slot_conflicts
       (map (\<lambda>record. conflict_for_group nv (filter (\<lambda>c. slot_key c = slot_key record) conflicts))
         (first_of slot_key conflicts {}))"

end
