(* ===== verification/Driver.thy ===== *)
theory Driver
  imports PassReplay SlotSolver
begin

text \<open>
  The backtracking loop (\<open>resolve/driver.rs\<close>): one pass for each node of the search tree, which settles
  the search, feeds back or fails; then, when the search ends without a result, the pass of the best run.
  What the loop calls and this library does not model (the walk of a pass, the assembly of the result
  and the scans) are the fields of a record; the counters are natural numbers, as an
  overflow needs \<open>2^64\<close> passes.
\<close>

section \<open>What the loop calls\<close>

record ('cfg, 'x, 'y, 'r, 'e) resolver =
  ro_profile :: "'cfg profile_view"
  ro_scanners :: "'cfg resolve_ctx \<Rightarrow> ('cfg, 'x) scanners"
  ro_context :: "32 word \<Rightarrow> 'e + 'cfg resolve_ctx"
  ro_run_pass :: "'cfg resolve_ctx \<Rightarrow> 'cfg backtrack_params \<Rightarrow> bool \<Rightarrow> 'e + 'x pass_result"
  ro_assemble :: "'cfg resolve_ctx \<Rightarrow> 'cfg backtrack_params \<Rightarrow> 'x pass_result \<Rightarrow> 'cfg \<Rightarrow> nat \<Rightarrow> ('y, 'r) graph_result"
  ro_nodes :: "'cfg resolve_ctx \<Rightarrow> 'cfg \<Rightarrow> 'cfg node_view"
  ro_live_pins :: "'cfg resolve_ctx \<Rightarrow> 'x pass_result \<Rightarrow> 'cfg \<Rightarrow> rev_dep_pin list \<times> rev_dep_pin list"
  ro_missed_updates :: "'cfg resolve_ctx \<Rightarrow> 'x pass_result \<Rightarrow> 'cfg backtrack_params \<Rightarrow> 'cfg \<Rightarrow> 'x list \<times> 'x list \<times> 'x list"

record 'cfg driver_state =
  dr_bt :: "'cfg backtracker"
  dr_first :: bool
  dr_passes :: nat
  dr_restarts :: nat
  dr_feed :: "'cfg backtrack_params option"
  dr_needed :: use_needed

text \<open>What an iteration does with the loop: \<open>continue\<close>, \<open>break\<close> or \<open>return\<close>.\<close>

datatype ('s, 'r) loop_exit = Again 's | Leave 's | Finish 'r

section \<open>Restarts that count\<close>

definition use_after :: "(string, bool) fmap \<Rightarrow> string set \<Rightarrow> string set" where
  "use_after changed old = fold set_flag (sorted_list_of_fmap changed) old"

definition flattened_differs :: "string set \<Rightarrow> string set \<Rightarrow> string \<Rightarrow> bool" where
  "flattened_differs old_use new_use text =
     (case (use_reduce_flat (split_whitespace text) old_use Normal, use_reduce_flat (split_whitespace text) new_use Normal) of
        (Ok old_flat, Ok new_flat) \<Rightarrow> sort old_flat \<noteq> sort new_flat
      | _ \<Rightarrow> True)"

fun add_version :: "graph_entry \<Rightarrow> (string \<times> string option) list \<Rightarrow> (string \<times> string option) list" where
  "add_version e versions =
     (case merge_bound_version (e_outcome e) of
        None \<Rightarrow> versions
      | Some v \<Rightarrow> if v \<in> fst ` set versions then versions else versions @ [(v, e_repo_name e)])"

definition changed_flags :: "use_needed \<Rightarrow> cp \<Rightarrow> (string, bool) fmap" where
  "changed_flags changes cp = (case fmlookup changes cp of Some m \<Rightarrow> m | None \<Rightarrow> fmempty)"

definition version_deps_change ::
  "'cfg profile_view \<Rightarrow> 'cfg resolve_ctx \<Rightarrow> cp \<Rightarrow> (string, bool) fmap \<Rightarrow> string \<times> string option \<Rightarrow> bool" where
  "version_deps_change pv ctx cp changed vr =
     (case Option.bind (rv_candidates (cx_repos ctx) (fst cp) (snd cp))
             (find (\<lambda>c. rc_version c = fst vr \<and> (case snd vr of None \<Rightarrow> True | Some r \<Rightarrow> r = rc_repo_name c))) of
        None \<Rightarrow> True
      | Some cand \<Rightarrow>
          let old_use = pv_effective_use pv cand (fst cp) (snd cp) (cx_config ctx)
          in case pv_metadata pv (rc_repo_location cand) (fst cp) (snd cp @ ''-'' @ fst vr) of
               None \<Rightarrow> True
             | Some metadata \<Rightarrow>
                 list_ex (\<lambda>key. flattened_differs old_use (use_after changed old_use)
                           (case fmlookup metadata key of Some s \<Rightarrow> s | None \<Rightarrow> []))
                   [''BDEPEND'', ''DEPEND'', ''IDEPEND'', ''PDEPEND'', ''RDEPEND'', ''LICENSE''])"

definition flattened_deps_change ::
  "'cfg profile_view \<Rightarrow> 'cfg resolve_ctx \<Rightarrow> 'x pass_result \<Rightarrow> cp \<Rightarrow> use_needed \<Rightarrow> bool" where
  "flattened_deps_change pv ctx pass cp changes =
     (let versions = fold add_version (filter (\<lambda>e. entry_cp e = cp) (pr_entries pass)) []
      in versions = [] \<or> list_ex (version_deps_change pv ctx cp (changed_flags changes cp)) versions)"

definition edge_use_breaks :: "(string \<times> bool) list \<Rightarrow> dep_edge \<Rightarrow> bool" where
  "edge_use_breaks changed d =
     (case parse_dep_atom (edge_atom d) of
        None \<Rightarrow> True
      | Some a \<Rightarrow>
          (case a_use_deps a of
             None \<Rightarrow> False
           | Some use_deps \<Rightarrow>
               let flags = (\<lambda>op. map ud_flag (filter (\<lambda>u. ud_op u = op) use_deps));
                   enabled = flags UseEnabled; disabled = flags UseDisabled
               in list_ex (\<lambda>u. ud_op u \<noteq> UseEnabled \<and> ud_op u \<noteq> UseDisabled) use_deps \<or>
                  list_ex (\<lambda>(flag, want). (flag \<in> set enabled \<or> flag \<in> set disabled) \<and> (flag \<in> set enabled) \<noteq> want)
                    changed))"

definition parent_use_dep_breaks :: "'x pass_result \<Rightarrow> cp \<Rightarrow> use_needed \<Rightarrow> bool" where
  "parent_use_dep_breaks pass cp changes =
     (let changed = sorted_list_of_fmap (changed_flags changes cp)
      in changed \<noteq> [] \<and>
         list_ex (\<lambda>e. list_ex (\<lambda>d. edge_category d = fst cp \<and> edge_package d = snd cp \<and> edge_use_breaks changed d)
           (e_deps e)) (pr_entries pass))"

definition flip_wants_restart ::
  "'cfg profile_view \<Rightarrow> 'cfg resolve_ctx \<Rightarrow> 'x pass_result \<Rightarrow> cp \<Rightarrow> use_needed \<Rightarrow> bool" where
  "flip_wants_restart pv ctx pass cp changes \<longleftrightarrow>
     flattened_deps_change pv ctx pass cp changes \<or> parent_use_dep_breaks pass cp changes"

definition grow_restart_counts ::
  "'cfg profile_view \<Rightarrow> 'cfg resolve_ctx \<Rightarrow> 'cfg backtrack_params \<Rightarrow> 'x pass_result \<Rightarrow> 'cfg backtrack_feedback \<Rightarrow>
   walk_replay option \<Rightarrow> bool" where
  "grow_restart_counts pv ctx params pass kind replay =
     (case kind of
        ConfigFeedback grown \<Rightarrow>
          if \<not> pr_autounmask_grew pass \<or> (bp_disabled grown \<and> \<not> bp_disabled params)
             \<or> bp_replace_installed grown \<noteq> bp_replace_installed params \<or> bp_probe_replaced grown \<noteq> bp_probe_replaced params
          then True
          else (case replay of
                  None \<Rightarrow> True
                | Some r \<Rightarrow>
                    if wr_failure r \<noteq> None then False
                    else list_ex (\<lambda>(cp, flags). list_ex (\<lambda>(flag, want).
                           needed_flag (wr_needed r) cp flag = Some want \<and>
                           flip_wants_restart pv ctx pass cp (bp_use_config grown)) (sorted_list_of_fmap flags))
                         (sorted_list_of_fmap (pr_use_overlay pass)))
      | _ \<Rightarrow> True)"

section \<open>The slot-conflict handler\<close>

definition accept_blocker_conflicts :: "'cfg resolve_ctx \<Rightarrow> bool" where
  "accept_blocker_conflicts ctx \<longleftrightarrow>
     cx_backtrack_max ctx = 0 \<and> (cx_buildpkgonly ctx \<or> cx_nodeps ctx \<or> cx_fetchonly ctx \<or> cx_fetch_all_uri ctx)"

definition slot_conflict_handler_stops ::
  "('cfg, 'x, 'y, 'r, 'e) resolver \<Rightarrow> 'cfg resolve_ctx \<Rightarrow> 'x pass_result \<Rightarrow> 'cfg \<Rightarrow> bool" where
  "slot_conflict_handler_stops ro ctx pass config \<longleftrightarrow>
     pr_slot_conflicts pass \<noteq> [] \<and> \<not> accept_blocker_conflicts ctx \<and>
     ss_changes (solve_slot_conflict_records (ro_nodes ro ctx config) (pr_slot_conflicts pass)) \<noteq> []"

definition prune_unresolved_after_backtrack ::
  "('cfg, 'x, 'y, 'r, 'e) resolver \<Rightarrow> nat \<Rightarrow> 'cfg resolve_ctx \<Rightarrow> 'cfg backtrack_params \<Rightarrow> 'x pass_result \<Rightarrow> 'cfg \<Rightarrow> bool" where
  "prune_unresolved_after_backtrack ro restarts ctx best pass config \<longleftrightarrow>
     0 < restarts \<and> 0 < cx_backtrack_max ctx \<and> \<not> bp_prune_rebuilds best \<and> bp_replace_installed best \<noteq> {||} \<and>
     pr_slot_conflicts pass = [] \<and>
     (case ro_missed_updates ro ctx pass best config of (skipped, missing, full) \<Rightarrow>
        skipped \<noteq> [] \<or> missing \<noteq> [] \<or> full \<noteq> [] \<or> pr_skipped_updates pass \<noteq> [])"

section \<open>One iteration\<close>

definition pass_config :: "'cfg resolve_ctx \<Rightarrow> 'cfg backtrack_params \<Rightarrow> 'cfg" where
  "pass_config ctx params = (case bp_config params of Some c \<Rightarrow> c | None \<Rightarrow> cx_config ctx)"

text \<open>The changes of \<open>extra\<close> where \<open>config\<close> has no value for the flag.\<close>

definition merge_absent :: "use_needed \<Rightarrow> use_needed \<Rightarrow> use_needed" where
  "merge_absent config extra =
     config ++\<^sub>f fmmap_keys (\<lambda>cp flags.
       flags ++\<^sub>f (case fmlookup config cp of Some old \<Rightarrow> old | None \<Rightarrow> fmempty)) extra"

text \<open>The node of the iteration, with whether it comes from the feed.\<close>

definition take_params ::
  "'cfg driver_state \<Rightarrow> (bool \<times> 'cfg backtrack_params option \<times> 'cfg driver_state) run" where
  "take_params st =
     (case dr_feed st of
        Some params \<Rightarrow> Return (True, Some params, st\<lparr> dr_feed := None \<rparr>)
      | None \<Rightarrow>
          run_bind (get_node (dr_bt st)) (\<lambda>(q, bt).
            Return (False, q, st\<lparr> dr_bt := bt, dr_passes := dr_passes st + (if q = None then 0 else 1) \<rparr>)))"

definition adopt ::
  "'cfg backtrack_params \<Rightarrow> ('cfg driver_state \<Rightarrow> ('cfg driver_state, 'a) loop_exit) \<Rightarrow> 'cfg driver_state \<Rightarrow>
   ('cfg driver_state, 'a) loop_exit run" where
  "adopt params next st =
     run_bind (adopt_current params (dr_bt st)) (\<lambda>bt. Return (next (st\<lparr> dr_bt := bt \<rparr>)))"

definition count_failed :: "'cfg driver_state \<Rightarrow> 'cfg driver_state" where
  "count_failed st =
     (if bt_unexplored (dr_bt st) = [] then st else st\<lparr> dr_restarts := dr_restarts st + 1 \<rparr>)"

definition failed_iteration :: "'cfg resolve_ctx \<Rightarrow> 'cfg driver_state \<Rightarrow> ('cfg driver_state, 'a) loop_exit" where
  "failed_iteration ctx st =
     (if unat (cx_backtrack_max ctx) \<le> dr_restarts st then Leave st else Again (count_failed st))"

definition failed_pass ::
  "'cfg resolve_ctx \<Rightarrow> bool \<Rightarrow> 'cfg backtrack_params \<Rightarrow> 'e \<Rightarrow> 'cfg driver_state \<Rightarrow>
   ('cfg driver_state, 'e + 'res) loop_exit run" where
  "failed_pass ctx from_feed params e st =
     (if from_feed then Return (Again st)
      else if \<not> dr_first st then adopt params (failed_iteration ctx) st
      else Return (Finish (Inl e)))"

definition replay_wanted ::
  "'cfg resolve_ctx \<Rightarrow> 'cfg backtrack_params \<Rightarrow> 'x pass_result \<Rightarrow> 'cfg driver_state \<Rightarrow> bool" where
  "replay_wanted ctx params pass st \<longleftrightarrow>
     bp_suggest_use params \<and> (cx_autounmask_backtrack ctx \<or> dr_passes st = 1) \<and>
     (pass_has_use_changes params pass \<or> pr_slot_conflicts pass \<noteq> [] \<or> dr_needed st \<noteq> fmempty)"

definition contradicts :: "walk_replay option \<Rightarrow> bool" where
  "contradicts replay =
     (case Option.bind replay wr_failure of None \<Rightarrow> False | Some f \<Rightarrow> rf_contradiction f)"

text \<open>The report of a pass whose walk needed a USE change, with \<open>--autounmask-backtrack\<close> off.\<close>

definition change_report ::
  "('cfg, 'x, 'y, 'r, 'e) resolver \<Rightarrow> 'cfg resolve_ctx \<Rightarrow> 'cfg \<Rightarrow> 'cfg backtrack_params \<Rightarrow> walk_replay \<Rightarrow>
   'x pass_result \<Rightarrow> nat \<Rightarrow> 'cfg backtrack_params \<Rightarrow> ('y, 'r) graph_result" where
  "change_report ro ctx config params r pass restarts base =
     (case apply_replay_flips (ro_profile ro) ctx r (bp_use_config params) (pr_entries pass) (pr_use_changes pass) of
        (entries, changes) \<Rightarrow>
          let result = ro_assemble ro ctx base
                (pass\<lparr> pr_entries := entries, pr_use_changes := changes, pr_slot_conflicts := [] \<rparr>) config restarts
          in result\<lparr> gr_settled_with_backtracking := True,
               gr_slot_conflicts := replay_slot_conflicts (ro_profile ro) ctx entries r (pr_slot_conflicts pass) \<rparr>)"

definition reported_change ::
  "'cfg resolve_ctx \<Rightarrow> use_needed \<Rightarrow> walk_replay option \<Rightarrow> 'cfg pass_decision \<Rightarrow>
   (walk_replay \<times> 'cfg backtrack_params) option" where
  "reported_change ctx needed_init replay decision =
     (case replay of
        None \<Rightarrow> None
      | Some r \<Rightarrow>
          if cx_backtrack_max ctx = 0 \<or> cx_autounmask_backtrack ctx \<or> wr_needed r = needed_init then None
          else (case decision of
                  Feedback (SlotConflictFeedback base _) \<Rightarrow> if wr_failure r = None then Some (r, base) else None
                | Feedback (MissingDepFeedback base _ _) \<Rightarrow> Some (r, base)
                | _ \<Rightarrow> None))"

definition take_feedback ::
  "('cfg, 'x, 'y, 'r, 'e) resolver \<Rightarrow> 'cfg resolve_ctx \<Rightarrow> 'cfg \<Rightarrow> bool \<Rightarrow> 'x pass_result \<Rightarrow> 'cfg backtrack_feedback \<Rightarrow>
   'cfg driver_state \<Rightarrow> ('cfg driver_state, 'e + ('y, 'r) graph_result) loop_exit run" where
  "take_feedback ro ctx config counts pass kind st =
     (if cx_backtrack_max ctx = 0
      then (case kind of
              RevDepFeedback grown \<Rightarrow>
                if \<not> cx_nodeps ctx then Return (Again (st\<lparr> dr_feed := Some grown \<rparr>))
                else Return (Finish (Inr (ro_assemble ro ctx grown pass config (dr_restarts st))))
            | _ \<Rightarrow> Return (Finish (Inr (ro_assemble ro ctx (feedback_params kind) pass config (dr_restarts st)))))
      else if unat (cx_backtrack_max ctx) \<le> dr_restarts st then Return (Leave st)
      else run_bind (feedback kind (dr_bt st)) (\<lambda>bt.
             Return (Again (st\<lparr> dr_bt := bt, dr_restarts := dr_restarts st + (if counts then 1 else 0) \<rparr>))))"

definition take_decision ::
  "('cfg, 'x, 'y, 'r, 'e) resolver \<Rightarrow> 'cfg resolve_ctx \<Rightarrow> 'cfg \<Rightarrow> bool \<Rightarrow> 'cfg backtrack_params \<Rightarrow>
   walk_replay option \<Rightarrow> 'x pass_result \<Rightarrow> 'cfg pass_decision \<Rightarrow> 'cfg driver_state \<Rightarrow>
   ('cfg driver_state, 'e + ('y, 'r) graph_result) loop_exit run" where
  "take_decision ro ctx config may_fail params replay pass decision st =
     (case decision of
        Settle settled \<Rightarrow>
          let result = ro_assemble ro ctx settled pass config (dr_restarts st)
          in if gr_missing_args result \<noteq> [] \<and> gr_slot_conflicts result \<noteq> [] \<and> may_fail
             then adopt settled (\<lambda>st. Again (count_failed st)) st
             else Return (Finish (Inr result))
      | DeadEnd merged \<Rightarrow> adopt merged (failed_iteration ctx) st
      | Feedback kind \<Rightarrow>
          take_feedback ro ctx config (grow_restart_counts (ro_profile ro) ctx params pass kind replay) pass kind st)"

text \<open>A pass that returned; \<open>run_breakage_clean_pass\<close> and the replay end (\<open>None\<close> would be a loop that does not).\<close>

definition clean_pass ::
  "('cfg, 'x, 'y, 'r, 'e) resolver \<Rightarrow> 'cfg resolve_ctx \<Rightarrow> 'cfg backtrack_params \<Rightarrow> nat \<Rightarrow> ('e + ('y, 'r) graph_result) option" where
  "clean_pass ro ctx = run_breakage_clean_pass (ro_profile ro) ctx (ro_run_pass ro) (ro_assemble ro)"

definition decide_pass ::
  "('cfg, 'x, 'y, 'r, 'e) resolver \<Rightarrow> 'cfg resolve_ctx \<Rightarrow> bool \<Rightarrow> 'cfg backtrack_params \<Rightarrow> use_needed \<Rightarrow>
   walk_replay option \<Rightarrow> 'x pass_result \<Rightarrow> 'cfg driver_state \<Rightarrow>
   ('cfg driver_state, 'e + ('y, 'r) graph_result) loop_exit run" where
  "decide_pass ro ctx may_fail params needed_init replay pass st =
     (let config = pass_config ctx params
      in case collect_feedback (ro_scanners ro ctx) ctx config params pass of (decision, pass') \<Rightarrow>
           if slot_conflict_handler_stops ro ctx pass' config
           then Return (if 0 < dr_restarts st then Leave st
                        else Finish (Inr ((ro_assemble ro ctx (decision_params decision) pass' config (dr_restarts st))
                               \<lparr> gr_settled_with_backtracking := 0 < cx_backtrack_max ctx \<rparr>)))
           else (case reported_change ctx needed_init replay decision of
                   Some (r, base) \<Rightarrow>
                     Return (Finish (Inr (change_report ro ctx config params r pass' (dr_restarts st) base)))
                 | None \<Rightarrow> take_decision ro ctx config may_fail params replay pass' decision st))"

definition finished_pass ::
  "('cfg, 'x, 'y, 'r, 'e) resolver \<Rightarrow> 'cfg resolve_ctx \<Rightarrow> 'cfg backtrack_params \<Rightarrow> bool \<Rightarrow> 'cfg backtrack_params \<Rightarrow>
   'x pass_result \<Rightarrow> 'cfg driver_state \<Rightarrow> ('cfg driver_state, 'e + ('y, 'r) graph_result) loop_exit run option" where
  "finished_pass ro ctx initial from_feed params pass st =
     (let may_fail = (\<not> dr_first st \<and> \<not> from_feed);
          st1 = st\<lparr> dr_first := False \<rparr>;
          needed_init = merge_absent (bp_use_config params) (dr_needed st1);
          clean = map_option (\<lambda>res. Return (Finish res)) (clean_pass ro ctx initial (dr_restarts st1))
      in if bp_disabled params then clean
         else
           Option.bind (if replay_wanted ctx params pass st1
                        then map_option Some (replay_walk (ro_profile ro) ctx (pr_entries pass) True needed_init)
                        else Some None) (\<lambda>replay.
             let st2 = (case replay of
                          Some r \<Rightarrow> if cx_autounmask_backtrack ctx
                                    then st1\<lparr> dr_needed := merge_absent (dr_needed st1) (wr_needed r) \<rparr> else st1
                        | None \<Rightarrow> st1)
             in if contradicts replay then clean
                else Some (decide_pass ro ctx may_fail params needed_init replay pass st2)))"

definition driver_step ::
  "('cfg, 'x, 'y, 'r, 'e) resolver \<Rightarrow> 'cfg resolve_ctx \<Rightarrow> 'cfg backtrack_params \<Rightarrow> 'cfg driver_state \<Rightarrow>
   ('cfg driver_state, 'e + ('y, 'r) graph_result) loop_exit run option" where
  "driver_step ro ctx initial st =
     (case take_params st of
        Panic \<Rightarrow> Some Panic
      | Return (_, None, st1) \<Rightarrow> Some (Return (Leave st1))
      | Return (from_feed, Some params, st1) \<Rightarrow>
          (case ro_run_pass ro ctx params (dr_first st1) of
             Inl e \<Rightarrow> Some (failed_pass ctx from_feed params e st1)
           | Inr pass \<Rightarrow> finished_pass ro ctx initial from_feed params pass st1))"

section \<open>The best run\<close>

text \<open>The pass of the best run: it settles, or runs again and only its pins are added to the report.\<close>

definition fallback_pass ::
  "('cfg, 'x, 'y, 'r, 'e) resolver \<Rightarrow> 'cfg resolve_ctx \<Rightarrow> 'cfg \<Rightarrow> 'cfg backtrack_params \<Rightarrow> 'x pass_result \<Rightarrow>
   'e + ('x pass_result \<times> 'cfg backtrack_params)" where
  "fallback_pass ro rctx config best pass =
     (case collect_feedback (ro_scanners ro rctx) rctx config best pass of
        (Settle params, probe) \<Rightarrow> Inr (probe, params)
      | _ \<Rightarrow>
          res_bind (ro_run_pass ro rctx best False) (\<lambda>naked.
            (case ro_live_pins ro rctx naked config of (enforced, dropped) \<Rightarrow>
               Inr (naked, best\<lparr> bp_reverse_dep_pins := fold push_new enforced (bp_reverse_dep_pins best),
                                 bp_dropped_pins := fold push_new dropped (bp_dropped_pins best) \<rparr>))))"

definition best_contradicts ::
  "('cfg, 'x, 'y, 'r, 'e) resolver \<Rightarrow> 'cfg resolve_ctx \<Rightarrow> 'cfg backtrack_params \<Rightarrow> 'x pass_result \<Rightarrow> use_needed \<Rightarrow> bool option" where
  "best_contradicts ro ctx best pass needed =
     (if bp_disabled best \<or> \<not> bp_suggest_use best \<or>
         \<not> (pass_has_use_changes best pass \<or> pr_slot_conflicts pass \<noteq> [] \<or> needed \<noteq> fmempty)
      then Some False
      else map_option (\<lambda>r. contradicts (Some r))
             (replay_walk (ro_profile ro) ctx (pr_entries pass) True (merge_absent (bp_use_config best) needed)))"

definition best_run_report ::
  "('cfg, 'x, 'y, 'r, 'e) resolver \<Rightarrow> 'cfg resolve_ctx \<Rightarrow> 'cfg resolve_ctx \<Rightarrow> 'cfg backtrack_params \<Rightarrow>
   'cfg backtrack_params \<Rightarrow> nat \<Rightarrow> use_needed \<Rightarrow> ('e + ('y, 'r) graph_result) option" where
  "best_run_report ro ctx rctx initial best restarts needed =
     (let config = pass_config ctx best
      in case res_bind (ro_run_pass ro rctx best False) (fallback_pass ro rctx config best) of
           Inl e \<Rightarrow> Some (Inl e)
         | Inr (pass, report) \<Rightarrow>
             Option.bind (best_contradicts ro ctx best pass needed) (\<lambda>contradiction.
               if contradiction then clean_pass ro ctx initial restarts
               else Some (Inr ((ro_assemble ro rctx report pass config restarts)
                      \<lparr> gr_prune_unresolved := prune_unresolved_after_backtrack ro restarts ctx report pass config,
                        gr_backtrack_max := cx_backtrack_max ctx \<rparr>))))"

definition finish_search ::
  "('cfg, 'x, 'y, 'r, 'e) resolver \<Rightarrow> 'cfg resolve_ctx \<Rightarrow> 'cfg backtrack_params \<Rightarrow> 'cfg driver_state \<Rightarrow>
   ('e + ('y, 'r) graph_result) run option" where
  "finish_search ro ctx initial st =
     (case get_best_run (dr_bt st) of
        Panic \<Rightarrow> Some Panic
      | Return best \<Rightarrow>
          (case if 0 < dr_restarts st \<and> 0 < cx_backtrack_max ctx then ro_context ro 0 else Inr ctx of
             Inl e \<Rightarrow> Some (Return (Inl e))
           | Inr rctx \<Rightarrow>
               map_option Return (best_run_report ro ctx rctx initial best (dr_restarts st) (dr_needed st))))"

section \<open>The loop\<close>

text \<open>\<open>None\<close> is a search that does not end.\<close>

partial_function (option) driver_loop ::
  "('cfg, 'x, 'y, 'r, 'e) resolver \<Rightarrow> 'cfg resolve_ctx \<Rightarrow> 'cfg backtrack_params \<Rightarrow> 'cfg driver_state \<Rightarrow>
   ('e + ('y, 'r) graph_result) run option" where
  "driver_loop ro ctx initial st =
     Option.bind (driver_step ro ctx initial st) (\<lambda>exit.
       case exit of
         Panic \<Rightarrow> Some Panic
       | Return next \<Rightarrow>
           (case next of
              Again st' \<Rightarrow> driver_loop ro ctx initial st'
            | Leave st' \<Rightarrow> finish_search ro ctx initial st'
            | Finish res \<Rightarrow> Some (Return res)))"

definition start_search :: "'cfg resolve_ctx \<Rightarrow> 'cfg backtrack_params \<Rightarrow> 'cfg driver_state" where
  "start_search ctx initial =
     \<lparr> dr_bt = new_backtracker (max 1 (cx_backtrack_max ctx div 2 + cx_backtrack_max ctx mod 2)) initial, dr_first = True,
       dr_passes = 0, dr_restarts = 0, dr_feed = None, dr_needed = fmempty \<rparr>"

definition backtracking_resolve ::
  "('cfg, 'x, 'y, 'r, 'e) resolver \<Rightarrow> 32 word \<Rightarrow> 'cfg backtrack_params \<Rightarrow> ('e + ('y, 'r) graph_result) run option" where
  "backtracking_resolve ro backtrack_max initial =
     (case ro_context ro backtrack_max of
        Inl e \<Rightarrow> Some (Return (Inl e))
      | Inr ctx \<Rightarrow> driver_loop ro ctx initial (start_search ctx initial))"

end
