(* ===== verification/BacktrackerOk.thy ===== *)
theory BacktrackerOk
  imports Backtracker "HOL-Library.Sublist"
begin

text \<open>
  The invariant of the search tree over every sequence of operations of the driver: the indices are
  valid, the root is terminal, the mask budget holds for every node and the counters do not wrap.
\<close>

section \<open>Equal parameters\<close>

text \<open>The parameters without the fields that \<open>params_equal\<close> does not look at.\<close>

definition params_key :: "'cfg backtrack_params \<Rightarrow> 'cfg backtrack_params" where
  "params_key p =
     p\<lparr> bp_config := None, bp_mask_steps := 0, bp_depth := 0, bp_reverse_dep_conflict_parents := {||},
        bp_mask_order := [], bp_probe_replaced := {||} \<rparr>"

lemma params_equal_key: "params_equal a b \<longleftrightarrow> params_key a = params_key b"
  by (cases a; cases b) (auto simp: params_equal_def params_key_def)

lemma params_key_counters [simp]:
  "params_key (p\<lparr> bp_mask_steps := s, bp_depth := d \<rparr>) = params_key p"
  "params_key (grown_child c p) = params_key p"
  by (simp_all add: params_key_def grown_child_def)

section \<open>The invariant\<close>

definition steps_of :: "'cfg backtracker \<Rightarrow> nat \<Rightarrow> nat" where
  "steps_of bt i = unat (bp_mask_steps (bn_params (bt_nodes bt ! i)))"

definition depth_of :: "'cfg backtracker \<Rightarrow> nat \<Rightarrow> nat" where
  "depth_of bt i = unat (bp_depth (bn_params (bt_nodes bt ! i)))"

definition nodes_ok :: "'cfg backtracker \<Rightarrow> bool" where
  "nodes_ok bt \<longleftrightarrow>
     bt_nodes bt \<noteq> [] \<and> bn_terminal (bt_nodes bt ! 0) \<and>
     (\<forall>i < length (bt_nodes bt).
        steps_of bt i \<le> unat (bt_max_depth bt) \<and> steps_of bt i \<le> depth_of bt i \<and> depth_of bt i \<le> i \<and>
        (bn_terminal (bt_nodes bt ! i) \<longrightarrow> steps_of bt i = 0))"

definition tree_ok :: "'cfg backtracker \<Rightarrow> bool" where
  "tree_ok bt \<longleftrightarrow>
     nodes_ok bt \<and> distinct (bt_unexplored bt) \<and>
     (\<forall>i \<in> set (bt_unexplored bt). i < length (bt_nodes bt)) \<and>
     (\<forall>i. bt_current bt = Some i \<longrightarrow> i < length (bt_nodes bt) \<and> i \<notin> set (bt_unexplored bt))"

text \<open>The parameters a pass hands back carry the counters of the node it ran from.\<close>

definition keeps_counters :: "'cfg backtracker \<Rightarrow> 'cfg backtrack_params \<Rightarrow> bool" where
  "keeps_counters bt p \<longleftrightarrow>
     (case bt_current bt of
        None \<Rightarrow> True
      | Some i \<Rightarrow> bp_mask_steps p = bp_mask_steps (bn_params (bt_nodes bt ! i)) \<and>
                  bp_depth p = bp_depth (bn_params (bt_nodes bt ! i)))"

inductive bt_step :: "'cfg backtracker \<Rightarrow> 'cfg backtracker \<Rightarrow> bool" where
  step_get: "get_node bt = Return (q, bt') \<Longrightarrow> bt_step bt bt'"
| step_adopt: "keeps_counters bt p \<Longrightarrow> adopt_current p bt = Return bt' \<Longrightarrow> bt_step bt bt'"
| step_feedback:
    "keeps_counters bt (feedback_params kind) \<Longrightarrow> length (bt_nodes bt) < 2 ^ 32 \<Longrightarrow>
     feedback kind bt = Return bt' \<Longrightarrow> bt_step bt bt'"

inductive bt_reachable :: "'cfg backtracker \<Rightarrow> 'cfg backtracker \<Rightarrow> bool" for start where
  reach_start: "bt_reachable start start"
| reach_step: "bt_reachable start bt \<Longrightarrow> bt_step bt bt' \<Longrightarrow> bt_reachable start bt'"

inductive_cases bt_step_cases: "bt_step bt bt'"

section \<open>Adding a node\<close>

lemma add_node_cases:
  obtains "snd (add_node p t e bt) = bt" "fst (add_node p t e bt) = False"
  | "snd (add_node p t e bt) =
       bt\<lparr> bt_nodes := bt_nodes bt @ [\<lparr> bn_params = p, bn_terminal = t \<rparr>],
           bt_unexplored := bt_unexplored bt @ (if e then [length (bt_nodes bt)] else []) \<rparr>"
    "fst (add_node p t e bt)" "check_runtime_pkg_mask (bp_runtime_pkg_mask p)"
    "bp_mask_steps p \<le> bt_max_depth bt" "\<forall>n \<in> set (bt_nodes bt). \<not> params_equal (bn_params n) p"
proof (cases "\<not> check_runtime_pkg_mask (bp_runtime_pkg_mask p) \<or> bt_max_depth bt < bp_mask_steps p \<or>
        list_ex (\<lambda>n. params_equal (bn_params n) p) (bt_nodes bt)")
  case True
  then have "add_node p t e bt = (False, bt)" by (auto simp: add_node_def)
  then show ?thesis using that(1) by simp
next
  case False
  have "add_node p t e bt =
      (True, bt\<lparr> bt_nodes := bt_nodes bt @ [\<lparr> bn_params = p, bn_terminal = t \<rparr>],
                 bt_unexplored := bt_unexplored bt @ (if e then [length (bt_nodes bt)] else []) \<rparr>)"
    using False by (simp add: add_node_def Let_def)
  then show ?thesis using False that(2) by (simp add: list_ex_iff not_less)
qed

lemma add_node_frame [simp]:
  "bt_current (snd (add_node p t e bt)) = bt_current bt"
  "bt_max_depth (snd (add_node p t e bt)) = bt_max_depth bt"
  by (simp_all add: add_node_def Let_def)

lemma add_node_ok:
  assumes ok: "tree_ok bt"
    and p: "unat (bp_mask_steps p) \<le> unat (bp_depth p)" "unat (bp_depth p) \<le> length (bt_nodes bt)"
      "t \<Longrightarrow> bp_mask_steps p = 0"
  shows "tree_ok (snd (add_node p t e bt))"
proof (cases rule: add_node_cases [of p t e bt])
  case 2
  let ?b = "snd (add_node p t e bt)"
  have n: "bt_nodes ?b = bt_nodes bt @ [\<lparr> bn_params = p, bn_terminal = t \<rparr>]" using 2 by simp
  have i: "steps_of ?b i = steps_of bt i \<and> depth_of ?b i = depth_of bt i \<and>
      bn_terminal (bt_nodes ?b ! i) = bn_terminal (bt_nodes bt ! i)" if "i < length (bt_nodes bt)" for i
    using that by (simp add: steps_of_def depth_of_def n nth_append)
  have l: "steps_of ?b (length (bt_nodes bt)) = unat (bp_mask_steps p)"
      "depth_of ?b (length (bt_nodes bt)) = unat (bp_depth p)"
      "bn_terminal (bt_nodes ?b ! length (bt_nodes bt)) = t"
    by (simp_all add: steps_of_def depth_of_def n)
  have "nodes_ok ?b"
    unfolding nodes_ok_def
  proof (intro conjI allI impI)
    show "bt_nodes ?b \<noteq> []" by (simp add: n)
    show "bn_terminal (bt_nodes ?b ! 0)"
      using ok i [of 0] by (simp add: tree_ok_def nodes_ok_def)
  next
    fix j assume "j < length (bt_nodes ?b)"
    then have "j < length (bt_nodes bt) \<or> j = length (bt_nodes bt)" by (auto simp: n)
    then show "steps_of ?b j \<le> unat (bt_max_depth ?b)" "steps_of ?b j \<le> depth_of ?b j" "depth_of ?b j \<le> j"
      using ok i [of j] l p 2(4) by (auto simp: tree_ok_def nodes_ok_def word_le_nat_alt)
    assume "bn_terminal (bt_nodes ?b ! j)"
    then show "steps_of ?b j = 0"
      using \<open>j < length (bt_nodes bt) \<or> j = length (bt_nodes bt)\<close> ok i [of j] l p
      by (auto simp: tree_ok_def nodes_ok_def)
  qed
  then show ?thesis using ok 2 by (auto simp: tree_ok_def n nth_append)
qed (use ok in simp)

section \<open>The operations keep the invariant\<close>

lemma new_ok:
  assumes "check_runtime_pkg_mask (bp_runtime_pkg_mask p)" "bp_mask_steps p = 0" "bp_depth p = 0"
  shows "tree_ok (new_backtracker d p)"
proof -
  have "new_backtracker d p =
      \<lparr> bt_nodes = [\<lparr> bn_params = p, bn_terminal = True \<rparr>], bt_unexplored = [0], bt_current = None,
        bt_max_depth = d \<rparr>"
    using assms by (simp add: new_backtracker_def add_node_def Let_def)
  then show ?thesis using assms by (simp add: tree_ok_def nodes_ok_def steps_of_def depth_of_def)
qed

lemma get_ok:
  assumes "tree_ok bt"
  obtains "bt_unexplored bt = []" "get_node bt = Return (None, bt)"
  | us i where "bt_unexplored bt = us @ [i]" "i < length (bt_nodes bt)"
    "get_node bt = Return (Some (bn_params (bt_nodes bt ! i)),
       bt\<lparr> bt_unexplored := us, bt_current := Some i \<rparr>)"
    "tree_ok (bt\<lparr> bt_unexplored := us, bt_current := Some i \<rparr>)"
proof (cases "bt_unexplored bt" rule: rev_cases)
  case Nil
  then show ?thesis using that(1) by (simp add: get_node_def)
next
  case (snoc us i)
  have i: "i < length (bt_nodes bt)" using assms snoc by (simp add: tree_ok_def)
  show ?thesis
    by (rule that(2) [of us i])
      (use assms snoc i in \<open>auto simp: get_node_def Let_def tree_ok_def nodes_ok_def steps_of_def depth_of_def\<close>)
qed

lemma set_params_ok:
  assumes "tree_ok bt" "i < length (bt_nodes bt)"
    and "bp_mask_steps p = bp_mask_steps (bn_params (bt_nodes bt ! i))"
      "bp_depth p = bp_depth (bn_params (bt_nodes bt ! i))"
  obtains bt' where "set_params i p bt = Return bt'" "tree_ok bt'"
    "length (bt_nodes bt') = length (bt_nodes bt)" "bt_current bt' = bt_current bt"
    "bt_unexplored bt' = bt_unexplored bt"
proof -
  let ?b = "bt\<lparr> bt_nodes := (bt_nodes bt)[i := (bt_nodes bt ! i)\<lparr> bn_params := p \<rparr>] \<rparr>"
  have "steps_of ?b j = steps_of bt j \<and> depth_of ?b j = depth_of bt j \<and>
      bn_terminal (bt_nodes ?b ! j) = bn_terminal (bt_nodes bt ! j)" if "j < length (bt_nodes bt)" for j
    using that assms by (cases "j = i") (simp_all add: steps_of_def depth_of_def)
  then have "nodes_ok ?b" using assms(1) by (auto simp: tree_ok_def nodes_ok_def)
  then have "tree_ok ?b" using assms(1) by (auto simp: tree_ok_def)
  then show ?thesis using that [of ?b] assms(2) by (simp add: set_params_def)
qed

lemma adopt_tree_ok:
  assumes "tree_ok bt" "keeps_counters bt p"
  obtains bt' where "adopt_current p bt = Return bt'" "tree_ok bt'" "bt_unexplored bt' = bt_unexplored bt"
proof (cases "bt_current bt")
  case None
  then show ?thesis using that [of bt] assms by (simp add: adopt_current_def)
next
  case (Some i)
  then have "i < length (bt_nodes bt)" using assms by (simp add: tree_ok_def)
  from set_params_ok [OF assms(1) this, of p] obtain b where
    "set_params i p bt = Return b" "tree_ok b" "bt_unexplored b = bt_unexplored bt"
    using assms(2) Some by (auto simp: keeps_counters_def)
  then show ?thesis using that Some by (simp add: adopt_current_def)
qed

lemma mask_member_counters [simp]:
  "bp_mask_steps (mask_member m p) = bp_mask_steps p" "bp_depth (mask_member m p) = bp_depth p"
  by (simp_all add: mask_member_def Let_def split: prod.split)

lemma mask_members_counters [simp]:
  "bp_mask_steps (fold mask_member ms p) = bp_mask_steps p" "bp_depth (fold mask_member ms p) = bp_depth p"
  by (induction ms arbitrary: p) simp_all

lemma mask_installed_counters [simp]:
  "bp_mask_steps (mask_installed c p) = bp_mask_steps p" "bp_depth (mask_installed c p) = bp_depth p"
  by (simp_all add: mask_installed_def Let_def)

lemma choice_child_counters [simp]:
  "bp_mask_steps (choice_child p c) = bp_mask_steps p + 1" "bp_depth (choice_child p c) = bp_depth p + 1"
  by (simp_all add: choice_child_def Let_def)

lemma missing_child_counters [simp]:
  "bp_mask_steps (missing_child p owner e) = bp_mask_steps p" "bp_depth (missing_child p owner e) = bp_depth p"
  by (simp_all add: missing_child_def Let_def)

lemma grown_child_counters [simp]:
  "bp_mask_steps (grown_child c p) = bp_mask_steps p + c" "bp_depth (grown_child c p) = bp_depth p + 1"
  by (simp_all add: grown_child_def)

text \<open>A child of the node \<open>i\<close> has valid counters while there are fewer than \<open>2 ^ 32\<close> nodes.\<close>

lemma child_counters:
  assumes "tree_ok bt" "i < length (bt_nodes bt)" "length (bt_nodes bt) < 2 ^ 32"
    and s: "unat s = steps_of bt i" and d: "unat d = depth_of bt i" and c: "c \<in> {0, 1}"
  shows "unat (s + c :: 32 word) \<le> unat (d + 1 :: 32 word)" "unat (d + 1) \<le> length (bt_nodes bt)"
proof -
  have b: "steps_of bt i \<le> depth_of bt i" "depth_of bt i \<le> i"
    using assms(1,2) by (auto simp: tree_ok_def nodes_ok_def)
  have d1: "unat (d + 1) = unat d + 1"
    using b assms(2,3) d by (simp add: unat_word_ariths)
  have s1: "unat (s + c) \<le> unat s + 1"
    using c b assms(2,3) s by (auto simp: unat_word_ariths)
  show "unat (d + 1) \<le> length (bt_nodes bt)" using d1 b d assms(2) by simp
  show "unat (s + c) \<le> unat (d + 1)" using d1 s1 b d s by simp
qed

lemma add_children_ok:
  assumes "tree_ok bt" "\<forall>c \<in> set cs. unat (bp_mask_steps (f c)) \<le> unat (bp_depth (f c)) \<and>
      unat (bp_depth (f c)) \<le> length (bt_nodes bt)"
  shows "tree_ok (fold (\<lambda>c b. snd (add_node (f c) False True b)) cs bt)"
  using assms
proof (induction cs arbitrary: bt)
  case (Cons c cs)
  have "length (bt_nodes bt) \<le> length (bt_nodes (snd (add_node (f c) False True bt)))"
    by (cases rule: add_node_cases [of "f c" False True bt]) simp_all
  moreover have "tree_ok (snd (add_node (f c) False True bt))"
    by (rule add_node_ok) (use Cons.prems in auto)
  ultimately show ?case using Cons.prems Cons.IH by (fastforce intro: order_trans)
qed simp

lemma feedback_ok:
  assumes ok: "tree_ok bt" and k: "keeps_counters bt (feedback_params kind)"
    and n: "length (bt_nodes bt) < 2 ^ 32" and i: "bt_current bt = Some i"
  obtains bt' where "feedback kind bt = Return bt'" "tree_ok bt'"
proof -
  have il: "i < length (bt_nodes bt)" using ok i by (simp add: tree_ok_def)
  let ?p = "feedback_params kind"
  have c: "unat (bp_mask_steps ?p) = steps_of bt i" "unat (bp_depth ?p) = depth_of bt i"
    using k i by (simp_all add: keeps_counters_def steps_of_def depth_of_def)
  note b0 = child_counters [OF ok il n c, of 0, simplified]
  note b1 = child_counters [OF ok il n c, of 1, simplified]
  have grown: "tree_ok (snd (add_node (grown_child 0 ?p) (bn_terminal (bt_nodes bt ! i)) True bt))"
  proof (rule add_node_ok [OF ok])
    assume "bn_terminal (bt_nodes bt ! i)"
    then have "steps_of bt i = 0" using ok il by (simp add: tree_ok_def nodes_ok_def)
    then show "bp_mask_steps (grown_child 0 ?p) = 0" using c(1) by (simp add: unat_eq_0)
  qed (use b0 in simp_all)
  show ?thesis
  proof (cases kind)
    case (SlotConflictFeedback base choices)
    obtain bt0 where b: "set_params i base bt = Return bt0" "tree_ok bt0"
        "length (bt_nodes bt0) = length (bt_nodes bt)"
      using k i SlotConflictFeedback by (auto simp: keeps_counters_def intro: set_params_ok [OF ok il, of base])
    have "tree_ok (fold (\<lambda>c b. snd (add_node (choice_child base c) False True b)) choices bt0)"
      by (rule add_children_ok [OF b(2)]) (use b1 SlotConflictFeedback b(3) in simp)
    then show ?thesis using that il i b(1) SlotConflictFeedback by (simp add: feedback_def)
  next
    case (MissingDepFeedback base owner entry)
    have "tree_ok (snd (add_node (grown_child 1 (missing_child base owner entry)) False True bt))"
      by (rule add_node_ok [OF ok]) (use b1 MissingDepFeedback in simp_all)
    then show ?thesis using that il i MissingDepFeedback by (simp add: feedback_def Let_def)
  qed (use that il i grown in \<open>simp_all add: feedback_def Let_def\<close>)
qed

lemma step_ok:
  assumes "bt_step bt bt'" and ok: "tree_ok bt"
  shows "tree_ok bt'"
  using assms(1)
proof cases
  case (step_get q)
  show ?thesis by (rule get_ok [OF ok]) (use step_get ok in auto)
next
  case (step_adopt p)
  show ?thesis by (rule adopt_tree_ok [OF ok step_adopt(1)]) (use step_adopt(2) in simp)
next
  case (step_feedback kind)
  obtain i where "bt_current bt = Some i"
    using step_feedback(3) by (cases "bt_current bt") (auto simp: feedback_def)
  then show ?thesis by (rule feedback_ok [OF ok step_feedback(1,2)]) (use step_feedback(3) in simp)
qed

lemma reachable_ok: "bt_reachable start bt \<Longrightarrow> tree_ok start \<Longrightarrow> tree_ok bt"
  by (induction rule: bt_reachable.induct) (auto intro: step_ok)

section \<open>The best run\<close>

definition best_of :: "'cfg backtrack_node list \<Rightarrow> nat \<Rightarrow> nat \<Rightarrow> bool" where
  "best_of nodes k b \<longleftrightarrow>
     (let d = (\<lambda>i. bp_depth (bn_params (nodes ! i)))
      in bn_terminal (nodes ! b) \<and> (b < k \<or> b = 0) \<and>
         (\<forall>i < k. bn_terminal (nodes ! i) \<longrightarrow> d i \<le> d b) \<and> (\<forall>i < b. bn_terminal (nodes ! i) \<longrightarrow> d i < d b))"

lemma deeper_best:
  assumes "best_of nodes k b" shows "best_of nodes (Suc k) (deeper nodes b k)"
proof (cases "bn_terminal (nodes ! k) \<and> bp_depth (bn_params (nodes ! b)) < bp_depth (bn_params (nodes ! k))")
  case True
  then have "deeper nodes b k = k" by (simp add: deeper_def)
  moreover have "bp_depth (bn_params (nodes ! i)) < bp_depth (bn_params (nodes ! k))"
    if "i < k" "bn_terminal (nodes ! i)" for i
  proof -
    have "bp_depth (bn_params (nodes ! i)) \<le> bp_depth (bn_params (nodes ! b))"
      using assms that by (simp add: best_of_def Let_def)
    then show ?thesis using True by (meson order_le_less_trans)
  qed
  ultimately show ?thesis using True by (auto simp: best_of_def Let_def less_Suc_eq order_less_imp_le)
next
  case False
  then have "deeper nodes b k = b" by (auto simp: deeper_def)
  then show ?thesis using assms False by (auto simp: best_of_def Let_def less_Suc_eq not_less)
qed

lemma deeper_fold: "bn_terminal (nodes ! 0) \<Longrightarrow> best_of nodes k (foldl (deeper nodes) 0 [0..<k])"
  by (induction k) (simp_all add: deeper_best, simp add: best_of_def)

lemma best_run_ok:
  assumes "nodes_ok bt"
  obtains b where "get_best_run bt = Return (bn_params (bt_nodes bt ! b))" "b < length (bt_nodes bt)"
    "bn_terminal (bt_nodes bt ! b)"
    "\<And>i. i < length (bt_nodes bt) \<Longrightarrow> bn_terminal (bt_nodes bt ! i) \<Longrightarrow> depth_of bt i \<le> depth_of bt b"
    "\<And>i. i < b \<Longrightarrow> bn_terminal (bt_nodes bt ! i) \<Longrightarrow> depth_of bt i < depth_of bt b"
proof -
  let ?b = "foldl (deeper (bt_nodes bt)) 0 [0..<length (bt_nodes bt)]"
  have d: "best_of (bt_nodes bt) (length (bt_nodes bt)) ?b" "bt_nodes bt \<noteq> []"
    using deeper_fold assms by (auto simp: nodes_ok_def)
  show ?thesis
    by (rule that [of ?b]) (use d in
      \<open>auto simp: get_best_run_def best_of_def Let_def depth_of_def word_le_nat_alt word_less_nat_alt\<close>)
qed

section \<open>Masks of a slot conflict\<close>

text \<open>The mask of a version in the parameters, with its reason.\<close>

definition mask_at :: "'cfg backtrack_params \<Rightarrow> cpv \<Rightarrow> mask_reason option" where
  "mask_at p t =
     map_option me_reason (find (\<lambda>m. me_neg m = neg_of t) (bucket (bp_runtime_pkg_mask p) (fst t, fst (snd t))))"

lemma neg_of_inject: "fst a = fst b \<Longrightarrow> fst (snd a) = fst (snd b) \<Longrightarrow> neg_of a = neg_of b \<Longrightarrow> a = b"
  by (cases a; cases b) (auto simp: neg_of_def)

lemma find_replace_reason:
  "find (\<lambda>m. me_neg m = n) (replace_reason neg r ms) =
     (if n = neg then map_option (\<lambda>m. m\<lparr> me_reason := r \<rparr>) (find (\<lambda>m. me_neg m = n) ms)
      else find (\<lambda>m. me_neg m = n) ms)"
  by (induction ms) auto

lemma find_append: "find P (xs @ ys) = (case find P xs of None \<Rightarrow> find P ys | Some x \<Rightarrow> Some x)"
  by (induction xs) auto

lemma bucket_fmupd [simp]: "bucket (fmupd k v m) k' = (if k = k' then v else bucket m k')"
  by (simp add: bucket_def)

lemma find_None_ex: "\<not> list_ex P xs \<Longrightarrow> find P xs = None"
  by (auto simp: find_None_iff list_ex_iff)

lemma mask_at_member:
  "mask_at (mask_member (t, parents) p) u = (if u = t then Some (SlotConflictMask parents) else mask_at p u)"
proof (cases "fst u = fst t \<and> fst (snd u) = fst (snd t)")
  case True
  then have e: "neg_of u = neg_of t \<longleftrightarrow> u = t" using neg_of_inject [of u t] by auto
  show ?thesis
  proof (cases "list_ex (\<lambda>m. me_neg m = neg_of t) (bucket (bp_runtime_pkg_mask p) (fst t, fst (snd t)))")
    case ex: True
    then obtain m where "find (\<lambda>m. me_neg m = neg_of t) (bucket (bp_runtime_pkg_mask p) (fst t, fst (snd t))) = Some m"
      by (cases "find (\<lambda>m. me_neg m = neg_of t) (bucket (bp_runtime_pkg_mask p) (fst t, fst (snd t)))")
        (auto simp: list_ex_iff find_None_iff)
    then show ?thesis using True e ex by (auto simp: mask_at_def mask_member_def Let_def find_replace_reason)
  next
    case False
    then show ?thesis using True e
      by (auto simp: mask_at_def mask_member_def Let_def find_append find_None_ex split: option.split)
  qed
next
  case False
  then have "(fst t, fst (snd t)) \<noteq> (fst u, fst (snd u))" "u \<noteq> t" by auto
  then show ?thesis by (simp add: mask_at_def mask_member_def Let_def del: prod.inject)
qed

lemma mask_at_members:
  "mask_at (fold mask_member ms p) u =
     (case map_of (rev ms) u of Some parents \<Rightarrow> Some (SlotConflictMask parents) | None \<Rightarrow> mask_at p u)"
proof (induction ms arbitrary: p)
  case (Cons m ms)
  then show ?case
    by (cases m) (simp add: mask_at_member map_add_def split: option.split)
qed simp

lemma mask_at_installed: "mask_at p u = Some r \<Longrightarrow> mask_at (mask_installed c p) u = Some r"
  by (auto simp: mask_at_def mask_installed_def Let_def find_append)

lemma mask_at_counters [simp]: "mask_at (p\<lparr> bp_mask_steps := s, bp_depth := d \<rparr>) u = mask_at p u"
  by (simp add: mask_at_def)

lemma mask_at_child:
  assumes "mask_at (fold mask_member (choice_members c) base) u = Some r"
  shows "mask_at (choice_child base c) u = Some r"
  using mask_at_installed [OF assms] by (simp add: choice_child_def Let_def)

lemma installed_mask_in:
  "mc_installed c \<Longrightarrow>
   neg_of (mc_target c) @ ''[installed]'' \<in>
     set (masked_negatives_for (mask_installed c p) (fst (mc_target c), fst (snd (mc_target c))))"
  by (auto simp: masked_negatives_for_def mask_installed_def Let_def list_ex_iff intro: rev_image_eqI)

lemma masked_negatives_counters [simp]:
  "masked_negatives_for (p\<lparr> bp_mask_steps := s, bp_depth := d \<rparr>) cp = masked_negatives_for p cp"
  by (simp add: masked_negatives_for_def)

text \<open>The nodes that the choices add, as a subsequence of the choices.\<close>

lemma add_children_nodes:
  "\<exists>cs'. subseq cs' cs \<and>
     bt_nodes (fold (\<lambda>c b. snd (add_node (f c) False True b)) cs bt) =
       bt_nodes bt @ map (\<lambda>c. \<lparr> bn_params = f c, bn_terminal = False \<rparr>) cs' \<and>
     bt_unexplored (fold (\<lambda>c b. snd (add_node (f c) False True b)) cs bt) =
       bt_unexplored bt @ [length (bt_nodes bt)..<length (bt_nodes bt) + length cs']"
proof (induction cs arbitrary: bt)
  case (Cons c cs)
  show ?case
  proof (cases rule: add_node_cases [of "f c" False True bt])
    case 1
    then show ?thesis using Cons.IH [of bt] by (auto intro: list_emb_Cons)
  next
    case 2
    let ?b = "snd (add_node (f c) False True bt)"
    obtain cs' where cs': "subseq cs' cs"
        "bt_nodes (fold (\<lambda>c b. snd (add_node (f c) False True b)) cs ?b) =
           bt_nodes ?b @ map (\<lambda>c. \<lparr> bn_params = f c, bn_terminal = False \<rparr>) cs'"
        "bt_unexplored (fold (\<lambda>c b. snd (add_node (f c) False True b)) cs ?b) =
           bt_unexplored ?b @ [length (bt_nodes ?b)..<length (bt_nodes ?b) + length cs']"
      using Cons.IH [of ?b] by blast
    show ?thesis
      by (rule exI [of _ "c # cs'"]) (use cs' 2(1) in \<open>simp add: upt_conv_Cons del: upt_Suc\<close>)
  qed
qed simp

text \<open>
  C22: the feedback of a slot conflict keeps the working copy of the pass in the current node and adds a
  child for each choice that \<open>add_node\<close> accepts, in the order of the choices, so that the stack gives
  the last one first. A child is never terminal, costs one mask step, masks every version of its group
  for the reasons of that version (an older reason is replaced), keeps the other masks and, for an
  installed target, masks the installed instance.
\<close>

theorem slot_conflict_children:
  assumes "feedback (SlotConflictFeedback base choices) bt = Return bt'" and "bt_current bt = Some i"
  shows "(\<exists>cs. subseq cs choices \<and>
      bt_nodes bt' = (bt_nodes bt)[i := (bt_nodes bt ! i)\<lparr> bn_params := base \<rparr>]
        @ map (\<lambda>c. \<lparr> bn_params = choice_child base c, bn_terminal = False \<rparr>) cs \<and>
      bt_unexplored bt' = bt_unexplored bt @ [length (bt_nodes bt)..<length (bt_nodes bt')]) \<and>
    (\<forall>c \<in> set choices.
       bp_mask_steps (choice_child base c) = bp_mask_steps base + 1 \<and>
       bp_depth (choice_child base c) = bp_depth base + 1 \<and>
       (distinct (map fst (choice_members c)) \<longrightarrow>
          (\<forall>(t, parents) \<in> set (choice_members c).
             mask_at (choice_child base c) t = Some (SlotConflictMask parents))) \<and>
       (\<forall>u r. u \<notin> fst ` set (choice_members c) \<and> mask_at base u = Some r \<longrightarrow>
             mask_at (choice_child base c) u = Some r) \<and>
       (mc_installed c \<longrightarrow>
          neg_of (mc_target c) @ ''[installed]'' \<in> set (masked_negatives_for (choice_child base c)
             (fst (mc_target c), fst (snd (mc_target c))))))"
proof (intro conjI ballI allI impI)
  obtain bt0 where b: "set_params i base bt = Return bt0"
    "bt' = fold (\<lambda>c b. snd (add_node (choice_child base c) False True b)) choices bt0"
    using assms by (cases "set_params i base bt") (auto simp: feedback_def split: if_splits)
  have n: "bt_nodes bt0 = (bt_nodes bt)[i := (bt_nodes bt ! i)\<lparr> bn_params := base \<rparr>]"
    "bt_unexplored bt0 = bt_unexplored bt"
    using b(1) by (auto simp: set_params_def split: if_splits)
  obtain cs where cs: "subseq cs choices"
    "bt_nodes bt' = bt_nodes bt0 @ map (\<lambda>c. \<lparr> bn_params = choice_child base c, bn_terminal = False \<rparr>) cs"
    "bt_unexplored bt' = bt_unexplored bt0 @ [length (bt_nodes bt0)..<length (bt_nodes bt0) + length cs]"
    using add_children_nodes [of choices "choice_child base" bt0] unfolding b(2) by blast
  show "\<exists>cs. subseq cs choices \<and>
      bt_nodes bt' = (bt_nodes bt)[i := (bt_nodes bt ! i)\<lparr> bn_params := base \<rparr>]
        @ map (\<lambda>c. \<lparr> bn_params = choice_child base c, bn_terminal = False \<rparr>) cs \<and>
      bt_unexplored bt' = bt_unexplored bt @ [length (bt_nodes bt)..<length (bt_nodes bt')]"
    by (rule exI [of _ cs]) (use cs n in simp)
next
  fix c u r assume "u \<notin> fst ` set (choice_members c) \<and> mask_at base u = Some r"
  then have "map_of (rev (choice_members c)) u = None" "mask_at base u = Some r"
    by (auto simp: map_of_eq_None_iff)
  then show "mask_at (choice_child base c) u = Some r"
    by (intro mask_at_child) (simp add: mask_at_members)
next
  fix c x assume d: "distinct (map fst (choice_members c))" and x: "x \<in> set (choice_members c)"
  obtain t parents where [simp]: "x = (t, parents)" by (cases x)
  have "map_of (rev (choice_members c)) t = Some parents"
    using d x by (intro map_of_is_SomeI) (simp_all add: rev_map [symmetric])
  then have "mask_at (choice_child base c) t = Some (SlotConflictMask parents)"
    by (intro mask_at_child) (simp add: mask_at_members)
  then show "case x of (t, parents) \<Rightarrow> mask_at (choice_child base c) t = Some (SlotConflictMask parents)"
    by simp
next
  fix c :: mask_choice assume "mc_installed c"
  then show "neg_of (mc_target c) @ ''[installed]'' \<in> set (masked_negatives_for (choice_child base c)
      (fst (mc_target c), fst (snd (mc_target c))))"
    using installed_mask_in by (simp add: choice_child_def Let_def)
qed simp_all

text \<open>A conflict between two versions of one package, the installed one first.\<close>

definition example_choice :: mask_choice where
  "example_choice =
     \<lparr> mc_target = (''a'', ''b'', ''2''), mc_parents = [((''c'', ''d'', ''1''), ''<a/b-2'')],
       mc_similar = [\<lparr> sm_target = (''a'', ''b'', ''3''), sm_parents = [((''c'', ''d'', ''1''), ''<a/b-2'')] \<rparr>],
       mc_installed = True \<rparr>"

definition example_tree :: "unit backtracker" where
  "example_tree =
     (new_backtracker 5 (initial_params True False False False))\<lparr> bt_unexplored := [], bt_current := Some 0 \<rparr>"

lemma example_tree_eq:
  "example_tree = \<lparr> bt_nodes = [\<lparr> bn_params = initial_params True False False False, bn_terminal = True \<rparr>],
     bt_unexplored = [], bt_current = Some 0, bt_max_depth = 5 \<rparr>"
  by (simp add: example_tree_def new_backtracker_def add_node_def check_runtime_pkg_mask_def
      initial_params_def default_params_def Let_def fmran'_def)

theorem slot_conflict_children_witness:
  "\<exists>bt'. feedback (SlotConflictFeedback (initial_params True False False False) [example_choice]) example_tree = Return bt' \<and>
     mask_at (choice_child (initial_params True False False False :: unit backtrack_params) example_choice)
       (''a'', ''b'', ''3'') = Some (SlotConflictMask [((''c'', ''d'', ''1''), ''<a/b-2'')])"
proof -
  let ?base = "initial_params True False False False :: unit backtrack_params"
  have c: "bt_current example_tree = Some 0" by (simp add: example_tree_eq)
  obtain bt' where f: "feedback (SlotConflictFeedback ?base [example_choice]) example_tree = Return bt'"
    by (simp add: example_tree_eq feedback_def set_params_def)
  have m: "distinct (map fst (choice_members example_choice))"
    "((''a'', ''b'', ''3''), [((''c'', ''d'', ''1''), ''<a/b-2'')]) \<in> set (choice_members example_choice)"
    by (simp_all add: example_choice_def choice_members_def)
  show ?thesis
    using conjunct2 [OF slot_conflict_children [OF f c]] m f by fastforce
qed

section \<open>Every sequence of operations\<close>

lemma initial_tree_ok: "tree_ok (new_backtracker d (initial_params k u l m))"
  by (rule new_ok) (simp_all add: check_runtime_pkg_mask_def initial_params_def default_params_def fmran'_def)

text \<open>
  C4: in every state that the operations reach from a new search, with passes that keep the counters of
  their node, all indices are valid, so that no operation panics (\<open>feedback\<close> once a node was taken);
  every node is within the mask budget, its depth counts at least its mask steps and at most the nodes
  before it, so that no counter wraps; and the best run is the first deepest terminal node, which has
  no mask step.
\<close>

theorem backtrack_tree_invariant:
  assumes "bt_reachable (new_backtracker d (initial_params k u l m)) bt"
  shows "tree_ok bt \<and> get_node bt \<noteq> Panic \<and> adopt_current p bt \<noteq> Panic \<and>
    (bt_current bt \<noteq> None \<longrightarrow> feedback kind bt \<noteq> Panic) \<and>
    (\<exists>b < length (bt_nodes bt). get_best_run bt = Return (bn_params (bt_nodes bt ! b)) \<and>
       bn_terminal (bt_nodes bt ! b) \<and> steps_of bt b = 0 \<and>
       (\<forall>i < length (bt_nodes bt). bn_terminal (bt_nodes bt ! i) \<longrightarrow> depth_of bt i \<le> depth_of bt b) \<and>
       (\<forall>i < b. bn_terminal (bt_nodes bt ! i) \<longrightarrow> depth_of bt i < depth_of bt b))"
proof -
  have ok: "tree_ok bt" by (rule reachable_ok [OF assms initial_tree_ok])
  then have cur: "i < length (bt_nodes bt)" if "bt_current bt = Some i" for i
    using that by (simp add: tree_ok_def)
  obtain b where b: "get_best_run bt = Return (bn_params (bt_nodes bt ! b))" "b < length (bt_nodes bt)"
    "bn_terminal (bt_nodes bt ! b)"
    "\<And>i. i < length (bt_nodes bt) \<Longrightarrow> bn_terminal (bt_nodes bt ! i) \<Longrightarrow> depth_of bt i \<le> depth_of bt b"
    "\<And>i. i < b \<Longrightarrow> bn_terminal (bt_nodes bt ! i) \<Longrightarrow> depth_of bt i < depth_of bt b"
    by (rule best_run_ok [of bt]) (use ok in \<open>auto simp: tree_ok_def\<close>)
  have "steps_of bt b = 0" using ok b(2,3) by (simp add: tree_ok_def nodes_ok_def)
  moreover have "get_node bt \<noteq> Panic" by (rule get_ok [OF ok]) simp_all
  moreover have "adopt_current p bt \<noteq> Panic"
    using cur by (auto simp: adopt_current_def set_params_def split: option.split)
  moreover have "feedback kind bt \<noteq> Panic" if "bt_current bt \<noteq> None"
    using that cur by (cases kind) (auto simp: feedback_def set_params_def Let_def)
  ultimately show ?thesis using ok b by blast
qed

theorem backtrack_tree_invariant_witness:
  "get_best_run example_tree = Return (initial_params True False False False)"
proof -
  have "bt_reachable (new_backtracker 5 (initial_params True False False False)) example_tree"
  proof (rule reach_step [OF reach_start])
    show "bt_step (new_backtracker 5 (initial_params True False False False)) example_tree"
      by (rule step_get [where q = "Some (initial_params True False False False)"])
        (simp add: example_tree_def get_node_def new_backtracker_def add_node_def check_runtime_pkg_mask_def
          initial_params_def default_params_def Let_def fmran'_def)
  qed
  from backtrack_tree_invariant [OF this] show ?thesis by (auto simp: example_tree_eq)
qed

end
