(* ===== verification/FeedbackOk.thy ===== *)
theory FeedbackOk
  imports Feedback BacktrackerOk
begin

text \<open>
  What the decision chain does to the counters and to the two latches of the reverse-dependency feed:
  it never touches the counters, and a \<open>RevDep\<close> feedback always has a new pin or a new seed.
\<close>

section \<open>Counters and latches\<close>

definition counters :: "'cfg backtrack_params \<Rightarrow> 32 word \<times> 32 word" where
  "counters p = (bp_mask_steps p, bp_depth p)"

definition latches :: "'cfg backtrack_params \<Rightarrow> (cp \<times> string) fset \<times> expansion_seed fset" where
  "latches p = (bp_reverse_dep_masked p, bp_expansion_seeds p)"

fun is_rev_dep :: "'cfg pass_decision \<Rightarrow> bool" where
  "is_rev_dep (Feedback (RevDepFeedback _)) = True"
| "is_rev_dep _ = False"

definition keeps :: "'cfg backtrack_params \<Rightarrow> 'cfg backtrack_params \<Rightarrow> bool" where
  "keeps g g' \<longleftrightarrow> counters g' = counters g \<and> latches g' = latches g"

lemma keeps_refl [simp]: "keeps g g"
  by (simp add: keeps_def)

lemma keeps_trans [trans]: "keeps a b \<Longrightarrow> keeps b c \<Longrightarrow> keeps a c"
  by (simp add: keeps_def)

lemma kept_by_fold:
  assumes "\<And>x g. keeps g (f x g)"
  shows "keeps g (fold f xs g)"
proof (induction xs arbitrary: g)
  case (Cons x xs)
  have "keeps g (f x g)" by (rule assms)
  also have "keeps \<dots> (fold f xs (f x g))" by (rule Cons)
  finally show ?case by simp
qed simp

lemma keeps_fold_pair:
  assumes "\<And>x s. keeps (snd s) (snd (f x s))"
  shows "keeps g (snd (fold f xs (b, g)))"
proof -
  have "keeps (snd s) (snd (fold f xs s))" for s
  proof (induction xs arbitrary: s)
    case (Cons x xs)
    have "keeps (snd s) (snd (f x s))" by (rule assms)
    also have "keeps \<dots> (snd (fold f xs (f x s)))" by (rule Cons)
    finally show ?case by simp
  qed simp
  from this [of "(b, g)"] show ?thesis by simp
qed

lemmas keeps_simps = keeps_def counters_def latches_def

text \<open>A result of a step on the working copy \<open>g\<close>: no \<open>RevDep\<close>, counters and latches as they were.\<close>

definition good :: "'cfg backtrack_params \<Rightarrow> ('cfg, 'x) step \<Rightarrow> bool" where
  "good g r \<longleftrightarrow>
     (case r of
        Inl (d, _) \<Rightarrow> counters (decision_params d) = counters g \<and> \<not> is_rev_dep d
      | Inr (g', _) \<Rightarrow> keeps g g')"

lemma good_bind:
  assumes "good g r" "\<And>g' p. r = Inr (g', p) \<Longrightarrow> keeps g g' \<Longrightarrow> good g' (f (g', p))"
  shows "good g (res_bind r f)"
proof (cases r)
  case (Inr st)
  obtain g' p where st: "st = (g', p)" by (cases st)
  then have k: "keeps g g'" using assms(1) Inr by (simp add: good_def)
  then have "good g' (f (g', p))" using assms(2) Inr st by blast
  then show ?thesis using k Inr st by (auto simp: good_def keeps_def split: sum.splits)
qed (use assms(1) in simp)

lemma good_skip: "good g (f (g, p)) \<Longrightarrow> good g (skip_when b f (g, p))"
  by (simp add: skip_when_def good_def)

section \<open>The parts of the steps\<close>

lemma mask_binary_keeps: "keeps (snd s) (snd (mask_binary t s))"
  by (simp add: mask_binary_def keeps_simps Let_def split: prod.split)

lemma file_unsat_keeps: "keeps g (snd (file_unsat_probe_results v u fresh masks g))"
proof -
  have "keeps g (snd (fold mask_binary ms (False, g)))" for ms
    by (rule keeps_fold_pair) (rule mask_binary_keeps)
  then show ?thesis
    by (simp add: file_unsat_probe_results_def Let_def keeps_simps split_beta)
qed

lemma fold_rebuild_keeps: "keeps g (fold_rebuild_scan sn ctx pass g)"
  by (simp add: fold_rebuild_scan_def keeps_simps Let_def split: prod.split)

lemma record_child_keeps: "keeps (snd s) (snd (record_child k c s))"
  by (simp add: record_child_def keeps_simps Let_def split: prod.split)

lemma record_cycle_node_keeps: "keeps (snd s) (snd (record_cycle_node pass cycle i s))"
  by (auto simp: record_cycle_node_def Let_def record_child_keeps split: option.splits prod.splits)

lemma record_index_cycle_keeps: "keeps g (record_index_cycle es cycle g)"
  unfolding record_index_cycle_def
proof (rule kept_by_fold)
  fix i and g :: "'a backtrack_params"
  show "keeps g (let child = es ! (cycle ! ((i + length cycle - 1) mod length cycle)); parent = es ! (cycle ! i)
      in case merge_bound_version (e_outcome child) of None \<Rightarrow> g
         | Some v \<Rightarrow> if v = [] then g else snd (record_child (entry_key parent)
             \<lparr>cd_category = e_category child, cd_package = e_package child, cd_version = v,
              cd_slot = e_slot child, cd_sub_slot = e_sub_slot child\<rparr> (False, g)))"
    using record_child_keeps [of "(False, g)"] by (auto simp: Let_def split: option.split)
qed

lemma solve_conflict_keeps: "keeps (snd s) (snd (solve_conflict sn ctx pass sc s))"
  by (auto simp: solve_conflict_def Let_def keeps_simps split: prod.splits option.splits)

lemma push_dropped_keeps: "keeps g (push_dropped pins g)"
  by (simp add: push_dropped_def keeps_simps)

lemma mask_pin_keeps: "keeps g (mask_pin pass pin nv g)"
  by (simp add: mask_pin_def keeps_simps Let_def split: prod.split)

lemma report_pin_keeps: "keeps g (report_pin pass pin g)"
proof -
  have "keeps g (report_row pass pin nv g)" for nv and g :: "'a backtrack_params"
    by (auto simp: report_row_def keeps_simps Let_def split: prod.split option.split)
  then have "keeps g (fold (report_row pass pin) xs g)" for xs and g :: "'a backtrack_params"
    by (rule kept_by_fold)
  then show ?thesis
    by (auto simp: report_pin_def Let_def intro: keeps_trans [rotated]) (simp add: keeps_simps)
qed

section \<open>The steps\<close>

lemma built_parent_good:
  "case step_built_parent_update_probe sn ctx (g, p) of
     Inl (d, _) \<Rightarrow> counters (decision_params d) = counters g \<and> \<not> is_rev_dep d
   | Inr (_, g', _) \<Rightarrow> keeps g g'"
proof -
  have r: "keeps g (fold_rebuild_scan sn ctx p (g'\<lparr> bp_probe_replaced := x \<rparr>))" if "keeps g g'" for g' x
    using that fold_rebuild_keeps [of "g'\<lparr> bp_probe_replaced := x \<rparr>" sn ctx p]
    by (auto simp: keeps_simps)
  obtain fresh masks where s: "sn_built_parent sn p (bp_runtime_pkg_mask g) = (fresh, masks)"
    by (cases "sn_built_parent sn p (bp_runtime_pkg_mask g)")
  obtain filed g1 where f: "file_unsat_probe_results (cx_vdb ctx) (cx_usepkgonly ctx) fresh masks g = (filed, g1)"
    by (cases "file_unsat_probe_results (cx_vdb ctx) (cx_usepkgonly ctx) fresh masks g")
  have k: "keeps g g1" using file_unsat_keeps [of g "cx_vdb ctx" "cx_usepkgonly ctx" fresh masks] f by simp
  show ?thesis
  proof (cases "cx_backtrack_max ctx = 0 \<or> cx_usepkgonly ctx")
    case False
    then show ?thesis
      using r [OF k] k f by (auto simp: step_built_parent_update_probe_def s Let_def keeps_def)
  qed (simp add: step_built_parent_update_probe_def)
qed

lemma circular_good: "good g (step_circular_dead_end sn (g, p))"
proof -
  have "keeps g (snd (fold (record_cycle_node p cycle) is (False, g)))" for cycle "is"
    by (rule keeps_fold_pair) (rule record_cycle_node_keeps)
  then have "counters (snd (fold (record_cycle_node p cycle) is (False, g))) = counters g" for cycle "is"
    by (simp add: keeps_def)
  then show ?thesis
    by (auto simp: step_circular_dead_end_def good_def Let_def split_beta split: list.splits)
qed

lemma abi_good: "good g (step_slot_conflict_abi sn ctx (g, p))"
  by (simp add: step_slot_conflict_abi_def good_def keeps_simps Let_def)

lemma solvable_good: "good g (step_solvable_slot_conflicts sn ctx (g, p))"
proof -
  have "keeps g (snd (fold (solve_conflict sn ctx p) xs (False, g)))" for xs
    by (rule keeps_fold_pair) (rule solve_conflict_keeps)
  then show ?thesis
    by (auto simp: step_solvable_slot_conflicts_def good_def Let_def split_beta keeps_def)
qed

lemma backtrack_good: "good g (step_slot_conflict_backtrack sn ctx config (g, p))"
  using fold_rebuild_keeps [of g sn ctx p]
  by (auto simp: step_slot_conflict_backtrack_def good_def Let_def keeps_def split: list.split)

lemma autounmask_good: "good g (step_autounmask sn ctx (g, p))"
  by (simp add: step_autounmask_def good_def counters_def)

lemma missing_dep_good: "good g (step_missing_dep sn ctx (g, p))"
proof -
  have "counters (snd (file_unsat_probe_results v u fresh masks g)) = counters g" for v u fresh masks
    using file_unsat_keeps [of g v u fresh masks] by (simp add: keeps_def)
  then show ?thesis
    by (auto simp: step_missing_dep_def good_def Let_def split_beta split: option.splits)
qed

lemma dead_end_good: "good g (step_unsatisfied_dead_end sn ctx pins (g, p))"
proof -
  have "keeps g' (snd (fold mask_binary ms (b, g')))" for b ms and g' :: "'a backtrack_params"
    by (rule keeps_fold_pair) (rule mask_binary_keeps)
  then have m: "keeps g (snd (fold mask_binary ms (b, g\<lparr> bp_forced_upgrade := x \<rparr>)))" for b ms x
    by (simp add: keeps_simps)
  show ?thesis
    using m by (auto simp: step_unsatisfied_dead_end_def good_def Let_def split_beta keeps_simps apply_prune_rebuilds_def)
qed

lemma no_leaf_good: "good g (step_no_leaf_restart sn ctx b (g, p))"
proof -
  have "keeps g (fold (record_index_cycle es) cs g)" for es cs
    by (rule kept_by_fold) (rule record_index_cycle_keeps)
  then show ?thesis by (auto simp: step_no_leaf_restart_def good_def Let_def keeps_def)
qed

lemma slot_probe_good: "good g (step_slot_operator_probe sn ctx b (g, p))"
proof -
  have "keeps g (snd (file_unsat_probe_results v u fresh masks g))" for v u fresh masks
    by (rule file_unsat_keeps)
  then show ?thesis by (auto simp: step_slot_operator_probe_def good_def Let_def split_beta keeps_def)
qed

lemma rebuild_if_good: "good g (step_rebuild_if_restart sn ctx b (g, p))"
  by (simp add: step_rebuild_if_restart_def good_def keeps_simps Let_def)

lemma installed_parent_good: "good g (step_installed_parent_update_probe sn ctx (g, p))"
proof -
  have f: "keeps g (snd (file_unsat_probe_results v u fresh masks g))" for v u fresh masks
    by (rule file_unsat_keeps)
  have "keeps g (fold_rebuild_scan sn ctx p ((snd (file_unsat_probe_results v u fresh masks g))\<lparr> bp_probe_replaced := x \<rparr>))"
    for v u fresh masks x
    using f [of v u fresh masks]
      fold_rebuild_keeps [of "(snd (file_unsat_probe_results v u fresh masks g))\<lparr> bp_probe_replaced := x \<rparr>" sn ctx p]
    by (auto simp: keeps_simps)
  then show ?thesis
    using f by (auto simp: step_installed_parent_update_probe_def good_def Let_def split_beta keeps_def)
qed

section \<open>The latches grow\<close>

text \<open>Nothing leaves a latch and what joins it is of \<open>A\<close> or \<open>B\<close>.\<close>

definition latch_le ::
  "(cp \<times> string) set \<Rightarrow> expansion_seed set \<Rightarrow> 'cfg backtrack_params \<Rightarrow> 'cfg backtrack_params \<Rightarrow> bool" where
  "latch_le A B a b \<longleftrightarrow>
     fset (bp_reverse_dep_masked a) \<subseteq> fset (bp_reverse_dep_masked b) \<and>
     fset (bp_expansion_seeds a) \<subseteq> fset (bp_expansion_seeds b) \<and>
     fset (bp_reverse_dep_masked b) \<subseteq> fset (bp_reverse_dep_masked a) \<union> A \<and>
     fset (bp_expansion_seeds b) \<subseteq> fset (bp_expansion_seeds a) \<union> B"

definition latch_less ::
  "(cp \<times> string) set \<Rightarrow> expansion_seed set \<Rightarrow> 'cfg backtrack_params \<Rightarrow> 'cfg backtrack_params \<Rightarrow> bool" where
  "latch_less A B a b \<longleftrightarrow> latch_le A B a b \<and> latches a \<noteq> latches b"

lemma latch_le_trans: "latch_le A B a b \<Longrightarrow> latch_le A B b c \<Longrightarrow> latch_le A B a c"
  by (auto simp: latch_le_def)

lemma latch_le_less: "latch_le A B a b \<Longrightarrow> latch_less A B b c \<Longrightarrow> latch_less A B a c"
  by (auto simp: latch_less_def latch_le_def latches_def)

lemma keeps_latch: "keeps a b \<Longrightarrow> latch_le A B a b"
  by (simp add: keeps_def latches_def latch_le_def)

definition fine ::
  "(cp \<times> string) set \<Rightarrow> expansion_seed set \<Rightarrow> 'cfg backtrack_params \<Rightarrow> ('cfg, 'x) step \<Rightarrow> bool" where
  "fine A B g r \<longleftrightarrow>
     (case r of
        Inl (d, _) \<Rightarrow> counters (decision_params d) = counters g \<and> (is_rev_dep d \<longrightarrow> latch_less A B g (decision_params d))
      | Inr (g', _) \<Rightarrow> counters g' = counters g \<and> latch_le A B g g')"

lemma good_fine: "good g r \<Longrightarrow> fine A B g r"
  by (auto simp: good_def fine_def keeps_def intro: keeps_latch split: sum.splits)

lemma fine_bind:
  assumes "fine A B g r" "\<And>g' p. r = Inr (g', p) \<Longrightarrow> fine A B g' (f (g', p))"
  shows "fine A B g (res_bind r f)"
proof (cases r)
  case (Inr st)
  obtain g' p where st: "st = (g', p)" by (cases st)
  then have k: "counters g' = counters g" "latch_le A B g g'" using assms(1) Inr by (simp_all add: fine_def)
  have "fine A B g' (f (g', p))" using assms(2) Inr st by blast
  then show ?thesis using k Inr st
    by (auto simp: fine_def split: sum.splits intro: latch_le_less latch_le_trans)
qed (use assms(1) in simp)

lemma fine_keeps: "keeps g g' \<Longrightarrow> fine A B g' r \<Longrightarrow> fine A B g r"
  using keeps_latch [of g g' A B]
  by (auto simp: fine_def keeps_def split: sum.splits intro: latch_le_less latch_le_trans)

lemma fine_skip: "fine A B g (f (g, p)) \<Longrightarrow> fine A B g (skip_when b f (g, p))"
  by (simp add: skip_when_def fine_def latch_le_def)

section \<open>Pins\<close>

definition pin_key :: "rev_dep_pin \<Rightarrow> cp \<times> string" where
  "pin_key pin = (rp_cp pin, rp_atom pin)"

lemma apply_enforced_pin_spec:
  assumes "apply_enforced_pin pass b pin g = (added, g')"
  shows "counters g' = counters g" "bp_expansion_seeds g' = bp_expansion_seeds g"
    "bp_reverse_dep_masked g' = finsert (pin_key pin) (bp_reverse_dep_masked g)"
    "added \<longleftrightarrow> pin_key pin |\<notin>| bp_reverse_dep_masked g"
proof -
  have k: "keeps h (fold (mask_pin pass pin) xs h)" for xs and h :: "'a backtrack_params"
    by (rule kept_by_fold) (rule mask_pin_keeps)
  have c: "counters (fold (mask_pin pass pin) xs h) = counters h"
    "bp_expansion_seeds (fold (mask_pin pass pin) xs h) = bp_expansion_seeds h"
    "bp_reverse_dep_masked (fold (mask_pin pass pin) xs h) = bp_reverse_dep_masked h"
    for xs and h :: "'a backtrack_params"
    using k [of h xs] by (simp_all add: keeps_def latches_def)
  have d: "bp_mask_steps (fold (mask_pin pass pin) xs h) = bp_mask_steps h"
    "bp_depth (fold (mask_pin pass pin) xs h) = bp_depth h" for xs and h :: "'a backtrack_params"
    using c(1) [of xs h] by (simp_all add: counters_def)
  show "counters g' = counters g" "bp_expansion_seeds g' = bp_expansion_seeds g"
    "bp_reverse_dep_masked g' = finsert (pin_key pin) (bp_reverse_dep_masked g)"
    "added \<longleftrightarrow> pin_key pin |\<notin>| bp_reverse_dep_masked g"
    using assms by (auto simp: apply_enforced_pin_def Let_def counters_def pin_key_def c d split: if_splits)
qed

lemma apply_pins_spec:
  assumes "apply_pins pass b pins g = (added, g')"
  shows "counters g' = counters g \<and> bp_expansion_seeds g' = bp_expansion_seeds g \<and>
    bp_reverse_dep_masked g' = bp_reverse_dep_masked g |\<union>| fset_of_list (map pin_key pins) \<and>
    (added \<longleftrightarrow> \<not> fset_of_list (map pin_key pins) |\<subseteq>| bp_reverse_dep_masked g)"
proof -
  let ?f = "\<lambda>pin (added, g). case apply_enforced_pin pass b pin g of (a, g') \<Rightarrow> (added \<or> a, g')"
  have "counters h' = counters h \<and> bp_expansion_seeds h' = bp_expansion_seeds h \<and>
      bp_reverse_dep_masked h' = bp_reverse_dep_masked h |\<union>| fset_of_list (map pin_key pins) \<and>
      (a' \<longleftrightarrow> a \<or> \<not> fset_of_list (map pin_key pins) |\<subseteq>| bp_reverse_dep_masked h)"
    if "fold ?f pins (a, h) = (a', h')" for a a' and h h' :: "'a backtrack_params"
    using that
  proof (induction pins arbitrary: a h)
    case (Cons pin pins)
    obtain c h1 where e: "apply_enforced_pin pass b pin h = (c, h1)" by (cases "apply_enforced_pin pass b pin h")
    note s = apply_enforced_pin_spec [OF e]
    have "fold ?f pins (a \<or> c, h1) = (a', h')" using Cons.prems e by simp
    from Cons.IH [OF this] show ?case using s by auto
  qed simp
  from this [of False g added g'] show ?thesis using assms by (simp add: apply_pins_def)
qed

lemma fold_report_keeps: "keeps g (fold (report_pin pass) pins g)"
  by (rule kept_by_fold) (rule report_pin_keeps)

lemma reverse_dep_fine:
  assumes "pin_key ` set (rs_enforced scan) \<subseteq> A"
  shows "fine A B g (step_reverse_dep_pins ctx scan (g, p))"
proof -
  obtain added g1 where a: "apply_pins p (cx_backtrack_max ctx) (rs_enforced scan) g = (added, g1)"
    by (cases "apply_pins p (cx_backtrack_max ctx) (rs_enforced scan) g")
  note s = apply_pins_spec [OF a]
  let ?g = "push_dropped (rs_dropped scan) (fold (report_pin p) (rs_report scan) g1)"
  have "keeps g1 ?g" by (rule keeps_trans [OF fold_report_keeps push_dropped_keeps])
  then have k: "counters ?g = counters g" "latches ?g = latches g1" using s by (simp_all add: keeps_def)
  then have le: "latch_le A B g ?g" using s assms by (auto simp: latches_def latch_le_def fset_of_list.rep_eq)
  have "added \<Longrightarrow> latches ?g \<noteq> latches g" using k(2) s by (auto simp: latches_def)
  then show ?thesis using k le by (auto simp: step_reverse_dep_pins_def a fine_def latch_less_def Let_def)
qed

lemma early_feed_fine:
  assumes "early_feed sn ctx scan pass g = (restart, g')"
    and AB: "pin_key ` set (rs_enforced scan) \<subseteq> A" "\<And>g. set (ef_seeds (sn_seeds sn pass g)) \<subseteq> B"
  shows "counters g' = counters g" "latch_le A B g g'" "restart \<Longrightarrow> latch_less A B g g'"
proof -
  let ?pins = "filter (\<lambda>pin. rp_holder_open pin \<or>
      rp_cp pin \<in> set (map rp_cp (filter rp_holder_open (rs_enforced scan)))) (rs_enforced scan)"
  obtain added g1 where a: "apply_pins pass (cx_backtrack_max ctx) ?pins g = (added, g1)"
    by (cases "apply_pins pass (cx_backtrack_max ctx) ?pins g")
  note s = apply_pins_spec [OF a]
  define g2 where "g2 = (if pr_slot_conflicts pass \<noteq> [] then push_dropped (rs_dropped scan) g1 else g1)"
  have "keeps g1 g2" by (simp add: g2_def push_dropped_keeps)
  then have k: "counters g2 = counters g" "bp_expansion_seeds g2 = bp_expansion_seeds g"
    "bp_reverse_dep_masked g2 = bp_reverse_dep_masked g |\<union>| fset_of_list (map pin_key ?pins)"
    using s by (auto simp: keeps_def latches_def)
  define feed where "feed = sn_seeds sn pass g2"
  have r: "restart \<longleftrightarrow> list_ex (\<lambda>s. s |\<notin>| bp_expansion_seeds g2) (ef_seeds feed) \<or> added"
    and g': "counters g' = counters g2" "bp_reverse_dep_masked g' = bp_reverse_dep_masked g2"
      "bp_expansion_seeds g' = bp_expansion_seeds g2 |\<union>| fset_of_list (ef_seeds feed)"
  proof -
    have "early_feed sn ctx scan pass g =
        (list_ex (\<lambda>s. s |\<notin>| bp_expansion_seeds g2) (ef_seeds feed) \<or> added,
         g2\<lparr> bp_expansion_seeds := bp_expansion_seeds g2 |\<union>| fset_of_list (ef_seeds feed),
             bp_posture_holds := (bp_posture_holds g2 |\<union>| fset_of_list (ef_holds_added feed))
                                 |-| fset_of_list (ef_holds_dropped feed) \<rparr>)"
      unfolding early_feed_def Let_def a prod.case feed_def g2_def by (rule refl)
    then have e: "restart \<longleftrightarrow> list_ex (\<lambda>s. s |\<notin>| bp_expansion_seeds g2) (ef_seeds feed) \<or> added"
      "g' = g2\<lparr> bp_expansion_seeds := bp_expansion_seeds g2 |\<union>| fset_of_list (ef_seeds feed),
             bp_posture_holds := (bp_posture_holds g2 |\<union>| fset_of_list (ef_holds_added feed))
                                 |-| fset_of_list (ef_holds_dropped feed) \<rparr>"
      using assms(1) by simp_all
    show "restart \<longleftrightarrow> list_ex (\<lambda>s. s |\<notin>| bp_expansion_seeds g2) (ef_seeds feed) \<or> added" by (rule e(1))
    show "counters g' = counters g2" "bp_reverse_dep_masked g' = bp_reverse_dep_masked g2"
      "bp_expansion_seeds g' = bp_expansion_seeds g2 |\<union>| fset_of_list (ef_seeds feed)"
      by (simp_all add: e(2) counters_def)
  qed
  show "counters g' = counters g" using g' k by simp
  have "fset (fset_of_list (map pin_key ?pins)) \<subseteq> A" using AB(1) by (auto simp: fset_of_list.rep_eq)
  moreover have "fset (fset_of_list (ef_seeds feed)) \<subseteq> B" using AB(2) by (simp add: feed_def fset_of_list.rep_eq)
  ultimately show le: "latch_le A B g g'" unfolding latch_le_def g' k by auto
  assume restart
  then have "(\<exists>s \<in> set (ef_seeds feed). s |\<notin>| bp_expansion_seeds g) \<or> added"
    using r k(2) by (auto simp: list_ex_iff)
  then have "latches g \<noteq> latches g'"
  proof
    assume "\<exists>s \<in> set (ef_seeds feed). s |\<notin>| bp_expansion_seeds g"
    then obtain x where x: "x \<in> set (ef_seeds feed)" "x |\<notin>| bp_expansion_seeds g" by blast
    have "x |\<in>| bp_expansion_seeds g'" using g'(3) x(1) by (simp add: fset_of_list_elem)
    then show ?thesis using x(2) by (metis latches_def prod.inject)
  next
    assume added
    then have "\<not> fset_of_list (map pin_key ?pins) |\<subseteq>| bp_reverse_dep_masked g" using s by blast
    then have "bp_reverse_dep_masked g' \<noteq> bp_reverse_dep_masked g" unfolding g'(2) k(3) by blast
    then show ?thesis by (simp add: latches_def)
  qed
  then show "latch_less A B g g'" using le by (simp add: latch_less_def)
qed

section \<open>The chain\<close>

lemma file_pins_keeps: "file_consumer_pin_conflicts sn ctx scan (g, p) = (filed, g', p') \<Longrightarrow> keeps g g'"
  by (auto simp: file_consumer_pin_conflicts_def Let_def push_dropped_keeps split: if_splits prod.splits)

lemma skip_fines:
  "fine A B g (skip_when b (step_slot_conflict_abi sn ctx) (g, p))"
  "fine A B g (skip_when b (step_solvable_slot_conflicts sn ctx) (g, p))"
  "fine A B g (skip_when b (step_slot_conflict_backtrack sn ctx config) (g, p))"
  "fine A B g (skip_when b (step_installed_parent_update_probe sn ctx) (g, p))"
  by (rule fine_skip, rule good_fine, rule abi_good solvable_good backtrack_good installed_parent_good)+

lemma filed_conflicts_fine:
  "fine A B g (case file_consumer_pin_conflicts sn ctx scan (g, p) of (filed, st) \<Rightarrow>
     res_bind (skip_when (\<not> filed) (step_slot_conflict_abi sn ctx) st)
       (skip_when w (step_slot_conflict_backtrack sn ctx config)))"
proof -
  obtain filed g' p' where f: "file_consumer_pin_conflicts sn ctx scan (g, p) = (filed, g', p')"
    by (cases "file_consumer_pin_conflicts sn ctx scan (g, p)")
  have k: "keeps g g'" by (rule file_pins_keeps [OF f])
  have "fine A B g' (res_bind (skip_when (\<not> filed) (step_slot_conflict_abi sn ctx) (g', p'))
      (skip_when w (step_slot_conflict_backtrack sn ctx config)))"
    by (intro fine_bind skip_fines)
  then show ?thesis using fine_keeps [OF k] f by simp
qed

lemma conflict_steps_fine: "fine A B g (conflict_steps sn ctx config scan (g, p))"
  unfolding conflict_steps_def Let_def
  by (intro fine_bind good_fine [OF circular_good] skip_fines filed_conflicts_fine)

lemma settle_steps_fine:
  "pin_key ` set (rs_enforced scan) \<subseteq> A \<Longrightarrow> fine A B g (settle_steps sn ctx scan (g, p))"
  unfolding settle_steps_def Let_def
  by (intro fine_bind good_fine [OF autounmask_good] good_fine [OF missing_dep_good] reverse_dep_fine
      good_fine [OF dead_end_good] good_fine [OF no_leaf_good] good_fine [OF slot_probe_good]
      good_fine [OF rebuild_if_good] skip_fines)
    (simp_all add: fine_def)

lemma collect_latches:
  assumes "collect_feedback sn ctx config params pass = (d, pass')"
    and AB: "pin_key ` set (rs_enforced (sn_reverse sn pass)) \<subseteq> A" "\<And>g. set (ef_seeds (sn_seeds sn pass g)) \<subseteq> B"
  shows "counters (decision_params d) = counters params \<and>
    (is_rev_dep d \<longrightarrow> latch_less A B params (decision_params d))"
proof -
  let ?scan = "sn_reverse sn pass"
  have o': "keeps params (fold_overlay pass params)" by (simp add: fold_overlay_def keeps_simps)
  obtain restart g where e: "early_feed sn ctx ?scan pass (fold_overlay pass params) = (restart, g)"
    by (cases "early_feed sn ctx ?scan pass (fold_overlay pass params)")
  note ef = early_feed_fine [OF e AB]
  have c: "counters g = counters params" "latch_le A B params g"
    using ef(1,2) o' keeps_latch [OF o'] by (auto simp: keeps_def intro: latch_le_trans)
  show ?thesis
  proof (cases restart)
    case True
    then have d: "d = Feedback (RevDepFeedback g)" using assms e by (simp add: collect_feedback_def)
    then show ?thesis using c(1) latch_le_less [OF keeps_latch [OF o'] ef(3) [OF True]] by simp
  next
    case False
    let ?R = "step_built_parent_update_probe sn ctx (g, pass)"
    let ?k = "\<lambda>(probe_filed, st1). res_bind (conflict_steps sn ctx config ?scan st1) (\<lambda>st2.
        res_bind (probe_filed_step probe_filed st2) (settle_steps sn ctx ?scan))"
    have f: "fine A B h (?k (pf, h, p))" for pf h p
      unfolding prod.case
      by (intro fine_bind conflict_steps_fine settle_steps_fine AB)
        (simp add: probe_filed_step_def fine_def latch_le_def)
    have "fine A B g (res_bind ?R ?k)"
    proof (cases ?R)
      case (Inl x)
      then show ?thesis using built_parent_good [where sn = sn and ctx = ctx and g = g and p = pass] by (cases x) (auto simp: fine_def)
    next
      case (Inr x)
      obtain pf h p where x: "x = (pf, h, p)" by (cases x)
      have k: "keeps g h" using built_parent_good [where sn = sn and ctx = ctx and g = g and p = pass] Inr x by simp
      then show ?thesis using fine_keeps [OF k f [of h pf p]] Inr x by simp
    qed
    moreover have "(d, pass') = (case res_bind ?R ?k of Inl d \<Rightarrow> d | Inr (g, p) \<Rightarrow> (Settle g, p))"
      using assms False e by (simp add: collect_feedback_def Let_def)
    ultimately show ?thesis using c
      by (auto simp: fine_def split: sum.splits prod.splits intro: latch_le_less)
  qed
qed

text \<open>
  C16: the decision chain hands back the parameters of the pass with their counters, and a \<open>RevDep\<close>
  feedback, which restarts a pass even without a search, always carries a pin or a seed that the pass
  did not have: one of the two latches is strictly larger and none is smaller.
\<close>

theorem feedback_progress:
  assumes "collect_feedback sn ctx config params pass = (d, pass')"
  shows "bp_mask_steps (decision_params d) = bp_mask_steps params \<and>
    bp_depth (decision_params d) = bp_depth params \<and>
    (is_rev_dep d \<longrightarrow>
       bp_reverse_dep_masked params |\<subseteq>| bp_reverse_dep_masked (decision_params d) \<and>
       bp_expansion_seeds params |\<subseteq>| bp_expansion_seeds (decision_params d) \<and>
       (bp_reverse_dep_masked params \<noteq> bp_reverse_dep_masked (decision_params d) \<or>
        bp_expansion_seeds params \<noteq> bp_expansion_seeds (decision_params d)))"
  using collect_latches [OF assms, of UNIV UNIV]
  by (auto simp: counters_def latch_less_def latch_le_def latches_def less_eq_fset.rep_eq)

text \<open>Scans that find nothing but the given seeds, an empty pass and a plain context.\<close>

definition quiet_scanners :: "expansion_seed list \<Rightarrow> ('cfg, 'x) scanners" where
  "quiet_scanners seeds =
     \<lparr> sn_reverse = (\<lambda>_. \<lparr> rs_enforced = [], rs_dropped = [], rs_report = [] \<rparr>),
       sn_seeds = (\<lambda>_ _. \<lparr> ef_seeds = seeds, ef_holds_added = [], ef_holds_dropped = [] \<rparr>),
       sn_built_parent = (\<lambda>_ _. ({||}, {||})), sn_installed_parent = (\<lambda>_ _. {||}),
       sn_unsatisfied = (\<lambda>_ _. ({||}, {||})), sn_rebuild = (\<lambda>_ _ _. ({||}, [], [])),
       sn_force = (\<lambda>_ _ _. ({||}, {||})),
       sn_abi = (\<lambda>_ _ _. \<lparr> ab_parents = {||}, ab_children = {||}, ab_display_only = {||} \<rparr>),
       sn_residual = (\<lambda>_ _. []), sn_hard_cycles = (\<lambda>_ _. []), sn_restartable = (\<lambda>_ _ _. False),
       sn_restart_cycles = (\<lambda>_ _. []), sn_rebuild_if = (\<lambda>_ _. {||}),
       sn_missed_updates = (\<lambda>_ _. ([], [], [])), sn_eliminate = (\<lambda>_ _ _. []),
       sn_flag_sets = (\<lambda>_ _ _. ({}, {})), sn_use_tier = (\<lambda>c _. c) \<rparr>"

definition empty_pass :: "'x pass_result" where
  "empty_pass =
     \<lparr> pr_entries = [], pr_slot_conflicts = [], pr_skipped_updates = [], pr_orphan_blockers = [],
       pr_slot_want = fmempty, pr_slot_pullers = fmempty, pr_masked_deps = [], pr_use_unsat_deps = [],
       pr_plain_miss_deps = [], pr_missing_dep_trigger = None, pr_missing_args = [],
       pr_autounmask_grew = False, pr_edge_kind_map = fmempty, pr_use_changes = [],
       pr_use_overlay = fmempty, pr_use_change_overlay = [], pr_use_broke = False,
       pr_abi_rebuilds = None, pr_suppressed_nvc = False \<rparr>"

definition plain_ctx :: "32 word \<Rightarrow> unit resolve_ctx" where
  "plain_ctx n =
     \<lparr> cx_backtrack_max = n, cx_config = (), cx_nodeps = False, cx_fetchonly = False,
       cx_fetch_all_uri = False, cx_buildpkgonly = False, cx_autounmask_backtrack = True,
       cx_usepkgonly = False, cx_complete = False, cx_update = False, cx_ignore_built = False,
       cx_rebuild_if_new_slot = False, cx_rebuild_if_unbuilt = False, cx_rebuild_if_new_rev = False,
       cx_rebuild_if_new_ver = False, cx_excluded = [], cx_atoms = [],
       cx_vdb = \<lparr> vdb_installed = [], vdb_aux = (\<lambda>_ _ _ _. []), vdb_live = (\<lambda>_ _ _. False),
                  vdb_versions = (\<lambda>_ _. []) \<rparr>,
       cx_repos = \<lparr> rv_candidates = (\<lambda>_ _. Some []), rv_visible = (\<lambda>_ _ _ _. True),
                    rv_installed = (\<lambda>_ _. False) \<rparr> \<rparr>"

lemma feedback_progress_witness:
  "\<exists>d. collect_feedback (quiet_scanners [\<lparr> es_owner = (''a'', ''b'', ''1''), es_atom = ''c/d'', es_demoters = {||} \<rparr>])
         (plain_ctx 0) () default_params (empty_pass :: unit pass_result) = (d, empty_pass) \<and>
       is_rev_dep d \<and> bp_expansion_seeds (decision_params d) \<noteq> {||}"
proof -
  let ?sn = "quiet_scanners [\<lparr> es_owner = (''a'', ''b'', ''1''), es_atom = ''c/d'', es_demoters = {||} \<rparr>] :: (unit, unit) scanners"
  obtain d where c: "collect_feedback ?sn (plain_ctx 0) () default_params empty_pass = (d, empty_pass)"
    and r: "is_rev_dep d"
    by (simp add: collect_feedback_def early_feed_def quiet_scanners_def empty_pass_def apply_pins_def
        fold_overlay_def Let_def default_params_def)
  from feedback_progress [OF c] r c show ?thesis
    by (auto simp: default_params_def collect_feedback_def early_feed_def quiet_scanners_def apply_pins_def
        Let_def less_eq_fset.rep_eq empty_pass_def fold_overlay_def)
qed

end
