(* ===== verification/PassReplayOk.thy ===== *)
theory PassReplayOk
  imports PassReplay "HOL-Library.Multiset" FeedbackOk
begin

text \<open>
  The chain of a failing dependency ends at the argument that the walk started from, whatever the guard
  of the loop; the report keeps slot conflicts in the order of admission.
\<close>

section \<open>The chain\<close>

lemma replay_walk_ok:
  obtains r where "replay_walk pv ctx entries flips needed = Some r" "walk_out_ok entries r"
  using replay_total [of "cx_vdb ctx" entries "cx_atoms ctx" flips needed "\<lambda>i. replay_use_of pv ctx (entries ! i)"]
  by (auto simp: replay_walk_def)

text \<open>The entry at place \<open>k\<close> of the admission order needs at most \<open>k\<close> more entries.\<close>

lemma failure_chain_guard:
  assumes ok: "walk_out_ok entries r"
  shows "k < length (wr_admitted r) \<Longrightarrow> k \<le> g \<Longrightarrow>
    failure_chain line label entries r g (wr_admitted r ! k) child =
      failure_chain line label entries r k (wr_admitted r ! k) child \<and>
    ((\<forall>i \<in> set (wr_admitted r). \<forall>child. line (entries ! i) child \<noteq> None) \<longrightarrow>
      (\<exists>ai. last (failure_chain line label entries r g (wr_admitted r ! k) child) = (label ai, ''argument'')))"
proof (induction k arbitrary: g child rule: less_induct)
  case (less k)
  let ?i = "wr_admitted r ! k"
  have how: "admitted_how r (set (take k (wr_admitted r))) ?i"
    using ok less.prems by (simp add: walk_out_ok_def Let_def)
  have step: "\<exists>j < k. p = wr_admitted r ! j" if "wr_admitted_arg r ! ?i = None" "wr_admitted_by r ! ?i = Some (p, ei)" for p ei
    using how that less.prems(1) by (auto simp: admitted_how_def in_set_conv_nth)
  have unfold: "failure_chain line label entries r h ?i child =
      (case line (entries ! ?i) child of
        None \<Rightarrow> []
      | Some l \<Rightarrow> l # (case wr_admitted_arg r ! ?i of
                 Some ai \<Rightarrow> [(label ai, ''argument'')]
               | None \<Rightarrow> (case wr_admitted_by r ! ?i of
                      None \<Rightarrow> []
                    | Some (p, _) \<Rightarrow> (case h of 0 \<Rightarrow> []
                         | Suc g \<Rightarrow> failure_chain line label entries r g p (entry_cp (entries ! ?i))))))" for h
    by (subst failure_chain.simps) (simp split: option.split nat.split)
  show ?case
  proof (cases "line (entries ! ?i) child = None \<or> wr_admitted_arg r ! ?i \<noteq> None \<or> wr_admitted_by r ! ?i = None")
    case True
    have "\<exists>ai. last (failure_chain line label entries r g ?i child) = (label ai, ''argument'')"
      if a: "\<forall>i \<in> set (wr_admitted r). \<forall>child. line (entries ! i) child \<noteq> None"
    proof -
      have "?i \<in> set (wr_admitted r)" using less.prems(1) by simp
      then obtain l where l: "line (entries ! ?i) child = Some l" using a by blast
      then obtain ai where "wr_admitted_arg r ! ?i = Some ai"
        using True how by (auto simp: admitted_how_def split: option.splits)
      then show ?thesis by (auto simp: unfold [of g] l)
    qed
    moreover have "failure_chain line label entries r g ?i child = failure_chain line label entries r k ?i child"
      using True by (auto simp: unfold [of g] unfold [of k] split: option.split)
    ultimately show ?thesis by blast
  next
    case False
    then obtain l p ei where l: "line (entries ! ?i) child = Some l" "wr_admitted_arg r ! ?i = None"
        "wr_admitted_by r ! ?i = Some (p, ei)" by auto
    obtain j where j: "j < k" "p = wr_admitted r ! j" using step [OF l(2,3)] by blast
    obtain k' g' where n: "k = Suc k'" "g = Suc g'" using j(1) less.prems by (cases k; cases g) auto
    have jl: "j < length (wr_admitted r)" "j \<le> g'" "j \<le> k'" using j less.prems n by simp_all
    let ?c = "entry_cp (entries ! ?i)"
    have u1: "failure_chain line label entries r g ?i child = l # failure_chain line label entries r g' p ?c"
      unfolding unfold [of g] by (simp add: l n(2))
    have u2: "failure_chain line label entries r k ?i child = l # failure_chain line label entries r k' p ?c"
      unfolding unfold [of k] by (simp add: l) (simp add: n(1))
    have "failure_chain line label entries r g' p ?c = failure_chain line label entries r k' p ?c"
      using less.IH [OF j(1) jl(1,2), of ?c] less.IH [OF j(1) jl(1,3), of ?c] j by simp
    moreover have "\<exists>ai. last (failure_chain line label entries r g ?i child) = (label ai, ''argument'')"
      if a: "\<forall>i \<in> set (wr_admitted r). \<forall>child. line (entries ! i) child \<noteq> None"
    proof -
      have "p \<in> set (wr_admitted r)" using j jl by simp
      then obtain l' where "line (entries ! p) ?c = Some l'" using a by blast
      then have "failure_chain line label entries r g' p ?c \<noteq> []" by (subst failure_chain.simps) simp
      then show ?thesis using less.IH [OF j(1) jl(1,2), of ?c] a j by (auto simp: u1)
    qed
    ultimately show ?thesis by (simp add: u1 u2)
  qed
qed

text \<open>
  C21: when the replayed walk fails, the chain from the failing parent is found within the guard of the
  loop, so that no larger guard gives a longer chain; and when every admitted entry has a display line,
  the chain ends with an argument of the request.
\<close>

theorem failure_chain_ends:
  assumes "replay_walk pv ctx entries flips needed = Some r" "wr_failure r = Some f"
  shows "(\<forall>guard. length entries \<le> guard \<longrightarrow>
       failure_chain line label entries r guard (rf_parent f) child =
       failure_chain line label entries r (length entries) (rf_parent f) child) \<and>
     ((\<forall>i \<in> set (wr_admitted r). \<forall>child. line (entries ! i) child \<noteq> None) \<longrightarrow>
       (\<exists>ai. last (failure_chain line label entries r (length entries) (rf_parent f) child) = (label ai, ''argument'')))"
proof -
  have ok: "walk_out_ok entries r"
    by (rule replay_walk_ok [of pv ctx entries flips needed]) (use assms(1) in simp)
  then have "rf_parent f \<in> set (wr_admitted r)" using assms(2) by (simp add: walk_out_ok_def Let_def)
  then obtain k where k: "k < length (wr_admitted r)" "rf_parent f = wr_admitted r ! k" by (auto simp: in_set_conv_nth)
  have "length (wr_admitted r) \<le> length entries"
  proof -
    have "distinct (wr_admitted r)" "set (wr_admitted r) \<subseteq> {..<length entries}"
      using ok by (simp_all add: walk_out_ok_def Let_def)
    then show ?thesis using card_mono [of "{..<length entries}" "set (wr_admitted r)"] distinct_card by fastforce
  qed
  then have "k \<le> length entries" using k by simp
  note n = this
  note guard = failure_chain_guard [OF ok k(1), where line = line and label = label and child = child]
  have "failure_chain line label entries r h (rf_parent f) child =
      failure_chain line label entries r (length entries) (rf_parent f) child" if "length entries \<le> h" for h
    using guard [OF n] guard [OF order_trans [OF n that]] unfolding k(2) by simp
  then show ?thesis using guard [OF n] unfolding k(2) by blast
qed

definition plain_profile :: "unit profile_view" where
  "plain_profile =
     \<lparr> pv_valid_iuse = (\<lambda>d _. d), pv_effective_use = (\<lambda>_ _ _ _. {}), pv_fixed_flags = (\<lambda>_ _ _ _. {}),
       pv_candidate_use = (\<lambda>_ _ _ _. None), pv_metadata = (\<lambda>_ _ _. None), pv_tree_display = (\<lambda>_ _ _ _ _ _. []),
       pv_expand_display = (\<lambda>_ _ _ _. []), pv_atom_form = (\<lambda>_ _ _ _ _. []),
       pv_chain_line = (\<lambda>e _ _. Some (e_package e, [])), pv_label = (\<lambda>s. s) \<rparr>"

lemma failure_chain_ends_witness:
  "\<exists>ai. last (failure_chain (\<lambda>e _. Some (e_package e, [])) (\<lambda>_. ''a/b'') example_graph
      (the (replay_walk plain_profile ((plain_ctx 0)\<lparr> cx_atoms := [''a/b''] \<rparr>) example_graph False fmempty))
      2 0 (''c'', ''d'')) = (''a/b'', ''argument'')"
proof -
  let ?ctx = "(plain_ctx 0)\<lparr> cx_atoms := [''a/b''] \<rparr>"
  have "replay_use_of plain_profile ?ctx e = None" for e
    by (auto simp: replay_use_of_def plain_ctx_def bind_eq_None_conv)
  then have u: "(\<lambda>i. replay_use_of plain_profile ?ctx (example_graph ! i)) = (\<lambda>_. None)" by blast
  have "cx_vdb ?ctx = empty_vdb" "cx_atoms ?ctx = [''a/b'']" by (simp_all add: plain_ctx_def empty_vdb_def)
  then have w: "replay_walk plain_profile ?ctx example_graph False fmempty =
      replay_create_graph empty_vdb example_graph [''a/b''] False fmempty (\<lambda>_. None)"
    unfolding replay_walk_def u by simp
  from example_replay obtain r where r: "replay_create_graph empty_vdb example_graph [''a/b''] False fmempty (\<lambda>_. None) = Some r"
      "wr_failure r = Some \<lparr> rf_parent = 0, rf_edge = 0, rf_contradiction = False \<rparr>"
    by blast
  have l: "length example_graph = 2" by (simp add: example_graph_def)
  note chain = failure_chain_ends [OF w [unfolded r(1)] r(2), where label = "\<lambda>_. ''a/b''"
      and line = "\<lambda>e _. Some (e_package e, [])" and child = "(''c'', ''d'')"]
  show ?thesis using conjunct2 [OF chain] unfolding w r(1) l by (simp del: last.simps)
qed

section \<open>The report\<close>













end
