(* ===== verification/DriverOk.thy ===== *)
theory DriverOk
  imports Driver PassReplayOk BacktrackerOk
begin

text \<open>
  The backtracking loop ends with a result when the search reaches finitely many parameter sets: counted
  restarts are bounded by the budget, uncounted ones add a node that no other node equals, failed passes
  use up the stack, and with backtracking off every further pass has a larger latch. No step panics.
\<close>

section \<open>Valid indices\<close>

definition indices_ok :: "'cfg backtracker \<Rightarrow> bool" where
  "indices_ok bt \<longleftrightarrow>
     bt_nodes bt \<noteq> [] \<and> (\<forall>i \<in> set (bt_unexplored bt). i < length (bt_nodes bt)) \<and>
     (\<forall>i. bt_current bt = Some i \<longrightarrow> i < length (bt_nodes bt))"

lemma indices_get:
  assumes "indices_ok bt"
  obtains (empty) "bt_unexplored bt = []" "get_node bt = Return (None, bt)"
  | (node) us i where "bt_unexplored bt = us @ [i]"
    "get_node bt = Return (Some (bn_params (bt_nodes bt ! i)), bt\<lparr> bt_unexplored := us, bt_current := Some i \<rparr>)"
    "indices_ok (bt\<lparr> bt_unexplored := us, bt_current := Some i \<rparr>)"
  using assms by (cases "bt_unexplored bt" rule: rev_cases) (auto simp: get_node_def indices_ok_def Let_def)

lemma indices_adopt:
  assumes "indices_ok bt"
  obtains bt' where "adopt_current p bt = Return bt'" "indices_ok bt'" "bt_unexplored bt' = bt_unexplored bt"
    "bt_current bt' = bt_current bt"
proof (cases "bt_current bt")
  case None
  then show ?thesis using that [of bt] assms by (simp add: adopt_current_def)
next
  case (Some i)
  let ?b = "bt\<lparr> bt_nodes := (bt_nodes bt)[i := (bt_nodes bt ! i)\<lparr> bn_params := p \<rparr>] \<rparr>"
  have "adopt_current p bt = Return ?b" "indices_ok ?b"
    using Some assms by (simp_all add: adopt_current_def set_params_def indices_ok_def)
  then show ?thesis by (rule that) simp_all
qed

lemma indices_add:
  assumes "indices_ok bt" shows "indices_ok (snd (add_node p t True bt))"
  by (cases rule: add_node_cases [of p t True bt]) (use assms in \<open>auto simp: indices_ok_def less_Suc_eq\<close>)

lemma indices_feedback:
  assumes ok: "indices_ok bt" and "bt_current bt \<noteq> None"
  obtains bt' where "feedback kind bt = Return bt'" "indices_ok bt'"
proof -
  obtain i where i: "bt_current bt = Some i" using assms(2) by auto
  have l: "i < length (bt_nodes bt)" using ok i by (simp add: indices_ok_def)
  have many: "indices_ok (fold (\<lambda>c b. snd (add_node (f c) False True b)) cs b)" if "indices_ok b"
    for f :: "mask_choice \<Rightarrow> 'a backtrack_params" and cs b
    using that by (induction cs arbitrary: b) (simp_all add: indices_add)
  have set_ok: "indices_ok (bt\<lparr> bt_nodes := (bt_nodes bt)[i := (bt_nodes bt ! i)\<lparr> bn_params := base \<rparr>] \<rparr>)" for base
    using ok by (simp add: indices_ok_def)
  show ?thesis
    using that l i indices_add [OF ok] many [OF set_ok]
    by (cases kind) (auto simp: feedback_def Let_def set_params_def)
qed

text \<open>The keys of the nodes: what \<open>params_equal\<close> compares.\<close>

definition node_keys :: "'cfg backtracker \<Rightarrow> 'cfg backtrack_params set" where
  "node_keys bt = (\<lambda>n. params_key (bn_params n)) ` set (bt_nodes bt)"

lemma config_feedback_cases:
  assumes "feedback (ConfigFeedback p) bt = Return bt'"
  obtains (rejected) "bt' = bt"
  | (added) k where "k \<notin> node_keys bt" "node_keys bt' = insert k (node_keys bt)"
proof -
  obtain t where b: "bt' = snd (add_node (grown_child 0 p) t True bt)"
    using assms by (auto simp: feedback_def Let_def split: option.splits if_splits)
  show ?thesis
  proof (cases rule: add_node_cases [of "grown_child 0 p" t True bt])
    case 2
    have "params_key (grown_child 0 p) \<notin> node_keys bt"
      using 2(5) by (auto simp: node_keys_def params_equal_key)
    then show ?thesis using that(2) 2(1) by (simp add: node_keys_def b)
  qed (use that b in simp)
qed

section \<open>The parts that end\<close>

lemma walk_total: "\<exists>r. replay_walk pv ctx entries flips needed = Some r"
  using replay_walk_ok by blast

lemma truncate_total: "\<exists>r. fail_fast_truncate pv ctx result = Some r"
  using walk_total [of pv ctx "gr_entries result" False fmempty] by (auto simp: fail_fast_truncate_def)

lemma clean_total:
  obtains res where "clean_pass ro ctx initial n = Some res"
proof -
  have "\<exists>res. clean_pass ro ctx initial n = Some res"
    using truncate_total by (cases "ro_run_pass ro ctx (breakage_clean_params initial) False")
      (auto simp: clean_pass_def run_breakage_clean_pass_def Let_def)
  then show ?thesis using that by blast
qed

lemma driver_sels:
  "dr_needed (st\<lparr> dr_first := b \<rparr>) = dr_needed st" "dr_restarts (st\<lparr> dr_first := b \<rparr>) = dr_restarts st"
  by simp_all

lemma finished_pass_cases:
  obtains (finish) res where "finished_pass ro ctx initial from_feed params pass st = Some (Return (Finish res))"
  | (decide) needed_init replay needed where
    "finished_pass ro ctx initial from_feed params pass st =
       Some (decide_pass ro ctx (\<not> dr_first st \<and> \<not> from_feed) params needed_init replay pass
               (st\<lparr> dr_first := False, dr_needed := needed \<rparr>))"
proof -
  obtain res where c: "clean_pass ro ctx initial (dr_restarts st) = Some res" by (rule clean_total)
  show ?thesis
  proof (cases "bp_disabled params")
    case True
    then show ?thesis using that(1) [of res] c by (simp add: finished_pass_def Let_def)
  next
    case False
    let ?w = "if replay_wanted ctx params pass (st\<lparr> dr_first := False \<rparr>)
      then map_option Some (replay_walk (ro_profile ro) ctx (pr_entries pass) True
             (merge_absent (bp_use_config params) (dr_needed st))) else Some None"
    obtain replay where r: "?w = Some replay"
      using walk_total [of "ro_profile ro" ctx "pr_entries pass" True "merge_absent (bp_use_config params) (dr_needed st)"]
      by (cases "replay_wanted ctx params pass (st\<lparr> dr_first := False \<rparr>)") auto
    define needed where "needed = (case replay of
        Some r \<Rightarrow> if cx_autounmask_backtrack ctx then merge_absent (dr_needed st) (wr_needed r) else dr_needed st
      | None \<Rightarrow> dr_needed st)"
    have s: "(case replay of
        Some r \<Rightarrow> if cx_autounmask_backtrack ctx
                  then st\<lparr> dr_first := False, dr_needed := merge_absent (dr_needed st) (wr_needed r) \<rparr>
                  else st\<lparr> dr_first := False \<rparr>
      | None \<Rightarrow> st\<lparr> dr_first := False \<rparr>) = st\<lparr> dr_first := False, dr_needed := needed \<rparr>"
      by (cases replay) (simp_all add: needed_def)
    have "finished_pass ro ctx initial from_feed params pass st =
        (if contradicts replay then Some (Return (Finish res))
         else Some (decide_pass ro ctx (\<not> dr_first st \<and> \<not> from_feed) params
                (merge_absent (bp_use_config params) (dr_needed st)) replay pass
                (st\<lparr> dr_first := False, dr_needed := needed \<rparr>)))"
      by (simp only: finished_pass_def Let_def False if_False driver_state.select_convs driver_sels r bind.bind_lunit
          s c option.map)
    then show ?thesis using that by (cases "contradicts replay") auto
  qed
qed

lemma count_failed_simps [simp]:
  "dr_bt (count_failed st) = dr_bt st" "dr_feed (count_failed st) = dr_feed st"
  "dr_restarts (count_failed st) = dr_restarts st + (if bt_unexplored (dr_bt st) = [] then 0 else 1)"
  by (simp_all add: count_failed_def)

lemma counts_or_config: "grow_restart_counts pv ctx params pass kind replay \<or> (\<exists>p. kind = ConfigFeedback p)"
  by (cases kind) (simp_all add: grow_restart_counts_def)

text \<open>A report with conflicts that lacks members of the requested sets (\<open>missing_args\<close>).\<close>

definition short_report :: "('y, 'r) graph_result \<Rightarrow> bool" where
  "short_report result \<longleftrightarrow> gr_missing_args result \<noteq> [] \<and> gr_slot_conflicts result \<noteq> []"

text \<open>What a pass can do to the loop.\<close>

lemma take_decision_cases:
  assumes ok: "indices_ok (dr_bt st)" and cur: "0 < cx_backtrack_max ctx \<longrightarrow> bt_current (dr_bt st) \<noteq> None"
  obtains (finish) res where "take_decision ro ctx config may_fail params replay pass d st = Return (Finish res)"
  | (leave) bt where "take_decision ro ctx config may_fail params replay pass d st = Return (Leave (st\<lparr> dr_bt := bt \<rparr>))"
      "indices_ok bt"
  | (failed) bt where
      "take_decision ro ctx config may_fail params replay pass d st = Return (Again (count_failed (st\<lparr> dr_bt := bt \<rparr>)))"
      "indices_ok bt" "bt_unexplored bt = bt_unexplored (dr_bt st)"
      "dr_restarts st < unat (cx_backtrack_max ctx) \<or>
       may_fail \<and> (\<exists>p. d = Settle p \<and> short_report (ro_assemble ro ctx p pass config (dr_restarts st)))"
  | (fed) grown where "cx_backtrack_max ctx = 0" "d = Feedback (RevDepFeedback grown)"
      "take_decision ro ctx config may_fail params replay pass d st = Return (Again (st\<lparr> dr_feed := Some grown \<rparr>))"
  | (restart) kind bt counts where "dr_restarts st < unat (cx_backtrack_max ctx)"
      "feedback kind (dr_bt st) = Return bt" "counts \<or> (\<exists>p. kind = ConfigFeedback p)" "indices_ok bt"
      "take_decision ro ctx config may_fail params replay pass d st =
         Return (Again (st\<lparr> dr_bt := bt, dr_restarts := dr_restarts st + (if counts then 1 else 0) \<rparr>))"
proof (cases d)
  case (Settle p)
  obtain bt where a: "adopt_current p (dr_bt st) = Return bt" "indices_ok bt" "bt_unexplored bt = bt_unexplored (dr_bt st)"
    by (rule indices_adopt [OF ok])
  show ?thesis
    using that(1,3) a Settle
    by (cases "gr_missing_args (ro_assemble ro ctx p pass config (dr_restarts st)) \<noteq> [] \<and>
          gr_slot_conflicts (ro_assemble ro ctx p pass config (dr_restarts st)) \<noteq> [] \<and> may_fail")
      (auto simp: take_decision_def Let_def adopt_def short_report_def)
next
  case (DeadEnd p)
  obtain bt where a: "adopt_current p (dr_bt st) = Return bt" "indices_ok bt" "bt_unexplored bt = bt_unexplored (dr_bt st)"
    by (rule indices_adopt [OF ok])
  show ?thesis
    using that(2,3) a DeadEnd
    by (cases "unat (cx_backtrack_max ctx) \<le> dr_restarts st") (simp_all add: take_decision_def adopt_def failed_iteration_def)
next
  case (Feedback kind)
  let ?c = "grow_restart_counts (ro_profile ro) ctx params pass kind replay"
  have t: "take_decision ro ctx config may_fail params replay pass d st = take_feedback ro ctx config ?c pass kind st"
    using Feedback by (simp add: take_decision_def)
  show ?thesis
  proof (cases "cx_backtrack_max ctx = 0")
    case True
    then show ?thesis
      using that(1,4) t Feedback by (cases kind; cases "cx_nodeps ctx") (simp_all add: take_feedback_def)
  next
    case False
    then have "bt_current (dr_bt st) \<noteq> None" using cur by (simp add: word_gt_0)
    from indices_feedback [OF ok this, of kind] obtain bt where
      b: "feedback kind (dr_bt st) = Return bt" "indices_ok bt" .
    note m = False
    show ?thesis
    proof (cases "unat (cx_backtrack_max ctx) \<le> dr_restarts st")
      case True
      have "take_feedback ro ctx config ?c pass kind st = Return (Leave (st\<lparr> dr_bt := dr_bt st \<rparr>))"
        using True m by (simp add: take_feedback_def)
      then show ?thesis using that(2) ok t by metis
    next
      case False
      have f: "take_feedback ro ctx config ?c pass kind st =
          Return (Again (st\<lparr> dr_bt := bt, dr_restarts := dr_restarts st + (if ?c then 1 else 0) \<rparr>))"
        using False m b(1) by (simp add: take_feedback_def)
      show ?thesis
        by (rule that(5) [OF _ b(1) counts_or_config b(2)]) (use False f t in \<open>auto simp: not_le\<close>)
    qed
  qed
qed

definition run_node ::
  "('cfg, 'x, 'y, 'r, 'e) resolver \<Rightarrow> 'cfg resolve_ctx \<Rightarrow> 'cfg backtrack_params \<Rightarrow> bool \<Rightarrow> 'cfg backtrack_params \<Rightarrow>
   'cfg driver_state \<Rightarrow> ('cfg driver_state, 'e + ('y, 'r) graph_result) loop_exit run option" where
  "run_node ro ctx initial from_feed params st =
     (case ro_run_pass ro ctx params (dr_first st) of
        Inl e \<Rightarrow> Some (failed_pass ctx from_feed params e st)
      | Inr pass \<Rightarrow> finished_pass ro ctx initial from_feed params pass st)"

lemma driver_step_run:
  "driver_step ro ctx initial st =
     (case take_params st of
        Panic \<Rightarrow> Some Panic
      | Return (_, None, st1) \<Rightarrow> Some (Return (Leave st1))
      | Return (from_feed, Some params, st1) \<Rightarrow> run_node ro ctx initial from_feed params st1)"
  unfolding driver_step_def run_node_def ..

text \<open>The scans name only the pins of \<open>A\<close> and the seeds of \<open>B\<close>.\<close>

definition scans_within ::
  "(cp \<times> string) set \<Rightarrow> expansion_seed set \<Rightarrow> ('cfg, 'x, 'y, 'r, 'e) resolver \<Rightarrow> 'cfg resolve_ctx \<Rightarrow> bool" where
  "scans_within A B ro ctx \<longleftrightarrow>
     (\<forall>pass. pin_key ` set (rs_enforced (sn_reverse (ro_scanners ro ctx) pass)) \<subseteq> A) \<and>
     (\<forall>pass g. set (ef_seeds (sn_seeds (ro_scanners ro ctx) pass g)) \<subseteq> B)"

text \<open>The pass of these parameters, or the next pass of a state, settles and its report is short.\<close>

definition settles_short ::
  "('cfg, 'x, 'y, 'r, 'e) resolver \<Rightarrow> 'cfg resolve_ctx \<Rightarrow> 'cfg backtrack_params \<Rightarrow> bool \<Rightarrow> nat \<Rightarrow> bool" where
  "settles_short ro ctx params first restarts =
     (case ro_run_pass ro ctx params first of
        Inl e \<Rightarrow> False
      | Inr pass \<Rightarrow>
          (let config = pass_config ctx params
           in case collect_feedback (ro_scanners ro ctx) ctx config params pass of
                (Settle p, pass') \<Rightarrow> short_report (ro_assemble ro ctx p pass' config restarts)
              | _ \<Rightarrow> False))"

definition drops_args :: "('cfg, 'x, 'y, 'r, 'e) resolver \<Rightarrow> 'cfg resolve_ctx \<Rightarrow> 'cfg driver_state \<Rightarrow> bool" where
  "drops_args ro ctx st =
     (case take_params st of
        Return (from_feed, Some params, st1) \<Rightarrow> settles_short ro ctx params (dr_first st1) (dr_restarts st1)
      | _ \<Rightarrow> False)"

lemma decide_pass_take:
  obtains (finish) res where "decide_pass ro ctx may_fail params needed_init replay pass st = Return (Finish res)"
  | (leave) "decide_pass ro ctx may_fail params needed_init replay pass st = Return (Leave st)"
  | (take) d pass' where
      "collect_feedback (ro_scanners ro ctx) ctx (pass_config ctx params) params pass = (d, pass')"
      "decide_pass ro ctx may_fail params needed_init replay pass st =
         take_decision ro ctx (pass_config ctx params) may_fail params replay pass' d st"
proof -
  obtain d pass' where c: "collect_feedback (ro_scanners ro ctx) ctx (pass_config ctx params) params pass = (d, pass')"
    by fastforce
  show ?thesis
  proof (cases "slot_conflict_handler_stops ro ctx pass' (pass_config ctx params)")
    case True
    then show ?thesis
      using that(1,2) c by (cases "0 < dr_restarts st") (simp_all add: decide_pass_def Let_def)
  next
    case False
    show ?thesis
    proof (cases "reported_change ctx needed_init replay d")
      case None
      then show ?thesis using that(3) [OF c] c False by (simp add: decide_pass_def Let_def)
    next
      case (Some rb)
      then show ?thesis using that(1) c False by (cases rb) (simp add: decide_pass_def Let_def)
    qed
  qed
qed

lemma run_node_cases:
  assumes ok: "indices_ok (dr_bt st)" and cur: "0 < cx_backtrack_max ctx \<longrightarrow> bt_current (dr_bt st) \<noteq> None"
    and feed: "from_feed \<longrightarrow> cx_backtrack_max ctx = 0" and AB: "scans_within A B ro ctx"
  obtains (finish) res where "run_node ro ctx initial from_feed params st = Some (Return (Finish res))"
  | (leave) st' where "run_node ro ctx initial from_feed params st = Some (Return (Leave st'))" "indices_ok (dr_bt st')"
  | (dropped) "from_feed" "run_node ro ctx initial from_feed params st = Some (Return (Again st))"
  | (failed) st' where "run_node ro ctx initial from_feed params st = Some (Return (Again st'))"
      "indices_ok (dr_bt st')" "bt_unexplored (dr_bt st') = bt_unexplored (dr_bt st)" "dr_feed st' = dr_feed st" "\<not> from_feed"
      "dr_restarts st' = dr_restarts st + (if bt_unexplored (dr_bt st) = [] then 0 else 1)"
      "dr_restarts st < unat (cx_backtrack_max ctx) \<or> settles_short ro ctx params (dr_first st) (dr_restarts st)"
  | (fed) st' grown where "run_node ro ctx initial from_feed params st = Some (Return (Again st'))"
      "cx_backtrack_max ctx = 0" "dr_bt st' = dr_bt st" "dr_feed st' = Some grown" "latch_less A B params grown"
      "dr_restarts st' = dr_restarts st"
  | (restart) st' kind counts where "run_node ro ctx initial from_feed params st = Some (Return (Again st'))"
      "dr_restarts st < unat (cx_backtrack_max ctx)" "feedback kind (dr_bt st) = Return (dr_bt st')"
      "counts \<or> (\<exists>p. kind = ConfigFeedback p)" "indices_ok (dr_bt st')"
      "dr_feed st' = dr_feed st" "dr_restarts st' = dr_restarts st + (if counts then 1 else 0)"
proof (cases "ro_run_pass ro ctx params (dr_first st)")
  case (Inl e)
  obtain bt where a: "adopt_current params (dr_bt st) = Return bt" "indices_ok bt" "bt_unexplored bt = bt_unexplored (dr_bt st)"
    by (rule indices_adopt [OF ok])
  consider "from_feed" | "\<not> from_feed" "dr_first st" | "\<not> from_feed" "\<not> dr_first st" by blast
  then show ?thesis
  proof cases
    case 3
    then have r: "run_node ro ctx initial from_feed params st = Some (Return (failed_iteration ctx (st\<lparr> dr_bt := bt \<rparr>)))"
      using Inl a by (simp add: run_node_def failed_pass_def adopt_def)
    show ?thesis
    proof (cases "unat (cx_backtrack_max ctx) \<le> dr_restarts st")
      case True
      then show ?thesis using leave [of "st\<lparr> dr_bt := bt \<rparr>"] r a by (simp add: failed_iteration_def)
    next
      case False
      then show ?thesis
        using failed [of "count_failed (st\<lparr> dr_bt := bt \<rparr>)"] r a 3 by (simp add: failed_iteration_def)
    qed
  qed (use finish dropped Inl in \<open>simp_all add: run_node_def failed_pass_def\<close>)
next
  case (Inr pass)
  then have f: "run_node ro ctx initial from_feed params st = finished_pass ro ctx initial from_feed params pass st"
    by (simp add: run_node_def)
  show ?thesis
  proof (cases rule: finished_pass_cases [of ro ctx initial from_feed params pass st])
    case (finish res)
    then show ?thesis using that(1) f by simp
  next
    case (decide needed_init replay needed)
    let ?st = "st\<lparr> dr_first := False, dr_needed := needed \<rparr>" and ?m = "\<not> dr_first st \<and> \<not> from_feed"
    show ?thesis
    proof (cases rule: decide_pass_take [of ro ctx ?m params needed_init replay pass ?st])
      case (finish res)
      then show ?thesis using that(1) f decide by simp
    next
      case leave
      then show ?thesis using that(2) [of ?st] f decide ok by simp
    next
      case (take d pass')
      note run = f [unfolded decide take(2)]
      have l: "is_rev_dep d \<longrightarrow> latch_less A B params (decision_params d)"
        using collect_latches [OF take(1), of A B] AB by (auto simp: scans_within_def)
      have ok': "indices_ok (dr_bt ?st)" using ok by simp
      have cur': "0 < cx_backtrack_max ctx \<longrightarrow> bt_current (dr_bt ?st) \<noteq> None" using cur by simp
      from ok' cur' show ?thesis
      proof (cases rule: take_decision_cases [where ro = ro and config = "pass_config ctx params" and
            may_fail = ?m and params = params and replay = replay and pass = pass' and d = d])
        case (finish res)
        then show ?thesis using that(1) run by simp
      next
        case (leave bt)
        then show ?thesis using that(2) [of "?st\<lparr> dr_bt := bt \<rparr>"] run by simp
      next
        case (failed bt)
        have "\<not> from_feed" using failed(4) feed by auto
        moreover have "dr_restarts st < unat (cx_backtrack_max ctx) \<or> settles_short ro ctx params (dr_first st) (dr_restarts st)"
          using failed(4) Inr take(1) by (auto simp: settles_short_def)
        ultimately show ?thesis
          using that(4) [of "count_failed (?st\<lparr> dr_bt := bt \<rparr>)"] failed(1-3) run by simp
      next
        case (fed grown)
        then show ?thesis using that(5) [of "?st\<lparr> dr_feed := Some grown \<rparr>" grown] run l by simp
      next
        case (restart kind bt counts)
        show ?thesis
          by (rule that(6) [of "?st\<lparr> dr_bt := bt, dr_restarts := dr_restarts ?st + (if counts then 1 else 0) \<rparr>" kind counts])
            (use restart run in simp_all)
      qed
    qed
  qed
qed

section \<open>Progress of an iteration\<close>

definition driver_ok :: "'cfg resolve_ctx \<Rightarrow> 'cfg driver_state \<Rightarrow> bool" where
  "driver_ok ctx st \<longleftrightarrow> indices_ok (dr_bt st) \<and> (0 < cx_backtrack_max ctx \<longrightarrow> dr_feed st = None)"

abbreviation stack :: "'cfg driver_state \<Rightarrow> nat list" where
  "stack st \<equiv> bt_unexplored (dr_bt st)"

definition feed_grows ::
  "(cp \<times> string) set \<Rightarrow> expansion_seed set \<Rightarrow> 'cfg backtrack_params option \<Rightarrow> 'cfg backtrack_params option \<Rightarrow> bool" where
  "feed_grows A B f g \<longleftrightarrow> (\<exists>p. f = Some p \<and> (\<forall>q. g = Some q \<longrightarrow> latch_less A B p q))"

definition search_grows :: "'cfg resolve_ctx \<Rightarrow> 'cfg driver_state \<Rightarrow> 'cfg driver_state \<Rightarrow> bool" where
  "search_grows ctx st st' \<longleftrightarrow> stack st \<noteq> [] \<and>
     (stack st' = [] \<or>
      dr_restarts st < unat (cx_backtrack_max ctx) \<and> dr_restarts st < dr_restarts st' \<or>
      unat (cx_backtrack_max ctx) \<le> dr_restarts st \<and> dr_restarts st \<le> dr_restarts st' \<and> length (stack st') < length (stack st) \<or>
      dr_restarts st' = dr_restarts st \<and> node_keys (dr_bt st') = node_keys (dr_bt st) \<and> length (stack st') < length (stack st) \<or>
      dr_restarts st < unat (cx_backtrack_max ctx) \<and> dr_restarts st' = dr_restarts st \<and>
      (\<exists>k. k \<notin> node_keys (dr_bt st) \<and> node_keys (dr_bt st') = insert k (node_keys (dr_bt st))))"

definition progress ::
  "(cp \<times> string) set \<Rightarrow> expansion_seed set \<Rightarrow> 'cfg resolve_ctx \<Rightarrow> 'cfg driver_state \<Rightarrow> 'cfg driver_state \<Rightarrow> bool" where
  "progress A B ctx st st' \<longleftrightarrow>
     (if cx_backtrack_max ctx = 0
      then length (stack st') < length (stack st) \<or> stack st' = stack st \<and> feed_grows A B (dr_feed st) (dr_feed st')
      else search_grows ctx st st')"

definition within_budget :: "('cfg, 'x, 'y, 'r, 'e) resolver \<Rightarrow> 'cfg resolve_ctx \<Rightarrow> 'cfg driver_state \<Rightarrow> 'cfg driver_state \<Rightarrow> bool" where
  "within_budget ro ctx st st' \<longleftrightarrow>
     dr_restarts st' \<le> unat (cx_backtrack_max ctx) \<or> dr_restarts st' = dr_restarts st \<or> drops_args ro ctx st"

fun exit_ok :: "('cfg driver_state, 'a) loop_exit \<Rightarrow> bool" where
  "exit_ok (Again _) = False"
| "exit_ok (Leave st) = indices_ok (dr_bt st)"
| "exit_ok (Finish _) = True"

text \<open>A pass of the feed, with backtracking off.\<close>

lemma feed_step:
  assumes ok: "indices_ok (dr_bt st)" and m: "cx_backtrack_max ctx = 0" and AB: "scans_within A B ro ctx"
    and st: "st1 = st\<lparr> dr_feed := None \<rparr>" "dr_feed st = Some p"
  shows "\<exists>exit. run_node ro ctx initial True p st1 = Some (Return exit) \<and>
    (exit_ok exit \<or> (\<exists>st'. exit = Again st' \<and> driver_ok ctx st' \<and> progress A B ctx st st' \<and> within_budget ro ctx st st'))"
proof -
  have ok1: "indices_ok (dr_bt st1)" and c: "0 < cx_backtrack_max ctx \<longrightarrow> bt_current (dr_bt st1) \<noteq> None"
    and f: "True \<longrightarrow> cx_backtrack_max ctx = 0" using ok m st by simp_all
  from ok1 c f AB show ?thesis
  proof (cases rule: run_node_cases [where ro = ro and initial = initial and params = p])
    case dropped
    then show ?thesis
      using st ok m by (auto simp: driver_ok_def progress_def feed_grows_def within_budget_def)
  next
    case (fed st' grown)
    then show ?thesis
      using st ok m by (auto simp: driver_ok_def progress_def feed_grows_def within_budget_def)
  qed (use m in auto)
qed

text \<open>A node of the stack.\<close>

lemma node_step:
  assumes ok: "indices_ok (dr_bt st1)" and AB: "scans_within A B ro ctx"
    and st: "stack st = us @ [i]" "stack st1 = us" "bt_current (dr_bt st1) = Some i" "bt_nodes (dr_bt st1) = bt_nodes (dr_bt st)"
      "dr_restarts st1 = dr_restarts st" "dr_feed st = None" "dr_feed st1 = None"
      "take_params st = Return (False, Some p, st1)"
  shows "\<exists>exit. run_node ro ctx initial False p st1 = Some (Return exit) \<and>
    (exit_ok exit \<or> (\<exists>st'. exit = Again st' \<and> driver_ok ctx st' \<and> progress A B ctx st st' \<and> within_budget ro ctx st st'))"
proof -
  have c: "0 < cx_backtrack_max ctx \<longrightarrow> bt_current (dr_bt st1) \<noteq> None"
    and f: "False \<longrightarrow> cx_backtrack_max ctx = 0" using st by simp_all
  have keys: "node_keys (dr_bt st1) = node_keys (dr_bt st)" using st by (simp add: node_keys_def)
  from ok c f AB show ?thesis
  proof (cases rule: run_node_cases [where ro = ro and initial = initial and params = p])
    case (failed st')
    have "driver_ok ctx st'" using failed st by (simp add: driver_ok_def)
    moreover have "progress A B ctx st st'"
      using failed st by (auto simp: progress_def search_grows_def not_less)
    moreover have "within_budget ro ctx st st'" using failed st by (auto simp: within_budget_def drops_args_def)
    ultimately show ?thesis using failed by auto
  next
    case (fed st' grown)
    then show ?thesis
      using st ok by (auto simp: driver_ok_def progress_def within_budget_def)
  next
    case (restart st' kind counts)
    then have m: "cx_backtrack_max ctx \<noteq> 0" by auto
    have "driver_ok ctx st'" using restart st by (simp add: driver_ok_def)
    moreover have "within_budget ro ctx st st'" using restart st by (auto simp: within_budget_def)
    moreover have "search_grows ctx st st'"
    proof (cases counts)
      case True
      then show ?thesis using restart st by (simp add: search_grows_def)
    next
      case False
      then obtain q where "feedback (ConfigFeedback q) (dr_bt st1) = Return (dr_bt st')" using restart by auto
      then show ?thesis
      proof (cases rule: config_feedback_cases)
        case rejected
        then show ?thesis using False restart st keys by (simp add: search_grows_def)
      next
        case (added k)
        then show ?thesis using False restart st keys by (auto simp: search_grows_def)
      qed
    qed
    ultimately show ?thesis using restart m by (auto simp: progress_def)
  qed auto
qed

lemma driver_step_ok:
  assumes ok: "driver_ok ctx st" and AB: "scans_within A B ro ctx"
  shows "\<exists>exit. driver_step ro ctx initial st = Some (Return exit) \<and>
    (exit_ok exit \<or> (\<exists>st'. exit = Again st' \<and> driver_ok ctx st' \<and> progress A B ctx st st' \<and> within_budget ro ctx st st'))"
proof (cases "dr_feed st")
  case (Some p)
  then have m: "cx_backtrack_max ctx = 0" "indices_ok (dr_bt st)" using ok by (auto simp: driver_ok_def word_gt_0)
  have "driver_step ro ctx initial st = run_node ro ctx initial True p (st\<lparr> dr_feed := None \<rparr>)"
    using Some by (simp add: driver_step_run take_params_def)
  then show ?thesis using feed_step [OF m(2,1) AB refl Some] by simp
next
  case None
  have i: "indices_ok (dr_bt st)" using ok by (simp add: driver_ok_def)
  then show ?thesis
  proof (cases rule: indices_get)
    case empty
    then have "driver_step ro ctx initial st = Some (Return (Leave st))"
      using None by (simp add: driver_step_run take_params_def)
    then show ?thesis using i by simp
  next
    case (node us j)
    let ?bt = "(dr_bt st)\<lparr> bt_unexplored := us, bt_current := Some j \<rparr>"
    let ?st = "st\<lparr> dr_bt := ?bt, dr_passes := dr_passes st + 1 \<rparr>"
    have r: "driver_step ro ctx initial st = run_node ro ctx initial False (bn_params (bt_nodes (dr_bt st) ! j)) ?st"
      using None node by (simp add: driver_step_run take_params_def)
    show ?thesis unfolding r
      by (rule node_step [OF _ AB node(1)]) (use None node in \<open>simp_all add: take_params_def\<close>)
  qed
qed

section \<open>The search ends\<close>

inductive driver_reach ::
  "('cfg, 'x, 'y, 'r, 'e) resolver \<Rightarrow> 'cfg resolve_ctx \<Rightarrow> 'cfg backtrack_params \<Rightarrow> 'cfg driver_state \<Rightarrow> bool"
  for ro ctx initial where
  reach_first: "driver_reach ro ctx initial (start_search ctx initial)"
| reach_again: "driver_reach ro ctx initial st \<Longrightarrow> driver_step ro ctx initial st = Some (Return (Again st')) \<Longrightarrow>
    driver_reach ro ctx initial st'"

text \<open>The parameters of the nodes that a search creates, up to what \<open>params_equal\<close> does not compare.\<close>

definition search_keys ::
  "('cfg, 'x, 'y, 'r, 'e) resolver \<Rightarrow> 'cfg resolve_ctx \<Rightarrow> 'cfg backtrack_params \<Rightarrow> 'cfg backtrack_params set" where
  "search_keys ro ctx initial = \<Union> {node_keys (dr_bt st) | st. driver_reach ro ctx initial st}"

lemma reach_keys: "driver_reach ro ctx initial st \<Longrightarrow> node_keys (dr_bt st) \<subseteq> search_keys ro ctx initial"
  by (auto simp: search_keys_def)

definition feed_rank ::
  "(cp \<times> string) set \<Rightarrow> expansion_seed set \<Rightarrow> 'cfg backtrack_params option \<Rightarrow> nat" where
  "feed_rank A B f =
     (case f of
        None \<Rightarrow> 0
      | Some p \<Rightarrow> 1 + card (A - fset (bp_reverse_dep_masked p)) + card (B - fset (bp_expansion_seeds p)))"

lemma feed_rank_less:
  assumes "finite A" "finite B" "feed_grows A B f g"
  shows "feed_rank A B g < feed_rank A B f"
proof -
  obtain p where p: "f = Some p" "\<And>q. g = Some q \<Longrightarrow> latch_less A B p q"
    using assms(3) by (auto simp: feed_grows_def)
  show ?thesis
  proof (cases g)
    case (Some q)
    then have l: "latch_less A B p q" using p(2) by simp
    let ?m = "\<lambda>p. fset (bp_reverse_dep_masked p)" and ?s = "\<lambda>p. fset (bp_expansion_seeds p)"
    have le: "card (A - ?m q) \<le> card (A - ?m p)" "card (B - ?s q) \<le> card (B - ?s p)"
      using l assms(1,2) by (auto simp: latch_less_def latch_le_def intro!: card_mono)
    have "A - ?m q \<subset> A - ?m p \<or> B - ?s q \<subset> B - ?s p"
    proof (cases "?m p = ?m q")
      case True
      then have "?s p \<noteq> ?s q" using l by (auto simp: latch_less_def latches_def fset_inject)
      then show ?thesis using l by (auto simp: latch_less_def latch_le_def)
    next
      case False
      then show ?thesis using l by (auto simp: latch_less_def latch_le_def)
    qed
    then have "card (A - ?m q) < card (A - ?m p) \<or> card (B - ?s q) < card (B - ?s p)"
      using assms(1,2) by (meson finite_Diff psubset_card_mono)
    then show ?thesis using le p(1) Some by (auto simp: feed_rank_def)
  qed (simp add: p feed_rank_def)
qed

definition search_order ::
  "(cp \<times> string) set \<Rightarrow> expansion_seed set \<Rightarrow> 'cfg backtrack_params set \<Rightarrow> 'cfg resolve_ctx \<Rightarrow>
   ('cfg driver_state \<times> 'cfg driver_state) set" where
  "search_order A B K ctx =
     (let budget = unat (cx_backtrack_max ctx); off = cx_backtrack_max ctx = 0
      in measures
        [\<lambda>st. if off then length (stack st) else if stack st = [] then 0 else budget - dr_restarts st,
         \<lambda>st. if off then feed_rank A B (dr_feed st)
              else if stack st = [] \<or> budget \<le> dr_restarts st then 0 else card (K - node_keys (dr_bt st)),
         \<lambda>st. length (stack st)])"

lemma wf_search_order: "wf (search_order A B K ctx)"
  by (simp add: search_order_def Let_def)

lemma progress_less:
  assumes p: "progress A B ctx st st'"
    and off: "cx_backtrack_max ctx = 0 \<Longrightarrow> finite A \<and> finite B"
    and on: "cx_backtrack_max ctx \<noteq> 0 \<Longrightarrow> finite K \<and> node_keys (dr_bt st') \<subseteq> K"
  shows "(st', st) \<in> search_order A B K ctx"
proof (cases "cx_backtrack_max ctx = 0")
  case True
  then show ?thesis
    using p off feed_rank_less [of A B] by (auto simp: progress_def search_order_def Let_def)
next
  case False
  have g: "search_grows ctx st st'" using p False by (simp add: progress_def)
  have "card (K - insert k (node_keys (dr_bt st))) < card (K - node_keys (dr_bt st))"
    if "k \<notin> node_keys (dr_bt st)" "node_keys (dr_bt st') = insert k (node_keys (dr_bt st))" for k
    using that on [OF False] by (intro psubset_card_mono) auto
  then show ?thesis
    using g False unfolding search_grows_def search_order_def Let_def
    by (auto simp: not_le)
qed

lemma finish_total:
  assumes "indices_ok (dr_bt st)"
  shows "\<exists>res. finish_search ro ctx initial st = Some (Return res)"
proof -
  obtain best where b: "get_best_run (dr_bt st) = Return best"
    using assms by (simp add: get_best_run_def indices_ok_def)
  have "\<exists>res. best_run_report ro ctx rctx initial best (dr_restarts st) (dr_needed st) = Some res" for rctx
  proof -
    obtain c where c: "clean_pass ro ctx initial (dr_restarts st) = Some c" by (rule clean_total)
    have b: "\<exists>b. best_contradicts ro ctx best pass (dr_needed st) = Some b" for pass
      using walk_total [of "ro_profile ro" ctx "pr_entries pass" True] by (auto simp: best_contradicts_def)
    show ?thesis
    proof (cases "res_bind (ro_run_pass ro rctx best False) (fallback_pass ro rctx (pass_config ctx best) best)")
      case (Inr pr)
      obtain pass report where pr: "pr = (pass, report)" by fastforce
      obtain x where "best_contradicts ro ctx best pass (dr_needed st) = Some x" using b by blast
      then show ?thesis
        by (cases x) (simp_all add: best_run_report_def Let_def Inr pr c del: res_bind_Inr_iff)
    qed (simp add: best_run_report_def Let_def)
  qed
  then show ?thesis
    using b by (auto simp: finish_search_def split: sum.split)
qed

lemma loop_ends:
  assumes AB: "scans_within A B ro ctx"
    and off: "cx_backtrack_max ctx = 0 \<Longrightarrow> finite A \<and> finite B"
    and on: "cx_backtrack_max ctx \<noteq> 0 \<Longrightarrow> finite (search_keys ro ctx initial)"
  shows "driver_ok ctx st \<Longrightarrow> driver_reach ro ctx initial st \<Longrightarrow> \<exists>res. driver_loop ro ctx initial st = Some (Return res)"
proof (induction st rule: wf_induct_rule [OF wf_search_order [of A B "search_keys ro ctx initial" ctx]])
  case (1 st)
  obtain exit where e: "driver_step ro ctx initial st = Some (Return exit)"
    "exit_ok exit \<or> (\<exists>st'. exit = Again st' \<and> driver_ok ctx st' \<and> progress A B ctx st st' \<and> within_budget ro ctx st st')"
    using driver_step_ok [OF 1(2) AB, of initial] by blast
  show ?case
  proof (cases exit)
    case (Again st')
    then have "driver_reach ro ctx initial st'" using e(1) 1(3) by (auto intro: reach_again)
    then have "(st', st) \<in> search_order A B (search_keys ro ctx initial) ctx"
      by (intro progress_less) (use e(2) Again off on reach_keys [OF \<open>driver_reach ro ctx initial st'\<close>] in simp_all)
    then show ?thesis
      using 1(1) [of st'] e Again \<open>driver_reach ro ctx initial st'\<close>
      by (subst driver_loop.simps) auto
  next
    case (Leave st')
    then show ?thesis
      using finish_total [of st' ro ctx initial] e by (subst driver_loop.simps) auto
  next
    case (Finish res)
    then show ?thesis using e by (subst driver_loop.simps) auto
  qed
qed

lemma tree_indices: "tree_ok bt \<Longrightarrow> indices_ok bt"
  by (simp add: indices_ok_def tree_ok_def nodes_ok_def)

lemma start_driver_ok: "driver_ok ctx (start_search ctx (initial_params k u l m))"
  by (simp add: driver_ok_def start_search_def tree_indices initial_tree_ok)

text \<open>
  C3: the backtracking search returns a result, without a panic. With backtracking off it is enough that
  the scans name finitely many pins and seeds; with a budget, that the nodes of the search have finitely
  many parameter sets.
\<close>

theorem search_ends:
  assumes "ro_context ro backtrack_max = Inr ctx" and "scans_within A B ro ctx"
    and "cx_backtrack_max ctx = 0 \<Longrightarrow> finite A \<and> finite B"
    and "cx_backtrack_max ctx \<noteq> 0 \<Longrightarrow> finite (search_keys ro ctx (initial_params k u l m))"
  shows "\<exists>res. backtracking_resolve ro backtrack_max (initial_params k u l m) = Some (Return res)"
  using loop_ends [OF assms(2-4) start_driver_ok reach_first] assms(1)
  by (simp add: backtracking_resolve_def)

text \<open>
  C19: as long as no pass of the run settles into a report with conflicts that lacks requested set members,
  the restarts of every state of the loop stay within \<open>--backtrack\<close>; with backtracking off there is none.
\<close>

theorem restarts_within_budget:
  assumes "driver_reach ro ctx (initial_params k u l m) st"
    and "\<And>s. driver_reach ro ctx (initial_params k u l m) s \<Longrightarrow> \<not> drops_args ro ctx s"
  shows "dr_restarts st \<le> unat (cx_backtrack_max ctx)"
proof -
  have "driver_ok ctx st \<and> dr_restarts st \<le> unat (cx_backtrack_max ctx)"
    using assms(1)
  proof induction
    case reach_first
    show ?case using start_driver_ok by (simp add: start_search_def)
  next
    case (reach_again st st')
    have "scans_within UNIV UNIV ro ctx" by (simp add: scans_within_def)
    then show ?case
      using driver_step_ok [of ctx st UNIV UNIV ro "initial_params k u l m"] reach_again assms(2) [OF reach_again.hyps(1)]
      by (auto simp: within_budget_def)
  qed
  then show ?thesis by simp
qed

end
