(* ===== verification/DriverRuns.thy ===== *)
theory DriverRuns
  imports DriverOk
begin

text \<open>
  Runs of the backtracking loop: a resolver whose scans find nothing but given seeds. They show that the
  theorems on the loop apply, and that a search can go over its budget when passes drop set members.
\<close>

section \<open>A plain resolver\<close>

definition plain_result ::
  "(unit pass_result \<Rightarrow> string list) \<Rightarrow> unit resolve_ctx \<Rightarrow> unit backtrack_params \<Rightarrow> unit pass_result \<Rightarrow> unit \<Rightarrow> nat \<Rightarrow>
   (unit, unit) graph_result" where
  "plain_result args ctx params pass config n =
     \<lparr> gr_entries = pr_entries pass, gr_outcome = Complete, gr_backtrack_restarts = n,
       gr_backtrack_max = cx_backtrack_max ctx, gr_slot_conflicts = pr_slot_conflicts pass,
       gr_prune_unresolved = False, gr_missing_args = args pass, gr_masked_deps = [], gr_use_unsat_deps = [],
       gr_plain_miss_deps = [], gr_settled_with_backtracking = False, gr_rest = () \<rparr>"

definition plain_nodes :: "unit node_view" where
  "plain_nodes =
     \<lparr> nv_vdb = \<lparr> vdb_installed = [], vdb_aux = (\<lambda>_ _ _ _. []), vdb_live = (\<lambda>_ _ _. False), vdb_versions = (\<lambda>_ _. []) \<rparr>,
       nv_repos = \<lparr> rv_candidates = (\<lambda>_ _. None), rv_visible = (\<lambda>_ _ _ _. False), rv_installed = (\<lambda>_ _. False) \<rparr>,
       nv_installed_flags = (\<lambda>_ _ _. ({}, {})), nv_flag_sets = (\<lambda>_ _ _. ({}, {})), nv_metadata = (\<lambda>_ _ _. None) \<rparr>"

definition plain_resolver ::
  "expansion_seed list \<Rightarrow> (unit pass_result \<Rightarrow> string list) \<Rightarrow> (bool \<Rightarrow> unit pass_result) \<Rightarrow>
   (unit, unit, unit, unit, unit) resolver" where
  "plain_resolver seeds args run =
     \<lparr> ro_profile = plain_profile, ro_scanners = (\<lambda>_. quiet_scanners seeds),
       ro_context = (\<lambda>n. Inr (plain_ctx n)), ro_run_pass = (\<lambda>_ _ first. Inr (run first)),
       ro_assemble = plain_result args, ro_nodes = (\<lambda>_ _. plain_nodes), ro_live_pins = (\<lambda>_ _ _. ([], [])),
       ro_missed_updates = (\<lambda>_ _ _ _. ([], [], [])) \<rparr>"

section \<open>What the decision chain finds\<close>

lemma ffilter_empty: "ffilter P {||} = {||}"
  by auto

lemma scanner_simps:
  "sn_reverse (quiet_scanners seeds) pass = \<lparr> rs_enforced = [], rs_dropped = [], rs_report = [] \<rparr>"
  "sn_seeds (quiet_scanners seeds) pass g = \<lparr> ef_seeds = seeds, ef_holds_added = [], ef_holds_dropped = [] \<rparr>"
  "sn_built_parent (quiet_scanners seeds) pass m = ({||}, {||})"
  "sn_installed_parent (quiet_scanners seeds) pass m = {||}"
  "sn_unsatisfied (quiet_scanners seeds) pass m = ({||}, {||})"
  "sn_rebuild (quiet_scanners seeds) pass a b = ({||}, [], [])"
  "sn_force (quiet_scanners seeds) pass a b = ({||}, {||})"
  "sn_abi (quiet_scanners seeds) pass a b = \<lparr> ab_parents = {||}, ab_children = {||}, ab_display_only = {||} \<rparr>"
  "sn_residual (quiet_scanners seeds) pass pins = []" "sn_hard_cycles (quiet_scanners seeds) pass cs = []"
  "sn_restart_cycles (quiet_scanners seeds) pass cs = []" "sn_rebuild_if (quiet_scanners seeds) pass a = {||}"
  "sn_missed_updates (quiet_scanners seeds) pass g = ([], [], [])" "sn_eliminate (quiet_scanners seeds) pass a pins = []"
  "sn_use_tier (quiet_scanners seeds) c l = c"
  by (simp_all add: quiet_scanners_def)

lemma ctx_simps:
  "cx_backtrack_max (plain_ctx n) = n" "cx_nodeps (plain_ctx n) = False" "cx_autounmask_backtrack (plain_ctx n) = True"
  "cx_usepkgonly (plain_ctx n) = False" "cx_complete (plain_ctx n) = False" "cx_update (plain_ctx n) = False"
  "cx_ignore_built (plain_ctx n) = False" "cx_rebuild_if_new_slot (plain_ctx n) = False" "cx_rebuild_if_unbuilt (plain_ctx n) = False"
  "cx_rebuild_if_new_rev (plain_ctx n) = False" "cx_rebuild_if_new_ver (plain_ctx n) = False"
  "cx_excluded (plain_ctx n) = []" "cx_buildpkgonly (plain_ctx n) = False" "cx_fetchonly (plain_ctx n) = False"
  "cx_fetch_all_uri (plain_ctx n) = False" "cx_config (plain_ctx n) = ()"
  by (simp_all add: plain_ctx_def)

definition plain_pass :: "slot_conflict list \<Rightarrow> unit list \<Rightarrow> unit pass_result" where
  "plain_pass conflicts misses = empty_pass\<lparr> pr_slot_conflicts := conflicts, pr_plain_miss_deps := misses,
     pr_missing_args := map (\<lambda>_. ''c/d'') misses \<rparr>"

lemma pass_simps:
  "pr_entries (plain_pass cs args) = []" "pr_slot_conflicts (plain_pass cs args) = cs" "pr_orphan_blockers (plain_pass cs args) = []"
  "pr_slot_want (plain_pass cs args) = fmempty" "pr_slot_pullers (plain_pass cs args) = fmempty"
  "pr_masked_deps (plain_pass cs args) = []" "pr_use_unsat_deps (plain_pass cs args) = []" "pr_plain_miss_deps (plain_pass cs args) = args"
  "pr_missing_dep_trigger (plain_pass cs args) = None" "pr_missing_args (plain_pass cs args) = map (\<lambda>_. ''c/d'') args"
  "pr_autounmask_grew (plain_pass cs args) = False" "pr_use_overlay (plain_pass cs args) = fmempty" "pr_use_changes (plain_pass cs args) = []"
  "pr_use_change_overlay (plain_pass cs args) = []" "pr_use_broke (plain_pass cs args) = False"
  "pr_suppressed_nvc (plain_pass cs args) = False" "pr_skipped_updates (plain_pass cs args) = []"
  by (simp_all add: plain_pass_def empty_pass_def)

lemmas chain_defs =
  collect_feedback_def early_feed_def apply_pins_def Let_def fold_overlay_def step_built_parent_update_probe_def
  conflict_steps_def step_circular_dead_end_def skip_when_def step_slot_conflict_abi_def
  step_solvable_slot_conflicts_def file_consumer_pin_conflicts_def step_slot_conflict_backtrack_def
  probe_filed_step_def settle_steps_def step_autounmask_def step_missing_dep_def step_reverse_dep_pins_def
  no_visible_def step_unsatisfied_dead_end_def step_no_leaf_restart_def step_slot_operator_probe_def
  step_rebuild_if_restart_def step_installed_parent_update_probe_def pass_has_unsatisfied_dep_def
  file_unsat_probe_results_def fold_rebuild_scan_def drop_masked_installed_def sorted_list_of_fset_def
  push_dropped_def consumer_pin_conflict_may_feed_back_def ffilter_empty push_new.simps

definition quiet_params :: "unit backtrack_params \<Rightarrow> bool" where
  "quiet_params p \<longleftrightarrow> \<not> bp_use_broke p \<and> \<not> bp_disabled p \<and> bp_config p = None \<and> \<not> bp_suggest_use p"

lemma settles:
  assumes "quiet_params p"
  shows "\<exists>q pass'. collect_feedback (quiet_scanners []) (plain_ctx n) c p (plain_pass cs [()]) = (Settle q, pass') \<and>
     pr_slot_conflicts pass' = cs \<and> pr_missing_args pass' = [''c/d'']"
  using assms
  by (cases "n = 0") (simp_all add: scanner_simps ctx_simps pass_simps chain_defs word_gt_0 quiet_params_def split: option.split)

lemma empty_settles:
  assumes "quiet_params p"
  shows "\<exists>q pass'. collect_feedback (quiet_scanners []) (plain_ctx n) c p (plain_pass [] []) = (Settle q, pass') \<and>
     pr_slot_conflicts pass' = []"
  using assms
  by (cases "n = 0") (simp_all add: scanner_simps ctx_simps pass_simps chain_defs word_gt_0 quiet_params_def split: option.split)

lemma choice_new: "bp_runtime_pkg_mask g = fmempty \<Longrightarrow> choice_is_new g c"
  by (simp add: choice_is_new_def choice_members_def bucket_def)

text \<open>A conflict of two versions that nothing pulled in.\<close>

definition two_versions :: slot_conflict where
  "two_versions =
     (let inst = (\<lambda>v. \<lparr> sci_version = v, sci_sub_slot = ''0'', sci_repo_name = ''g'', sci_use_display = [],
                       sci_parents = [], sci_installed = False \<rparr>)
      in \<lparr> sc_category = ''a'', sc_package = ''b'', sc_slot = ''0'', sc_resolved_version = ''2'',
           sc_conflicting_atom = ''<a/b-2'', sc_instances = [inst ''2'', inst ''1''] \<rparr>)"

definition version_mask :: "string \<Rightarrow> mask_choice" where
  "version_mask v = \<lparr> mc_target = (''a'', ''b'', v), mc_parents = [], mc_similar = [], mc_installed = False \<rparr>"

lemma two_choices:
  "slot_conflict_mask_choices rv c [] g fmempty two_versions = [version_mask ''2'', version_mask ''1'']"
proof -
  have v: "conflict_versions two_versions = [''2'', ''1'']" by code_simp
  have p: "conflict_parents fmempty two_versions = []"
    by (simp add: conflict_parents_def two_versions_def Let_def bucket_def)
  show ?thesis
    by (simp add: slot_conflict_mask_choices_def v p choice_of_def opposing_def built_first_def Let_def version_mask_def)
      (simp add: two_versions_def Let_def)
qed

lemma conflict_feeds:
  assumes "quiet_params p" "n \<noteq> 0" "bp_runtime_pkg_mask p = fmempty"
  shows "\<exists>q pass'. collect_feedback (quiet_scanners []) (plain_ctx n) c p (plain_pass [two_versions] []) =
      (Feedback (SlotConflictFeedback q [version_mask ''2'', version_mask ''1'']), pass') \<and>
    pr_slot_conflicts pass' = [two_versions] \<and> quiet_params q \<and> bp_runtime_pkg_mask q = fmempty \<and> counters q = counters p"
  using assms
  by (simp add: scanner_simps ctx_simps pass_simps chain_defs word_gt_0 quiet_params_def solve_conflict_def two_choices
     choice_new counters_def split: option.split)

lemma two_versions_unsolved: "ss_changes (solve_slot_conflict_records plain_nodes [two_versions]) = []"
  by code_simp

section \<open>The tree after the conflict\<close>

lemma version_child:
  assumes "bp_runtime_pkg_mask q = fmempty"
  shows "bp_runtime_pkg_mask (choice_child q (version_mask v)) =
      fmupd (''a'', ''b'') [\<lparr> me_neg = neg_of (''a'', ''b'', v), me_reason = SlotConflictMask [] \<rparr>] fmempty"
    "check_runtime_pkg_mask (bp_runtime_pkg_mask (choice_child q (version_mask v)))"
    "quiet_params (choice_child q (version_mask v)) = quiet_params q"
proof -
  show m: "bp_runtime_pkg_mask (choice_child q (version_mask v)) =
      fmupd (''a'', ''b'') [\<lparr> me_neg = neg_of (''a'', ''b'', v), me_reason = SlotConflictMask [] \<rparr>] fmempty"
    using assms by (simp add: choice_child_def choice_members_def version_mask_def mask_member_def mask_installed_def
        bucket_def Let_def)
  show "check_runtime_pkg_mask (bp_runtime_pkg_mask (choice_child q (version_mask v)))"
    unfolding m by (auto simp: check_runtime_pkg_mask_def entry_valid_def elim!: fmranE split: if_splits)
  show "quiet_params (choice_child q (version_mask v)) = quiet_params q"
    by (simp add: quiet_params_def choice_child_def choice_members_def version_mask_def mask_member_def mask_installed_def Let_def)
qed

lemma two_children:
  fixes q :: "unit backtrack_params"
  assumes "bp_runtime_pkg_mask q = fmempty" "bp_mask_steps q = 0"
    "bt_nodes bt = [n]" "bn_terminal n" "bt_unexplored bt = []" "bt_current bt = Some 0" "bt_max_depth bt = 1"
  shows "feedback (SlotConflictFeedback q [version_mask ''2'', version_mask ''1'']) bt =
    Return \<lparr> bt_nodes = [\<lparr> bn_params = q, bn_terminal = True \<rparr>,
        \<lparr> bn_params = choice_child q (version_mask ''2''), bn_terminal = False \<rparr>,
        \<lparr> bn_params = choice_child q (version_mask ''1''), bn_terminal = False \<rparr>],
      bt_unexplored = [1, 2], bt_current = Some 0, bt_max_depth = 1 \<rparr>"
proof -
  have d: "\<not> params_equal a b" if "bp_runtime_pkg_mask a \<noteq> bp_runtime_pkg_mask b" for a b :: "unit backtrack_params"
    using that by (auto simp: params_equal_def)
  have n: "fmupd (''a'', ''b'') [\<lparr> me_neg = neg_of (''a'', ''b'', v), me_reason = SlotConflictMask [] \<rparr>] fmempty \<noteq> fmempty" for v
    by (metis fmempty_lookup fmupd_lookup option.distinct(1))
  have ng: "neg_of (''a'', ''b'', ''2'') \<noteq> neg_of (''a'', ''b'', ''1'')" by (simp add: neg_of_def)
  have m: "fmupd (''a'', ''b'') [\<lparr> me_neg = neg_of (''a'', ''b'', ''2''), me_reason = SlotConflictMask [] \<rparr>] fmempty \<noteq>
     fmupd (''a'', ''b'') [\<lparr> me_neg = neg_of (''a'', ''b'', ''1''), me_reason = SlotConflictMask [] \<rparr>] fmempty"
  proof
    assume "fmupd (''a'', ''b'') [\<lparr> me_neg = neg_of (''a'', ''b'', ''2''), me_reason = SlotConflictMask [] \<rparr>] fmempty =
     fmupd (''a'', ''b'') [\<lparr> me_neg = neg_of (''a'', ''b'', ''1''), me_reason = SlotConflictMask [] \<rparr>] fmempty"
    from arg_cong [OF this, where f = "\<lambda>m. fmlookup m (''a'', ''b'')"] show False using ng by simp
  qed
  note c = version_child(1) [OF assms(1)]
  have e: "\<not> params_equal q (choice_child q (version_mask v))" for v
    by (rule d) (simp add: assms(1) c n [symmetric])
  have f: "\<not> params_equal (choice_child q (version_mask ''2'')) (choice_child q (version_mask ''1''))"
    by (rule d) (simp only: c m not_False_eq_True)
  show ?thesis
    using assms version_child(2) [OF assms(1)]
    by (cases bt; cases n) (simp add: feedback_def set_params_def add_node_def e f Let_def)
qed

section \<open>Runs\<close>

lemma plain_step:
  assumes "dr_feed st = None" "get_node (dr_bt st) = Return (Some p, bt)" "quiet_params p"
    and c: "collect_feedback (quiet_scanners seeds) (plain_ctx n) () p (run (dr_first st)) = (d, pass)"
    and "pr_slot_conflicts pass \<in> {[], [two_versions]}"
  shows "driver_step (plain_resolver seeds args run) (plain_ctx n) initial st =
    Some (take_decision (plain_resolver seeds args run) (plain_ctx n) () (\<not> dr_first st) p None pass d
      (st\<lparr> dr_bt := bt, dr_passes := dr_passes st + 1, dr_first := False \<rparr>))"
proof -
  have "\<not> slot_conflict_handler_stops (plain_resolver seeds args run) (plain_ctx n) pass ()"
    using assms(5) by (auto simp: slot_conflict_handler_stops_def plain_resolver_def two_versions_unsolved)
  with assms(1-4) show ?thesis
    by (simp add: driver_step_def take_params_def plain_resolver_def finished_pass_def replay_wanted_def quiet_params_def
      contradicts_def decide_pass_def pass_config_def reported_change_def Let_def ctx_simps)
qed

definition first_conflict :: "bool \<Rightarrow> unit pass_result" where
  "first_conflict first = plain_pass [two_versions] (if first then [] else [()])"

lemma first_start:
  "dr_bt (start_search (plain_ctx 1) (initial_params True False False False)) =
     \<lparr> bt_nodes = [\<lparr> bn_params = initial_params True False False False, bn_terminal = True \<rparr>],
       bt_unexplored = [0], bt_current = None, bt_max_depth = 1 \<rparr>"
  by (simp add: start_search_def ctx_simps new_backtracker_def add_node_def check_runtime_pkg_mask_def initial_params_def
    default_params_def Let_def fmran'_def)

text \<open>The root pass has the conflict; its two masks are the next nodes.\<close>

lemma first_restart:
  assumes run: "run True = plain_pass [two_versions] []"
  obtains s1 q where
    "driver_step (plain_resolver [] args run) (plain_ctx 1) (initial_params True False False False)
      (start_search (plain_ctx 1) (initial_params True False False False)) = Some (Return (Again s1))"
    "\<not> drops_args (plain_resolver [] args run) (plain_ctx 1) (start_search (plain_ctx 1) (initial_params True False False False))"
    "quiet_params q" "dr_feed s1 = None" "\<not> dr_first s1" "dr_restarts s1 = 1"
    "dr_bt s1 = \<lparr> bt_nodes = [\<lparr> bn_params = q, bn_terminal = True \<rparr>,
        \<lparr> bn_params = choice_child q (version_mask ''2''), bn_terminal = False \<rparr>,
        \<lparr> bn_params = choice_child q (version_mask ''1''), bn_terminal = False \<rparr>],
      bt_unexplored = [1, 2], bt_current = Some 0, bt_max_depth = 1 \<rparr>"
    "quiet_params (choice_child q (version_mask ''1''))"
proof -
  let ?i = "initial_params True False False False :: unit backtrack_params"
  let ?s0 = "start_search (plain_ctx 1) ?i" and ?ro = "plain_resolver [] args run"
  let ?b0 = "\<lparr> bt_nodes = [\<lparr> bn_params = ?i, bn_terminal = True \<rparr>], bt_unexplored = [], bt_current = Some 0, bt_max_depth = 1 \<rparr>"
  have i: "quiet_params ?i" "bp_runtime_pkg_mask ?i = fmempty" "counters ?i = (0, 0)"
    by (simp_all add: quiet_params_def initial_params_def default_params_def counters_def)
  have s0: "dr_feed ?s0 = None" "dr_first ?s0" "dr_restarts ?s0 = 0" "dr_passes ?s0 = 0" by (simp_all add: start_search_def)
  have g0: "get_node (dr_bt ?s0) = Return (Some ?i, ?b0)" by (simp add: first_start get_node_def)
  obtain q pass where c: "collect_feedback (quiet_scanners []) (plain_ctx 1) () ?i (run (dr_first ?s0)) =
        (Feedback (SlotConflictFeedback q [version_mask ''2'', version_mask ''1'']), pass)"
    and q: "quiet_params q" "bp_runtime_pkg_mask q = fmempty" "counters q = (0, 0)"
    and cs: "pr_slot_conflicts pass \<in> {[], [two_versions]}"
    using conflict_feeds [OF i(1) _ i(2), of 1 "()"] i(3) s0(2) by (auto simp: run)
  define s1 where "s1 = ?s0\<lparr> dr_bt := \<lparr> bt_nodes = [\<lparr> bn_params = q, bn_terminal = True \<rparr>,
        \<lparr> bn_params = choice_child q (version_mask ''2''), bn_terminal = False \<rparr>,
        \<lparr> bn_params = choice_child q (version_mask ''1''), bn_terminal = False \<rparr>],
      bt_unexplored = [1, 2], bt_current = Some 0, bt_max_depth = 1 \<rparr>,
      dr_passes := 1, dr_first := False, dr_restarts := 1 \<rparr>"
  have f0: "feedback (SlotConflictFeedback q [version_mask ''2'', version_mask ''1'']) ?b0 = Return (dr_bt s1)"
    using two_children [OF q(2), of ?b0 "\<lparr> bn_params = ?i, bn_terminal = True \<rparr>"] q(3) by (simp add: s1_def counters_def)
  have "driver_step ?ro (plain_ctx 1) ?i ?s0 = Some (Return (Again s1))"
    unfolding plain_step [where run = run, OF s0(1) g0 i(1) c cs]
    by (simp add: take_decision_def grow_restart_counts_def take_feedback_def ctx_simps f0 s0 s1_def)
  moreover have "\<not> drops_args ?ro (plain_ctx 1) ?s0"
    using c i(1) s0 by (simp add: drops_args_def take_params_def g0 settles_short_def plain_resolver_def pass_config_def
        quiet_params_def ctx_simps)
  ultimately show ?thesis
    by (rule that [of s1 q]) (use q version_child(3) in \<open>simp_all add: s1_def start_search_def\<close>)
qed

text \<open>
  C20: the arm of a settled pass that dropped set members counts a restart without looking at the budget:
  with \<open>--backtrack=1\<close> a search reaches two restarts.
\<close>

theorem restarts_exceed_budget:
  "\<exists>st. driver_reach (plain_resolver [] pr_missing_args first_conflict) (plain_ctx 1)
       (initial_params True False False False) st \<and>
     unat (cx_backtrack_max (plain_ctx 1)) < dr_restarts st"
proof -
  obtain s1 q where step: "driver_step (plain_resolver [] pr_missing_args first_conflict) (plain_ctx 1)
      (initial_params True False False False) (start_search (plain_ctx 1) (initial_params True False False False)) =
        Some (Return (Again s1))"
    and s1: "dr_feed s1 = None" "\<not> dr_first s1" "dr_restarts s1 = 1"
    and b1: "dr_bt s1 = \<lparr> bt_nodes = [\<lparr> bn_params = q, bn_terminal = True \<rparr>,
        \<lparr> bn_params = choice_child q (version_mask ''2''), bn_terminal = False \<rparr>,
        \<lparr> bn_params = choice_child q (version_mask ''1''), bn_terminal = False \<rparr>],
      bt_unexplored = [1, 2], bt_current = Some 0, bt_max_depth = 1 \<rparr>"
    and q1: "quiet_params (choice_child q (version_mask ''1''))"
    by (rule first_restart [of first_conflict pr_missing_args]) (simp_all add: first_conflict_def)
  note r1 = reach_again [OF reach_first step]
  obtain p pass' where c1: "collect_feedback (quiet_scanners []) (plain_ctx 1) () (choice_child q (version_mask ''1''))
      (first_conflict (dr_first s1)) = (Settle p, pass')"
    and p: "pr_slot_conflicts pass' = [two_versions]" "pr_missing_args pass' = [''c/d'']"
    using settles [OF q1, of 1 "()" "[two_versions]"] s1(2) by (auto simp: first_conflict_def)
  have g1: "get_node (dr_bt s1) = Return (Some (choice_child q (version_mask ''1'')),
      (dr_bt s1)\<lparr> bt_unexplored := [1], bt_current := Some 2 \<rparr>)"
    by (simp add: b1 get_node_def)
  have cs: "pr_slot_conflicts pass' \<in> {[], [two_versions]}" using p(1) by simp
  have "\<exists>s2. driver_step (plain_resolver [] pr_missing_args first_conflict) (plain_ctx 1)
      (initial_params True False False False) s1 = Some (Return (Again s2)) \<and> dr_restarts s2 = 2"
    unfolding plain_step [where run = first_conflict, OF s1(1) g1 q1 c1 cs]
    by (simp add: take_decision_def plain_resolver_def plain_result_def p s1 adopt_def adopt_current_def set_params_def b1)
  then show ?thesis using r1 by (auto simp: ctx_simps intro: reach_again)
qed

text \<open>A run that restarts once and then settles; its second pass drops a set member and has no conflict.\<close>

definition then_settled :: "bool \<Rightarrow> unit pass_result" where
  "then_settled first = (if first then plain_pass [two_versions] [] else plain_pass [] [()])"

lemma restarts_within_budget_witness:
  "\<exists>st. driver_reach (plain_resolver [] pr_missing_args then_settled) (plain_ctx 1) (initial_params True False False False) st \<and>
     dr_restarts st = 1 \<and> dr_restarts st \<le> unat (cx_backtrack_max (plain_ctx 1))"
proof -
  let ?ro = "plain_resolver [] pr_missing_args then_settled" and ?i = "initial_params True False False False"
  let ?s0 = "start_search (plain_ctx 1) ?i"
  obtain s1 q where step: "driver_step ?ro (plain_ctx 1) ?i ?s0 = Some (Return (Again s1))"
    and d0: "\<not> drops_args ?ro (plain_ctx 1) ?s0"
    and s1: "dr_feed s1 = None" "\<not> dr_first s1" "dr_restarts s1 = 1"
    and b1: "dr_bt s1 = \<lparr> bt_nodes = [\<lparr> bn_params = q, bn_terminal = True \<rparr>,
        \<lparr> bn_params = choice_child q (version_mask ''2''), bn_terminal = False \<rparr>,
        \<lparr> bn_params = choice_child q (version_mask ''1''), bn_terminal = False \<rparr>],
      bt_unexplored = [1, 2], bt_current = Some 0, bt_max_depth = 1 \<rparr>"
    and q1: "quiet_params (choice_child q (version_mask ''1''))"
    by (rule first_restart [of then_settled pr_missing_args]) (simp_all add: then_settled_def)
  obtain p pass' where c1: "collect_feedback (quiet_scanners []) (plain_ctx 1) () (choice_child q (version_mask ''1''))
      (then_settled (dr_first s1)) = (Settle p, pass')" and p: "pr_slot_conflicts pass' = []"
    using settles [OF q1, of 1 "()" "[]"] s1(2) by (auto simp: then_settled_def)
  have g1: "get_node (dr_bt s1) = Return (Some (choice_child q (version_mask ''1'')),
      (dr_bt s1)\<lparr> bt_unexplored := [1], bt_current := Some 2 \<rparr>)"
    by (simp add: b1 get_node_def)
  have cs: "pr_slot_conflicts pass' \<in> {[], [two_versions]}" using p by simp
  have "\<nexists>s2. driver_step ?ro (plain_ctx 1) ?i s1 = Some (Return (Again s2))"
    unfolding plain_step [where run = then_settled, OF s1(1) g1 q1 c1 cs]
    by (simp add: take_decision_def plain_resolver_def plain_result_def p)
  moreover have "\<not> drops_args ?ro (plain_ctx 1) s1"
    using c1 q1 s1 p by (simp add: drops_args_def take_params_def g1 settles_short_def plain_resolver_def pass_config_def
        quiet_params_def ctx_simps short_report_def plain_result_def)
  moreover have "s = ?s0 \<or> s = s1" if "driver_reach ?ro (plain_ctx 1) ?i s" for s
    using that by induction (use step calculation(1) in auto)
  ultimately have "\<not> drops_args ?ro (plain_ctx 1) s" if "driver_reach ?ro (plain_ctx 1) ?i s" for s
    using that d0 by blast
  then show ?thesis
    using restarts_within_budget [OF reach_again [OF reach_first step]] reach_again [OF reach_first step] s1(3) by blast
qed

text \<open>With backtracking off and a seed to feed, and with a budget and a pass that settles.\<close>

lemma search_ends_witness:
  "(\<exists>res. backtracking_resolve
       (plain_resolver [\<lparr> es_owner = (''a'', ''b'', ''1''), es_atom = ''c/d'', es_demoters = {||} \<rparr>] (\<lambda>_. []) (\<lambda>_. plain_pass [] []))
       0 (initial_params True False False False) = Some (Return res)) \<and>
   (\<exists>res. backtracking_resolve (plain_resolver [] (\<lambda>_. []) (\<lambda>_. plain_pass [] [])) 2 (initial_params True False False False) =
       Some (Return res))"
proof
  let ?seed = "\<lparr> es_owner = (''a'', ''b'', ''1''), es_atom = ''c/d'', es_demoters = {||} \<rparr>"
  let ?ro = "\<lambda>seeds. plain_resolver seeds (\<lambda>_. []) (\<lambda>_. plain_pass [] [])" and ?i = "initial_params True False False False"
  have w: "scans_within {} (set seeds) (?ro seeds) (plain_ctx n)" for seeds n
    by (simp add: scans_within_def plain_resolver_def scanner_simps)
  show "\<exists>res. backtracking_resolve (?ro [?seed]) 0 ?i = Some (Return res)"
  proof (rule search_ends [OF _ w])
    show "ro_context (?ro [?seed]) 0 = Inr (plain_ctx 0)" by (simp add: plain_resolver_def)
  qed (simp_all add: ctx_simps)
  let ?s0 = "start_search (plain_ctx 2) ?i"
  have i: "quiet_params ?i" by (simp add: quiet_params_def initial_params_def default_params_def)
  obtain q pass where c: "collect_feedback (quiet_scanners []) (plain_ctx 2) () ?i (plain_pass [] []) = (Settle q, pass)"
    and cs: "pr_slot_conflicts pass \<in> {[], [two_versions]}"
    using empty_settles [OF i] by blast
  have g: "\<exists>bt. get_node (dr_bt ?s0) = Return (Some ?i, bt)"
    by (simp add: start_search_def ctx_simps new_backtracker_def add_node_def check_runtime_pkg_mask_def
        initial_params_def default_params_def Let_def fmran'_def get_node_def)
  then obtain bt where g: "get_node (dr_bt ?s0) = Return (Some ?i, bt)" ..
  have f: "dr_feed ?s0 = None" by (simp add: start_search_def)
  have "\<exists>res. driver_step (?ro []) (plain_ctx 2) ?i ?s0 = Some (Return (Finish res))"
    unfolding plain_step [where run = "\<lambda>_. plain_pass [] []", OF f g i c cs]
    by (simp add: take_decision_def plain_resolver_def plain_result_def)
  then obtain res where e: "driver_step (?ro []) (plain_ctx 2) ?i ?s0 = Some (Return (Finish res))" ..
  have "st = ?s0" if "driver_reach (?ro []) (plain_ctx 2) ?i st" for st
    using that by induction (use e in auto)
  then have "search_keys (?ro []) (plain_ctx 2) ?i \<subseteq> node_keys (dr_bt ?s0)"
    by (auto simp: search_keys_def)
  then have "finite (search_keys (?ro []) (plain_ctx 2) ?i)"
    by (rule finite_subset) (simp add: node_keys_def)
  then show "\<exists>res. backtracking_resolve (?ro []) 2 ?i = Some (Return res)"
    by (intro search_ends [OF _ w]) (simp_all add: plain_resolver_def ctx_simps)
qed

end
