(* ===== verification/SlotSolverOk.thy ===== *)
theory SlotSolverOk
  imports SlotSolver AtomMatch
begin

text \<open>
  What the search of the slot-conflict handler finds: it tries every configuration unless the first one
  has a solution, its solutions satisfy every parent package under the changed USE, and only minimal changes stay.
\<close>

section \<open>Every configuration\<close>

lemma next_configuration_Cons:
  "next_configuration (x # xs) (o' # os) =
     (case next_configuration xs os of
        Some ys \<Rightarrow> Some (x # ys)
      | None \<Rightarrow> if x + 1 < length o' then Some ((x + 1) # replicate (length xs) 0) else None)"
proof -
  let ?P = "\<lambda>pos. (x # xs) ! pos + 1 < length ((o' # os) ! pos)" and ?Q = "\<lambda>pos. xs ! pos + 1 < length (os ! pos)"
  have r: "rev [0..<length (x # xs)] = map Suc (rev [0..<length xs]) @ [0]"
    by (simp add: upt_conv_Cons rev_map [symmetric] map_Suc_upt [symmetric] del: upt_Suc)
  have app: "find P (as @ bs) = (case find P as of Some y \<Rightarrow> Some y | None \<Rightarrow> find P bs)" for P :: "nat \<Rightarrow> bool" and as bs
    by (induction as) auto
  have mp: "find ?P (map Suc l) = map_option Suc (find ?Q l)" for l
    by (induction l) auto
  show ?thesis
    unfolding next_configuration_def r app mp
    by (cases "find ?Q (rev [0..<length xs])") auto
qed

text \<open>The configurations from one on, the last position fastest.\<close>

fun remaining :: "nat list \<Rightarrow> 'p list list \<Rightarrow> nat list list" where
  "remaining (x # xs) (o' # os) =
     map (Cons x) (remaining xs os) @
     concat (map (\<lambda>y. map (Cons y) (product_lists (map (\<lambda>l. [0..<length l]) os))) [x + 1..<length o'])"
| "remaining _ _ = [[]]"

definition valid_ids :: "nat list \<Rightarrow> 'p list list \<Rightarrow> bool" where
  "valid_ids = list_all2 (\<lambda>i o'. i < length o')"

lemma remaining_zero:
  "list_all (\<lambda>o'. o' \<noteq> []) os \<Longrightarrow> remaining (replicate (length os) 0) os = product_lists (map (\<lambda>l. [0..<length l]) os)"
  by (induction os) (auto simp: upt_conv_Cons)

lemma remaining_next:
  "valid_ids ids os \<Longrightarrow>
   remaining ids os = ids # (case next_configuration ids os of None \<Rightarrow> [] | Some ids' \<Rightarrow> remaining ids' os)"
  unfolding valid_ids_def
proof (induction ids os rule: list_all2_induct)
  case Nil
  then show ?case by (simp add: next_configuration_def)
next
  case (Cons x xs o' os)
  have ne: "list_all (\<lambda>o'. o' \<noteq> []) os" using Cons.hyps(2) by (auto simp: list_all_length list_all2_conv_all_nth)
  show ?case
  proof (cases "next_configuration xs os")
    case None
    then show ?thesis
      using Cons ne remaining_zero [OF ne] list_all2_lengthD [OF Cons.hyps(2)]
      by (auto simp: next_configuration_Cons upt_conv_Cons)
  next
    case (Some ys)
    then show ?thesis using Cons by (simp add: next_configuration_Cons)
  qed
qed

lemma next_configuration_valid:
  assumes "valid_ids ids os" "next_configuration ids os = Some ids'"
  shows "valid_ids ids' os"
proof -
  obtain pos where p: "pos < length ids" "ids ! pos + 1 < length (os ! pos)"
    "ids' = take pos ids @ [ids ! pos + 1] @ replicate (length ids - pos - 1) 0"
    using assms(2) by (rule next_configuration_cases)
  then have "length ids' = length ids" by simp
  moreover have "ids' ! k < length (os ! k)" if "k < length ids" for k
    using that p assms(1) by (auto simp: valid_ids_def list_all2_conv_all_nth nth_append nth_Cons' intro: gr_zeroI)
  ultimately show ?thesis using assms(1) by (simp add: valid_ids_def list_all2_conv_all_nth)
qed

definition solutions_of :: "search \<Rightarrow> handler_pkg list \<Rightarrow> solution list" where
  "solutions_of se config = (case check_configuration se config of Some f \<Rightarrow> f | None \<Rightarrow> [])"

definition config_of :: "'p list list \<Rightarrow> nat list \<Rightarrow> 'p list" where
  "config_of ordered ids = map (\<lambda>i. ordered ! i ! (ids ! i)) [0..<length ids]"

lemma config_of_Cons: "config_of (o' # os) (x # xs) = o' ! x # config_of os xs"
  by (simp add: config_of_def upt_conv_Cons map_Suc_upt [symmetric] del: upt_Suc)

lemma config_of_product:
  "map (config_of os) (product_lists (map (\<lambda>l. [0..<length l]) os)) = product_lists os"
proof (induction os)
  case (Cons o' os)
  have "map (\<lambda>ids. config_of (o' # os) (y # ids)) (product_lists (map (\<lambda>l. [0..<length l]) os)) =
      map (Cons (o' ! y)) (product_lists os)" for y
    unfolding Cons [symmetric] by (simp add: config_of_Cons)
  then have "map (config_of (o' # os)) (product_lists (map (\<lambda>l. [0..<length l]) (o' # os))) =
      concat (map (\<lambda>y. map (Cons (o' ! y)) (product_lists os)) [0..<length o'])"
    by (simp add: map_concat o_def)
  also have "\<dots> = concat (map (\<lambda>z. map (Cons z) (product_lists os)) (map ((!) o') [0..<length o']))"
    by (simp add: o_def)
  finally show ?case by (simp add: map_nth)
qed (simp add: config_of_def)

lemma wf_digits: "wf (inv_image (lex less_than) (\<lambda>ids. digits_left ids ordered))"
  by (simp add: wf_lex)

lemma search_remaining:
  assumes "length ordered \<le> full_search_conflict_limit"
  shows "valid_ids ids ordered \<Longrightarrow>
    search_configurations se ordered ids False sols =
      sols @ concat (map (\<lambda>i. solutions_of se (config_of ordered i)) (remaining ids ordered))"
proof (induction ids arbitrary: sols rule: wf_induct_rule [OF wf_digits [of ordered]])
  case (1 ids)
  have s: "search_configurations se ordered ids False sols =
      (case next_configuration ids ordered of
         None \<Rightarrow> sols @ solutions_of se (config_of ordered ids)
       | Some ids' \<Rightarrow> search_configurations se ordered ids' False (sols @ solutions_of se (config_of ordered ids)))"
    using assms by (subst search_configurations.simps) (simp add: solutions_of_def config_of_def Let_def split: option.split)
  show ?case
  proof (cases "next_configuration ids ordered")
    case None
    then show ?thesis unfolding s remaining_next [OF 1(2)] by simp
  next
    case (Some ids')
    have "(ids', ids) \<in> inv_image (lex less_than) (\<lambda>ids. digits_left ids ordered)"
      using next_configuration_less [OF Some] by simp
    then show ?thesis
      unfolding s remaining_next [OF 1(2)]
      using 1(1) next_configuration_valid [OF 1(2) Some] Some by simp
  qed
qed

definition found_solutions :: "handler_conflict list \<Rightarrow> solution list" where
  "found_solutions conflicts =
     (let ordered = map ordered_pkgs conflicts
      in if ordered = [] \<or> [] \<in> set ordered then []
         else search_configurations (new_search conflicts) ordered (replicate (length ordered) 0) True [])"

lemma solve_found:
  "solve_slot_conflicts conflicts =
     \<lparr> ss_conflict_count = length conflicts, ss_solution_count = length (found_solutions conflicts),
       ss_changes = fold (\<lambda>s. add_change (solution_change s)) (found_solutions conflicts) [] \<rparr>"
  by (simp add: solve_slot_conflicts_def found_solutions_def Let_def)

text \<open>The first configuration: the first ebuild of each conflict, or its first installed package.\<close>

definition first_configuration :: "handler_conflict list \<Rightarrow> handler_pkg list" where
  "first_configuration conflicts = map (hd \<circ> ordered_pkgs) conflicts"

lemma config_of_zero:
  "[] \<notin> set os \<Longrightarrow> config_of os (replicate (length os) 0) = map hd os"
proof (induction os)
  case (Cons a os)
  then have "a \<noteq> []" by auto
  with Cons show ?case by (simp add: config_of_Cons hd_conv_nth)
qed (simp add: config_of_def)

lemma ordered_pkgs_ne: "hc_pkgs c \<noteq> [] \<Longrightarrow> ordered_pkgs c \<noteq> []"
  by (cases "hc_pkgs c") (auto simp: ordered_pkgs_def)

lemma found_solutions_eq:
  assumes "conflicts \<noteq> []" "\<forall>c \<in> set conflicts. hc_pkgs c \<noteq> []"
  shows "found_solutions conflicts =
    (let se = new_search conflicts; first = solutions_of se (first_configuration conflicts)
     in if first \<noteq> [] \<or> full_search_conflict_limit < length conflicts then first
        else concat (map (solutions_of se) (product_lists (map ordered_pkgs conflicts))))"
proof -
  let ?os = "map ordered_pkgs conflicts" and ?se = "new_search conflicts"
  let ?z = "replicate (length conflicts) 0"
  note split_ne = ordered_pkgs_ne
  have ne: "[] \<notin> set ?os"
  proof
    assume "[] \<in> set ?os"
    then obtain c where "c \<in> set conflicts" "ordered_pkgs c = []" by auto
    then show False using split_ne assms(2) by blast
  qed
  then have v: "valid_ids ?z ?os"
    using split_ne assms(2) by (auto simp: valid_ids_def list_all2_conv_all_nth)
  have c: "config_of ?os ?z = first_configuration conflicts"
    using config_of_zero [OF ne] by (simp add: first_configuration_def)
  have r: "concat (map (\<lambda>i. solutions_of ?se (config_of ?os i)) (remaining ?z ?os)) =
      concat (map (solutions_of ?se) (product_lists ?os))"
  proof -
    have "list_all (\<lambda>o'. o' \<noteq> []) ?os" using ne unfolding list_all_iff by metis
    from remaining_zero [OF this] show ?thesis
      unfolding config_of_product [of ?os, symmetric] by (simp add: o_def)
  qed
  have f: "found_solutions conflicts = search_configurations ?se ?os ?z True []"
    using assms(1) ne by (simp add: found_solutions_def)
  let ?first = "solutions_of ?se (first_configuration conflicts)"
  show ?thesis
  proof (cases "?first \<noteq> [] \<or> full_search_conflict_limit < length conflicts")
    case True
    then show ?thesis
      unfolding f c [symmetric] solutions_of_def
      by (subst search_configurations.simps) (auto simp: Let_def config_of_def)
  next
    case False
    have "search_configurations ?se ?os ?z True [] = search_configurations ?se ?os ?z False []"
      using False unfolding c [symmetric] solutions_of_def
      by (subst (1 2) search_configurations.simps) (simp add: Let_def config_of_def)
    also have "\<dots> = concat (map (solutions_of ?se) (product_lists ?os))"
      using search_remaining [of ?os ?z ?se "[]"] False v r by simp
    finally show ?thesis using False f by (simp add: Let_def)
  qed
qed

section \<open>Minimal changes\<close>

lemma is_subset_iff:
  "is_subset a b \<longleftrightarrow>
     (\<forall>s \<in> set a. \<exists>m. find (\<lambda>m. uc_cpv m = uc_cpv s) b = Some m \<and> set (uc_flags s) \<subseteq> set (uc_flags m))"
  unfolding is_subset_def list_all_iff by (intro ball_cong refl) (auto split: option.splits)

lemma is_subset_trans:
  assumes "is_subset a b" "is_subset b c" shows "is_subset a c"
  unfolding is_subset_iff
proof
  fix s assume "s \<in> set a"
  then obtain m where m: "find (\<lambda>b. uc_cpv b = uc_cpv s) b = Some m" "set (uc_flags s) \<subseteq> set (uc_flags m)"
    using assms(1) unfolding is_subset_iff by blast
  then have "m \<in> set b" "uc_cpv m = uc_cpv s" using find_some [OF m(1)] by auto
  then show "\<exists>n. find (\<lambda>m. uc_cpv m = uc_cpv s) c = Some n \<and> set (uc_flags s) \<subseteq> set (uc_flags n)"
    using assms(2) m(2) unfolding is_subset_iff by fastforce
qed

definition incomparable :: "use_change list list \<Rightarrow> bool" where
  "incomparable cs = sorted_wrt (\<lambda>a b. \<not> is_subset a b \<and> \<not> is_subset b a) cs"

definition covered :: "use_change list list \<Rightarrow> use_change list \<Rightarrow> bool" where
  "covered cs x \<longleftrightarrow> (\<exists>c \<in> set cs. c = x \<or> is_subset c x)"

lemma add_change_ok:
  assumes "incomparable cs"
  shows "incomparable (add_change new cs)" "covered (add_change new cs) new"
    "covered cs x \<Longrightarrow> covered (add_change new cs) x" "set (add_change new cs) \<subseteq> insert new (set cs)"
proof -
  show "incomparable (add_change new cs)"
    using assms by (auto simp: add_change_def incomparable_def list_ex_iff sorted_wrt_append sorted_wrt_filter)
  show "covered (add_change new cs) new"
    by (auto simp: add_change_def covered_def list_ex_iff)
  show "covered (add_change new cs) x" if "covered cs x"
    using that is_subset_trans by (fastforce simp: add_change_def covered_def)
  show "set (add_change new cs) \<subseteq> insert new (set cs)" by (auto simp: add_change_def)
qed

lemma fold_changes_ok:
  assumes "incomparable cs"
  shows "incomparable (fold (\<lambda>s. add_change (f s)) xs cs) \<and>
    (\<forall>x. covered cs x \<longrightarrow> covered (fold (\<lambda>s. add_change (f s)) xs cs) x) \<and>
    (\<forall>s \<in> set xs. covered (fold (\<lambda>s. add_change (f s)) xs cs) (f s)) \<and>
    set (fold (\<lambda>s. add_change (f s)) xs cs) \<subseteq> set cs \<union> f ` set xs"
  using assms
proof (induction xs arbitrary: cs)
  case (Cons s xs)
  note a = add_change_ok [OF Cons.prems]
  from Cons.IH [OF a(1), of "f s"] a(2,3) a(4) [of "f s"] show ?case by fastforce
qed simp

text \<open>
  C12: the slot-conflict handler tries every choice of one package per conflict, installed packages last,
  unless the first choice has a solution; beyond four conflicts it tries only that one. Of the changes
  it reports no one contains another, each is the change of a solution, and each solution contains one.
\<close>

theorem solver_minimal_changes:
  assumes "conflicts \<noteq> []" "\<forall>c \<in> set conflicts. hc_pkgs c \<noteq> []"
  shows "let se = new_search conflicts;
             first = solutions_of se (first_configuration conflicts);
             sols = (if first \<noteq> [] \<or> full_search_conflict_limit < length conflicts then first
                     else concat (map (solutions_of se) (product_lists (map ordered_pkgs conflicts))));
             result = solve_slot_conflicts conflicts
         in ss_solution_count result = length sols \<and> incomparable (ss_changes result) \<and>
            set (ss_changes result) \<subseteq> solution_change ` set sols \<and>
            (\<forall>s \<in> set sols. covered (ss_changes result) (solution_change s))"
  using fold_changes_ok [of "[]" solution_change "found_solutions conflicts"] found_solutions_eq [OF assms]
  by (simp add: solve_found incomparable_def Let_def)

section \<open>A solution satisfies every parent package\<close>

lemma found_in_configuration:
  assumes "sol \<in> set (found_solutions conflicts)"
  obtains config where "config \<in> set (product_lists (map ordered_pkgs conflicts))"
    "sol \<in> set (solutions_of (new_search conflicts) config)"
proof -
  have c: "conflicts \<noteq> []" "\<forall>c \<in> set conflicts. hc_pkgs c \<noteq> []"
    using assms by (auto simp: found_solutions_def ordered_pkgs_def Let_def image_iff split: if_splits)
  have "first_configuration conflicts \<in> set (product_lists (map ordered_pkgs conflicts))"
    using c(2) ordered_pkgs_ne by (auto simp: first_configuration_def product_lists_set list_all2_conv_all_nth)
  then show thesis
    using assms that unfolding found_solutions_eq [OF c] by (auto simp: Let_def split: if_splits)
qed

lemma solutions_of_sound:
  assumes "sol \<in> set (solutions_of se config)"
  obtains flags all_involved where "check_solution se config flags = Some sol"
    "all_some (pkg_involved se (set (map hp_key config))) (enumerate 0 config) = Some all_involved"
proof (cases "check_configuration se config")
  case (Some sols)
  then obtain all_involved where "sols = List.map_filter (\<lambda>counter. check_solution se config (flag_setting all_involved counter))
      [0..<min (setting_count (length (cond_slots all_involved))) check_configuration_max]"
    and inv: "all_some (pkg_involved se (set (map hp_key config))) (enumerate 0 config) = Some all_involved"
    by (auto simp: check_configuration_def split: if_splits)
  moreover have "sol \<in> set sols" using assms Some by (simp add: solutions_of_def)
  ultimately obtain flags where "check_solution se config flags = Some sol" by (auto simp: List.map_filter_def)
  then show ?thesis using that inv by blast
qed (use assms in \<open>simp add: solutions_of_def\<close>)

lemma all_some_mem: "all_some f xs = Some ys \<Longrightarrow> x \<in> set xs \<Longrightarrow> f x \<noteq> None"
  by (induction xs arbitrary: ys) (auto simp: bind_eq_Some_conv)

text \<open>What a configuration that is not rejected asks of an argument: its atom matches, with or without its USE dependencies.\<close>

definition argument_met :: "handler_pkg \<Rightarrow> handler_parent \<Rightarrow> bool" where
  "argument_met pkg p \<longleftrightarrow>
     atom_matches (hq_atom p) pkg (hp_use pkg) \<or> atom_matches (without_use (hq_atom p)) pkg (hp_use pkg)"

lemma views_involved_argument:
  "views_involved se keys pkg vws m \<noteq> None \<Longrightarrow> vw \<in> set vws \<Longrightarrow> hq_kind (vw_parent vw) = Argument \<Longrightarrow>
   argument_met pkg (vw_parent vw)"
proof (induction vws arbitrary: m)
  case (Cons v vws)
  then obtain m' where m: "view_involved se keys pkg v m = Some m'" "views_involved se keys pkg vws m' \<noteq> None"
    by (auto simp: bind_eq_Some_conv)
  show ?case
  proof (cases "vw = v")
    case True
    then show ?thesis using m(1) Cons.prems(3)
      by (auto simp: view_involved_def argument_met_def Let_def split: if_splits)
  next
    case False
    then show ?thesis using Cons.IH [OF m(2)] Cons.prems by simp
  qed
qed simp

lemma check_solution_sound:
  assumes "check_solution se config flags = Some sol"
  shows "definite sol" "list_all required_use_holds sol" "sol \<noteq> []"
    "\<And>i vw. i < length config \<Longrightarrow> vw \<in> set (se_views se ! i) \<Longrightarrow> view_holds sol (config ! i) vw"
proof -
  let ?r = "required_changes se config flags"
  have g: "definite ?r \<and> list_all (\<lambda>(idx, pkg). list_all (view_holds ?r pkg) (se_views se ! idx)) (enumerate 0 config) \<and>
      list_all required_use_holds ?r \<and> ?r \<noteq> []" and r: "?r = sol"
    using assms by (auto simp: check_solution_def Let_def split: if_splits)
  show "definite sol" "list_all required_use_holds sol" "sol \<noteq> []" using g by (simp_all add: r)
  show "view_holds sol (config ! i) vw" if "i < length config" "vw \<in> set (se_views se ! i)" for i vw
  proof -
    have "(i, config ! i) \<in> set (enumerate 0 config)" using that(1) by (simp add: in_set_enumerate_eq)
    then show ?thesis using g that(2) unfolding r list_all_iff by fast
  qed
qed

lemma view_holds_package:
  assumes "view_holds sol pkg vw" "hq_kind (vw_parent vw) = Package pp"
  shows "\<exists>a. evaluate_atom_conditionals (hq_unevaluated (vw_parent vw))
               (apply_forced (hp_use pp) (forced_for sol (hp_key pp))) = Return (Some a) \<and>
             atom_matches a pkg (apply_forced (hp_use pkg) (forced_for sol (hp_key pkg)))"
  using assms by (auto simp: view_holds_def split: run.splits option.splits)

text \<open>
  C11: every change the slot-conflict handler reports is the change of a solution for one package per
  conflict. In a solution each flag is set or cleared, every parent package's dependency, evaluated with
  the parent's changed flags, matches the chosen package with its changed flags, and every changed
  package meets its REQUIRED_USE where that can be evaluated. The atoms of arguments (the command line
  and the sets) match the chosen package before the change, with or without their USE dependencies; the
  handler does not look at them again, so a change may break the USE dependencies of an argument.
\<close>

theorem solver_solutions_sound:
  assumes "change \<in> set (ss_changes (solve_slot_conflicts conflicts))"
  shows "\<exists>config sol.
    change = solution_change sol \<and> sol \<noteq> [] \<and> definite sol \<and>
    list_all2 (\<lambda>pkg c. pkg \<in> set (hc_pkgs c)) config conflicts \<and>
    list_all2 (\<lambda>pkg c. \<forall>p \<in> set (hc_parents c). \<forall>pp. hq_kind p = Package pp \<longrightarrow>
        (\<exists>a. evaluate_atom_conditionals (hq_unevaluated p)
               (apply_forced (hp_use pp) (forced_for sol (hp_key pp))) = Return (Some a) \<and>
             atom_matches a pkg (apply_forced (hp_use pkg) (forced_for sol (hp_key pkg))))) config conflicts \<and>
    list_all2 (\<lambda>pkg c. \<forall>p \<in> set (hc_parents c). hq_kind p = Argument \<longrightarrow> argument_met pkg p) config conflicts \<and>
    list_all required_use_holds sol"
proof -
  from assms fold_changes_ok [of "[]" solution_change "found_solutions conflicts"]
  obtain sol where s: "change = solution_change sol" "sol \<in> set (found_solutions conflicts)"
    by (auto simp: solve_found incomparable_def)
  obtain config where c: "config \<in> set (product_lists (map ordered_pkgs conflicts))"
    "sol \<in> set (solutions_of (new_search conflicts) config)"
    using found_in_configuration [OF s(2)] .
  obtain flags all_involved where f: "check_solution (new_search conflicts) config flags = Some sol"
    and inv: "all_some (pkg_involved (new_search conflicts) (set (map hp_key config))) (enumerate 0 config) = Some all_involved"
    using solutions_of_sound [OF c(2)] .
  have mem: "list_all2 (\<lambda>pkg c. pkg \<in> set (ordered_pkgs c)) config conflicts"
    using c(1) by (simp add: product_lists_set list_all2_map2)
  then have len: "length config = length conflicts" by (rule list_all2_lengthD)
  have parents: "\<exists>a. evaluate_atom_conditionals (hq_unevaluated p)
               (apply_forced (hp_use pp) (forced_for sol (hp_key pp))) = Return (Some a) \<and>
             atom_matches a (config ! i) (apply_forced (hp_use (config ! i)) (forced_for sol (hp_key (config ! i))))"
    if i: "i < length config" and p: "p \<in> set (hc_parents (conflicts ! i))" "hq_kind p = Package pp" for i p pp
  proof -
    obtain vw where "vw \<in> set (se_views (new_search conflicts) ! i)" "vw_parent vw = p"
      using i p(1) len by (fastforce simp: new_search_def)
    with view_holds_package [OF check_solution_sound(4) [OF f i]] p(2) show ?thesis by blast
  qed
  have args: "argument_met (config ! i) p"
    if i: "i < length config" and p: "p \<in> set (hc_parents (conflicts ! i))" "hq_kind p = Argument" for i p
  proof -
    obtain vw where vw: "vw \<in> set (se_views (new_search conflicts) ! i)" "vw_parent vw = p"
      using i p(1) len by (fastforce simp: new_search_def)
    have "(i, config ! i) \<in> set (enumerate 0 config)" using i by (simp add: in_set_enumerate_eq)
    from all_some_mem [OF inv this]
    have "views_involved (new_search conflicts) (set (map hp_key config)) (config ! i) (se_views (new_search conflicts) ! i) [] \<noteq> None"
      by (auto simp: pkg_involved_def bind_eq_Some_conv)
    from views_involved_argument [OF this vw(1)] vw(2) p(2) show ?thesis by simp
  qed
  show ?thesis
    using s(1) check_solution_sound(1-3) [OF f] mem parents args len
    by (intro exI [of _ config] exI [of _ sol]) (auto simp: list_all2_conv_all_nth ordered_pkgs_def)
qed

section \<open>Violated USE dependencies\<close>

lemma token_kept_iff:
  assumes "ud_default ud = None \<longrightarrow> ud_flag ud \<in> iuse" "enabled \<subseteq> iuse"
  shows "token_kept (ud_op ud) (ud_flag ud \<in> parent) (ud_flag ud \<in> enabled) (ud_flag ud \<in> iuse)
      (ud_default ud = Some DefaultEnabled) (ud_default ud = Some DefaultDisabled) \<longleftrightarrow>
    (\<exists>b. asked parent ud = Some b \<and> flag_value iuse enabled ud \<noteq> Some b)"
proof (cases "ud_flag ud \<in> iuse")
  case True
  then show ?thesis by (cases "ud_op ud") (auto simp: token_kept_def asked_def flag_value_def)
next
  case False
  then obtain d where d: "ud_default ud = Some d" using assms(1) by auto
  have "ud_flag ud \<notin> enabled" using False assms(2) by auto
  then show ?thesis using False d by (cases "ud_op ud"; cases d) (auto simp: token_kept_def asked_def flag_value_def)
qed

text \<open>A dependency is left: its flag has no value, or not the one it asks for.\<close>

definition left_over :: "string set \<Rightarrow> string set \<Rightarrow> string set \<Rightarrow> use_dep \<Rightarrow> bool" where
  "left_over iuse enabled parent ud \<longleftrightarrow>
     flag_value iuse enabled ud = None \<or> (\<exists>b. asked parent ud = Some b \<and> flag_value iuse enabled ud \<noteq> Some b)"

lemma left_over_plain:
  "left_over iuse enabled parent ud \<and> ud_op ud = UseEnabled \<longleftrightarrow>
     ud_op ud = UseEnabled \<and> flag_value iuse enabled ud \<noteq> Some True"
  "left_over iuse enabled parent ud \<and> ud_op ud = UseDisabled \<longleftrightarrow>
     ud_op ud = UseDisabled \<and> flag_value iuse enabled ud \<noteq> Some False"
  by (auto simp: left_over_def asked_def)

lemma kept_cong:
  assumes "\<And>u. u \<in> set uds \<Longrightarrow> K u = L u"
  shows "(if list_ex K uds
      then Some \<lparr> vi_enabled = set (map ud_flag (filter (\<lambda>u. K u \<and> ud_op u = UseEnabled) uds)),
                  vi_disabled = set (map ud_flag (filter (\<lambda>u. K u \<and> ud_op u = UseDisabled) uds)),
                  vi_required = map ud_flag uds \<rparr>
      else None) =
    (if \<exists>u \<in> set uds. L u
     then Some \<lparr> vi_enabled = {ud_flag u | u. u \<in> set uds \<and> L u \<and> ud_op u = UseEnabled},
                vi_disabled = {ud_flag u | u. u \<in> set uds \<and> L u \<and> ud_op u = UseDisabled},
                vi_required = map ud_flag uds \<rparr>
     else None)"
  using assms by (auto simp: list_ex_iff)

lemma violated_conditionals_eq:
  assumes "consistent uds" "enabled \<subseteq> iuse"
  shows "violated_conditionals uds enabled iuse parent =
    (if \<exists>ud \<in> set uds. left_over iuse enabled parent ud
     then Some \<lparr> vi_enabled = {ud_flag ud | ud. ud \<in> set uds \<and> left_over iuse enabled parent ud \<and> ud_op ud = UseEnabled},
                vi_disabled = {ud_flag ud | ud. ud \<in> set uds \<and> left_over iuse enabled parent ud \<and> ud_op ud = UseDisabled},
                vi_required = map ud_flag uds \<rparr>
     else None)"
proof -
  let ?d = "\<lambda>d. set (map ud_flag (filter (\<lambda>u. ud_default u = Some d) uds))"
  let ?k = "\<lambda>u. if \<not> (ud_flag u \<in> iuse \<or> ud_flag u \<in> ?d DefaultEnabled \<or> ud_flag u \<in> ?d DefaultDisabled) then True
      else token_kept (ud_op u) (ud_flag u \<in> parent) (ud_flag u \<in> enabled) (ud_flag u \<in> iuse)
        (ud_flag u \<in> ?d DefaultEnabled) (ud_flag u \<in> ?d DefaultDisabled)"
  have dflt: "ud_flag u \<in> ?d d \<longleftrightarrow> ud_default u = Some d" if "u \<in> set uds" for u d
  proof -
    have "ud_flag u \<in> ?d d \<longleftrightarrow> (\<exists>x \<in> set uds. ud_default x = Some d \<and> ud_flag x = ud_flag u)"
      unfolding set_map set_filter image_iff by (rule iffI; elim bexE CollectE conjE; simp; metis)
    then show ?thesis using assms(1) that unfolding consistent_def by metis
  qed
  have none: "ud_default u = None \<or> ud_default u = Some DefaultEnabled \<or> ud_default u = Some DefaultDisabled" for u
    by (metis use_dep_default.exhaust option.exhaust)
  have k: "?k u = left_over iuse enabled parent u" if "u \<in> set uds" for u
  proof (cases "ud_default u = None \<and> ud_flag u \<notin> iuse")
    case True
    then show ?thesis unfolding dflt [OF that] by (simp add: left_over_def flag_value_def)
  next
    case False
    then show ?thesis
      unfolding dflt [OF that]
      using token_kept_iff [of u iuse enabled parent] none [of u] assms(2)
      by (auto simp: left_over_def flag_value_def)
  qed
  show ?thesis
    unfolding violated_conditionals_def Let_def by (rule kept_cong) (rule k)
qed

text \<open>
  C28: the conditionals the slot-conflict handler drops as satisfied are those whose flag has in the
  child the value they ask for: something is left exactly when the dependencies are violated for the
  matching routine or a flag has neither a declaration nor a default, and the unconditional flags left
  are those of the dependencies at fault.
\<close>

theorem solver_violated_meaning:
  assumes "parse_use_deps raw = Ok uds" "enabled \<subseteq> iuse"
  shows "(violated_conditionals uds enabled iuse parent \<noteq> None \<longleftrightarrow>
      use_deps_violated uds parent enabled iuse \<or> (\<exists>ud \<in> set uds. flag_value iuse enabled ud = None)) \<and>
    (\<forall>v. violated_conditionals uds enabled iuse parent = Some v \<longrightarrow>
      vi_enabled v = {ud_flag ud | ud. ud \<in> set uds \<and> ud_op ud = UseEnabled \<and> flag_value iuse enabled ud \<noteq> Some True} \<and>
      vi_disabled v = {ud_flag ud | ud. ud \<in> set uds \<and> ud_op ud = UseDisabled \<and> flag_value iuse enabled ud \<noteq> Some False})"
  unfolding violated_conditionals_eq [OF parse_use_deps_consistent [OF assms(1)] assms(2)]
    use_deps_violated_iff [OF parse_use_deps_consistent [OF assms(1)]] left_over_plain
  by (auto simp: left_over_def)

theorem solver_violated_meaning_witness:
  "\<exists>uds. parse_use_deps ''[a,b(-)?]'' = Ok uds \<and> violated_conditionals uds {} {''a''} {} \<noteq> None"
proof -
  let ?uds = "[\<lparr> ud_flag = ''a'', ud_op = UseEnabled, ud_default = None \<rparr>,
    \<lparr> ud_flag = ''b'', ud_op = IfParentEnabled, ud_default = Some DefaultDisabled \<rparr>]"
  have p: "parse_use_deps ''[a,b(-)?]'' = Ok ?uds" by code_simp
  have "use_deps_violated ?uds {} {} {''a''}" by code_simp
  then have "violated_conditionals ?uds {} {''a''} {} \<noteq> None"
    using conjunct1 [OF solver_violated_meaning [OF p empty_subsetI]] by blast
  then show ?thesis using p by blast
qed

section \<open>A conflict with one solution\<close>

text \<open>The package \<open>c/p-1\<close> without the flag \<open>x\<close>, and \<open>c/q-1\<close>, which depends on \<open>c/p[x]\<close>.\<close>

definition child_without_x :: handler_pkg where
  "child_without_x =
     \<lparr> hp_key = \<lparr> pk_cpv = ''c/p-1'', pk_installed = False \<rparr>, hp_match_str = ''c/p-1:0/0::r'',
       hp_iuse = {''x''}, hp_use = {}, hp_required_use = [] \<rparr>"

definition parent_of_x :: handler_pkg where
  "parent_of_x =
     \<lparr> hp_key = \<lparr> pk_cpv = ''c/q-1'', pk_installed = False \<rparr>, hp_match_str = ''c/q-1:0/0::r'',
       hp_iuse = {}, hp_use = {}, hp_required_use = [] \<rparr>"

definition conflict_over_x :: handler_conflict where
  "conflict_over_x =
     \<lparr> hc_pkgs = [child_without_x],
       hc_parents = [\<lparr> hq_kind = Package parent_of_x, hq_atom = ''c/p[x]'', hq_unevaluated = ''c/p[x]'' \<rparr>] \<rparr>"

lemma conflict_over_x_changes:
  "ss_changes (solve_slot_conflicts [conflict_over_x]) = [[\<lparr> uc_cpv = ''c/p-1'', uc_flags = [(''x'', True)] \<rparr>]]"
  by code_simp

theorem solver_minimal_changes_witness:
  "ss_solution_count (solve_slot_conflicts [conflict_over_x]) \<noteq> 0 \<and>
   incomparable (ss_changes (solve_slot_conflicts [conflict_over_x]))"
proof -
  have "[conflict_over_x] \<noteq> []" "\<forall>c \<in> set [conflict_over_x]. hc_pkgs c \<noteq> []" by (simp_all add: conflict_over_x_def)
  from solver_minimal_changes [OF this]
  obtain sols where "ss_solution_count (solve_slot_conflicts [conflict_over_x]) = length sols"
    "incomparable (ss_changes (solve_slot_conflicts [conflict_over_x]))"
    "set (ss_changes (solve_slot_conflicts [conflict_over_x])) \<subseteq> solution_change ` set sols"
    unfolding Let_def by blast
  then show ?thesis unfolding conflict_over_x_changes by auto
qed

text \<open>
  With the argument \<open>c/p[-x]\<close>, which \<open>c/p-1\<close> matches, the same change is reported, although \<open>c/p-1\<close>
  with the flag set no longer matches the argument.
\<close>

definition conflict_with_argument :: handler_conflict where
  "conflict_with_argument =
     \<lparr> hc_pkgs = [child_without_x],
       hc_parents = [\<lparr> hq_kind = Package parent_of_x, hq_atom = ''c/p[x]'', hq_unevaluated = ''c/p[x]'' \<rparr>,
         \<lparr> hq_kind = Argument, hq_atom = ''c/p[-x]'', hq_unevaluated = ''c/p[-x]'' \<rparr>] \<rparr>"

lemma argument_broken:
  "ss_changes (solve_slot_conflicts [conflict_with_argument]) = [[\<lparr> uc_cpv = ''c/p-1'', uc_flags = [(''x'', True)] \<rparr>]]"
  "atom_matches ''c/p[-x]'' child_without_x {}" "\<not> atom_matches ''c/p[-x]'' child_without_x {''x''}"
  by code_simp+

theorem solver_solutions_sound_witness:
  "\<exists>sol. solution_change sol = [\<lparr> uc_cpv = ''c/p-1'', uc_flags = [(''x'', True)] \<rparr>] \<and> definite sol"
proof -
  have "[\<lparr> uc_cpv = ''c/p-1'', uc_flags = [(''x'', True)] \<rparr>] \<in> set (ss_changes (solve_slot_conflicts [conflict_with_argument]))"
    by (simp add: argument_broken(1))
  from solver_solutions_sound [OF this] show ?thesis by metis
qed

end
