(* ===== verification/HardCycles.thy ===== *)
theory HardCycles
  imports Candidates DepTargets
begin

text \<open>
  The cycles of unbreakable dependencies in a settled graph (\<open>resolve/cycles.rs\<close>) with the lookups of
  \<open>resolve/merge_bound.rs\<close>. The pairs of a hash map are a list in the order of its iteration; the edges of a
  node are sorted before they are used.
\<close>

section \<open>Entries that are merged\<close>

type_synonym root_package = "bool \<times> string \<times> string"

definition merge_bound_cpv :: "graph_entry \<Rightarrow> string option" where
  "merge_bound_cpv e =
     map_option (\<lambda>version. e_category e @ ''/'' @ e_package e @ ''-'' @ version) (merge_bound_version (e_outcome e))"

definition merge_bound_index :: "graph_entry list \<Rightarrow> string \<times> string \<Rightarrow> nat option" where
  "merge_bound_index entries cp =
     position (\<lambda>e. merge_bound_cpv e \<noteq> None \<and> (e_category e, e_package e) = cp) entries"

definition merge_bound_root_index :: "graph_entry list \<Rightarrow> root_package \<Rightarrow> nat option" where
  "merge_bound_root_index entries key =
     position (\<lambda>e. merge_bound_cpv e \<noteq> None \<and> (e_targets_running_root e, e_category e, e_package e) = key) entries"

definition root_cp_lookup :: "graph_entry list \<Rightarrow> root_package \<Rightarrow> nat option" where
  "root_cp_lookup entries endpoint =
     (case merge_bound_root_index entries endpoint of
        Some i \<Rightarrow> Some i
      | None \<Rightarrow> merge_bound_index entries (snd endpoint))"

definition dep_child_lookup :: "graph_entry list \<Rightarrow> bool \<Rightarrow> dep_edge \<Rightarrow> nat option" where
  "dep_child_lookup entries owner_running_root dep =
     root_cp_lookup entries (dep_child_root owner_running_root (edge_key dep), edge_category dep, edge_package dep)"

section \<open>Hard edges\<close>

record cycle_graph =
  cg_vdb :: vdb_view
  cg_entries :: "graph_entry list"
  cg_kinds :: "((root_package \<times> root_package) \<times> bool \<times> bool) list"
  cg_kept :: "nat set list"

definition cycle_graph_of ::
  "vdb_view \<Rightarrow> circular_map \<Rightarrow> graph_entry list \<Rightarrow> ((root_package \<times> root_package) \<times> bool \<times> bool) list \<Rightarrow> cycle_graph" where
  "cycle_graph_of v circular entries kinds =
     \<lparr> cg_vdb = v, cg_entries = entries, cg_kinds = kinds, cg_kept = kept_alt_branches v circular entries \<rparr>"

text \<open>The dependencies of an entry without the alternatives that were not chosen.\<close>

definition kept_deps :: "cycle_graph \<Rightarrow> nat \<Rightarrow> dep_edge list" where
  "kept_deps cg i =
     map snd (filter (\<lambda>(ei, d). edge_alt d = None \<or> ei \<in> cg_kept cg ! i) (enumerate 0 (e_deps (cg_entries cg ! i))))"

definition same_package :: "dep_edge \<Rightarrow> graph_entry \<Rightarrow> bool" where
  "same_package d e \<longleftrightarrow> edge_category d = e_category e \<and> edge_package d = e_package e"

definition owner_self_loop :: "cycle_graph \<Rightarrow> nat \<Rightarrow> bool" where
  "owner_self_loop cg oi =
     (let e = cg_entries cg ! oi
      in case merge_bound_cpv e of
           None \<Rightarrow> False
         | Some owner_cpv \<Rightarrow>
             vdb_versions (cg_vdb cg) (e_category e) (e_package e) = [] \<and>
             list_ex (\<lambda>d. same_package d e \<and> \<not> optional (edge_priority d) \<and> matches_some (edge_atom d) [owner_cpv])
               (kept_deps cg oi))"

definition slot_op_edge :: "dep_edge \<Rightarrow> bool" where
  "slot_op_edge d \<longleftrightarrow>
     (buildtime_slot_op (edge_priority d) \<or> runtime_slot_op (edge_priority d)) \<and> \<not> optional (edge_priority d)"

definition unsatisfied_edge :: "cycle_graph \<Rightarrow> dep_edge \<Rightarrow> nat \<Rightarrow> bool" where
  "unsatisfied_edge cg d di = (\<not> dep_edge_satisfied_by_installed (cg_vdb cg) d (Some (cg_entries cg ! di)))"

definition slot_op_hard :: "cycle_graph \<Rightarrow> nat \<Rightarrow> nat \<Rightarrow> bool" where
  "slot_op_hard cg oi di =
     list_ex (\<lambda>d. same_package d (cg_entries cg ! di) \<and> slot_op_edge d \<and> unsatisfied_edge cg d di) (kept_deps cg oi)"

text \<open>The edges that the map records, with the self-loops that reach the owner's own instance.\<close>

definition recorded_edges :: "cycle_graph \<Rightarrow> (nat \<times> nat) list" where
  "recorded_edges cg =
     List.map_filter (\<lambda>((dep_cp, owner_cp), (has_hard, has_soft)).
         case (root_cp_lookup (cg_entries cg) owner_cp, root_cp_lookup (cg_entries cg) dep_cp) of
           (Some oi, Some di) \<Rightarrow>
             let hard = (has_hard \<and> \<not> has_soft \<or> slot_op_hard cg oi di)
             in if hard \<and> (oi = di \<longrightarrow> owner_self_loop cg oi) then Some (oi, di) else None
         | _ \<Rightarrow> None)
       (cg_kinds cg)"

text \<open>The slot-operator edges of the first entry of a package, recorded or not.\<close>

definition add_slot_op :: "cycle_graph \<Rightarrow> nat \<Rightarrow> dep_edge \<Rightarrow> nat list \<Rightarrow> nat list" where
  "add_slot_op cg oi d children =
     (if \<not> slot_op_edge d then children
      else case dep_child_lookup (cg_entries cg) (e_targets_running_root (cg_entries cg ! oi)) d of
             None \<Rightarrow> children
           | Some di \<Rightarrow>
               if di = oi \<and> \<not> owner_self_loop cg oi then children
               else if unsatisfied_edge cg d di \<and> di \<notin> set children then children @ [di]
               else children)"

definition first_of_package :: "cycle_graph \<Rightarrow> nat \<Rightarrow> bool" where
  "first_of_package cg oi =
     (let e = cg_entries cg ! oi in merge_bound_index (cg_entries cg) (e_category e, e_package e) = Some oi)"

definition hard_children :: "cycle_graph \<Rightarrow> nat \<Rightarrow> nat list" where
  "hard_children cg oi =
     (let recorded = map snd (filter (\<lambda>(o', _). o' = oi) (recorded_edges cg))
      in if first_of_package cg oi then fold (add_slot_op cg oi) (kept_deps cg oi) recorded else recorded)"

section \<open>The order of insertion\<close>

fun fresh :: "nat set \<Rightarrow> nat list \<Rightarrow> nat list" where
  "fresh seen [] = []"
| "fresh seen (x # xs) = (if x \<in> seen then fresh seen xs else x # fresh (insert x seen) xs)"

lemma set_fresh: "set (fresh seen xs) = set xs - seen"
  by (induction seen xs rule: fresh.induct) auto

lemma distinct_fresh: "distinct (fresh seen xs)"
  by (induction seen xs rule: fresh.induct) (auto simp: set_fresh)

definition dep_targets_of :: "cycle_graph \<Rightarrow> nat \<Rightarrow> nat list" where
  "dep_targets_of cg u =
     List.map_filter (dep_child_lookup (cg_entries cg) (e_targets_running_root (cg_entries cg ! u))) (kept_deps cg u)"

definition target_instances :: "cycle_graph \<Rightarrow> string \<times> string \<Rightarrow> nat list" where
  "target_instances cg cp =
     (let roots = fresh {} (List.map_filter (\<lambda>running. merge_bound_root_index (cg_entries cg) (running, cp)) [False, True])
      in if roots \<noteq> [] then roots
         else (case merge_bound_index (cg_entries cg) cp of Some i \<Rightarrow> [i] | None \<Rightarrow> []))"

definition walk_seeds :: "cycle_graph \<Rightarrow> string list \<Rightarrow> bool \<Rightarrow> nat list" where
  "walk_seeds cg top_level_atoms onlydeps =
     fresh {} (concat (map (\<lambda>s.
         case parse_dep_atom s of
           None \<Rightarrow> []
         | Some a \<Rightarrow>
             concat (map (\<lambda>i. (if onlydeps then dep_targets_of cg i else []) @ [i])
               (target_instances cg (a_category a, a_package a))))
       top_level_atoms))"

lemma position_less: "position P xs = Some i \<Longrightarrow> i < length xs \<and> P (xs ! i)"
  by (induction xs arbitrary: i) (auto split: if_splits)

lemma index_merge_bound:
  "merge_bound_index entries cp = Some i \<Longrightarrow> i < length entries \<and> merge_bound_cpv (entries ! i) \<noteq> None"
  by (auto simp: merge_bound_index_def dest!: position_less)

lemma lookup_merge_bound:
  "root_cp_lookup entries k = Some i \<Longrightarrow> i < length entries \<and> merge_bound_cpv (entries ! i) \<noteq> None"
  by (auto simp: root_cp_lookup_def merge_bound_root_index_def merge_bound_index_def
      dest!: position_less split: option.splits)

lemma dep_targets_less: "i \<in> set (dep_targets_of cg u) \<Longrightarrow> i < length (cg_entries cg)"
  by (auto simp: dep_targets_of_def List.map_filter_def dep_child_lookup_def dest: lookup_merge_bound)

text \<open>A walk from one node: the stack holds its next nodes, the first child on top.\<close>

function dfs_order :: "cycle_graph \<Rightarrow> nat set \<Rightarrow> nat list \<Rightarrow> nat list \<Rightarrow> nat set \<times> nat list" where
  "dfs_order cg seen order [] = (seen, order)"
| "dfs_order cg seen order (u # stack) =
     (let kids = fresh seen (dep_targets_of cg u)
      in dfs_order cg (seen \<union> set kids) (order @ [u]) (kids @ stack))"
  by pat_completeness auto

termination
proof (relation "measure (\<lambda>(cg, seen, order, stack). 2 * card ({..<length (cg_entries cg)} - seen) + length stack)")
  fix cg seen order u and stack kids :: "nat list"
  assume k: "kids = fresh seen (dep_targets_of cg u)"
  let ?n = "{..<length (cg_entries cg)}"
  have sub: "set kids \<subseteq> ?n - seen" using dep_targets_less by (auto simp: k set_fresh)
  have "?n - (seen \<union> set kids) = (?n - seen) - set kids" by auto
  then have "card (?n - (seen \<union> set kids)) = card (?n - seen) - card (set kids)"
    using card_Diff_subset [OF finite_set sub] by simp
  moreover have "card (set kids) \<le> card (?n - seen)" using sub by (intro card_mono) auto
  moreover have "card (set kids) = length kids" using distinct_fresh by (simp add: k distinct_card)
  ultimately have "2 * card (?n - (seen \<union> set kids)) + length (kids @ stack) \<le> 2 * card (?n - seen) + length stack"
    by simp
  then show "((cg, seen \<union> set kids, order @ [u], kids @ stack), cg, seen, order, u # stack)
    \<in> measure (\<lambda>(cg, seen, order, stack). 2 * card ({..<length (cg_entries cg)} - seen) + length stack)"
    by simp
qed simp

definition insertion_order :: "cycle_graph \<Rightarrow> string list \<Rightarrow> bool \<Rightarrow> nat list" where
  "insertion_order cg top_level_atoms onlydeps =
     (let by_discovery = sort_by (\<lambda>i j. then_with
              (cmp_lin (e_discovery (cg_entries cg ! i)) (e_discovery (cg_entries cg ! j))) (cmp_lin i j))
            [0..<length (cg_entries cg)]
      in snd (fold (\<lambda>seed (seen, order).
            if seed \<in> seen then (seen, order) else dfs_order cg (insert seed seen) order [seed])
          (walk_seeds cg top_level_atoms onlydeps @ by_discovery) ({}, [])))"

text \<open>\<open>usize::MAX\<close> stands for a node without a position.\<close>

definition order_cmp :: "nat list \<Rightarrow> nat \<Rightarrow> nat \<Rightarrow> ordering" where
  "order_cmp order i j =
     (let pos = (\<lambda>k. case position (\<lambda>x. x = k) order of Some p \<Rightarrow> p | None \<Rightarrow> 2 ^ 64 - 1)
      in then_with (cmp_lin (pos i) (pos j)) (cmp_lin i j))"

definition hard_adjacency :: "cycle_graph \<Rightarrow> nat list \<Rightarrow> nat list list" where
  "hard_adjacency cg order =
     map (\<lambda>oi. remdups_adj (sort_by (order_cmp order) (hard_children cg oi))) [0..<length (cg_entries cg)]"

section \<open>Shortest paths\<close>

definition nbrs :: "nat list list \<Rightarrow> nat \<Rightarrow> nat list" where
  "nbrs adj u = (if u < length adj then adj ! u else [])"

type_synonym bfs_state = "nat set \<times> (nat \<Rightarrow> nat option) \<times> nat list"

text \<open>The neighbours of a node: \<open>Inl\<close> when the target is among them.\<close>

fun scan_nbrs :: "nat \<Rightarrow> nat \<Rightarrow> nat list \<Rightarrow> bfs_state \<Rightarrow> nat \<times> (nat \<Rightarrow> nat option) + bfs_state" where
  "scan_nbrs to u [] st = Inr st"
| "scan_nbrs to u (w # ws) (seen, prev, next) =
     (if w = to then Inl (u, prev)
      else if w \<in> seen then scan_nbrs to u ws (seen, prev, next)
      else scan_nbrs to u ws (insert w seen, prev(w \<mapsto> u), next @ [w]))"

fun scan_level :: "nat list list \<Rightarrow> nat \<Rightarrow> nat list \<Rightarrow> bfs_state \<Rightarrow> nat \<times> (nat \<Rightarrow> nat option) + bfs_state" where
  "scan_level adj to [] st = Inr st"
| "scan_level adj to (u # us) st =
     (case scan_nbrs to u (nbrs adj u) st of Inl r \<Rightarrow> Inl r | Inr st' \<Rightarrow> scan_level adj to us st')"

lemma nbrs_concat: "w \<in> set (nbrs adj u) \<Longrightarrow> w \<in> set (concat adj)"
  by (auto simp: nbrs_def split: if_splits)

text \<open>What a scan leaves behind: the new nodes are the unseen neighbours.\<close>

lemma scan_nbrs_Inr:
  "scan_nbrs to u ws (seen, prev, next) = Inr (seen', prev', next') \<Longrightarrow>
     to \<notin> set ws \<and> seen' = seen \<union> set ws \<and> set next' = set next \<union> (set ws - seen) \<and>
     prev' = (\<lambda>w. if w \<in> set ws - seen then Some u else prev w)"
proof (induction ws arbitrary: seen prev "next")
  case (Cons w ws)
  then have w: "w \<noteq> to" by auto
  show ?case
  proof (cases "w \<in> seen")
    case True
    then show ?thesis using Cons.IH [of seen prev "next"] Cons.prems w by (auto simp: fun_eq_iff)
  next
    case False
    with Cons.prems w have "scan_nbrs to u ws (insert w seen, prev(w \<mapsto> u), next @ [w]) = Inr (seen', prev', next')"
      by simp
    note i = Cons.IH [OF this]
    have "prev' = (\<lambda>x. if x \<in> set (w # ws) - seen then Some u else prev x)"
      using i False by (auto simp: fun_eq_iff)
    then show ?thesis using i w False by auto
  qed
qed auto

lemma scan_nbrs_Inl:
  "scan_nbrs to u ws (seen, prev, next) = Inl (x, prev') \<Longrightarrow>
     x = u \<and> to \<in> set ws \<and> (\<forall>w \<in> seen. prev' w = prev w)"
proof (induction ws arbitrary: seen prev "next")
  case (Cons w ws)
  consider "w = to" | "w \<noteq> to" "w \<in> seen" | "w \<noteq> to" "w \<notin> seen" by blast
  then show ?case
  proof cases
    case 1
    then show ?thesis using Cons.prems by simp
  next
    case 2
    then show ?thesis using Cons.IH [of seen prev "next"] Cons.prems by simp
  next
    case 3
    with Cons.prems have "scan_nbrs to u ws (insert w seen, prev(w \<mapsto> u), next @ [w]) = Inl (x, prev')" by simp
    from Cons.IH [OF this] show ?thesis using 3 by auto
  qed
qed simp

definition edges_from :: "nat list list \<Rightarrow> nat set \<Rightarrow> nat set" where
  "edges_from adj U = (\<Union>u \<in> U. set (nbrs adj u))"

lemma scan_level_Inr:
  "scan_level adj to us (seen, prev, next) = Inr (seen', prev', next') \<Longrightarrow>
     to \<notin> edges_from adj (set us) \<and> seen' = seen \<union> edges_from adj (set us) \<and>
     set next' = set next \<union> (edges_from adj (set us) - seen) \<and>
     (\<forall>w \<in> seen. prev' w = prev w) \<and>
     (\<forall>w \<in> edges_from adj (set us) - seen. \<exists>u \<in> set us. prev' w = Some u \<and> w \<in> set (nbrs adj u))"
proof (induction us arbitrary: seen prev "next")
  case (Cons u us)
  then obtain s p n where m: "scan_nbrs to u (nbrs adj u) (seen, prev, next) = Inr (s, p, n)"
    "scan_level adj to us (s, p, n) = Inr (seen', prev', next')"
    by (auto split: sum.splits)
  note a = scan_nbrs_Inr [OF m(1)] and b = Cons.IH [OF m(2)]
  have e: "edges_from adj (set (u # us)) = set (nbrs adj u) \<union> edges_from adj (set us)"
    by (auto simp: edges_from_def)
  have "\<exists>v \<in> set (u # us). prev' w = Some v \<and> w \<in> set (nbrs adj v)" if "w \<in> edges_from adj (set (u # us)) - seen" for w
  proof (cases "w \<in> set (nbrs adj u)")
    case True
    then have "prev' w = Some u" using a b that by auto
    then show ?thesis using True by auto
  next
    case False
    then have "w \<in> edges_from adj (set us) - s" using a that [unfolded e] by auto
    then show ?thesis using b by auto
  qed
  then show ?case unfolding e using a b by auto
qed (auto simp: edges_from_def)

lemma scan_level_Inl:
  "scan_level adj to us (seen, prev, next) = Inl (x, prev') \<Longrightarrow>
     x \<in> set us \<and> to \<in> set (nbrs adj x) \<and> (\<forall>w \<in> seen. prev' w = prev w)"
proof (induction us arbitrary: seen prev "next")
  case (Cons u us)
  show ?case
  proof (cases "scan_nbrs to u (nbrs adj u) (seen, prev, next)")
    case (Inl r)
    then show ?thesis using Cons.prems scan_nbrs_Inl [of to u "nbrs adj u" seen prev "next" x prev'] by auto
  next
    case (Inr st)
    obtain s p n where st: "st = (s, p, n)" by (cases st)
    then have "scan_level adj to us (s, p, n) = Inl (x, prev')" using Cons.prems Inr by simp
    then show ?thesis using Cons.IH [of s p n] scan_nbrs_Inr [OF Inr [unfolded st]] by auto
  qed
qed simp

text \<open>The search, level by level: the node next to the target and the predecessors.\<close>

function bfs :: "nat list list \<Rightarrow> nat \<Rightarrow> nat list \<Rightarrow> nat set \<Rightarrow> (nat \<Rightarrow> nat option) \<Rightarrow> (nat \<times> (nat \<Rightarrow> nat option)) option" where
  "bfs adj to frontier seen prev =
     (if frontier = [] then None
      else case scan_level adj to frontier (seen, prev, []) of
             Inl r \<Rightarrow> Some r
           | Inr (seen', prev', next) \<Rightarrow> bfs adj to next seen' prev')"
  by auto

termination
proof (relation "measures [\<lambda>(adj, to, frontier, seen, prev). card (set (concat adj) - seen),
    \<lambda>(adj, to, frontier, seen, prev). if frontier = [] then 0 else 1]")
  fix adj to and frontier "next" :: "nat list" and seen seen' :: "nat set" and prev prev' y st rest
  assume f: "frontier \<noteq> []" and "scan_level adj to frontier (seen, prev, []) = Inr st" "(seen', rest) = st" "(prev', next) = rest"
  then have r: "scan_level adj to frontier (seen, prev, []) = Inr (seen', prev', next)" by simp
  note s = scan_level_Inr [OF r]
  have sub: "edges_from adj (set frontier) \<subseteq> set (concat adj)" using nbrs_concat by (auto simp: edges_from_def)
  show "((adj, to, next, seen', prev'), adj, to, frontier, seen, prev) \<in> measures [\<lambda>(adj, to, frontier, seen, prev). card (set (concat adj) - seen),
    \<lambda>(adj, to, frontier, seen, prev). if frontier = [] then 0 else 1]"
  proof (cases "next = []")
    case True
    then have "card (set (concat adj) - seen') \<le> card (set (concat adj) - seen)"
      using s by (intro card_mono) auto
    then show ?thesis using True f by auto
  next
    case False
    then obtain w where "w \<in> set next" by (cases "next") auto
    then have w: "w \<in> edges_from adj (set frontier)" "w \<notin> seen" using s by auto
    have "set (concat adj) - seen' \<subset> set (concat adj) - seen"
      using s w sub by blast
    then have "card (set (concat adj) - seen') < card (set (concat adj) - seen)" by (intro psubset_card_mono) auto
    then show ?thesis by auto
  qed
qed simp

declare bfs.simps [simp del]

text \<open>The way back: \<open>fuel\<close> bounds the steps, a missing predecessor is a panic.\<close>

fun trace_back :: "nat \<Rightarrow> (nat \<Rightarrow> nat option) \<Rightarrow> nat \<Rightarrow> nat \<Rightarrow> nat list \<Rightarrow> nat list run" where
  "trace_back fuel prev from cur path =
     (if cur = from then Return path
      else case (fuel, prev cur) of
             (Suc f, Some p) \<Rightarrow> trace_back f prev from p (p # path)
           | _ \<Rightarrow> Panic)"

declare trace_back.simps [simp del]

definition shortest_to :: "nat list list \<Rightarrow> nat \<Rightarrow> nat \<Rightarrow> nat list option run" where
  "shortest_to adj from to =
     (if from = to then Return (Some [from])
      else case bfs adj to [from] {from} (\<lambda>_. None) of
             None \<Rightarrow> Return None
           | Some (u, prev) \<Rightarrow> run_bind (trace_back (length adj) prev from u [u]) (\<lambda>path. Return (Some (path @ [to]))))"

definition shorter :: "nat list option \<Rightarrow> nat list option \<Rightarrow> nat list option" where
  "shorter best new =
     (case new of
        None \<Rightarrow> best
      | Some path \<Rightarrow> (case best of Some b \<Rightarrow> if length path < length b then new else best | None \<Rightarrow> new))"

fun fold_run :: "('a \<Rightarrow> 'b \<Rightarrow> 'b run) \<Rightarrow> 'a list \<Rightarrow> 'b \<Rightarrow> 'b run" where
  "fold_run f [] st = Return st"
| "fold_run f (x # xs) st = run_bind (f x st) (fold_run f xs)"

definition node_cycle :: "nat list list \<Rightarrow> nat \<Rightarrow> nat list option run" where
  "node_cycle adj start =
     fold_run (\<lambda>child best. run_bind (shortest_to adj child start) (\<lambda>path. Return (shorter best path))) (nbrs adj start) None"

definition shortest_cycle :: "nat list list \<Rightarrow> nat list \<Rightarrow> nat list option run" where
  "shortest_cycle adj by_insertion =
     fold_run (\<lambda>start best.
        if nbrs adj start = [] then Return best
        else run_bind (node_cycle adj start) (\<lambda>c. Return (shorter best c))) by_insertion None"

text \<open>\<open>expect("merge-bound")\<close>\<close>

fun cycle_cpvs :: "graph_entry list \<Rightarrow> nat list \<Rightarrow> string list run" where
  "cycle_cpvs entries [] = Return []"
| "cycle_cpvs entries (i # is) =
     (case merge_bound_cpv (entries ! i) of
        None \<Rightarrow> Panic
      | Some cpv \<Rightarrow> run_bind (cycle_cpvs entries is) (\<lambda>cpvs. Return (cpv # cpvs)))"

definition find_hard_cycles :: "cycle_graph \<Rightarrow> string list \<Rightarrow> bool \<Rightarrow> string list list run" where
  "find_hard_cycles cg top_level_atoms onlydeps =
     (let order = insertion_order cg top_level_atoms onlydeps;
          by_insertion = sort_by (order_cmp order) [0..<length (cg_entries cg)]
      in run_bind (shortest_cycle (hard_adjacency cg order) by_insertion) (\<lambda>best.
           case best of
             None \<Rightarrow> Return []
           | Some cycle \<Rightarrow> run_bind (cycle_cpvs (cg_entries cg) cycle) (\<lambda>cpvs. Return [cpvs])))"

section \<open>Restart cycles\<close>

definition add_trigger :: "nat \<times> nat \<times> bool \<Rightarrow> (nat \<times> bool) list list \<Rightarrow> (nat \<times> bool) list list" where
  "add_trigger e adj =
     (case e of (oi, di, hard) \<Rightarrow>
        if oi = di then adj
        else case position (\<lambda>(t, _). t = di) (adj ! oi) of
               Some k \<Rightarrow> adj[oi := (adj ! oi)[k := (di, snd (adj ! oi ! k) \<or> hard)]]
             | None \<Rightarrow> adj[oi := adj ! oi @ [(di, hard)]])"

definition recorded_triggers :: "cycle_graph \<Rightarrow> (nat \<times> nat \<times> bool) list" where
  "recorded_triggers cg =
     List.map_filter (\<lambda>((dep_cp, owner_cp), (has_hard, _)).
         if \<not> has_hard then None
         else case (root_cp_lookup (cg_entries cg) owner_cp, root_cp_lookup (cg_entries cg) dep_cp) of
                (Some oi, Some di) \<Rightarrow> Some (oi, di, True)
              | _ \<Rightarrow> None)
       (cg_kinds cg)"

definition dep_trigger :: "cycle_graph \<Rightarrow> nat \<Rightarrow> dep_edge \<Rightarrow> (nat \<times> nat \<times> bool) option" where
  "dep_trigger cg oi d =
     (let p = edge_priority d
      in if optional p \<or> \<not> (buildtime p \<or> runtime p) then None
         else case dep_child_lookup (cg_entries cg) (e_targets_running_root (cg_entries cg ! oi)) d of
                None \<Rightarrow> None
              | Some di \<Rightarrow> if unsatisfied_edge cg d di then Some (oi, di, buildtime p) else None)"

definition dep_triggers :: "cycle_graph \<Rightarrow> (nat \<times> nat \<times> bool) list" where
  "dep_triggers cg =
     concat (map (\<lambda>oi. if merge_bound_cpv (cg_entries cg ! oi) = None then []
                       else List.map_filter (dep_trigger cg oi) (kept_deps cg oi))
       [0..<length (cg_entries cg)])"

definition cmp_pair :: "nat \<times> bool \<Rightarrow> nat \<times> bool \<Rightarrow> ordering" where
  "cmp_pair a b = then_with (cmp_lin (fst a) (fst b)) (cmp_lin (snd a) (snd b))"

definition trigger_adjacency :: "cycle_graph \<Rightarrow> (nat \<times> bool) list list" where
  "trigger_adjacency cg =
     map (sort_by cmp_pair)
       (fold add_trigger (recorded_triggers cg @ dep_triggers cg) (replicate (length (cg_entries cg)) []))"

definition restart_cycle :: "nat list list \<Rightarrow> nat \<Rightarrow> nat \<Rightarrow> nat list option run" where
  "restart_cycle adj u v =
     (case bfs adj u [v] {v} (\<lambda>_. None) of
        None \<Rightarrow> Return None
      | Some (x, prev) \<Rightarrow> run_bind (trace_back (length adj) prev v x [x]) (\<lambda>path. Return (Some (u # path))))"

definition find_restart_cycles :: "cycle_graph \<Rightarrow> nat list list run" where
  "find_restart_cycles cg =
     (let adj = trigger_adjacency cg; targets = map (map fst) adj
      in fold_run (\<lambda>(u, v) cycles. run_bind (restart_cycle targets u v) (\<lambda>c.
            Return (case c of None \<Rightarrow> cycles | Some cyc \<Rightarrow> cycles @ [cyc])))
           (concat (map (\<lambda>u. map (\<lambda>(v, _). (u, v)) (filter snd (adj ! u))) [0..<length adj])) [])"

section \<open>A self-loop through a chosen alternative\<close>

definition cycle_restartable :: "cycle_graph \<Rightarrow> string list \<Rightarrow> bool" where
  "cycle_restartable cg cycle =
     (case cycle of
        [node_cpv] \<Rightarrow>
          (case split_cpv node_cpv of
             None \<Rightarrow> False
           | Some (cat, pkg, _) \<Rightarrow>
               vdb_versions (cg_vdb cg) cat pkg = [] \<and>
               (case position (\<lambda>e. e_category e = cat \<and> e_package e = pkg \<and> merge_bound_cpv e = Some node_cpv)
                       (cg_entries cg) of
                  None \<Rightarrow> False
                | Some oi \<Rightarrow>
                    list_ex (\<lambda>(ei, d). edge_alt d \<noteq> None \<and> ei \<in> cg_kept cg ! oi \<and> edge_category d = cat \<and>
                        edge_package d = pkg \<and> \<not> optional (edge_priority d) \<and> matches_some (edge_atom d) [node_cpv])
                      (enumerate 0 (e_deps (cg_entries cg ! oi)))))
      | _ \<Rightarrow> False)"

section \<open>Virtuals that need themselves\<close>

definition merged_virtual :: "graph_entry \<Rightarrow> bool" where
  "merged_virtual e \<longleftrightarrow> e_category e = ''virtual'' \<and> merge_bound_cpv e \<noteq> None"

definition virtual_kept :: "vdb_view \<Rightarrow> graph_entry list \<Rightarrow> nat set list" where
  "virtual_kept v entries =
     (if list_ex (\<lambda>e. merged_virtual e \<and> list_ex (\<lambda>d. edge_alt d \<noteq> None) (e_deps e)) entries
      then kept_alt_branches v (\<lambda>_. None) entries
      else map (\<lambda>_. {}) entries)"

definition virtual_succ :: "cycle_graph \<Rightarrow> nat \<Rightarrow> nat list" where
  "virtual_succ cg i =
     remdups_adj (sort (filter (\<lambda>t. e_category (cg_entries cg ! t) = ''virtual'')
       (List.map_filter (\<lambda>d. merge_bound_index (cg_entries cg) (edge_category d, edge_package d))
          (filter (\<lambda>d. edge_key d = 0 \<and> edge_category d = ''virtual'') (kept_deps cg i)))))"

lemma virtual_succ_ok:
  assumes "t \<in> set (virtual_succ cg i)"
  shows "t < length (cg_entries cg)" "merge_bound_cpv (cg_entries cg ! t) \<noteq> None"
  using assms by (auto simp: virtual_succ_def List.map_filter_def dest: index_merge_bound)

definition visit_rank :: "cycle_graph \<Rightarrow> nat list \<Rightarrow> nat list \<Rightarrow> nat" where
  "visit_rank cg ts stack = card ((set ts \<union> {..<length (cg_entries cg)}) - set stack)"

lemma visit_rank_Cons: "visit_rank cg ts stack \<le> visit_rank cg (t # ts) stack"
  unfolding visit_rank_def by (intro card_mono) auto

lemma visit_rank_succ:
  assumes "t \<notin> set stack"
  shows "visit_rank cg (virtual_succ cg t) (stack @ [t]) < visit_rank cg (t # ts) stack"
proof -
  have sub: "set (virtual_succ cg t) \<subseteq> {..<length (cg_entries cg)}" using virtual_succ_ok(1) by auto
  show ?thesis unfolding visit_rank_def using assms sub by (intro psubset_card_mono) auto
qed

text \<open>The members of the stack at the first node that is on it already, and the nodes that are done.\<close>

function visit :: "cycle_graph \<Rightarrow> nat \<Rightarrow> nat list \<Rightarrow> nat list \<Rightarrow> nat set \<Rightarrow> nat list option \<times> nat set" where
  "visit cg i [] stack done = (None, insert i done)"
| "visit cg i (t # ts) stack done =
     (if t \<in> set stack then (Some stack, done)
      else if t \<in> done then visit cg i ts stack done
      else case visit cg t (virtual_succ cg t) (stack @ [t]) done of
             (Some members, done') \<Rightarrow> (Some members, done')
           | (None, done') \<Rightarrow> visit cg i ts stack done')"
  by pat_completeness auto

termination
  using visit_rank_Cons visit_rank_succ
  by (relation "measures [\<lambda>(cg, i, ts, stack, d). visit_rank cg ts stack, \<lambda>(cg, i, ts, stack, d). length ts]")
    (auto simp: le_less)

definition virtual_member :: "graph_entry \<Rightarrow> (string \<times> string \<times> string \<times> string) run" where
  "virtual_member e =
     (case merge_bound_version (e_outcome e) of
        None \<Rightarrow> Panic
      | Some v \<Rightarrow> Return (e_category e, e_package e, v, case e_repo_name e of Some r \<Rightarrow> r | None \<Rightarrow> ''unknown''))"

definition cmp_virtual ::
  "string \<times> string \<times> string \<times> string \<Rightarrow> string \<times> string \<times> string \<times> string \<Rightarrow> ordering" where
  "cmp_virtual a b =
     (case a of (c, p, v, r) \<Rightarrow> case b of (c', p', v', r') \<Rightarrow>
        then_with (then_with (then_with (cmp_str c c') (cmp_str p p')) (vercmp_ordering v v')) (cmp_str r r'))"

definition virtual_rows :: "graph_entry list \<Rightarrow> nat list \<Rightarrow> string list run" where
  "virtual_rows entries members =
     run_bind (fold_run (\<lambda>i rows. run_bind (virtual_member (entries ! i)) (\<lambda>r. Return (rows @ [r]))) members [])
       (\<lambda>rows. Return (map (\<lambda>(c, p, v, r). c @ ''/'' @ p @ ''-'' @ v @ ''::'' @ r) (sort_by cmp_virtual rows)))"

fun virtual_cycle_from :: "cycle_graph \<Rightarrow> nat list \<Rightarrow> string list run" where
  "virtual_cycle_from cg [] = Return []"
| "virtual_cycle_from cg (start # starts) =
     (case visit cg start (virtual_succ cg start) [start] {} of
        (Some members, _) \<Rightarrow> virtual_rows (cg_entries cg) members
      | (None, _) \<Rightarrow> virtual_cycle_from cg starts)"

definition find_virtual_cycles :: "vdb_view \<Rightarrow> graph_entry list \<Rightarrow> string list run" where
  "find_virtual_cycles v entries =
     (if \<not> list_ex merged_virtual entries then Return []
      else
        let cg = \<lparr> cg_vdb = v, cg_entries = entries, cg_kinds = [], cg_kept = virtual_kept v entries \<rparr>
        in virtual_cycle_from cg (filter (\<lambda>i. merged_virtual (entries ! i)) [0..<length entries]))"

section \<open>The labels of a cycle\<close>

definition dep_priority_rank :: "dep_priority \<Rightarrow> int" where
  "dep_priority_rank p =
     (if optional p then -5
      else if buildtime_slot_op p then 0
      else if buildtime p then -1
      else if runtime_slot_op p then -2
      else if runtime p then -3
      else if runtime_post p then -4
      else -6)"

definition edge_label :: "graph_entry list \<Rightarrow> string \<Rightarrow> string \<Rightarrow> string" where
  "edge_label entries owner_cpv dep_cpv =
     (let owned = (case find (\<lambda>e. merge_bound_cpv e = Some owner_cpv) entries of Some e \<Rightarrow> e_deps e | None \<Rightarrow> []);
          priorities = (case split_cpv dep_cpv of
                          None \<Rightarrow> []
                        | Some (cat, pkg, _) \<Rightarrow>
                            map edge_priority (filter (\<lambda>d. edge_category d = cat \<and> edge_package d = pkg) owned))
      in case max_by_key dep_priority_rank priorities of
           Some p \<Rightarrow> dep_priority_str p
         | None \<Rightarrow> ''buildtime'')"

definition cycle_edge_labels :: "graph_entry list \<Rightarrow> string list \<Rightarrow> string list" where
  "cycle_edge_labels entries cycle =
     map (\<lambda>i. edge_label entries (cycle ! i) (cycle ! ((i + 1) mod length cycle))) [0..<length cycle]"

end
