(* ===== verification/HardCyclesOk.thy ===== *)
theory HardCyclesOk
  imports HardCycles
begin

text \<open>
  The searches of \<open>cycles.rs\<close> are exact: the reported cycle is a shortest one, there is none exactly when the
  edges have no cycle, and the restart search finds one cycle for every hard edge that lies on one.
\<close>

section \<open>Distances\<close>

definition steps :: "nat list list \<Rightarrow> (nat \<times> nat) set" where
  "steps adj = {(u, w). w \<in> set (nbrs adj u)}"

definition dist :: "nat list list \<Rightarrow> nat \<Rightarrow> nat \<Rightarrow> nat" where
  "dist adj a b = (LEAST k. (a, b) \<in> steps adj ^^ k)"

lemma dist_step:
  assumes "(a, u) \<in> (steps adj)\<^sup>*" "w \<in> set (nbrs adj u)"
  shows "(a, w) \<in> (steps adj)\<^sup>*" "dist adj a w \<le> Suc (dist adj a u)"
proof -
  from assms(1) obtain k where "(a, u) \<in> steps adj ^^ k" by (auto simp: rtrancl_power)
  then have "(a, u) \<in> steps adj ^^ dist adj a u" unfolding dist_def by (rule LeastI)
  then have "(a, w) \<in> steps adj ^^ Suc (dist adj a u)" using assms(2) by (auto simp: steps_def)
  then show "(a, w) \<in> (steps adj)\<^sup>*" "dist adj a w \<le> Suc (dist adj a u)"
    unfolding dist_def [of adj a w] by (rule relpow_imp_rtrancl, rule Least_le)
qed

lemma dist_pred:
  assumes "(a, w) \<in> (steps adj)\<^sup>*" "w \<noteq> a"
  obtains u where "(a, u) \<in> (steps adj)\<^sup>*" "w \<in> set (nbrs adj u)" "dist adj a w = Suc (dist adj a u)"
proof -
  obtain k where "(a, w) \<in> steps adj ^^ k" using assms(1) by (auto simp: rtrancl_power)
  then have d: "(a, w) \<in> steps adj ^^ dist adj a w" unfolding dist_def by (rule LeastI)
  then obtain j where j: "dist adj a w = Suc j" using assms(2) by (cases "dist adj a w") auto
  then obtain u where u: "(a, u) \<in> steps adj ^^ j" "w \<in> set (nbrs adj u)" using d by (auto simp: steps_def)
  have r: "(a, u) \<in> (steps adj)\<^sup>*" using u(1) by (rule relpow_imp_rtrancl)
  have "dist adj a u \<le> j" using u(1) by (auto simp: dist_def intro: Least_le)
  then have "dist adj a w = Suc (dist adj a u)" using dist_step(2) [OF r u(2)] j by simp
  then show thesis using that r u(2) by blast
qed

lemma dist_self [simp]: "dist adj a a = 0"
  by (simp add: dist_def Least_eq_0)

definition ball :: "nat list list \<Rightarrow> nat \<Rightarrow> nat \<Rightarrow> nat set" where
  "ball adj a k = {v. (a, v) \<in> (steps adj)\<^sup>* \<and> dist adj a v \<le> k}"

definition sphere :: "nat list list \<Rightarrow> nat \<Rightarrow> nat \<Rightarrow> nat set" where
  "sphere adj a k = {v. (a, v) \<in> (steps adj)\<^sup>* \<and> dist adj a v = k}"

lemma next_ball: "ball adj a k \<union> edges_from adj (sphere adj a k) = ball adj a (Suc k)"
proof (intro equalityI subsetI)
  fix w assume "w \<in> ball adj a k \<union> edges_from adj (sphere adj a k)"
  then show "w \<in> ball adj a (Suc k)"
    using dist_step [of a _ adj w] by (auto simp: ball_def sphere_def edges_from_def)
next
  fix w assume w: "w \<in> ball adj a (Suc k)"
  show "w \<in> ball adj a k \<union> edges_from adj (sphere adj a k)"
  proof (cases "dist adj a w \<le> k")
    case False
    then have "w \<noteq> a" by auto
    then obtain u where "(a, u) \<in> (steps adj)\<^sup>*" "w \<in> set (nbrs adj u)" "dist adj a w = Suc (dist adj a u)"
      using dist_pred [of a w adj] w unfolding ball_def mem_Collect_eq by metis
    then show ?thesis using False w by (auto simp: ball_def sphere_def edges_from_def)
  qed (use w in \<open>auto simp: ball_def\<close>)
qed

lemma next_sphere: "edges_from adj (sphere adj a k) - ball adj a k = sphere adj a (Suc k)"
proof -
  have "sphere adj a (Suc k) = ball adj a (Suc k) - ball adj a k" by (auto simp: ball_def sphere_def)
  then show ?thesis unfolding next_ball [symmetric] by auto
qed

lemma empty_sphere:
  assumes "sphere adj a k = {}" "(a, v) \<in> (steps adj)\<^sup>*" shows "dist adj a v < k"
proof -
  have "dist adj a v \<noteq> j" if "k \<le> j" for j
    using that assms(2)
  proof (induction j arbitrary: v rule: dec_induct)
    case base
    then show ?case using assms(1) by (auto simp: sphere_def)
  next
    case (step j)
    show ?case
    proof
      assume d: "dist adj a v = Suc j"
      then have "v \<noteq> a" by auto
      then obtain u where "(a, u) \<in> (steps adj)\<^sup>*" "dist adj a v = Suc (dist adj a u)"
        using dist_pred [OF step.prems] by metis
      then show False using step.IH d by auto
    qed
  qed
  from this [of "dist adj a v"] show ?thesis by fastforce
qed

section \<open>The search finds a shortest path\<close>

text \<open>The predecessors lead back to the start, one step closer each.\<close>

definition prevs_ok :: "nat list list \<Rightarrow> nat \<Rightarrow> nat set \<Rightarrow> (nat \<Rightarrow> nat option) \<Rightarrow> bool" where
  "prevs_ok adj a seen prev \<longleftrightarrow>
     (\<forall>w \<in> seen - {a}. \<exists>u \<in> seen. prev w = Some u \<and> w \<in> set (nbrs adj u) \<and> dist adj a w = Suc (dist adj a u))"

definition level_ok :: "nat list list \<Rightarrow> nat \<Rightarrow> nat \<Rightarrow> nat \<Rightarrow> nat list \<Rightarrow> nat set \<Rightarrow> (nat \<Rightarrow> nat option) \<Rightarrow> bool" where
  "level_ok adj a to k frontier seen prev \<longleftrightarrow>
     set frontier = sphere adj a k \<and> seen = ball adj a k \<and> to \<notin> ball adj a k \<and> prevs_ok adj a seen prev"

lemma level_next:
  assumes "level_ok adj a to k frontier seen prev"
    and "scan_level adj to frontier (seen, prev, []) = Inr (seen', prev', next)"
  shows "level_ok adj a to (Suc k) next seen' prev'"
proof -
  note s = scan_level_Inr [OF assms(2)]
  have f: "set frontier = sphere adj a k" "seen = ball adj a k" "to \<notin> ball adj a k" "prevs_ok adj a seen prev"
    using assms(1) by (auto simp: level_ok_def)
  have b: "seen' = ball adj a (Suc k)" using s f(1,2) next_ball [of adj a k] by auto
  have n: "set next = sphere adj a (Suc k)" using s f(1,2) next_sphere [of adj a k] by auto
  have t: "to \<notin> ball adj a (Suc k)" using s f(1,3) unfolding next_ball [of adj a k, symmetric] by auto
  have "\<exists>u \<in> seen'. prev' w = Some u \<and> w \<in> set (nbrs adj u) \<and> dist adj a w = Suc (dist adj a u)" if w: "w \<in> seen' - {a}" for w
  proof (cases "w \<in> seen")
    case True
    then show ?thesis using f(4) w s by (fastforce simp: prevs_ok_def)
  next
    case False
    then have "w \<in> edges_from adj (set frontier) - seen" using w s by auto
    then obtain u where u: "u \<in> set frontier" "prev' w = Some u" "w \<in> set (nbrs adj u)" using s by blast
    have "w \<in> sphere adj a (Suc k)" using \<open>w \<in> edges_from adj (set frontier) - seen\<close> f(1,2) next_sphere by auto
    then have "dist adj a w = Suc (dist adj a u)" using u(1) f(1) by (auto simp: sphere_def)
    moreover have "u \<in> seen'" using u(1) f(1) b by (auto simp: sphere_def ball_def)
    ultimately show ?thesis using u by blast
  qed
  then show ?thesis using b n t by (simp add: level_ok_def prevs_ok_def)
qed

lemma bfs_finds:
  assumes "level_ok adj a to k frontier seen prev"
  shows "case bfs adj to frontier seen prev of
      None \<Rightarrow> (a, to) \<notin> (steps adj)\<^sup>*
    | Some (u, prev') \<Rightarrow> (a, to) \<in> (steps adj)\<^sup>* \<and> to \<in> set (nbrs adj u) \<and> dist adj a to = Suc (dist adj a u) \<and>
        (\<exists>seen. u \<in> seen \<and> prevs_ok adj a seen prev')"
  using assms
proof (induction adj to frontier seen prev arbitrary: k rule: bfs.induct)
  case (1 adj to frontier seen prev)
  have f: "set frontier = sphere adj a k" "seen = ball adj a k" "to \<notin> ball adj a k" "prevs_ok adj a seen prev"
    using "1.prems" by (auto simp: level_ok_def)
  show ?case
  proof (cases "frontier = []")
    case True
    then have "(a, to) \<notin> (steps adj)\<^sup>*" using f(1,3) empty_sphere [of adj a k to] by (auto simp: ball_def)
    then show ?thesis using True by (simp add: bfs.simps)
  next
    case ne: False
    show ?thesis
    proof (cases "scan_level adj to frontier (seen, prev, [])")
      case (Inl r)
      obtain u prev' where r: "r = (u, prev')" by (cases r)
      note s = scan_level_Inl [OF Inl [unfolded r]]
      have u: "(a, u) \<in> (steps adj)\<^sup>*" "dist adj a u = k" using s f(1) by (auto simp: sphere_def)
      have r': "(a, to) \<in> (steps adj)\<^sup>*" using dist_step(1) [OF u(1)] s by blast
      have "dist adj a to = Suc k" using dist_step(2) [OF u(1), of to] s u(2) f(3) r' by (auto simp: ball_def)
      moreover have "u \<in> seen" using u f(2) by (auto simp: ball_def)
      moreover have "prevs_ok adj a seen prev'" using f(4) s by (fastforce simp: prevs_ok_def)
      ultimately show ?thesis using Inl r ne r' s u(2) by (auto simp: bfs.simps)
    next
      case (Inr st)
      obtain seen' prev' "next" where st: "st = (seen', prev', next)" by (cases st)
      show ?thesis
        using "1.IH" [OF ne Inr st [symmetric] refl level_next [OF "1.prems" Inr [unfolded st]]] Inr st ne
        by (simp add: bfs.simps)
    qed
  qed
qed

lemma level_start: "a \<noteq> to \<Longrightarrow> level_ok adj a to 0 [a] {a} (\<lambda>_. None)"
proof -
  have z: "v = a" if "(a, v) \<in> (steps adj)\<^sup>*" "dist adj a v = 0" for v
    using that dist_pred by (metis nat.distinct(1))
  then show ?thesis if "a \<noteq> to" using that by (auto simp: level_ok_def sphere_def ball_def prevs_ok_def)
qed

abbreviation linked :: "nat list list \<Rightarrow> nat list \<Rightarrow> bool" where
  "linked adj \<equiv> successively (\<lambda>u w. (u, w) \<in> steps adj)"

lemma linked_relpow: "linked adj (x # xs) \<Longrightarrow> (x, last (x # xs)) \<in> steps adj ^^ length xs"
proof (induction xs arbitrary: x)
  case (Cons y xs)
  then have "(x, y) \<in> steps adj" "(y, last (y # xs)) \<in> steps adj ^^ length xs" by auto
  then have "(x, last (y # xs)) \<in> steps adj ^^ Suc (length xs)" by (rule relpow_Suc_I2)
  then show ?case by simp
qed simp

lemma dist_bound:
  assumes "(a, u) \<in> (steps adj)\<^sup>*" shows "dist adj a u \<le> length adj"
proof -
  have "\<exists>v < length adj. dist adj a v = j" if "j < dist adj a u" for j
    using assms that
  proof (induction "dist adj a u" arbitrary: u)
    case (Suc d)
    then have "u \<noteq> a" by auto
    then obtain v where v: "(a, v) \<in> (steps adj)\<^sup>*" "u \<in> set (nbrs adj v)" "dist adj a u = Suc (dist adj a v)"
      using dist_pred Suc.prems(1) by metis
    have "v < length adj" using v(2) by (auto simp: nbrs_def split: if_splits)
    then show ?case using Suc.hyps v Suc.prems(2) by (cases "j = dist adj a v") auto
  qed simp
  then obtain f where f: "\<And>j. j < dist adj a u \<Longrightarrow> f j < length adj \<and> dist adj a (f j) = j" by metis
  then have "inj_on f {..<dist adj a u}" by (auto intro: inj_on_inverseI [where g = "dist adj a"])
  then have "card {..<dist adj a u} \<le> card {..<length adj}" using f by (intro card_inj_on_le) auto
  then show ?thesis by simp
qed

lemma trace_back_ok:
  assumes "prevs_ok adj a seen prev" "u \<in> seen" "dist adj a u \<le> fuel" "linked adj (u # path)"
  shows "\<exists>p. trace_back fuel prev a u (u # path) = Return p \<and> p \<noteq> [] \<and> hd p = a \<and> linked adj p \<and>
    last p = last (u # path) \<and> length p = dist adj a u + 1 + length path"
  using assms(2-)
proof (induction fuel arbitrary: u path)
  case 0
  have "u = a"
  proof (rule ccontr)
    assume "u \<noteq> a"
    then obtain v where "dist adj a u = Suc (dist adj a v)" using assms(1) 0(1) unfolding prevs_ok_def by blast
    then show False using 0 by simp
  qed
  then show ?case using 0 by (auto simp: trace_back.simps)
next
  case (Suc fuel)
  show ?case
  proof (cases "u = a")
    case True
    then show ?thesis using Suc.prems by (auto simp: trace_back.simps)
  next
    case False
    then obtain v where v: "v \<in> seen" "prev u = Some v" "u \<in> set (nbrs adj v)" "dist adj a u = Suc (dist adj a v)"
      using assms(1) Suc.prems(1) by (auto simp: prevs_ok_def)
    have "linked adj (v # u # path)" using v(3) Suc.prems(3) by (simp add: steps_def)
    from Suc.IH [OF v(1) _ this] show ?thesis
      using v False Suc.prems(2) by (auto simp: trace_back.simps)
  qed
qed

text \<open>A shortest path of nodes, both ends included.\<close>

definition shortest_path :: "nat list list \<Rightarrow> nat \<Rightarrow> nat \<Rightarrow> nat list option \<Rightarrow> bool" where
  "shortest_path adj a b r \<longleftrightarrow>
     (case r of
        None \<Rightarrow> (a, b) \<notin> (steps adj)\<^sup>*
      | Some p \<Rightarrow> (a, b) \<in> (steps adj)\<^sup>* \<and> p \<noteq> [] \<and> hd p = a \<and> last p = b \<and> linked adj p \<and> length p = dist adj a b + 1)"

lemma bfs_path:
  assumes "a \<noteq> b"
  shows "case bfs adj b [a] {a} (\<lambda>_. None) of
      None \<Rightarrow> (a, b) \<notin> (steps adj)\<^sup>*
    | Some (u, prev) \<Rightarrow> \<exists>p. trace_back (length adj) prev a u [u] = Return p \<and> shortest_path adj a b (Some (p @ [b]))"
proof -
  note f = bfs_finds [OF level_start [OF assms], of adj]
  show ?thesis
  proof (cases "bfs adj b [a] {a} (\<lambda>_. None)")
    case None
    then show ?thesis using f by simp
  next
    case (Some r)
    obtain u prev where r: "r = (u, prev)" by (cases r)
    obtain seen where s: "(a, b) \<in> (steps adj)\<^sup>*" "b \<in> set (nbrs adj u)" "dist adj a b = Suc (dist adj a u)" "u \<in> seen"
      "prevs_ok adj a seen prev" using f Some r by auto
    have "dist adj a u \<le> length adj" using dist_bound [OF s(1)] s(3) by simp
    from trace_back_ok [OF s(5,4) this, of "[]"]
    obtain p where p: "trace_back (length adj) prev a u [u] = Return p" "p \<noteq> []" "hd p = a" "linked adj p"
      "last p = u" "length p = dist adj a u + 1" by auto
    have "linked adj (p @ [b])" using p(2,4,5) s(2) by (simp add: successively_append_iff steps_def)
    then show ?thesis using Some r p s(1,3) by (auto simp: shortest_path_def)
  qed
qed

lemma shortest_to_ok: "\<exists>r. shortest_to adj a b = Return r \<and> shortest_path adj a b r"
proof (cases "a = b")
  case True
  then show ?thesis by (simp add: shortest_to_def shortest_path_def)
next
  case False
  then show ?thesis
    using bfs_path [OF False, of adj] by (auto simp: shortest_to_def shortest_path_def split: option.splits)
qed

section \<open>The shortest cycle\<close>

definition is_cycle :: "(nat \<times> nat) set \<Rightarrow> nat list \<Rightarrow> bool" where
  "is_cycle E c \<longleftrightarrow> c \<noteq> [] \<and> successively (\<lambda>u w. (u, w) \<in> E) c \<and> (last c, hd c) \<in> E"

text \<open>The best of the paths \<open>g\<close> gives: a shortest one, when there is one.\<close>

definition best_of :: "nat list option \<Rightarrow> nat list option set \<Rightarrow> bool" where
  "best_of r G \<longleftrightarrow>
     (case r of
        None \<Rightarrow> G \<subseteq> {None}
      | Some p \<Rightarrow> Some p \<in> G \<and> (\<forall>q. Some q \<in> G \<longrightarrow> length p \<le> length q))"

lemma best_of_shorter: "best_of b G \<Longrightarrow> best_of (shorter b c) (insert c G)"
  by (auto simp: best_of_def shorter_def split: option.splits)

lemma fold_shorter:
  assumes "\<And>x. x \<in> set xs \<Longrightarrow> f x = Return (g x)" "best_of b G"
  shows "\<exists>r. fold_run (\<lambda>x best. run_bind (f x) (\<lambda>c. Return (shorter best c))) xs b = Return r \<and> best_of r (G \<union> g ` set xs)"
  using assms
proof (induction xs arbitrary: b G)
  case (Cons x xs)
  have "f x = Return (g x)" using Cons.prems(1) by simp
  moreover have "best_of (shorter b (g x)) (insert (g x) G)" using best_of_shorter [OF Cons.prems(2)] .
  ultimately show ?case using Cons.IH [of "shorter b (g x)" "insert (g x) G"] Cons.prems(1) by auto
qed simp

lemma best_of_None: "best_of None {}"
  by (simp add: best_of_def)

text \<open>A cycle through \<open>start\<close>: its child and the way back.\<close>

lemma node_cycle_ok:
  "\<exists>r g. node_cycle adj start = Return r \<and> best_of r (g ` set (nbrs adj start)) \<and>
     (\<forall>child. shortest_path adj child start (g child))"
proof -
  have "\<forall>child. \<exists>r. shortest_to adj child start = Return r \<and> shortest_path adj child start r"
    using shortest_to_ok by blast
  from choice [OF this]
  obtain g where g: "\<And>child. shortest_to adj child start = Return (g child) \<and> shortest_path adj child start (g child)" by blast
  then obtain r where "node_cycle adj start = Return r" "best_of r ({} \<union> g ` set (nbrs adj start))"
    using fold_shorter [of "nbrs adj start" "\<lambda>child. shortest_to adj child start" g None "{}"] best_of_None
    by (auto simp: node_cycle_def)
  then show ?thesis using g by auto
qed

lemma path_is_cycle:
  assumes "shortest_path adj child start (Some p)" "child \<in> set (nbrs adj start)"
  shows "is_cycle (steps adj) p"
  using assms by (auto simp: shortest_path_def is_cycle_def steps_def)

lemma cycle_length:
  assumes "is_cycle (steps adj) c"
  shows "hd c \<in> set (nbrs adj (last c))" "(hd c, last c) \<in> (steps adj)\<^sup>*" "dist adj (hd c) (last c) + 1 \<le> length c"
proof -
  obtain x xs where c: "c = x # xs" using assms by (cases c) (auto simp: is_cycle_def)
  show "hd c \<in> set (nbrs adj (last c))" using assms by (auto simp: is_cycle_def steps_def)
  have r: "(x, last c) \<in> steps adj ^^ length xs" using linked_relpow [of adj x xs] assms by (simp add: is_cycle_def c)
  show "(hd c, last c) \<in> (steps adj)\<^sup>*" using relpow_imp_rtrancl [OF r] by (simp add: c)
  have "dist adj x (last c) \<le> length xs" unfolding dist_def by (rule Least_le) (rule r)
  then show "dist adj (hd c) (last c) + 1 \<le> length c" by (simp add: c)
qed

definition is_shortest :: "(nat \<times> nat) set \<Rightarrow> nat list option \<Rightarrow> bool" where
  "is_shortest E r \<longleftrightarrow>
     (case r of
        None \<Rightarrow> \<not> (\<exists>c. is_cycle E c)
      | Some c \<Rightarrow> is_cycle E c \<and> length c = (LEAST n. \<exists>c'. is_cycle E c' \<and> length c' = n))"

lemma shortest_cycle_ok:
  assumes "set nodes \<supseteq> {..<length adj}"
  shows "\<exists>r. shortest_cycle adj nodes = Return r \<and> is_shortest (steps adj) r"
proof -
  let ?f = "\<lambda>start best. if nbrs adj start = [] then Return best
        else run_bind (node_cycle adj start) (\<lambda>c. Return (shorter best c))"
  have "\<exists>r g. node_cycle adj start = Return r \<and> best_of r (g ` set (nbrs adj start)) \<and>
     (\<forall>child. shortest_path adj child start (g child))" for start by (rule node_cycle_ok)
  then obtain n g where n: "\<And>s. node_cycle adj s = Return (n s)" "\<And>s. best_of (n s) (g s ` set (nbrs adj s))"
    "\<And>s child. shortest_path adj child s (g s child)" by metis
  have skip: "?f s best = run_bind (node_cycle adj s) (\<lambda>c. Return (shorter best c))" for s best
    using n(1,2) [of s] by (auto simp: best_of_def shorter_def split: option.splits)
  obtain r where r: "shortest_cycle adj nodes = Return r" "best_of r ({} \<union> n ` set nodes)"
    using fold_shorter [of nodes "node_cycle adj" n None "{}"] best_of_None n(1)
    unfolding shortest_cycle_def skip by auto
  have found: "is_cycle (steps adj) c" if s: "n s = Some c" for s c
  proof -
    obtain child where "child \<in> set (nbrs adj s)" "g s child = Some c" using n(2) [of s] s by (auto simp: best_of_def)
    then show ?thesis using path_is_cycle n(3) [where child = child and s = s] by auto
  qed
  have shorter: "\<exists>p. n (last c) = Some p \<and> last c \<in> set nodes \<and> length p \<le> length c" if c: "is_cycle (steps adj) c" for c
  proof -
    note l = cycle_length [OF c]
    obtain p where p: "g (last c) (hd c) = Some p" "length p = dist adj (hd c) (last c) + 1"
      using n(3) [of "hd c" "last c"] l(2) by (auto simp: shortest_path_def split: option.splits)
    have "last c < length adj" using l(1) by (auto simp: nbrs_def split: if_splits)
    moreover have "\<exists>q. n (last c) = Some q \<and> length q \<le> length p"
    proof -
      have "Some p \<in> g (last c) ` set (nbrs adj (last c))" using l(1) p(1) by (metis image_eqI)
      then show ?thesis using n(2) [of "last c"] by (cases "n (last c)") (auto simp: best_of_def)
    qed
    ultimately show ?thesis using assms p(2) l(3) by fastforce
  qed
  have "is_shortest (steps adj) r"
  proof (cases r)
    case None
    then have "n s = None" if "s \<in> set nodes" for s using r(2) that by (auto simp: best_of_def)
    then show ?thesis using None shorter by (fastforce simp: is_shortest_def)
  next
    case (Some c)
    then obtain s where s: "s \<in> set nodes" "n s = Some c" using r(2) by (auto simp: best_of_def)
    have "length c \<le> length c'" if c': "is_cycle (steps adj) c'" for c'
    proof -
      obtain p where p: "n (last c') = Some p" "last c' \<in> set nodes" "length p \<le> length c'" using shorter [OF c'] by blast
      then have "Some p \<in> n ` set nodes" by (metis image_eqI)
      then have "length c \<le> length p" using r(2) Some by (simp add: best_of_def)
      then show ?thesis using p(3) by simp
    qed
    then have "length c = (LEAST k. \<exists>c'. is_cycle (steps adj) c' \<and> length c' = k)"
      using found [OF s(2)] by (intro Least_equality [symmetric]) auto
    then show ?thesis using Some found [OF s(2)] by (simp add: is_shortest_def)
  qed
  then show ?thesis using r(1) by blast
qed

section \<open>Hard cycles\<close>

definition hard_edges :: "cycle_graph \<Rightarrow> (nat \<times> nat) set" where
  "hard_edges cg = {(u, w). u < length (cg_entries cg) \<and> w \<in> set (hard_children cg u)}"

lemma hard_steps: "steps (hard_adjacency cg order) = hard_edges cg"
  by (auto simp: steps_def nbrs_def hard_adjacency_def hard_edges_def)

lemma add_slot_op_bound:
  assumes "\<forall>w \<in> set ch. merge_bound_cpv (cg_entries cg ! w) \<noteq> None"
  shows "\<forall>w \<in> set (fold (add_slot_op cg oi) ds ch). merge_bound_cpv (cg_entries cg ! w) \<noteq> None"
  using assms
proof (induction ds arbitrary: ch)
  case (Cons d ds)
  have "\<forall>w \<in> set (add_slot_op cg oi d ch). merge_bound_cpv (cg_entries cg ! w) \<noteq> None"
    using Cons.prems lookup_merge_bound
    by (auto simp: add_slot_op_def dep_child_lookup_def split: option.splits)
  then show ?case using Cons.IH by simp
qed simp

lemma in_map_filter: "y \<in> set (List.map_filter f xs) \<longleftrightarrow> (\<exists>x \<in> set xs. f x = Some y)"
  by (force simp: List.map_filter_def)

lemma recorded_edge:
  assumes "(oi, di) \<in> set (recorded_edges cg)"
  obtains k where "root_cp_lookup (cg_entries cg) k = Some di"
proof -
  obtain dep owner hard soft where "((dep, owner), (hard, soft)) \<in> set (cg_kinds cg)"
    "(case (root_cp_lookup (cg_entries cg) owner, root_cp_lookup (cg_entries cg) dep) of
        (Some oi, Some di) \<Rightarrow>
          let h = (hard \<and> \<not> soft \<or> slot_op_hard cg oi di)
          in if h \<and> (oi = di \<longrightarrow> owner_self_loop cg oi) then Some (oi, di) else None
      | _ \<Rightarrow> None) = Some (oi, di)"
    using assms unfolding recorded_edges_def in_map_filter by auto
  then show thesis using that by (auto simp: Let_def split: option.splits if_splits)
qed

lemma hard_child_bound:
  assumes "(u, w) \<in> hard_edges cg" shows "merge_bound_cpv (cg_entries cg ! w) \<noteq> None"
proof -
  have r: "merge_bound_cpv (cg_entries cg ! w) \<noteq> None" if "(o', w) \<in> set (recorded_edges cg)" for o' w
    using recorded_edge [OF that] lookup_merge_bound by blast
  then show ?thesis
    using assms add_slot_op_bound [of "map snd (filter (\<lambda>(o', _). o' = u) (recorded_edges cg))" cg u "kept_deps cg u"]
    by (fastforce simp: hard_edges_def hard_children_def Let_def split: if_splits)
qed

lemma cycle_cpvs_ok:
  "\<forall>i \<in> set c. merge_bound_cpv (entries ! i) \<noteq> None \<Longrightarrow>
   \<exists>cpvs. cycle_cpvs entries c = Return cpvs \<and> map (\<lambda>i. merge_bound_cpv (entries ! i)) c = map Some cpvs"
  by (induction c) auto

text \<open>
  C6: \<open>find_hard_cycles\<close> never panics in its own code (for the comparison of versions see
  \<open>match_list_wanted\<close>). It reports nothing exactly when the hard edges have no cycle, and
  otherwise one cycle of them, of the least length.
\<close>

theorem hard_cycle_shortest:
  "\<exists>r. find_hard_cycles cg atoms onlydeps = Return r \<and>
     (case r of
        [] \<Rightarrow> \<not> (\<exists>c. is_cycle (hard_edges cg) c)
      | [cpvs] \<Rightarrow> \<exists>c. is_cycle (hard_edges cg) c \<and> length c = (LEAST n. \<exists>c'. is_cycle (hard_edges cg) c' \<and> length c' = n) \<and>
          map (\<lambda>i. merge_bound_cpv (cg_entries cg ! i)) c = map Some cpvs
      | _ \<Rightarrow> False)"
proof -
  let ?order = "insertion_order cg atoms onlydeps"
  let ?nodes = "sort_by (order_cmp ?order) [0..<length (cg_entries cg)]"
  have "{..<length (hard_adjacency cg ?order)} \<subseteq> set ?nodes" by (auto simp: hard_adjacency_def)
  from shortest_cycle_ok [OF this]
  obtain b where b: "shortest_cycle (hard_adjacency cg ?order) ?nodes = Return b" "is_shortest (hard_edges cg) b"
    unfolding hard_steps by blast
  show ?thesis
  proof (cases b)
    case None
    then show ?thesis using b by (simp add: find_hard_cycles_def Let_def is_shortest_def)
  next
    case (Some c)
    then have c: "is_cycle (hard_edges cg) c" using b(2) by (simp add: is_shortest_def)
    have "\<forall>i \<in> set c. merge_bound_cpv (cg_entries cg ! i) \<noteq> None"
    proof
      fix i assume "i \<in> set c"
      then obtain xs ys where xs: "c = xs @ i # ys" using split_list by metis
      then have "\<exists>u. (u, i) \<in> hard_edges cg"
        using c by (cases xs rule: rev_cases) (auto simp: is_cycle_def successively_append_iff)
      then show "merge_bound_cpv (cg_entries cg ! i) \<noteq> None" using hard_child_bound by blast
    qed
    then obtain cpvs where "cycle_cpvs (cg_entries cg) c = Return cpvs"
      "map (\<lambda>i. merge_bound_cpv (cg_entries cg ! i)) c = map Some cpvs" using cycle_cpvs_ok by metis
    then show ?thesis using b c Some by (auto simp: find_hard_cycles_def Let_def is_shortest_def)
  qed
qed

section \<open>Restart cycles\<close>

lemma fold_run_cycles:
  assumes "\<And>x. x \<in> set xs \<Longrightarrow> f x = Return (g x)"
  shows "fold_run (\<lambda>x cs. run_bind (f x) (\<lambda>c. Return (case c of None \<Rightarrow> cs | Some cyc \<Rightarrow> cs @ [cyc]))) xs cs =
    Return (cs @ List.map_filter g xs)"
  using assms by (induction xs arbitrary: cs) (auto split: option.splits)

definition trigger_edges :: "cycle_graph \<Rightarrow> (nat \<times> nat) set" where
  "trigger_edges cg = {(u, w). u < length (trigger_adjacency cg) \<and> w \<in> fst ` set (trigger_adjacency cg ! u)}"

definition hard_triggers :: "cycle_graph \<Rightarrow> (nat \<times> nat) list" where
  "hard_triggers cg =
     concat (map (\<lambda>u. map (\<lambda>(v, _). (u, v)) (filter snd (trigger_adjacency cg ! u)))
       [0..<length (trigger_adjacency cg)])"

lemma trigger_steps: "steps (map (map fst) (trigger_adjacency cg)) = trigger_edges cg"
  by (force simp: steps_def nbrs_def trigger_edges_def)

lemma nth_update_if: "xs[i := x] ! j = (if i = j \<and> j < length xs then x else xs ! j)"
  by (cases "i < length xs") (auto simp: nth_list_update list_update_beyond)

lemma add_trigger_elem:
  assumes "x \<in> set (add_trigger (oi, di, hard) adj ! u)"
  shows "x \<in> set (adj ! u) \<or> u = oi \<and> oi \<noteq> di \<and> fst x = di"
proof (cases "oi = di")
  case False
  show ?thesis
  proof (cases "position (\<lambda>(t, _). t = di) (adj ! oi)")
    case None
    then show ?thesis using assms False by (auto simp: add_trigger_def nth_update_if split: if_splits)
  next
    case (Some k)
    have "x \<in> insert (di, snd (adj ! oi ! k) \<or> hard) (set (adj ! u))" if "u = oi"
      using assms False Some that set_update_subset_insert [of "adj ! oi" k "(di, snd (adj ! oi ! k) \<or> hard)"]
      by (auto simp: add_trigger_def nth_update_if split: if_splits)
    then show ?thesis using assms False Some by (auto simp: add_trigger_def nth_update_if split: if_splits)
  qed
qed (use assms in \<open>simp add: add_trigger_def\<close>)

lemma add_trigger_length [simp]: "length (add_trigger e adj) = length adj"
  by (auto simp: add_trigger_def split: prod.split option.split)

lemma fold_trigger_irrefl:
  "\<forall>u < length adj. \<forall>x \<in> set (adj ! u). fst x \<noteq> u \<Longrightarrow>
   \<forall>u < length adj. \<forall>x \<in> set (fold add_trigger es adj ! u). fst x \<noteq> u"
proof (induction es arbitrary: adj)
  case (Cons e es)
  obtain oi di hard where e: "e = (oi, di, hard)" by (cases e)
  have "\<forall>u < length (add_trigger e adj). \<forall>x \<in> set (add_trigger e adj ! u). fst x \<noteq> u"
    using Cons.prems add_trigger_elem unfolding e by fastforce
  from Cons.IH [OF this] show ?case by simp
qed simp

lemma trigger_irrefl:
  assumes "(u, v) \<in> set (hard_triggers cg)" shows "u \<noteq> v"
proof -
  obtain h where h: "(v, h) \<in> set (trigger_adjacency cg ! u)" "u < length (trigger_adjacency cg)"
    using assms by (auto simp: hard_triggers_def)
  have len: "length (fold add_trigger es adj) = length adj" for es adj by (induction es arbitrary: adj) auto
  show ?thesis
    using fold_trigger_irrefl [of "replicate (length (cg_entries cg)) []" "recorded_triggers cg @ dep_triggers cg"] h
    by (force simp: trigger_adjacency_def len)
qed

text \<open>
  C39: \<open>find_restart_cycles\<close> never panics in its own code. It returns one cycle for each hard edge whose target leads back to
  its owner, in the order of the edges: the edge and a shortest way back.
\<close>

theorem restart_cycles_exact:
  "\<exists>cycles. find_restart_cycles cg = Return cycles \<and>
     list_all2 (\<lambda>(u, v) c. is_cycle (trigger_edges cg) c \<and> take 2 c = [u, v] \<and>
         length c = dist (map (map fst) (trigger_adjacency cg)) v u + 1)
       (filter (\<lambda>(u, v). (v, u) \<in> (trigger_edges cg)\<^sup>*) (hard_triggers cg)) cycles"
proof -
  let ?adj = "map (map fst) (trigger_adjacency cg)"
  have step: "\<exists>r. restart_cycle ?adj u v = Return r \<and>
      (case r of None \<Rightarrow> (v, u) \<notin> (trigger_edges cg)\<^sup>*
       | Some c \<Rightarrow> (v, u) \<in> (trigger_edges cg)\<^sup>* \<and> is_cycle (trigger_edges cg) c \<and> take 2 c = [u, v] \<and> length c = dist ?adj v u + 1)"
    if "(u, v) \<in> set (hard_triggers cg)" for u v
  proof -
    have e: "(u, v) \<in> trigger_edges cg" using that by (force simp: hard_triggers_def trigger_edges_def)
    note b = bfs_path [OF trigger_irrefl [OF that, symmetric], of ?adj]
    show ?thesis
    proof (cases "bfs ?adj u [v] {v} (\<lambda>_. None)")
      case None
      then show ?thesis using b by (simp add: restart_cycle_def trigger_steps)
    next
      case (Some r)
      obtain x prev where r: "r = (x, prev)" by (cases r)
      obtain p where p: "trace_back (length ?adj) prev v x [x] = Return p" "shortest_path ?adj v u (Some (p @ [u]))"
        using b Some r by auto
      have s: "p \<noteq> []" using p(2) trigger_irrefl [OF that] by (cases p) (auto simp: shortest_path_def)
      then have "is_cycle (trigger_edges cg) (u # p)" "take 2 (u # p) = [u, v]"
        using p(2) e
        by (cases p; auto simp: shortest_path_def is_cycle_def trigger_steps successively_append_iff successively_Cons)+
      then show ?thesis using Some r p by (auto simp: restart_cycle_def shortest_path_def trigger_steps)
    qed
  qed
  let ?P = "\<lambda>x r. (case r of None \<Rightarrow> (snd x, fst x) \<notin> (trigger_edges cg)\<^sup>*
       | Some c \<Rightarrow> (snd x, fst x) \<in> (trigger_edges cg)\<^sup>* \<and> is_cycle (trigger_edges cg) c \<and> take 2 c = [fst x, snd x] \<and>
           length c = dist ?adj (snd x) (fst x) + 1)"
  have "\<forall>x \<in> set (hard_triggers cg). \<exists>r. (case x of (u, v) \<Rightarrow> restart_cycle ?adj u v) = Return r \<and> ?P x r"
  proof
    fix x assume x: "x \<in> set (hard_triggers cg)"
    then show "\<exists>r. (case x of (u, v) \<Rightarrow> restart_cycle ?adj u v) = Return r \<and> ?P x r"
      using step [of "fst x" "snd x"] by (simp add: case_prod_unfold)
  qed
  then obtain g where g: "\<And>x. x \<in> set (hard_triggers cg) \<Longrightarrow> (case x of (u, v) \<Rightarrow> restart_cycle ?adj u v) = Return (g x) \<and> ?P x (g x)"
    using bchoice [of "set (hard_triggers cg)" "\<lambda>x r. (case x of (u, v) \<Rightarrow> restart_cycle ?adj u v) = Return r \<and> ?P x r"] by blast
  have f: "find_restart_cycles cg = Return (List.map_filter g (hard_triggers cg))"
    using fold_run_cycles [of "hard_triggers cg" "\<lambda>(u, v). restart_cycle ?adj u v" g "[]"] g
    by (simp add: find_restart_cycles_def hard_triggers_def Let_def case_prod_unfold)
  have "list_all2 (\<lambda>(u, v) c. is_cycle (trigger_edges cg) c \<and> take 2 c = [u, v] \<and> length c = dist ?adj v u + 1)
      (filter (\<lambda>(u, v). (v, u) \<in> (trigger_edges cg)\<^sup>*) xs) (List.map_filter g xs)"
    if "\<forall>x \<in> set xs. ?P x (g x)" for xs
    using that by (induction xs) (auto split: option.splits)
  then show ?thesis using f g by blast
qed

end
