(* ===== verification/Spec2Isabelle.thy ===== *)
theory Spec2Isabelle
  imports Versions RequiredUseTree DepChoice Affecting AtomMemo SerializeTotal DriverRuns SlotSolverOk HardCyclesOk
begin

text \<open>
  Portuale is a Rust implementation of the Portage package manager. This library models the decision
  logic of its resolver: the languages it reads (versions, REQUIRED_USE, dependency strings, atoms), the
  backtracking search over resolver passes, the slot-conflict handler, and the scheduler that orders the
  merges. All paths below are under \<open>src/crates/\<close>; the resolver is the crate \<open>portage-repo/src\<close>.

  \<^bold>\<open>How the parts interact.\<close> A request starts \<open>backtracking_resolve\<close> (\<open>resolve/driver.rs\<close>). Each round takes
  a node of the search tree (\<open>resolve/backtracker.rs\<close>), runs one pass of the resolver with the parameters
  of the node, and hands the pass to the decision chain (\<open>resolve/feedback/\<close>), which settles the search
  or feeds back new parameters, one child for each mask of a slot conflict. A pass that has failed is
  replayed (\<open>resolve/replay.rs\<close>, \<open>merge_order/replay.rs\<close>) to find what Portage reports when it stops at
  the first failing dependency. When conflicts remain, the slot-conflict handler looks for USE changes
  that solve them; finding one ends the search. The entries of the result go to \<open>serialize_merge_order\<close>
  (\<open>merge_order/\<close>), which adds the installed closure, builds a digraph of labelled edges, prunes it and
  emits its nodes leaf by leaf, breaking cycles at the weakest edges. All of these read atoms, USE
  dependencies and dependency strings through the leaf crates.

  \<^bold>\<open>Theories and sources.\<close>

  \<^item> \<open>Prelude\<close>: Rust's \<open>Ordering\<close>, string scanning, grouping parentheses, the outcome type \<open>run\<close> and the
    locale \<open>comparison\<close> (a comparison through a key), interpreted in \<open>Versions\<close>.
  \<^item> \<open>Versions\<close>: \<open>portage-versions/src/lib.rs\<close>. The order \<open>vercmp\<close> is that of a key, but for the
    padding of a component beyond the width of a format, where it panics; the version grammar is the one of
    \<open>ververify\<close>.
  \<^item> \<open>RequiredUse\<close>, \<open>RequiredUseTree\<close>: \<open>portage-required-use/src/lib.rs\<close>. Both evaluators against the
    satisfaction of a grammar, their own reading and the one of the specification; where they agree, and by
    how much they differ for conditionals directly below an operator.
  \<^item> \<open>UseReduce\<close> (the code), \<open>DepGrammar\<close> (the grammar and the locale \<open>dep_walk\<close>, the contract of a walk over
    tokens), \<open>DepReduce\<close> (its three interpretations), \<open>DepStructured\<close>, \<open>DepSubset\<close>, \<open>DepChoice\<close>:
    \<open>portage-use-reduce/src/lib.rs\<close>. What each walk returns on a well-formed string, that it rejects the others,
    that brackets removed do not change the meaning, which alternative of each any-of group is taken, and
    what this makes of emptied and of nested groups.
  \<^item> \<open>Eapi\<close>: \<open>portage-dep/src/eapi.rs\<close>.
  \<^item> \<open>Atom\<close>, \<open>Regex\<close>, \<open>AtomParse\<close>, \<open>AtomRound\<close>, \<open>AtomMatch\<close>, \<open>AtomMemo\<close>: \<open>portage-dep/src/lib.rs\<close> and
    \<open>specificity.rs\<close>. The patterns are terms of a small language of regular expressions with a
    leftmost-first matcher; printing and parsing, matching, the meaning of USE dependencies, and the
    memo tables (locale \<open>memo_table\<close>, interpreted for the four tables). \<open>Affecting\<close>: \<open>extract_affecting_use\<close>,
    the flags that decide whether a reduction leaves an atom.
  \<^item> \<open>Priority\<close>, \<open>Digraph\<close>, \<open>Frontier\<close>: \<open>merge_order/priority.rs\<close>, \<open>digraph.rs\<close>. The labels of an edge, the
    ladders of ignore rungs, the graph, and the serialize frontier, which answers as a scan of the graph does.
  \<^item> \<open>Entries\<close>, \<open>Vdb\<close>, \<open>DepTargets\<close>, \<open>Closure\<close>, \<open>Cycles\<close>, \<open>CycleSearch\<close>, \<open>Select\<close>, \<open>SelectOrder\<close>,
    \<open>SelectTotal\<close>, \<open>Build\<close>, \<open>BuildOk\<close>, \<open>ScheduleOk\<close>, \<open>SerializeTotal\<close>: \<open>resolve/entry.rs\<close>,
    \<open>resolve/outcome.rs\<close>, \<open>resolve/merge_bound.rs\<close>, \<open>installed.rs\<close>, \<open>reinstall.rs\<close> and the rest of \<open>merge_order/\<close>.
    The scheduler ends, does not panic, returns a permutation of the entries, and respects the hard
    dependencies when they have no cycle.
  \<^item> \<open>ConfigMatch\<close>, \<open>Candidates\<close>: \<open>config_match.rs\<close>, \<open>candidates.rs\<close>, parts of \<open>resolve/cycles.rs\<close> and
    \<open>visibility.rs\<close>. The bucket index against a scan of the list; the split of a package name.
  \<^item> \<open>BacktrackParams\<close>, \<open>Backtracker\<close>, \<open>BacktrackerOk\<close>: \<open>resolve/backtrack_params.rs\<close>, \<open>backtracker.rs\<close>, and
    the mask choices of \<open>slot_conflict.rs\<close>, \<open>rev_dep.rs\<close> and \<open>pretend.rs\<close>. The invariant of the search tree.
  \<^item> \<open>Feedback\<close>, \<open>FeedbackOk\<close>: \<open>resolve/feedback/\<close>, twelve files, one definition for each step of the chain.
  \<^item> \<open>Replay\<close>, \<open>ReplayOk\<close>, \<open>PassReplay\<close>, \<open>PassReplayOk\<close>: \<open>merge_order/replay.rs\<close>, \<open>resolve/replay.rs\<close>.
  \<^item> \<open>Driver\<close>, \<open>DriverOk\<close>, \<open>DriverRuns\<close>: \<open>resolve/driver.rs\<close>. The search ends, and its restarts are within the
    budget in all arms but one; concrete runs of the loop.
  \<^item> \<open>SlotSolver\<close>, \<open>SlotSolverOk\<close>: \<open>resolve/slot_conflict_solutions.rs\<close>, \<open>slot_conflict_inputs.rs\<close>. Which
    configurations are tried, that a solution satisfies every parent package, that the changes are minimal.
  \<^item> \<open>HardCycles\<close>, \<open>HardCyclesOk\<close>: \<open>resolve/cycles.rs\<close> up to \<open>cycle_edge_labels\<close>, with \<open>resolve/merge_bound.rs\<close>.
    The searches are exact: a shortest cycle, and one restart cycle for each hard edge that lies on one.

  \<^bold>\<open>Conventions.\<close> Structs are records with a prefix for their fields, enums are datatypes. A definition
  carries the name of its function where that name is free; a loop body or a closure of a long function has
  a name of its own. Errors are \<open>Inl\<close> or \<open>None\<close> as in the source; an index out of range, an \<open>unwrap\<close> or an
  \<open>expect\<close> that fails is \<open>Panic\<close> of the type \<open>run\<close>, and theorems state that it does not occur.
  Where a call provably cannot panic its result is used directly (\<open>atoms_never_panic\<close> is the reason for
  the parsers of atoms). A \<open>HashSet\<close> is a set and a \<open>HashMap\<close> a finite map; where the iteration order of a hash
  set could show in a result, the order is a parameter and the theorems hold for each. A binary heap
  is the list of its elements. Sorting is the stable sort of the library; Rust's may panic for a
  comparator that is no total order, such as one that takes a pair of versions that cannot be compared for
  equal, and the model's does not. Strings are lists of ASCII
  characters: the character classes of the patterns and the case and space tests are the ASCII ones.
  Masks and surviving counts of the frontier are \<open>64 word\<close> and \<open>32 word\<close>, the counters of a search node are
  \<open>32 word\<close>, version components that overflow \<open>i128\<close> have a constructor of their own; list indices and
  the counters of the driver, which need \<open>2^64\<close> passes to wrap, are natural numbers.

  \<^bold>\<open>Long versions.\<close> Comparing two versions pads their dotted components with \<open>format!\<close>, which panics when
  the width is above 65535. \<open>Versions\<close>, \<open>AtomMatch\<close> and \<open>AtomMemo\<close> have this panic and say when it occurs.
  The other theories read a comparison that panics as one without a match, or as equal, so what they say of panics is about those of the resolver itself, and of the order of versions
  about versions without such components. The limit of the regex crate on the size of the pattern that a
  wildcard atom is compiled to is not modelled.

  \<^bold>\<open>Loops.\<close> Recursion that is not structural has a \<open>termination\<close> proof: the odometer of the slot-conflict
  handler by the lexicographic order of the digits left, the walks over tokens by their lengths. Loops
  whose end depends on an invariant are \<open>while_option\<close> or \<open>partial_function (option)\<close>, with \<open>None\<close> for a
  run that does not end: the digraph build, the closure, the prune, the bias, the selection, the replay
  and the driver. For each of them a theorem says that the result is \<open>Some\<close> (\<open>build_digraph_wellformed\<close>,
  \<open>merge_order_permutation\<close>, \<open>replay_needed_kept\<close>, \<open>search_ends\<close>). The only fuel is that of \<open>trace_back\<close>, which
  follows the predecessors of a breadth-first search: the number of nodes is enough, since each step comes
  closer to the start, and \<open>hard_cycle_shortest\<close> and \<open>restart_cycles_exact\<close> say that it never runs out.
  The bounds of the source are kept as they are: 1024 flag settings for a configuration of packages, four
  conflicts for the full search, as many rounds as there are entries for the chain of a failing parent.

  \<^bold>\<open>Parameters.\<close> What the modelled code calls and the library does not model is an argument or a field of a
  record: the callbacks of the dependency walks, with a state of their own; \<open>vdb_view\<close>, \<open>repo_view\<close> and
  \<open>node_view\<close>, what is read of the installed packages, the repositories and the profile;
  \<open>profile_view\<close>, the USE flags the profile computes; \<open>scanners\<close>, the scans of the decision chain;
  \<open>resolver\<close>, the walk of a pass, the assembly of the result and the context. No law is assumed of
  them unless a theorem says so, and each such theorem has a witness with concrete functions.

  \<^bold>\<open>Not modelled.\<close>

  \<^item> The walk of a pass (\<open>resolve/pass/\<close>, \<open>enqueue.rs\<close>, \<open>queue.rs\<close>, \<open>or_preference.rs\<close>, \<open>disjunction_stack.rs\<close>,
    \<open>slot_expand.rs\<close>, \<open>blockers.rs\<close>), the scans (\<open>rev_dep.rs\<close>, \<open>rev_dep_or.rs\<close>, \<open>slot_operator/\<close>) and the assembly of
    the result (\<open>assemble.rs\<close>): they read configuration, repositories and the installed database at every
    step, through caches, and are parameters here.
  \<^item> \<open>solver_bridge.rs\<close>: it translates a request for an external solver, whose crate is not in the repository.
  \<^item> Cycle reports, conflict and USE displays, traces and debug dumps: text for the user that feeds nothing back.
  \<^item> The crates \<open>portage-fetch\<close>, \<open>portage-profile\<close>, \<open>portage-util\<close>, \<open>portage-vdb\<close>, \<open>portuale\<close>,
    \<open>mrg-director\<close> and the harnesses: file systems, databases, processes, the network and the command line.
\<close>

end
